(* ===== verification/Strings.thy ===== *)
theory Strings
  imports Prelude
begin

text \<open>
  The string types of \<open>string/subtypes.rs\<close> and \<open>string/subtypes/macros.rs\<close>.  Every newtype over
  \<open>Bytes\<close> is generated by one macro from a byte check, a check of the whole string and the next
  more general type, so the hierarchy is modelled as a datatype of type names with these three
  attributes as functions of it.  A value of a newtype is its byte string; \<open>valid t\<close> is the
  invariant the newtype keeps.
\<close>

section \<open>Errors (\<open>error.rs\<close>)\<close>

datatype InvalidString = Empty | Colon | Byte byte

text \<open>
  \<open>InvalidField\<close> carries a field name and a boxed error; the box is kept as the text it is built
  from in the sources.
\<close>

datatype ParseError =
    TooLong
  | MissingField string
  | InvalidField string string
  | InvalidLine InvalidString
  | InvalidNick InvalidString
  | InvalidUser InvalidString
  | InvalidHost InvalidString
  | InvalidKind InvalidString

section \<open>The newtypes\<close>

datatype strtype = Bytes | NoNul | Line | Word | Arg | Key | Nick | User | Cmd

definition is_invalid_for_nonul :: "byte \<Rightarrow> bool" where
  "is_invalid_for_nonul b \<longleftrightarrow> b = CHR 0x00"

definition is_invalid_for_line :: "bool \<Rightarrow> byte \<Rightarrow> bool" where
  "is_invalid_for_line chain b \<longleftrightarrow>
     b \<in> {CHR 0x0D, CHR 0x0A} \<or> (if chain then is_invalid_for_nonul b else False)"

definition is_invalid_for_word :: "bool \<Rightarrow> byte \<Rightarrow> bool" where
  "is_invalid_for_word chain b \<longleftrightarrow>
     b = CHR '' '' \<or> (if chain then is_invalid_for_line True b else False)"

definition arg_first_check :: "bytes \<Rightarrow> InvalidString option" where
  "arg_first_check bs =
     (case bs of [] \<Rightarrow> Some Empty | b # _ \<Rightarrow> if b = CHR '':'' then Some Colon else None)"

definition is_invalid_for_key :: "bool \<Rightarrow> byte \<Rightarrow> bool" where
  "is_invalid_for_key chain b \<longleftrightarrow>
     b \<in> {CHR ''='', CHR '';''} \<or> (if chain then is_invalid_for_word True b else False)"

definition is_invalid_for_nick :: "bool \<Rightarrow> byte \<Rightarrow> bool" where
  "is_invalid_for_nick chain b \<longleftrightarrow>
     b \<in> {CHR ''!'', CHR ''@''} \<or> (if chain then is_invalid_for_word True b else False)"

definition is_invalid_for_user :: "bool \<Rightarrow> byte \<Rightarrow> bool" where
  "is_invalid_for_user chain b \<longleftrightarrow>
     b \<in> {CHR ''@'', CHR ''%''} \<or> (if chain then is_invalid_for_word True b else False)"

definition cmd_byte_check :: "byte \<Rightarrow> bool" where
  "cmd_byte_check b \<longleftrightarrow> \<not> is_ascii_uppercase b"

text \<open>The \<open>$bcheck\<close> and \<open>$ocheck\<close> arguments of each \<open>impl_subtype!\<close>.\<close>

fun is_invalid :: "strtype \<Rightarrow> byte \<Rightarrow> bool" where
  "is_invalid Bytes b = False"
| "is_invalid NoNul b = is_invalid_for_nonul b"
| "is_invalid Line b = is_invalid_for_line True b"
| "is_invalid Word b = is_invalid_for_word True b"
| "is_invalid Arg b = is_invalid_for_word True b"
| "is_invalid Key b = is_invalid_for_key True b"
| "is_invalid Nick b = is_invalid_for_nick True b"
| "is_invalid User b = is_invalid_for_user True b"
| "is_invalid Cmd b = cmd_byte_check b"

fun check_others :: "strtype \<Rightarrow> bytes \<Rightarrow> InvalidString option" where
  "check_others Bytes bs = None"
| "check_others NoNul bs = None"
| "check_others Line bs = None"
| "check_others Word bs = None"
| "check_others Arg bs = arg_first_check bs"
| "check_others Key bs = arg_first_check bs"
| "check_others Nick bs = arg_first_check bs"
| "check_others User bs = arg_first_check bs"
| "check_others Cmd bs = arg_first_check bs"

text \<open>The \<open>check_bytes!\<close> loop: the first byte the check rejects.\<close>

fun check_bytes :: "(byte \<Rightarrow> bool) \<Rightarrow> bytes \<Rightarrow> InvalidString option" where
  "check_bytes f [] = None"
| "check_bytes f (b # bs) = (if f b then Some (Byte b) else check_bytes f bs)"

definition find_invalid :: "strtype \<Rightarrow> bytes \<Rightarrow> InvalidString option" where
  "find_invalid t bs =
     (case check_others t bs of
        Some e \<Rightarrow> Some e
      | None \<Rightarrow> check_bytes (is_invalid t) bs)"

definition from_bytes :: "strtype \<Rightarrow> bytes \<Rightarrow> (bytes, InvalidString) result" where
  "from_bytes t bs = (case find_invalid t bs of Some e \<Rightarrow> Inl e | None \<Rightarrow> Inr bs)"

text \<open>\<open>from_str\<close> panics on invalid input: \<open>None\<close>.\<close>

definition from_str :: "strtype \<Rightarrow> bytes \<Rightarrow> bytes option" where
  "from_str t s = (if find_invalid t s \<noteq> None then None else Some s)"

text \<open>The \<open>$ssuper\<close> argument, and the check that \<open>from_super\<close> performs on top of it.\<close>

fun super :: "strtype \<Rightarrow> strtype" where
  "super Bytes = Bytes"
| "super NoNul = Bytes"
| "super Line = NoNul"
| "super Word = Line"
| "super Arg = Word"
| "super Key = Arg"
| "super Nick = Arg"
| "super User = Arg"
| "super Cmd = Arg"

text \<open>The check of \<open>from_super\<close>.  The crate generates \<open>from_super\<close> for the types from \<open>Line\<close> on; for \<open>Bytes\<close> and \<open>NoNul\<close>, which have
  none, the equations only make the function total.\<close>

fun super_check :: "strtype \<Rightarrow> bytes \<Rightarrow> InvalidString option" where
  "super_check Bytes bs = None"
| "super_check NoNul bs = check_bytes is_invalid_for_nonul bs"
| "super_check Line bs = check_bytes (is_invalid_for_line False) bs"
| "super_check Word bs = check_bytes (is_invalid_for_word False) bs"
| "super_check Arg bs = arg_first_check bs"
| "super_check Key bs = check_bytes (is_invalid_for_key False) bs"
| "super_check Nick bs = check_bytes (is_invalid_for_nick False) bs"
| "super_check User bs = check_bytes (is_invalid_for_user False) bs"
| "super_check Cmd bs = check_bytes cmd_byte_check bs"

definition from_super :: "strtype \<Rightarrow> bytes \<Rightarrow> (bytes, InvalidString) result" where
  "from_super t s = (case super_check t s of Some e \<Rightarrow> Inl e | None \<Rightarrow> Inr s)"

text \<open>The invariant of a newtype.\<close>

definition valid :: "strtype \<Rightarrow> bytes \<Rightarrow> bool" where
  "valid t bs \<longleftrightarrow> find_invalid t bs = None"

section \<open>Small methods of the newtypes (\<open>string/subtypes/impls.rs\<close>)\<close>

text \<open>\<open>is_client_tag\<close> reads byte 0 unchecked; \<open>None\<close> is the out-of-bounds read.\<close>

definition is_client_tag :: "bytes \<Rightarrow> bool option" where
  "is_client_tag k = (case k of [] \<Rightarrow> None | b # _ \<Rightarrow> Some (b = CHR ''+''))"

definition no_tilde :: "bytes \<Rightarrow> bool" where
  "no_tilde u \<longleftrightarrow> (case u of [] \<Rightarrow> True | b # _ \<Rightarrow> b \<noteq> CHR ''~'')"

definition len_with_tilde :: "bytes \<Rightarrow> nat" where
  "len_with_tilde u = length u + (if no_tilde u then 1 else 0)"

text \<open>Rust's integer formatting: digits of a number in a base, padded with zeros to a width.\<close>

definition digit_char :: "nat \<Rightarrow> byte" where
  "digit_char d = char_of (if d < 10 then 48 + d else 87 + d)"

fun fmt_base :: "nat \<Rightarrow> nat \<Rightarrow> bytes" where
  "fmt_base b n =
     (if n < b \<or> b < 2 then [digit_char n] else fmt_base b (n div b) @ [digit_char (n mod b)])"

declare fmt_base.simps [simp del]

definition pad0 :: "nat \<Rightarrow> bytes \<Rightarrow> bytes" where
  "pad0 w s = replicate (w - length s) (CHR ''0'') @ s"

definition from_id :: "32 word \<Rightarrow> bytes option" where
  "from_id i = from_str User (CHR ''i'' # pad0 8 (fmt_base 16 (unat i)))"

definition from_id_short :: "16 word \<Rightarrow> bytes option" where
  "from_id_short i = from_str User (CHR ''i'' # pad0 5 (fmt_base 10 (unat i)))"

section \<open>Characterisation\<close>

lemmas invalid_defs = is_invalid_for_nonul_def is_invalid_for_line_def is_invalid_for_word_def
  is_invalid_for_key_def is_invalid_for_nick_def is_invalid_for_user_def cmd_byte_check_def

lemma check_bytes_None: "check_bytes f bs = None \<longleftrightarrow> (\<forall>b \<in> set bs. \<not> f b)"
  by (induction bs) auto

lemma check_bytes_Some: "check_bytes f bs = Some e \<Longrightarrow> \<exists>b \<in> set bs. e = Byte b \<and> f b"
  by (induction bs) (auto split: if_splits)

lemma check_bytes_cong: "(\<And>b. b \<in> set bs \<Longrightarrow> f b = g b) \<Longrightarrow> check_bytes f bs = check_bytes g bs"
  by (induction bs) auto

lemma arg_first_check_None:
  "arg_first_check bs = None \<longleftrightarrow> bs \<noteq> [] \<and> hd bs \<noteq> CHR '':''"
  by (auto simp: arg_first_check_def split: list.splits)

lemma valid_iff: "valid t bs \<longleftrightarrow> check_others t bs = None \<and> (\<forall>b \<in> set bs. \<not> is_invalid t b)"
  by (auto simp: valid_def find_invalid_def check_bytes_None split: option.splits)

lemma from_bytes_Inr: "from_bytes t bs = Inr x \<longleftrightarrow> x = bs \<and> valid t bs"
  by (auto simp: from_bytes_def valid_def split: option.splits)

lemma from_str_Some: "from_str t bs = Some x \<longleftrightarrow> x = bs \<and> valid t bs"
  by (auto simp: from_str_def valid_def)

lemma uppercase_not_special:
  "is_ascii_uppercase b \<Longrightarrow> b \<notin> {CHR 0x00, CHR 0x0A, CHR 0x0D, CHR '' '', CHR '':'', CHR ''='', CHR '';''}"
  by (auto simp: is_ascii_uppercase_def code_def)

lemma is_invalid_super: "is_invalid (super t) b \<Longrightarrow> is_invalid t b"
  by (cases t) (auto simp: invalid_defs dest: uppercase_not_special)

lemma check_others_super: "check_others t bs = None \<Longrightarrow> check_others (super t) bs = None"
  by (cases t) auto

text \<open>Every subtype is contained in its supertype: this is what makes the transmuting
  \<open>into_super\<close>, \<open>Deref\<close> and \<open>From\<close> conversions sound.\<close>

lemma valid_super [wf_intros]: "valid t bs \<Longrightarrow> valid (super t) bs"
  by (auto simp: valid_iff check_others_super dest: is_invalid_super)

lemma valid_subtypes:
  "valid Key s \<Longrightarrow> valid Arg s" "valid Nick s \<Longrightarrow> valid Arg s" "valid User s \<Longrightarrow> valid Arg s"
  "valid Cmd s \<Longrightarrow> valid Arg s" "valid Arg s \<Longrightarrow> valid Word s" "valid Word s \<Longrightarrow> valid Line s"
  "valid Line s \<Longrightarrow> valid NoNul s"
  using valid_super [of Key s] valid_super [of Nick s] valid_super [of User s]
    valid_super [of Cmd s] valid_super [of Arg s] valid_super [of Word s] valid_super [of Line s]
  by simp_all

lemma valid_Line_iff: "valid Line s \<longleftrightarrow> (\<forall>b \<in> set s. b \<notin> {CHR 0x00, CHR 0x0A, CHR 0x0D})"
  by (auto simp: valid_iff invalid_defs)

lemma valid_Word_iff: "valid Word s \<longleftrightarrow> (\<forall>b \<in> set s. b \<notin> {CHR 0x00, CHR 0x0A, CHR 0x0D, CHR '' ''})"
  by (auto simp: valid_iff invalid_defs)

lemma valid_Arg_iff: "valid Arg s \<longleftrightarrow> valid Word s \<and> s \<noteq> [] \<and> hd s \<noteq> CHR '':''"
  by (auto simp: valid_iff arg_first_check_None)

lemma valid_Cmd_iff: "valid Cmd s \<longleftrightarrow> s \<noteq> [] \<and> (\<forall>b \<in> set s. is_ascii_uppercase b)"
  using uppercase_not_special
  by (cases s) (auto simp: valid_iff arg_first_check_None cmd_byte_check_def)

text \<open>The shortcut \<open>from_super\<close> agrees with the full check on values of the supertype.\<close>

lemma super_check_eq:
  assumes "valid (super t) bs" and "t \<noteq> Bytes"
  shows "super_check t bs = find_invalid t bs"
proof -
  have nb: "\<not> is_invalid (super t) b" if "b \<in> set bs" for b
    using assms(1) that by (auto simp: valid_iff)
  have fc: "check_others (super t) bs = None"
    using assms(1) by (simp add: valid_iff)
  show ?thesis
  proof (cases t)
    case Arg
    with nb have "check_bytes (is_invalid Arg) bs = None"
      by (simp add: check_bytes_None)
    with Arg show ?thesis by (simp add: find_invalid_def split: option.splits)
  qed (use nb fc assms(2) in \<open>auto simp: find_invalid_def invalid_defs intro!: check_bytes_cong\<close>)
qed

lemma from_super_eq: "valid (super t) bs \<Longrightarrow> t \<noteq> Bytes \<Longrightarrow> from_super t bs = from_bytes t bs"
  by (simp add: from_super_def from_bytes_def super_check_eq)

section \<open>Properties\<close>

text \<open>C22: The one-check shortcut \<open>from_super\<close> gives the verdict of the full check on every value of the
  supertype, and what it accepts satisfies the invariants of the type and of its supertype.  (For \<open>NoNul\<close>
  the crate has no \<open>from_super\<close>; the model's is the full check itself.)\<close>

theorem from_super_agrees:
  assumes "valid (super t) bs" and "t \<noteq> Bytes"
  shows "from_super t bs = from_bytes t bs \<and>
    (\<forall>x. from_super t bs = Inr x \<longrightarrow> x = bs \<and> valid t x \<and> valid (super t) x)"
  using assms by (simp add: from_super_eq from_bytes_Inr)

theorem from_super_agrees_witness:
  "from_super Nick ''vinezombie'' = from_bytes Nick ''vinezombie''"
  using from_super_agrees [of Nick "''vinezombie''"] by (simp add: valid_iff invalid_defs arg_first_check_def)

end
