(* ===== verification/Utf8.thy ===== *)
theory Utf8
  imports Strings
begin

text \<open>
  UTF-8 validity as \<open>std::str::from_utf8\<close> decides it (the well-formed byte sequences of the
  Unicode standard), and the one law that the string types rely on: validity only breaks between
  bytes of one character, and an ASCII byte is a character of its own.
\<close>

definition cont :: "byte \<Rightarrow> bool" where
  "cont b \<longleftrightarrow> 0x80 \<le> code b \<and> code b \<le> 0xBF"

definition lead2 :: "byte \<Rightarrow> bool" where
  "lead2 a \<longleftrightarrow> 0xC2 \<le> code a \<and> code a \<le> 0xDF"

definition lead3 :: "byte \<Rightarrow> byte \<Rightarrow> bool" where
  "lead3 a b \<longleftrightarrow> cont b \<and>
     (code a = 0xE0 \<and> 0xA0 \<le> code b \<or> 0xE1 \<le> code a \<and> code a \<le> 0xEC \<or>
      code a = 0xED \<and> code b \<le> 0x9F \<or> 0xEE \<le> code a \<and> code a \<le> 0xEF)"

definition lead4 :: "byte \<Rightarrow> byte \<Rightarrow> bool" where
  "lead4 a b \<longleftrightarrow> cont b \<and>
     (code a = 0xF0 \<and> 0x90 \<le> code b \<or> 0xF1 \<le> code a \<and> code a \<le> 0xF3 \<or>
      code a = 0xF4 \<and> code b \<le> 0x8F)"

text \<open>The length of the well-formed character at the front of a string, 0 if there is none.\<close>

fun utf8_char :: "bytes \<Rightarrow> nat" where
  "utf8_char [] = 0"
| "utf8_char [a] = (if is_ascii a then 1 else 0)"
| "utf8_char [a, b] = (if is_ascii a then 1 else if lead2 a \<and> cont b then 2 else 0)"
| "utf8_char [a, b, c] =
     (if is_ascii a then 1 else if lead2 a \<and> cont b then 2
      else if lead3 a b \<and> cont c then 3 else 0)"
| "utf8_char (a # b # c # d # s) =
     (if is_ascii a then 1 else if lead2 a \<and> cont b then 2
      else if lead3 a b \<and> cont c then 3
      else if lead4 a b \<and> cont c \<and> cont d then 4 else 0)"

function utf8_valid :: "bytes \<Rightarrow> bool" where
  "utf8_valid s =
     (if s = [] then True
      else if utf8_char s = 0 then False
      else utf8_valid (drop (utf8_char s) s))"
  by pat_completeness auto
termination
  by (relation "measure length") auto

declare utf8_valid.simps [simp del]

lemma utf8_valid_Nil [simp]: "utf8_valid []"
  by (simp add: utf8_valid.simps)

lemma utf8_char_ascii: "is_ascii a \<Longrightarrow> utf8_char (a # s) = 1"
  by (cases "a # s" rule: utf8_char.cases) auto

lemma utf8_valid_Cons_ascii [simp]: "is_ascii a \<Longrightarrow> utf8_valid (a # s) = utf8_valid s"
  by (simp add: utf8_valid.simps [of "a # s"] utf8_char_ascii)

lemma ascii_not_cont [simp]: "is_ascii c \<Longrightarrow> \<not> cont c"
  by (simp add: is_ascii_def cont_def)

lemma utf8_char_le: "utf8_char s \<le> length s"
  by (cases s rule: utf8_char.cases) auto

lemma lead_cont: "lead3 a b \<Longrightarrow> cont b" "lead4 a b \<Longrightarrow> cont b"
  by (simp_all add: lead3_def lead4_def)

lemma utf8_char_cont: "0 < i \<Longrightarrow> i < utf8_char s \<Longrightarrow> cont (s ! i)"
  by (cases s rule: utf8_char.cases)
    (auto simp: nth_Cons' less_Suc_eq numeral_eq_Suc dest: lead_cont split: if_splits)

lemma utf8_char_append: "utf8_char xs \<noteq> 0 \<Longrightarrow> utf8_char (xs @ ys) = utf8_char xs"
  by (cases xs rule: utf8_char.cases; cases ys rule: utf8_char.cases) (auto split: if_splits)

lemma utf8_char_cut:
  assumes "utf8_char (xs @ ys) \<noteq> 0" and "utf8_char (xs @ ys) \<le> length xs"
  shows "utf8_char xs = utf8_char (xs @ ys)"
  using assms
  by (cases xs rule: utf8_char.cases; cases ys rule: utf8_char.cases) (auto split: if_splits)

lemma utf8_valid_append: "utf8_valid xs \<Longrightarrow> utf8_valid (xs @ ys) = utf8_valid ys"
proof (induction xs rule: utf8_valid.induct)
  case (1 s)
  show ?case
  proof (cases "s = []")
    case False
    with "1.prems" have c: "utf8_char s \<noteq> 0" and v: "utf8_valid (drop (utf8_char s) s)"
      by (auto simp: utf8_valid.simps [of s] split: if_splits)
    have "utf8_valid (drop (utf8_char s) s @ ys) = utf8_valid ys"
      using "1.IH" False c v by blast
    with False c show ?thesis
      by (simp add: utf8_valid.simps [of "s @ ys"] utf8_char_append utf8_char_le)
  qed simp
qed

lemma utf8_valid_ascii: "\<forall>b \<in> set xs. is_ascii b \<Longrightarrow> utf8_valid xs"
  by (induction xs) auto

text \<open>A valid string may be cut in front of any ASCII byte.\<close>

lemma utf8_valid_cut_ascii:
  assumes "utf8_valid (xs @ c # ys)" and "is_ascii c"
  shows "utf8_valid xs" and "utf8_valid (c # ys)"
proof -
  show xs: "utf8_valid xs"
    using assms(1)
  proof (induction xs rule: length_induct)
    case (1 xs)
    let ?n = "utf8_char (xs @ c # ys)"
    show ?case
    proof (cases "xs = []")
      case False
      from "1.prems" have n: "?n \<noteq> 0" and v: "utf8_valid (drop ?n (xs @ c # ys))"
        by (auto simp: utf8_valid.simps [of "xs @ c # ys"] split: if_splits)
      have le: "?n \<le> length xs"
        using utf8_char_cont [of "length xs" "xs @ c # ys"] assms(2) False by fastforce
      then have "utf8_valid (drop ?n xs @ c # ys)" using v by simp
      moreover have "length (drop ?n xs) < length xs" using n False by simp
      ultimately have "utf8_valid (drop ?n xs)" using "1.IH" by blast
      then show ?thesis
        using n utf8_char_cut [OF n le] by (simp add: utf8_valid.simps [of xs])
    qed simp
  qed
  show "utf8_valid (c # ys)" using assms(1) utf8_valid_append [OF xs] by simp
qed

lemma utf8_valid_ascii_prefix:
  "\<forall>b \<in> set xs. is_ascii b \<Longrightarrow> utf8_valid (xs @ ys) = utf8_valid ys"
  by (simp add: utf8_valid_append utf8_valid_ascii)

section \<open>The law of the string newtypes\<close>

text \<open>
  The contract of the unsafe trait \<open>BytesNewtype\<close>: \<open>is_invalid\<close> either rejects no non-ASCII byte
  or rejects all of them.  What the splitter needs follows from it once and for all.
\<close>

locale bytes_newtype =
  fixes inval :: "byte \<Rightarrow> bool"
  assumes boundary: "(\<forall>b. \<not> is_ascii b \<longrightarrow> \<not> inval b) \<or> (\<forall>b. \<not> is_ascii b \<longrightarrow> inval b)"
begin

lemma takeWhile_utf8:
  assumes "utf8_valid s"
  shows "utf8_valid (takeWhile (\<lambda>b. \<not> inval b) s)"
proof (cases "dropWhile (\<lambda>b. \<not> inval b) s")
  case Nil
  then have "takeWhile (\<lambda>b. \<not> inval b) s = s"
    by (metis append_Nil2 takeWhile_dropWhile_id)
  with assms show ?thesis by (simp only:)
next
  case (Cons c ys)
  then have "inval c" by (metis hd_dropWhile list.discI list.sel(1))
  have s: "s = takeWhile (\<lambda>b. \<not> inval b) s @ c # ys"
    using Cons takeWhile_dropWhile_id [of "\<lambda>b. \<not> inval b" s] by simp
  show ?thesis
  proof (cases "is_ascii c")
    case True
    from assms have "utf8_valid (takeWhile (\<lambda>b. \<not> inval b) s @ c # ys)" using s by simp
    from utf8_valid_cut_ascii(1) [OF this True] show ?thesis .
  next
    case False
    with \<open>inval c\<close> boundary have "\<forall>b. \<not> is_ascii b \<longrightarrow> inval b" by blast
    then have "\<forall>b \<in> set (takeWhile (\<lambda>b. \<not> inval b) s). is_ascii b"
      by (metis set_takeWhileD)
    then show ?thesis by (rule utf8_valid_ascii)
  qed
qed

lemma dropWhile_valid_utf8:
  assumes "utf8_valid s"
  shows "utf8_valid (dropWhile (\<lambda>b. \<not> inval b) s)"
  using assms takeWhile_utf8 [OF assms]
    utf8_valid_append [of "takeWhile (\<lambda>b. \<not> inval b) s" "dropWhile (\<lambda>b. \<not> inval b) s"]
  by simp

lemma dropWhile_invalid_utf8:
  assumes "utf8_valid s"
  shows "utf8_valid (dropWhile inval s)"
proof (cases "dropWhile inval s")
  case Nil
  then show ?thesis by (simp only: utf8_valid_Nil)
next
  case (Cons c ys)
  then have c: "\<not> inval c" by (metis hd_dropWhile list.discI list.sel(1))
  have s: "s = takeWhile inval s @ c # ys"
    using Cons takeWhile_dropWhile_id [of inval s] by simp
  show ?thesis
  proof (cases "is_ascii c")
    case True
    from assms have "utf8_valid (takeWhile inval s @ c # ys)" using s by simp
    from utf8_valid_cut_ascii(2) [OF this True] Cons show ?thesis by simp
  next
    case False
    with c boundary have "\<forall>b. \<not> is_ascii b \<longrightarrow> \<not> inval b" by blast
    then have "\<forall>b \<in> set (takeWhile inval s). is_ascii b"
      by (metis set_takeWhileD)
    then show ?thesis
      using assms s Cons utf8_valid_ascii_prefix [of "takeWhile inval s" "c # ys"] by simp
  qed
qed

end

lemma is_invalid_boundary:
  "(\<forall>b. \<not> is_ascii b \<longrightarrow> \<not> is_invalid t b) \<or> (\<forall>b. \<not> is_ascii b \<longrightarrow> is_invalid t b)"
  by (cases t) (auto simp: invalid_defs is_ascii_def is_ascii_uppercase_def code_def)

interpretation nt: bytes_newtype "is_invalid t" for t
  by unfold_locales (rule is_invalid_boundary)

end
