(* ===== verification/BytesStr.thy ===== *)
theory BytesStr
  imports Utf8
begin

text \<open>
  The byte string of \<open>string/bytes.rs\<close> and the \<open>Transform\<close> protocol of \<open>string.rs\<close>.  A \<open>Bytes\<close> is
  a record of its value, whether it owns its buffer, the cached result of UTF-8 checks (1 valid,
  -1 invalid, 0 unknown) and the secrecy flag.  \<open>bytes_ok\<close> is the invariant that makes the
  unchecked conversions to \<open>str\<close> sound; it is shown for every constructor and operation, and for
  \<open>transform\<close> under the contract of a transform, the locale \<open>utf8_transform\<close>.
\<close>

section \<open>State\<close>

datatype Utf8Policy = PolInvalid | PolRecheck | PolValid | PolPreserve | PolPreserveStrict

text \<open>\<open>utf8 as i8\<close>: the discriminants of the enumeration.\<close>

fun policy_i8 :: "Utf8Policy \<Rightarrow> int" where
  "policy_i8 PolInvalid = -1"
| "policy_i8 PolRecheck = 0"
| "policy_i8 PolValid = 1"
| "policy_i8 PolPreserve = 2"
| "policy_i8 PolPreserveStrict = 3"

datatype cow = Borrowed bytes | Owned bytes

fun cow_ref :: "cow \<Rightarrow> bytes" where
  "cow_ref (Borrowed s) = s"
| "cow_ref (Owned s) = s"

record 'v transformation =
  tf_value :: 'v
  transformed :: cow
  tf_utf8 :: Utf8Policy

record ircbytes =
  b_value :: bytes
  ownership :: bool
  b_utf8 :: int
  b_secret :: bool

definition transformation_empty :: "'v \<Rightarrow> 'v transformation" where
  "transformation_empty v = \<lparr>tf_value = v, transformed = Borrowed [], tf_utf8 = PolValid\<rparr>"

section \<open>Constructors\<close>

text \<open>\<open>OwnedBytes::from_vec\<close> owns nothing when the vector is empty.\<close>

definition owned_from_vec :: "bytes \<Rightarrow> bool \<times> bytes" where
  "owned_from_vec v = (if v = [] then (False, []) else (True, v))"

definition bytes_empty :: ircbytes where
  "bytes_empty = \<lparr>b_value = [], ownership = False, b_utf8 = 1, b_secret = False\<rparr>"

definition bytes_default :: ircbytes where
  "bytes_default = \<lparr>b_value = [], ownership = False, b_utf8 = 0, b_secret = False\<rparr>"

definition bytes_from_bytes :: "bytes \<Rightarrow> ircbytes" where
  "bytes_from_bytes v = \<lparr>b_value = v, ownership = False, b_utf8 = 0, b_secret = False\<rparr>"

definition bytes_from_str :: "bytes \<Rightarrow> ircbytes" where
  "bytes_from_str v = \<lparr>b_value = v, ownership = False, b_utf8 = 1, b_secret = False\<rparr>"

definition bytes_from_secret :: "bytes \<Rightarrow> ircbytes" where
  "bytes_from_secret v =
     (let (own, val) = owned_from_vec v
      in \<lparr>b_value = val, ownership = own, b_utf8 = 0, b_secret = True\<rparr>)"

definition bytes_from_vec :: "bytes \<Rightarrow> ircbytes" where
  "bytes_from_vec v =
     (let (own, val) = owned_from_vec v
      in \<lparr>b_value = val, ownership = own, b_utf8 = 0, b_secret = False\<rparr>)"

definition bytes_from_string :: "bytes \<Rightarrow> ircbytes" where
  "bytes_from_string v =
     (let (own, val) = owned_from_vec v
      in \<lparr>b_value = val, ownership = own, b_utf8 = 1, b_secret = False\<rparr>)"

section \<open>Operations\<close>

definition is_owning :: "ircbytes \<Rightarrow> bool" where
  "is_owning b \<longleftrightarrow> ownership b"

definition is_secret :: "ircbytes \<Rightarrow> bool" where
  "is_secret b \<longleftrightarrow> b_secret b"

definition owning_force :: "bool \<Rightarrow> ircbytes \<Rightarrow> ircbytes" where
  "owning_force s b =
     (let (own, val) = owned_from_vec (b_value b)
      in \<lparr>b_value = val, ownership = own, b_utf8 = b_utf8 b, b_secret = s\<rparr>)"

definition make_owning :: "ircbytes \<Rightarrow> ircbytes" where
  "make_owning b = (if \<not> is_owning b then owning_force False b else b)"

definition owning :: "ircbytes \<Rightarrow> ircbytes" where
  "owning b = (if \<not> is_owning b then owning_force (b_secret b) b else b)"

definition secret :: "ircbytes \<Rightarrow> ircbytes" where
  "secret b = (if \<not> b_secret b \<and> is_owning b then owning_force True b else b\<lparr>b_secret := True\<rparr>)"

definition is_utf8_lazy :: "ircbytes \<Rightarrow> bool option" where
  "is_utf8_lazy b = (if b_utf8 b = 1 then Some True else if b_utf8 b = -1 then Some False else None)"

text \<open>\<open>to_utf8\<close> caches the result of the check it makes.\<close>

definition to_utf8 :: "ircbytes \<Rightarrow> bytes option \<times> ircbytes" where
  "to_utf8 b =
     (case is_utf8_lazy b of
        Some True \<Rightarrow> (Some (b_value b), b)
      | Some False \<Rightarrow> (None, b)
      | None \<Rightarrow>
          (let so = (if utf8_valid (b_value b) then Some (b_value b) else None)
           in (so, b\<lparr>b_utf8 := (if so \<noteq> None then 1 else -1)\<rparr>)))"

text \<open>\<open>String::from_utf8_lossy\<close>: it borrows a valid string, and otherwise replaces every maximal
  prefix of a character that does not complete one by U+FFFD.\<close>

fun bad_len :: "bytes \<Rightarrow> nat" where
  "bad_len (a # b # c # s) =
     (if lead3 a b then 2 else if lead4 a b then (if cont c then 3 else 2) else 1)"
| "bad_len [a, b] = (if lead3 a b \<or> lead4 a b then 2 else 1)"
| "bad_len s = 1"

definition replacement :: bytes where
  "replacement = [CHR 0xEF, CHR 0xBF, CHR 0xBD]"

lemma bad_len_pos: "0 < bad_len s"
  by (cases s rule: bad_len.cases) auto

function lossy :: "bytes \<Rightarrow> bytes" where
  "lossy s =
     (if s = [] then []
      else if utf8_char s \<noteq> 0 then take (utf8_char s) s @ lossy (drop (utf8_char s) s)
      else replacement @ lossy (drop (bad_len s) s))"
  by pat_completeness auto
termination
  by (relation "measure length") (auto simp: bad_len_pos)

declare lossy.simps [simp del]

definition from_utf8_lossy :: "bytes \<Rightarrow> cow" where
  "from_utf8_lossy s = (if utf8_valid s then Borrowed s else Owned (lossy s))"

definition utf8_cow :: "ircbytes \<Rightarrow> cow \<times> ircbytes" where
  "utf8_cow b =
     (case is_utf8_lazy b of
        Some True \<Rightarrow> (Borrowed (b_value b), b)
      | Some False \<Rightarrow> (from_utf8_lossy (b_value b), b)
      | None \<Rightarrow>
          (let sl = from_utf8_lossy (b_value b)
           in (sl, b\<lparr>b_utf8 := (case sl of Borrowed _ \<Rightarrow> 1 | Owned _ \<Rightarrow> -1)\<rparr>)))"

definition into_utf8_lossy :: "ircbytes \<Rightarrow> ircbytes" where
  "into_utf8_lossy b =
     (case utf8_cow b of
        (Borrowed s, b') \<Rightarrow> \<lparr>b_value = s, ownership = ownership b', b_utf8 = 1, b_secret = b_secret b'\<rparr>
      | (Owned s, b') \<Rightarrow> bytes_from_string s)"

definition utf8_for_policy :: "Utf8Policy \<Rightarrow> ircbytes \<Rightarrow> int" where
  "utf8_for_policy p b =
     (case p of
        PolPreserveStrict \<Rightarrow> b_utf8 b
      | PolPreserve \<Rightarrow> (if b_utf8 b = 1 then 1 else 0)
      | _ \<Rightarrow> policy_i8 p)"

definition using_value :: "bytes \<Rightarrow> Utf8Policy \<Rightarrow> ircbytes \<Rightarrow> ircbytes" where
  "using_value val p b =
     \<lparr>b_value = val, ownership = (if val = [] then False else ownership b),
      b_utf8 = utf8_for_policy p b, b_secret = b_secret b\<rparr>"

definition transform :: "(ircbytes \<Rightarrow> 'v transformation) \<Rightarrow> ircbytes \<Rightarrow> 'v \<times> ircbytes" where
  "transform tf b =
     (let tfed = tf b in
      if cow_ref (transformed tfed) = [] then (tf_value tfed, bytes_empty)
      else
        (tf_value tfed,
         case transformed tfed of
           Borrowed s \<Rightarrow>
             (let b' = (case tf_utf8 tfed of
                          PolPreserveStrict \<Rightarrow> b
                        | PolPreserve \<Rightarrow> (if b_utf8 b = -1 then b\<lparr>b_utf8 := 0\<rparr> else b)
                        | p \<Rightarrow> b\<lparr>b_utf8 := policy_i8 p\<rparr>)
              in b'\<lparr>b_value := s\<rparr>)
         | Owned v \<Rightarrow>
             (let (own, val) = owned_from_vec v
              in \<lparr>b_value = val, ownership = own, b_utf8 = utf8_for_policy (tf_utf8 tfed) b,
                  b_secret = b_secret b\<rparr>)))"

definition bytes_clone :: "ircbytes \<Rightarrow> ircbytes" where
  "bytes_clone b = b"

text \<open>Comparison with a byte string looks at the value; comparison with a \<open>str\<close> also refuses a
  string known not to be UTF-8.\<close>

definition bytes_eq :: "ircbytes \<Rightarrow> ircbytes \<Rightarrow> bool" where
  "bytes_eq a b \<longleftrightarrow> b_value a = b_value b"

definition bytes_eq_str :: "ircbytes \<Rightarrow> bytes \<Rightarrow> bool" where
  "bytes_eq_str a s \<longleftrightarrow> b_utf8 a \<noteq> -1 \<and> b_value a = s"

definition display_placeholder :: bytes where
  "display_placeholder = ''<?>''"

definition bytes_display :: "ircbytes \<Rightarrow> bytes" where
  "bytes_display b =
     (if is_secret b then display_placeholder
      else case fst (to_utf8 b) of Some s \<Rightarrow> s | None \<Rightarrow> display_placeholder)"

text \<open>How a string that is not secret is shown by a formatting string.\<close>

definition show_bytes :: "bytes \<Rightarrow> bytes" where
  "show_bytes s = bytes_display (bytes_from_bytes s)"

section \<open>Invariant\<close>

definition bytes_ok :: "ircbytes \<Rightarrow> bool" where
  "bytes_ok b \<longleftrightarrow> b_utf8 b \<in> {-1, 0, 1} \<and> (b_utf8 b = 1 \<longrightarrow> utf8_valid (b_value b)) \<and>
     (b_utf8 b = -1 \<longrightarrow> \<not> utf8_valid (b_value b)) \<and> (ownership b \<longrightarrow> b_value b \<noteq> [])"

lemmas bytes_defs = bytes_empty_def bytes_default_def bytes_from_bytes_def bytes_from_str_def
  bytes_from_secret_def bytes_from_vec_def bytes_from_string_def owned_from_vec_def

lemma bytes_ok_new [wf_intros]:
  "bytes_ok bytes_empty" "bytes_ok bytes_default" "bytes_ok (bytes_from_bytes v)"
  "bytes_ok (bytes_from_secret v)" "bytes_ok (bytes_from_vec v)"
  "utf8_valid s \<Longrightarrow> bytes_ok (bytes_from_str s)" "utf8_valid s \<Longrightarrow> bytes_ok (bytes_from_string s)"
  by (auto simp: bytes_ok_def bytes_defs)

lemma bytes_ok_owning_force [wf_intros]: "bytes_ok b \<Longrightarrow> bytes_ok (owning_force s b)"
  by (auto simp: bytes_ok_def owning_force_def owned_from_vec_def)

lemma bytes_ok_owning [wf_intros]:
  "bytes_ok b \<Longrightarrow> bytes_ok (owning b)" "bytes_ok b \<Longrightarrow> bytes_ok (make_owning b)"
  "bytes_ok b \<Longrightarrow> bytes_ok (secret b)"
  by (auto simp: owning_def make_owning_def secret_def intro: wf_intros) (simp_all add: bytes_ok_def)

lemma is_utf8_lazy_Some: "is_utf8_lazy b = Some u \<Longrightarrow> bytes_ok b \<Longrightarrow> u = utf8_valid (b_value b)"
  by (auto simp: is_utf8_lazy_def bytes_ok_def split: if_splits)

lemma to_utf8_fst: "bytes_ok b \<Longrightarrow> fst (to_utf8 b) = (if utf8_valid (b_value b) then Some (b_value b) else None)"
  by (auto simp: to_utf8_def dest: is_utf8_lazy_Some split: option.splits bool.splits)

lemma to_utf8_snd: "bytes_ok b \<Longrightarrow> bytes_ok (snd (to_utf8 b)) \<and> b_value (snd (to_utf8 b)) = b_value b"
  by (auto simp: to_utf8_def bytes_ok_def split: option.splits bool.splits)

lemma lossy_valid: "utf8_valid s \<Longrightarrow> lossy s = s"
proof (induction s rule: lossy.induct)
  case (1 s)
  then show ?case
    by (subst lossy.simps) (auto simp: utf8_valid.simps [of s] split: if_splits)
qed

lemma utf8_char_take: "utf8_char s \<noteq> 0 \<Longrightarrow> utf8_valid (take (utf8_char s) s)"
  by (subst utf8_valid.simps, cases s rule: utf8_char.cases) (auto simp: numeral_eq_Suc split: if_splits)

lemma utf8_valid_replacement: "utf8_valid replacement"
  by (subst utf8_valid.simps) (simp add: replacement_def lead3_def lead2_def cont_def is_ascii_def code_def)

lemma lossy_utf8: "utf8_valid (lossy s)"
proof (induction s rule: lossy.induct)
  case (1 s)
  then show ?case
    using utf8_char_take [of s] utf8_valid_replacement
    by (subst lossy.simps) (auto simp: utf8_valid_append)
qed

lemma utf8_cow_fst:
  "bytes_ok b \<Longrightarrow> fst (utf8_cow b) = (if utf8_valid (b_value b) then Borrowed (b_value b) else Owned (lossy (b_value b)))"
  by (auto simp: utf8_cow_def from_utf8_lossy_def Let_def dest: is_utf8_lazy_Some split: option.splits bool.splits)

lemma utf8_cow_ownership: "ownership (snd (utf8_cow b)) = ownership b"
  by (auto simp: utf8_cow_def Let_def split: option.splits bool.splits)

lemma bytes_ok_into_utf8_lossy [wf_intros]: "bytes_ok b \<Longrightarrow> bytes_ok (into_utf8_lossy b)"
  using utf8_cow_fst [of b] utf8_cow_ownership [of b]
  by (cases "utf8_cow b")
    (auto simp: into_utf8_lossy_def intro: wf_intros lossy_utf8 split: cow.splits if_splits,
     auto simp: bytes_ok_def)

text \<open>What a caller of \<open>using_value\<close> promises about the policy it passes.\<close>

fun policy_sound :: "Utf8Policy \<Rightarrow> bytes \<Rightarrow> bytes \<Rightarrow> bool" where
  "policy_sound PolInvalid old new = (\<not> utf8_valid new)"
| "policy_sound PolRecheck old new = True"
| "policy_sound PolValid old new = utf8_valid new"
| "policy_sound PolPreserve old new = (utf8_valid old \<longrightarrow> utf8_valid new)"
| "policy_sound PolPreserveStrict old new = (utf8_valid old \<longleftrightarrow> utf8_valid new)"

lemma bytes_ok_using_value [wf_intros]:
  "bytes_ok b \<Longrightarrow> policy_sound p (b_value b) v \<Longrightarrow> bytes_ok (using_value v p b)"
  by (cases p) (auto simp: bytes_ok_def using_value_def utf8_for_policy_def)

section \<open>The contract of a transform\<close>

text \<open>The \<open># Safety\<close> section of \<open>Transform\<close>: the returned policy is trusted.\<close>

locale utf8_transform =
  fixes tf :: "ircbytes \<Rightarrow> 'v transformation"
  assumes policy: "policy_sound (tf_utf8 (tf b)) (b_value b) (cow_ref (transformed (tf b)))"
begin

lemma transform_ok: "bytes_ok b \<Longrightarrow> bytes_ok (snd (transform tf b))"
  using policy [of b]
  by (cases "transformed (tf b)"; cases "tf_utf8 (tf b)")
    (auto simp: transform_def Let_def bytes_ok_def bytes_empty_def owned_from_vec_def
      utf8_for_policy_def)

lemma transform_value: "b_value (snd (transform tf b)) = cow_ref (transformed (tf b))"
  by (cases "transformed (tf b)"; cases "tf_utf8 (tf b)")
    (auto simp: transform_def Let_def bytes_empty_def owned_from_vec_def)

lemma transform_secret:
  "cow_ref (transformed (tf b)) \<noteq> [] \<Longrightarrow> b_secret (snd (transform tf b)) = b_secret b"
  by (cases "transformed (tf b)"; cases "tf_utf8 (tf b)")
    (auto simp: transform_def Let_def owned_from_vec_def)

end

lemma show_bytes_eq: "show_bytes s = (if utf8_valid s then s else display_placeholder)"
  using to_utf8_fst [of "bytes_from_bytes s"] bytes_ok_new(3) [of s]
  by (simp add: show_bytes_def bytes_display_def) (simp add: is_secret_def bytes_from_bytes_def)

lemma show_bytes_utf8 [simp]: "utf8_valid s \<Longrightarrow> show_bytes s = s"
  by (simp add: show_bytes_eq)

section \<open>Secrecy\<close>

text \<open>No part of a secret value reaches its textual forms.\<close>

lemma display_secret: "is_secret a \<Longrightarrow> is_secret b \<Longrightarrow> bytes_display a = bytes_display b"
  by (simp add: bytes_display_def)

lemma secret_kept:
  "is_secret b \<Longrightarrow> is_secret (owning b)" "is_secret (secret b)"
  "is_secret b \<Longrightarrow> is_secret (using_value v p b)"
  by (auto simp: is_secret_def owning_def secret_def owning_force_def using_value_def owned_from_vec_def)

text \<open>\<open>make_owning\<close> drops the flag of a borrowing secret.\<close>

lemma make_owning_secret: "is_secret (make_owning b) \<longleftrightarrow> is_secret b \<and> is_owning b"
  by (auto simp: is_secret_def make_owning_def owning_force_def is_owning_def owned_from_vec_def)

section \<open>Properties\<close>

text \<open>The textual form of a secret string depends on no part of its value, and owning, marking and
  in-place replacement keep a string secret.\<close>

lemma secrets_not_shown:
  assumes "is_secret a" and "is_secret b"
  shows "bytes_display a = bytes_display b \<and> bytes_display (owning a) = bytes_display b \<and>
    bytes_display (secret c) = bytes_display b \<and> bytes_display (using_value v p a) = bytes_display b"
  using assms by (auto intro!: display_secret secret_kept)

text \<open>\<open>make_owning\<close> drops the mark of a borrowed secret, so the string is shown in full.\<close>

lemma make_owning_shows_secret:
  assumes "bytes_ok b" and "is_secret b" and "\<not> is_owning b" and "utf8_valid (b_value b)"
  shows "bytes_display (make_owning b) = b_value b"
proof -
  have "\<not> is_secret (make_owning b)" using assms(3) by (simp add: make_owning_secret)
  moreover have "b_value (make_owning b) = b_value b"
    by (simp add: make_owning_def owning_force_def owned_from_vec_def)
  ultimately show ?thesis
    using to_utf8_fst [OF bytes_ok_owning(2) [OF assms(1)]] assms(4) by (simp add: bytes_display_def)
qed

end
