(* ===== verification/Builder.thy ===== *)
theory Builder
  imports BytesStr
begin

text \<open>
  Concatenation of string types, \<open>string/builder.rs\<close>: a buffer that keeps the invariant of the
  type \<open>T\<close> it builds (a parameter of the operations, as in the source) and tracks whether it is
  known to be UTF-8.
\<close>

record builder =
  bld_bytes :: bytes
  bld_utf8 :: bool

text \<open>\<open>BytesNewtype::is_utf8_lazy\<close>: unknown counts as false.\<close>

definition nt_is_utf8_lazy :: "ircbytes \<Rightarrow> bool" where
  "nt_is_utf8_lazy b = (case is_utf8_lazy b of Some u \<Rightarrow> u | None \<Rightarrow> False)"

definition builder_new :: "ircbytes \<Rightarrow> builder" where
  "builder_new init = \<lparr>bld_bytes = b_value init, bld_utf8 = nt_is_utf8_lazy init\<rparr>"

definition check_utf8 :: "builder \<Rightarrow> bool \<times> builder" where
  "check_utf8 bl =
     (if \<not> bld_utf8 bl then
        (if utf8_valid (bld_bytes bl) then (True, bl\<lparr>bld_utf8 := True\<rparr>) else (False, bl))
      else (True, bl))"

definition build :: "builder \<Rightarrow> ircbytes" where
  "build bl = (if bld_utf8 bl then bytes_from_string (bld_bytes bl) else bytes_from_vec (bld_bytes bl))"

definition append_unchecked :: "bytes \<Rightarrow> bool \<Rightarrow> builder \<Rightarrow> builder" where
  "append_unchecked s utf8 bl = bl\<lparr>bld_utf8 := (bld_utf8 bl \<and> utf8), bld_bytes := bld_bytes bl @ s\<rparr>"

definition bld_append :: "ircbytes \<Rightarrow> builder \<Rightarrow> builder" where
  "bld_append s bl = append_unchecked (b_value s) (nt_is_utf8_lazy s) bl"

text \<open>The checking loop of \<open>try_append\<close>: the first invalid byte, or whether all were ASCII.\<close>

fun append_scan :: "strtype \<Rightarrow> bytes \<Rightarrow> bool \<Rightarrow> (bool, InvalidString) result" where
  "append_scan T [] ascii = Inr ascii"
| "append_scan T (b # bs) ascii =
     (if is_invalid T b then Inl (Byte b) else append_scan T bs (ascii \<and> is_ascii b))"

definition try_append :: "strtype \<Rightarrow> bytes \<Rightarrow> builder \<Rightarrow> (unit, InvalidString) result \<times> builder" where
  "try_append T s bl =
     (case append_scan T s True of
        Inl e \<Rightarrow> (Inl e, bl)
      | Inr ascii \<Rightarrow>
          (Inr (), bl\<lparr>bld_utf8 := (bld_utf8 bl \<and> ascii), bld_bytes := bld_bytes bl @ s\<rparr>))"

definition try_append_str :: "strtype \<Rightarrow> bytes \<Rightarrow> builder \<Rightarrow> (unit, InvalidString) result \<times> builder" where
  "try_append_str T s bl =
     (case check_bytes (is_invalid T) s of
        Some e \<Rightarrow> (Inl e, bl)
      | None \<Rightarrow> (Inr (), bl\<lparr>bld_bytes := bld_bytes bl @ s\<rparr>))"

definition try_push :: "strtype \<Rightarrow> byte \<Rightarrow> builder \<Rightarrow> (unit, InvalidString) result \<times> builder" where
  "try_push T b bl =
     (if is_invalid T b then (Inl (Byte b), bl)
      else (Inr (), bl\<lparr>bld_utf8 := (bld_utf8 bl \<and> is_ascii b), bld_bytes := bld_bytes bl @ [b]\<rparr>))"

text \<open>\<open>char::encode_utf8\<close> on a Unicode scalar value.\<close>

definition encode_utf8 :: "nat \<Rightarrow> bytes" where
  "encode_utf8 c =
     (if c < 0x80 then [char_of c]
      else if c < 0x800 then [char_of (0xC0 + c div 64), char_of (0x80 + c mod 64)]
      else if c < 0x10000 then
        [char_of (0xE0 + c div 4096), char_of (0x80 + c div 64 mod 64), char_of (0x80 + c mod 64)]
      else
        [char_of (0xF0 + c div 262144), char_of (0x80 + c div 4096 mod 64),
         char_of (0x80 + c div 64 mod 64), char_of (0x80 + c mod 64)])"

definition scalar :: "nat \<Rightarrow> bool" where
  "scalar c \<longleftrightarrow> c < 0x110000 \<and> \<not> (0xD800 \<le> c \<and> c < 0xE000)"

definition try_push_char :: "strtype \<Rightarrow> nat \<Rightarrow> builder \<Rightarrow> (unit, InvalidString) result \<times> builder" where
  "try_push_char T c bl = try_append_str T (encode_utf8 c) bl"

section \<open>Invariant\<close>

definition builder_ok :: "strtype \<Rightarrow> builder \<Rightarrow> bool" where
  "builder_ok T bl \<longleftrightarrow> valid T (bld_bytes bl) \<and> (bld_utf8 bl \<longrightarrow> utf8_valid (bld_bytes bl))"

lemma nt_is_utf8_lazy_ok: "bytes_ok b \<Longrightarrow> nt_is_utf8_lazy b \<Longrightarrow> utf8_valid (b_value b)"
  by (auto simp: nt_is_utf8_lazy_def dest: is_utf8_lazy_Some split: option.splits)

text \<open>Appending valid bytes to a valid string keeps it valid: the whole-string checks look only at
  the first byte.\<close>

lemma arg_first_check_append: "arg_first_check xs = None \<Longrightarrow> arg_first_check (xs @ ys) = None"
  by (cases xs) (auto simp: arg_first_check_None)

lemma valid_append:
  "valid T xs \<Longrightarrow> \<forall>b \<in> set ys. \<not> is_invalid T b \<Longrightarrow> valid T (xs @ ys)"
  by (cases T) (auto simp: valid_iff arg_first_check_append)

lemma append_scan_Inr:
  "append_scan T s a = Inr a' \<longleftrightarrow> (\<forall>b \<in> set s. \<not> is_invalid T b) \<and> a' = (a \<and> (\<forall>b \<in> set s. is_ascii b))"
  by (induction s arbitrary: a) auto

lemma builder_new_ok [wf_intros]: "bytes_ok b \<Longrightarrow> valid T (b_value b) \<Longrightarrow> builder_ok T (builder_new b)"
  by (simp add: builder_ok_def builder_new_def nt_is_utf8_lazy_ok)

lemma check_utf8_ok [wf_intros]: "builder_ok T bl \<Longrightarrow> builder_ok T (snd (check_utf8 bl))"
  by (auto simp: builder_ok_def check_utf8_def)

lemma bld_append_ok [wf_intros]:
  "builder_ok T bl \<Longrightarrow> bytes_ok s \<Longrightarrow> valid T (b_value s) \<Longrightarrow> builder_ok T (bld_append s bl)"
  by (auto simp: builder_ok_def bld_append_def append_unchecked_def utf8_valid_append valid_append
      valid_iff [of T "b_value s"] nt_is_utf8_lazy_ok)

lemma try_append_ok [wf_intros]: "builder_ok T bl \<Longrightarrow> builder_ok T (snd (try_append T s bl))"
  by (auto simp: builder_ok_def try_append_def append_scan_Inr valid_append utf8_valid_append
      utf8_valid_ascii split: sum.splits)

lemma try_append_str_ok [wf_intros]:
  "builder_ok T bl \<Longrightarrow> utf8_valid s \<Longrightarrow> builder_ok T (snd (try_append_str T s bl))"
  by (auto simp: builder_ok_def try_append_str_def check_bytes_None valid_append utf8_valid_append
      split: option.splits)

lemma try_push_ok [wf_intros]: "builder_ok T bl \<Longrightarrow> builder_ok T (snd (try_push T b bl))"
  by (auto simp: builder_ok_def try_push_def valid_append utf8_valid_append)

lemma code_char_of_mod: "code (char_of (n::nat)) = n mod 256"
  by (simp add: code_def)

lemma lead_exclusive:
  "lead2 a \<Longrightarrow> \<not> is_ascii a" "lead3 a b \<Longrightarrow> \<not> is_ascii a \<and> \<not> lead2 a"
  "lead4 a b \<Longrightarrow> \<not> is_ascii a \<and> \<not> lead2 a \<and> \<not> lead3 a b"
  by (auto simp: lead2_def lead3_def lead4_def is_ascii_def)

lemma utf8_valid_single:
  "is_ascii a \<Longrightarrow> utf8_valid [a]" "lead2 a \<Longrightarrow> cont b \<Longrightarrow> utf8_valid [a, b]"
  "lead3 a b \<Longrightarrow> cont c \<Longrightarrow> utf8_valid [a, b, c]"
  "lead4 a b \<Longrightarrow> cont c \<Longrightarrow> cont d \<Longrightarrow> utf8_valid [a, b, c, d]"
  using lead_exclusive(1) [of a] lead_exclusive(2,3) [of a b] by (auto simp: utf8_valid.simps [of "_ # _"])

lemma cont_char_of: "x < 64 \<Longrightarrow> cont (char_of (128 + x :: nat))"
  by (simp add: cont_def)

lemma lead4_char_of:
  fixes q r :: nat
  assumes "q < 5" "r < 64" "q = 0 \<Longrightarrow> 16 \<le> r" "q = 4 \<Longrightarrow> r < 16"
  shows "lead4 (char_of (0xF0 + q)) (char_of (0x80 + r))"
  using assms cont_char_of [of r] by (cases "q = 0"; cases "q = 4") (auto simp: lead4_def)

lemma utf8_valid_encode: "scalar c \<Longrightarrow> utf8_valid (encode_utf8 c)"
proof -
  assume s: "scalar c"
  let ?d = "c div 64" and ?e = "c div 4096"
  have d: "64 * ?d \<le> c" "c < 64 * ?d + 64" by (simp_all add: dividend_less_times_div)
  have e: "?d = 64 * ?e + ?d mod 64" "?d mod 64 < 64"
    using div_mult2_eq [of c 64 64] mult_div_mod_eq [of 64 ?d] by simp_all
  have f: "?e = 64 * (c div 262144) + ?e mod 64" "?e mod 64 < 64"
    using div_mult2_eq [of c 4096 64] mult_div_mod_eq [of 64 ?e] by simp_all
  have b: "?d < 32" if "c < 0x800" using that d by linarith
  have b3: "?e < 16" if "c < 0x10000" using that d e by linarith
  have b4: "c div 262144 < 5" using s d e f unfolding scalar_def by linarith
  have e0: "32 \<le> ?d mod 64" if "0x800 \<le> c" "?e = 0" using that d e by linarith
  have ed: "?d mod 64 < 32" if "?e = 13" using that s d e unfolding scalar_def by linarith
  have f0: "16 \<le> ?e mod 64" if "0x10000 \<le> c" "c div 262144 = 0" using that d e f by linarith
  have f4: "?e mod 64 < 16" if "c div 262144 = 4" using that s d e f unfolding scalar_def by linarith
  have c2: "2 \<le> ?d" if "0x80 \<le> c" using that d by linarith
  have c: "c mod 64 < 64" by simp
  consider "c < 0x80" | "0x80 \<le> c" "c < 0x800" | "0x800 \<le> c" "c < 0x10000" | "0x10000 \<le> c"
    by linarith
  then show ?thesis
  proof cases
    case 1
    then show ?thesis by (simp add: encode_utf8_def utf8_valid_single(1) is_ascii_def)
  next
    case 2
    then have "lead2 (char_of (0xC0 + ?d))" using b c2 by (simp add: lead2_def)
    with 2 show ?thesis by (simp add: encode_utf8_def utf8_valid_single(2) cont_char_of)
  next
    case 3
    then have "lead3 (char_of (0xE0 + ?e)) (char_of (0x80 + ?d mod 64))"
      using b3 e0 ed cont_char_of [OF e(2)] by (auto simp: lead3_def)
    with 3 show ?thesis by (simp add: encode_utf8_def utf8_valid_single(3) cont_char_of)
  next
    case 4
    then have "lead4 (char_of (0xF0 + c div 262144)) (char_of (0x80 + ?e mod 64))"
      using b4 f0 f4 f(2) by (intro lead4_char_of) blast+
    with 4 show ?thesis by (simp add: encode_utf8_def utf8_valid_single(4) cont_char_of)
  qed
qed

lemma build_value: "b_value (build bl) = bld_bytes bl"
  by (simp add: build_def bytes_defs)

lemma build_ok [wf_intros]: "builder_ok T bl \<Longrightarrow> bytes_ok (build bl) \<and> valid T (b_value (build bl))"
  by (auto simp: builder_ok_def build_value) (auto simp: build_def intro: wf_intros)

text \<open>The life of a builder for \<open>T\<close>: any sequence of its methods.\<close>

inductive builder_step :: "strtype \<Rightarrow> builder \<Rightarrow> builder \<Rightarrow> bool" for T where
  bs_check: "builder_step T bl (snd (check_utf8 bl))"
| bs_append: "bytes_ok s \<Longrightarrow> valid T (b_value s) \<Longrightarrow> builder_step T bl (bld_append s bl)"
| bs_try: "builder_step T bl (snd (try_append T s bl))"
| bs_try_str: "utf8_valid s \<Longrightarrow> builder_step T bl (snd (try_append_str T s bl))"
| bs_push: "builder_step T bl (snd (try_push T b bl))"
| bs_push_char: "scalar c \<Longrightarrow> builder_step T bl (snd (try_push_char T c bl))"

lemma builder_step_ok: "builder_step T bl bl' \<Longrightarrow> builder_ok T bl \<Longrightarrow> builder_ok T bl'"
  by (cases rule: builder_step.cases)
    (auto intro: wf_intros utf8_valid_encode simp: try_push_char_def)

lemma builder_steps_ok: "(builder_step T)\<^sup>*\<^sup>* bl bl' \<Longrightarrow> builder_ok T bl \<Longrightarrow> builder_ok T bl'"
  by (induction rule: rtranclp_induct) (auto dest: builder_step_ok)

section \<open>Properties\<close>

text \<open>Any sequence of builder calls on a string of type \<open>T\<close>, refused ones included, builds a string
  that satisfies \<open>T\<close> and whose UTF-8 flag is right.\<close>

lemma builder_builds_valid:
  assumes "bytes_ok init" and "valid T (b_value init)" and "(builder_step T)\<^sup>*\<^sup>* (builder_new init) bl"
  shows "bytes_ok (build bl) \<and> valid T (b_value (build bl))"
  using build_ok [OF builder_steps_ok [OF assms(3) builder_new_ok [OF assms(1,2)]]] .

end
