(* ===== verification/Transforms.thy ===== *)
theory Transforms
  imports Builder
begin

text \<open>
  The transformations of \<open>string/tf.rs\<close>: byte maps and the casemaps built from them, trimming,
  and the escaping of message tag values; and \<open>Cmd::from_word\<close>, which uses a casemap.  Each
  transform is an interpretation of the contract \<open>utf8_transform\<close>, and for each marker trait the
  sources implement (\<open>NickSafe\<close>, \<open>CmdSafe\<close>, ...) the promised validity is proved.
\<close>

section \<open>Byte maps\<close>

text \<open>The first loop of \<open>map_bytes\<close>: the index of the first byte that changes, its replacement, and
  whether every mapped byte so far was ASCII.\<close>

fun map_scan :: "(byte \<Rightarrow> byte) \<Rightarrow> bytes \<Rightarrow> nat \<Rightarrow> bool \<Rightarrow> nat \<times> byte \<times> bool" where
  "map_scan f [] idx ascii = (idx, CHR 0x00, ascii)"
| "map_scan f (b # bs) idx ascii =
     (let mapped = f b; ascii' = (ascii \<and> is_ascii mapped) in
      if mapped \<noteq> b then (idx, mapped, ascii') else map_scan f bs (idx + 1) ascii')"

fun map_rest :: "(byte \<Rightarrow> byte) \<Rightarrow> bytes \<Rightarrow> bytes \<Rightarrow> bool \<Rightarrow> bytes \<times> bool" where
  "map_rest f [] new ascii = (new, ascii)"
| "map_rest f (b # bs) new ascii = map_rest f bs (new @ [f b]) (ascii \<and> is_ascii (f b))"

definition map_bytes :: "bytes \<Rightarrow> Utf8Policy \<Rightarrow> (byte \<Rightarrow> byte) \<Rightarrow> unit transformation" where
  "map_bytes bs utf8 f =
     (let (idx, replace, ascii1) = map_scan f bs 0 True;
          (out, ascii) =
            (if idx < length bs then
               (let (new, asc) = map_rest f (drop (idx + 1) bs) (take idx bs @ [replace]) ascii1
                in (Owned new, asc))
             else (Borrowed bs, ascii1))
      in \<lparr>tf_value = (), transformed = out, tf_utf8 = (if ascii then PolValid else utf8)\<rparr>)"

section \<open>Casemaps\<close>

definition AsciiCasemap :: "bool \<Rightarrow> ircbytes \<Rightarrow> unit transformation" where
  "AsciiCasemap upper b =
     (if upper then map_bytes (b_value b) PolPreserveStrict to_ascii_uppercase
      else map_bytes (b_value b) PolPreserveStrict to_ascii_lowercase)"

datatype IrcCasemap = CmAscii | Rfc1459Strict | Rfc1459

definition casemap_from_name :: "bytes \<Rightarrow> IrcCasemap option" where
  "casemap_from_name name =
     (if name = ''ascii'' then Some CmAscii
      else if name = ''rfc1459'' then Some Rfc1459
      else if name = ''rfc1459-strict'' then Some Rfc1459Strict
      else None)"

definition rfc1459_strict :: "byte \<Rightarrow> byte" where
  "rfc1459_strict b =
     (if code (CHR ''['') \<le> code b \<and> code b \<le> code (CHR '']'') then char_of (code b + 32)
      else to_ascii_lowercase b)"

definition rfc1459 :: "byte \<Rightarrow> byte" where
  "rfc1459 b = (if b = CHR ''~'' then CHR ''^'' else rfc1459_strict b)"

fun casemap_byte :: "IrcCasemap \<Rightarrow> byte \<Rightarrow> byte" where
  "casemap_byte CmAscii b = to_ascii_lowercase b"
| "casemap_byte Rfc1459Strict b = rfc1459_strict b"
| "casemap_byte Rfc1459 b = rfc1459 b"

definition irc_casemap :: "IrcCasemap \<Rightarrow> ircbytes \<Rightarrow> unit transformation" where
  "irc_casemap m b = map_bytes (b_value b) PolPreserveStrict (casemap_byte m)"

section \<open>Trimming\<close>

datatype StringSide = StartSide | EndSide | StartFirst | EndFirst

fun trim_start :: "bytes \<Rightarrow> bytes" where
  "trim_start [] = []"
| "trim_start (b # bs) = (if is_ascii_whitespace b then trim_start bs else b # bs)"

function trim_end :: "bytes \<Rightarrow> bytes" where
  "trim_end s =
     (if s = [] then []
      else if is_ascii_whitespace (last s) then trim_end (butlast s) else s)"
  by pat_completeness auto
termination
  by (relation "measure length") auto

declare trim_end.simps [simp del]

definition TrimAscii :: "StringSide \<Rightarrow> ircbytes \<Rightarrow> unit transformation" where
  "TrimAscii side b =
     (let s1 = (if side \<noteq> StartSide then trim_end (b_value b) else b_value b);
          s2 = (if side \<noteq> EndSide then trim_start s1 else s1)
      in \<lparr>tf_value = (), transformed = Borrowed s2, tf_utf8 = PolPreserveStrict\<rparr>)"

section \<open>Tag value escapes\<close>

definition unescape_byte :: "byte \<Rightarrow> byte" where
  "unescape_byte b =
     (if b = CHR '':'' then CHR '';''
      else if b = CHR ''s'' then CHR '' ''
      else if b = CHR ''r'' then CHR 0x0D
      else if b = CHR ''n'' then CHR 0x0A
      else b)"

definition escape_byte :: "byte \<Rightarrow> byte option" where
  "escape_byte b =
     (if b = CHR '';'' then Some (CHR '':'')
      else if b = CHR '' '' then Some (CHR ''s'')
      else if b = CHR 0x0D then Some (CHR ''r'')
      else if b = CHR 0x0A then Some (CHR ''n'')
      else if b = CHR 0x5C then Some (CHR 0x5C)
      else None)"

fun escape_rest :: "bytes \<Rightarrow> bytes \<Rightarrow> bytes" where
  "escape_rest new [] = new"
| "escape_rest new (b # bs) =
     (case escape_byte b of
        Some esc \<Rightarrow> escape_rest (new @ [CHR 0x5C, esc]) bs
      | None \<Rightarrow> escape_rest (new @ [b]) bs)"

definition escape :: "bytes \<Rightarrow> bytes" where
  "escape v =
     (case position (\<lambda>c. escape_byte c \<noteq> None) v of
        None \<Rightarrow> v
      | Some i \<Rightarrow>
          escape_rest (take i v @ [CHR 0x5C, the (escape_byte (v ! i))]) (drop (i + 1) v))"

fun unescape_rest :: "bytes \<Rightarrow> bool \<Rightarrow> bytes \<Rightarrow> bytes" where
  "unescape_rest new esc [] = new"
| "unescape_rest new esc (b # bs) =
     (if esc then unescape_rest (new @ [unescape_byte b]) False bs
      else if b = CHR 0x5C then unescape_rest new True bs
      else unescape_rest (new @ [b]) False bs)"

definition unescape :: "bytes \<Rightarrow> bytes" where
  "unescape v =
     (case position (\<lambda>c. c = CHR 0x5C) v of
        None \<Rightarrow> v
      | Some i \<Rightarrow> unescape_rest (take i v @ [unescape_byte (v ! i)]) False (drop (i + 1) v))"

section \<open>\<open>Cmd::from_word\<close>\<close>

definition cmd_from_word :: "bytes \<Rightarrow> (bytes, InvalidString) result" where
  "cmd_from_word w =
     (case find (\<lambda>b. \<not> is_ascii_alphabetic b) w of
        Some b \<Rightarrow> Inl (Byte b)
      | None \<Rightarrow> Inr (b_value (snd (transform (AsciiCasemap True) (bytes_from_bytes w)))))"

section \<open>What the byte maps compute\<close>

lemma map_scan_eq:
  assumes "map_scan f bs n a = (idx, r, a')"
  shows "n \<le> idx \<and> idx \<le> n + length bs \<and> map f (take (idx - n) bs) = take (idx - n) bs \<and>
    (if idx < n + length bs
     then r = f (bs ! (idx - n)) \<and> r \<noteq> bs ! (idx - n) \<and>
       a' = (a \<and> (\<forall>b \<in> set (take (Suc (idx - n)) bs). is_ascii (f b)))
     else map f bs = bs \<and> a' = (a \<and> (\<forall>b \<in> set bs. is_ascii (f b))))"
  using assms
proof (induction bs arbitrary: n a)
  case (Cons b bs)
  show ?case
  proof (cases "f b = b")
    case True
    with Cons.prems have "map_scan f bs (n + 1) (a \<and> is_ascii (f b)) = (idx, r, a')"
      by (simp add: Let_def)
    note IH = Cons.IH [OF this]
    then obtain k where k: "idx = n + Suc k" by (metis Suc_eq_plus1 add_Suc_shift le_iff_add)
    with IH True show ?thesis by (auto split: if_splits)
  next
    case False
    with Cons.prems show ?thesis by (auto simp: Let_def)
  qed
qed auto

lemma map_rest_eq: "map_rest f bs new a = (new @ map f bs, a \<and> (\<forall>b \<in> set bs. is_ascii (f b)))"
  by (induction bs arbitrary: new a) auto

lemma map_bytes_out: "cow_ref (transformed (map_bytes bs p f)) = map f bs"
proof -
  obtain idx r a where s: "map_scan f bs 0 True = (idx, r, a)" by (cases "map_scan f bs 0 True") auto
  show ?thesis
  proof (cases "idx < length bs")
    case True
    have "map f bs = map f (take idx bs) @ f (bs ! idx) # map f (drop (Suc idx) bs)"
      by (metis True append_take_drop_id Cons_nth_drop_Suc list.simps(9) map_append)
    with True map_scan_eq [OF s] show ?thesis by (simp add: map_bytes_def s map_rest_eq)
  next
    case False
    with map_scan_eq [OF s] show ?thesis by (simp add: map_bytes_def s)
  qed
qed

lemma map_bytes_policy:
  "tf_utf8 (map_bytes bs p f) = (if \<forall>b \<in> set bs. is_ascii (f b) then PolValid else p)"
proof -
  obtain idx r a where s: "map_scan f bs 0 True = (idx, r, a)" by (cases "map_scan f bs 0 True") auto
  show ?thesis
  proof (cases "idx < length bs")
    case True
    have "(\<forall>b \<in> set bs. is_ascii (f b)) \<longleftrightarrow>
        (\<forall>b \<in> set (take (Suc idx) bs). is_ascii (f b)) \<and> (\<forall>b \<in> set (drop (Suc idx) bs). is_ascii (f b))"
      by (metis append_take_drop_id Un_iff set_append)
    with True map_scan_eq [OF s] show ?thesis by (simp add: map_bytes_def s map_rest_eq)
  next
    case False
    with map_scan_eq [OF s] show ?thesis by (simp add: map_bytes_def s)
  qed
qed

text \<open>Nothing is copied when nothing changes.\<close>

lemma map_bytes_borrows: "map f bs = bs \<longleftrightarrow> transformed (map_bytes bs p f) = Borrowed bs"
proof -
  obtain idx r a where s: "map_scan f bs 0 True = (idx, r, a)" by (cases "map_scan f bs 0 True") auto
  have "map f bs \<noteq> bs" if "idx < length bs"
    using map_scan_eq [OF s] that by (metis add_0 diff_zero nth_map)
  with map_scan_eq [OF s] show ?thesis by (auto simp: map_bytes_def s map_rest_eq)
qed

section \<open>The transforms keep UTF-8 and the invariants of the string types\<close>

definition ascii_map :: "(byte \<Rightarrow> byte) \<Rightarrow> bool" where
  "ascii_map f \<longleftrightarrow> (\<forall>b. if is_ascii b then is_ascii (f b) else f b = b)"

lemma ascii_map_class:
  assumes "ascii_map f"
  shows "is_ascii (f b) \<longleftrightarrow> is_ascii b" "cont (f b) \<longleftrightarrow> cont b" "lead2 (f b) \<longleftrightarrow> lead2 b"
    "lead3 (f b) (f c) \<longleftrightarrow> lead3 b c" "lead4 (f b) (f c) \<longleftrightarrow> lead4 b c"
proof -
  have b: "if is_ascii x then is_ascii (f x) else f x = x" for x
    using assms by (simp add: ascii_map_def)
  show "is_ascii (f b) \<longleftrightarrow> is_ascii b" "cont (f b) \<longleftrightarrow> cont b" "lead2 (f b) \<longleftrightarrow> lead2 b"
    using b [of b] by (auto simp: cont_def lead2_def is_ascii_def split: if_splits)
  show "lead3 (f b) (f c) \<longleftrightarrow> lead3 b c" "lead4 (f b) (f c) \<longleftrightarrow> lead4 b c"
    using b [of b] b [of c] by (auto simp: lead3_def lead4_def cont_def is_ascii_def split: if_splits)
qed

lemma utf8_char_map: "ascii_map f \<Longrightarrow> utf8_char (map f s) = utf8_char s"
  by (cases s rule: utf8_char.cases) (simp_all add: ascii_map_class)

lemma utf8_valid_map: "ascii_map f \<Longrightarrow> utf8_valid (map f s) = utf8_valid s"
proof (induction s rule: utf8_valid.induct)
  case (1 s)
  then show ?case
    by (simp add: utf8_valid.simps [of s] utf8_valid.simps [of "map f s"] utf8_char_map drop_map)
qed

lemma map_bytes_policy_sound:
  assumes "ascii_map f"
  shows "policy_sound (tf_utf8 (map_bytes s PolPreserveStrict f)) s
    (cow_ref (transformed (map_bytes s PolPreserveStrict f)))"
  using utf8_valid_ascii [of "map f s"] utf8_valid_map [OF assms, of s]
  by (auto simp: map_bytes_policy map_bytes_out)

lemma ascii_map_case: "ascii_map to_ascii_uppercase" "ascii_map to_ascii_lowercase"
  by (auto simp: ascii_map_def to_ascii_uppercase_def to_ascii_lowercase_def u8_class_defs)

lemma ascii_map_rfc1459_strict: "ascii_map rfc1459_strict"
  by (auto simp: ascii_map_def rfc1459_strict_def to_ascii_lowercase_def u8_class_defs)

lemma ascii_map_casemap_byte: "ascii_map (casemap_byte m)"
proof (cases m)
  case Rfc1459
  have "is_ascii (CHR ''~'')" "is_ascii (CHR ''^'')" by (simp_all add: is_ascii_def)
  with Rfc1459 ascii_map_rfc1459_strict show ?thesis by (auto simp: ascii_map_def rfc1459_def)
qed (use ascii_map_case(2) ascii_map_rfc1459_strict in \<open>auto simp: ascii_map_def\<close>)

interpretation ascii_casemap: utf8_transform "AsciiCasemap u" for u
  by unfold_locales
    (cases u; simp add: AsciiCasemap_def map_bytes_policy_sound ascii_map_case)

interpretation irc_cm: utf8_transform "irc_casemap m" for m
  by unfold_locales (simp add: irc_casemap_def map_bytes_policy_sound ascii_map_casemap_byte)

lemma trim_start_eq: "trim_start s = dropWhile is_ascii_whitespace s"
  by (induction s) auto

lemma trim_end_eq: "trim_end s = rev (dropWhile is_ascii_whitespace (rev s))"
proof (induction s rule: trim_end.induct)
  case (1 s)
  then show ?case
    by (cases s rule: rev_cases) (subst trim_end.simps, simp)+
qed

lemma whitespace_ascii: "is_ascii_whitespace b \<Longrightarrow> is_ascii b"
  by (auto simp: is_ascii_whitespace_def is_ascii_def code_def)

lemma utf8_trim_start: "utf8_valid (trim_start s) = utf8_valid s"
  by (induction s) (auto dest: whitespace_ascii)

lemma utf8_valid_snoc_ascii: "is_ascii b \<Longrightarrow> utf8_valid (s @ [b]) = utf8_valid s"
  using utf8_valid_cut_ascii(1) [of s b "[]"] utf8_valid_append [of s "[b]"] by auto

lemma utf8_trim_end: "utf8_valid (trim_end s) = utf8_valid s"
proof (induction s rule: trim_end.induct)
  case (1 s)
  then show ?case
    by (cases s rule: rev_cases)
      (auto simp: trim_end.simps [of "[]"] trim_end.simps [of "_ @ [_]"] utf8_valid_snoc_ascii
        dest: whitespace_ascii)
qed

interpretation trim: utf8_transform "TrimAscii side" for side
  by unfold_locales (auto simp: TrimAscii_def Let_def utf8_trim_start utf8_trim_end)

text \<open>A byte map keeps the invariant of a type if it maps no byte to a byte the type refuses and
  no first byte to a colon.\<close>

lemma valid_map:
  assumes "valid t s" and "\<And>b. \<not> is_invalid t b \<Longrightarrow> \<not> is_invalid t (f b)"
    and "\<And>b. f b = CHR '':'' \<Longrightarrow> b = CHR '':''"
  shows "valid t (map f s)"
proof -
  have "check_others t (map f s) = None" if "check_others t s = None"
    using that assms(3) by (cases t; cases s) (auto simp: arg_first_check_None)
  with assms(1,2) show ?thesis by (auto simp: valid_iff)
qed

text \<open>A casemap only produces lower case letters, braces, bar and caret.\<close>

lemma casemap_byte_changed: "casemap_byte m b = b \<or> 94 \<le> code (casemap_byte m b) \<and> code (casemap_byte m b) < 126"
  by (cases m) (auto simp: rfc1459_def rfc1459_strict_def to_ascii_lowercase_def is_ascii_uppercase_def)

lemma casemap_byte_safe:
  "\<not> is_invalid t b \<Longrightarrow> t \<noteq> Cmd \<Longrightarrow> \<not> is_invalid t (casemap_byte m b)"
  "casemap_byte m b = CHR '':'' \<Longrightarrow> b = CHR '':''"
proof -
  have *: "casemap_byte m b = c \<Longrightarrow> b = c"
    if "c \<in> {CHR 0x00, CHR 0x0A, CHR 0x0D, CHR '' '', CHR '':'', CHR ''='', CHR '';'', CHR ''!'', CHR ''@'', CHR ''%''}" for c
    using that casemap_byte_changed [of m b] by auto
  show "casemap_byte m b = CHR '':'' \<Longrightarrow> b = CHR '':''" by (rule *) auto
  assume "\<not> is_invalid t b" "t \<noteq> Cmd"
  with * show "\<not> is_invalid t (casemap_byte m b)"
    by (cases t) (auto simp: invalid_defs)
qed

lemma valid_casemap: "valid t s \<Longrightarrow> t \<noteq> Cmd \<Longrightarrow> valid t (map (casemap_byte m) s)"
  by (rule valid_map) (auto dest: casemap_byte_safe)

lemma valid_uppercase:
  assumes "valid t s" and "t \<in> {Bytes, NoNul, Line, Word, Arg, Key, Cmd}"
  shows "valid t (map to_ascii_uppercase s)"
proof (rule valid_map [OF assms(1)])
  have *: "to_ascii_uppercase b = b \<or> is_ascii_uppercase (to_ascii_uppercase b)" for b
    using to_ascii_uppercase_alphabetic [of b] to_ascii_uppercase_id [of b]
    by (auto simp: is_ascii_alphabetic_def)
  show "\<And>b. to_ascii_uppercase b = CHR '':'' \<Longrightarrow> b = CHR '':''"
    using * uppercase_not_special by (metis insertCI)
  show "\<not> is_invalid t (to_ascii_uppercase b)" if "\<not> is_invalid t b" for b
    using that assms(2) * [of b] uppercase_not_special [of "to_ascii_uppercase b"]
    by (auto simp: invalid_defs)
qed

text \<open>Trimming keeps the types that \<open>TrimAscii\<close> is marked safe for; it would not keep \<open>Arg\<close>, which
  may not become empty.\<close>

lemma set_trim: "set (trim_start s) \<subseteq> set s" "set (trim_end s) \<subseteq> set s"
  by (auto simp: trim_start_eq trim_end_eq dest: set_dropWhileD)

lemma valid_trim:
  "t \<in> {Bytes, NoNul, Line} \<Longrightarrow> valid t (b_value b) \<Longrightarrow>
   valid t (cow_ref (transformed (TrimAscii side b)))"
  using set_trim by (fastforce simp: TrimAscii_def Let_def valid_iff)

section \<open>Escapes\<close>

definition esc_code :: "byte \<Rightarrow> bytes" where
  "esc_code b = (case escape_byte b of Some e \<Rightarrow> [CHR 0x5C, e] | None \<Rightarrow> [b])"

lemma escape_rest_eq: "escape_rest new s = new @ concat (map esc_code s)"
  by (induction s arbitrary: new) (auto simp: esc_code_def split: option.splits)

lemma escape_none: "\<forall>b \<in> set v. escape_byte b = None \<Longrightarrow> concat (map esc_code v) = v"
  by (induction v) (auto simp: esc_code_def)

text \<open>The optimised loop is the escaping of the tag specification.\<close>

lemma escape_eq: "escape v = concat (map esc_code v)"
proof (cases "position (\<lambda>c. escape_byte c \<noteq> None) v")
  case None
  then have "concat (map esc_code v) = v" by (simp add: escape_none position_None)
  with None show ?thesis by (simp add: escape_def)
next
  case (Some i)
  then have i: "i < length v" and e: "escape_byte (v ! i) \<noteq> None"
    by (auto dest: position_Some_less position_Some_nth)
  have "\<forall>b \<in> set (take i v). escape_byte b = None"
    using Some by (auto simp: position_Some_take dest: set_takeWhileD)
  then have "concat (map esc_code (take i v)) = take i v" by (rule escape_none)
  moreover have "concat (map esc_code v) =
      concat (map esc_code (take i v)) @ esc_code (v ! i) @ concat (map esc_code (drop (Suc i) v))"
    by (metis append_take_drop_id Cons_nth_drop_Suc concat.simps(2) concat_append i list.simps(9) map_append)
  ultimately show ?thesis using Some e by (auto simp: escape_def escape_rest_eq esc_code_def)
qed

lemma esc_code_bytes:
  "c \<in> set (esc_code b) \<Longrightarrow> c \<notin> {CHR '';'', CHR '' '', CHR 0x0D, CHR 0x0A} \<and> (c = CHR 0x00 \<longrightarrow> b = CHR 0x00)"
  by (auto simp: esc_code_def escape_byte_def split: if_splits)

lemma escape_valid: "valid NoNul v \<Longrightarrow> valid Word (escape v) \<and> CHR '';'' \<notin> set (escape v)"
  using esc_code_bytes by (fastforce simp: escape_eq valid_iff invalid_defs)

text \<open>Unescaping as the tag specification has it: a backslash takes the meaning of the next byte, a
  trailing backslash is dropped.\<close>

fun unescape_spec :: "bytes \<Rightarrow> bytes" where
  "unescape_spec [] = []"
| "unescape_spec [b] = (if b = CHR 0x5C then [] else [b])"
| "unescape_spec (b # c # s) =
     (if b = CHR 0x5C then unescape_byte c # unescape_spec s else b # unescape_spec (c # s))"

lemma unescape_rest_spec:
  "unescape_rest new False s = new @ unescape_spec s"
  by (induction s arbitrary: new rule: unescape_spec.induct) auto

lemma unescape_spec_none: "CHR 0x5C \<notin> set s \<Longrightarrow> unescape_spec s = s"
  by (induction s rule: unescape_spec.induct) auto

lemma unescape_spec_prefix: "CHR 0x5C \<notin> set p \<Longrightarrow> unescape_spec (p @ s) = p @ unescape_spec s"
proof (induction p)
  case (Cons b p)
  then show ?case by (cases "p @ s") auto
qed simp

text \<open>What the code computes: the first backslash is kept and its escape is not decoded; every
  later escape is.\<close>

lemma unescape_eq:
  "CHR 0x5C \<notin> set p \<Longrightarrow> unescape p = p"
  "CHR 0x5C \<notin> set p \<Longrightarrow> unescape (p @ CHR 0x5C # s) = p @ CHR 0x5C # unescape_spec s"
proof -
  assume p: "CHR 0x5C \<notin> set p"
  then have "position (\<lambda>c. c = CHR 0x5C) p = None" by (auto simp: position_None)
  moreover from this have "position (\<lambda>c. c = CHR 0x5C) (p @ CHR 0x5C # s) = Some (length p)"
    by (simp add: position_append)
  ultimately show "unescape p = p" "unescape (p @ CHR 0x5C # s) = p @ CHR 0x5C # unescape_spec s"
    by (simp_all add: unescape_def unescape_rest_spec unescape_byte_def)
qed

lemma escape_byte_inv: "escape_byte b = Some e \<Longrightarrow> unescape_byte e = b"
  by (auto simp: escape_byte_def unescape_byte_def split: if_splits)

lemma unescape_spec_escape: "unescape_spec (escape v) = v"
proof -
  have "unescape_spec (concat (map esc_code v)) = v"
  proof (induction v)
    case (Cons b v)
    show ?case
    proof (cases "escape_byte b")
      case None
      then have "b \<noteq> CHR 0x5C" by (auto simp: escape_byte_def)
      with None Cons show ?thesis using unescape_spec_prefix [of "[b]"] by (simp add: esc_code_def)
    next
      case (Some e)
      with Cons show ?thesis by (simp add: esc_code_def escape_byte_inv)
    qed
  qed simp
  then show ?thesis by (simp add: escape_eq)
qed

lemma unescape_NoNul: "valid NoNul v \<Longrightarrow> valid NoNul (unescape v)"
proof -
  have spec: "b \<in> set (unescape_spec s) \<Longrightarrow> b = CHR 0x00 \<Longrightarrow> CHR 0x00 \<in> set s" for b s
    by (induction s rule: unescape_spec.induct) (auto simp: unescape_byte_def split: if_splits)
  assume v: "valid NoNul v"
  show ?thesis
  proof (cases "CHR 0x5C \<in> set v")
    case True
    then obtain p s where "v = p @ CHR 0x5C # s" "CHR 0x5C \<notin> set p" by (meson split_list_first)
    with v spec show ?thesis by (auto simp: unescape_eq valid_iff invalid_defs)
  next
    case False
    with v show ?thesis by (simp add: unescape_eq)
  qed
qed

text \<open>Escaping and unescaping is the identity on values that need no escape; when the first byte
  that needs one is not a backslash, the value comes back with the escape sequence in its place.\<close>

lemma unescape_escape_plain: "\<forall>b \<in> set v. escape_byte b = None \<Longrightarrow> unescape (escape v) = v"
proof -
  assume v: "\<forall>b \<in> set v. escape_byte b = None"
  then have "CHR 0x5C \<notin> set v" by (auto simp: escape_byte_def)
  with v show ?thesis by (simp add: escape_eq escape_none unescape_eq)
qed

lemma unescape_escape_first:
  assumes "\<forall>x \<in> set p. escape_byte x = None" and "escape_byte b = Some e" and "b \<noteq> CHR 0x5C"
  shows "unescape (escape (p @ b # s)) = p @ CHR 0x5C # e # s"
proof -
  from assms(1) have p: "CHR 0x5C \<notin> set p" by (auto simp: escape_byte_def)
  from assms(2,3) have e: "e \<noteq> CHR 0x5C" by (auto simp: escape_byte_def split: if_splits)
  have "unescape (escape (p @ b # s)) = p @ CHR 0x5C # unescape_spec (e # escape s)"
    using p assms(1,2) by (simp add: escape_eq escape_none unescape_eq esc_code_def)
  with e show ?thesis using unescape_spec_prefix [of "[e]" "escape s"] by (simp add: unescape_spec_escape)
qed

section \<open>Commands\<close>

lemma cmd_from_word_eq:
  "cmd_from_word w =
     (case find (\<lambda>b. \<not> is_ascii_alphabetic b) w of
        Some b \<Rightarrow> Inl (Byte b) | None \<Rightarrow> Inr (map to_ascii_uppercase w))"
  by (simp add: cmd_from_word_def ascii_casemap.transform_value AsciiCasemap_def map_bytes_out
      bytes_from_bytes_def split: option.splits)

lemma cmd_from_word_Inr:
  "cmd_from_word w = Inr c \<longleftrightarrow> (\<forall>b \<in> set w. is_ascii_alphabetic b) \<and> c = map to_ascii_uppercase w"
  by (auto simp: cmd_from_word_eq find_None_iff split: option.splits) (auto simp: find_Some_iff)

text \<open>The result is a valid command, unless the word is empty.\<close>

lemma cmd_from_word_valid: "cmd_from_word w = Inr c \<Longrightarrow> w \<noteq> [] \<Longrightarrow> valid Cmd c"
  by (auto simp: cmd_from_word_Inr valid_Cmd_iff to_ascii_uppercase_alphabetic)

lemma cmd_from_word_cmd: "valid Cmd c \<Longrightarrow> cmd_from_word c = Inr c"
  by (auto simp: cmd_from_word_Inr valid_Cmd_iff is_ascii_alphabetic_def uppercase_fixed map_idI)

section \<open>Properties\<close>

text \<open>Folding a string with any of the three IRC casemaps maps every byte, keeps the string valid for
  its type (commands apart), keeps its UTF-8 flag right and keeps a secret secret.\<close>

lemma casemap_safe:
  assumes "bytes_ok b" and "valid t (b_value b)" and "t \<noteq> Cmd"
  shows "bytes_ok (snd (transform (irc_casemap m) b)) \<and>
    b_value (snd (transform (irc_casemap m) b)) = map (casemap_byte m) (b_value b) \<and>
    valid t (b_value (snd (transform (irc_casemap m) b))) \<and>
    (b_value b \<noteq> [] \<longrightarrow> is_secret (snd (transform (irc_casemap m) b)) = is_secret b)"
proof -
  have v: "cow_ref (transformed (irc_casemap m b)) = map (casemap_byte m) (b_value b)"
    by (simp add: irc_casemap_def map_bytes_out)
  with irc_cm.transform_ok [OF assms(1)] irc_cm.transform_secret [of m b] valid_casemap [OF assms(2,3), of m]
  show ?thesis by (simp add: irc_cm.transform_value is_secret_def)
qed

text \<open>Escaping a tag value gives a word without a semicolon from which the unescaping of the tag
  specification gives the value back.\<close>

lemma escape_invertible:
  assumes "valid NoNul v"
  shows "valid Word (escape v) \<and> CHR '';'' \<notin> set (escape v) \<and> unescape_spec (escape v) = v"
  using escape_valid [OF assms] by (simp add: unescape_spec_escape)

text \<open>The unescaping of the code keeps the first escape of a value undecoded: after the first
  escaped byte the value comes back with a backslash and the escape letter in its place.\<close>

lemma unescape_keeps_first_escape:
  assumes "\<forall>x \<in> set p. escape_byte x = None" and "escape_byte b = Some e" and "b \<noteq> CHR 0x5C"
  shows "unescape (escape (p @ b # s)) = p @ CHR 0x5C # e # s"
  using assms by (rule unescape_escape_first)

end
