(* ===== verification/Splitter.thy ===== *)
theory Splitter
  imports Utf8
begin

text \<open>
  The zero-copy cursor of \<open>string/splitter.rs\<close>.  A splitter keeps the whole string and a range
  into it, with what is known about the encoding of that range; every method is a function from
  splitters to splitters.  The state invariant is \<open>wf_splitter\<close> (the range lies in the string, so
  no slicing panics and no length underflows).  The abstraction is \<open>as_slice\<close>, the bytes still to
  be extracted: the \<open>slice_simps\<close> collect what each method does to it, and show that the encoding
  never decides what is extracted.
\<close>

section \<open>State\<close>

datatype encoding = Unknown | Utf8 | Ascii

fun enc_rank :: "encoding \<Rightarrow> nat" where
  "enc_rank Unknown = 0" | "enc_rank Utf8 = 1" | "enc_rank Ascii = 2"

lemma enc_rank_inject: "enc_rank a = enc_rank b \<longleftrightarrow> a = b"
  by (cases a; cases b) auto

text \<open>The derived \<open>Ord\<close> of \<open>Encoding\<close>: the order of its variants.\<close>

instantiation encoding :: linorder
begin

definition less_eq_encoding :: "encoding \<Rightarrow> encoding \<Rightarrow> bool" where
  "less_eq_encoding a b \<longleftrightarrow> enc_rank a \<le> enc_rank b"

definition less_encoding :: "encoding \<Rightarrow> encoding \<Rightarrow> bool" where
  "less_encoding a b \<longleftrightarrow> enc_rank a < enc_rank b"

instance
  by standard (auto simp: less_eq_encoding_def less_encoding_def enc_rank_inject)

end

record srange =
  r_start :: nat
  r_end :: nat
  r_encoding :: encoding

record splitter =
  sp_str :: bytes
  rng :: srange

definition range_len :: "srange \<Rightarrow> nat" where
  "range_len r = r_end r - r_start r"

definition consume :: "nat \<Rightarrow> bool \<Rightarrow> srange \<Rightarrow> nat \<times> srange" where
  "consume n toend r =
     (let count = min n (range_len r);
          r1 = (if toend then r\<lparr>r_end := r_start r + count\<rparr> else r\<lparr>r_start := r_start r + count\<rparr>);
          r2 = (if 0 < count \<and> r_encoding r1 = Utf8 then r1\<lparr>r_encoding := Unknown\<rparr> else r1)
      in (count, r2))"

definition restore :: "srange \<Rightarrow> bool \<Rightarrow> bool \<Rightarrow> srange \<Rightarrow> srange" where
  "restore saved s e r =
     (let r1 = (if s then r\<lparr>r_start := r_start saved\<rparr> else r);
          r2 = (if e then r1\<lparr>r_end := r_end saved\<rparr> else r1)
      in if s \<and> e then r2\<lparr>r_encoding := r_encoding saved\<rparr> else r2)"

text \<open>\<open>&slice[start..end]\<close>; in a well-formed splitter the indices are in range.\<close>

definition constrain :: "srange \<Rightarrow> 'a list \<Rightarrow> 'a list" where
  "constrain r s = take (r_end r - r_start r) (drop (r_start r) s)"

definition as_slice :: "splitter \<Rightarrow> bytes" where
  "as_slice sp = constrain (rng sp) (sp_str sp)"

definition wf_splitter :: "splitter \<Rightarrow> bool" where
  "wf_splitter sp \<longleftrightarrow> r_start (rng sp) \<le> r_end (rng sp) \<and> r_end (rng sp) \<le> length (sp_str sp)"

text \<open>The three field assignments the methods are made of.\<close>

definition advance :: "nat \<Rightarrow> splitter \<Rightarrow> splitter" where
  "advance n sp = sp\<lparr>rng := (rng sp)\<lparr>r_start := r_start (rng sp) + n\<rparr>\<rparr>"

definition set_end :: "nat \<Rightarrow> splitter \<Rightarrow> splitter" where
  "set_end e sp = sp\<lparr>rng := (rng sp)\<lparr>r_end := e\<rparr>\<rparr>"

definition set_encoding :: "encoding \<Rightarrow> splitter \<Rightarrow> splitter" where
  "set_encoding e sp = sp\<lparr>rng := (rng sp)\<lparr>r_encoding := e\<rparr>\<rparr>"

lemmas field_defs = advance_def set_end_def set_encoding_def

section \<open>Methods\<close>

text \<open>\<open>Splitter::new\<close>; the flag is \<open>string.is_utf8_lazy()\<close>.\<close>

definition sp_new :: "bool \<Rightarrow> bytes \<Rightarrow> splitter" where
  "sp_new utf8 s = \<lparr>sp_str = s, rng =
     \<lparr>r_start = 0, r_end = length s, r_encoding = (if utf8 then Utf8 else Unknown)\<rparr>\<rparr>"

definition sp_is_utf8_lazy :: "splitter \<Rightarrow> bool" where
  "sp_is_utf8_lazy sp \<longleftrightarrow> Utf8 \<le> r_encoding (rng sp)"

definition sp_is_empty :: "splitter \<Rightarrow> bool" where
  "sp_is_empty sp \<longleftrightarrow> range_len (rng sp) = 0"

definition sp_len :: "splitter \<Rightarrow> nat" where
  "sp_len sp = range_len (rng sp)"

text \<open>A guard from \<open>save\<close> runs the body on the splitter and restores the saved indices when it is
  dropped.\<close>

definition save :: "bool \<Rightarrow> bool \<Rightarrow> (splitter \<Rightarrow> 'a \<times> splitter) \<Rightarrow> splitter \<Rightarrow> 'a \<times> splitter" where
  "save s e body sp =
     (let (x, sp') = body sp in (x, sp'\<lparr>rng := restore (rng sp) s e (rng sp')\<rparr>))"

definition save_end :: "(splitter \<Rightarrow> 'a \<times> splitter) \<Rightarrow> splitter \<Rightarrow> 'a \<times> splitter" where
  "save_end = save False True"

definition check_encoding_inner :: "encoding \<Rightarrow> splitter \<Rightarrow> bool \<times> splitter" where
  "check_encoding_inner accept sp =
     (if r_encoding (rng sp) < accept then
        (let slice = as_slice sp in
         case position (\<lambda>c. \<not> is_ascii c) slice of
           Some i \<Rightarrow> if utf8_valid (drop i slice) then (True, set_encoding Utf8 sp) else (False, sp)
         | None \<Rightarrow> (True, set_encoding Ascii sp))
      else (True, sp))"

definition check_encoding :: "splitter \<Rightarrow> bool \<times> splitter" where
  "check_encoding = check_encoding_inner Ascii"

definition peek_byte :: "splitter \<Rightarrow> byte option" where
  "peek_byte sp = (case as_slice sp of [] \<Rightarrow> None | b # _ \<Rightarrow> Some b)"

definition next_byte :: "splitter \<Rightarrow> byte option \<times> splitter" where
  "next_byte sp =
     (case peek_byte sp of
        None \<Rightarrow> (None, sp)
      | Some b \<Rightarrow> (Some b, if is_ascii b then advance 1 sp else set_encoding Unknown (advance 1 sp)))"

definition rpeek_byte :: "splitter \<Rightarrow> byte option" where
  "rpeek_byte sp = (if as_slice sp = [] then None else Some (last (as_slice sp)))"

definition rnext_byte :: "splitter \<Rightarrow> byte option \<times> splitter" where
  "rnext_byte sp =
     (case rpeek_byte sp of
        None \<Rightarrow> (None, sp)
      | Some b \<Rightarrow>
          (let sp' = set_end (r_end (rng sp) - 1) sp
           in (Some b, if is_ascii b then sp' else set_encoding Unknown sp')))"

definition consume_invalid :: "strtype \<Rightarrow> splitter \<Rightarrow> splitter" where
  "consume_invalid U sp =
     (case position (\<lambda>c. \<not> is_invalid U c) (as_slice sp) of
        Some i \<Rightarrow> advance i sp
      | None \<Rightarrow> sp\<lparr>rng := (rng sp)\<lparr>r_start := r_end (rng sp)\<rparr>\<rparr>)"

definition consume_whitespace :: "splitter \<Rightarrow> splitter" where
  "consume_whitespace sp =
     (case position (\<lambda>c. \<not> is_ascii_whitespace c) (as_slice sp) of
        Some i \<Rightarrow> advance i sp
      | None \<Rightarrow> sp\<lparr>rng := (rng sp)\<lparr>r_start := r_end (rng sp)\<rparr>\<rparr>)"

definition until_byte :: "(byte \<Rightarrow> bool) \<Rightarrow> splitter \<Rightarrow> splitter" where
  "until_byte f sp =
     (case position f (as_slice sp) of
        Some i \<Rightarrow> sp\<lparr>rng := snd (consume i True (rng sp))\<rparr>
      | None \<Rightarrow> sp)"

definition until_byte_eq :: "byte \<Rightarrow> splitter \<Rightarrow> splitter" where
  "until_byte_eq b sp =
     (case position (\<lambda>c. c = b) (as_slice sp) of
        Some i \<Rightarrow>
          (let sp' = set_end (r_start (rng sp) + i) sp
           in if r_encoding (rng sp') = Utf8 \<and> \<not> is_ascii b then set_encoding Unknown sp' else sp')
      | None \<Rightarrow> sp)"

definition until_count :: "nat \<Rightarrow> splitter \<Rightarrow> splitter" where
  "until_count n sp = sp\<lparr>rng := snd (consume n True (rng sp))\<rparr>"

definition peek_rest :: "strtype \<Rightarrow> splitter \<Rightarrow> (bytes, InvalidString) result" where
  "peek_rest U sp =
     (case check_others U (as_slice sp) of Some e \<Rightarrow> Inl e | None \<Rightarrow> Inr (as_slice sp))"

definition peek_string :: "strtype \<Rightarrow> bool \<Rightarrow> splitter \<Rightarrow> (bytes, InvalidString) result" where
  "peek_string U require_rest sp =
     (let slice = as_slice sp;
          finish = (\<lambda>s. case check_others U s of Some e \<Rightarrow> Inl e | None \<Rightarrow> Inr s)
      in case position (is_invalid U) slice of
           Some i \<Rightarrow> if \<not> require_rest then finish (take i slice) else Inl (Byte (slice ! i))
         | None \<Rightarrow> finish slice)"

definition sp_rest :: "strtype \<Rightarrow> splitter \<Rightarrow> (bytes, InvalidString) result \<times> splitter" where
  "sp_rest U sp =
     (case peek_rest U sp of Inl e \<Rightarrow> (Inl e, sp) | Inr s \<Rightarrow> (Inr s, advance (length s) sp))"

definition rest_or_default :: "strtype \<Rightarrow> splitter \<Rightarrow> bytes \<times> splitter" where
  "rest_or_default U sp = (let s = unwrap_or [] (peek_rest U sp) in (s, advance (length s) sp))"

definition sp_string :: "strtype \<Rightarrow> bool \<Rightarrow> splitter \<Rightarrow> (bytes, InvalidString) result \<times> splitter" where
  "sp_string U require_rest sp =
     (case peek_string U require_rest sp of
        Inl e \<Rightarrow> (Inl e, sp)
      | Inr s \<Rightarrow> (Inr s, advance (length s) sp))"

definition string_or_default :: "strtype \<Rightarrow> bool \<Rightarrow> splitter \<Rightarrow> bytes \<times> splitter" where
  "string_or_default U require_rest sp =
     (let s = unwrap_or [] (peek_string U require_rest sp) in (s, advance (length s) sp))"

section \<open>What the methods do to the slice\<close>

lemma length_as_slice: "wf_splitter sp \<Longrightarrow> length (as_slice sp) = r_end (rng sp) - r_start (rng sp)"
  by (auto simp: wf_splitter_def as_slice_def constrain_def)

lemma as_slice_advance [slice_simps]: "as_slice (advance n sp) = drop n (as_slice sp)"
  by (simp add: field_defs as_slice_def constrain_def drop_take add.commute)

lemma as_slice_set_encoding [slice_simps]: "as_slice (set_encoding e sp) = as_slice sp"
  by (simp add: field_defs as_slice_def constrain_def)

lemma as_slice_set_end [slice_simps]:
  "i \<le> length (as_slice sp) \<Longrightarrow>
   as_slice (set_end (r_start (rng sp) + i) sp) = take i (as_slice sp)"
  by (auto simp: field_defs as_slice_def constrain_def min_def split: if_splits)

lemma as_slice_exhausted [slice_simps]:
  "as_slice (sp\<lparr>rng := (rng sp)\<lparr>r_start := r_end (rng sp)\<rparr>\<rparr>) = []"
  by (simp add: as_slice_def constrain_def)

lemma wf_advance [wf_intros]: "wf_splitter sp \<Longrightarrow> n \<le> length (as_slice sp) \<Longrightarrow> wf_splitter (advance n sp)"
  by (simp add: length_as_slice) (auto simp: field_defs wf_splitter_def)

lemma wf_set_encoding [wf_intros]: "wf_splitter sp \<Longrightarrow> wf_splitter (set_encoding e sp)"
  by (simp add: field_defs wf_splitter_def)

lemma wf_set_end [wf_intros]:
  "wf_splitter sp \<Longrightarrow> i \<le> length (as_slice sp) \<Longrightarrow>
   wf_splitter (set_end (r_start (rng sp) + i) sp)"
  by (simp add: length_as_slice) (auto simp: field_defs wf_splitter_def)

lemma wf_exhausted [wf_intros]:
  "wf_splitter sp \<Longrightarrow> wf_splitter (sp\<lparr>rng := (rng sp)\<lparr>r_start := r_end (rng sp)\<rparr>\<rparr>)"
  by (simp add: wf_splitter_def)

lemma sp_new_slice [slice_simps]: "as_slice (sp_new u s) = s"
  by (simp add: sp_new_def as_slice_def constrain_def)

lemma sp_new_wf [wf_intros]: "wf_splitter (sp_new u s)"
  by (simp add: sp_new_def wf_splitter_def)

lemma sp_is_empty_iff [slice_simps]: "wf_splitter sp \<Longrightarrow> sp_is_empty sp \<longleftrightarrow> as_slice sp = []"
  by (auto simp: sp_is_empty_def range_len_def wf_splitter_def as_slice_def constrain_def)

lemma sp_len_eq [slice_simps]: "wf_splitter sp \<Longrightarrow> sp_len sp = length (as_slice sp)"
  by (simp add: sp_len_def range_len_def length_as_slice)

lemma next_byte_fst [slice_simps]:
  "fst (next_byte sp) = (case as_slice sp of [] \<Rightarrow> None | b # _ \<Rightarrow> Some b)"
  by (simp add: next_byte_def peek_byte_def split: list.splits)

lemma next_byte_slice [slice_simps]: "as_slice (snd (next_byte sp)) = tl (as_slice sp)"
  by (auto simp: next_byte_def peek_byte_def slice_simps drop_Suc split: list.splits)

lemma next_byte_wf [wf_intros]: "wf_splitter sp \<Longrightarrow> wf_splitter (snd (next_byte sp))"
  by (cases "as_slice sp") (auto simp: next_byte_def peek_byte_def intro!: wf_intros)

lemma rnext_byte_slice [slice_simps]:
  assumes "wf_splitter sp"
  shows "as_slice (snd (rnext_byte sp)) = butlast (as_slice sp)"
proof (cases "as_slice sp = []")
  case True
  then show ?thesis by (simp add: rnext_byte_def rpeek_byte_def)
next
  case False
  with assms have n: "r_start (rng sp) < r_end (rng sp)"
    using length_as_slice [OF assms] by (cases "as_slice sp") auto
  have "as_slice (set_end (r_end (rng sp) - 1) sp) = butlast (as_slice sp)"
    using assms n
    by (auto simp: field_defs as_slice_def constrain_def butlast_take wf_splitter_def)
  with False show ?thesis by (simp add: rnext_byte_def rpeek_byte_def slice_simps Let_def)
qed

lemma rnext_byte_wf [wf_intros]:
  assumes "wf_splitter sp"
  shows "wf_splitter (snd (rnext_byte sp))"
proof (cases "as_slice sp = []")
  case True
  with assms show ?thesis by (simp add: rnext_byte_def rpeek_byte_def)
next
  case False
  with assms have "r_start (rng sp) < r_end (rng sp)"
    using length_as_slice [OF assms] by (cases "as_slice sp") auto
  with assms show ?thesis
    by (auto simp: rnext_byte_def rpeek_byte_def wf_splitter_def field_defs Let_def split: if_splits)
qed

lemma drop_position:
  "(case position (\<lambda>c. \<not> P c) s of Some i \<Rightarrow> drop i s | None \<Rightarrow> []) = dropWhile P s"
  by (induction s) (auto split: option.splits)

lemma consume_whitespace_slice [slice_simps]:
  "as_slice (consume_whitespace sp) = dropWhile is_ascii_whitespace (as_slice sp)"
  using drop_position [where P = is_ascii_whitespace and s = "as_slice sp"]
  by (auto simp: consume_whitespace_def slice_simps split: option.splits)

lemma consume_whitespace_wf [wf_intros]: "wf_splitter sp \<Longrightarrow> wf_splitter (consume_whitespace sp)"
  by (auto simp: consume_whitespace_def intro!: wf_intros dest: position_Some_less split: option.splits)

lemma consume_invalid_slice [slice_simps]:
  "as_slice (consume_invalid U sp) = dropWhile (is_invalid U) (as_slice sp)"
  using drop_position [where P = "is_invalid U" and s = "as_slice sp"]
  by (auto simp: consume_invalid_def slice_simps split: option.splits)

lemma consume_invalid_wf [wf_intros]: "wf_splitter sp \<Longrightarrow> wf_splitter (consume_invalid U sp)"
  by (auto simp: consume_invalid_def intro!: wf_intros dest: position_Some_less split: option.splits)

lemma until_byte_eq_slice [slice_simps]:
  "as_slice (until_byte_eq b sp) = takeWhile (\<lambda>c. c \<noteq> b) (as_slice sp)"
proof (cases "position (\<lambda>c. c = b) (as_slice sp)")
  case None
  then show ?thesis by (simp add: until_byte_eq_def position_None_takeWhile)
next
  case (Some i)
  then have "i \<le> length (as_slice sp)" by (auto dest: position_Some_less)
  with Some show ?thesis by (simp add: until_byte_eq_def Let_def slice_simps position_Some_take)
qed

lemma until_byte_eq_wf [wf_intros]: "wf_splitter sp \<Longrightarrow> wf_splitter (until_byte_eq b sp)"
  by (auto simp: until_byte_eq_def Let_def intro!: wf_intros
      dest: position_Some_less split: option.splits)

lemma snd_consume_end:
  "snd (consume n True r) = r\<lparr>r_end := r_start r + min n (range_len r),
     r_encoding := (if 0 < min n (range_len r) \<and> r_encoding r = Utf8 then Unknown else r_encoding r)\<rparr>"
  by (simp add: consume_def Let_def)

lemma until_count_slice [slice_simps]:
  "wf_splitter sp \<Longrightarrow> as_slice (until_count n sp) = take n (as_slice sp)"
  by (simp add: until_count_def snd_consume_end as_slice_def constrain_def range_len_def min.commute)

lemma until_count_wf [wf_intros]: "wf_splitter sp \<Longrightarrow> wf_splitter (until_count n sp)"
  by (auto simp: until_count_def snd_consume_end wf_splitter_def range_len_def)

lemma until_byte_slice [slice_simps]:
  "wf_splitter sp \<Longrightarrow> as_slice (until_byte f sp) = takeWhile (\<lambda>c. \<not> f c) (as_slice sp)"
  using until_count_slice [of sp]
  by (cases "position f (as_slice sp)")
    (simp_all add: until_byte_def until_count_def position_Some_take position_None_takeWhile
     )

lemma until_byte_wf [wf_intros]: "wf_splitter sp \<Longrightarrow> wf_splitter (until_byte f sp)"
  using until_count_wf [of sp] by (auto simp: until_byte_def until_count_def split: option.splits)

text \<open>The extracting methods, as functions of the slice alone.\<close>

definition slice_string :: "strtype \<Rightarrow> bool \<Rightarrow> bytes \<Rightarrow> (bytes, InvalidString) result" where
  "slice_string U require_rest s =
     (let w = takeWhile (\<lambda>b. \<not> is_invalid U b) s in
      if require_rest \<and> w \<noteq> s then Inl (Byte (s ! length w))
      else case check_others U w of Some e \<Rightarrow> Inl e | None \<Rightarrow> Inr w)"

lemma peek_string_slice [slice_simps]: "peek_string U r sp = slice_string U r (as_slice sp)"
proof (cases "position (is_invalid U) (as_slice sp)")
  case None
  then show ?thesis
    by (simp add: peek_string_def slice_string_def position_None_takeWhile)
next
  case (Some i)
  have tk: "takeWhile (\<lambda>b. \<not> is_invalid U b) (as_slice sp) = take i (as_slice sp)"
    using Some by (simp add: position_Some_take)
  have "i < length (as_slice sp)" using Some by (rule position_Some_less)
  with tk Some show ?thesis
    by (auto simp: peek_string_def slice_string_def Let_def)
qed

lemma peek_string_Inr: "peek_string U r sp = Inr s \<Longrightarrow> length s \<le> length (as_slice sp)"
  by (auto simp: peek_string_slice slice_string_def Let_def length_takeWhile_le
      split: if_splits option.splits)

lemma peek_rest_Inr: "peek_rest U sp = Inr s \<longleftrightarrow> s = as_slice sp \<and> check_others U (as_slice sp) = None"
  by (auto simp: peek_rest_def split: option.splits)

lemma sp_string_slice:
  "fst (sp_string U r sp) = slice_string U r (as_slice sp)"
  "as_slice (snd (sp_string U r sp)) =
     (case slice_string U r (as_slice sp) of Inl _ \<Rightarrow> as_slice sp | Inr s \<Rightarrow> drop (length s) (as_slice sp))"
  by (simp_all add: sp_string_def slice_simps split: sum.splits)

lemma sp_string_wf [wf_intros]: "wf_splitter sp \<Longrightarrow> wf_splitter (snd (sp_string U r sp))"
  by (auto simp: sp_string_def dest: peek_string_Inr intro!: wf_intros split: sum.splits)

lemma string_or_default_slice:
  "fst (string_or_default U r sp) = unwrap_or [] (slice_string U r (as_slice sp))"
  "as_slice (snd (string_or_default U r sp)) =
     drop (length (unwrap_or [] (slice_string U r (as_slice sp)))) (as_slice sp)"
  by (simp_all add: string_or_default_def Let_def slice_simps)

lemma string_or_default_wf [wf_intros]:
  "wf_splitter sp \<Longrightarrow> wf_splitter (snd (string_or_default U r sp))"
  by (cases "peek_string U r sp")
    (auto simp: string_or_default_def dest: peek_string_Inr intro!: wf_intros)

definition slice_rest :: "strtype \<Rightarrow> bytes \<Rightarrow> (bytes, InvalidString) result" where
  "slice_rest U s = (case check_others U s of Some e \<Rightarrow> Inl e | None \<Rightarrow> Inr s)"

lemma peek_rest_slice [slice_simps]: "peek_rest U sp = slice_rest U (as_slice sp)"
  by (simp add: peek_rest_def slice_rest_def)

lemma sp_rest_slice:
  "fst (sp_rest U sp) = slice_rest U (as_slice sp)"
  "as_slice (snd (sp_rest U sp)) = (case slice_rest U (as_slice sp) of Inl _ \<Rightarrow> as_slice sp | Inr _ \<Rightarrow> [])"
  by (auto simp: sp_rest_def slice_simps slice_rest_def split: sum.splits option.splits)

lemma sp_rest_wf [wf_intros]: "wf_splitter sp \<Longrightarrow> wf_splitter (snd (sp_rest U sp))"
  by (auto simp: sp_rest_def peek_rest_Inr intro!: wf_intros split: sum.splits)

lemma rest_or_default_fst: "fst (rest_or_default U sp) = unwrap_or [] (slice_rest U (as_slice sp))"
  by (simp add: rest_or_default_def Let_def slice_simps)

lemma rest_or_default_total [simp]:
  "U \<in> {NoNul, Line, Word} \<Longrightarrow> fst (rest_or_default U sp) = as_slice sp"
  by (auto simp: rest_or_default_fst slice_rest_def)

text \<open>What \<open>string\<close> returns is a valid string of the requested type, and a longest prefix.\<close>

lemma takeWhile_eq_iff_all: "takeWhile P s = s \<longleftrightarrow> (\<forall>b \<in> set s. P b)"
  by (induction s) auto

lemma slice_string_valid [wf_intros]: "slice_string U r s = Inr w \<Longrightarrow> valid U w"
  by (auto simp: slice_string_def valid_iff Let_def dest: set_takeWhileD split: if_splits option.splits)

lemma slice_string_Inr:
  "slice_string U False s = Inr w \<longleftrightarrow>
   w = takeWhile (\<lambda>b. \<not> is_invalid U b) s \<and> check_others U w = None"
  by (auto simp: slice_string_def Let_def split: option.splits)

lemma slice_string_rest: "slice_string U True s = from_bytes U s" if "check_others U s = None"
proof (cases "position (is_invalid U) s")
  case None
  with that show ?thesis
    by (simp add: slice_string_def position_None_takeWhile from_bytes_def find_invalid_def)
      (simp add: position_None check_bytes_None [THEN iffD2])
next
  case (Some i)
  have "check_bytes f s = Some (Byte (s ! i))" if "position f s = Some i" for f
    using that by (induction s arbitrary: i) (auto split: if_splits)
  moreover have "takeWhile (\<lambda>b. \<not> is_invalid U b) s = take i s" "i < length s"
    using Some by (simp_all add: position_Some_take position_Some_less)
  ultimately show ?thesis
    using Some that
    by (auto simp: slice_string_def from_bytes_def find_invalid_def Let_def)
qed

lemma slice_string_exact:
  "valid U w \<Longrightarrow> rest = [] \<or> is_invalid U (hd rest) \<Longrightarrow> slice_string U False (w @ rest) = Inr w"
  using takeWhile_prefix [of w "\<lambda>b. \<not> is_invalid U b" rest]
  by (auto simp: slice_string_def valid_iff Let_def)

lemma slice_string_all: "valid U w \<Longrightarrow> slice_string U True w = Inr w"
  by (auto simp: slice_string_def valid_iff Let_def takeWhile_eq_iff_all [THEN iffD2])

lemma slice_rest_valid:
  "slice_rest U s = Inr w \<Longrightarrow> (\<And>b. b \<in> set s \<Longrightarrow> \<not> is_invalid U b) \<Longrightarrow> valid U w"
  by (auto simp: slice_rest_def valid_iff split: option.splits)

section \<open>Guards\<close>

text \<open>The truncating methods only lower the end of the range; under a \<open>save_end\<close> guard, extracting
  a string from the truncated range consumes exactly that string from the full one.\<close>

definition truncates :: "(splitter \<Rightarrow> splitter) \<Rightarrow> bool" where
  "truncates g \<longleftrightarrow> (\<forall>sp. wf_splitter sp \<longrightarrow> wf_splitter (g sp) \<and> sp_str (g sp) = sp_str sp \<and>
     r_start (rng (g sp)) = r_start (rng sp) \<and> r_end (rng (g sp)) \<le> r_end (rng sp))"

lemma truncates_until_count: "truncates (until_count n)"
  by (auto simp: truncates_def until_count_wf until_count_def snd_consume_end range_len_def wf_splitter_def)

lemma truncates_until_byte: "truncates (until_byte f)"
  using truncates_until_count
  by (auto simp: truncates_def until_byte_def until_count_def split: option.splits)

lemma truncates_until_byte_eq: "truncates (until_byte_eq b)"
  by (auto simp: truncates_def until_byte_eq_wf)
    (auto simp: until_byte_eq_def field_defs Let_def length_as_slice
      dest!: position_Some_less split: option.splits)

lemma truncates_comp: "truncates f \<Longrightarrow> truncates g \<Longrightarrow> truncates (\<lambda>sp. f (g sp))"
  unfolding truncates_def by (metis le_trans)

lemmas truncates_intros =
  truncates_until_count truncates_until_byte truncates_until_byte_eq truncates_comp

lemma save_end_advance:
  assumes "wf_splitter sp" and "truncates g" and "n \<le> length (as_slice (g sp))"
  defines "sp' \<equiv> (advance n (g sp))\<lparr>rng := restore (rng sp) False True (rng (advance n (g sp)))\<rparr>"
  shows "as_slice sp' = drop n (as_slice sp)" and "wf_splitter sp'"
proof -
  from assms have g: "wf_splitter (g sp)" "sp_str (g sp) = sp_str sp"
    "r_start (rng (g sp)) = r_start (rng sp)" "r_end (rng (g sp)) \<le> r_end (rng sp)"
    by (auto simp: truncates_def)
  have "sp' = (g sp)\<lparr>rng := (rng (g sp))\<lparr>r_start := r_start (rng sp) + n, r_end := r_end (rng sp)\<rparr>\<rparr>"
    using g(3) by (simp add: sp'_def advance_def restore_def)
  then show "as_slice sp' = drop n (as_slice sp)" "wf_splitter sp'"
    using g assms(1,3) length_as_slice [OF g(1)]
    by (auto simp: as_slice_def constrain_def drop_take add.commute wf_splitter_def)
qed

lemma save_end_extract:
  assumes "wf_splitter sp" and "truncates g"
    and "ext (g sp) = (x, advance n (g sp))" and "n \<le> length (as_slice (g sp))"
  shows "fst (save_end (\<lambda>s. ext (g s)) sp) = x"
    and "as_slice (snd (save_end (\<lambda>s. ext (g s)) sp)) = drop n (as_slice sp)"
    and "wf_splitter (snd (save_end (\<lambda>s. ext (g s)) sp))"
  using save_end_advance [OF assms(1,2,4)] assms(3) by (simp_all add: save_end_def save_def)

lemma advance_0: "advance 0 sp = sp"
  by (simp add: advance_def)

text \<open>The number of bytes an extraction consumes: all of the string, or nothing on error.\<close>

fun consumed :: "(bytes, InvalidString) result \<Rightarrow> nat" where
  "consumed (Inr w) = length w"
| "consumed (Inl _) = 0"

lemma consumed_unwrap_or: "length (unwrap_or [] res) = consumed res"
  by (cases res) simp_all

lemma sp_string_advance:
  "sp_string U r sp = (slice_string U r (as_slice sp), advance (consumed (slice_string U r (as_slice sp))) sp)"
  by (simp add: sp_string_def peek_string_slice advance_0 split: sum.splits)

lemma sp_rest_advance:
  "sp_rest U sp = (slice_rest U (as_slice sp), advance (consumed (slice_rest U (as_slice sp))) sp)"
  by (simp add: sp_rest_def peek_rest_slice advance_0 split: sum.splits)

lemma rest_or_default_advance:
  "rest_or_default U sp = (unwrap_or [] (slice_rest U (as_slice sp)),
     advance (consumed (slice_rest U (as_slice sp))) sp)"
  by (simp add: rest_or_default_def peek_rest_slice consumed_unwrap_or)

lemma string_or_default_advance:
  "string_or_default U r sp = (unwrap_or [] (slice_string U r (as_slice sp)),
     advance (consumed (slice_string U r (as_slice sp))) sp)"
  by (simp add: string_or_default_def peek_string_slice consumed_unwrap_or)

lemmas extract_advance = sp_string_advance sp_rest_advance rest_or_default_advance string_or_default_advance

lemma consumed_string_le: "consumed (slice_string U r s) \<le> length s"
  by (auto simp: slice_string_def Let_def length_takeWhile_le split: option.splits)

lemma consumed_rest_le: "consumed (slice_rest U s) \<le> length s"
  by (auto simp: slice_rest_def split: option.splits)

lemma save_end_string:
  assumes "wf_splitter sp" and "truncates g"
  shows "fst (save_end (\<lambda>s. sp_string U r (g s)) sp) = slice_string U r (as_slice (g sp))"
    and "as_slice (snd (save_end (\<lambda>s. sp_string U r (g s)) sp)) = drop (consumed (slice_string U r (as_slice (g sp)))) (as_slice sp)"
    and "wf_splitter (snd (save_end (\<lambda>s. sp_string U r (g s)) sp))"
  by (rule save_end_extract [where ext = "sp_string U r", OF assms sp_string_advance consumed_string_le])+

lemma save_end_rest:
  assumes "wf_splitter sp" and "truncates g"
  shows "fst (save_end (\<lambda>s. sp_rest U (g s)) sp) = slice_rest U (as_slice (g sp))"
    and "as_slice (snd (save_end (\<lambda>s. sp_rest U (g s)) sp)) = drop (consumed (slice_rest U (as_slice (g sp)))) (as_slice sp)"
    and "wf_splitter (snd (save_end (\<lambda>s. sp_rest U (g s)) sp))"
  by (rule save_end_extract [where ext = "sp_rest U", OF assms sp_rest_advance consumed_rest_le])+

lemma save_end_rest_or_default:
  assumes "wf_splitter sp" and "truncates g"
  shows "fst (save_end (\<lambda>s. rest_or_default U (g s)) sp) = unwrap_or [] (slice_rest U (as_slice (g sp)))"
    and "as_slice (snd (save_end (\<lambda>s. rest_or_default U (g s)) sp)) = drop (consumed (slice_rest U (as_slice (g sp)))) (as_slice sp)"
    and "wf_splitter (snd (save_end (\<lambda>s. rest_or_default U (g s)) sp))"
  by (rule save_end_extract [where ext = "rest_or_default U", OF assms rest_or_default_advance consumed_rest_le])+

section \<open>Soundness of the encoding flag\<close>

text \<open>The unsafe constructors trust \<open>is_utf8_lazy\<close>: the flag must never be set on a range that is
  not UTF-8.\<close>

definition enc_ok :: "splitter \<Rightarrow> bool" where
  "enc_ok sp \<longleftrightarrow>
     (r_encoding (rng sp) = Utf8 \<longrightarrow> utf8_valid (as_slice sp)) \<and>
     (r_encoding (rng sp) = Ascii \<longrightarrow> (\<forall>b \<in> set (as_slice sp). is_ascii b))"

lemma enc_ok_utf8: "enc_ok sp \<Longrightarrow> sp_is_utf8_lazy sp \<Longrightarrow> utf8_valid (as_slice sp)"
  by (cases "r_encoding (rng sp)")
    (auto simp: enc_ok_def sp_is_utf8_lazy_def less_eq_encoding_def utf8_valid_ascii)

text \<open>A method that keeps the encoding keeps the flag sound if what it leaves of a UTF-8 slice is
  UTF-8 and it adds no bytes.\<close>

lemma enc_ok_shrink:
  assumes "enc_ok sp" and "r_encoding (rng sp') = r_encoding (rng sp) \<or> r_encoding (rng sp') = Unknown"
    and "set (as_slice sp') \<subseteq> set (as_slice sp)"
    and "r_encoding (rng sp') = Utf8 \<Longrightarrow> utf8_valid (as_slice sp) \<Longrightarrow> utf8_valid (as_slice sp')"
  shows "enc_ok sp'"
  using assms by (auto simp: enc_ok_def)

lemma enc_ok_new: "(u \<Longrightarrow> utf8_valid s) \<Longrightarrow> enc_ok (sp_new u s)"
  by (auto simp: enc_ok_def slice_simps) (auto simp: sp_new_def split: if_splits)

lemma enc_ok_check_encoding_inner:
  "enc_ok sp \<Longrightarrow> enc_ok (snd (check_encoding_inner acc sp))"
proof -
  assume sp: "enc_ok sp"
  have *: "utf8_valid s" if "position (\<lambda>c. \<not> is_ascii c) s = Some i" "utf8_valid (drop i s)" for i s
  proof -
    have "\<forall>b \<in> set (take i s). is_ascii b"
      using that(1) by (auto simp: position_Some_take dest: set_takeWhileD)
    with that(2) show ?thesis using utf8_valid_ascii_prefix [of "take i s" "drop i s"] by simp
  qed
  from sp show ?thesis
    by (auto simp: check_encoding_inner_def Let_def enc_ok_def slice_simps position_None
        split: option.splits dest: *) (auto simp: set_encoding_def)
qed

lemma enc_ok_check_encoding: "enc_ok sp \<Longrightarrow> enc_ok (snd (check_encoding sp))"
  by (simp add: check_encoding_def enc_ok_check_encoding_inner)

lemma utf8_tl: "utf8_valid (b # s) \<Longrightarrow> is_ascii b \<Longrightarrow> utf8_valid s"
  by simp

lemma r_encoding_fields [simp]:
  "r_encoding (rng (advance n sp)) = r_encoding (rng sp)"
  "r_encoding (rng (set_end n sp)) = r_encoding (rng sp)"
  "r_encoding (rng (set_encoding e sp)) = e"
  by (simp_all add: field_defs)

lemma in_set_tl: "x \<in> set (tl xs) \<Longrightarrow> x \<in> set xs"
  by (cases xs) auto

lemma enc_ok_next_byte: "enc_ok sp \<Longrightarrow> enc_ok (snd (next_byte sp))"
  by (rule enc_ok_shrink, assumption)
    (auto simp: slice_simps dest: in_set_tl, auto simp: next_byte_def peek_byte_def split: list.splits if_splits)

lemma enc_ok_rnext_byte:
  assumes "enc_ok sp" and "wf_splitter sp"
  shows "enc_ok (snd (rnext_byte sp))"
proof (rule enc_ok_shrink [OF assms(1)])
  show "r_encoding (rng (snd (rnext_byte sp))) = r_encoding (rng sp) \<or>
      r_encoding (rng (snd (rnext_byte sp))) = Unknown"
    by (auto simp: rnext_byte_def Let_def split: option.splits)
  show "set (as_slice (snd (rnext_byte sp))) \<subseteq> set (as_slice sp)"
    using assms(2) by (auto simp: slice_simps dest: in_set_butlastD)
  assume "r_encoding (rng (snd (rnext_byte sp))) = Utf8" and v: "utf8_valid (as_slice sp)"
  then have "as_slice sp = [] \<or> is_ascii (last (as_slice sp))"
    by (auto simp: rnext_byte_def rpeek_byte_def Let_def split: if_splits)
  with v utf8_valid_cut_ascii(1) [of "butlast (as_slice sp)" "last (as_slice sp)" "[]"]
  show "utf8_valid (as_slice (snd (rnext_byte sp)))"
    using assms(2) by (cases "as_slice sp = []") (simp_all add: slice_simps)
qed

lemma enc_ok_consume_invalid: "enc_ok sp \<Longrightarrow> enc_ok (consume_invalid U sp)"
  by (rule enc_ok_shrink, assumption)
    (auto simp: slice_simps nt.dropWhile_invalid_utf8 dest: set_dropWhileD,
     auto simp: consume_invalid_def split: option.splits)

lemma enc_ok_consume_whitespace: "enc_ok sp \<Longrightarrow> enc_ok (consume_whitespace sp)"
proof (rule enc_ok_shrink, assumption)
  have ws: "is_ascii b" if "is_ascii_whitespace b" for b
    using that by (auto simp: is_ascii_whitespace_def is_ascii_def code_def)
  assume v: "utf8_valid (as_slice sp)"
  show "utf8_valid (as_slice (consume_whitespace sp))"
    using utf8_valid_ascii_prefix [of "takeWhile is_ascii_whitespace (as_slice sp)"
        "dropWhile is_ascii_whitespace (as_slice sp)"] v ws
    by (auto simp: slice_simps dest!: set_takeWhileD)
qed (auto simp: slice_simps dest: set_dropWhileD, auto simp: consume_whitespace_def split: option.splits)

lemma enc_ok_until_count: "enc_ok sp \<Longrightarrow> wf_splitter sp \<Longrightarrow> enc_ok (until_count n sp)"
  by (rule enc_ok_shrink, assumption)
    (auto simp: slice_simps dest: in_set_takeD,
     auto simp: until_count_def snd_consume_end range_len_def length_as_slice min_def split: if_splits)

lemma enc_ok_until_byte: "enc_ok sp \<Longrightarrow> wf_splitter sp \<Longrightarrow> enc_ok (until_byte f sp)"
  using enc_ok_until_count [of sp] by (auto simp: until_byte_def until_count_def split: option.splits)

lemma utf8_until_ascii:
  assumes "utf8_valid s" and "is_ascii b"
  shows "utf8_valid (takeWhile (\<lambda>c. c \<noteq> b) s)"
proof (cases "b \<in> set s")
  case True
  then obtain xs ys where "s = xs @ b # ys" "b \<notin> set xs" by (meson split_list_first)
  moreover from this have "takeWhile (\<lambda>c. c \<noteq> b) s = xs"
    using takeWhile_prefix(1) [of xs "\<lambda>c. c \<noteq> b" "b # ys"] by fastforce
  ultimately show ?thesis using assms utf8_valid_cut_ascii(1) [of xs b ys] by simp
next
  case False
  then have "takeWhile (\<lambda>c. c \<noteq> b) s = s" by (auto simp: takeWhile_eq_iff_all)
  with assms(1) show ?thesis by (simp only:)
qed

lemma enc_ok_until_byte_eq: "enc_ok sp \<Longrightarrow> enc_ok (until_byte_eq b sp)"
proof (rule enc_ok_shrink, assumption)
  assume e: "r_encoding (rng (until_byte_eq b sp)) = Utf8" and v: "utf8_valid (as_slice sp)"
  show "utf8_valid (as_slice (until_byte_eq b sp))"
  proof (cases "position (\<lambda>c. c = b) (as_slice sp)")
    case None
    with v show ?thesis by (simp add: until_byte_eq_def)
  next
    case (Some i)
    with e have "is_ascii b" by (auto simp: until_byte_eq_def Let_def split: if_splits)
    with v show ?thesis by (simp add: slice_simps utf8_until_ascii)
  qed
qed (auto simp: slice_simps dest: set_takeWhileD,
     auto simp: until_byte_eq_def Let_def split: option.splits if_splits)

lemma utf8_drop_string:
  assumes "utf8_valid s"
  shows "utf8_valid (drop (consumed (slice_string U r s)) s)"
    and "slice_string U r s = Inr w \<Longrightarrow> utf8_valid w"
  using assms nt.takeWhile_utf8 [OF assms, of U] nt.dropWhile_valid_utf8 [OF assms, of U]
  by (auto simp: slice_string_def Let_def drop_length_takeWhile split: option.splits if_splits)

lemma enc_ok_string: "enc_ok sp \<Longrightarrow> enc_ok (snd (sp_string U r sp))"
  by (rule enc_ok_shrink, assumption)
    (auto simp: sp_string_advance slice_simps utf8_drop_string(1) dest: in_set_dropD)

lemma enc_ok_rest: "enc_ok sp \<Longrightarrow> enc_ok (snd (sp_rest U sp))"
  by (rule enc_ok_shrink, assumption)
    (auto simp: sp_rest_advance slice_rest_def slice_simps dest: in_set_dropD split: option.splits)

text \<open>Every string handed out by \<open>peek_string\<close> and \<open>peek_rest\<close> under the flag is UTF-8.\<close>

lemma peek_string_utf8:
  assumes "enc_ok sp" and "sp_is_utf8_lazy sp" and "peek_string U r sp = Inr w"
  shows "utf8_valid w"
  using utf8_drop_string(2) [OF enc_ok_utf8 [OF assms(1,2)]] assms(3) by (simp add: peek_string_slice)

lemma peek_rest_utf8:
  assumes "enc_ok sp" and "sp_is_utf8_lazy sp" and "peek_rest U sp = Inr w"
  shows "utf8_valid w"
  using enc_ok_utf8 [OF assms(1,2)] assms(3) by (simp add: peek_rest_Inr)

section \<open>Programs over a splitter\<close>

text \<open>The methods that move the range of a splitter.  \<open>check_encoding\<close>, which only sets its encoding, and guards come
  below.\<close>

inductive splitter_op :: "splitter \<Rightarrow> splitter \<Rightarrow> bool" where
  op_next: "splitter_op sp (snd (next_byte sp))"
| op_rnext: "splitter_op sp (snd (rnext_byte sp))"
| op_consume_invalid: "splitter_op sp (consume_invalid U sp)"
| op_consume_whitespace: "splitter_op sp (consume_whitespace sp)"
| op_until_byte: "splitter_op sp (until_byte f sp)"
| op_until_byte_eq: "splitter_op sp (until_byte_eq b sp)"
| op_until_count: "splitter_op sp (until_count n sp)"
| op_string: "splitter_op sp (snd (sp_string U r sp))"
| op_string_or_default: "splitter_op sp (snd (string_or_default U r sp))"
| op_rest: "splitter_op sp (snd (sp_rest U sp))"
| op_rest_or_default: "splitter_op sp (snd (rest_or_default U sp))"

text \<open>Every program over a splitter: methods in any order, and guards of \<open>save\<close>, nested as one likes, with any program
  in their scope.  The first flag asks for discipline: the encoding is not checked in the scope of a guard that
  restores one end of the range and not the other.  The second says whether it may be checked.\<close>

inductive splitter_run :: "bool \<Rightarrow> bool \<Rightarrow> splitter \<Rightarrow> splitter \<Rightarrow> bool" for strict where
  run_refl: "splitter_run strict c sp sp"
| run_op: "splitter_run strict c sp sp1 \<Longrightarrow> splitter_op sp1 sp2 \<Longrightarrow> splitter_run strict c sp sp2"
| run_check: "splitter_run strict True sp sp1 \<Longrightarrow> splitter_run strict True sp (snd (check_encoding sp1))"
| run_guard: "splitter_run strict c sp sp1 \<Longrightarrow> splitter_run strict c' sp1 sp2 \<Longrightarrow>
    (strict \<longrightarrow> c' \<longrightarrow> s \<and> e \<or> c \<and> \<not> s \<and> \<not> e) \<Longrightarrow>
    splitter_run strict c sp (sp2\<lparr>rng := restore (rng sp1) s e (rng sp2)\<rparr>)"

text \<open>A later range lies in an earlier one.\<close>

definition inside :: "splitter \<Rightarrow> splitter \<Rightarrow> bool" where
  "inside sp sp' \<longleftrightarrow> sp_str sp' = sp_str sp \<and> r_start (rng sp) \<le> r_start (rng sp') \<and>
     r_start (rng sp') \<le> r_end (rng sp') \<and> r_end (rng sp') \<le> r_end (rng sp)"

lemma inside_refl: "wf_splitter sp \<Longrightarrow> inside sp sp"
  by (simp add: inside_def wf_splitter_def)

lemma inside_trans: "inside a b \<Longrightarrow> inside b c \<Longrightarrow> inside a c"
  by (auto simp: inside_def)

lemma inside_wf: "inside sp sp' \<Longrightarrow> wf_splitter sp \<Longrightarrow> wf_splitter sp'"
  by (auto simp: inside_def wf_splitter_def)

lemma inside_advance: "wf_splitter sp \<Longrightarrow> n \<le> length (as_slice sp) \<Longrightarrow> inside sp (advance n sp)"
  by (simp add: length_as_slice) (auto simp: inside_def advance_def wf_splitter_def)

lemma inside_set_encoding: "inside sp (set_encoding e sp') = inside sp sp'"
  by (simp add: inside_def set_encoding_def)

lemma inside_set_end:
  "wf_splitter sp \<Longrightarrow> r_start (rng sp) \<le> n \<Longrightarrow> n \<le> r_end (rng sp) \<Longrightarrow> inside sp (set_end n sp)"
  by (auto simp: inside_def set_end_def wf_splitter_def)

lemma inside_exhausted: "wf_splitter sp \<Longrightarrow> inside sp (sp\<lparr>rng := (rng sp)\<lparr>r_start := r_end (rng sp)\<rparr>\<rparr>)"
  by (simp add: inside_def wf_splitter_def)

lemma truncates_inside: "truncates g \<Longrightarrow> wf_splitter sp \<Longrightarrow> inside sp (g sp)"
  by (auto simp: truncates_def inside_def wf_splitter_def)

lemma op_inside:
  assumes "splitter_op sp sp'" and "wf_splitter sp"
  shows "inside sp sp'"
  using assms
proof (cases rule: splitter_op.cases)
  case op_next
  with assms(2) show ?thesis
    by (cases "as_slice sp") (auto simp: next_byte_def peek_byte_def inside_set_encoding inside_refl intro!: inside_advance)
next
  case op_rnext
  have "as_slice sp \<noteq> [] \<Longrightarrow> r_start (rng sp) < r_end (rng sp)"
    using length_as_slice [OF assms(2)] by (cases "as_slice sp") auto
  with op_rnext assms(2) show ?thesis
    by (auto simp: rnext_byte_def rpeek_byte_def Let_def inside_set_encoding inside_refl intro!: inside_set_end)
next
  case (op_consume_invalid U)
  with assms(2) show ?thesis
    by (auto simp: consume_invalid_def intro!: inside_advance inside_exhausted dest: position_Some_less split: option.splits)
next
  case op_consume_whitespace
  with assms(2) show ?thesis
    by (auto simp: consume_whitespace_def intro!: inside_advance inside_exhausted dest: position_Some_less split: option.splits)
qed (use assms(2) in \<open>auto simp: extract_advance consumed_string_le consumed_rest_le intro!: inside_advance
  truncates_inside [OF truncates_until_byte] truncates_inside [OF truncates_until_byte_eq] truncates_inside [OF truncates_until_count]\<close>)

lemma inside_restore:
  assumes "inside sp sp'" and "wf_splitter sp"
  shows "inside sp (sp'\<lparr>rng := restore (rng sp) s e (rng sp')\<rparr>)"
  using assms by (cases s; cases e) (auto simp: restore_def Let_def inside_def wf_splitter_def)

lemma check_encoding_fields:
  "sp_str (snd (check_encoding sp)) = sp_str sp" "r_start (rng (snd (check_encoding sp))) = r_start (rng sp)"
  "r_end (rng (snd (check_encoding sp))) = r_end (rng sp)"
  by (simp_all add: check_encoding_def check_encoding_inner_def Let_def set_encoding_def split: option.splits)

lemma run_inside: "splitter_run strict c sp sp' \<Longrightarrow> wf_splitter sp \<Longrightarrow> inside sp sp'"
proof (induction rule: splitter_run.induct)
  case (run_op c sp sp1 sp2)
  then show ?case using op_inside inside_wf inside_trans by blast
next
  case (run_check sp sp1)
  then show ?case by (simp add: inside_def check_encoding_fields)
next
  case (run_guard c sp sp1 c' sp2 s e)
  then have "wf_splitter sp1" using inside_wf by blast
  with run_guard show ?case using inside_trans inside_restore by blast
qed (rule inside_refl)

text \<open>Without a check, a splitter only forgets its encoding, and while it remembers UTF-8, what it has consumed from the
  start and what is left are UTF-8.\<close>

definition segment :: "splitter \<Rightarrow> nat \<Rightarrow> nat \<Rightarrow> bytes" where
  "segment sp i j = take (j - i) (drop i (sp_str sp))"

lemma segment_append: "i \<le> j \<Longrightarrow> j \<le> k \<Longrightarrow> segment sp i k = segment sp i j @ segment sp j k"
  using take_add [of "j - i" "k - j" "drop i (sp_str sp)"] by (simp add: segment_def)

lemma segment_slice: "as_slice sp = segment sp (r_start (rng sp)) (r_end (rng sp))"
  by (simp add: as_slice_def constrain_def segment_def)

lemma segment_cong: "sp_str a = sp_str b \<Longrightarrow> segment a i j = segment b i j"
  by (simp add: segment_def)

definition keeps :: "splitter \<Rightarrow> splitter \<Rightarrow> bool" where
  "keeps sp sp' \<longleftrightarrow> inside sp sp' \<and> (r_encoding (rng sp') = r_encoding (rng sp) \<or> r_encoding (rng sp') = Unknown) \<and>
     (r_encoding (rng sp') = Utf8 \<longrightarrow>
        utf8_valid (segment sp (r_start (rng sp)) (r_start (rng sp'))) \<and> utf8_valid (as_slice sp'))"

lemma keeps_enc_ok:
  assumes "keeps sp sp'" and "enc_ok sp"
  shows "enc_ok sp'"
proof (rule enc_ok_shrink [OF assms(2)])
  from assms(1) have i: "inside sp sp'" by (simp add: keeps_def)
  then have "as_slice sp = segment sp (r_start (rng sp)) (r_start (rng sp')) @ segment sp (r_start (rng sp')) (r_end (rng sp))"
    unfolding segment_slice by (intro segment_append) (auto simp: inside_def)
  also have "segment sp (r_start (rng sp')) (r_end (rng sp)) =
      segment sp (r_start (rng sp')) (r_end (rng sp')) @ segment sp (r_end (rng sp')) (r_end (rng sp))"
    using i by (intro segment_append) (auto simp: inside_def)
  finally show "set (as_slice sp') \<subseteq> set (as_slice sp)"
    using i segment_cong [of sp' sp] by (auto simp: segment_slice [of sp'] inside_def)
qed (use assms(1) in \<open>auto simp: keeps_def\<close>)

lemma keeps_utf8_refl: "wf_splitter sp \<Longrightarrow> enc_ok sp \<Longrightarrow> keeps sp sp"
  by (simp add: keeps_def inside_refl segment_def enc_ok_def)

lemma keeps_utf8_trans:
  assumes "keeps a b" and "keeps b c"
  shows "keeps a c"
proof -
  let ?s = "\<lambda>x. r_start (rng x)"
  have i: "inside a b" "inside b c" using assms by (simp_all add: keeps_def)
  have "segment a (?s a) (?s c) = segment a (?s a) (?s b) @ segment b (?s b) (?s c)"
    using i segment_cong [of a b] segment_append [of "?s a" "?s b" "?s c" a] by (simp add: inside_def)
  with assms inside_trans [OF i] show ?thesis by (auto simp: keeps_def utf8_valid_append)
qed

text \<open>A move of the start keeps the flag if what it passes is UTF-8.\<close>

lemma keeps_prefix:
  assumes "inside sp sp'" and "enc_ok sp'" and "r_encoding (rng sp') = r_encoding (rng sp) \<or> r_encoding (rng sp') = Unknown"
    and "r_encoding (rng sp') = Utf8 \<Longrightarrow> \<exists>n. r_start (rng sp') = r_start (rng sp) + n \<and> utf8_valid (take n (as_slice sp))"
  shows "keeps sp sp'"
proof -
  have "utf8_valid (segment sp (r_start (rng sp)) (r_start (rng sp')))" if u: "r_encoding (rng sp') = Utf8"
  proof -
    obtain n where n: "r_start (rng sp') = r_start (rng sp) + n" "utf8_valid (take n (as_slice sp))" using assms(4) [OF u] by blast
    moreover have "n \<le> r_end (rng sp) - r_start (rng sp)" using n(1) assms(1) by (auto simp: inside_def)
    ultimately show ?thesis by (simp add: segment_def as_slice_def constrain_def min_def)
  qed
  with assms show ?thesis by (simp add: keeps_def enc_ok_def)
qed

lemma utf8_take_string: "utf8_valid s \<Longrightarrow> utf8_valid (take (consumed (slice_string U r s)) s)"
  using nt.takeWhile_utf8 [of s U] by (auto simp: slice_string_def Let_def takeWhile_eq_take [symmetric] split: option.splits)

lemma utf8_take_invalid:
  assumes "utf8_valid s" and "position (\<lambda>c. \<not> is_invalid U c) s = Some i"
  shows "utf8_valid (take i s)"
proof -
  have "bytes_newtype (\<lambda>b. \<not> is_invalid U b)" using nt.boundary [of U] by unfold_locales auto
  from bytes_newtype.takeWhile_utf8 [OF this assms(1)] position_Some_take [OF assms(2)] show ?thesis by simp
qed

lemma utf8_take_whitespace:
  assumes "position (\<lambda>c. \<not> is_ascii_whitespace c) s = Some i"
  shows "utf8_valid (take i s)"
  using position_Some_take [OF assms]
  by (intro utf8_valid_ascii) (auto simp: is_ascii_whitespace_def is_ascii_def code_def dest!: set_takeWhileD)

lemma extract_same:
  "snd (string_or_default U r sp) = snd (sp_string U r sp)" "snd (rest_or_default U sp) = snd (sp_rest U sp)"
  by (simp_all add: extract_advance)

lemma op_keeps:
  assumes op: "splitter_op sp sp'" and wf: "wf_splitter sp" and ok: "enc_ok sp"
  shows "keeps sp sp'"
proof (rule keeps_prefix [OF op_inside [OF op wf]])
  have len: "r_end (rng sp) = r_start (rng sp) + length (as_slice sp)"
    using wf length_as_slice [OF wf] by (simp add: wf_splitter_def)
  have advance: "\<exists>n. r_start (rng (advance m sp)) = r_start (rng sp) + n \<and> utf8_valid (take n (as_slice sp))"
    if "utf8_valid (take m (as_slice sp))" for m using that by (auto simp: advance_def)
  have exhausted: "\<exists>n. r_end (rng sp) = r_start (rng sp) + n \<and> utf8_valid (take n (as_slice sp))"
    if "utf8_valid (as_slice sp)" using that len by auto
  from op show "enc_ok sp'"
    by cases (use wf ok in \<open>auto simp: enc_ok_next_byte enc_ok_rnext_byte enc_ok_consume_invalid enc_ok_consume_whitespace
      enc_ok_until_byte enc_ok_until_byte_eq enc_ok_until_count enc_ok_string enc_ok_rest extract_same\<close>)
  from op show "r_encoding (rng sp') = r_encoding (rng sp) \<or> r_encoding (rng sp') = Unknown"
    by cases (auto simp: extract_advance next_byte_def rnext_byte_def consume_invalid_def consume_whitespace_def until_byte_def
        until_byte_eq_def until_count_def snd_consume_end Let_def split: option.splits)
  assume u: "r_encoding (rng sp') = Utf8"
  with \<open>r_encoding (rng sp') = r_encoding (rng sp) \<or> r_encoding (rng sp') = Unknown\<close> ok
  have v: "utf8_valid (as_slice sp)" by (auto simp: enc_ok_def)
  from op show "\<exists>n. r_start (rng sp') = r_start (rng sp) + n \<and> utf8_valid (take n (as_slice sp))"
  proof cases
    case op_next
    with u advance [of 0] advance [of 1] show ?thesis
      by (auto simp: next_byte_def peek_byte_def advance_0 split: list.splits if_splits)
  next
    case (op_consume_invalid U)
    with v show ?thesis
      by (auto simp: consume_invalid_def intro!: advance exhausted utf8_take_invalid split: option.splits)
  next
    case op_consume_whitespace
    with v show ?thesis
      by (auto simp: consume_whitespace_def intro!: advance exhausted utf8_take_whitespace split: option.splits)
  qed (use v in \<open>auto simp: extract_advance rnext_byte_def until_byte_def until_byte_eq_def until_count_def snd_consume_end Let_def
    field_defs slice_rest_def intro!: utf8_take_string split: option.splits\<close>)
qed

lemma keeps_restore:
  assumes "keeps sp sp'" and "wf_splitter sp" and "enc_ok sp"
  shows "keeps sp (sp'\<lparr>rng := restore (rng sp) s e (rng sp')\<rparr>)" (is "keeps sp ?r")
proof -
  let ?s = "r_start (rng sp)" and ?e = "r_end (rng sp)" and ?s' = "r_start (rng sp')" and ?e' = "r_end (rng sp')"
  have i: "inside sp sp'" using assms(1) by (simp add: keeps_def)
  have cut: "segment sp ?s ?e = segment sp ?s ?s' @ segment sp ?s' ?e" "segment sp ?s ?e' = segment sp ?s ?s' @ segment sp ?s' ?e'"
    using i by (auto simp: inside_def intro: segment_append)
  have str: "segment ?r = segment sp" "segment sp' = segment sp" using i by (auto simp: inside_def segment_def fun_eq_iff)
  have enc: "utf8_valid (segment sp ?s ?s')" "utf8_valid (segment sp ?s' ?e')" "utf8_valid (segment sp ?s ?e)"
    if "r_encoding (rng sp') = Utf8"
    using that assms(1,3) str(2) by (auto simp: keeps_def enc_ok_def segment_slice)
  have same: "?r = sp" if "s" "e" using i that by (simp add: restore_def inside_def)
  show ?thesis
  proof (cases "s \<and> e")
    case True
    then show ?thesis using same keeps_utf8_refl [OF assms(2,3)] by simp
  next
    case False
    then have r: "r_encoding (rng ?r) = r_encoding (rng sp')" "r_start (rng ?r) = (if s then ?s else ?s')"
      "r_end (rng ?r) = (if e then ?e else ?e')" by (auto simp: restore_def Let_def)
    have "utf8_valid (segment sp ?s (r_start (rng ?r)))" "utf8_valid (as_slice ?r)" if "r_encoding (rng sp') = Utf8"
      using enc [OF that] cut False unfolding segment_slice [of ?r] r str
      by (auto simp: segment_def [of sp ?s ?s] utf8_valid_append)
    then show ?thesis using assms(1) inside_restore [OF i assms(2)] r(1) by (simp add: keeps_def)
  qed
qed

lemma run_encoding:
  "splitter_run True c sp sp' \<Longrightarrow> wf_splitter sp \<Longrightarrow> enc_ok sp \<Longrightarrow> enc_ok sp' \<and> (\<not> c \<longrightarrow> keeps sp sp')"
proof (induction rule: splitter_run.induct)
  case (run_refl c sp)
  then show ?case by (simp add: keeps_utf8_refl)
next
  case (run_op c sp sp1 sp2)
  have "wf_splitter sp1" using run_inside [OF run_op.hyps(1)] inside_wf run_op.prems(1) by blast
  with run_op have "keeps sp1 sp2" by (intro op_keeps) auto
  with run_op show ?case using keeps_enc_ok keeps_utf8_trans by blast
next
  case (run_check sp sp1)
  then show ?case by (simp add: enc_ok_check_encoding)
next
  case (run_guard c sp sp1 c' sp2 s e)
  let ?r = "sp2\<lparr>rng := restore (rng sp1) s e (rng sp2)\<rparr>"
  have wf: "wf_splitter sp1" using run_inside [OF run_guard.hyps(1)] inside_wf run_guard.prems(1) by blast
  have ok: "enc_ok sp1" "\<not> c \<longrightarrow> keeps sp sp1" using run_guard by auto
  have body: "enc_ok sp2" "\<not> c' \<longrightarrow> keeps sp1 sp2" using run_guard.IH(2) [OF wf ok(1)] by auto
  have in2: "inside sp1 sp2" using run_inside [OF run_guard.hyps(2) wf] .
  consider "\<not> c'" | "s \<and> e" | "c \<and> \<not> s \<and> \<not> e" using run_guard.hyps(3) by blast
  then show ?case
  proof cases
    case 1
    then have "keeps sp1 ?r" using keeps_restore [OF _ wf ok(1)] body by blast
    with ok show ?thesis using keeps_enc_ok keeps_utf8_trans by blast
  next
    case 2
    then have "?r = sp1" using in2 by (simp add: restore_def inside_def)
    with ok show ?thesis by simp
  next
    case 3
    then have "?r = sp2" by (simp add: restore_def)
    with 3 body show ?thesis by simp
  qed
qed

section \<open>Properties\<close>

text \<open>C13: Whatever methods are called on a splitter, in whatever order and under whatever guards, its range stays
  inside its string, and a string that it extracts is the longest prefix without a byte invalid for the type
  and satisfies the type.  If moreover the string it was made of is UTF-8 when it is marked so, and the encoding
  is not checked in the scope of a guard that restores one end of the range and not the other (then the flag
  can be wrong: \<open>guarded_check_unsound\<close>), an extracted string is UTF-8 whenever the splitter claims to be, as the
  unsafe constructors need.\<close>

theorem splitter_sound:
  assumes "splitter_run strict True (sp_new u s) sp" and "peek_string U reject sp = Inr w"
  shows "wf_splitter sp \<and> sp_str sp = s \<and> valid U w \<and> w = takeWhile (\<lambda>b. \<not> is_invalid U b) (as_slice sp) \<and>
    (strict \<and> (u \<longrightarrow> utf8_valid s) \<and> sp_is_utf8_lazy sp \<longrightarrow> utf8_valid w)"
proof -
  have i: "inside (sp_new u s) sp" using run_inside [OF assms(1) sp_new_wf] .
  have w: "slice_string U reject (as_slice sp) = Inr w" using assms(2) by (simp add: peek_string_slice)
  then have "w = takeWhile (\<lambda>b. \<not> is_invalid U b) (as_slice sp)"
    by (auto simp: slice_string_def Let_def split: option.splits if_splits)
  moreover have "utf8_valid w" if strict "u \<longrightarrow> utf8_valid s" "sp_is_utf8_lazy sp"
    using run_encoding [of True "sp_new u s" sp] assms that sp_new_wf enc_ok_new [of u s] by (auto dest: peek_string_utf8)
  moreover have "sp_str sp = s" using i by (simp add: inside_def sp_new_def)
  ultimately show ?thesis using inside_wf [OF i sp_new_wf] slice_string_valid [OF w] by blast
qed

theorem splitter_sound_witness:
  "let sp = snd (save_end (\<lambda>x. next_byte (until_byte_eq (CHR '' '') x)) (sp_new True ''@a b'')) in
   wf_splitter sp \<and> valid Word ''a'' \<and> sp_is_utf8_lazy sp \<and> utf8_valid ''a'' \<and>
   ''a'' = takeWhile (\<lambda>b. \<not> is_invalid Word b) (as_slice sp)"
proof -
  let ?new = "sp_new True ''@a b''"
  let ?body = "snd (next_byte (until_byte_eq (CHR '' '') ?new))"
  define sp where "sp = snd (save_end (\<lambda>x. next_byte (until_byte_eq (CHR '' '') x)) ?new)"
  have "splitter_run True False ?new ?body" by (intro run_op [OF _ op_next] run_op [OF _ op_until_byte_eq] run_refl)
  from run_guard [OF run_refl this, of False True True]
  have "splitter_run True True ?new (?body\<lparr>rng := restore (rng ?new) False True (rng ?body)\<rparr>)" by simp
  then have r: "splitter_run True True ?new sp" by (simp add: sp_def save_end_def save_def split_def Let_def)
  have "utf8_valid ''@a b''" by (simp add: utf8_valid_ascii is_ascii_def)
  moreover have "peek_string Word False sp = Inr ''a''" "sp_is_utf8_lazy sp" unfolding sp_def by code_simp+
  ultimately show ?thesis using splitter_sound [OF r, of Word False "''a''"] unfolding sp_def [symmetric] Let_def by blast
qed

text \<open>The guard of \<open>save_end\<close> restores the end of the range but not the encoding: checking the
  encoding of a guarded prefix makes the splitter claim that the whole range is UTF-8.\<close>

lemma guarded_check_unsound:
  "\<exists>s. let sp = snd (save_end (\<lambda>x. check_encoding (until_count 1 x)) (sp_new False s))
       in sp_is_utf8_lazy sp \<and> as_slice sp = s \<and> \<not> utf8_valid s"
proof -
  let ?s = "[CHR ''a'', CHR 0xFF]"
  have "\<not> utf8_valid ?s" by (simp add: utf8_valid.simps is_ascii_def lead2_def)
  moreover have "until_count 1 (sp_new False ?s) = \<lparr>sp_str = ?s, rng = \<lparr>r_start = 0, r_end = 1, r_encoding = Unknown\<rparr>\<rparr>"
    by (simp add: until_count_def snd_consume_end sp_new_def range_len_def)
  then have "check_encoding (until_count 1 (sp_new False ?s)) =
      (True, \<lparr>sp_str = ?s, rng = \<lparr>r_start = 0, r_end = 1, r_encoding = Ascii\<rparr>\<rparr>)"
    by (simp add: check_encoding_def check_encoding_inner_def less_encoding_def as_slice_def constrain_def
        set_encoding_def is_ascii_def)
  then have "snd (save_end (\<lambda>x. check_encoding (until_count 1 x)) (sp_new False ?s)) =
      \<lparr>sp_str = ?s, rng = \<lparr>r_start = 0, r_end = 2, r_encoding = Ascii\<rparr>\<rparr>"
    by (simp add: save_end_def save_def restore_def) (simp add: sp_new_def)
  ultimately show ?thesis by (intro exI [of _ ?s]) (simp add: Let_def sp_is_utf8_lazy_def less_eq_encoding_def as_slice_def constrain_def)
qed

end
