(* ===== verification/Args.thy ===== *)
theory Args
  imports Transforms Splitter
begin

text \<open>
  Argument lists, \<open>ircmsg/args.rs\<close>: a vector of words and an optional last argument that is not a
  word.  The invariant \<open>args_ok\<close> says that the words are valid \<open>Arg\<close>s and that the long argument is a
  \<open>Line\<close> that is no \<open>Arg\<close>.  The edit guard borrows the two fields, so its methods are functions on
  the same record.
\<close>

record args =
  words :: "bytes list"
  long :: "bytes option"

section \<open>The edit guard\<close>

definition add_word :: "bytes \<Rightarrow> args \<Rightarrow> args" where
  "add_word w a = a\<lparr>words := words a @ [w]\<rparr>"

definition add_before_last :: "bytes \<Rightarrow> args \<Rightarrow> args" where
  "add_before_last w a =
     (if long a = None \<and> words a \<noteq> []
      then a\<lparr>words := butlast (words a) @ [w] @ [last (words a)]\<rparr>
      else a\<lparr>words := words a @ [w]\<rparr>)"

text \<open>\<open>add_impl\<close> returns the long argument it replaces.\<close>

definition add_impl :: "bytes \<Rightarrow> args \<Rightarrow> bytes option \<times> args" where
  "add_impl s a =
     (let is_long = (find_invalid Arg s \<noteq> None) in
      if is_long then (long a, a\<lparr>long := Some s\<rparr>)
      else (long a, a\<lparr>words := words a @ [s], long := None\<rparr>))"

definition args_add :: "bytes \<Rightarrow> args \<Rightarrow> bytes option \<times> args" where
  "args_add s a = add_impl s a"

definition add_literal :: "bytes \<Rightarrow> args \<Rightarrow> args option" where
  "add_literal s a = map_option (\<lambda>l. snd (args_add l a)) (from_str Line s)"

definition args_left :: "args \<Rightarrow> int" where
  "args_left a = 15 - int (length (words a))"

definition edit_clear :: "args \<Rightarrow> args" where
  "edit_clear a = a\<lparr>words := [], long := None\<rparr>"

section \<open>Argument lists\<close>

definition args_empty :: args where
  "args_empty = \<lparr>words = [], long = None\<rparr>"

definition args_new :: "bytes list \<Rightarrow> bytes option \<Rightarrow> args" where
  "args_new ws lst =
     (case lst of None \<Rightarrow> \<lparr>words = ws, long = None\<rparr> | Some l \<Rightarrow> snd (add_impl l \<lparr>words = ws, long = None\<rparr>))"

definition args_is_empty :: "args \<Rightarrow> bool" where
  "args_is_empty a \<longleftrightarrow> words a = [] \<and> long a = None"

definition args_len :: "args \<Rightarrow> nat" where
  "args_len a = length (words a) + (if long a \<noteq> None then 1 else 0)"

definition args_clear :: "args \<Rightarrow> args" where
  "args_clear a = a\<lparr>words := [], long := None\<rparr>"

text \<open>A natural number, where the code adds in \<open>usize\<close>; these agree for arguments that fit into memory.\<close>

definition len_bytes :: "args \<Rightarrow> nat" where
  "len_bytes a =
     foldl (\<lambda>count arg. count + (length arg + 1)) 0 (words a) +
     (case long a of Some l \<Rightarrow> length l + 1 | None \<Rightarrow> 0)"

definition is_last_long :: "args \<Rightarrow> bool" where
  "is_last_long a \<longleftrightarrow> long a \<noteq> None"

definition args_all :: "args \<Rightarrow> bytes list option" where
  "args_all a = (if long a = None then Some (words a) else None)"

definition split_last :: "args \<Rightarrow> bytes list \<times> bytes option" where
  "split_last a =
     (case long a of
        Some l \<Rightarrow> (words a, Some l)
      | None \<Rightarrow> if words a \<noteq> [] then (butlast (words a), Some (last (words a))) else ([], None))"

definition args_set :: "bytes list \<Rightarrow> bytes option \<Rightarrow> args \<Rightarrow> args" where
  "args_set ws lst a =
     (let (w, l) =
        (case lst of
           Some l \<Rightarrow> (case from_bytes Arg l of Inr word \<Rightarrow> (ws @ [word], None) | Inl _ \<Rightarrow> (ws, Some l))
         | None \<Rightarrow> (ws, None))
      in a\<lparr>words := w, long := l\<rparr>)"

definition args_display :: "args \<Rightarrow> bytes" where
  "args_display a =
     (case long a of
        Some l \<Rightarrow> concat (map (\<lambda>w. show_bytes w @ '' '') (words a)) @ '':'' @ show_bytes l
      | None \<Rightarrow>
          if words a \<noteq> []
          then concat (map (\<lambda>w. show_bytes w @ '' '') (butlast (words a))) @ show_bytes (last (words a))
          else [])"

text \<open>The loop of \<open>Args::parse\<close>.\<close>

function args_loop :: "splitter \<Rightarrow> bytes list \<Rightarrow> args" where
  "args_loop line ws =
     (let line1 = consume_whitespace line in
      case sp_string Arg False line1 of
        (Inr arg, line2) \<Rightarrow> args_loop line2 (ws @ [arg])
      | (Inl Colon, line2) \<Rightarrow>
          (let (_, line3) = next_byte line2;
               (rest, _) = rest_or_default Line line3
           in snd (add_impl rest \<lparr>words = ws, long = None\<rparr>))
      | (Inl _, line2) \<Rightarrow> \<lparr>words = ws, long = None\<rparr>)"
  by pat_completeness auto

lemma range_len_consume_whitespace: "range_len (rng (consume_whitespace sp)) \<le> range_len (rng sp)"
  by (auto simp: consume_whitespace_def advance_def range_len_def split: option.splits)

text \<open>Extracting a non-empty string shortens the range.\<close>

lemma range_len_string:
  assumes "sp_string U False sp = (Inr w, sp')" and "U \<in> {Arg, Key, Nick, User, Cmd}"
  shows "range_len (rng sp') < range_len (rng sp)"
proof -
  from assms(1) have w: "slice_string U False (as_slice sp) = Inr w" and sp': "sp' = advance (length w) sp"
    by (auto simp: sp_string_advance)
  from w have "valid U w" by (rule slice_string_valid)
  with assms(2) have "w \<noteq> []" by (auto simp: valid_iff arg_first_check_None)
  moreover from w have "length w \<le> length (as_slice sp)" by (auto simp: slice_string_Inr length_takeWhile_le)
  ultimately have "as_slice sp \<noteq> []" by auto
  then have "0 < range_len (rng sp)" by (auto simp: as_slice_def constrain_def range_len_def)
  with \<open>w \<noteq> []\<close> show ?thesis by (cases w) (auto simp: sp' advance_def range_len_def)
qed

termination args_loop
proof (relation "measure (\<lambda>(line, _). range_len (rng line))", goal_cases)
  case (2 line ws line1 x line2 arg)
  then have "range_len (rng line2) < range_len (rng line1)"
    by (intro range_len_string [of Arg _ arg]) auto
  with 2 range_len_consume_whitespace [of line] show ?case by simp
qed simp

declare args_loop.simps [simp del]

definition args_parse :: "bytes \<Rightarrow> args" where
  "args_parse line = args_loop (sp_new False line) []"

section \<open>Invariant\<close>

definition args_ok :: "args \<Rightarrow> bool" where
  "args_ok a \<longleftrightarrow> (\<forall>w \<in> set (words a). valid Arg w) \<and>
     (case long a of None \<Rightarrow> True | Some l \<Rightarrow> valid Line l \<and> \<not> valid Arg l)"

lemmas args_ops = add_word_def add_before_last_def add_impl_def args_add_def edit_clear_def
  args_empty_def args_new_def args_clear_def args_set_def

lemma add_impl_ok [wf_intros]: "args_ok a \<Longrightarrow> valid Line s \<Longrightarrow> args_ok (snd (add_impl s a))"
  by (auto simp: args_ok_def add_impl_def valid_def)

lemma set_butlast_last: "xs \<noteq> [] \<Longrightarrow> x \<in> set (butlast xs) \<or> x = last xs \<Longrightarrow> x \<in> set xs"
  by (auto dest: in_set_butlastD)

lemma args_ops_ok [wf_intros]:
  "args_ok a \<Longrightarrow> valid Arg w \<Longrightarrow> args_ok (add_word w a)"
  "args_ok a \<Longrightarrow> valid Arg w \<Longrightarrow> args_ok (add_before_last w a)"
  "args_ok (edit_clear a)" "args_ok (args_clear a)" "args_ok args_empty"
  by (auto simp: args_ok_def args_ops dest: in_set_butlastD)

lemma args_set_ok [wf_intros]:
  "\<forall>w \<in> set ws. valid Arg w \<Longrightarrow> (\<And>l. lst = Some l \<Longrightarrow> valid Line l) \<Longrightarrow> args_ok (args_set ws lst a)"
  by (auto simp: args_ok_def args_set_def from_bytes_Inr from_bytes_def valid_def split: option.splits)

lemma args_new_ok [wf_intros]:
  "\<forall>w \<in> set ws. valid Arg w \<Longrightarrow> (\<And>l. lst = Some l \<Longrightarrow> valid Line l) \<Longrightarrow> args_ok (args_new ws lst)"
  by (auto simp: args_ok_def args_new_def add_impl_def valid_def split: option.splits)

text \<open>\<open>set\<close> builds the list \<open>new\<close> builds.\<close>

lemma args_set_new: "args_set ws lst a = args_new ws lst"
  by (auto simp: args_set_def args_new_def add_impl_def from_bytes_def split: option.splits)

section \<open>Parsing\<close>

text \<open>One turn of the loop, as a function of the remaining bytes.\<close>

lemma args_loop_word:
  assumes "wf_splitter line"
    and "slice_string Arg False (dropWhile is_ascii_whitespace (as_slice line)) = Inr arg"
  shows "\<exists>line'. wf_splitter line' \<and>
    as_slice line' = drop (length arg) (dropWhile is_ascii_whitespace (as_slice line)) \<and>
    args_loop line ws = args_loop line' (ws @ [arg])"
proof -
  let ?l = "advance (length arg) (consume_whitespace line)"
  have "args_loop line ws = args_loop ?l (ws @ [arg])"
    using assms(2) by (subst args_loop.simps) (simp add: sp_string_advance slice_simps Let_def)
  moreover have "wf_splitter ?l"
    using sp_string_wf [OF consume_whitespace_wf [OF assms(1)], of Arg False] assms(2)
    by (simp add: sp_string_advance slice_simps)
  ultimately show ?thesis by (intro exI [of _ ?l]) (simp add: slice_simps)
qed

lemma args_loop_stop:
  assumes "dropWhile is_ascii_whitespace (as_slice line) = []"
  shows "args_loop line ws = \<lparr>words = ws, long = None\<rparr>"
proof -
  have "as_slice (consume_whitespace line) = []" using assms by (simp only: consume_whitespace_slice)
  then have "sp_string Arg False (consume_whitespace line) = (Inl Empty, consume_whitespace line)"
    by (simp add: sp_string_advance slice_string_def arg_first_check_def advance_0)
  then show ?thesis by (subst args_loop.simps) simp
qed

lemma args_loop_colon:
  assumes "dropWhile is_ascii_whitespace (as_slice line) = CHR '':'' # rest"
  shows "args_loop line ws = snd (add_impl rest \<lparr>words = ws, long = None\<rparr>)"
proof -
  have "as_slice (consume_whitespace line) = CHR '':'' # rest"
    using assms by (simp only: consume_whitespace_slice)
  moreover from this
  have "sp_string Arg False (consume_whitespace line) = (Inl Colon, consume_whitespace line)"
    by (simp add: sp_string_advance slice_string_def arg_first_check_def advance_0 invalid_defs)
  ultimately show ?thesis
    by (subst args_loop.simps) (simp add: rest_or_default_total next_byte_slice split_def)
qed

text \<open>Every parsed list satisfies the invariant.\<close>

lemma slice_string_Arg_cases:
  assumes "\<And>b. b \<in> set s \<Longrightarrow> \<not> is_invalid Line b" and "\<not> is_ascii_whitespace (hd s)"
  obtains "s = []" | rest where "s = CHR '':'' # rest" | arg where "slice_string Arg False s = Inr arg"
proof (cases s)
  case (Cons b rest)
  with assms have "\<not> is_invalid Arg b" by (auto simp: invalid_defs is_ascii_whitespace_def)
  with Cons that(2,3) show ?thesis
    by (cases "b = CHR '':''") (auto simp: slice_string_def arg_first_check_def)
qed (use that(1) in blast)

lemma hd_dropWhile_not: "dropWhile P xs \<noteq> [] \<Longrightarrow> \<not> P (hd (dropWhile P xs))"
  by (induction xs) auto

lemma args_loop_ok:
  assumes "wf_splitter line" and "\<forall>w \<in> set ws. valid Arg w" and "\<forall>b \<in> set (as_slice line). \<not> is_invalid Line b"
  shows "args_ok (args_loop line ws)"
  using assms
proof (induction "length (as_slice line)" arbitrary: line ws rule: less_induct)
  case less
  let ?s = "dropWhile is_ascii_whitespace (as_slice line)"
  have l: "b \<in> set ?s \<Longrightarrow> \<not> is_invalid Line b" for b using less.prems(3) set_dropWhileD by metis
  show ?case
  proof (cases "?s = []")
    case True
    then show ?thesis using less.prems(2) by (simp add: args_loop_stop args_ok_def)
  next
    case False
    then have "\<not> is_ascii_whitespace (hd ?s)" by (rule hd_dropWhile_not)
    then consider rest where "?s = CHR '':'' # rest" | arg where "slice_string Arg False ?s = Inr arg"
      using slice_string_Arg_cases [of ?s] l False by metis
    then show ?thesis
    proof cases
      case 1
      with l have "valid Line rest" by (auto simp: valid_iff)
      with 1 less.prems(2) show ?thesis
        by (simp add: args_loop_colon) (rule add_impl_ok, simp_all add: args_ok_def)
    next
      case 2
      from args_loop_word [OF less.prems(1) this] obtain line' where l': "wf_splitter line'"
        "as_slice line' = drop (length arg) ?s" "args_loop line ws = args_loop line' (ws @ [arg])"
        by blast
      have v: "valid Arg arg" using 2 by (rule slice_string_valid)
      then have "0 < length arg" by (auto simp: valid_Arg_iff)
      moreover have "length ?s \<le> length (as_slice line)" by (rule length_dropWhile_le)
      ultimately have "length (as_slice line') < length (as_slice line)"
        using False unfolding l'(2) length_drop by (cases arg; cases ?s) simp_all
      moreover have "\<forall>b \<in> set (as_slice line'). \<not> is_invalid Line b"
        using l by (auto simp: l'(2) dest: in_set_dropD)
      ultimately show ?thesis using less.hyps l'(1,3) v less.prems(2) by auto
    qed
  qed
qed

lemma args_parse_ok: "valid Line s \<Longrightarrow> args_ok (args_parse s)"
  unfolding args_parse_def by (rule args_loop_ok) (auto simp: sp_new_wf slice_simps valid_iff)

section \<open>Printing and parsing\<close>

text \<open>The text of an argument list as it follows a command: each word after a space, the long
  argument after a space and a colon.\<close>

definition args_text :: "args \<Rightarrow> bytes" where
  "args_text a =
     concat (map (\<lambda>w. CHR '' '' # w) (words a)) @
     (case long a of Some l \<Rightarrow> CHR '' '' # CHR '':'' # l | None \<Rightarrow> [])"

text \<open>\<open>consume_whitespace\<close> also skips tabs and form feeds, which an \<open>Arg\<close> may contain: a word that
  starts with one does not survive a round trip.\<close>

definition plain_start :: "bytes \<Rightarrow> bool" where
  "plain_start w \<longleftrightarrow> w \<noteq> [] \<and> \<not> is_ascii_whitespace (hd w)"

lemma dropWhile_plain: "plain_start w \<Longrightarrow> dropWhile is_ascii_whitespace (w @ s) = w @ s"
  by (cases w) (auto simp: plain_start_def)

lemma space_whitespace [simp]: "is_ascii_whitespace (CHR '' '')"
  by (simp add: is_ascii_whitespace_def)

lemma args_loop_words:
  assumes "wf_splitter line" and "\<forall>w \<in> set ws. valid Arg w \<and> plain_start w"
    and "as_slice line = concat (map (\<lambda>w. CHR '' '' # w) ws) @ tail"
    and "tail = [] \<or> hd tail = CHR '' ''"
  shows "\<exists>line'. wf_splitter line' \<and> as_slice line' = tail \<and> args_loop line acc = args_loop line' (acc @ ws)"
  using assms
proof (induction ws arbitrary: line acc)
  case (Cons w ws)
  let ?rest = "concat (map (\<lambda>w. CHR '' '' # w) ws) @ tail"
  have s: "dropWhile is_ascii_whitespace (as_slice line) = w @ ?rest"
    using Cons.prems(2,3) by (simp add: dropWhile_plain)
  have r: "?rest = [] \<or> is_invalid Arg (hd ?rest)"
    using Cons.prems(4) by (cases ws) (auto simp: invalid_defs)
  have "slice_string Arg False (w @ ?rest) = Inr w"
    using Cons.prems(2) r by (intro slice_string_exact) auto
  with s args_loop_word [OF Cons.prems(1)] obtain line' where l': "wf_splitter line'"
    "as_slice line' = ?rest" "args_loop line acc = args_loop line' (acc @ [w])"
    by fastforce
  from Cons.IH [OF l'(1) _ l'(2) Cons.prems(4), of "acc @ [w]"] Cons.prems(2) l'(3)
  show ?case by auto
qed auto

lemma args_parse_text:
  assumes "args_ok a" and "\<forall>w \<in> set (words a). plain_start w"
  shows "args_parse (args_text a) = a"
proof -
  let ?line = "sp_new False (args_text a)"
    and ?tail = "case long a of Some l \<Rightarrow> CHR '' '' # CHR '':'' # l | None \<Rightarrow> []"
  have "\<exists>line'. wf_splitter line' \<and> as_slice line' = ?tail \<and>
      args_loop ?line [] = args_loop line' ([] @ words a)"
    using assms
    by (intro args_loop_words)
      (auto simp: sp_new_wf slice_simps args_text_def args_ok_def split: option.splits)
  then obtain line' where l: "as_slice line' = ?tail" "args_parse (args_text a) = args_loop line' (words a)"
    by (auto simp: args_parse_def)
  show ?thesis
  proof (cases "long a")
    case None
    with l show ?thesis by (simp add: args_loop_stop)
  next
    case (Some x)
    with l(1) have "dropWhile is_ascii_whitespace (as_slice line') = CHR '':'' # x"
      by (simp add: is_ascii_whitespace_def)
    from args_loop_colon [OF this] l(2) Some assms(1) show ?thesis
      by (simp add: add_impl_def args_ok_def valid_def)
  qed
qed

text \<open>\<open>len_bytes\<close> counts every argument and the space before it, but not the colon.\<close>

lemma foldl_add_len: "foldl (\<lambda>c w. Suc (c + length w)) n ws = n + length (concat (map (\<lambda>w. CHR '' '' # w) ws))"
  by (induction ws arbitrary: n) auto

lemma len_bytes_text: "length (args_text a) = len_bytes a + (if is_last_long a then 1 else 0)"
  by (cases "long a") (simp_all add: len_bytes_def foldl_add_len args_text_def is_last_long_def)

lemma concat_space_last:
  "ws \<noteq> [] \<Longrightarrow> CHR '' '' # concat (map (\<lambda>w. w @ '' '') (butlast ws)) @ last ws =
     concat (map (\<lambda>w. CHR '' '' # w) ws)"
  by (induction ws) (auto split: if_splits)

lemma concat_space:
  "CHR '' '' # concat (map (\<lambda>w. w @ '' '') ws) = concat (map (\<lambda>w. CHR '' '' # w) ws) @ '' ''"
  by (induction ws) auto

definition args_utf8 :: "args \<Rightarrow> bool" where
  "args_utf8 a \<longleftrightarrow> (\<forall>w \<in> set (words a). utf8_valid w) \<and> (case long a of Some l \<Rightarrow> utf8_valid l | None \<Rightarrow> True)"

lemma map_show_utf8:
  "\<forall>w \<in> set ws. utf8_valid w \<Longrightarrow> map (\<lambda>w. show_bytes w @ s) ws = map (\<lambda>w. w @ s) ws"
  by simp

lemma args_display_text:
  assumes "\<not> args_is_empty a" and "args_utf8 a"
  shows "CHR '' '' # args_display a = args_text a"
proof -
  have u: "\<forall>w \<in> set (words a). utf8_valid w" using assms(2) by (simp add: args_utf8_def)
  then have "\<forall>w \<in> set (butlast (words a)). utf8_valid w" by (auto dest: in_set_butlastD)
  note eqs = map_show_utf8 [OF u] map_show_utf8 [OF this]
  show ?thesis
  proof (cases "long a")
    case None
    with assms(1) have "words a \<noteq> []" by (simp add: args_is_empty_def)
    with None u concat_space_last [of "words a"] show ?thesis
      by (simp add: args_display_def args_text_def eqs del: map_eq_conv)
  next
    case (Some l)
    with assms(2) concat_space [of "words a"] show ?thesis
      by (simp add: args_display_def args_text_def args_utf8_def eqs del: map_eq_conv)
  qed
qed

text \<open>Adding in front of the last argument keeps it last.\<close>

lemma add_before_last_last:
  "\<not> args_is_empty a \<Longrightarrow> snd (split_last (add_before_last w a)) = snd (split_last a)"
  by (auto simp: add_before_last_def split_last_def args_is_empty_def split: option.splits)

section \<open>Properties\<close>

text \<open>A well-formed list whose words do not start with whitespace is parsed back from its written
  form, and \<open>len_bytes\<close> counts that form except for the colon of a long argument.\<close>

lemma args_roundtrip:
  assumes "args_ok a" and "\<forall>w \<in> set (words a). plain_start w"
  shows "args_parse (args_text a) = a \<and> length (args_text a) = len_bytes a + (if is_last_long a then 1 else 0)"
  using args_parse_text [OF assms] by (simp add: len_bytes_text)

end
