(* ===== verification/Source.thy ===== *)
theory Source
  imports Args
begin

text \<open>
  The sender of a message, \<open>ircmsg/source.rs\<close>: its printed forms, its length, and the parser.  The
  machine arithmetic of \<open>len\<close> is unbounded here: the saturating additions can only saturate on a
  string that does not fit in memory.
\<close>

record UserHost =
  uh_user :: "bytes option"
  uh_host :: bytes

record source =
  src_nick :: bytes
  userhost :: "UserHost option"

definition new_server :: "bytes \<Rightarrow> source" where
  "new_server name = \<lparr>src_nick = name, userhost = None\<rparr>"

definition new_user :: "bytes \<Rightarrow> bytes \<Rightarrow> bytes \<Rightarrow> source" where
  "new_user nick user host =
     \<lparr>src_nick = nick, userhost = Some \<lparr>uh_user = Some user, uh_host = host\<rparr>\<rparr>"

definition src_user :: "source \<Rightarrow> bytes option" where
  "src_user s =
     (case userhost s of
        Some uh \<Rightarrow> (case uh_user uh of Some u \<Rightarrow> Some u | None \<Rightarrow> None)
      | None \<Rightarrow> None)"

definition src_host :: "source \<Rightarrow> bytes option" where
  "src_host s = (case userhost s of Some uh \<Rightarrow> Some (uh_host uh) | None \<Rightarrow> None)"

text \<open>Lengths are natural numbers; the code adds with \<open>saturating_add\<close>, which is the same for what fits into memory.\<close>

definition uh_len :: "UserHost \<Rightarrow> nat" where
  "uh_len uh =
     (case uh_user uh of
        Some user \<Rightarrow> length user + 1 + length (uh_host uh)
      | None \<Rightarrow> length (uh_host uh))"

definition src_len :: "source \<Rightarrow> nat" where
  "src_len s =
     (let len = length (src_nick s) in
      case userhost s of Some address \<Rightarrow> len + 1 + uh_len address | None \<Rightarrow> len)"

definition uh_write :: "UserHost \<Rightarrow> bytes" where
  "uh_write uh = (case uh_user uh of Some user \<Rightarrow> user @ ''@'' | None \<Rightarrow> []) @ uh_host uh"

definition src_write :: "source \<Rightarrow> bytes" where
  "src_write s =
     (case userhost s of
        Some address \<Rightarrow>
          src_nick s @ (case uh_user address of Some user \<Rightarrow> CHR ''!'' # user | None \<Rightarrow> []) @ ''@'' @ uh_host address
      | None \<Rightarrow> src_nick s)"

definition src_display :: "source \<Rightarrow> bytes" where
  "src_display s =
     (case userhost s of
        Some address \<Rightarrow>
          (case uh_user address of
             Some user \<Rightarrow>
               show_bytes (src_nick s) @ ''!'' @ show_bytes user @ ''@'' @ show_bytes (uh_host address)
           | None \<Rightarrow> show_bytes (src_nick s) @ ''@'' @ show_bytes (uh_host address))
      | None \<Rightarrow> show_bytes (src_nick s))"

definition uh_display :: "UserHost \<Rightarrow> bytes" where
  "uh_display uh =
     (case uh_user uh of
        Some user \<Rightarrow> show_bytes user @ ''@'' @ show_bytes (uh_host uh)
      | None \<Rightarrow> show_bytes (uh_host uh))"

definition has_ident :: "UserHost \<Rightarrow> bool" where
  "has_ident uh \<longleftrightarrow>
     \<not> (case uh_user uh of Some user \<Rightarrow> (case user of b # _ \<Rightarrow> b = CHR ''~'' | [] \<Rightarrow> False) | None \<Rightarrow> False)"

definition uh_parse :: "bytes \<Rightarrow> (UserHost, ParseError) result" where
  "uh_parse s =
     (let sp = sp_new False s;
          (r, sp1) = save_end (\<lambda>x. sp_string User True (until_byte_eq (CHR ''@'') x)) sp
      in bind_res (map_err InvalidUser r) (\<lambda>user.
           let (_, sp2) = next_byte sp1;
               (host, _) = rest_or_default Word sp2
           in if host = [] then Inl (InvalidHost Empty)
              else Inr \<lparr>uh_user = Some user, uh_host = host\<rparr>))"

definition src_parse :: "bytes \<Rightarrow> (source, ParseError) result" where
  "src_parse w =
     (let sp = sp_new False w; (r, sp1) = sp_string Nick False sp in
      bind_res (map_err InvalidNick r) (\<lambda>nick.
        let (b, sp2) = next_byte sp1 in
        if b = Some (CHR ''!'') then
          (let (rest, _) = rest_or_default Word sp2 in
           bind_res (uh_parse rest) (\<lambda>uh. Inr \<lparr>src_nick = nick, userhost = Some uh\<rparr>))
        else if b = Some (CHR ''@'') then
          (let (host, _) = rest_or_default Word sp2 in
           if host = [] then Inl (InvalidHost Empty)
           else Inr \<lparr>src_nick = nick, userhost = Some \<lparr>uh_user = None, uh_host = host\<rparr>\<rparr>)
        else Inr \<lparr>src_nick = nick, userhost = None\<rparr>))"

text \<open>\<open>owning_merged\<close> rebuilds the source from one shared buffer; \<open>None\<close> is a panicking unwrap.\<close>

fun ok_or_panic :: "'e + 'a \<Rightarrow> 'a option" where
  "ok_or_panic (Inr x) = Some x"
| "ok_or_panic (Inl e) = None"

definition take_counted :: "strtype \<Rightarrow> nat \<Rightarrow> splitter \<Rightarrow> bytes option \<times> splitter" where
  "take_counted U n sp =
     (let (r, sp') = save_end (\<lambda>x. sp_string U True (until_count n x)) sp in (ok_or_panic r, sp'))"

definition owning_merged :: "source \<Rightarrow> source option" where
  "owning_merged s =
     (let len_nick = length (src_nick s);
          b0 = builder_new (bytes_from_bytes (src_nick s));
          b1 = (case userhost s of
                  Some uh \<Rightarrow>
                    (let b = (case uh_user uh of Some u \<Rightarrow> bld_append (bytes_from_bytes u) b0 | None \<Rightarrow> b0)
                     in bld_append (bytes_from_bytes (uh_host uh)) b)
                | None \<Rightarrow> b0);
          sp = sp_new False (b_value (build b1));
          (nick, sp1) = take_counted Nick len_nick sp
      in Option.bind nick (\<lambda>nick.
         case userhost s of
           Some uh \<Rightarrow>
             (let (user, sp2) =
                (case uh_user uh of
                   Some u \<Rightarrow> (let (r, x) = take_counted User (length u) sp1 in (map_option Some r, x))
                 | None \<Rightarrow> (Some None, sp1));
                  (host, _) = take_counted Word (length (uh_host uh)) sp2
              in Option.bind user (\<lambda>user. Option.bind host (\<lambda>host.
                   Some \<lparr>src_nick = nick, userhost = Some \<lparr>uh_user = user, uh_host = host\<rparr>\<rparr>)))
         | None \<Rightarrow> Some \<lparr>src_nick = nick, userhost = None\<rparr>))"

section \<open>Invariant\<close>

definition src_ok :: "source \<Rightarrow> bool" where
  "src_ok s \<longleftrightarrow> valid Nick (src_nick s) \<and>
     (case userhost s of
        Some uh \<Rightarrow> valid Word (uh_host uh) \<and> (case uh_user uh of Some u \<Rightarrow> valid User u | None \<Rightarrow> True)
      | None \<Rightarrow> True)"

lemma uh_parse_eq:
  "uh_parse s =
     (let u = takeWhile (\<lambda>c. c \<noteq> CHR ''@'') s; host = tl (dropWhile (\<lambda>c. c \<noteq> CHR ''@'') s) in
      case slice_string User True u of
        Inl e \<Rightarrow> Inl (InvalidUser e)
      | Inr user \<Rightarrow>
          if host = [] then Inl (InvalidHost Empty) else Inr \<lparr>uh_user = Some user, uh_host = host\<rparr>)"
proof -
  let ?u = "takeWhile (\<lambda>c. c \<noteq> CHR ''@'') s" and ?sp = "sp_new False s"
  let ?res = "save_end (\<lambda>x. sp_string User True (until_byte_eq (CHR ''@'') x)) ?sp"
  note r = save_end_string [OF sp_new_wf [of False s] truncates_until_byte_eq [of "CHR ''@''"], of User True,
      unfolded until_byte_eq_slice sp_new_slice]
  show ?thesis
  proof (cases "slice_string User True ?u")
    case (Inl e)
    with r(1) show ?thesis by (simp add: uh_parse_def Let_def split_def)
  next
    case (Inr user)
    then have u: "user = ?u" by (auto simp: slice_string_def Let_def split: if_splits option.splits)
    have "as_slice (snd ?res) = dropWhile (\<lambda>c. c \<noteq> CHR ''@'') s"
      using r(2) Inr u by (simp add: drop_length_takeWhile)
    with Inr r(1) show ?thesis by (simp add: uh_parse_def Let_def split_def next_byte_slice)
  qed
qed

lemma src_parse_eq:
  "src_parse w =
     (case slice_string Nick False w of
        Inl e \<Rightarrow> Inl (InvalidNick e)
      | Inr nick \<Rightarrow>
          (case drop (length nick) w of
             [] \<Rightarrow> Inr \<lparr>src_nick = nick, userhost = None\<rparr>
           | b # rest \<Rightarrow>
               if b = CHR ''!'' then bind_res (uh_parse rest) (\<lambda>uh. Inr \<lparr>src_nick = nick, userhost = Some uh\<rparr>)
               else if b = CHR ''@'' then
                 (if rest = [] then Inl (InvalidHost Empty)
                  else Inr \<lparr>src_nick = nick, userhost = Some \<lparr>uh_user = None, uh_host = rest\<rparr>\<rparr>)
               else Inr \<lparr>src_nick = nick, userhost = None\<rparr>))"
  by (cases "slice_string Nick False w")
    (auto simp: src_parse_def Let_def split_def sp_string_advance slice_simps split: list.splits)

lemma uh_parse_ok: "valid Word s \<Longrightarrow> uh_parse s = Inr uh \<Longrightarrow>
    valid Word (uh_host uh) \<and> uh_host uh \<noteq> [] \<and> (\<exists>u. uh_user uh = Some u \<and> valid User u)"
  by (auto simp: uh_parse_eq Let_def valid_iff [of Word] dest!: in_set_tl set_dropWhileD
      intro: slice_string_valid split: sum.splits if_splits)

text \<open>Every parsed source is well-formed, and its host is not empty.\<close>

lemma src_parse_ok:
  assumes "valid Word w" and "src_parse w = Inr s"
  shows "src_ok s \<and> src_host s \<noteq> Some []"
proof -
  from assms(2) obtain nick where n: "slice_string Nick False w = Inr nick"
    by (auto simp: src_parse_eq split: sum.splits)
  have "valid Nick nick" using n by (rule slice_string_valid)
  moreover have "valid Word rest" if "drop (length nick) w = b # rest" for b rest
  proof -
    have "set (b # rest) \<subseteq> set w" unfolding that [symmetric] by (auto dest: in_set_dropD)
    with assms(1) show ?thesis by (auto simp: valid_iff)
  qed
  ultimately show ?thesis
    using assms(2) n
    by (auto simp: src_parse_eq src_ok_def src_host_def bind_res_Inr dest: uh_parse_ok
        split: list.splits if_splits)
qed

lemma uh_parse_write:
  assumes "valid User u" and "host \<noteq> []"
  shows "uh_parse (u @ CHR ''@'' # host) = Inr \<lparr>uh_user = Some u, uh_host = host\<rparr>"
proof -
  have u: "\<forall>b \<in> set u. b \<noteq> CHR ''@''" using assms(1) by (auto simp: valid_iff invalid_defs)
  note tw = takeWhile_prefix [OF u, of "CHR ''@'' # host"]
  then show ?thesis using assms by (simp add: uh_parse_eq slice_string_all)
qed

lemma nick_stops: "is_invalid Nick (CHR ''!'')" "is_invalid Nick (CHR ''@'')"
  by (simp_all add: invalid_defs)

lemma src_parse_write:
  assumes "src_ok s" and "src_host s \<noteq> Some []"
  shows "src_parse (src_write s) = Inr s"
proof -
  have n: "valid Nick (src_nick s)" using assms(1) by (simp add: src_ok_def)
  show ?thesis
  proof (cases "userhost s")
    case None
    with n slice_string_exact [OF n, of "[]"] show ?thesis by (simp add: src_parse_eq src_write_def)
  next
    case (Some uh)
    with assms(2) have h: "uh_host uh \<noteq> []" by (simp add: src_host_def)
    show ?thesis
    proof (cases "uh_user uh")
      case None
      with Some h slice_string_exact [OF n, of "CHR ''@'' # uh_host uh"] nick_stops
      show ?thesis by (simp add: src_parse_eq src_write_def)
    next
      case (Some u)
      then have "valid User u" using assms(1) \<open>userhost s = Some uh\<close> by (simp add: src_ok_def)
      from uh_parse_write [OF this h] Some \<open>userhost s = Some uh\<close>
        slice_string_exact [OF n, of "CHR ''!'' # u @ CHR ''@'' # uh_host uh"] nick_stops
      show ?thesis by (simp add: src_parse_eq src_write_def)
    qed
  qed
qed

text \<open>A source with an empty host is written as a text that does not parse.\<close>

lemma src_parse_empty_host:
  assumes "src_ok s" and "src_host s = Some []"
  shows "src_parse (src_write s) = Inl (InvalidHost Empty)"
proof -
  have n: "valid Nick (src_nick s)" using assms(1) by (simp add: src_ok_def)
  obtain uh where uh: "userhost s = Some uh" "uh_host uh = []"
    using assms(2) by (auto simp: src_host_def split: option.splits)
  show ?thesis
  proof (cases "uh_user uh")
    case None
    with uh slice_string_exact [OF n, of "''@''"] nick_stops show ?thesis
      by (simp add: src_parse_eq src_write_def)
  next
    case (Some u)
    then have v: "valid User u" using assms(1) uh by (simp add: src_ok_def)
    then have u: "\<forall>b \<in> set u. b \<noteq> CHR ''@''" by (auto simp: valid_iff invalid_defs)
    have "uh_parse (u @ ''@'') = Inl (InvalidHost Empty)"
      using v takeWhile_prefix [OF u, of "''@''"] by (simp add: uh_parse_eq slice_string_all)
    with Some uh slice_string_exact [OF n, of "CHR ''!'' # u @ ''@''"] nick_stops show ?thesis
      by (simp add: src_parse_eq src_write_def)
  qed
qed

lemma src_write_length: "length (src_write s) = src_len s"
  by (auto simp: src_write_def src_len_def uh_len_def Let_def split: option.splits)

definition src_utf8 :: "source \<Rightarrow> bool" where
  "src_utf8 s \<longleftrightarrow> utf8_valid (src_nick s) \<and>
     (case src_user s of Some u \<Rightarrow> utf8_valid u | None \<Rightarrow> True) \<and>
     (case src_host s of Some h \<Rightarrow> utf8_valid h | None \<Rightarrow> True)"

lemma src_display_write: "src_utf8 s \<Longrightarrow> src_display s = src_write s"
  by (auto simp: src_display_def src_write_def src_utf8_def src_user_def src_host_def split: option.splits)

lemma src_write_valid:
  assumes "src_ok s"
  shows "valid Word (src_write s)" and "src_write s \<noteq> []" and "hd (src_write s) \<noteq> CHR '':''"
proof -
  have n: "valid Nick (src_nick s)" using assms by (simp add: src_ok_def)
  then have a: "valid Word (src_nick s)" "src_nick s \<noteq> []" "hd (src_nick s) \<noteq> CHR '':''"
    by (auto dest!: valid_subtypes(2) simp: valid_Arg_iff)
  show "valid Word (src_write s)"
    using assms a(1) valid_subtypes(3,5)
    by (fastforce simp: src_write_def src_ok_def valid_Word_iff split: option.splits)
  show "src_write s \<noteq> []" "hd (src_write s) \<noteq> CHR '':''"
    using a(2,3) by (auto simp: src_write_def split: option.splits)
qed

lemma take_counted_prefix:
  assumes "wf_splitter sp" and "as_slice sp = w @ rest" and "valid U w"
  shows "fst (take_counted U (length w) sp) = Some w"
    and "as_slice (snd (take_counted U (length w) sp)) = rest"
    and "wf_splitter (snd (take_counted U (length w) sp))"
  using save_end_string [OF assms(1) truncates_until_count [of "length w"], of U True] assms
  by (simp_all add: take_counted_def split_def slice_simps slice_string_all)

lemma owning_merged_id:
  assumes "src_ok s"
  shows "owning_merged s = Some s"
proof -
  have n: "valid Nick (src_nick s)" using assms by (simp add: src_ok_def)
  note defs = owning_merged_def Let_def split_def build_value builder_new_def bytes_from_bytes_def
    bld_append_def append_unchecked_def
  show ?thesis
  proof (cases "userhost s")
    case None
    with take_counted_prefix [OF sp_new_wf _ n, of False "src_nick s" "[]"] show ?thesis
      by (simp add: defs slice_simps)
  next
    case (Some uh)
    with assms have h: "valid Word (uh_host uh)" by (simp add: src_ok_def)
    show ?thesis
    proof (cases "uh_user uh")
      case None
      note t1 = take_counted_prefix [OF sp_new_wf sp_new_slice n, of False "uh_host uh"]
      note t2 = take_counted_prefix [OF t1(3) _ h, of "[]"]
      from None Some t1 t2 show ?thesis by (simp add: defs slice_simps)
    next
      case (Some u)
      with assms \<open>userhost s = Some uh\<close> have u: "valid User u" by (simp add: src_ok_def)
      note t1 = take_counted_prefix [OF sp_new_wf sp_new_slice n, of False "u @ uh_host uh"]
      note t2 = take_counted_prefix [OF t1(3) t1(2) u]
      note t3 = take_counted_prefix [OF t2(3) _ h, of "[]"]
      from Some \<open>userhost s = Some uh\<close> t1 t2 t3 show ?thesis by (simp add: defs slice_simps)
    qed
  qed
qed

section \<open>Properties\<close>

text \<open>C37: A source whose nickname, user and host are valid values of their types is written in exactly the number of bytes
  that \<open>len\<close> announces, is parsed back as itself, and is what \<open>owning_merged\<close> makes of it, without a panic; the one exception is an
  empty host, which the type allows and the parser refuses.  Lengths are natural numbers here; the additions of \<open>len\<close> would
  saturate only beyond what an address space holds.\<close>

theorem source_roundtrip:
  assumes "src_ok s"
  shows "length (src_write s) = src_len s \<and>
    src_parse (src_write s) = (if src_host s = Some [] then Inl (InvalidHost Empty) else Inr s) \<and>
    owning_merged s = Some s"
  using assms by (simp add: src_write_length src_parse_empty_host src_parse_write owning_merged_id)

theorem source_roundtrip_witness:
  "src_parse (src_write \<lparr>src_nick = ''nick'', userhost = Some \<lparr>uh_user = Some ''user'', uh_host = ''a.b''\<rparr>\<rparr>) =
     Inr \<lparr>src_nick = ''nick'', userhost = Some \<lparr>uh_user = Some ''user'', uh_host = ''a.b''\<rparr>\<rparr> \<and>
   src_parse (src_write \<lparr>src_nick = ''nick'', userhost = Some \<lparr>uh_user = None, uh_host = []\<rparr>\<rparr>) = Inl (InvalidHost Empty)"
  using source_roundtrip [of "\<lparr>src_nick = ''nick'', userhost = Some \<lparr>uh_user = Some ''user'', uh_host = ''a.b''\<rparr>\<rparr>"]
    source_roundtrip [of "\<lparr>src_nick = ''nick'', userhost = Some \<lparr>uh_user = None, uh_host = []\<rparr>\<rparr>"]
  by (simp add: src_ok_def src_host_def valid_iff invalid_defs arg_first_check_def)

end
