(* ===== verification/Flatmap.thy ===== *)
theory Flatmap
  imports Prelude
begin

text \<open>
  The vector-backed ordered map of \<open>util/flatmap.rs\<close>, used for tags, capabilities and name maps.
  The element type and the key extractor \<open>X::extract_key\<close> are parameters (\<open>kf\<close>).  A map is the
  vector; its invariant \<open>fm_ok\<close> is that the keys ascend strictly.  An edit guard is the initialised
  part of the vector (\<open>g_buf\<close>, of length \<open>real_len\<close>) together with the vector length that the guard
  reuses as the end of the sorted prefix (\<open>g_sorted\<close>).
\<close>

section \<open>Searching and deduplication\<close>

text \<open>\<open>slice::binary_search_by\<close>: \<open>Inr\<close> the index of a match, \<open>Inl\<close> the insertion point.\<close>

function bsearch :: "('e \<Rightarrow> 'k::linorder) \<Rightarrow> 'e list \<Rightarrow> 'k \<Rightarrow> nat \<Rightarrow> nat \<Rightarrow> nat + nat" where
  "bsearch kf xs k lo hi =
     (if hi \<le> lo then Inl lo
      else
        (let mid = lo + (hi - lo) div 2; m = kf (xs ! mid) in
         if m = k then Inr mid
         else if m < k then bsearch kf xs k (mid + 1) hi
         else bsearch kf xs k lo mid))"
  by pat_completeness auto
termination
  by (relation "measure (\<lambda>(_, _, _, lo, hi). hi - lo)") auto

declare bsearch.simps [simp del]

definition binary_search :: "('e \<Rightarrow> 'k::linorder) \<Rightarrow> 'e list \<Rightarrow> 'k \<Rightarrow> nat + nat" where
  "binary_search kf xs k = bsearch kf xs k 0 (length xs)"

text \<open>The loop of \<open>do_dedup\<close> on the buffer, with the two pointers as indices.\<close>

function dedup_loop :: "('e \<Rightarrow> 'k) \<Rightarrow> 'e list \<Rightarrow> nat \<Rightarrow> nat \<Rightarrow> nat \<times> 'e list" where
  "dedup_loop kf buf p1 p2 =
     (if p2 + 1 < length buf then
        (let hole = (p1 \<noteq> p2); p2' = p2 + 1 in
         if kf (buf ! p1) \<noteq> kf (buf ! p2') then
           dedup_loop kf (if hole then buf[p1 + 1 := buf ! p2'] else buf) (p1 + 1) p2'
         else dedup_loop kf (buf[p1 := buf ! p2']) p1 p2')
      else (p1, buf))"
  by pat_completeness auto
termination
  by (relation "measure (\<lambda>(_, buf, _, p2). length buf - p2)") (auto split: if_splits)

declare dedup_loop.simps [simp del]

definition do_dedup :: "('e \<Rightarrow> 'k) \<Rightarrow> 'e list \<Rightarrow> 'e list" where
  "do_dedup kf v =
     (if length v < 2 then v else (let (p1, buf) = dedup_loop kf v 0 0 in take (p1 + 1) buf))"

definition get_impl :: "('e \<Rightarrow> 'k::linorder) \<Rightarrow> 'e list \<Rightarrow> nat \<Rightarrow> 'k \<Rightarrow> nat option" where
  "get_impl kf pairs sorted_until k =
     (let srt = take sorted_until pairs; unsorted = drop sorted_until pairs in
      case binary_search kf srt k of
        Inr i \<Rightarrow> Some i
      | Inl v \<Rightarrow>
          if v < sorted_until then None
          else map_option (\<lambda>i. i + sorted_until) (position (\<lambda>e. kf e = k) unsorted))"

section \<open>The map\<close>

definition fm_new :: "'e list" where
  "fm_new = []"

definition fm_singleton :: "'e \<Rightarrow> 'e list" where
  "fm_singleton e = [e]"

definition fm_from_vec :: "('e \<Rightarrow> 'k::linorder) \<Rightarrow> 'e list \<Rightarrow> 'e list" where
  "fm_from_vec kf v = do_dedup kf (sort_key kf v)"

definition fm_get :: "('e \<Rightarrow> 'k::linorder) \<Rightarrow> 'e list \<Rightarrow> 'k \<Rightarrow> 'e option" where
  "fm_get kf fm k = map_option (\<lambda>i. fm ! i) (get_impl kf fm (length fm) k)"

section \<open>The edit guard\<close>

record 'e guard =
  g_buf :: "'e list"
  g_sorted :: nat

definition fm_edit :: "'e list \<Rightarrow> 'e guard" where
  "fm_edit fm = \<lparr>g_buf = fm, g_sorted = length fm\<rparr>"

text \<open>\<open>Drop\<close>: the real length is restored and the vector sorted unless it already is.  The code uses \<open>sort_unstable_by\<close>, which
  may exchange entries with equal keys; the keys of a vector that is sorted here are distinct, and then all sorts agree.\<close>

definition guard_drop :: "('e \<Rightarrow> 'k::linorder) \<Rightarrow> 'e guard \<Rightarrow> 'e list" where
  "guard_drop kf g = (if g_sorted g < length (g_buf g) then sort_key kf (g_buf g) else g_buf g)"

definition get_idx :: "('e \<Rightarrow> 'k::linorder) \<Rightarrow> 'e guard \<Rightarrow> 'k \<Rightarrow> nat option" where
  "get_idx kf g k = get_impl kf (g_buf g) (g_sorted g) k"

text \<open>The guard reads through \<open>get_unchecked\<close>, whose precondition is an index below the vector's
  shortened length. The model reads the allocation, which is what an unchecked access of an element
  of the tail does; a build that checks the precondition panics there instead.\<close>

definition guard_get :: "('e \<Rightarrow> 'k::linorder) \<Rightarrow> 'e guard \<Rightarrow> 'k \<Rightarrow> 'e option" where
  "guard_get kf g k = map_option (\<lambda>i. g_buf g ! i) (get_idx kf g k)"

text \<open>\<open>push\<close> returns a reference: the index it points to.\<close>

definition guard_push :: "('e \<Rightarrow> 'k::linorder) \<Rightarrow> 'e \<Rightarrow> 'e guard \<Rightarrow> nat \<times> 'e guard" where
  "guard_push kf e g =
     (let is_sorted = (g_sorted g = length (g_buf g) \<and>
            (g_buf g = [] \<or> kf (last (g_buf g)) < kf e));
          buf' = g_buf g @ [e];
          g' = \<lparr>g_buf = buf', g_sorted = g_sorted g + (if is_sorted then 1 else 0)\<rparr>
      in (length buf', g'))"

definition guard_insert :: "('e \<Rightarrow> 'k::linorder) \<Rightarrow> 'e \<Rightarrow> 'e guard \<Rightarrow> 'e option \<times> 'e guard" where
  "guard_insert kf e g =
     (case get_idx kf g (kf e) of
        Some i \<Rightarrow> (Some (g_buf g ! i), g\<lparr>g_buf := (g_buf g)[i := e]\<rparr>)
      | None \<Rightarrow> (None, snd (guard_push kf e g)))"

definition guard_try_insert :: "('e \<Rightarrow> 'k::linorder) \<Rightarrow> 'e \<Rightarrow> 'e guard \<Rightarrow> 'e option \<times> 'e guard" where
  "guard_try_insert kf e g =
     (if get_idx kf g (kf e) \<noteq> None then (Some e, g) else (None, snd (guard_push kf e g)))"

definition guard_get_or_insert ::
  "('e \<Rightarrow> 'k::linorder) \<Rightarrow> 'e \<Rightarrow> 'e guard \<Rightarrow> (nat \<times> 'e option) \<times> 'e guard" where
  "guard_get_or_insert kf e g =
     (case get_idx kf g (kf e) of
        Some i \<Rightarrow> ((i, Some e), g)
      | None \<Rightarrow> (let (i, g') = guard_push kf e g in ((i, None), g')))"

text \<open>\<open>remove\<close> swap-removes in the sorted prefix, which is what the vector length says there is:
  \<open>None\<close> is the panic of \<open>swap_remove\<close> on an index outside it.\<close>

definition guard_remove ::
  "('e \<Rightarrow> 'k::linorder) \<Rightarrow> 'k \<Rightarrow> 'e guard \<Rightarrow> ('e option \<times> 'e guard) option" where
  "guard_remove kf k g =
     (case get_idx kf g k of
        None \<Rightarrow> Some (None, g)
      | Some i \<Rightarrow>
          if g_sorted g \<le> i then None
          else
            Some (Some (g_buf g ! i),
                  \<lparr>g_buf = take (length (g_buf g) - 1) ((g_buf g)[i := g_buf g ! (g_sorted g - 1)]),
                   g_sorted = i\<rparr>))"

definition guard_clear :: "'e guard \<Rightarrow> 'e guard" where
  "guard_clear g = \<lparr>g_buf = [], g_sorted = 0\<rparr>"

section \<open>Binary search\<close>

lemma ascending_keys_less:
  "ascending (map kf xs) \<Longrightarrow> i < j \<Longrightarrow> j < length xs \<Longrightarrow> kf (xs ! i) < kf (xs ! j)"
  using ascending_nth_less [of "map kf xs" i j] by simp

lemma bsearch_spec:
  assumes "ascending (map kf xs)" and "lo \<le> hi" and "hi \<le> length xs"
    and "\<forall>i < lo. kf (xs ! i) < k" and "\<forall>i. hi \<le> i \<longrightarrow> i < length xs \<longrightarrow> k < kf (xs ! i)"
  shows "case bsearch kf xs k lo hi of
      Inr i \<Rightarrow> i < length xs \<and> kf (xs ! i) = k
    | Inl v \<Rightarrow> v \<le> length xs \<and> (\<forall>i < v. kf (xs ! i) < k) \<and> (\<forall>i. v \<le> i \<longrightarrow> i < length xs \<longrightarrow> k < kf (xs ! i))"
  using assms
proof (induction kf xs k lo hi rule: bsearch.induct)
  case (1 kf xs k lo hi)
  show ?case
  proof (cases "hi \<le> lo")
    case True
    with 1 show ?thesis by (subst bsearch.simps) simp
  next
    case False
    define mid where "mid = lo + (hi - lo) div 2"
    have mid: "lo \<le> mid" "mid < hi" using False by (auto simp: mid_def)
    consider "kf (xs ! mid) = k" | "kf (xs ! mid) < k" | "k < kf (xs ! mid)" by fastforce
    then show ?thesis
    proof cases
      case 1
      with False mid "1.prems"(3) show ?thesis
        by (simp add: bsearch.simps [of kf xs k lo hi] Let_def mid_def [symmetric])
    next
      case 2
      have "\<forall>i < mid + 1. kf (xs ! i) < k"
        using ascending_keys_less [OF "1.prems"(1), of _ mid] 2 mid "1.prems"(3)
        by (metis Suc_eq_plus1 less_Suc_eq less_le_trans order.strict_trans)
      with 2 False mid "1.IH"(1) [of mid "kf (xs ! mid)"] "1.prems" show ?thesis
        by (simp add: bsearch.simps [of kf xs k lo hi] Let_def mid_def [symmetric])
    next
      case 3
      have "\<forall>i. mid \<le> i \<longrightarrow> i < length xs \<longrightarrow> k < kf (xs ! i)"
        using ascending_keys_less [OF "1.prems"(1), of mid] 3
        by (metis le_neq_implies_less order.strict_trans)
      with 3 False mid "1.IH"(2) [of mid "kf (xs ! mid)"] "1.prems" show ?thesis
        by (auto simp: bsearch.simps [of kf xs k lo hi] Let_def mid_def [symmetric])
    qed
  qed
qed

lemma binary_search_spec:
  assumes "ascending (map kf xs)"
  shows "case binary_search kf xs k of
      Inr i \<Rightarrow> i < length xs \<and> kf (xs ! i) = k
    | Inl v \<Rightarrow> v \<le> length xs \<and> (\<forall>i < v. kf (xs ! i) < k) \<and> (\<forall>i. v \<le> i \<longrightarrow> i < length xs \<longrightarrow> k < kf (xs ! i))"
  unfolding binary_search_def by (rule bsearch_spec) (use assms in auto)

lemma binary_search_Inr: "ascending (map kf xs) \<Longrightarrow> binary_search kf xs k = Inr i \<Longrightarrow> i < length xs \<and> kf (xs ! i) = k"
  using binary_search_spec [of kf xs k] by simp

lemma binary_search_Inl:
  assumes "ascending (map kf xs)" and "binary_search kf xs k = Inl v"
  shows "k \<notin> kf ` set xs" and "v = length xs \<longleftrightarrow> (\<forall>e \<in> set xs. kf e < k)"
proof -
  have s: "v \<le> length xs" "\<forall>i < v. kf (xs ! i) < k" "\<forall>i. v \<le> i \<longrightarrow> i < length xs \<longrightarrow> k < kf (xs ! i)"
    using binary_search_spec [OF assms(1), of k] assms(2) by auto
  show "k \<notin> kf ` set xs"
    using s(2,3) by (auto simp: in_set_conv_nth) (metis linorder_not_le order_less_irrefl)
  show "v = length xs \<longleftrightarrow> (\<forall>e \<in> set xs. kf e < k)"
  proof
    assume "v = length xs"
    with s(2) show "\<forall>e \<in> set xs. kf e < k" by (auto simp: in_set_conv_nth)
  next
    assume *: "\<forall>e \<in> set xs. kf e < k"
    show "v = length xs"
    proof (rule ccontr)
      assume "v \<noteq> length xs"
      with s(1) have v: "v < length xs" by simp
      with s(3) have "k < kf (xs ! v)" by simp
      moreover from * v have "kf (xs ! v) < k" by simp
      ultimately show False by simp
    qed
  qed
qed

section \<open>Maps as finite functions\<close>

definition fm_ok :: "('e \<Rightarrow> 'k::linorder) \<Rightarrow> 'e list \<Rightarrow> bool" where
  "fm_ok kf fm \<longleftrightarrow> ascending (map kf fm)"

text \<open>The abstraction: a partial function from keys to elements.\<close>

definition fm_map :: "('e \<Rightarrow> 'k) \<Rightarrow> 'e list \<Rightarrow> 'k \<Rightarrow> 'e option" where
  "fm_map kf fm k = find (\<lambda>e. kf e = k) fm"

lemma fm_map_Some: "distinct (map kf fm) \<Longrightarrow> fm_map kf fm k = Some e \<longleftrightarrow> e \<in> set fm \<and> kf e = k"
  unfolding fm_map_def by (induction fm) auto

lemma fm_map_None: "fm_map kf fm k = None \<longleftrightarrow> k \<notin> kf ` set fm"
  by (auto simp: fm_map_def find_None_iff)

lemma fm_map_nth: "distinct (map kf fm) \<Longrightarrow> i < length fm \<Longrightarrow> kf (fm ! i) = k \<Longrightarrow> fm_map kf fm k = Some (fm ! i)"
  by (simp add: fm_map_Some)

lemma fm_map_set_eq:
  assumes "distinct (map kf a)" and "distinct (map kf b)" and "set a = set b"
  shows "fm_map kf a k = fm_map kf b k"
  using fm_map_Some [OF assms(1), of k] fm_map_Some [OF assms(2), of k] assms(3)
  by (metis not_None_eq)

lemma fm_ok_distinct: "fm_ok kf fm \<Longrightarrow> distinct (map kf fm)"
  by (simp add: fm_ok_def ascending_iff)

lemma fm_get_map: "fm_ok kf fm \<Longrightarrow> fm_get kf fm k = fm_map kf fm k"
proof (cases "binary_search kf fm k")
  case (Inr i)
  assume ok: "fm_ok kf fm"
  with Inr have "i < length fm" "kf (fm ! i) = k" by (auto simp: fm_ok_def dest: binary_search_Inr)
  with ok Inr show ?thesis
    by (simp add: fm_get_def get_impl_def fm_map_nth fm_ok_distinct)
next
  case (Inl v)
  assume "fm_ok kf fm"
  then have "k \<notin> kf ` set fm" using Inl by (auto simp: fm_ok_def dest: binary_search_Inl(1))
  then have "fm_map kf fm k = None" by (simp only: fm_map_None not_False_eq_True)
  with Inl show ?thesis by (simp add: fm_get_def get_impl_def)
qed

text \<open>Two well-formed maps with the same elements are the same vector.\<close>

lemma fm_ok_unique:
  assumes "fm_ok kf a" and "fm_ok kf b" and "set a = set b"
  shows "a = b"
proof -
  have "map kf a = map kf b"
    using assms by (intro sorted_distinct_set_unique) (auto simp: fm_ok_def ascending_iff)
  moreover have "inj_on kf (set a \<union> set b)"
    using assms(1,3) by (auto simp: fm_ok_def ascending_iff distinct_map)
  ultimately show ?thesis by (rule map_inj_on)
qed

lemma fm_map_eqI:
  assumes "fm_ok kf a" and "fm_ok kf b" and "fm_map kf a = fm_map kf b"
  shows "a = b"
proof (rule fm_ok_unique [OF assms(1,2)])
  show "set a = set b"
    using assms fm_map_Some [OF fm_ok_distinct, OF assms(1)] fm_map_Some [OF fm_ok_distinct, OF assms(2)]
    by (metis (no_types, lifting) subsetI subset_antisym)
qed

section \<open>Deduplication\<close>

fun dedup_last :: "('e \<Rightarrow> 'k) \<Rightarrow> 'e list \<Rightarrow> 'e list" where
  "dedup_last kf [] = []"
| "dedup_last kf [x] = [x]"
| "dedup_last kf (x # y # r) =
     (if kf x = kf y then dedup_last kf (y # r) else x # dedup_last kf (y # r))"

lemma dedup_loop_spec:
  assumes "p1 \<le> p2" and "p2 < length buf" and "dedup_loop kf buf p1 p2 = (q, buf')"
  shows "take (q + 1) buf' = take p1 buf @ dedup_last kf (buf ! p1 # drop (p2 + 1) buf)"
  using assms
proof (induction kf buf p1 p2 arbitrary: q buf' rule: dedup_loop.induct)
  case (1 kf buf p1 p2)
  show ?case
  proof (cases "p2 + 1 < length buf")
    case False
    with "1.prems" have "q = p1" "buf' = buf" "drop (p2 + 1) buf = []"
      by (auto simp: dedup_loop.simps [of kf buf p1 p2])
    with "1.prems" show ?thesis by (simp add: take_Suc_conv_app_nth)
  next
    case True
    let ?y = "buf ! (p2 + 1)"
    have d: "drop (p2 + 1) buf = ?y # drop (p2 + 2) buf" using True by (simp add: Cons_nth_drop_Suc)
    show ?thesis
    proof (cases "kf (buf ! p1) = kf ?y")
      case eq: True
      let ?b = "buf[p1 := ?y]"
      have "dedup_loop kf ?b p1 (p2 + 1) = (q, buf')"
        using "1.prems"(3) True eq by (subst (asm) dedup_loop.simps) (simp add: Let_def)
      with "1.IH"(2) [of "p1 \<noteq> p2" "p2 + 1"] True eq "1.prems"(1)
      have "take (q + 1) buf' = take p1 ?b @ dedup_last kf (?b ! p1 # drop (p2 + 2) ?b)" by simp
      with eq d "1.prems"(1,2) show ?thesis by (simp add: drop_update_cancel)
    next
      case ne: False
      let ?b = "if p1 \<noteq> p2 then buf[p1 + 1 := ?y] else buf"
      have "dedup_loop kf ?b (p1 + 1) (p2 + 1) = (q, buf')"
        using "1.prems"(3) True ne by (subst (asm) dedup_loop.simps) (auto simp: Let_def split: if_splits)
      with "1.IH"(1) [of "p1 \<noteq> p2" "p2 + 1"] True ne "1.prems"(1)
      have "take (q + 1) buf' = take (p1 + 1) ?b @ dedup_last kf (?b ! (p1 + 1) # drop (p2 + 2) ?b)"
        by simp
      moreover have "take (p1 + 1) ?b = take p1 buf @ [buf ! p1]"
        using "1.prems"(1,2) by (simp add: take_Suc_conv_app_nth)
      moreover have "?b ! (p1 + 1) = ?y" "drop (p2 + 2) ?b = drop (p2 + 2) buf"
        using "1.prems"(1,2) True by (auto simp: drop_update_cancel)
      ultimately show ?thesis using ne d by simp
    qed
  qed
qed

lemma do_dedup_eq: "do_dedup kf v = dedup_last kf v"
proof (cases "length v < 2")
  case True
  then show ?thesis by (cases v; cases "tl v") (simp_all add: do_dedup_def)
next
  case False
  obtain q buf where "dedup_loop kf v 0 0 = (q, buf)" by (cases "dedup_loop kf v 0 0")
  moreover from False have "v ! 0 # drop (0 + 1) v = v" by (cases v) auto
  ultimately show ?thesis
    using dedup_loop_spec [of 0 0 v kf q buf] False by (cases v) (simp_all add: do_dedup_def)
qed

lemma dedup_last_keys: "kf ` set (dedup_last kf xs) = kf ` set xs"
  by (induction kf xs rule: dedup_last.induct) auto

lemma dedup_last_ok: "sorted (map kf xs) \<Longrightarrow> fm_ok kf (dedup_last kf xs)"
proof (induction kf xs rule: dedup_last.induct)
  case (3 kf x y r)
  show ?case
  proof (cases "kf x = kf y")
    case False
    with "3.prems" have "\<forall>e \<in> set (y # r). kf x < kf e" by force
    then have "\<forall>k \<in> kf ` set (dedup_last kf (y # r)). kf x < k" unfolding dedup_last_keys by auto
    with False 3 show ?thesis by (simp add: fm_ok_def)
  qed (use 3 in simp)
qed (simp_all add: fm_ok_def)

lemma find_append: "find P (xs @ ys) = (case find P xs of Some x \<Rightarrow> Some x | None \<Rightarrow> find P ys)"
  by (induction xs) auto

lemma fm_map_append:
  "fm_map kf (xs @ ys) k = (case fm_map kf xs k of Some x \<Rightarrow> Some x | None \<Rightarrow> fm_map kf ys k)"
  by (simp add: fm_map_def find_append split: option.splits)

lemma fm_map_Cons: "fm_map kf (x # xs) k = (if kf x = k then Some x else fm_map kf xs k)"
  by (simp add: fm_map_def)

lemma fm_map_Nil [simp]: "fm_map kf [] k = None"
  by (simp add: fm_map_def)

lemma dedup_last_map: "sorted (map kf xs) \<Longrightarrow> fm_map kf (dedup_last kf xs) k = fm_map kf (rev xs) k"
proof (induction kf xs rule: dedup_last.induct)
  case (3 kf x y r)
  have IH: "fm_map kf (dedup_last kf (y # r)) k = fm_map kf (rev (y # r)) k"
    using 3 by (cases "kf x = kf y") simp_all
  show ?case
  proof (cases "kf x = kf y")
    case True
    have "fm_map kf (rev (y # r)) k = None \<Longrightarrow> kf y \<noteq> k" by (auto simp: fm_map_None)
    with True IH show ?thesis
      using fm_map_append [of kf "rev (y # r)" "[x]" k] by (auto simp: fm_map_Cons split: option.splits)
  next
    case False
    with "3.prems" have "\<forall>e \<in> set (y # r). kf x < kf e" by force
    then have "kf x = k \<Longrightarrow> fm_map kf (rev (y # r)) k = None" by (subst fm_map_None) auto
    with False IH show ?thesis
      using fm_map_append [of kf "rev (y # r)" "[x]" k] by (auto simp: fm_map_Cons split: option.splits)
  qed
qed simp_all

lemma fm_map_filter: "fm_map kf xs k = (case filter (\<lambda>e. kf e = k) xs of [] \<Rightarrow> None | e # _ \<Rightarrow> Some e)"
  unfolding fm_map_def by (induction xs) auto

lemma fm_map_sort_rev: "fm_map kf (rev (sort_key kf v)) k = fm_map kf (rev v) k"
  by (simp add: fm_map_filter rev_filter [symmetric] sort_key_stable)

lemma fm_map_sort: "fm_map kf (sort_key kf v) k = fm_map kf v k"
  by (simp add: fm_map_filter sort_key_stable)

text \<open>Building from a vector sorts it, and the last of several elements with one key wins.\<close>

lemma fm_from_vec_ok: "fm_ok kf (fm_from_vec kf v)"
  by (simp add: fm_from_vec_def do_dedup_eq dedup_last_ok)

lemma fm_from_vec_map: "fm_map kf (fm_from_vec kf v) k = fm_map kf (rev v) k"
  by (simp add: fm_from_vec_def do_dedup_eq dedup_last_map fm_map_sort_rev)

lemma set_dedup_last: "set (dedup_last kf xs) \<subseteq> set xs"
  by (induction kf xs rule: dedup_last.induct) auto

lemma set_fm_from_vec: "set (fm_from_vec kf v) \<subseteq> set v"
  using set_dedup_last [of kf "sort_key kf v"] by (simp add: fm_from_vec_def do_dedup_eq)

lemma fm_from_vec_ascending: "fm_ok kf v \<Longrightarrow> fm_from_vec kf v = v"
proof (rule fm_map_eqI [OF fm_from_vec_ok])
  assume "fm_ok kf v"
  then have d: "distinct (map kf v)" by (rule fm_ok_distinct)
  then have "distinct (map kf (rev v))" by (simp add: rev_map [symmetric])
  with d show "fm_map kf (fm_from_vec kf v) = fm_map kf v"
    using fm_map_set_eq [of kf "rev v" v] by (auto simp: fm_from_vec_map)
qed simp

section \<open>Edit sessions\<close>

definition guard_ok :: "('e \<Rightarrow> 'k::linorder) \<Rightarrow> 'e guard \<Rightarrow> bool" where
  "guard_ok kf g \<longleftrightarrow> g_sorted g \<le> length (g_buf g) \<and>
     ascending (map kf (take (g_sorted g) (g_buf g))) \<and> distinct (map kf (g_buf g))"

text \<open>A key of the unsorted tail is only found if it lies above the sorted prefix.\<close>

definition findable :: "('e \<Rightarrow> 'k::linorder) \<Rightarrow> 'e guard \<Rightarrow> 'k \<Rightarrow> bool" where
  "findable kf g k \<longleftrightarrow> k \<in> kf ` set (drop (g_sorted g) (g_buf g)) \<longrightarrow>
     (\<forall>e \<in> set (take (g_sorted g) (g_buf g)). kf e < k)"

lemma position_unique:
  assumes "distinct (map kf xs)" and "i < length xs"
  shows "position (\<lambda>e. kf e = kf (xs ! i)) xs = Some i"
  using assms
proof (induction xs arbitrary: i)
  case (Cons x xs)
  then show ?case
  proof (cases i)
    case (Suc j)
    with Cons.prems have "kf (xs ! j) \<in> kf ` set xs" by simp
    with Cons Suc show ?thesis by auto
  qed simp
qed simp

lemma get_idx_position:
  assumes g: "guard_ok kf g" and f: "findable kf g k"
  shows "get_idx kf g k = position (\<lambda>e. kf e = k) (g_buf g)"
proof -
  let ?s = "take (g_sorted g) (g_buf g)" and ?u = "drop (g_sorted g) (g_buf g)"
  have asc: "ascending (map kf ?s)" and d: "distinct (map kf (g_buf g))"
    and le: "g_sorted g \<le> length (g_buf g)"
    using g by (auto simp: guard_ok_def)
  have split: "position (\<lambda>e. kf e = k) (g_buf g) =
      (case position (\<lambda>e. kf e = k) ?s of Some i \<Rightarrow> Some i
       | None \<Rightarrow> map_option (\<lambda>i. g_sorted g + i) (position (\<lambda>e. kf e = k) ?u))"
    using position_append [of "\<lambda>e. kf e = k" ?s ?u] le by (simp split: option.splits)
  show ?thesis
  proof (cases "binary_search kf ?s k")
    case (Inr i)
    with binary_search_Inr [OF asc Inr] le have "i < length (g_buf g)" "kf (g_buf g ! i) = k" by auto
    with position_unique [OF d] Inr show ?thesis by (auto simp: get_idx_def get_impl_def)
  next
    case (Inl v)
    note n = binary_search_Inl [OF asc Inl]
    then have "position (\<lambda>e. kf e = k) ?s = None" by (auto simp: position_None)
    moreover have "position (\<lambda>e. kf e = k) ?u = None" if "v < g_sorted g"
    proof -
      from that le have "v \<noteq> length ?s" by simp
      with n(2) f show ?thesis by (auto simp: position_None findable_def)
    qed
    moreover have "(\<lambda>i. i + g_sorted g) = (+) (g_sorted g)" by (auto simp: add.commute)
    ultimately show ?thesis using Inl split by (auto simp: get_idx_def get_impl_def)
  qed
qed

lemma fm_map_position: "fm_map kf xs k = map_option (\<lambda>i. xs ! i) (position (\<lambda>e. kf e = k) xs)"
  unfolding fm_map_def by (induction xs) (auto simp: option.map_comp comp_def)

lemma guard_ok_edit [wf_intros]: "fm_ok kf fm \<Longrightarrow> guard_ok kf (fm_edit fm)"
  by (simp add: guard_ok_def fm_edit_def fm_ok_def ascending_iff)

lemma guard_drop_ok: "guard_ok kf g \<Longrightarrow> fm_ok kf (guard_drop kf g)"
  by (auto simp: guard_ok_def guard_drop_def fm_ok_def ascending_iff distinct_map)

lemma guard_drop_map: "fm_map kf (guard_drop kf g) k = fm_map kf (g_buf g) k"
  by (simp add: guard_drop_def fm_map_sort)

lemma sorted_last_key: "sorted (map kf xs) \<Longrightarrow> x \<in> set xs \<Longrightarrow> kf x \<le> kf (last xs)"
  by (induction xs) auto

lemma guard_push_ok:
  assumes "guard_ok kf g" and "kf e \<notin> kf ` set (g_buf g)"
  shows "guard_ok kf (snd (guard_push kf e g))"
proof (cases "g_sorted g = length (g_buf g) \<and> (g_buf g = [] \<or> kf (last (g_buf g)) < kf e)")
  case True
  have "\<forall>x \<in> set (g_buf g). kf x < kf e"
  proof (cases "g_buf g = []")
    case False
    have "\<forall>x \<in> set (g_buf g). kf x \<le> kf (last (g_buf g))"
      using assms(1) True by (auto simp: guard_ok_def ascending_iff intro: sorted_last_key)
    with True False show ?thesis by auto
  qed simp
  with True assms show ?thesis
    by (auto simp: guard_ok_def guard_push_def Let_def sorted_wrt_append)
next
  case False
  with assms show ?thesis by (auto simp: guard_ok_def guard_push_def Let_def)
qed

lemma fm_map_update:
  assumes "distinct (map kf xs)" and "position (\<lambda>e. kf e = kf x) xs = Some i"
  shows "fm_map kf (xs[i := x]) k = (if k = kf x then Some x else fm_map kf xs k)"
  using assms
proof (induction xs arbitrary: i)
  case (Cons y ys)
  then show ?case by (cases i) (auto simp: fm_map_Cons split: if_splits)
qed simp

lemma keys_update: "position (\<lambda>e. kf e = kf x) xs = Some i \<Longrightarrow> map kf (xs[i := x]) = map kf xs"
  using position_Some_nth [of "\<lambda>e. kf e = kf x" xs i] position_Some_less [of "\<lambda>e. kf e = kf x" xs i]
  by (metis list_update_id map_update)

text \<open>Inserting a findable key is a map update; the tail grows by at most that key.\<close>

lemma guard_insert_spec:
  assumes g: "guard_ok kf g" and f: "findable kf g (kf e)"
  defines "g' \<equiv> snd (guard_insert kf e g)"
  shows "guard_ok kf g'"
    and "fm_map kf (g_buf g') k = (if k = kf e then Some e else fm_map kf (g_buf g) k)"
    and "fst (guard_insert kf e g) = fm_map kf (g_buf g) (kf e)"
    and "kf ` set (drop (g_sorted g') (g_buf g')) \<subseteq> insert (kf e) (kf ` set (drop (g_sorted g) (g_buf g)))"
proof -
  note idx = get_idx_position [OF g f]
  have le: "g_sorted g \<le> length (g_buf g)" and d: "distinct (map kf (g_buf g))"
    using g by (auto simp: guard_ok_def)
  show fst: "fst (guard_insert kf e g) = fm_map kf (g_buf g) (kf e)"
    by (simp add: guard_insert_def idx fm_map_position split: option.splits)
  have "guard_ok kf g' \<and> fm_map kf (g_buf g') k = (if k = kf e then Some e else fm_map kf (g_buf g) k) \<and>
      kf ` set (drop (g_sorted g') (g_buf g')) \<subseteq> insert (kf e) (kf ` set (drop (g_sorted g) (g_buf g)))"
  proof (cases "position (\<lambda>x. kf x = kf e) (g_buf g)")
    case (Some i)
    then have g': "g' = g\<lparr>g_buf := (g_buf g)[i := e]\<rparr>" by (simp add: g'_def guard_insert_def idx)
    have keys: "map kf ((g_buf g)[i := e]) = map kf (g_buf g)" using Some by (rule keys_update)
    then have "kf ` set (drop (g_sorted g) ((g_buf g)[i := e])) = kf ` set (drop (g_sorted g) (g_buf g))"
      by (metis drop_map list.set_map)
    moreover have "map kf (take (g_sorted g) ((g_buf g)[i := e])) = map kf (take (g_sorted g) (g_buf g))"
      using keys by (metis take_map)
    ultimately show ?thesis
      using g keys fm_map_update [OF d Some] by (auto simp: g' guard_ok_def)
  next
    case None
    then have g': "g' = snd (guard_push kf e g)" by (simp add: g'_def guard_insert_def idx)
    have e: "kf e \<notin> kf ` set (g_buf g)" using None by (auto simp: position_None)
    then have "fm_map kf (g_buf g) (kf e) = None" by (simp only: fm_map_None not_False_eq_True)
    with guard_push_ok [OF g e] le show ?thesis
      by (auto simp: g' guard_push_def Let_def fm_map_append fm_map_Cons split: option.splits)
  qed
  then show "guard_ok kf g'" "fm_map kf (g_buf g') k = (if k = kf e then Some e else fm_map kf (g_buf g) k)"
    "kf ` set (drop (g_sorted g') (g_buf g')) \<subseteq> insert (kf e) (kf ` set (drop (g_sorted g) (g_buf g)))"
    by auto
qed

lemma findable_edit: "findable kf (fm_edit fm) k"
  by (simp add: findable_def fm_edit_def)

text \<open>A whole session of insertions, and the same through one-element sessions.\<close>

definition guard_inserts :: "('e \<Rightarrow> 'k::linorder) \<Rightarrow> 'e list \<Rightarrow> 'e guard \<Rightarrow> 'e guard" where
  "guard_inserts kf es g = fold (\<lambda>e g. snd (guard_insert kf e g)) es g"

definition fm_insert :: "('e \<Rightarrow> 'k::linorder) \<Rightarrow> 'e \<Rightarrow> 'e list \<Rightarrow> 'e list" where
  "fm_insert kf e fm = guard_drop kf (snd (guard_insert kf e (fm_edit fm)))"

lemma disjoint_insert_mono: "T' \<subseteq> insert a T \<Longrightarrow> a \<notin> S \<Longrightarrow> S \<inter> T = {} \<Longrightarrow> S \<inter> T' = {}"
  by blast

lemma guard_inserts_spec:
  assumes "guard_ok kf g" and "distinct (map kf es)"
    and "kf ` set es \<inter> kf ` set (drop (g_sorted g) (g_buf g)) = {}"
  shows "guard_ok kf (guard_inserts kf es g) \<and>
    fm_map kf (g_buf (guard_inserts kf es g)) k =
      (case fm_map kf es k of Some e \<Rightarrow> Some e | None \<Rightarrow> fm_map kf (g_buf g) k)"
  using assms
proof (induction es arbitrary: g)
  case (Cons e es)
  have f: "findable kf g (kf e)" using Cons.prems(3) by (auto simp: findable_def)
  note s = guard_insert_spec [OF Cons.prems(1) f]
  have "kf ` set es \<inter> kf ` set (drop (g_sorted (snd (guard_insert kf e g))) (g_buf (snd (guard_insert kf e g)))) = {}"
    using Cons.prems(2,3) by (intro disjoint_insert_mono [OF s(4)]) auto
  from Cons.IH [OF s(1) _ this] Cons.prems(2)
  have IH: "guard_ok kf (guard_inserts kf (e # es) g)"
    "fm_map kf (g_buf (guard_inserts kf (e # es) g)) k = (case fm_map kf es k of Some e \<Rightarrow> Some e
       | None \<Rightarrow> fm_map kf (g_buf (snd (guard_insert kf e g))) k)"
    by (simp_all add: guard_inserts_def)
  have "fm_map kf es (kf e) = None"
    using Cons.prems(2) by (subst fm_map_None) simp
  with IH s(2) [of k] show ?case by (cases "k = kf e") (simp_all add: fm_map_Cons split: option.splits)
qed (simp add: guard_inserts_def)

text \<open>Removal in a fresh session.\<close>

definition fm_remove :: "('e \<Rightarrow> 'k::linorder) \<Rightarrow> 'k \<Rightarrow> 'e list \<Rightarrow> ('e option \<times> 'e list) option" where
  "fm_remove kf k fm =
     map_option (\<lambda>(r, g). (r, guard_drop kf g)) (guard_remove kf k (fm_edit fm))"

lemma take_update_last_set:
  assumes "i < length xs"
  shows "mset (take (length xs - 1) (xs[i := xs ! (length xs - 1)])) = mset xs - {#xs ! i#}"
proof -
  let ?n = "length xs - 1"
  have n: "xs = take ?n xs @ [xs ! ?n]" using assms by (metis One_nat_def Suc_pred append_take_drop_id
      Cons_nth_drop_Suc diff_less drop_all le_refl length_greater_0_conv lessI list.size(3) not_less_zero)
  show ?thesis
  proof (cases "i = ?n")
    case True
    then have "take ?n (xs[i := xs ! ?n]) = take ?n xs" by simp
    moreover have "mset xs = mset (take ?n xs) + {#xs ! i#}" using n True by (metis mset.simps mset_append)
    ultimately show ?thesis by simp
  next
    case False
    with assms have i: "i < length (take ?n xs)" by simp
    have "take ?n (xs[i := xs ! ?n]) = (take ?n xs)[i := xs ! ?n]" by (simp add: take_update_swap)
    then have "mset (take ?n (xs[i := xs ! ?n])) = add_mset (xs ! ?n) (mset (take ?n xs) - {#take ?n xs ! i#})"
      using i by (simp only: mset_update)
    also have "take ?n xs ! i = xs ! i" using i by simp
    also have "add_mset (xs ! ?n) (mset (take ?n xs) - {#xs ! i#}) = mset xs - {#xs ! i#}"
    proof -
      have "xs ! i \<in># mset (take ?n xs)" using i by (metis nth_mem nth_take set_mset_mset length_take min_less_iff_conj)
      then show ?thesis by (subst (3) n) simp
    qed
    finally show ?thesis .
  qed
qed

lemma guard_remove_edit:
  assumes "fm_ok kf fm"
  shows "\<exists>r fm'. fm_remove kf k fm = Some (r, fm') \<and> fm_ok kf fm' \<and> r = fm_map kf fm k \<and>
    fm_map kf fm' k' = (if k' = k then None else fm_map kf fm k')"
proof (cases "position (\<lambda>e. kf e = k) fm")
  case None
  then have n: "fm_map kf fm k = None" by (simp add: fm_map_position)
  have "get_idx kf (fm_edit fm) k = None"
    using None get_idx_position [OF guard_ok_edit [OF assms] findable_edit]
    by (simp add: fm_edit_def)
  then have "fm_remove kf k fm = Some (None, fm)"
    by (simp add: fm_remove_def guard_remove_def guard_drop_def fm_edit_def)
  with n assms show ?thesis by auto
next
  case (Some i)
  have d: "distinct (map kf fm)" using assms by (rule fm_ok_distinct)
  have i: "i < length fm" "kf (fm ! i) = k" using Some position_Some_less position_Some_nth by fastforce+
  let ?buf = "take (length fm - 1) (fm[i := fm ! (length fm - 1)])"
  let ?g = "\<lparr>g_buf = ?buf, g_sorted = i\<rparr>"
  have "get_idx kf (fm_edit fm) k = Some i"
    using Some get_idx_position [OF guard_ok_edit [OF assms] findable_edit]
    by (simp add: fm_edit_def)
  with i have rem: "fm_remove kf k fm = Some (Some (fm ! i), guard_drop kf ?g)"
    by (simp add: fm_remove_def guard_remove_def fm_edit_def)
  have ms: "mset ?buf = mset fm - {#fm ! i#}" using i(1) by (rule take_update_last_set)
  then have "mset (map kf ?buf) = mset (map kf fm) - {#k#}"
    using i by (simp add: image_mset_Diff)
  then have dist: "distinct (map kf ?buf)" and keys: "set (map kf ?buf) = set (map kf fm) - {k}"
    using d by (metis distinct_remove1 mset_eq_imp_distinct_iff mset_remove1,
        metis d mset_remove1 set_mset_mset set_remove1_eq)
  have set: "set ?buf = set fm - {fm ! i}"
  proof -
    have "distinct fm" using d by (simp add: distinct_map)
    then show ?thesis using ms by (metis mset_remove1 set_mset_mset set_remove1_eq)
  qed
  have asc: "ascending (map kf (take i ?buf))"
    using assms i(1) by (simp add: fm_ok_def take_map [symmetric] sorted_wrt_take)
  have gok: "guard_ok kf ?g" using dist asc i(1) by (auto simp: guard_ok_def)
  have lk: "fm_map kf (guard_drop kf ?g) k' = (if k' = k then None else fm_map kf fm k')"
  proof (cases "k' = k")
    case True
    have "fm_map kf ?buf k = None" using keys by (subst fm_map_None) auto
    with True show ?thesis by (simp add: guard_drop_map)
  next
    case False
    have "fm_map kf ?buf k' = Some e \<longleftrightarrow> fm_map kf fm k' = Some e" for e
      unfolding fm_map_Some [OF dist] fm_map_Some [OF d] set using False i(2) by auto
    then have "fm_map kf ?buf k' = fm_map kf fm k'" by (metis not_None_eq)
    with False show ?thesis by (simp add: guard_drop_map)
  qed
  show ?thesis
    by (intro exI conjI, rule rem, rule guard_drop_ok [OF gok], rule fm_map_nth [OF d i, symmetric], rule lk)
qed

section \<open>The interface of an ordered map\<close>

text \<open>What the clients of a map rely on: the laws of lookup after insertion and deletion, and
  canonicity (equal lookups, equal representation), which makes the derived comparison of maps a
  comparison of their contents.\<close>

locale keyed_map =
  fixes inv :: "'m \<Rightarrow> bool" and lookup :: "'m \<Rightarrow> 'k \<Rightarrow> 'e option" and emp :: 'm
    and ins :: "'e \<Rightarrow> 'm \<Rightarrow> 'm" and del :: "'k \<Rightarrow> 'm \<Rightarrow> 'm" and key :: "'e \<Rightarrow> 'k"
  assumes inv_emp: "inv emp"
    and lookup_emp: "lookup emp k = None"
    and inv_ins: "inv m \<Longrightarrow> inv (ins e m)"
    and lookup_ins: "inv m \<Longrightarrow> lookup (ins e m) k = (if k = key e then Some e else lookup m k)"
    and inv_del: "inv m \<Longrightarrow> inv (del k m)"
    and lookup_del: "inv m \<Longrightarrow> lookup (del k' m) k = (if k = k' then None else lookup m k)"
    and canonical: "inv a \<Longrightarrow> inv b \<Longrightarrow> (\<And>k. lookup a k = lookup b k) \<Longrightarrow> a = b"
begin

lemma ins_commute: "inv m \<Longrightarrow> key a \<noteq> key b \<Longrightarrow> ins a (ins b m) = ins b (ins a m)"
  by (rule canonical) (auto simp: inv_ins lookup_ins)

lemma ins_overwrite: "inv m \<Longrightarrow> key a = key b \<Longrightarrow> ins a (ins b m) = ins a m"
  by (rule canonical) (auto simp: inv_ins lookup_ins)

lemma del_ins: "inv m \<Longrightarrow> lookup m (key e) = None \<Longrightarrow> del (key e) (ins e m) = m"
  by (rule canonical) (auto simp: inv_ins inv_del lookup_ins lookup_del)

lemma inv_inserts: "inv m \<Longrightarrow> inv (fold ins es m)"
  by (induction es arbitrary: m) (simp_all add: inv_ins)

lemma lookup_inserts:
  "inv m \<Longrightarrow> lookup (fold ins es m) k =
     (case find (\<lambda>e. key e = k) (rev es) of Some e \<Rightarrow> Some e | None \<Rightarrow> lookup m k)"
proof (induction es rule: rev_induct)
  case (snoc e es)
  then show ?case using inv_inserts [OF snoc.prems, of es] by (simp add: lookup_ins)
qed simp

end

definition fm_delete :: "('e \<Rightarrow> 'k::linorder) \<Rightarrow> 'k \<Rightarrow> 'e list \<Rightarrow> 'e list" where
  "fm_delete kf k fm = snd (the (fm_remove kf k fm))"

lemma fm_insert_spec:
  assumes "fm_ok kf fm"
  shows "fm_ok kf (fm_insert kf e fm)"
    and "fm_map kf (fm_insert kf e fm) k = (if k = kf e then Some e else fm_map kf fm k)"
  using guard_insert_spec [OF guard_ok_edit [OF assms] findable_edit]
  by (simp_all add: fm_insert_def guard_drop_ok guard_drop_map fm_edit_def)

lemma fm_delete_spec:
  assumes "fm_ok kf fm"
  shows "fm_ok kf (fm_delete kf k fm)"
    and "fm_map kf (fm_delete kf k fm) k' = (if k' = k then None else fm_map kf fm k')"
  using guard_remove_edit [OF assms, of k k'] by (auto simp: fm_delete_def)

interpretation fm: keyed_map "fm_ok kf" "fm_get kf" fm_new "fm_insert kf" "fm_delete kf" kf
  for kf :: "'e \<Rightarrow> 'k::linorder"
proof unfold_locales
  show "a = b" if "fm_ok kf a" "fm_ok kf b" "\<And>k. fm_get kf a k = fm_get kf b k" for a b :: "'e list"
    using that by (intro fm_map_eqI [of kf]) (auto simp: fm_get_map)
qed (simp_all add: fm_get_map fm_insert_spec fm_delete_spec, simp_all add: fm_ok_def fm_new_def fm_get_def
  get_impl_def binary_search_def bsearch.simps)

text \<open>One session that inserts elements with distinct keys is that many one-element sessions.\<close>

lemma session_inserts:
  assumes "fm_ok kf fm" and "distinct (map kf es)"
  shows "guard_drop kf (guard_inserts kf es (fm_edit fm)) = fold (fm_insert kf) es fm"
proof (rule fm_map_eqI)
  have s: "guard_ok kf (guard_inserts kf es (fm_edit fm))"
    "\<And>k. fm_map kf (g_buf (guard_inserts kf es (fm_edit fm))) k =
      (case fm_map kf es k of Some e \<Rightarrow> Some e | None \<Rightarrow> fm_map kf fm k)"
    using guard_inserts_spec [OF guard_ok_edit [OF assms(1)] assms(2)]
    by (simp_all add: fm_edit_def split: option.splits)
  show "fm_ok kf (guard_drop kf (guard_inserts kf es (fm_edit fm)))" using s(1) by (rule guard_drop_ok)
  show ok: "fm_ok kf (fold (fm_insert kf) es fm)" using assms(1) by (rule fm.inv_inserts)
  have r: "fm_map kf (rev es) k = fm_map kf es k" for k
    using assms(2) by (intro fm_map_set_eq) (auto simp: rev_map [symmetric])
  have "fm_get kf (fold (fm_insert kf) es fm) k =
      (case fm_map kf (rev es) k of Some e \<Rightarrow> Some e | None \<Rightarrow> fm_get kf fm k)" for k
    using fm.lookup_inserts [OF assms(1), of es k] by (simp add: fm_map_def)
  then show "fm_map kf (guard_drop kf (guard_inserts kf es (fm_edit fm))) =
      fm_map kf (fold (fm_insert kf) es fm)"
    by (intro ext) (simp add: guard_drop_map s(2) r fm_get_map [OF ok] fm_get_map [OF assms(1)] split: option.splits)
qed

section \<open>Properties\<close>

text \<open>A map built from a vector is strictly sorted, and looking up a key gives the last element of
  the vector with that key: sorting, in-place deduplication and binary search together implement a
  finite map.\<close>

lemma from_vec_lookup:
  "fm_ok kf (fm_from_vec kf v) \<and> fm_get kf (fm_from_vec kf v) k = find (\<lambda>e. kf e = k) (rev v)"
proof -
  have "fm_get kf (fm_from_vec kf v) k = fm_map kf (rev v) k"
    using fm_get_map [OF fm_from_vec_ok, of kf v k] by (simp add: fm_from_vec_map)
  then show ?thesis by (simp add: fm_from_vec_ok fm_map_def)
qed

text \<open>C7: In a session on a well-formed map, inserting elements with pairwise distinct keys and dropping
  the guard is inserting them one by one, and every lookup sees the update.\<close>

theorem edit_session_refines_map:
  assumes "fm_ok kf fm" and "distinct (map kf es)"
  shows "fm_ok kf (guard_drop kf (guard_inserts kf es (fm_edit fm))) \<and>
    fm_get kf (guard_drop kf (guard_inserts kf es (fm_edit fm))) k =
      (case find (\<lambda>e. kf e = k) es of Some e \<Rightarrow> Some e | None \<Rightarrow> fm_get kf fm k)"
proof -
  have ok: "fm_ok kf (fold (fm_insert kf) es fm)" using assms(1) by (rule fm.inv_inserts)
  have "fm_map kf (rev es) k = fm_map kf es k"
    using assms(2) by (intro fm_map_set_eq) (auto simp: rev_map [symmetric])
  with ok fm.lookup_inserts [OF assms(1), of es k] show ?thesis
    by (simp add: session_inserts [OF assms] fm_map_def)
qed

theorem edit_session_refines_map_witness:
  "fm_get fst (guard_drop fst (guard_inserts fst [(3::nat, ''c''), (1, ''a'')] (fm_edit [(2, ''b'')]))) 1 =
   Some (1, ''a'')"
  using edit_session_refines_map [of fst "[(2::nat, ''b'')]" "[(3, ''c''), (1, ''a'')]" 1]
  by (simp add: fm_ok_def)

text \<open>Removing a key from a well-formed map in a fresh session never panics, returns the element that
  was there and leaves a well-formed map without the key and with every other key unchanged.\<close>

lemma remove_refines_map:
  assumes "fm_ok kf fm"
  shows "\<exists>r fm'. fm_remove kf k fm = Some (r, fm') \<and> fm_ok kf fm' \<and> r = fm_get kf fm k \<and>
    fm_get kf fm' k' = (if k' = k then None else fm_get kf fm k')"
proof -
  obtain r fm' where "fm_remove kf k fm = Some (r, fm')" and ok: "fm_ok kf fm'" and "r = fm_map kf fm k"
    "fm_map kf fm' k' = (if k' = k then None else fm_map kf fm k')"
    using guard_remove_edit [OF assms, of k k'] by blast
  then show ?thesis by (simp add: fm_get_map [OF assms] fm_get_map [OF ok])
qed

text \<open>A second removal in the same session can panic: after the first one the vector length is the
  index of the removed element, and an element behind it is found but lies outside the vector.\<close>

lemma second_remove_panics:
  "\<exists>g r. guard_remove fst 1 (fm_edit [(1::nat, ''a''), (2, ''b'')]) = Some (r, g) \<and>
     guard_get fst g 2 = Some (2, ''b'') \<and> guard_remove fst 2 g = None"
  by (simp add: guard_remove_def guard_get_def get_idx_def get_impl_def binary_search_def bsearch.simps fm_edit_def)

end
