(* ===== verification/Tags.thy ===== *)
theory Tags
  imports Flatmap Args
begin

text \<open>
  Message tags, \<open>ircmsg/tags.rs\<close>: an ordered map from keys to values on \<open>FlatMap\<close>, its printed form
  and the parser.  The parser's loop does not end on every input, so it is a partial function:
  \<open>None\<close> is a loop that runs forever.
\<close>

type_synonym tag = "bytes \<times> bytes"
type_synonym tags = "tag list"

section \<open>The map\<close>

definition tags_new :: tags where
  "tags_new = fm_new"

definition tags_is_empty :: "tags \<Rightarrow> bool" where
  "tags_is_empty t \<longleftrightarrow> t = []"

text \<open>A lookup with something that is no key finds nothing.\<close>

definition tags_get :: "bytes \<Rightarrow> tags \<Rightarrow> bytes option" where
  "tags_get k t = (case from_bytes Key k of Inl _ \<Rightarrow> None | Inr k' \<Rightarrow> map_option snd (fm_get fst t k'))"

definition tags_edit :: "tags \<Rightarrow> tag guard" where
  "tags_edit t = fm_edit t"

definition tags_guard_get :: "bytes \<Rightarrow> tag guard \<Rightarrow> bytes option" where
  "tags_guard_get k g = (case from_bytes Key k of Inl _ \<Rightarrow> None | Inr k' \<Rightarrow> map_option snd (guard_get fst g k'))"

definition insert_pair :: "bytes \<Rightarrow> bytes \<Rightarrow> tag guard \<Rightarrow> bytes option \<times> tag guard" where
  "insert_pair k v g = (let (old, g') = guard_insert fst (k, v) g in (map_option snd old, g'))"

definition insert_key :: "bytes \<Rightarrow> tag guard \<Rightarrow> bytes option \<times> tag guard" where
  "insert_key k g = insert_pair k [] g"

definition tags_remove :: "bytes \<Rightarrow> tag guard \<Rightarrow> (bytes option \<times> tag guard) option" where
  "tags_remove k g = map_option (\<lambda>(old, g'). (map_option snd old, g')) (guard_remove fst k g)"

definition tags_from_iter :: "tag list \<Rightarrow> tags" where
  "tags_from_iter kvs =
     guard_drop fst (fold (\<lambda>(k, v) g. snd (insert_pair k v g)) kvs (tags_edit tags_new))"

section \<open>Printing\<close>

text \<open>The loop of \<open>write_to\<close>, with its running prefix.\<close>

fun tags_write_loop :: "byte \<Rightarrow> tags \<Rightarrow> bytes" where
  "tags_write_loop prefix [] = []"
| "tags_write_loop prefix ((k, v) # t) =
     prefix # k @ (if v \<noteq> [] then CHR ''='' # escape v else []) @ tags_write_loop (CHR '';'') t"

definition tags_write :: "tags \<Rightarrow> bytes" where
  "tags_write t = tags_write_loop (CHR ''@'') t"

text \<open>\<open>Display\<close> has the same loop, but shows the strings.\<close>

fun tags_display_loop :: "byte \<Rightarrow> tags \<Rightarrow> bytes" where
  "tags_display_loop prefix [] = []"
| "tags_display_loop prefix ((k, v) # t) =
     (if v \<noteq> [] then prefix # show_bytes k @ CHR ''='' # show_bytes (escape v) else prefix # show_bytes k) @
     tags_display_loop (CHR '';'') t"

definition tags_display :: "tags \<Rightarrow> bytes" where
  "tags_display t = tags_display_loop (CHR ''@'') t"

section \<open>Parsing\<close>

partial_function (option) tags_loop :: "splitter \<Rightarrow> tag list \<Rightarrow> tag list option" where
  "tags_loop sp tags =
     (if sp_is_empty sp then Some tags
      else
        (case sp_string Key False sp of
           (Inl e, sp1) \<Rightarrow> tags_loop (consume_invalid Key sp1) tags
         | (Inr k, sp1) \<Rightarrow>
             (let (b, sp2) = next_byte sp1 in
              if b = Some (CHR ''='') then
                (let (value, sp3) = save_end (\<lambda>s. sp_rest NoNul (until_byte_eq (CHR '';'') s)) sp2;
                     (_, sp4) = next_byte sp3
                 in tags_loop sp4 (tags @ [(k, unescape (unwrap_or [] value))]))
              else tags_loop sp2 (tags @ [(k, [])]))))"

definition tags_parse :: "bytes \<Rightarrow> tags option" where
  "tags_parse word =
     (if word = [] then Some tags_new
      else map_option (fm_from_vec fst) (tags_loop (sp_new False word) []))"

section \<open>The parser on the remaining bytes\<close>

text \<open>One tag at the front of the slice: the key, what follows it, and the rest.\<close>

definition key_of :: "bytes \<Rightarrow> bytes" where
  "key_of s = takeWhile (\<lambda>b. \<not> is_invalid Key b) s"

definition after_key :: "bytes \<Rightarrow> bytes" where
  "after_key s = dropWhile (\<lambda>b. \<not> is_invalid Key b) s"

lemma slice_string_Key:
  "slice_string Key False s =
     (case arg_first_check (key_of s) of Some e \<Rightarrow> Inl e | None \<Rightarrow> Inr (key_of s))"
  by (simp add: slice_string_def key_of_def Let_def split: option.splits)

lemma sp_string_Key_Inr:
  assumes "wf_splitter sp" and "arg_first_check (key_of (as_slice sp)) = None"
  shows "\<exists>sp'. sp_string Key False sp = (Inr (key_of (as_slice sp)), sp') \<and> wf_splitter sp' \<and>
    as_slice sp' = after_key (as_slice sp)"
  using sp_string_wf [OF assms(1), of Key False] assms(2)
  by (auto simp: sp_string_advance slice_string_Key slice_simps after_key_def)
    (simp add: key_of_def drop_length_takeWhile)

lemma tags_loop_stop: "wf_splitter sp \<Longrightarrow> as_slice sp = [] \<Longrightarrow> tags_loop sp tags = Some tags"
  by (subst tags_loop.simps) (simp add: sp_is_empty_iff)

text \<open>The value part after an equals sign, up to the next semicolon, and what is left after it.\<close>

lemma tags_loop_value:
  assumes "wf_splitter sp" and "arg_first_check (key_of (as_slice sp)) = None"
    and "after_key (as_slice sp) = CHR ''='' # s"
  shows "\<exists>sp'. wf_splitter sp' \<and> as_slice sp' = tl (dropWhile (\<lambda>c. c \<noteq> CHR '';'') s) \<and>
    (\<forall>tags. tags_loop sp tags =
      tags_loop sp' (tags @ [(key_of (as_slice sp), unescape (takeWhile (\<lambda>c. c \<noteq> CHR '';'') s))]))"
proof -
  obtain sp1 where sp1: "sp_string Key False sp = (Inr (key_of (as_slice sp)), sp1)" "wf_splitter sp1"
    "as_slice sp1 = CHR ''='' # s"
    using sp_string_Key_Inr [OF assms(1,2)] assms(3) by auto
  have ne: "\<not> sp_is_empty sp"
    using assms(1,3) by (auto simp: sp_is_empty_iff after_key_def)
  let ?sp2 = "snd (next_byte sp1)"
  let ?res = "save_end (\<lambda>x. sp_rest NoNul (until_byte_eq (CHR '';'') x)) ?sp2"
  have sp2: "wf_splitter ?sp2" "as_slice ?sp2 = s" "fst (next_byte sp1) = Some (CHR ''='')"
    using sp1(2,3) by (simp_all add: next_byte_wf slice_simps)
  note r = save_end_rest [OF sp2(1) truncates_until_byte_eq [of "CHR '';''"], where U = NoNul]
  have res: "fst ?res = Inr (takeWhile (\<lambda>c. c \<noteq> CHR '';'') s)"
    "as_slice (snd ?res) = dropWhile (\<lambda>c. c \<noteq> CHR '';'') s" "wf_splitter (snd ?res)"
    using r by (simp_all add: until_byte_eq_slice sp2(2) slice_rest_def drop_length_takeWhile)
  have "tags_loop sp tags = tags_loop (snd (next_byte (snd ?res)))
      (tags @ [(key_of (as_slice sp), unescape (takeWhile (\<lambda>c. c \<noteq> CHR '';'') s))])" for tags
    using ne sp1(1) sp2(3) res(1) by (subst tags_loop.simps) (simp add: split_def Let_def)
  then show ?thesis
    using res(2,3) by (intro exI [of _ "snd (next_byte (snd ?res))"]) (simp add: next_byte_slice next_byte_wf)
qed

lemma tags_loop_bare:
  assumes "wf_splitter sp" and "as_slice sp \<noteq> []" and "arg_first_check (key_of (as_slice sp)) = None"
    and "after_key (as_slice sp) = [] \<or> hd (after_key (as_slice sp)) \<noteq> CHR ''=''"
  shows "\<exists>sp'. wf_splitter sp' \<and> as_slice sp' = tl (after_key (as_slice sp)) \<and>
    (\<forall>tags. tags_loop sp tags = tags_loop sp' (tags @ [(key_of (as_slice sp), [])]))"
proof -
  obtain sp1 where sp1: "sp_string Key False sp = (Inr (key_of (as_slice sp)), sp1)" "wf_splitter sp1"
    "as_slice sp1 = after_key (as_slice sp)"
    using sp_string_Key_Inr [OF assms(1,3)] by auto
  have "fst (next_byte sp1) \<noteq> Some (CHR ''='')"
    using sp1(3) assms(4) by (auto simp: next_byte_fst split: list.splits)
  then have "tags_loop sp tags = tags_loop (snd (next_byte sp1)) (tags @ [(key_of (as_slice sp), [])])" for tags
    using assms(1,2) sp1(1) by (subst tags_loop.simps) (simp add: split_def sp_is_empty_iff)
  then show ?thesis
    using sp1(2,3) by (intro exI [of _ "snd (next_byte sp1)"]) (simp add: next_byte_slice next_byte_wf)
qed

section \<open>Invariant\<close>

definition tags_ok :: "tags \<Rightarrow> bool" where
  "tags_ok t \<longleftrightarrow> fm_ok fst t \<and> (\<forall>(k, v) \<in> set t. valid Key k \<and> valid NoNul v)"

definition tag_list_ok :: "tag list \<Rightarrow> bool" where
  "tag_list_ok kvs \<longleftrightarrow> (\<forall>(k, v) \<in> set kvs. valid Key k \<and> valid NoNul v)"

lemma tag_list_ok_simps [simp]:
  "tag_list_ok []" "tag_list_ok (xs @ ys) \<longleftrightarrow> tag_list_ok xs \<and> tag_list_ok ys"
  "tag_list_ok ((k, v) # xs) \<longleftrightarrow> valid Key k \<and> valid NoNul v \<and> tag_list_ok xs"
  by (auto simp: tag_list_ok_def)

lemma key_of_valid: "arg_first_check (key_of s) = None \<Longrightarrow> valid Key (key_of s)"
  by (auto simp: valid_iff key_of_def dest: set_takeWhileD)

lemma set_after_key: "set (after_key s) \<subseteq> set s"
  by (auto simp: after_key_def dest: set_dropWhileD)

text \<open>The four ways a turn of the loop can go, on a slice of a \<open>Word\<close>.\<close>

lemma after_key_Word:
  "valid Word s \<Longrightarrow> after_key s = [] \<or> hd (after_key s) \<in> {CHR ''='', CHR '';''}"
proof (cases "after_key s")
  case (Cons b r)
  then have "is_invalid Key b" "b \<in> set s"
    using hd_dropWhile_not [of "\<lambda>b. \<not> is_invalid Key b" s] set_after_key [of s]
    by (auto simp: after_key_def)
  moreover assume "valid Word s"
  ultimately show ?thesis using Cons by (auto simp: valid_Word_iff invalid_defs)
qed simp

lemma tags_loop_cases:
  assumes "wf_splitter sp" and "valid Word (as_slice sp)"
  obtains (stop) "as_slice sp = []" "\<And>tags. tags_loop sp tags = Some tags"
  | (skip) sp' where "wf_splitter sp'" "as_slice sp' = dropWhile (is_invalid Key) (as_slice sp)"
      "arg_first_check (key_of (as_slice sp)) \<noteq> None" "as_slice sp \<noteq> []"
      "\<And>tags. tags_loop sp tags = tags_loop sp' tags"
  | (val) sp' s where "wf_splitter sp'" "as_slice sp' = tl (dropWhile (\<lambda>c. c \<noteq> CHR '';'') s)"
      "after_key (as_slice sp) = CHR ''='' # s" "valid Key (key_of (as_slice sp))"
      "\<And>tags. tags_loop sp tags =
        tags_loop sp' (tags @ [(key_of (as_slice sp), unescape (takeWhile (\<lambda>c. c \<noteq> CHR '';'') s))])"
  | (bare) sp' where "wf_splitter sp'" "as_slice sp' = tl (after_key (as_slice sp))"
      "after_key (as_slice sp) = [] \<or> hd (after_key (as_slice sp)) = CHR '';''"
      "valid Key (key_of (as_slice sp))"
      "\<And>tags. tags_loop sp tags = tags_loop sp' (tags @ [(key_of (as_slice sp), [])])"
proof (cases "as_slice sp = []")
  case True
  then show ?thesis using stop tags_loop_stop [OF assms(1)] by blast
next
  case ne: False
  show ?thesis
  proof (cases "arg_first_check (key_of (as_slice sp))")
    case (Some e)
    let ?sp' = "consume_invalid Key sp"
    have "tags_loop sp tags = tags_loop ?sp' tags" for tags
      using Some ne assms(1)
      by (simp add: tags_loop.simps [of sp] sp_is_empty_iff sp_string_advance slice_string_Key advance_0)
    with Some ne assms(1) show ?thesis by (intro skip [of ?sp']) (auto simp: slice_simps intro: wf_intros)
  next
    case None
    note k = key_of_valid [OF None]
    show ?thesis
    proof (cases "after_key (as_slice sp) \<noteq> [] \<and> hd (after_key (as_slice sp)) = CHR ''=''")
      case True
      then obtain s where s: "after_key (as_slice sp) = CHR ''='' # s" by (cases "after_key (as_slice sp)") auto
      from tags_loop_value [OF assms(1) None s] obtain sp' where "wf_splitter sp'"
        "as_slice sp' = tl (dropWhile (\<lambda>c. c \<noteq> CHR '';'') s)" and
        eq: "\<forall>tags. tags_loop sp tags =
          tags_loop sp' (tags @ [(key_of (as_slice sp), unescape (takeWhile (\<lambda>c. c \<noteq> CHR '';'') s))])"
        by blast
      then show ?thesis using val [OF _ _ s k] by blast
    next
      case False
      with after_key_Word [OF assms(2)] have *: "after_key (as_slice sp) = [] \<or> hd (after_key (as_slice sp)) = CHR '';''"
        by auto
      from tags_loop_bare [OF assms(1) ne None] False obtain sp' where "wf_splitter sp'"
        "as_slice sp' = tl (after_key (as_slice sp))" and
        "\<forall>tags. tags_loop sp tags = tags_loop sp' (tags @ [(key_of (as_slice sp), [])])"
        by blast
      then show ?thesis using bare [OF _ _ * k] by blast
    qed
  qed
qed

section \<open>When the loop ends\<close>

text \<open>A key that starts with a colon is refused without being consumed.\<close>

lemma colon_first: "arg_first_check (key_of (CHR '':'' # s)) = Some Colon"
  by (simp add: key_of_def arg_first_check_def invalid_defs)

lemma colon_not_consumed: "as_slice sp = CHR '':'' # s \<Longrightarrow> as_slice (consume_invalid Key sp) = CHR '':'' # s"
  by (simp add: consume_invalid_slice invalid_defs)

lemma tags_loop_diverges:
  assumes "wf_splitter sp" and "as_slice sp = CHR '':'' # s"
  shows "tags_loop sp tags = None"
proof -
  have "False" if "tags_loop sp tags = Some r" for r
    using that assms
  proof (induction sp tags r arbitrary: s rule: tags_loop.raw_induct [rotated, consumes 1, case_names turn])
    case (turn f sp tags r)
    then have "f (consume_invalid Key sp) tags = Some r"
      by (simp add: sp_is_empty_iff sp_string_advance slice_string_Key colon_first advance_0)
    with turn show ?case using consume_invalid_wf colon_not_consumed by blast
  qed
  then show ?thesis by (metis not_None_eq)
qed

text \<open>Every other turn consumes at least one byte.\<close>

lemma length_after_key:
  "arg_first_check (key_of s) = None \<Longrightarrow> length (after_key s) < length s"
proof -
  assume "arg_first_check (key_of s) = None"
  then have "key_of s \<noteq> []" by (auto simp: arg_first_check_None)
  moreover have "length s = length (key_of s) + length (after_key s)"
    by (metis after_key_def key_of_def length_append takeWhile_dropWhile_id)
  ultimately show ?thesis by simp
qed

lemma length_skip:
  assumes "arg_first_check (key_of s) \<noteq> None" and "s \<noteq> []" and "hd s \<noteq> CHR '':''"
  shows "length (dropWhile (is_invalid Key) s) < length s"
proof -
  obtain b r where s: "s = b # r" using assms(2) by (cases s) auto
  then have "is_invalid Key b"
    using assms(1,3) by (auto simp: key_of_def arg_first_check_def split: if_splits)
  then show ?thesis using length_dropWhile_le [of "is_invalid Key" r] by (simp add: s)
qed

lemma valid_Word_subset: "valid Word s \<Longrightarrow> set r \<subseteq> set s \<Longrightarrow> valid Word r"
  by (auto simp: valid_iff)

text \<open>Induction over the turns of a loop on a \<open>Word\<close>; the case of a key that starts with a colon is
  the only one left.\<close>

lemma tags_loop_induct [consumes 2, case_names stop colon skip tag]:
  assumes "wf_splitter sp" and "valid Word (as_slice sp)"
    and stop: "\<And>sp. wf_splitter sp \<Longrightarrow> as_slice sp = [] \<Longrightarrow> (\<And>tags. tags_loop sp tags = Some tags) \<Longrightarrow> P sp"
    and colon: "\<And>sp s. wf_splitter sp \<Longrightarrow> as_slice sp = CHR '':'' # s \<Longrightarrow> P sp"
    and skip: "\<And>sp sp'. wf_splitter sp \<Longrightarrow> as_slice sp' = dropWhile (is_invalid Key) (as_slice sp) \<Longrightarrow>
      (\<And>tags. tags_loop sp tags = tags_loop sp' tags) \<Longrightarrow> P sp' \<Longrightarrow> P sp"
    and tag: "\<And>sp sp' s v. wf_splitter sp \<Longrightarrow> valid Word (as_slice sp) \<Longrightarrow> valid Key (key_of (as_slice sp)) \<Longrightarrow>
      after_key (as_slice sp) = CHR ''='' # s \<and> as_slice sp' = tl (dropWhile (\<lambda>c. c \<noteq> CHR '';'') s) \<and>
        v = unescape (takeWhile (\<lambda>c. c \<noteq> CHR '';'') s) \<or>
      as_slice sp' = tl (after_key (as_slice sp)) \<and> v = [] \<and>
        (after_key (as_slice sp) = [] \<or> hd (after_key (as_slice sp)) = CHR '';'') \<Longrightarrow>
      (\<And>tags. tags_loop sp tags = tags_loop sp' (tags @ [(key_of (as_slice sp), v)])) \<Longrightarrow> P sp' \<Longrightarrow> P sp"
  shows "P sp"
  using assms(1,2)
proof (induction "length (as_slice sp)" arbitrary: sp rule: less_induct)
  case less
  have key: "arg_first_check (key_of (as_slice sp)) = None" if "valid Key (key_of (as_slice sp))"
    using that by (simp add: valid_iff)
  show ?case
  proof (cases rule: tags_loop_cases [OF less.prems, case_names stop skip val bare])
    case stop
    with less.prems assms(3) show ?thesis by blast
  next
    case (skip sp')
    show ?thesis
    proof (cases "hd (as_slice sp) = CHR '':''")
      case True
      with skip(4) have "as_slice sp = CHR '':'' # tl (as_slice sp)" by (cases "as_slice sp") auto
      then show ?thesis using colon less.prems(1) by blast
    next
      case False
      have "valid Word (as_slice sp')"
        using less.prems(2) by (rule valid_Word_subset) (auto simp: skip(2) dest: set_dropWhileD)
      moreover have "length (as_slice sp') < length (as_slice sp)"
        unfolding skip(2) using skip(3,4) False by (rule length_skip)
      ultimately have "P sp'" using less.hyps skip(1) by blast
      with assms(5) [OF less.prems(1) skip(2,5)] show ?thesis .
    qed
  next
    case (val sp' s)
    have sub: "set (as_slice sp') \<subseteq> set (after_key (as_slice sp))"
      unfolding val(2,3) by (auto dest: in_set_tl set_dropWhileD)
    then have "valid Word (as_slice sp')"
      using valid_Word_subset [OF less.prems(2)] set_after_key by blast
    moreover have "length (as_slice sp') \<le> length (after_key (as_slice sp))"
      using length_dropWhile_le [of "\<lambda>c. c \<noteq> CHR '';''" s] unfolding val(2,3) by simp
    ultimately have "P sp'" using less.hyps val(1) length_after_key [OF key [OF val(4)]] by fastforce
    with assms(6) [OF less.prems val(4) _ val(5)] val(2,3) show ?thesis by blast
  next
    case (bare sp')
    then have "valid Word (as_slice sp')"
      using valid_Word_subset [OF less.prems(2)] set_after_key [of "as_slice sp"] by (auto dest: in_set_tl)
    moreover have "length (as_slice sp') \<le> length (after_key (as_slice sp))" by (simp add: bare(2))
    ultimately have "P sp'" using less.hyps bare(1) length_after_key [OF key [OF bare(4)]] by fastforce
    with assms(6) [OF less.prems bare(4) _ bare(5)] bare(2,3) show ?thesis by blast
  qed
qed

text \<open>Where a key starts, a colon stops the parser.  A key starts at the beginning, after the end of a tag
  and after separators that have no key before them; what follows the first equals sign of a tag is
  its value.\<close>

datatype tag_pos = AtKey | InKey | InValue

fun colon_free :: "tag_pos \<Rightarrow> bytes \<Rightarrow> bool" where
  "colon_free p [] = True"
| "colon_free AtKey (b # s) \<longleftrightarrow>
     (if b = CHR '';'' \<or> b = CHR ''='' then colon_free AtKey s else b \<noteq> CHR '':'' \<and> colon_free InKey s)"
| "colon_free InKey (b # s) =
     colon_free (if b = CHR '';'' then AtKey else if b = CHR ''='' then InValue else InKey) s"
| "colon_free InValue (b # s) = colon_free (if b = CHR '';'' then AtKey else InValue) s"

lemma colon_free_value: "colon_free InValue s = colon_free AtKey (tl (dropWhile (\<lambda>c. c \<noteq> CHR '';'') s))"
  by (induction s) auto

lemma Word_is_invalid_Key: "valid Word s \<Longrightarrow> b \<in> set s \<Longrightarrow> is_invalid Key b \<longleftrightarrow> b = CHR '';'' \<or> b = CHR ''=''"
  by (auto simp: valid_Word_iff invalid_defs)

lemma colon_free_skip: "valid Word s \<Longrightarrow> colon_free AtKey (dropWhile (is_invalid Key) s) = colon_free AtKey s"
proof (induction s)
  case (Cons b s)
  then have "valid Word s" by (auto simp: valid_Word_iff)
  with Cons Word_is_invalid_Key [of "b # s" b] show ?case by auto
qed simp

lemma colon_free_InKey: "valid Word s \<Longrightarrow> colon_free InKey s = colon_free InKey (after_key s)"
proof (induction s)
  case (Cons b s)
  then have "valid Word s" by (auto simp: valid_Word_iff)
  with Cons Word_is_invalid_Key [of "b # s" b] show ?case by (auto simp: after_key_def)
qed (simp add: after_key_def)

lemma colon_free_key:
  assumes "valid Word s" and "valid Key (key_of s)"
  shows "colon_free AtKey s = colon_free InKey (after_key s)"
proof -
  have "key_of s \<noteq> []" and c: "hd (key_of s) \<noteq> CHR '':''" using assms(2) by (auto simp: valid_iff arg_first_check_None)
  then obtain b s' where s: "s = b # s'" and b: "\<not> is_invalid Key b" "b \<noteq> CHR '':''"
    by (cases s) (auto simp: key_of_def split: if_splits)
  have "valid Word s'" using assms(1) by (auto simp: s valid_Word_iff)
  with b Word_is_invalid_Key [OF assms(1), of b] colon_free_InKey [of s'] show ?thesis
    by (auto simp: s after_key_def)
qed

lemma tags_loop_returns:
  assumes "wf_splitter sp" and "valid Word (as_slice sp)"
  shows "(\<exists>r. tags_loop sp tags = Some r) \<longleftrightarrow> colon_free AtKey (as_slice sp)"
  using assms(1,2) assms(2)
proof (induction arbitrary: tags rule: tags_loop_induct)
  case (stop sp)
  then show ?case by simp
next
  case (colon sp s)
  then show ?case by (simp add: tags_loop_diverges)
next
  case (skip sp sp')
  have "valid Word (as_slice sp')"
    using skip.prems(1) by (rule valid_Word_subset) (auto simp: skip.hyps(2) dest: set_dropWhileD)
  with skip show ?case by (simp add: colon_free_skip)
next
  case (tag sp sp' s v)
  have "set (as_slice sp') \<subseteq> set (as_slice sp)"
    using tag.hyps(4) set_after_key [of "as_slice sp"] by (auto dest!: in_set_tl set_dropWhileD)
  then have "valid Word (as_slice sp')" by (rule valid_Word_subset [OF tag.prems(1)])
  moreover have "colon_free AtKey (as_slice sp') = colon_free AtKey (as_slice sp)"
    using tag.hyps(4) colon_free_key [OF tag.hyps(2,3)]
    by (cases "after_key (as_slice sp)") (auto simp: colon_free_value)
  ultimately show ?case using tag by simp
qed

lemma tags_loop_ok:
  assumes "wf_splitter sp" and "valid Word (as_slice sp)"
    and "tags_loop sp tags = Some r" and "tag_list_ok tags"
  shows "tag_list_ok r"
  using assms(1,2) assms(3,4)
proof (induction arbitrary: tags rule: tags_loop_induct)
  case (colon sp s)
  then show ?case by (simp add: tags_loop_diverges)
next
  case (tag sp sp' s v)
  have "valid NoNul v"
  proof (cases "v = []")
    case False
    then have v: "v = unescape (takeWhile (\<lambda>c. c \<noteq> CHR '';'') s)" and s: "after_key (as_slice sp) = CHR ''='' # s"
      using tag.hyps(4) by auto
    have "set (takeWhile (\<lambda>c. c \<noteq> CHR '';'') s) \<subseteq> set (as_slice sp)"
      using set_after_key [of "as_slice sp"] s by (auto dest: set_takeWhileD)
    then have "valid Word (takeWhile (\<lambda>c. c \<noteq> CHR '';'') s)" by (rule valid_Word_subset [OF tag.hyps(2)])
    then show ?thesis unfolding v by (intro unescape_NoNul) (auto dest: valid_subtypes)
  qed (simp add: valid_iff)
  with tag show ?case by auto
qed auto

lemma tags_ok_from_vec: "tag_list_ok r \<Longrightarrow> tags_ok (fm_from_vec fst r)"
  using set_fm_from_vec [of fst r] by (auto simp: tags_ok_def tag_list_ok_def fm_from_vec_ok)

lemma tags_parse_ok: "valid Word w \<Longrightarrow> tags_parse w = Some t \<Longrightarrow> tags_ok t"
  using tags_loop_ok [OF sp_new_wf, of False w "[]"]
  by (auto simp: tags_parse_def slice_simps tags_ok_from_vec split: if_splits)
    (simp add: tags_ok_def fm_ok_def tags_new_def fm_new_def)

section \<open>Printing and parsing\<close>

definition reparsed :: "tag \<Rightarrow> tag" where
  "reparsed kv = (fst kv, unescape (escape (snd kv)))"

definition tag_text :: "tag \<Rightarrow> bytes" where
  "tag_text kv = fst kv @ (if snd kv \<noteq> [] then CHR ''='' # escape (snd kv) else [])"

lemma tags_write_loop_Cons: "tags_write_loop c (kv # t) = c # tag_text kv @ tags_write_loop (CHR '';'') t"
  by (cases kv) (simp add: tag_text_def)

lemma tags_write_loop_hd: "tags_write_loop c t = [] \<or> hd (tags_write_loop c t) = c"
  by (cases t) (auto simp: tags_write_loop_Cons)

lemma key_of_prefix:
  "valid Key k \<Longrightarrow> rest = [] \<or> is_invalid Key (hd rest) \<Longrightarrow> key_of (k @ rest) = k \<and> after_key (k @ rest) = rest"
  using takeWhile_prefix [of k "\<lambda>b. \<not> is_invalid Key b" rest]
  by (auto simp: key_of_def after_key_def valid_iff)

lemma Key_separators: "is_invalid Key (CHR '';'')" "is_invalid Key (CHR ''='')"
  by (simp_all add: invalid_defs)

lemma tags_loop_one:
  assumes "wf_splitter sp" and k: "valid Key (fst kv)" and v: "valid NoNul (snd kv)"
    and s: "as_slice sp = tag_text kv @ tail" and tail: "tail = [] \<or> hd tail = CHR '';''"
  shows "\<exists>sp'. wf_splitter sp' \<and> as_slice sp' = tl tail \<and>
    (\<forall>acc. tags_loop sp acc = tags_loop sp' (acc @ [reparsed kv]))"
proof -
  have k': "arg_first_check (fst kv) = None" using k by (simp add: valid_iff)
  show ?thesis
  proof (cases "snd kv = []")
    case True
    then have sl: "as_slice sp = fst kv @ tail" using s by (simp add: tag_text_def)
    have ks: "key_of (as_slice sp) = fst kv" "after_key (as_slice sp) = tail"
      using key_of_prefix [OF k, of tail] tail Key_separators by (auto simp: sl)
    have r: "reparsed kv = (fst kv, [])" using True by (simp add: reparsed_def escape_eq unescape_eq)
    have "as_slice sp \<noteq> []" using k' by (auto simp: sl arg_first_check_None)
    moreover have "after_key (as_slice sp) = [] \<or> hd (after_key (as_slice sp)) \<noteq> CHR ''=''"
      using tail by (auto simp: ks(2))
    ultimately show ?thesis
      using tags_loop_bare [OF assms(1)] k' unfolding ks r by blast
  next
    case False
    let ?e = "escape (snd kv)"
    have sl: "as_slice sp = fst kv @ CHR ''='' # ?e @ tail" using s False by (simp add: tag_text_def)
    have ks: "key_of (as_slice sp) = fst kv" "after_key (as_slice sp) = CHR ''='' # ?e @ tail"
      using key_of_prefix [OF k, of "CHR ''='' # ?e @ tail"] Key_separators by (auto simp: sl)
    have e: "\<forall>x \<in> set ?e. x \<noteq> CHR '';''" using escape_valid [OF v] by auto
    have t: "tail = [] \<or> \<not> hd tail \<noteq> CHR '';''" using tail by simp
    note tw = takeWhile_prefix [OF e t]
    show ?thesis
      using tags_loop_value [OF assms(1) _ ks(2)] k' unfolding ks(1) tw reparsed_def by blast
  qed
qed

lemma tags_loop_write:
  assumes "wf_splitter sp" and "tag_list_ok (kv # t)"
    and "as_slice sp = tag_text kv @ tags_write_loop (CHR '';'') t"
  shows "tags_loop sp acc = Some (acc @ map reparsed (kv # t))"
  using assms
proof (induction t arbitrary: sp kv acc)
  case Nil
  then obtain sp' where "wf_splitter sp'" "as_slice sp' = []" "tags_loop sp acc = tags_loop sp' (acc @ [reparsed kv])"
    using tags_loop_one [OF Nil.prems(1), of kv "[]"] by (cases kv) auto
  then show ?case by (simp add: tags_loop_stop)
next
  case (Cons kv' t)
  then obtain sp' where sp': "wf_splitter sp'" "as_slice sp' = tag_text kv' @ tags_write_loop (CHR '';'') t"
    "tags_loop sp acc = tags_loop sp' (acc @ [reparsed kv])"
    using tags_loop_one [OF Cons.prems(1), of kv "tags_write_loop (CHR '';'') (kv' # t)"]
    by (cases kv) (auto simp: tags_write_loop_Cons)
  have "tag_list_ok (kv' # t)" using Cons.prems(2) by (cases kv) simp
  with Cons.IH [OF sp'(1)] sp'(2,3) show ?case by simp
qed

lemma fst_reparsed: "fst (reparsed kv) = fst kv"
  by (simp add: reparsed_def)

lemma tags_parse_write:
  assumes "tags_ok t"
  shows "tags_parse (tl (tags_write t)) = Some (map reparsed t)"
proof (cases t)
  case Nil
  then show ?thesis by (simp add: tags_write_def tags_parse_def tags_new_def fm_new_def)
next
  case (Cons kv t')
  have ok: "tag_list_ok t" "fm_ok fst t" using assms by (auto simp: tags_ok_def tag_list_ok_def)
  have "fm_ok fst (map reparsed t)" using ok(2) by (simp add: fm_ok_def comp_def fst_reparsed)
  moreover have "tag_text kv \<noteq> []"
    using ok(1) Cons by (cases kv) (auto simp: tag_text_def valid_iff arg_first_check_None)
  moreover have "tags_loop (sp_new False (tl (tags_write t))) [] = Some (map reparsed t)"
    using tags_loop_write [OF sp_new_wf, of kv t' False _ "[]"] ok(1) Cons
    by (simp add: tags_write_def tags_write_loop_Cons slice_simps)
  ultimately show ?thesis
    by (simp add: tags_parse_def Cons tags_write_def tags_write_loop_Cons fm_from_vec_ascending)
qed

lemma tags_parse_write_plain:
  assumes "tags_ok t" and "\<forall>(k, v) \<in> set t. \<forall>b \<in> set v. escape_byte b = None"
  shows "tags_parse (tl (tags_write t)) = Some t"
proof -
  have "map reparsed t = t"
    using assms(2) by (intro map_idI) (auto simp: reparsed_def unescape_escape_plain)
  with tags_parse_write [OF assms(1)] show ?thesis by simp
qed

text \<open>The written form is a \<open>Word\<close>: it can stand in front of a message.\<close>

lemma tag_text_Word: "valid Key k \<Longrightarrow> valid NoNul v \<Longrightarrow> valid Word (tag_text (k, v))"
  using escape_valid [of v] valid_subtypes [of k]
  by (auto simp: tag_text_def valid_iff [of Word] invalid_defs)

lemma tags_write_loop_Word: "tag_list_ok t \<Longrightarrow> \<not> is_invalid Word c \<Longrightarrow> valid Word (tags_write_loop c t)"
proof (induction t arbitrary: c)
  case (Cons kv t)
  then have "valid Word (tag_text kv)" by (cases kv) (simp add: tag_text_Word)
  moreover have "valid Word (tags_write_loop (CHR '';'') t)"
    using Cons by (cases kv) (simp add: invalid_defs)
  ultimately show ?case using Cons.prems(2) by (auto simp: tags_write_loop_Cons valid_iff)
qed (simp add: valid_iff)

lemma tags_write_Word: "tags_ok t \<Longrightarrow> valid Word (tags_write t)"
  unfolding tags_write_def
  by (rule tags_write_loop_Word) (auto simp: tags_ok_def tag_list_ok_def invalid_defs)

text \<open>A tag list whose strings are UTF-8 is displayed as it is written.\<close>

lemma tags_display_write:
  "\<forall>(k, v) \<in> set t. utf8_valid k \<and> utf8_valid (escape v) \<Longrightarrow> tags_display t = tags_write t"
proof -
  have "tags_display_loop c t = tags_write_loop c t"
    if "\<forall>(k, v) \<in> set t. utf8_valid k \<and> utf8_valid (escape v)" for c
    using that by (induction c t rule: tags_display_loop.induct) auto
  then show "\<forall>(k, v) \<in> set t. utf8_valid k \<and> utf8_valid (escape v) \<Longrightarrow> ?thesis"
    by (simp add: tags_display_def tags_write_def)
qed

section \<open>Tag maps\<close>

lemma insert_pair_fold:
  "fold (\<lambda>(k, v) g. snd (insert_pair k v g)) kvs g = guard_inserts fst kvs g"
  by (induction kvs arbitrary: g) (auto simp: guard_inserts_def insert_pair_def split_def Let_def)

lemma tags_from_iter_eq: "tags_from_iter kvs = guard_drop fst (guard_inserts fst kvs (fm_edit fm_new))"
  by (simp add: tags_from_iter_def insert_pair_fold tags_edit_def tags_new_def)

section \<open>Properties\<close>

text \<open>C14: Parsing a tag list that is a word returns exactly if no tag key starts with a colon, and what it
  returns is a well-formed map.  A key starts at the beginning, after a semicolon, and after an equals
  sign that has no key before it (\<open>colon_free\<close>); a colon anywhere else, in a value for instance, does no
  harm.\<close>

theorem tags_parse_returns:
  assumes "valid Word w"
  shows "((\<exists>t. tags_parse w = Some t) \<longleftrightarrow> colon_free AtKey w) \<and> (\<forall>t. tags_parse w = Some t \<longrightarrow> tags_ok t)"
proof -
  have "(\<exists>r. tags_loop (sp_new False w) [] = Some r) \<longleftrightarrow> colon_free AtKey w"
    using tags_loop_returns [of "sp_new False w"] assms by (simp add: sp_new_wf sp_new_slice)
  then have "(\<exists>t. tags_parse w = Some t) \<longleftrightarrow> colon_free AtKey w" by (auto simp: tags_parse_def)
  with tags_parse_ok [OF assms] show ?thesis by blast
qed

theorem tags_parse_returns_witness:
  "(\<exists>t. tags_parse ''time=:12;+a=b:c'' = Some t \<and> tags_ok t) \<and> tags_parse ''a;:b'' = None"
proof -
  have "valid Word ''time=:12;+a=b:c''" and "valid Word ''a;:b''" by (auto simp: valid_iff invalid_defs)
  with tags_parse_returns [of "''time=:12;+a=b:c''"] tags_parse_returns [of "''a;:b''"] show ?thesis by auto
qed

text \<open>A tag list that starts with a colon makes the parser loop forever: the key is refused and
  nothing is consumed.\<close>

lemma tags_parse_loops: "tags_parse (CHR '':'' # s) = None"
  using tags_loop_diverges [OF sp_new_wf sp_new_slice] by (simp add: tags_parse_def)

text \<open>C8: Parsing a written tag map gives the same keys in the same order, each with the value that
  unescaping gives back; it never fails and never loops.\<close>

theorem tags_roundtrip:
  assumes "tags_ok t"
  shows "tags_parse (tl (tags_write t)) = Some (map (\<lambda>(k, v). (k, unescape (escape v))) t)"
  using tags_parse_write [OF assms] by (simp add: reparsed_def [abs_def] split_def)

theorem tags_roundtrip_witness:
  "tags_parse (tl (tags_write [(''a'', ''x y''), (''b'', [])])) = Some [(''a'', [CHR ''x'', CHR 0x5C, CHR ''s'', CHR ''y'']), (''b'', [])]"
proof -
  have ok: "tags_ok [(''a'', ''x y''), (''b'', [])]"
    by (auto simp: tags_ok_def fm_ok_def valid_iff arg_first_check_def invalid_defs)
  have "unescape (escape ''x y'') = [CHR ''x'', CHR 0x5C, CHR ''s'', CHR ''y'']"
    using unescape_escape_first [of "''x''" "CHR '' ''" "CHR ''s''" "''y''"] by (simp add: escape_byte_def)
  moreover have "unescape (escape []) = []" by (rule unescape_escape_plain) simp
  ultimately show ?thesis using tags_roundtrip [OF ok] by simp
qed

text \<open>Collecting pairs with distinct keys gives the sorted map of exactly these pairs, and each key
  is found with its value.\<close>

lemma tags_from_iter_distinct:
  assumes "distinct (map fst kvs)"
  shows "fm_ok fst (tags_from_iter kvs) \<and> set (tags_from_iter kvs) = set kvs \<and>
    (\<forall>(k, v) \<in> set kvs. valid Key k \<longrightarrow> tags_get k (tags_from_iter kvs) = Some v)"
proof -
  have e: "tags_from_iter kvs = fold (fm_insert fst) kvs fm_new"
    using session_inserts [OF fm.inv_emp assms] by (simp add: tags_from_iter_eq)
  have ok: "fm_ok fst (tags_from_iter kvs)" unfolding e by (rule fm.inv_inserts) (rule fm.inv_emp)
  have g: "fm_map fst (tags_from_iter kvs) k = fm_map fst kvs k" for k
  proof -
    have "fm_get fst (fold (fm_insert fst) kvs fm_new) k = fm_map fst (rev kvs) k"
      using fm.lookup_inserts [OF fm.inv_emp, of fst kvs k]
      by (simp add: fm.lookup_emp fm_map_def split: option.splits)
    also have "fm_map fst (rev kvs) k = fm_map fst kvs k"
      using assms by (intro fm_map_set_eq) (auto simp: rev_map [symmetric])
    finally show ?thesis using fm_get_map [OF ok] e by simp
  qed
  have s: "kv \<in> set (tags_from_iter kvs) \<longleftrightarrow> kv \<in> set kvs" for kv
    using fm_map_Some [OF fm_ok_distinct [OF ok], of "fst kv" kv] fm_map_Some [OF assms, of "fst kv" kv] g by auto
  have "tags_get k (tags_from_iter kvs) = Some v" if "(k, v) \<in> set kvs" "valid Key k" for k v
  proof -
    have "fm_map fst kvs k = Some (k, v)" using that(1) fm_map_Some [OF assms] by simp
    with that(2) g show ?thesis by (simp add: tags_get_def from_bytes_def valid_def fm_get_map [OF ok])
  qed
  with ok s show ?thesis by auto
qed

text \<open>With a repeated key the map loses its invariant: a key below the sorted prefix that was added
  in the same session is not found, and is stored twice.\<close>

lemma tags_from_iter_duplicates:
  "tags_from_iter [(''b'', ''1''), (''a'', ''2''), (''a'', ''3'')] =
     [(''a'', ''2''), (''a'', ''3''), (''b'', ''1'')] \<and>
   \<not> fm_ok fst (tags_from_iter [(''b'', ''1''), (''a'', ''2''), (''a'', ''3'')])"
proof -
  have lt: "(''a'' :: bytes) < ''b''" "\<not> (''b'' :: bytes) < ''a''" "(''a'' :: bytes) \<le> ''b''" "\<not> (''b'' :: bytes) \<le> ''a''"
    by (simp_all add: less_char_def less_eq_char_def)
  have g: "guard_inserts fst [(''b'', ''1''), (''a'', ''2''), (''a'', ''3'')] (fm_edit fm_new) =
      \<lparr>g_buf = [(''b'', ''1''), (''a'', ''2''), (''a'', ''3'')], g_sorted = 1\<rparr>"
    by (simp add: guard_inserts_def guard_insert_def get_idx_def get_impl_def binary_search_def bsearch.simps
        fm_edit_def fm_new_def guard_push_def lt)
  have "tags_from_iter [(''b'', ''1''), (''a'', ''2''), (''a'', ''3'')] = [(''a'', ''2''), (''a'', ''3''), (''b'', ''1'')]"
    by (simp add: tags_from_iter_eq g guard_drop_def sort_key_def lt)
  then show ?thesis by (simp add: fm_ok_def)
qed

end
