(* ===== verification/Kind.thy ===== *)
theory Kind
  imports Transforms Splitter Source Tags
begin

text \<open>
  Message kinds and bodies: numeric replies (\<open>ircmsg/numeric.rs\<close>), the kind of a server message
  (\<open>ircmsg/servermsgkind.rs\<close>), CTCP messages (\<open>ircmsg/ctcp.rs\<close>) and targeted messages
  (\<open>ircmsg/targeted.rs\<close>).  The digit arithmetic of numerics is kept at the widths of the source.
\<close>

section \<open>Numerics\<close>

definition byte_of :: "8 word \<Rightarrow> byte" where
  "byte_of w = char_of (unat w)"

definition u8_of :: "byte \<Rightarrow> 8 word" where
  "u8_of b = word_of_nat (code b)"

type_synonym numeric = bytes

function digits_loop :: "bytes \<Rightarrow> nat \<Rightarrow> bytes \<Rightarrow> bytes option" where
  "digits_loop bs i acc =
     (if i < 3 then
        (if \<not> is_ascii_digit (bs ! i) then None else digits_loop bs (i + 1) (acc @ [bs ! i]))
      else Some acc)"
  by pat_completeness auto
termination
  by (relation "measure (\<lambda>(_, i, _). 3 - i)") auto

declare digits_loop.simps [simp del]

definition numeric_from_bytes :: "bytes \<Rightarrow> numeric option" where
  "numeric_from_bytes bs = (if length bs \<noteq> 3 then None else digits_loop bs 0 [])"

definition from_int_unchecked :: "16 word \<Rightarrow> numeric" where
  "from_int_unchecked n =
     (let h = ucast (n div 100) + 48 :: 8 word;
          t = ucast (n div 10 mod 10) + 48 :: 8 word;
          o1 = ucast (n mod 10) + 48 :: 8 word
      in [byte_of h, byte_of t, byte_of o1])"

definition from_int :: "16 word \<Rightarrow> numeric option" where
  "from_int n = (if n < 1000 then Some (from_int_unchecked n) else None)"

definition into_int :: "numeric \<Rightarrow> 16 word" where
  "into_int num =
     (let h = ucast (u8_of (num ! 0) - 48) :: 16 word;
          t = ucast (u8_of (num ! 1) - 48) :: 16 word;
          o1 = ucast (u8_of (num ! 2) - 48) :: 16 word
      in h * 100 + t * 10 + o1)"

definition numeric_is_error :: "numeric \<Rightarrow> bool option" where
  "numeric_is_error n =
     (let num = into_int n in
      if num < 400 then Some False
      else if num < 569 then Some True
      else if num \<in> {670, 671} then Some False
      else if num \<in> {691, 696} then Some True
      else if num \<in> {704, 705, 706} then Some False
      else if num = 723 then Some True
      else if num \<in> {740, 741, 900, 901} then Some False
      else if num = 902 then Some True
      else if num = 903 then Some False
      else if num \<in> {904, 905, 906, 907} then Some True
      else if num = 908 then Some False
      else None)"

section \<open>Kinds of server messages\<close>

datatype ServerMsgKindRaw = KNumeric numeric | KCmd bytes

definition kind_borrow :: "ServerMsgKindRaw \<Rightarrow> bytes" where
  "kind_borrow k = (case k of KNumeric n \<Rightarrow> n | KCmd c \<Rightarrow> c)"

definition kind_as_str :: "ServerMsgKindRaw \<Rightarrow> bytes" where
  "kind_as_str k = (case k of KNumeric n \<Rightarrow> n | KCmd c \<Rightarrow> c)"

definition kind_as_arg :: "ServerMsgKindRaw \<Rightarrow> bytes" where
  "kind_as_arg k = kind_as_str k"

definition kind_len :: "ServerMsgKindRaw \<Rightarrow> nat" where
  "kind_len k = (case k of KNumeric _ \<Rightarrow> 3 | KCmd c \<Rightarrow> length c)"

definition kind_is_error :: "ServerMsgKindRaw \<Rightarrow> bool option" where
  "kind_is_error k =
     (case k of
        KNumeric n \<Rightarrow> numeric_is_error n
      | KCmd c \<Rightarrow> if c = ''FAIL'' then Some True else if c = ''ERROR'' then Some True else Some False)"

text \<open>The derived order: by constructor, then by content.\<close>

fun kind_less :: "ServerMsgKindRaw \<Rightarrow> ServerMsgKindRaw \<Rightarrow> bool" where
  "kind_less (KNumeric a) (KNumeric b) = (a < b)"
| "kind_less (KNumeric a) (KCmd b) = True"
| "kind_less (KCmd a) (KNumeric b) = False"
| "kind_less (KCmd a) (KCmd b) = (a < b)"

section \<open>CTCP\<close>

record 'a maybe_ctcp =
  ctcp_cmd :: bytes
  ctcp_body :: 'a

definition ctcp_parse :: "bytes \<Rightarrow> bytes maybe_ctcp" where
  "ctcp_parse value =
     (let sp = sp_new False value; (b, sp1) = next_byte sp in
      if b = Some (CHR 0x01) then
        (let sp2 = until_byte_eq (CHR 0x01) sp1;
             (c, sp3) = string_or_default Word False sp2;
             cmd = b_value (snd (transform (AsciiCasemap True) (bytes_from_bytes c)));
             (_, sp4) = next_byte sp3;
             (body, _) = rest_or_default Line sp4
         in \<lparr>ctcp_cmd = cmd, ctcp_body = body\<rparr>)
      else \<lparr>ctcp_cmd = [], ctcp_body = value\<rparr>)"

definition is_ctcp :: "'a maybe_ctcp \<Rightarrow> bool" where
  "is_ctcp m \<longleftrightarrow> ctcp_cmd m \<noteq> []"

definition ctcp_into_line :: "bytes maybe_ctcp \<Rightarrow> bytes" where
  "ctcp_into_line m =
     (if is_ctcp m then
        (let b0 = builder_new bytes_default;
             (_, b1) = try_push_char Line 1 b0;
             b2 = bld_append (bytes_from_bytes (ctcp_cmd m)) b1;
             (_, b3) = try_push_char Line 32 b2;
             b4 = bld_append (bytes_from_bytes (ctcp_body m)) b3;
             (_, b5) = try_push_char Line 1 b4
         in b_value (build b5))
      else b_value (owning (bytes_from_bytes (ctcp_body m))))"

definition ctcp_is_empty :: "bytes maybe_ctcp \<Rightarrow> bool" where
  "ctcp_is_empty m \<longleftrightarrow> ctcp_cmd m = [] \<and> ctcp_body m = []"

definition ctcp_len :: "bytes maybe_ctcp \<Rightarrow> nat" where
  "ctcp_len m =
     (if ctcp_cmd m = [] then length (ctcp_body m)
      else length (ctcp_cmd m) + 3 + length (ctcp_body m))"

definition ctcp_map :: "('a \<Rightarrow> 'b) \<Rightarrow> 'a maybe_ctcp \<Rightarrow> 'b maybe_ctcp" where
  "ctcp_map f m = \<lparr>ctcp_cmd = ctcp_cmd m, ctcp_body = f (ctcp_body m)\<rparr>"

definition ctcp_map_result :: "('a \<Rightarrow> 'e + 'b) \<Rightarrow> 'a maybe_ctcp \<Rightarrow> 'e + 'b maybe_ctcp" where
  "ctcp_map_result f m =
     bind_res (f (ctcp_body m)) (\<lambda>b. Inr \<lparr>ctcp_cmd = ctcp_cmd m, ctcp_body = b\<rparr>)"

definition ctcp_map_iter :: "('a \<Rightarrow> 'b list) \<Rightarrow> 'a maybe_ctcp \<Rightarrow> 'b maybe_ctcp list" where
  "ctcp_map_iter f m = map (\<lambda>b. \<lparr>ctcp_cmd = ctcp_cmd m, ctcp_body = b\<rparr>) (f (ctcp_body m))"

section \<open>Targeted messages\<close>

record 'a targeted_msg =
  tm_tags :: tags
  tm_source :: "source option"
  tm_target :: bytes
  tm_value :: 'a

definition targeted_new :: "bytes \<Rightarrow> 'a \<Rightarrow> 'a targeted_msg" where
  "targeted_new t v = \<lparr>tm_tags = tags_new, tm_source = None, tm_target = t, tm_value = v\<rparr>"

definition targeted_map :: "('a \<Rightarrow> 'b) \<Rightarrow> 'a targeted_msg \<Rightarrow> 'b targeted_msg" where
  "targeted_map f m =
     \<lparr>tm_tags = tm_tags m, tm_source = tm_source m, tm_target = tm_target m, tm_value = f (tm_value m)\<rparr>"

definition targeted_map_result :: "('a \<Rightarrow> 'e + 'b) \<Rightarrow> 'a targeted_msg \<Rightarrow> 'e + 'b targeted_msg" where
  "targeted_map_result f m =
     bind_res (f (tm_value m)) (\<lambda>v. Inr
       \<lparr>tm_tags = tm_tags m, tm_source = tm_source m, tm_target = tm_target m, tm_value = v\<rparr>)"

definition targeted_map_iter :: "('a \<Rightarrow> 'b list) \<Rightarrow> 'a targeted_msg \<Rightarrow> 'b targeted_msg list" where
  "targeted_map_iter f m =
     map (\<lambda>v. \<lparr>tm_tags = tm_tags m, tm_source = tm_source m, tm_target = tm_target m, tm_value = v\<rparr>)
       (f (tm_value m))"

section \<open>Numerics: facts\<close>

definition numeric_ok :: "numeric \<Rightarrow> bool" where
  "numeric_ok n \<longleftrightarrow> length n = 3 \<and> (\<forall>b \<in> set n. is_ascii_digit b)"

lemma numeric_from_bytes_eq: "numeric_from_bytes bs = (if numeric_ok bs then Some bs else None)"
proof (cases "length bs = 3")
  case True
  then obtain a b c where "bs = [a, b, c]"
    by (metis (no_types, lifting) length_0_conv length_Suc_conv numeral_3_eq_3)
  then show ?thesis
    by (simp add: numeric_from_bytes_def numeric_ok_def digits_loop.simps numeral_3_eq_3 numeral_2_eq_2)
qed (simp add: numeric_from_bytes_def numeric_ok_def)

lemma numeric_ok_iff:
  "numeric_ok n \<longleftrightarrow> (\<exists>h t u. n = map (\<lambda>d. char_of (48 + d :: nat)) [h, t, u] \<and> h < 10 \<and> t < 10 \<and> u < 10)"
proof
  have d: "\<exists>d < 10. b = char_of (48 + d :: nat)" if "is_ascii_digit b" for b
    using that by (intro exI [of _ "code b - 48"]) (auto simp: is_ascii_digit_def)
  assume n: "numeric_ok n"
  then obtain a b c where abc: "n = [a, b, c]"
    by (metis (no_types, lifting) length_0_conv length_Suc_conv numeral_3_eq_3 numeric_ok_def)
  with n have "is_ascii_digit a" "is_ascii_digit b" "is_ascii_digit c" by (auto simp: numeric_ok_def)
  then obtain h t u :: nat where "h < 10" "a = char_of (48 + h)" "t < 10" "b = char_of (48 + t)"
    "u < 10" "c = char_of (48 + u)"
    using d [of a] d [of b] d [of c] by blast
  then show "\<exists>h t u. n = map (\<lambda>d. char_of (48 + d :: nat)) [h, t, u] \<and> h < 10 \<and> t < 10 \<and> u < 10"
    using abc by (intro exI [of _ h] exI [of _ t] exI [of _ u]) simp
next
  assume "\<exists>h t u. n = map (\<lambda>d. char_of (48 + d :: nat)) [h, t, u] \<and> h < 10 \<and> t < 10 \<and> u < 10"
  then show "numeric_ok n" by (auto simp: numeric_ok_def is_ascii_digit_def)
qed

lemma u8_digit: "d < 10 \<Longrightarrow> u8_of (char_of (48 + d :: nat)) - 48 = word_of_nat d"
  by (simp add: u8_of_def)

lemma unat_ucast_digit: "d < 10 \<Longrightarrow> unat (ucast (word_of_nat d :: 8 word) :: 16 word) = d"
  by (simp add: unsigned_ucast_eq unsigned_of_nat take_bit_nat_def)

lemma into_int_digits:
  assumes "h < 10" "t < 10" "u < 10"
  shows "unat (into_int (map (\<lambda>d. char_of (48 + d :: nat)) [h, t, u])) = h * 100 + t * 10 + u"
  using assms by (simp add: into_int_def u8_digit unat_word_ariths unat_ucast_digit)

lemma byte_of_digit: "unat n < 10 \<Longrightarrow> byte_of (ucast (n :: 16 word) + 48) = char_of (48 + unat n)"
  by (simp add: byte_of_def unat_word_ariths unsigned_ucast_eq take_bit_nat_def add.commute)

lemma from_int_unchecked_digits:
  assumes "n < 1000"
  shows "from_int_unchecked n = map (\<lambda>d. char_of (48 + d :: nat)) [unat n div 100, unat n div 10 mod 10, unat n mod 10]"
proof -
  have n: "unat n < 1000" using assms by (simp add: word_less_nat_alt)
  have u: "unat (n div 100) = unat n div 100" "unat (n div 10 mod 10) = unat n div 10 mod 10"
    "unat (n mod 10) = unat n mod 10"
    by (simp_all add: unat_div unat_mod)
  then have "unat (n div 100) < 10" "unat (n div 10 mod 10) < 10" "unat (n mod 10) < 10"
    using n by auto
  with u show ?thesis by (simp add: from_int_unchecked_def byte_of_digit)
qed

lemma digits3: "n div 100 * 100 + n div 10 mod 10 * 10 + n mod 10 = (n::nat)"
proof -
  have "n div 100 = n div 10 div 10" by (simp add: div_mult2_eq [symmetric])
  then show ?thesis using mult_div_mod_eq [of 10 n] mult_div_mod_eq [of 10 "n div 10"] by linarith
qed

lemma digits3_inv:
  fixes h t u :: nat
  assumes "t < 10" "u < 10"
  defines "n \<equiv> h * 100 + t * 10 + u"
  shows "n div 100 = h" "n div 10 mod 10 = t" "n mod 10 = u"
proof -
  have n: "n = u + 10 * (t + 10 * h)" by (simp add: n_def)
  have "n div 10 = t + 10 * h" using assms(2) by (simp add: n)
  moreover have "n div 100 = n div 10 div 10" by (simp add: div_mult2_eq [symmetric])
  ultimately show "n div 100 = h" "n div 10 mod 10 = t" using assms(1) by simp_all
  show "n mod 10 = u" unfolding n using assms(2) by (simp only: mod_mult_self2 mod_less)
qed

lemma into_int_from_int: "n < 1000 \<Longrightarrow> into_int (from_int_unchecked n) = n"
proof -
  assume n: "n < 1000"
  then have "unat n < 1000" by (simp add: word_less_nat_alt)
  then have "unat (into_int (from_int_unchecked n)) = unat n"
    using from_int_unchecked_digits [OF n] into_int_digits [of "unat n div 100" "unat n div 10 mod 10" "unat n mod 10"]
    by (simp add: digits3)
  then show ?thesis by (simp add: word_unat_eq_iff)
qed

lemma from_int_into_int:
  assumes "numeric_ok n"
  shows "into_int n < 1000" and "from_int_unchecked (into_int n) = n"
proof -
  obtain h t u where n: "n = map (\<lambda>d. char_of (48 + d :: nat)) [h, t, u]" and d: "h < 10" "t < 10" "u < 10"
    using assms by (auto simp: numeric_ok_iff)
  note i = into_int_digits [OF d, folded n]
  show l: "into_int n < 1000" using d by (simp add: word_less_nat_alt i)
  show "from_int_unchecked (into_int n) = n"
    unfolding from_int_unchecked_digits [OF l] i digits3_inv [OF d(2,3)] by (simp only: n)
qed

lemma from_int_unchecked_ok: "n < 1000 \<Longrightarrow> numeric_ok (from_int_unchecked n)"
proof -
  assume n: "n < 1000"
  then have "unat n < 1000" by (simp add: word_less_nat_alt)
  then have "unat n div 100 < 10" "unat n div 10 mod 10 < 10" "unat n mod 10 < 10" by auto
  then show ?thesis unfolding numeric_ok_iff from_int_unchecked_digits [OF n] by blast
qed

text \<open>A numeric and a command are told apart by their text.\<close>

lemma digit_not_upper: "is_ascii_digit b \<Longrightarrow> is_ascii_uppercase c \<Longrightarrow> b < c"
  by (auto simp: is_ascii_digit_def is_ascii_uppercase_def less_char_def code_def)

definition kind_ok :: "ServerMsgKindRaw \<Rightarrow> bool" where
  "kind_ok k \<longleftrightarrow> (case k of KNumeric n \<Rightarrow> numeric_ok n | KCmd c \<Rightarrow> valid Cmd c)"

text \<open>The derived order of kinds is the order of the borrowed bytes, which \<open>FlatMap\<close> relies on.\<close>

lemma kind_less_borrow: "kind_ok a \<Longrightarrow> kind_ok b \<Longrightarrow> kind_less a b \<longleftrightarrow> kind_borrow a < kind_borrow b"
proof -
  have *: "n < c \<and> \<not> c < n" if nc: "numeric_ok n" "valid Cmd c" for n c :: bytes
  proof -
    obtain x xs where n: "n = x # xs" using nc(1) by (cases n) (auto simp: numeric_ok_def)
    obtain y ys where c: "c = y # ys" using nc(2) by (cases c) (auto simp: valid_Cmd_iff)
    have "x < y" using nc by (auto simp: n c numeric_ok_def valid_Cmd_iff intro: digit_not_upper)
    then show ?thesis by (auto simp: n c)
  qed
  assume "kind_ok a" "kind_ok b"
  with * show ?thesis
    by (cases a; cases b) (auto simp: kind_ok_def kind_borrow_def)
qed

lemma kind_borrow_inject:
  "kind_ok a \<Longrightarrow> kind_ok b \<Longrightarrow> kind_borrow a = kind_borrow b \<longleftrightarrow> a = b"
  using kind_less_borrow [of a b] kind_less_borrow [of b a]
  by (cases a; cases b) (auto simp: kind_borrow_def)

lemma kind_arg_ok: "kind_ok k \<Longrightarrow> valid Arg (kind_as_arg k)"
proof (cases k)
  case (KNumeric n)
  assume "kind_ok k"
  with KNumeric have n: "length n = 3" "\<forall>b \<in> set n. is_ascii_digit b" by (auto simp: kind_ok_def numeric_ok_def)
  then have "b \<notin> {CHR 0x00, CHR 0x0A, CHR 0x0D, CHR '' '', CHR '':''}" if "b \<in> set n" for b
    using that by (auto simp: is_ascii_digit_def)
  moreover have "hd n \<in> set n" using n(1) by (cases n) auto
  ultimately show ?thesis
    using n(1) KNumeric by (auto simp: kind_as_arg_def kind_as_str_def valid_Arg_iff valid_Word_iff)
qed (auto simp: kind_ok_def kind_as_arg_def kind_as_str_def valid_subtypes)

lemma kind_len_eq: "kind_ok k \<Longrightarrow> kind_len k = length (kind_as_arg k) \<and> 0 < kind_len k"
  by (cases k) (auto simp: kind_ok_def kind_len_def kind_as_arg_def kind_as_str_def numeric_ok_def valid_Cmd_iff)

section \<open>CTCP: facts\<close>

lemma ctcp_into_line_eq:
  "ctcp_into_line m =
     (if is_ctcp m then CHR 0x01 # ctcp_cmd m @ CHR '' '' # ctcp_body m @ [CHR 0x01] else ctcp_body m)"
proof -
  have c: "char_of (1 :: nat) = CHR 0x01" "char_of (32 :: nat) = CHR '' ''"
    by (simp_all add: char_of_eq_iff)
  have p: "try_push_char Line 1 bl = (Inr (), bl\<lparr>bld_bytes := bld_bytes bl @ [CHR 0x01]\<rparr>)"
    "try_push_char Line 32 bl = (Inr (), bl\<lparr>bld_bytes := bld_bytes bl @ '' ''\<rparr>)" for bl
    using c by (simp_all add: try_push_char_def try_append_str_def encode_utf8_def invalid_defs)
  show ?thesis
    by (simp add: ctcp_into_line_def p [unfolded One_nat_def] bld_append_def append_unchecked_def build_value
        builder_new_def bytes_default_def bytes_from_bytes_def owning_def owning_force_def
        owned_from_vec_def is_owning_def)
qed

lemma ctcp_len_line: "length (ctcp_into_line m) = ctcp_len m"
  by (simp add: ctcp_into_line_eq ctcp_len_def is_ctcp_def)

lemma ctcp_parse_eq:
  "ctcp_parse (CHR 0x01 # v) =
     (let s = takeWhile (\<lambda>c. c \<noteq> CHR 0x01) v; c = takeWhile (\<lambda>b. \<not> is_invalid Word b) s
      in \<lparr>ctcp_cmd = map to_ascii_uppercase c, ctcp_body = tl (drop (length c) s)\<rparr>)"
  by (simp add: ctcp_parse_def Let_def split_def slice_simps string_or_default_advance slice_string_def
      next_byte_slice ascii_casemap.transform_value AsciiCasemap_def map_bytes_out bytes_from_bytes_def)

lemma ctcp_parse_plain: "v = [] \<or> hd v \<noteq> CHR 0x01 \<Longrightarrow> ctcp_parse v = \<lparr>ctcp_cmd = [], ctcp_body = v\<rparr>"
  by (cases v) (simp_all add: ctcp_parse_def Let_def split_def slice_simps)

text \<open>A CTCP message with an upper-case command and no delimiter inside survives the round trip.\<close>

lemma ctcp_parse_into_line:
  assumes "valid Word (ctcp_cmd m)" and "map to_ascii_uppercase (ctcp_cmd m) = ctcp_cmd m"
    and "CHR 0x01 \<notin> set (ctcp_cmd m)" and "CHR 0x01 \<notin> set (ctcp_body m)"
  shows "ctcp_parse (ctcp_into_line m) = m"
proof (cases "ctcp_cmd m = []")
  case True
  then have "ctcp_into_line m = ctcp_body m" by (simp add: ctcp_into_line_eq is_ctcp_def)
  moreover have "ctcp_body m = [] \<or> hd (ctcp_body m) \<noteq> CHR 0x01"
    using assms(4) by (cases "ctcp_body m") auto
  ultimately show ?thesis using True by (simp add: ctcp_parse_plain)
next
  case False
  let ?s = "ctcp_cmd m @ CHR '' '' # ctcp_body m"
  have d: "\<forall>c \<in> set ?s. c \<noteq> CHR 0x01" using assms(3,4) by auto
  have s: "takeWhile (\<lambda>c. c \<noteq> CHR 0x01) (?s @ [CHR 0x01]) = ?s" by (rule takeWhile_prefix(1) [OF d]) simp
  have w: "\<forall>b \<in> set (ctcp_cmd m). \<not> is_invalid Word b" using assms(1) by (simp add: valid_iff)
  have c: "takeWhile (\<lambda>b. \<not> is_invalid Word b) ?s = ctcp_cmd m"
    by (rule takeWhile_prefix(1) [OF w]) (simp add: invalid_defs)
  show ?thesis
    using False assms(2) c s by (simp add: ctcp_into_line_eq is_ctcp_def ctcp_parse_eq Let_def)
qed

section \<open>Properties\<close>

text \<open>The bytes of a numeric and its integer determine each other: converting to 16-bit words and
  back is the identity both ways, with no wrap-around below 1000.\<close>

lemma numeric_roundtrip:
  "(numeric_from_bytes bs = Some n \<longrightarrow> into_int n < 1000 \<and> from_int_unchecked (into_int n) = n) \<and>
   (i < 1000 \<longrightarrow> numeric_from_bytes (from_int_unchecked i) = Some (from_int_unchecked i) \<and>
     into_int (from_int_unchecked i) = i)"
  using from_int_into_int [of n]
  by (auto simp: numeric_from_bytes_eq from_int_unchecked_ok into_int_from_int split: if_splits)

text \<open>A CTCP message whose command is in upper case and has no delimiter inside is written in
  \<open>len\<close> bytes and parsed back as itself.\<close>

lemma ctcp_roundtrip:
  assumes "valid Word (ctcp_cmd m)" and "map to_ascii_uppercase (ctcp_cmd m) = ctcp_cmd m"
    and "CHR 0x01 \<notin> set (ctcp_cmd m)" and "CHR 0x01 \<notin> set (ctcp_body m)"
  shows "ctcp_parse (ctcp_into_line m) = m \<and> length (ctcp_into_line m) = ctcp_len m"
  using ctcp_parse_into_line [OF assms] by (simp add: ctcp_len_line)

end
