(* ===== verification/Codec.thy ===== *)
theory Codec
  imports Kind
begin

text \<open>
  Messages and their wire format: \<open>ircmsg/codec.rs\<close>, \<open>ircmsg/server.rs\<close> and \<open>ircmsg/client.rs\<close>.  The
  parser of tags may run forever, so parsing returns an \<open>option\<close> around the \<open>Result\<close> of the source:
  \<open>None\<close> is a call that does not return.  A reader is the list of bytes it will deliver before the
  end of the stream.
\<close>

record server_msg =
  sm_tags :: tags
  sm_source :: "source option"
  sm_kind :: ServerMsgKindRaw
  sm_args :: args

record client_msg =
  cm_tags :: tags
  cm_cmd :: bytes
  cm_args :: args

section \<open>Parsing\<close>

text \<open>The loop at the head of \<open>parse\<close>: it eats the tags and the source and stops at the kind.\<close>

function parse_head ::
  "(bytes \<Rightarrow> ('s, ParseError) result) \<Rightarrow> splitter \<Rightarrow> bool \<Rightarrow> bool \<Rightarrow> tags \<Rightarrow> 's option \<Rightarrow>
   (tags \<times> 's option \<times> bytes \<times> splitter, ParseError) result option" where
  "parse_head parse_source msg expect_tags expect_source tags src =
     (let msg1 = consume_whitespace msg;
          (word, msg2) = string_or_default Word False msg1
      in case word of
           [] \<Rightarrow> Some (Inl (InvalidKind Empty))
         | b # _ \<Rightarrow>
             if b = CHR ''@'' \<and> expect_tags then
               (let (_, w1) = next_byte (sp_new False word); (body, _) = rest_or_default Word w1 in
                case tags_parse body of
                  None \<Rightarrow> None
                | Some t \<Rightarrow> parse_head parse_source msg2 False expect_source t src)
             else if b = CHR '':'' \<and> expect_source then
               (let (_, w1) = next_byte (sp_new False word); (body, _) = rest_or_default Word w1 in
                case parse_source body of
                  Inl e \<Rightarrow> Some (Inl e)
                | Inr s \<Rightarrow> parse_head parse_source msg2 False False tags (Some s))
             else Some (Inr (tags, src, word, msg2)))"
  by pat_completeness auto
termination
  by (relation "measure (\<lambda>(_, _, et, es, _, _). (if et then 1 else 0) + (if es then 1 else 0 :: nat))") auto

declare parse_head.simps [simp del]

definition msg_parse ::
  "bytes \<Rightarrow> (bytes \<Rightarrow> ('s, ParseError) result) \<Rightarrow> (bytes \<Rightarrow> ('k, ParseError) result) \<Rightarrow>
   (tags \<times> 's option \<times> 'k \<times> args, ParseError) result option" where
  "msg_parse line parse_source parse_kind =
     (case parse_head parse_source (sp_new False line) True True tags_new None of
        None \<Rightarrow> None
      | Some (Inl e) \<Rightarrow> Some (Inl e)
      | Some (Inr (tags, src, word, msg)) \<Rightarrow>
          (case parse_kind word of
             Inl e \<Rightarrow> Some (Inl e)
           | Inr kind \<Rightarrow>
               (let (rest, _) = rest_or_default Line msg in Some (Inr (tags, src, kind, args_parse rest)))))"

definition server_parse_kind :: "bytes \<Rightarrow> (ServerMsgKindRaw, ParseError) result" where
  "server_parse_kind w =
     (case numeric_from_bytes w of
        Some num \<Rightarrow> Inr (KNumeric num)
      | None \<Rightarrow> bind_res (map_err InvalidKind (cmd_from_word w)) (\<lambda>c. Inr (KCmd c)))"

definition client_parse_kind :: "bytes \<Rightarrow> (bytes, ParseError) result" where
  "client_parse_kind w = map_err InvalidKind (cmd_from_word w)"

definition server_msg_parse :: "bytes \<Rightarrow> (server_msg, ParseError) result option" where
  "server_msg_parse bs =
     (case from_bytes Line bs of
        Inl e \<Rightarrow> Some (Inl (InvalidLine e))
      | Inr line \<Rightarrow>
          map_option (\<lambda>r. bind_res r (\<lambda>(tags, src, kind, args).
              Inr \<lparr>sm_tags = tags, sm_source = src, sm_kind = kind, sm_args = args\<rparr>))
            (msg_parse line src_parse server_parse_kind))"

definition client_msg_parse :: "bytes \<Rightarrow> (client_msg, ParseError) result option" where
  "client_msg_parse bs =
     (case from_bytes Line bs of
        Inl e \<Rightarrow> Some (Inl (InvalidLine e))
      | Inr line \<Rightarrow>
          map_option (\<lambda>r. bind_res r (\<lambda>(tags, _, cmd, args).
              Inr \<lparr>cm_tags = tags, cm_cmd = cmd, cm_args = args\<rparr>))
            (msg_parse line (\<lambda>_. Inr ()) client_parse_kind))"

section \<open>Sizes and writing\<close>

text \<open>Sizes are \<open>usize\<close>, the difference is an \<open>isize\<close> of 64 bits.\<close>

definition bytes_left :: "bytes \<Rightarrow> nat option \<Rightarrow> args \<Rightarrow> int" where
  "bytes_left kind src args =
     (let size0 = length kind;
          size1 = (case src of Some n \<Rightarrow> size0 + (2 + n) | None \<Rightarrow> size0);
          size2 = (if \<not> args_is_empty args then size1 + (len_bytes args + 1) else size1);
          size = min (int size2) (2 ^ 63 - 1)
      in 510 - size)"

definition msg_write :: "tags \<Rightarrow> source option \<Rightarrow> bytes \<Rightarrow> args \<Rightarrow> bytes" where
  "msg_write tags src kind args =
     (let (ws, lst) = split_last args in
      (if \<not> tags_is_empty tags then tags_write tags @ '' '' else []) @
      (case src of Some s \<Rightarrow> '':'' @ src_write s @ '' '' | None \<Rightarrow> []) @
      kind @
      concat (map (\<lambda>w. '' '' @ w) ws) @
      (case lst of
         Some l \<Rightarrow> (if is_last_long args then '' :'' else '' '') @ l
       | None \<Rightarrow> []))"

definition client_write_to :: "client_msg \<Rightarrow> bytes" where
  "client_write_to m = msg_write (cm_tags m) None (cm_cmd m) (cm_args m)"

definition server_write_to :: "server_msg \<Rightarrow> bytes" where
  "server_write_to m = msg_write (sm_tags m) (sm_source m) (kind_as_arg (sm_kind m)) (sm_args m)"

text \<open>\<open>send_to\<close>: what is written, and the buffer afterwards.\<close>

definition client_send_to :: "client_msg \<Rightarrow> bytes \<Rightarrow> bytes \<times> bytes" where
  "client_send_to m buf = (let buf' = (buf @ client_write_to m) @ [CHR 0x0D, CHR 0x0A] in (buf', []))"

definition server_send_to :: "server_msg \<Rightarrow> bytes \<Rightarrow> bytes \<times> bytes" where
  "server_send_to m buf = (let buf' = (buf @ server_write_to m) @ [CHR 0x0D, CHR 0x0A] in (buf', []))"

definition server_bytes_left :: "server_msg \<Rightarrow> int" where
  "server_bytes_left m = bytes_left (kind_as_arg (sm_kind m)) (map_option src_len (sm_source m)) (sm_args m)"

definition client_bytes_left :: "client_msg \<Rightarrow> source option \<Rightarrow> int" where
  "client_bytes_left m src = bytes_left (cm_cmd m) (map_option src_len src) (cm_args m)"

definition client_display :: "client_msg \<Rightarrow> bytes" where
  "client_display m =
     (if \<not> tags_is_empty (cm_tags m) then tags_display (cm_tags m) @ '' '' else []) @ show_bytes (cm_cmd m) @
     (if \<not> args_is_empty (cm_args m) then '' '' @ args_display (cm_args m) else [])"

definition server_display :: "server_msg \<Rightarrow> bytes" where
  "server_display m =
     (if \<not> tags_is_empty (sm_tags m) then tags_display (sm_tags m) @ '' '' else []) @
     (case sm_source m of Some s \<Rightarrow> '':'' @ src_display s @ '' '' | None \<Rightarrow> []) @
     show_bytes (kind_as_arg (sm_kind m)) @
     (if \<not> args_is_empty (sm_args m) then '' '' @ args_display (sm_args m) else [])"

definition server_new_num :: "numeric \<Rightarrow> source \<Rightarrow> bytes \<Rightarrow> server_msg" where
  "server_new_num n src target =
     \<lparr>sm_tags = tags_new, sm_source = Some src, sm_kind = KNumeric n, sm_args = args_new [target] None\<rparr>"

definition server_new_cmd :: "bytes \<Rightarrow> server_msg" where
  "server_new_cmd c = \<lparr>sm_tags = tags_new, sm_source = None, sm_kind = KCmd c, sm_args = args_empty\<rparr>"

definition client_new_cmd :: "bytes \<Rightarrow> client_msg" where
  "client_new_cmd c = \<lparr>cm_tags = tags_new, cm_cmd = c, cm_args = args_empty\<rparr>"

section \<open>Reading from a stream\<close>

definition server_MAX_LEN :: nat where
  "server_MAX_LEN = 8703"

definition client_MAX_LEN :: nat where
  "client_MAX_LEN = 4608"

text \<open>Errors of the standard library by their kind, with the error of this library they wrap.\<close>

datatype io_error =
  UnexpectedEof
| InvalidData ParseError
| InvalidDataString InvalidString
| TimedOut | WouldBlock | Interrupted | WriteZero | InvalidInput
| OtherError nat

text \<open>\<open>BufRead::read_until\<close> on a reader limited to \<open>n\<close> bytes: what is appended, and what is left.\<close>

definition read_until :: "byte \<Rightarrow> nat \<Rightarrow> bytes \<Rightarrow> bytes \<times> bytes" where
  "read_until d n inp =
     (case position (\<lambda>b. b = d) (take n inp) of
        Some i \<Rightarrow> (take (i + 1) inp, drop (i + 1) inp)
      | None \<Rightarrow> (take n inp, drop n inp))"

text \<open>The loop of \<open>read_buf!\<close> over the end of the buffer (kept reversed): run out of bytes, refuse
  the buffer, or hand the line to the parser.\<close>

datatype buf_outcome = Again | BadEnd ParseError | ParseLine bytes

fun read_buf :: "bytes \<Rightarrow> bool \<Rightarrow> buf_outcome" where
  "read_buf [] found_newline = Again"
| "read_buf (c # rbuf) found_newline =
     (if c = CHR 0x0A then read_buf rbuf True
      else if c = CHR 0x0D \<and> found_newline then read_buf rbuf found_newline
      else if c \<in> {CHR 0x0D, CHR 0x00} then BadEnd (InvalidLine (Byte c))
      else if found_newline then ParseLine (rev (c # rbuf))
      else BadEnd TooLong)"

partial_function (option) read_msg ::
  "nat \<Rightarrow> (bytes \<Rightarrow> ('m, ParseError) result option) \<Rightarrow> bytes \<Rightarrow> bytes \<Rightarrow>
   (('m, io_error) result \<times> bytes) option" where
  "read_msg limit parse buf inp =
     (let (new, inp1) = (if length buf < limit then read_until (CHR 0x0A) (limit - length buf) inp else ([], inp))
      in if length buf < limit \<and> new = [] then Some (Inl UnexpectedEof, inp1)
         else
           (case read_buf (rev (buf @ new)) False of
              Again \<Rightarrow> read_msg limit parse [] inp1
            | BadEnd e \<Rightarrow> Some (Inl (InvalidData e), inp1)
            | ParseLine l \<Rightarrow>
                (case parse l of
                   None \<Rightarrow> None
                 | Some r \<Rightarrow> Some (map_err InvalidData r, inp1))))"

definition client_read :: "bytes \<Rightarrow> bytes \<Rightarrow> ((server_msg, io_error) result \<times> bytes) option" where
  "client_read buf inp = read_msg server_MAX_LEN server_msg_parse buf inp"

definition server_read :: "bytes \<Rightarrow> bytes \<Rightarrow> ((client_msg, io_error) result \<times> bytes) option" where
  "server_read buf inp = read_msg client_MAX_LEN client_msg_parse buf inp"

section \<open>The tokio codec\<close>

fun scroll_loop :: "nat \<Rightarrow> bytes \<Rightarrow> bool \<Rightarrow> nat \<Rightarrow> nat \<Rightarrow> nat option \<times> nat" where
  "scroll_loop limit [] leading_ws trimmed_ws end_idx = (None, trimmed_ws)"
| "scroll_loop limit (b # bs) leading_ws trimmed_ws end_idx =
     (if leading_ws \<and> is_ascii_whitespace b then scroll_loop limit bs leading_ws (trimmed_ws + 1) end_idx
      else
        (let end_idx' = end_idx + 1 in
         if limit \<le> end_idx' \<or> b = CHR 0x0A \<or> b = CHR 0x00
         then (if end_idx' = 0 then None else Some end_idx', trimmed_ws)
         else scroll_loop limit bs False trimmed_ws end_idx'))"

definition scroll_buf :: "bytes \<Rightarrow> nat \<Rightarrow> nat option \<times> bytes" where
  "scroll_buf buf limit =
     (let (r, trimmed) = scroll_loop limit buf True 0 0 in (r, drop trimmed buf))"

definition codec_decode ::
  "nat \<Rightarrow> (bytes \<Rightarrow> ('m, ParseError) result option) \<Rightarrow> bytes \<Rightarrow> (('m option, io_error) result \<times> bytes) option" where
  "codec_decode limit parse src =
     (case scroll_buf src limit of
        (None, src1) \<Rightarrow> Some (Inr None, src1)
      | (Some n, src1) \<Rightarrow>
          (let line_raw = take n src1; src2 = drop n src1 in
           case from_bytes Line line_raw of
             Inl e \<Rightarrow> Some (Inl (InvalidDataString e), src2)
           | Inr line \<Rightarrow> map_option (\<lambda>r. (bind_res (map_err InvalidData r) (\<lambda>m. Inr (Some m)), src2)) (parse line)))"

definition client_encode :: "client_msg \<Rightarrow> bytes \<Rightarrow> bytes" where
  "client_encode m dst = dst @ client_write_to m @ [CHR 0x0D, CHR 0x0A]"

definition server_encode :: "server_msg \<Rightarrow> bytes \<Rightarrow> bytes" where
  "server_encode m dst = dst @ server_write_to m @ [CHR 0x0D, CHR 0x0A]"

section \<open>The round trip of the parser\<close>

lemma next_word:
  assumes "wf_splitter msg" and "dropWhile is_ascii_whitespace (as_slice msg) = w @ rest"
    and "valid Word w" and "rest = [] \<or> hd rest = CHR '' ''"
  shows "\<exists>msg2. string_or_default Word False (consume_whitespace msg) = (w, msg2) \<and>
    wf_splitter msg2 \<and> as_slice msg2 = rest"
proof -
  let ?m = "consume_whitespace msg"
  have s: "as_slice ?m = w @ rest" using assms(2) by (simp only: consume_whitespace_slice)
  have "rest = [] \<or> is_invalid Word (hd rest)" using assms(4) by (auto simp: invalid_defs)
  with slice_string_exact [OF assms(3)] have "slice_string Word False (as_slice ?m) = Inr w" by (simp add: s)
  then have "string_or_default Word False ?m = (w, advance (length w) ?m)"
    by (simp add: string_or_default_advance)
  moreover have "wf_splitter (advance (length w) ?m)"
    using assms(1) by (intro wf_advance consume_whitespace_wf) (auto simp: s)
  moreover have "as_slice (advance (length w) ?m) = rest" by (simp add: as_slice_advance s)
  ultimately show ?thesis by blast
qed

lemma parse_head_tags:
  assumes "wf_splitter msg" and "dropWhile is_ascii_whitespace (as_slice msg) = CHR ''@'' # body @ rest"
    and "valid Word body" and "rest = [] \<or> hd rest = CHR '' ''" and "tags_parse body = Some t"
  shows "\<exists>msg2. wf_splitter msg2 \<and> as_slice msg2 = rest \<and>
    parse_head ps msg True es tags src = parse_head ps msg2 False es t src"
proof -
  have "valid Word (CHR ''@'' # body)" using assms(3) by (auto simp: valid_Word_iff)
  then obtain msg2 where "string_or_default Word False (consume_whitespace msg) = (CHR ''@'' # body, msg2)"
    "wf_splitter msg2" "as_slice msg2 = rest"
    using next_word [of msg "CHR ''@'' # body" rest] assms by auto
  with assms(5) show ?thesis
    by (intro exI [of _ msg2]) (simp add: parse_head.simps [of ps msg] split_def next_byte_slice sp_new_slice)
qed

lemma parse_head_source:
  assumes "wf_splitter msg" and "dropWhile is_ascii_whitespace (as_slice msg) = CHR '':'' # body @ rest"
    and "valid Word body" and "rest = [] \<or> hd rest = CHR '' ''" and "ps body = Inr s"
  shows "\<exists>msg2. wf_splitter msg2 \<and> as_slice msg2 = rest \<and>
    parse_head ps msg et True tags src = parse_head ps msg2 False False tags (Some s)"
proof -
  have "valid Word (CHR '':'' # body)" using assms(3) by (auto simp: valid_Word_iff)
  then obtain msg2 where "string_or_default Word False (consume_whitespace msg) = (CHR '':'' # body, msg2)"
    "wf_splitter msg2" "as_slice msg2 = rest"
    using next_word [of msg "CHR '':'' # body" rest] assms by auto
  with assms(5) show ?thesis
    by (intro exI [of _ msg2]) (simp add: parse_head.simps [of ps msg] split_def next_byte_slice sp_new_slice)
qed

lemma parse_head_kind:
  assumes "wf_splitter msg" and "dropWhile is_ascii_whitespace (as_slice msg) = kind @ rest"
    and "valid Word kind" and "kind \<noteq> []" and "hd kind \<notin> {CHR ''@'', CHR '':''}"
    and "rest = [] \<or> hd rest = CHR '' ''"
  shows "\<exists>msg2. wf_splitter msg2 \<and> as_slice msg2 = rest \<and>
    parse_head ps msg et es tags src = Some (Inr (tags, src, kind, msg2))"
proof -
  obtain msg2 where "string_or_default Word False (consume_whitespace msg) = (kind, msg2)"
    "wf_splitter msg2" "as_slice msg2 = rest"
    using next_word [OF assms(1,2,3,6)] by auto
  with assms(4,5) show ?thesis
    by (intro exI [of _ msg2]) (auto simp: parse_head.simps [of ps msg] split: list.splits)
qed

text \<open>The text of a message in front of its kind.\<close>

definition head_text :: "tags \<Rightarrow> source option \<Rightarrow> bytes" where
  "head_text tags src =
     (if tags \<noteq> [] then tags_write tags @ '' '' else []) @
     (case src of Some s \<Rightarrow> CHR '':'' # src_write s @ '' '' | None \<Rightarrow> [])"

lemma msg_write_text: "msg_write tags src kind args = head_text tags src @ kind @ args_text args"
proof -
  have "concat (map (\<lambda>w. CHR '' '' # w) (butlast ws)) @ CHR '' '' # last ws = concat (map (\<lambda>w. CHR '' '' # w) ws)"
    if "ws \<noteq> []" for ws :: "bytes list"
    using that by (induction ws) auto
  then show ?thesis
    by (auto simp: msg_write_def head_text_def args_text_def split_last_def is_last_long_def tags_is_empty_def
        split: option.splits)
qed

text \<open>What a well-formed kind looks like to the head of the parser.\<close>

definition kind_text_ok :: "bytes \<Rightarrow> bool" where
  "kind_text_ok k \<longleftrightarrow> valid Word k \<and> plain_start k \<and> hd k \<notin> {CHR ''@'', CHR '':''}"

lemma kind_text_drop: "kind_text_ok k \<Longrightarrow> dropWhile is_ascii_whitespace (k @ s) = k @ s"
  by (simp add: kind_text_ok_def dropWhile_plain)

lemma args_text_hd: "args_text a = [] \<or> hd (args_text a) = CHR '' ''"
  by (cases "words a"; cases "long a") (simp_all add: args_text_def)

lemma not_whitespace [simp]: "\<not> is_ascii_whitespace (CHR ''@'')" "\<not> is_ascii_whitespace (CHR '':'')"
  by (simp_all add: is_ascii_whitespace_def)

lemma parse_head_tail:
  assumes "wf_splitter msg" and "kind_text_ok kind"
    and "as_slice msg = sp1 @ (case src of Some s \<Rightarrow> CHR '':'' # src_write s @ '' '' | None \<Rightarrow> []) @ kind @ args_text args"
    and "sp1 = [] \<or> sp1 = '' ''" and "\<And>s. src = Some s \<Longrightarrow> src_ok s \<and> ps (src_write s) = Inr (f s)"
  shows "\<exists>msg2. wf_splitter msg2 \<and> as_slice msg2 = args_text args \<and>
    parse_head ps msg et True tags None = Some (Inr (tags, map_option f src, kind, msg2))"
proof -
  have k: "valid Word kind" "kind \<noteq> []" "hd kind \<notin> {CHR ''@'', CHR '':''}"
    using assms(2) by (auto simp: kind_text_ok_def plain_start_def)
  show ?thesis
  proof (cases src)
    case None
    then have "dropWhile is_ascii_whitespace (as_slice msg) = kind @ args_text args"
      using assms(3,4) kind_text_drop [OF assms(2)] by auto
    from parse_head_kind [OF assms(1) this k args_text_hd] None show ?thesis by simp
  next
    case (Some s)
    let ?rest = "'' '' @ kind @ args_text args"
    have d: "dropWhile is_ascii_whitespace (as_slice msg) = CHR '':'' # src_write s @ ?rest"
      using assms(3,4) Some by auto
    have s: "valid Word (src_write s)" "ps (src_write s) = Inr (f s)"
      using assms(5) [OF Some] src_write_valid(1) by auto
    from parse_head_source [where ps = ps and body = "src_write s" and rest = ?rest, OF assms(1) d s(1) _ s(2),
        of et tags None]
    obtain msg1 where m: "wf_splitter msg1" "as_slice msg1 = ?rest"
      "parse_head ps msg et True tags None = parse_head ps msg1 False False tags (Some (f s))" by auto
    have "dropWhile is_ascii_whitespace (as_slice msg1) = kind @ args_text args"
      using m(2) kind_text_drop [OF assms(2)] by simp
    from parse_head_kind [OF m(1) this k args_text_hd, of ps False False tags "Some (f s)"] m(3) Some
    show ?thesis by simp
  qed
qed

text \<open>Parsing what was written gives back the message, with the tag values as the tag parser
  returns them.\<close>

lemma msg_parse_write:
  assumes "tags_ok tags" and "kind_text_ok kind" and "args_ok args" and "\<forall>w \<in> set (words args). plain_start w"
    and "\<And>s. src = Some s \<Longrightarrow> src_ok s \<and> ps (src_write s) = Inr (f s)" and "pk kind = Inr k"
  shows "msg_parse (msg_write tags src kind args) ps pk =
    Some (Inr (map reparsed tags, map_option f src, k, args))"
proof -
  let ?line = "msg_write tags src kind args"
  let ?src = "case src of Some s \<Rightarrow> CHR '':'' # src_write s @ '' '' | None \<Rightarrow> []"
  have "\<exists>msg2. wf_splitter msg2 \<and> as_slice msg2 = args_text args \<and>
    parse_head ps (sp_new False ?line) True True tags_new None =
      Some (Inr (map reparsed tags, map_option f src, kind, msg2))"
  proof (cases "tags = []")
    case True
    have "as_slice (sp_new False ?line) = [] @ ?src @ kind @ args_text args"
      by (simp add: sp_new_slice msg_write_text head_text_def True)
    from parse_head_tail [OF sp_new_wf assms(2) this _ assms(5), of True tags_new] True
    show ?thesis by (simp add: tags_new_def fm_new_def)
  next
    case False
    let ?body = "tl (tags_write tags)" and ?rest = "'' '' @ ?src @ kind @ args_text args"
    have w: "tags_write tags = CHR ''@'' # ?body" using False by (cases tags) (auto simp: tags_write_def)
    have "valid Word (CHR ''@'' # ?body)" using tags_write_Word [OF assms(1)] w by simp
    then have b: "valid Word ?body" by (simp add: valid_Word_iff)
    have d: "dropWhile is_ascii_whitespace (as_slice (sp_new False ?line)) = CHR ''@'' # ?body @ ?rest"
      using False by (simp add: sp_new_slice msg_write_text head_text_def) (subst w, simp)
    from parse_head_tags [OF sp_new_wf d b _ tags_parse_write [OF assms(1)], of ps True tags_new None]
    obtain msg2 where m: "wf_splitter msg2" "as_slice msg2 = ?rest"
      "parse_head ps (sp_new False ?line) True True tags_new None =
        parse_head ps msg2 False True (map reparsed tags) None" by auto
    from parse_head_tail [OF m(1) assms(2) m(2) _ assms(5), of False "map reparsed tags"] m(3)
    show ?thesis by simp
  qed
  then obtain msg2 where "as_slice msg2 = args_text args"
    "parse_head ps (sp_new False ?line) True True tags_new None =
      Some (Inr (map reparsed tags, map_option f src, kind, msg2))" by blast
  with assms(3,4,6) show ?thesis by (simp add: msg_parse_def split_def args_parse_text)
qed

section \<open>Well-formed messages\<close>

definition server_msg_ok :: "server_msg \<Rightarrow> bool" where
  "server_msg_ok m \<longleftrightarrow> tags_ok (sm_tags m) \<and> kind_ok (sm_kind m) \<and> args_ok (sm_args m) \<and>
     (case sm_source m of Some s \<Rightarrow> src_ok s | None \<Rightarrow> True)"

definition client_msg_ok :: "client_msg \<Rightarrow> bool" where
  "client_msg_ok m \<longleftrightarrow> tags_ok (cm_tags m) \<and> valid Cmd (cm_cmd m) \<and> args_ok (cm_args m)"

lemma uppercase_special: "is_ascii_uppercase b \<Longrightarrow> b \<noteq> CHR ''@'' \<and> \<not> is_ascii_whitespace b"
  by (auto simp: is_ascii_uppercase_def is_ascii_whitespace_def)

lemma digit_special: "is_ascii_digit b \<Longrightarrow> b \<noteq> CHR ''@'' \<and> \<not> is_ascii_whitespace b"
  by (auto simp: is_ascii_digit_def is_ascii_whitespace_def)

lemma cmd_text_ok: "valid Cmd c \<Longrightarrow> kind_text_ok c"
proof -
  assume c: "valid Cmd c"
  then have "valid Arg c" by (rule valid_subtypes)
  moreover obtain b r where "c = b # r" "is_ascii_uppercase b" using c by (cases c) (auto simp: valid_Cmd_iff)
  ultimately show ?thesis using uppercase_special by (auto simp: kind_text_ok_def plain_start_def valid_Arg_iff)
qed

lemma kind_text: "kind_ok k \<Longrightarrow> kind_text_ok (kind_as_arg k)"
proof (cases k)
  case (KNumeric n)
  assume k: "kind_ok k"
  then have "valid Arg n" using kind_arg_ok [OF k] KNumeric by (simp add: kind_as_arg_def kind_as_str_def)
  moreover obtain b r where "n = b # r" "is_ascii_digit b"
    using k KNumeric by (cases n) (auto simp: kind_ok_def numeric_ok_def)
  ultimately show ?thesis
    using KNumeric digit_special by (auto simp: kind_as_arg_def kind_as_str_def kind_text_ok_def plain_start_def valid_Arg_iff)
qed (auto simp: kind_ok_def kind_as_arg_def kind_as_str_def cmd_text_ok)

lemma server_parse_kind_text: "kind_ok k \<Longrightarrow> server_parse_kind (kind_as_arg k) = Inr k"
proof (cases k)
  case (KCmd c)
  assume "kind_ok k"
  with KCmd have c: "valid Cmd c" by (simp add: kind_ok_def)
  then obtain b r where "c = b # r" "is_ascii_uppercase b" by (cases c) (auto simp: valid_Cmd_iff)
  then have "\<not> numeric_ok c" by (auto simp: numeric_ok_def is_ascii_digit_def is_ascii_uppercase_def)
  with KCmd c show ?thesis
    by (simp add: server_parse_kind_def numeric_from_bytes_eq kind_as_arg_def kind_as_str_def cmd_from_word_cmd)
qed (simp add: server_parse_kind_def numeric_from_bytes_eq kind_ok_def kind_as_arg_def kind_as_str_def)

text \<open>What is written is a \<open>Line\<close>.\<close>

lemma valid_Line_append: "valid Line (a @ b) \<longleftrightarrow> valid Line a \<and> valid Line b"
  by (auto simp: valid_Line_iff)

lemma args_text_Line: "args_ok a \<Longrightarrow> valid Line (args_text a)"
  using valid_subtypes(5,6)
  by (fastforce simp: args_text_def args_ok_def valid_Line_iff split: option.splits)

lemma head_text_Line:
  assumes "tags_ok t" and "\<And>s. src = Some s \<Longrightarrow> src_ok s"
  shows "valid Line (head_text t src)"
proof -
  have "valid Line (tags_write t)" by (rule valid_subtypes, rule tags_write_Word [OF assms(1)])
  moreover have "valid Line (src_write s)" if "src = Some s" for s
    by (rule valid_subtypes, rule src_write_valid [OF assms(2) [OF that]])
  ultimately show ?thesis by (auto simp: head_text_def valid_Line_iff split: option.splits)
qed

lemma msg_write_Line:
  assumes "tags_ok t" and "\<And>s. src = Some s \<Longrightarrow> src_ok s" and "valid Word k" and "args_ok a"
  shows "valid Line (msg_write t src k a)"
  using head_text_Line [OF assms(1,2)] args_text_Line [OF assms(4)] valid_subtypes(6) [OF assms(3)]
  by (simp add: msg_write_text valid_Line_append)

lemma server_write_Line: "server_msg_ok m \<Longrightarrow> valid Line (server_write_to m)"
  unfolding server_write_to_def
  by (rule msg_write_Line) (auto simp: server_msg_ok_def dest: kind_arg_ok valid_subtypes split: option.splits)

lemma client_write_Line: "client_msg_ok m \<Longrightarrow> valid Line (client_write_to m)"
  unfolding client_write_to_def
  by (rule msg_write_Line) (auto simp: client_msg_ok_def dest: valid_subtypes)

definition wire_safe :: "tags \<Rightarrow> args \<Rightarrow> bool" where
  "wire_safe t a \<longleftrightarrow> (\<forall>(k, v) \<in> set t. \<forall>b \<in> set v. escape_byte b = None) \<and> (\<forall>w \<in> set (words a). plain_start w)"

lemma reparsed_plain: "\<forall>(k, v) \<in> set t. \<forall>b \<in> set v. escape_byte b = None \<Longrightarrow> map reparsed t = t"
  by (intro map_idI) (auto simp: reparsed_def unescape_escape_plain)

lemma server_parse_write:
  assumes "server_msg_ok m" and "\<forall>w \<in> set (words (sm_args m)). plain_start w"
    and "\<And>s. sm_source m = Some s \<Longrightarrow> src_host s \<noteq> Some []"
  shows "server_msg_parse (server_write_to m) = Some (Inr (m\<lparr>sm_tags := map reparsed (sm_tags m)\<rparr>))"
proof -
  have "msg_parse (server_write_to m) src_parse server_parse_kind =
      Some (Inr (map reparsed (sm_tags m), map_option (\<lambda>s. s) (sm_source m), sm_kind m, sm_args m))"
    unfolding server_write_to_def
    using assms
    by (intro msg_parse_write)
      (auto simp: server_msg_ok_def kind_text server_parse_kind_text src_parse_write split: option.splits)
  with server_write_Line [OF assms(1)] show ?thesis
    by (cases m) (simp add: server_msg_parse_def from_bytes_def valid_def option.map_ident)
qed

lemma client_parse_write:
  assumes "client_msg_ok m" and "\<forall>w \<in> set (words (cm_args m)). plain_start w"
  shows "client_msg_parse (client_write_to m) = Some (Inr (m\<lparr>cm_tags := map reparsed (cm_tags m)\<rparr>))"
proof -
  have "msg_parse (client_write_to m) (\<lambda>_. Inr ()) client_parse_kind =
      Some (Inr (map reparsed (cm_tags m), map_option (\<lambda>s :: source. ()) None, cm_cmd m, cm_args m))"
    unfolding client_write_to_def
    using assms
    by (intro msg_parse_write) (auto simp: client_msg_ok_def cmd_text_ok client_parse_kind_def cmd_from_word_cmd)
  with client_write_Line [OF assms(1)] show ?thesis
    by (cases m) (simp add: client_msg_parse_def from_bytes_def valid_def)
qed

section \<open>Every parsed message is well-formed\<close>

lemma parse_head_ok:
  assumes "wf_splitter msg" and "\<forall>b \<in> set (as_slice msg). \<not> is_invalid Line b" and "tags_ok tags"
    and "\<forall>s. src = Some s \<longrightarrow> Q s" and "\<forall>w s. valid Word w \<longrightarrow> ps w = Inr s \<longrightarrow> Q s"
    and "parse_head ps msg et es tags src = Some (Inr (t, s, w, msg'))"
  shows "tags_ok t \<and> (\<forall>x. s = Some x \<longrightarrow> Q x) \<and> valid Word w \<and> w \<noteq> [] \<and>
    wf_splitter msg' \<and> (\<forall>b \<in> set (as_slice msg'). \<not> is_invalid Line b)"
  using assms
proof (induction ps msg et es tags src rule: parse_head.induct)
  case (1 ps msg et es tags src)
  let ?m1 = "consume_whitespace msg"
  obtain w0 m2 where e: "string_or_default Word False ?m1 = (w0, m2)" by fastforce
  then have w0: "w0 = unwrap_or [] (slice_string Word False (as_slice ?m1))"
    and m2': "m2 = snd (string_or_default Word False ?m1)"
    by (simp_all add: string_or_default_advance)
  have v: "valid Word w0"
    by (cases "slice_string Word False (as_slice ?m1)")
      (auto simp: w0 slice_string_valid valid_iff [of Word "[]"])
  have m2: "wf_splitter m2" "\<forall>b \<in> set (as_slice m2). \<not> is_invalid Line b"
    using "1.prems"(1,2)
    by (auto simp: m2' string_or_default_wf consume_whitespace_wf string_or_default_slice consume_whitespace_slice
        dest!: in_set_dropD set_dropWhileD)
  show ?case
  proof (cases w0)
    case Nil
    with "1.prems"(6) e show ?thesis by (subst (asm) parse_head.simps) simp
  next
    case (Cons b body)
    then have vb: "valid Word body" using v by (simp add: valid_Word_iff)
    obtain b1 w1 where nb: "next_byte (sp_new False w0) = (b1, w1)" by fastforce
    moreover have "as_slice (snd (next_byte (sp_new False w0))) = body"
      by (simp add: next_byte_slice sp_new_slice Cons)
    ultimately obtain w2 where rb: "rest_or_default Word w1 = (body, w2)"
      by (metis insertI1 insertI2 prod.collapse rest_or_default_total snd_conv)
    consider "b = CHR ''@'' \<and> et" | "\<not> (b = CHR ''@'' \<and> et)" "b = CHR '':'' \<and> es"
      | "\<not> (b = CHR ''@'' \<and> et)" "\<not> (b = CHR '':'' \<and> es)" by blast
    then show ?thesis
    proof cases
      case 1
      with "1.prems"(6) e Cons obtain t0 where t0: "tags_parse body = Some t0"
        "parse_head ps m2 False es t0 src = Some (Inr (t, s, w, msg'))"
        by (subst (asm) parse_head.simps)
          (auto simp: split_def next_byte_slice sp_new_slice split: option.splits)
      have "tags_ok t0" using tags_parse_ok [OF vb t0(1)] .
      from "1.IH"(1) [OF refl e [symmetric] refl Cons 1 refl nb [symmetric] refl rb [symmetric] t0(1)
          m2 this "1.prems"(4,5) t0(2)]
      show ?thesis by simp
    next
      case 2
      with "1.prems"(6) e Cons obtain s0 where s0: "ps body = Inr s0"
        "parse_head ps m2 False False tags (Some s0) = Some (Inr (t, s, w, msg'))"
        by (subst (asm) parse_head.simps)
          (auto simp: split_def next_byte_slice sp_new_slice split: sum.splits)
      have "Q s0" using "1.prems"(5) vb s0(1) by blast
      with "1.IH"(2) [OF refl e [symmetric] refl Cons 2 refl nb [symmetric] refl rb [symmetric] s0(1)
          m2 "1.prems"(3) _ "1.prems"(5) s0(2)]
      show ?thesis by simp
    next
      case 3
      with "1.prems"(6) e Cons have "t = tags" "s = src" "w = w0" "msg' = m2"
        by (subst (asm) parse_head.simps, auto)+
      with "1.prems"(3,4) v m2 Cons show ?thesis by auto
    qed
  qed
qed

lemma msg_parse_ok:
  assumes "valid Line line" and "msg_parse line ps pk = Some (Inr (t, s, k, a))"
    and "\<forall>w x. valid Word w \<longrightarrow> ps w = Inr x \<longrightarrow> Q x"
  shows "tags_ok t \<and> (\<forall>x. s = Some x \<longrightarrow> Q x) \<and> args_ok a \<and> (\<exists>w. valid Word w \<and> w \<noteq> [] \<and> pk w = Inr k)"
proof -
  from assms(2) obtain w msg where h: "parse_head ps (sp_new False line) True True tags_new None = Some (Inr (t, s, w, msg))"
    and k: "pk w = Inr k" and a: "a = args_parse (as_slice msg)"
    by (auto simp: msg_parse_def split_def split: option.splits sum.splits prod.splits)
  have "tags_ok tags_new" by (simp add: tags_ok_def tags_new_def fm_new_def fm_ok_def)
  from parse_head_ok [OF sp_new_wf _ this _ assms(3) h] assms(1)
  have *: "tags_ok t" "\<forall>x. s = Some x \<longrightarrow> Q x" "valid Word w" "w \<noteq> []" "\<forall>b \<in> set (as_slice msg). \<not> is_invalid Line b"
    by (auto simp: sp_new_slice valid_iff)
  then have "args_ok a" unfolding a by (intro args_parse_ok) (auto simp: valid_iff)
  with * k show ?thesis by blast
qed

lemma server_parse_ok:
  assumes "server_msg_parse bs = Some (Inr m)"
  shows "server_msg_ok m"
proof -
  from assms obtain t s k a where l: "valid Line bs"
    and p: "msg_parse bs src_parse server_parse_kind = Some (Inr (t, s, k, a))"
    and m: "m = \<lparr>sm_tags = t, sm_source = s, sm_kind = k, sm_args = a\<rparr>"
    by (auto simp: server_msg_parse_def from_bytes_def valid_def bind_res_Inr split: option.splits)
  have "\<forall>w x. valid Word w \<longrightarrow> src_parse w = Inr x \<longrightarrow> src_ok x" using src_parse_ok by blast
  from msg_parse_ok [where Q = src_ok, OF l p this]
  obtain w where *: "tags_ok t" "\<forall>x. s = Some x \<longrightarrow> src_ok x" "args_ok a" "w \<noteq> []" "server_parse_kind w = Inr k"
    by blast
  have "kind_ok k"
    using *(4,5) cmd_from_word_valid [of w]
    by (auto simp: server_parse_kind_def kind_ok_def numeric_from_bytes_eq bind_res_Inr split: option.splits if_splits)
  with * m show ?thesis by (auto simp: server_msg_ok_def split: option.splits)
qed

lemma client_parse_ok:
  assumes "client_msg_parse bs = Some (Inr m)"
  shows "client_msg_ok m"
proof -
  from assms obtain t s k a where l: "valid Line bs"
    and p: "msg_parse bs (\<lambda>_. Inr ()) client_parse_kind = Some (Inr (t, s, k, a))"
    and m: "m = \<lparr>cm_tags = t, cm_cmd = k, cm_args = a\<rparr>"
    by (auto simp: client_msg_parse_def from_bytes_def valid_def bind_res_Inr split: option.splits)
  from msg_parse_ok [OF l p, of "\<lambda>_. True"]
  obtain w where *: "tags_ok t" "args_ok a" "w \<noteq> []" "client_parse_kind w = Inr k" by blast
  have "valid Cmd k" using *(3,4) cmd_from_word_valid [of w] by (auto simp: client_parse_kind_def)
  with * m show ?thesis by (simp add: client_msg_ok_def)
qed

section \<open>Sizes\<close>

lemma bytes_left_text:
  fixes src kind args
  defines "len \<equiv> int (length (msg_write [] src kind args))"
    and "spare \<equiv> if args_is_empty args \<or> is_last_long args then 0 else 1"
  shows "bytes_left kind (map_option src_len src) args = 510 - min (len + spare) (2 ^ 63 - 1)"
proof -
  have l: "length (msg_write [] src kind args) = length kind + (case src of Some s \<Rightarrow> 2 + src_len s | None \<Rightarrow> 0) +
      len_bytes args + (if is_last_long args then 1 else 0)"
    by (simp add: msg_write_text head_text_def src_write_length len_bytes_text split: option.splits)
  have e: "len_bytes args = 0 \<and> \<not> is_last_long args" if "args_is_empty args"
    using that by (simp add: args_is_empty_def len_bytes_def is_last_long_def)
  have "len + spare = int (length kind + (case src of Some s \<Rightarrow> 2 + src_len s | None \<Rightarrow> 0) +
      (if args_is_empty args then 0 else len_bytes args + 1))"
    using e by (auto simp: len_def spare_def l)
  then show ?thesis by (auto simp: bytes_left_def Let_def split: option.splits)
qed

section \<open>Reading\<close>

lemma read_buf_line:
  assumes "line \<noteq> []" and "last line \<notin> {CHR 0x0A, CHR 0x0D, CHR 0x00}"
  shows "read_buf (rev line) True = ParseLine line"
  using assms by (cases line rule: rev_cases) auto

lemma read_msg_eof: "0 < limit \<Longrightarrow> read_msg limit parse [] [] = Some (Inl UnexpectedEof, [])"
  by (simp add: read_msg.simps read_until_def)

lemma position_first: "x \<notin> set p \<Longrightarrow> position (\<lambda>b. b = x) (p @ x # s) = Some (length p)"
  by (induction p) auto

text \<open>One terminated line within the limit is read whole, and nothing of the next.\<close>

lemma read_msg_line:
  assumes "line \<noteq> []" and "last line \<notin> {CHR 0x0A, CHR 0x0D, CHR 0x00}" and "CHR 0x0A \<notin> set line"
    and "length line + 2 \<le> limit"
  shows "read_msg limit parse [] (line @ [CHR 0x0D, CHR 0x0A] @ rest) =
    (case parse line of None \<Rightarrow> None | Some r \<Rightarrow> Some (map_err InvalidData r, rest))"
proof -
  let ?inp = "line @ [CHR 0x0D, CHR 0x0A] @ rest" and ?new = "line @ [CHR 0x0D, CHR 0x0A]"
  have t: "take limit ?inp = (line @ [CHR 0x0D]) @ CHR 0x0A # take (limit - (length line + 2)) rest"
    using assms(4) by (simp add: take_Cons' )
  have "position (\<lambda>b. b = CHR 0x0A) (take limit ?inp) = Some (length (line @ [CHR 0x0D]))"
    unfolding t using assms(3) by (intro position_first) auto
  then have r: "read_until (CHR 0x0A) limit ?inp = (?new, rest)" by (simp add: read_until_def)
  have b: "read_buf (rev ?new) False = ParseLine line"
    using read_buf_line [OF assms(1,2)] by simp
  have "0 < limit" using assms(4) by simp
  with r b show ?thesis by (subst read_msg.simps) simp
qed

text \<open>The end of the stream inside a line is reported as an overlong line.\<close>

lemma read_msg_partial:
  assumes "line \<noteq> []" and "last line \<notin> {CHR 0x0A, CHR 0x0D, CHR 0x00}" and "CHR 0x0A \<notin> set line"
    and "length line \<le> limit"
  shows "read_msg limit parse [] line = Some (Inl (InvalidData TooLong), [])"
proof -
  have "position (\<lambda>b. b = CHR 0x0A) (take limit line) = None"
    using assms(3) by (auto simp: position_None dest: in_set_takeD)
  then have r: "read_until (CHR 0x0A) limit line = (line, [])" using assms(4) by (simp add: read_until_def)
  have "read_buf (rev line) False = BadEnd TooLong"
    using assms(1,2) by (cases line rule: rev_cases) auto
  moreover have "0 < limit" using assms(1,4) by (cases line) auto
  ultimately show ?thesis using r assms(1) by (subst read_msg.simps) simp
qed

lemma read_until_shrinks: "read_until d n inp = (new, rest) \<Longrightarrow> inp = new @ rest"
  by (auto simp: read_until_def split: option.splits)

text \<open>A read returns if the parser does: every turn takes bytes from the stream or empties the
  buffer.\<close>

lemma read_msg_terminates:
  assumes "0 < limit" and "\<And>l. \<exists>r. parse l = Some r"
  shows "\<exists>r. read_msg limit parse buf inp = Some r"
proof (induction "2 * length inp + (if buf = [] then 0 else 1)" arbitrary: buf inp rule: less_induct)
  case less
  obtain new rest where nr:
    "(if length buf < limit then read_until (CHR 0x0A) (limit - length buf) inp else ([], inp)) = (new, rest)"
    by fastforce
  then have app: "inp = new @ rest" by (auto split: if_splits dest: read_until_shrinks)
  show ?case
  proof (cases "length buf < limit \<and> new = []")
    case True
    with nr show ?thesis by (subst read_msg.simps) simp
  next
    case False
    show ?thesis
    proof (cases "read_buf (rev (buf @ new)) False")
      case Again
      have "2 * length rest + 0 < 2 * length inp + (if buf = [] then 0 else 1)"
        using False app assms(1) by (cases new; cases buf) auto
      then have "\<exists>r. read_msg limit parse [] rest = Some r" using less [of rest "[]"] by simp
      with nr False Again show ?thesis by (subst read_msg.simps) simp
    next
      case (BadEnd e)
      with nr False show ?thesis by (subst read_msg.simps) simp
    next
      case (ParseLine l)
      with nr False assms(2) [of l] show ?thesis by (subst read_msg.simps) auto
    qed
  qed
qed

text \<open>A sequence of messages written one after another is read back one by one.\<close>

fun read_all :: "nat \<Rightarrow> nat \<Rightarrow> (bytes \<Rightarrow> ('m, ParseError) result option) \<Rightarrow> bytes \<Rightarrow>
    (('m, io_error) result list \<times> bytes) option" where
  "read_all 0 limit parse inp = Some ([], inp)"
| "read_all (Suc n) limit parse inp =
     (case read_msg limit parse [] inp of
        None \<Rightarrow> None
      | Some (r, inp1) \<Rightarrow> map_option (\<lambda>(rs, inp2). (r # rs, inp2)) (read_all n limit parse inp1))"

lemma valid_Line_ends: "valid Line l \<Longrightarrow> l \<noteq> [] \<Longrightarrow>
    last l \<notin> {CHR 0x0A, CHR 0x0D, CHR 0x00} \<and> CHR 0x0A \<notin> set l"
  using last_in_set [of l] by (auto simp: valid_Line_iff)

lemma read_all_lines:
  assumes "\<forall>m \<in> set ms. f m \<noteq> [] \<and> valid Line (f m) \<and> length (f m) + 2 \<le> limit \<and> parse (f m) = Some (Inr (g m))"
  shows "read_all (length ms) limit parse (concat (map (\<lambda>m. f m @ [CHR 0x0D, CHR 0x0A]) ms) @ rest) =
    Some (map (\<lambda>m. Inr (g m)) ms, rest)"
  using assms
proof (induction ms)
  case (Cons m ms)
  let ?rest = "concat (map (\<lambda>m. f m @ [CHR 0x0D, CHR 0x0A]) ms) @ rest"
  have m: "f m \<noteq> []" "valid Line (f m)" "length (f m) + 2 \<le> limit" "parse (f m) = Some (Inr (g m))"
    using Cons.prems by auto
  from valid_Line_ends [OF m(2,1)] m read_msg_line [of "f m" limit parse ?rest]
  have "read_msg limit parse [] (f m @ [CHR 0x0D, CHR 0x0A] @ ?rest) = Some (Inr (g m), ?rest)" by simp
  with Cons show ?case by simp
qed simp

section \<open>The tokio decoder\<close>

lemma scroll_loop_line:
  assumes "\<forall>b \<in> set line. b \<noteq> CHR 0x0A \<and> b \<noteq> CHR 0x00" and "e + length line + 1 < limit"
  shows "scroll_loop limit (line @ CHR 0x0A # rest) False tr e = (Some (e + length line + 1), tr)"
  using assms by (induction line arbitrary: e) (auto simp: Let_def)

lemma scroll_buf_line:
  assumes "plain_start line" and "\<forall>b \<in> set line. b \<noteq> CHR 0x0A \<and> b \<noteq> CHR 0x00" and "length line + 2 < limit"
  shows "scroll_buf (line @ CHR 0x0D # CHR 0x0A # rest) limit =
    (Some (length line + 2), line @ CHR 0x0D # CHR 0x0A # rest)"
proof -
  obtain b l where line: "line = b # l" "\<not> is_ascii_whitespace b" using assms(1) by (cases line) (auto simp: plain_start_def)
  have b: "b \<noteq> CHR 0x0A" "b \<noteq> CHR 0x00" using assms(2) line by auto
  have "scroll_loop limit ((l @ [CHR 0x0D]) @ CHR 0x0A # rest) False 0 1 = (Some (1 + length (l @ [CHR 0x0D]) + 1), 0)"
    using assms(2,3) line by (intro scroll_loop_line) auto
  with line b assms(3) show ?thesis by (simp add: scroll_buf_def Let_def)
qed

text \<open>The slice handed to \<open>Line::from_bytes\<close> still has its line terminator, so decoding a complete
  message fails.\<close>

lemma find_invalid_Line_CR:
  "valid Line line \<Longrightarrow> from_bytes Line (line @ CHR 0x0D # s) = Inl (Byte (CHR 0x0D))"
proof -
  assume l: "valid Line line"
  have "check_bytes (is_invalid Line) (line @ CHR 0x0D # s) = Some (Byte (CHR 0x0D))"
    using l by (induction line) (auto simp: valid_iff invalid_defs)
  then show ?thesis by (simp add: from_bytes_def find_invalid_def)
qed

lemma codec_decode_line:
  assumes "valid Line line" and "plain_start line" and "length line + 2 < limit"
  shows "codec_decode limit parse (line @ CHR 0x0D # CHR 0x0A # rest) =
    Some (Inl (InvalidDataString (Byte (CHR 0x0D))), rest)"
proof -
  have "\<forall>b \<in> set line. b \<noteq> CHR 0x0A \<and> b \<noteq> CHR 0x00" using assms(1) by (auto simp: valid_Line_iff)
  from scroll_buf_line [OF assms(2) this assms(3)] find_invalid_Line_CR [OF assms(1), of "[CHR 0x0A]"]
  show ?thesis by (simp add: codec_decode_def)
qed

section \<open>Properties\<close>

text \<open>C1: A well-formed server message, whose tag values need no escape, whose words do not start
  with a tab or form feed and whose source has no empty host, is parsed back from its wire form
  exactly: tags, source, kind and arguments.\<close>

theorem server_roundtrip:
  assumes "server_msg_ok m" and "wire_safe (sm_tags m) (sm_args m)"
    and "\<And>s. sm_source m = Some s \<Longrightarrow> src_host s \<noteq> Some []"
  shows "server_msg_parse (server_write_to m) = Some (Inr m)"
  using server_parse_write [OF assms(1)] assms(2,3) by (simp add: wire_safe_def reparsed_plain)

definition example_tags :: tags where
  "example_tags = [(''a'', ''1''), (''b'', [])]"

definition example_server_msg :: server_msg where
  "example_server_msg =
     \<lparr>sm_tags = example_tags, sm_source = Some (new_user ''n'' ''u'' ''h''), sm_kind = KNumeric ''001'',
      sm_args = \<lparr>words = [''x''], long = Some ''a b''\<rparr>\<rparr>"

lemmas example_defs = example_tags_def example_server_msg_def tags_ok_def fm_ok_def kind_ok_def numeric_ok_def
  args_ok_def src_ok_def src_host_def new_user_def valid_iff arg_first_check_def invalid_defs
  is_ascii_digit_def is_ascii_uppercase_def wire_safe_def escape_byte_def plain_start_def is_ascii_whitespace_def

lemma example_server_ok:
  "server_msg_ok example_server_msg"
  "wire_safe (sm_tags example_server_msg) (sm_args example_server_msg)"
  "sm_source example_server_msg = Some s \<Longrightarrow> src_host s \<noteq> Some []"
  by (auto simp: server_msg_ok_def example_defs)

theorem server_roundtrip_witness:
  "server_msg_ok example_server_msg \<and>
   server_msg_parse (server_write_to example_server_msg) = Some (Inr example_server_msg)"
  using server_roundtrip [OF example_server_ok] example_server_ok(1) by blast

text \<open>The same for client messages.\<close>

lemma client_roundtrip:
  assumes "client_msg_ok m" and "wire_safe (cm_tags m) (cm_args m)"
  shows "client_msg_parse (client_write_to m) = Some (Inr m)"
  using client_parse_write [OF assms(1)] assms(2) by (simp add: wire_safe_def reparsed_plain)

definition example_client_msg :: client_msg where
  "example_client_msg =
     \<lparr>cm_tags = example_tags, cm_cmd = ''PRIVMSG'', cm_args = \<lparr>words = [''x''], long = Some ''a b''\<rparr>\<rparr>"

lemma example_client_ok:
  "client_msg_ok example_client_msg"
  "wire_safe (cm_tags example_client_msg) (cm_args example_client_msg)"
  by (auto simp: client_msg_ok_def example_client_msg_def example_defs)

text \<open>C12: Whatever bytes arrive, a server message that parsing returns is well-formed: sorted tags with
  valid keys and values, a valid source and kind, and an argument list that keeps its invariant.\<close>

theorem server_parse_well_formed:
  assumes "server_msg_parse bs = Some (Inr m)"
  shows "server_msg_ok m"
  using assms by (rule server_parse_ok)

theorem server_parse_well_formed_witness:
  "server_msg_parse (server_write_to example_server_msg) = Some (Inr example_server_msg) \<and>
   server_msg_ok example_server_msg"
proof -
  have p: "server_msg_parse (server_write_to example_server_msg) = Some (Inr example_server_msg)"
    using server_parse_write [OF example_server_ok(1)] example_server_ok(2,3)
    by (simp add: wire_safe_def reparsed_plain)
  with server_parse_well_formed [OF p] show ?thesis by blast
qed

text \<open>The same for client messages.\<close>

lemma client_parse_well_formed:
  assumes "client_msg_parse bs = Some (Inr m)"
  shows "client_msg_ok m"
  using assms by (rule client_parse_ok)

text \<open>C9: Messages that a server sends one after another over a stream are read by the client one by
  one, in order and complete, and what follows them in the stream stays there.  The messages are
  well formed, fit the longest line with their terminator, have tag values that need no escape, words
  that do not start with a tab or form feed, and no source with an empty host.\<close>

theorem stream_roundtrip:
  assumes "\<forall>m \<in> set ms. server_msg_ok m \<and> wire_safe (sm_tags m) (sm_args m) \<and>
      (\<forall>s. sm_source m = Some s \<longrightarrow> src_host s \<noteq> Some []) \<and> length (server_write_to m) + 2 \<le> server_MAX_LEN"
  shows "read_all (length ms) server_MAX_LEN server_msg_parse
      (concat (map (\<lambda>m. fst (server_send_to m [])) ms) @ rest) = Some (map Inr ms, rest)"
proof -
  have ne: "server_write_to m \<noteq> []" if "server_msg_ok m" for m
    using that kind_arg_ok [of "sm_kind m"]
    by (auto simp: server_write_to_def msg_write_text server_msg_ok_def valid_Arg_iff)
  have "\<forall>m \<in> set ms. server_write_to m \<noteq> [] \<and> valid Line (server_write_to m) \<and>
      length (server_write_to m) + 2 \<le> server_MAX_LEN \<and> server_msg_parse (server_write_to m) = Some (Inr m)"
    using assms ne server_write_Line
      server_parse_write by (auto simp: wire_safe_def reparsed_plain)
  from read_all_lines [of ms server_write_to server_MAX_LEN server_msg_parse "\<lambda>m. m" rest] this
  show ?thesis by (simp add: server_send_to_def)
qed

theorem stream_roundtrip_witness:
  "read_all 2 server_MAX_LEN server_msg_parse
     (concat (map (\<lambda>m. fst (server_send_to m [])) [example_server_msg, example_server_msg]) @ ''PING'') =
   Some (map Inr [example_server_msg, example_server_msg], ''PING'')"
proof -
  have "length (server_write_to example_server_msg) + 2 \<le> server_MAX_LEN"
    by (simp add: server_MAX_LEN_def server_write_to_def msg_write_text head_text_def example_server_msg_def
        example_tags_def tags_write_def escape_def src_write_def new_user_def kind_as_arg_def kind_as_str_def
        args_text_def escape_byte_def)
  with example_server_ok
    stream_roundtrip [of "[example_server_msg, example_server_msg]" "''PING''"]
  show ?thesis by (simp add: numeral_2_eq_2)
qed

text \<open>C21: \<open>bytes_left\<close> is what a message without its tags leaves of the 510 bytes that a line has besides its
  terminator, less one byte if the last argument is a word (the colon that a long argument would
  need); so it is exact or one byte too small, as long as the size is an \<open>isize\<close>.  If it is not
  negative, the message fits.\<close>

theorem bytes_left_fits:
  shows "(length (msg_write [] src kind args) + 1 < 2 ^ 63 \<longrightarrow>
     bytes_left kind (map_option src_len src) args =
       510 - int (length (msg_write [] src kind args)) - (if args_is_empty args \<or> is_last_long args then 0 else 1)) \<and>
   (0 \<le> bytes_left kind (map_option src_len src) args \<longrightarrow> length (msg_write [] src kind args) \<le> 510)"
  unfolding bytes_left_text by (auto simp: min_def split: if_splits)

theorem bytes_left_fits_witness:
  "bytes_left ''PRIVMSG'' (map_option src_len None) \<lparr>words = [''x''], long = Some ''a b''\<rparr> = 496 \<and>
   length (msg_write [] None ''PRIVMSG'' \<lparr>words = [''x''], long = Some ''a b''\<rparr>) \<le> 510"
proof -
  let ?a = "\<lparr>words = [''x''], long = Some ''a b''\<rparr>"
  have l: "length (msg_write [] None ''PRIVMSG'' ?a) = 14" "is_last_long ?a"
    by (simp_all add: msg_write_text head_text_def args_text_def is_last_long_def)
  from bytes_left_fits [of None "''PRIVMSG''" ?a] l show ?thesis by simp
qed

text \<open>The asynchronous decoder refuses every complete line: the bytes it hands to the parser still
  contain the line terminator.\<close>

lemma decode_refuses_lines:
  assumes "valid Line line" and "plain_start line" and "length line + 2 < server_MAX_LEN"
  shows "codec_decode server_MAX_LEN server_msg_parse (line @ [CHR 0x0D, CHR 0x0A] @ rest) =
    Some (Inl (InvalidDataString (Byte (CHR 0x0D))), rest)"
  using codec_decode_line [OF assms] by simp

text \<open>A stream that ends inside a line, within the limit, is reported as an overlong message and not
  as the end of the stream.\<close>

lemma eof_in_line_is_too_long:
  assumes "valid Line line" and "line \<noteq> []" and "length line \<le> server_MAX_LEN"
  shows "client_read [] line = Some (Inl (InvalidData TooLong), [])"
  using read_msg_partial [OF assms(2) _ _ assms(3)] valid_Line_ends [OF assms(1,2)]
  by (simp add: client_read_def)

end
