(* ===== verification/Queue.thy ===== *)
theory Queue
  imports Codec
begin

text \<open>
  The rate-limited message queue, \<open>client/queue.rs\<close>.  Points in time and durations are natural
  numbers of nanoseconds; every reading of the clock is an argument of the operation, and the largest
  \<open>Instant\<close> of the platform is the parameter \<open>imax\<close>.  The boxed closures and trait objects are
  records of their state and functions.
\<close>

section \<open>Adjusters\<close>

record 'a adjuster =
  a_state :: 'a
  a_should :: "server_msg \<Rightarrow> 'a \<Rightarrow> bool \<times> 'a"
  a_update :: "client_msg \<Rightarrow> 'a \<Rightarrow> (bool \<times> client_msg) \<times> 'a"
  a_reset :: "'a \<Rightarrow> 'a"

definition should_adjust :: "server_msg \<Rightarrow> 'a adjuster \<Rightarrow> bool \<times> 'a adjuster" where
  "should_adjust msg adj = (let (r, s) = a_should adj msg (a_state adj) in (r, adj\<lparr>a_state := s\<rparr>))"

definition adj_update :: "client_msg \<Rightarrow> 'a adjuster \<Rightarrow> (bool \<times> client_msg) \<times> 'a adjuster" where
  "adj_update msg adj = (let (r, s) = a_update adj msg (a_state adj) in (r, adj\<lparr>a_state := s\<rparr>))"

definition adj_reset :: "'a adjuster \<Rightarrow> 'a adjuster" where
  "adj_reset adj = adj\<lparr>a_state := a_reset adj (a_state adj)\<rparr>"

text \<open>\<open>MultiAdjuster\<close>: its members, each with the answer of its last \<open>should_adjust\<close>.\<close>

type_synonym 'a multi_adjuster = "('a adjuster \<times> bool) list"

definition multi_new :: "'a multi_adjuster" where
  "multi_new = []"

definition multi_add :: "'a adjuster \<Rightarrow> 'a multi_adjuster \<Rightarrow> 'a multi_adjuster" where
  "multi_add adj m = m @ [(adj, False)]"

definition multi_clear :: "'a multi_adjuster \<Rightarrow> 'a multi_adjuster" where
  "multi_clear m = []"

definition multi_from_iter :: "'a adjuster list \<Rightarrow> 'a multi_adjuster" where
  "multi_from_iter as = map (\<lambda>b. (b, False)) as"

fun multi_should :: "server_msg \<Rightarrow> 'a multi_adjuster \<Rightarrow> bool \<times> 'a multi_adjuster" where
  "multi_should msg [] = (False, [])"
| "multi_should msg ((adj, _) # m) =
     (let (r, adj') = should_adjust msg adj; (rs, m') = multi_should msg m in (r \<or> rs, (adj', r) # m'))"

fun multi_update :: "client_msg \<Rightarrow> 'a multi_adjuster \<Rightarrow> (bool \<times> client_msg) \<times> 'a multi_adjuster" where
  "multi_update msg [] = ((True, msg), [])"
| "multi_update msg ((adj, sh) # m) =
     (if sh then
        (let ((r, msg1), adj') = adj_update msg adj; ((rs, msg2), m') = multi_update msg1 m
         in ((r \<and> rs, msg2), (adj', sh) # m'))
      else (let (r, m') = multi_update msg m in (r, (adj, sh) # m')))"

definition multi_reset :: "'a multi_adjuster \<Rightarrow> 'a multi_adjuster" where
  "multi_reset m = map (\<lambda>(adj, _). (adj_reset adj, False)) m"

text \<open>A \<open>MultiAdjuster\<close> is itself an adjuster.\<close>

definition multi_as_adjuster :: "'a multi_adjuster \<Rightarrow> 'a multi_adjuster adjuster" where
  "multi_as_adjuster m = \<lparr>a_state = m, a_should = multi_should, a_update = multi_update, a_reset = multi_reset\<rparr>"

section \<open>The queue\<close>

record 'l labeler =
  l_state :: 'l
  l_next :: "'l \<Rightarrow> bytes \<times> 'l"

record ('a, 'l) queue =
  q_queue :: "client_msg list"
  q_delay :: nat
  q_sub :: nat
  q_timepoint :: nat
  q_labeler :: "'l labeler option"
  q_adjuster :: "'a adjuster option"

definition secs :: "nat \<Rightarrow> nat" where
  "secs n = n * 10 ^ 9"

definition duration_max :: nat where
  "duration_max = 2 ^ 64 * 10 ^ 9 - 1"

definition saturating_mul :: "nat \<Rightarrow> 32 word \<Rightarrow> nat" where
  "saturating_mul d n = min duration_max (d * unat n)"

definition saturating_add :: "nat \<Rightarrow> nat \<Rightarrow> nat" where
  "saturating_add a b = min duration_max (a + b)"

definition from_queue :: "nat \<Rightarrow> client_msg list \<Rightarrow> ('a, 'l) queue" where
  "from_queue now ms =
     \<lparr>q_queue = ms, q_delay = secs 2, q_sub = secs 8, q_timepoint = now, q_labeler = None, q_adjuster = None\<rparr>"

definition queue_new :: "nat \<Rightarrow> ('a, 'l) queue" where
  "queue_new now = from_queue now []"

definition queue_is_empty :: "('a, 'l) queue \<Rightarrow> bool" where
  "queue_is_empty q \<longleftrightarrow> q_queue q = []"

definition queue_len :: "('a, 'l) queue \<Rightarrow> nat" where
  "queue_len q = length (q_queue q)"

text \<open>\<open>checked_add\<close> gives nothing beyond the largest instant.\<close>

definition set_rate_limit :: "nat \<Rightarrow> nat \<Rightarrow> nat \<Rightarrow> 32 word \<Rightarrow> ('a, 'l) queue \<Rightarrow> ('a, 'l) queue" where
  "set_rate_limit imax now delay burst q =
     (let sub = saturating_mul delay burst;
          t = now + saturating_add sub delay
      in q\<lparr>q_delay := delay, q_sub := sub, q_timepoint := (if t \<le> imax then t else now)\<rparr>)"

datatype pop_outcome = PopMsg client_msg | PopTimeout "nat option"

text \<open>\<open>pop\<close> reads the clock twice; \<open>None\<close> is the panic when the next instant cannot be represented.
  What is handed to \<open>timeout_fn\<close> is part of the outcome.\<close>

definition pop :: "nat \<Rightarrow> nat \<Rightarrow> nat \<Rightarrow> ('a, 'l) queue \<Rightarrow> (pop_outcome \<times> ('a, 'l) queue) option" where
  "pop imax now1 now2 q =
     (case q_queue q of
        value # rest \<Rightarrow>
          (let delay = (q_timepoint q - now1) - q_sub q in
           if delay = 0 then
             (let t = max (q_timepoint q) now2 + q_delay q in
              if imax < t then None else Some (PopMsg value, q\<lparr>q_queue := rest, q_timepoint := t\<rparr>))
           else Some (PopTimeout (Some delay), q\<lparr>q_queue := value # rest\<rparr>))
      | [] \<Rightarrow> Some (PopTimeout None, q))"

text \<open>\<open>retain_mut\<close> with the update of the adjuster.\<close>

fun retain_update :: "client_msg list \<Rightarrow> 'a adjuster \<Rightarrow> client_msg list \<times> 'a adjuster" where
  "retain_update [] adj = ([], adj)"
| "retain_update (m # ms) adj =
     (let ((keep, m'), adj1) = adj_update m adj; (ms', adj2) = retain_update ms adj1
      in (if keep then m' # ms' else ms', adj2))"

definition adjust :: "server_msg \<Rightarrow> ('a, 'l) queue \<Rightarrow> ('a, 'l) queue" where
  "adjust msg q =
     (case q_adjuster q of
        None \<Rightarrow> q
      | Some adj \<Rightarrow>
          (let (should, adj1) = should_adjust msg adj in
           if should then
             (let (ms, adj2) = retain_update (q_queue q) adj1 in q\<lparr>q_queue := ms, q_adjuster := Some adj2\<rparr>)
           else q\<lparr>q_adjuster := Some adj1\<rparr>))"

definition use_adjuster :: "'a adjuster \<Rightarrow> ('a, 'l) queue \<Rightarrow> ('a, 'l) queue" where
  "use_adjuster adj q = q\<lparr>q_adjuster := Some adj\<rparr>"

definition use_no_adjuster :: "('a, 'l) queue \<Rightarrow> ('a, 'l) queue" where
  "use_no_adjuster q = q\<lparr>q_adjuster := None\<rparr>"

definition use_labeler :: "'l labeler \<Rightarrow> ('a, 'l) queue \<Rightarrow> ('a, 'l) queue" where
  "use_labeler l q = q\<lparr>q_labeler := Some l\<rparr>"

text \<open>The default labeler counts in 32 bits, wrapping around; the text of an identifier is always a
  valid user name.\<close>

definition default_label :: "32 word \<Rightarrow> bytes \<times> 32 word" where
  "default_label i = (let i' = i + 1 in (case from_id i' of Some s \<Rightarrow> s | None \<Rightarrow> [], i'))"

definition use_labeler_default :: "('a, 32 word) queue \<Rightarrow> ('a, 32 word) queue" where
  "use_labeler_default q = use_labeler \<lparr>l_state = 0, l_next = default_label\<rparr> q"

definition use_no_labeler :: "('a, 'l) queue \<Rightarrow> ('a, 'l) queue" where
  "use_no_labeler q = q\<lparr>q_labeler := None\<rparr>"

definition is_using_labeler :: "('a, 'l) queue \<Rightarrow> bool" where
  "is_using_labeler q \<longleftrightarrow> q_labeler q \<noteq> None"

definition queue_clear :: "('a, 'l) queue \<Rightarrow> ('a, 'l) queue" where
  "queue_clear q = q\<lparr>q_queue := []\<rparr>"

definition queue_reset :: "nat \<Rightarrow> ('a, 'l) queue \<Rightarrow> ('a, 'l) queue" where
  "queue_reset now q =
     (let q1 = (use_no_labeler (queue_clear q))\<lparr>q_timepoint := now\<rparr>
      in q1\<lparr>q_adjuster := map_option adj_reset (q_adjuster q1)\<rparr>)"

definition queue_extend :: "client_msg list \<Rightarrow> ('a, 'l) queue \<Rightarrow> ('a, 'l) queue" where
  "queue_extend ms q = q\<lparr>q_queue := q_queue q @ ms\<rparr>"

section \<open>Edit guards\<close>

record ('a, 'l) queue_guard =
  qg_queue :: "('a, 'l) queue"
  qg_orig_len :: nat

definition queue_edit :: "('a, 'l) queue \<Rightarrow> ('a, 'l) queue_guard" where
  "queue_edit q = \<lparr>qg_queue = q, qg_orig_len = length (q_queue q)\<rparr>"

definition qg_push :: "client_msg \<Rightarrow> ('a, 'l) queue_guard \<Rightarrow> ('a, 'l) queue_guard" where
  "qg_push msg g = g\<lparr>qg_queue := (qg_queue g)\<lparr>q_queue := q_queue (qg_queue g) @ [msg]\<rparr>\<rparr>"

definition push_labeled :: "client_msg \<Rightarrow> ('a, 'l) queue_guard \<Rightarrow> bytes option \<times> ('a, 'l) queue_guard" where
  "push_labeled msg g =
     (case q_labeler (qg_queue g) of
        None \<Rightarrow> (None, qg_push msg g)
      | Some l \<Rightarrow>
          (let (label, s) = l_next l (l_state l);
               tags = guard_drop fst (snd (insert_pair ''label'' label (tags_edit (cm_tags msg))));
               g1 = g\<lparr>qg_queue := (qg_queue g)\<lparr>q_labeler := Some (l\<lparr>l_state := s\<rparr>)\<rparr>\<rparr>
           in (Some label, qg_push (msg\<lparr>cm_tags := tags\<rparr>) g1)))"

definition qg_len :: "('a, 'l) queue_guard \<Rightarrow> nat" where
  "qg_len g = length (q_queue (qg_queue g)) - qg_orig_len g"

definition qg_is_empty :: "('a, 'l) queue_guard \<Rightarrow> bool" where
  "qg_is_empty g \<longleftrightarrow> qg_len g = 0"

definition qg_clear :: "('a, 'l) queue_guard \<Rightarrow> ('a, 'l) queue_guard" where
  "qg_clear g = g\<lparr>qg_queue := (qg_queue g)\<lparr>q_queue := take (qg_orig_len g) (q_queue (qg_queue g))\<rparr>\<rparr>"

text \<open>A nested guard, and the outer guard after the inner one is gone.\<close>

definition qg_edit :: "('a, 'l) queue_guard \<Rightarrow> ('a, 'l) queue_guard" where
  "qg_edit g = queue_edit (qg_queue g)"

definition qg_return :: "('a, 'l) queue_guard \<Rightarrow> ('a, 'l) queue_guard \<Rightarrow> ('a, 'l) queue_guard" where
  "qg_return inner g = g\<lparr>qg_queue := qg_queue inner\<rparr>"

section \<open>Rate limits\<close>

text \<open>Runs of a labelled step relation, with the events in order.\<close>

inductive runs :: "('q \<Rightarrow> 'e option \<Rightarrow> 'q \<Rightarrow> bool) \<Rightarrow> 'q \<Rightarrow> 'e list \<Rightarrow> 'q \<Rightarrow> bool" for step q where
  runs_refl: "runs step q [] q"
| runs_silent: "runs step q es q' \<Longrightarrow> step q' None q'' \<Longrightarrow> runs step q es q''"
| runs_event: "runs step q es q' \<Longrightarrow> step q' (Some e) q'' \<Longrightarrow> runs step q (es @ [e]) q''"

text \<open>The contract of a rate limiter: nothing but a send moves its time point, and a send is allowed
  only up to \<open>sub\<close> before the time point and pushes it \<open>delay\<close> further.\<close>

locale rate_limiter =
  fixes step :: "'q \<Rightarrow> (nat \<times> nat \<times> 'm) option \<Rightarrow> 'q \<Rightarrow> bool"
    and tp :: "'q \<Rightarrow> nat" and delay :: "'q \<Rightarrow> nat" and sub :: "'q \<Rightarrow> nat"
  assumes silent: "step q None q' \<Longrightarrow> tp q' = tp q \<and> delay q' = delay q \<and> sub q' = sub q"
    and send: "step q (Some (n1, n2, m)) q' \<Longrightarrow>
      tp q \<le> n1 + sub q \<and> tp q' = max (tp q) n2 + delay q \<and> delay q' = delay q \<and> sub q' = sub q"
begin

lemma runs_config: "runs step q es q' \<Longrightarrow> delay q' = delay q \<and> sub q' = sub q"
  by (induction rule: runs.induct) (auto dest: silent send)

lemma runs_timepoint:
  assumes "runs step q es q'" and "i < length es"
  shows "fst (snd (es ! i)) + (length es - i) * delay q \<le> tp q'"
  using assms
proof (induction arbitrary: i rule: runs.induct)
  case (runs_silent es q' q'')
  then show ?case by (auto dest: silent)
next
  case (runs_event es q' e q'')
  obtain n1 n2 m where e: "e = (n1, n2, m)" by (cases e)
  note s = send [OF runs_event.hyps(2) [unfolded e]] and c = runs_config [OF runs_event.hyps(1)]
  show ?case
  proof (cases "i < length es")
    case True
    with runs_event.IH [OF True] s c show ?thesis by (simp add: nth_append Suc_diff_le)
  next
    case False
    with runs_event.prems have "i = length es" by simp
    with s c e show ?thesis by simp
  qed
qed simp

lemma runs_prefix:
  assumes "runs step q es q'" and "j < length es"
  shows "\<exists>q1 q2. runs step q (take j es) q1 \<and> step q1 (Some (es ! j)) q2"
  using assms
proof (induction arbitrary: j rule: runs.induct)
  case (runs_event es q' e q'')
  then show ?case by (cases "j < length es") (auto simp: nth_append less_Suc_eq)
qed auto

lemma send_gap:
  assumes "runs step q es q'" and "i < j" and "j < length es"
  shows "fst (snd (es ! i)) + (j - i) * delay q \<le> fst (es ! j) + sub q"
proof -
  obtain q1 q2 where r: "runs step q (take j es) q1" and st: "step q1 (Some (es ! j)) q2"
    using runs_prefix [OF assms(1,3)] by blast
  obtain n1 n2 m where "es ! j = (n1, n2, m)" by (cases "es ! j")
  with st have "tp q1 \<le> fst (es ! j) + sub q1" by (auto dest: send)
  moreover have "fst (snd (es ! i)) + (j - i) * delay q \<le> tp q1"
    using runs_timepoint [OF r, of i] assms(2,3) by simp
  ultimately show ?thesis using runs_config [OF r] by simp
qed

lemma window_bound:
  assumes "runs step q es q'" and "i < j" and "j < length es" and "sub q = b * delay q" and "0 < delay q"
  shows "j - i \<le> b + (fst (es ! j) - fst (snd (es ! i))) div delay q"
proof -
  have "(j - i) * delay q \<le> (fst (es ! j) - fst (snd (es ! i))) + b * delay q"
    using send_gap [OF assms(1-3)] assms(4) by linarith
  then have "j - i \<le> ((fst (es ! j) - fst (snd (es ! i))) + b * delay q) div delay q"
    using less_eq_div_iff_mult_less_eq [OF assms(5)] by blast
  also have "\<dots> = b + (fst (es ! j) - fst (snd (es ! i))) div delay q"
    using assms(5) by (simp add: add.commute)
  finally show ?thesis .
qed

end

text \<open>Everything a client does with its queue between two resets or changes of the limit.\<close>

inductive queue_step ::
  "nat \<Rightarrow> ('a, 'l) queue \<Rightarrow> (nat \<times> nat \<times> client_msg) option \<Rightarrow> ('a, 'l) queue \<Rightarrow> bool" for imax where
  qs_pop: "pop imax n1 n2 q = Some (PopMsg m, q') \<Longrightarrow> queue_step imax q (Some (n1, n2, m)) q'"
| qs_wait: "pop imax n1 n2 q = Some (PopTimeout d, q') \<Longrightarrow> queue_step imax q None q'"
| qs_adjust: "queue_step imax q None (adjust msg q)"
| qs_use_adjuster: "queue_step imax q None (use_adjuster adj q)"
| qs_use_no_adjuster: "queue_step imax q None (use_no_adjuster q)"
| qs_use_labeler: "queue_step imax q None (use_labeler l q)"
| qs_use_no_labeler: "queue_step imax q None (use_no_labeler q)"
| qs_clear: "queue_step imax q None (queue_clear q)"
| qs_extend: "queue_step imax q None (queue_extend ms q)"
| qs_push: "queue_step imax q None (qg_queue (qg_push m (queue_edit q)))"
| qs_push_labeled: "queue_step imax q None (qg_queue (snd (push_labeled m (queue_edit q))))"
| qs_push_clear: "queue_step imax q None (qg_queue (qg_clear (snd (push_labeled m (queue_edit q)))))"

lemmas queue_frame = adjust_def use_adjuster_def use_no_adjuster_def use_labeler_def use_no_labeler_def
  queue_clear_def queue_extend_def qg_push_def qg_clear_def queue_edit_def

lemma push_labeled_limits [simp]:
  "q_timepoint (qg_queue (snd (push_labeled m g))) = q_timepoint (qg_queue g)"
  "q_delay (qg_queue (snd (push_labeled m g))) = q_delay (qg_queue g)"
  "q_sub (qg_queue (snd (push_labeled m g))) = q_sub (qg_queue g)"
  by (simp_all add: push_labeled_def qg_push_def split_def Let_def split: option.splits)

lemma adjust_limits [simp]:
  "q_timepoint (adjust msg q) = q_timepoint q" "q_delay (adjust msg q) = q_delay q" "q_sub (adjust msg q) = q_sub q"
  by (auto simp: adjust_def split_def Let_def split: option.splits)

lemma pop_PopMsg:
  "pop imax n1 n2 q = Some (PopMsg m, q') \<longleftrightarrow>
     (\<exists>ms. q_queue q = m # ms \<and> q_timepoint q \<le> n1 + q_sub q \<and> max (q_timepoint q) n2 + q_delay q \<le> imax \<and>
       q' = q\<lparr>q_queue := ms, q_timepoint := max (q_timepoint q) n2 + q_delay q\<rparr>)"
  by (auto simp: pop_def Let_def split: list.splits if_splits)

lemma pop_PopTimeout:
  "pop imax n1 n2 q = Some (PopTimeout d, q') \<longleftrightarrow>
     q' = q \<and> (if q_queue q = [] then d = None
       else n1 + q_sub q < q_timepoint q \<and> d = Some (q_timepoint q - n1 - q_sub q))"
  by (cases "q_queue q") (auto simp: pop_def Let_def split: if_splits)

interpretation rl: rate_limiter "queue_step imax" q_timepoint q_delay q_sub
proof unfold_locales
  show "q_timepoint q' = q_timepoint q \<and> q_delay q' = q_delay q \<and> q_sub q' = q_sub q"
    if "queue_step imax q None q'" for q q' :: "('a, 'b) queue"
    using that by (cases rule: queue_step.cases) (simp_all add: pop_PopTimeout, simp_all add: queue_frame)
  show "q_timepoint q \<le> n1 + q_sub q \<and> q_timepoint q' = max (q_timepoint q) n2 + q_delay q \<and>
      q_delay q' = q_delay q \<and> q_sub q' = q_sub q"
    if "queue_step imax q (Some (n1, n2, m)) q'" for q q' :: "('a, 'b) queue" and n1 n2 m
    using that by (cases rule: queue_step.cases) (auto simp: pop_PopMsg)
qed

section \<open>Labels\<close>

definition digit_val :: "byte \<Rightarrow> nat" where
  "digit_val c = (if code c < 58 then code c - 48 else code c - 87)"

definition num_val :: "nat \<Rightarrow> bytes \<Rightarrow> nat" where
  "num_val b s = foldl (\<lambda>a c. a * b + digit_val c) 0 s"

lemma digit_val_char: "d < 16 \<Longrightarrow> digit_val (digit_char d) = d"
  by (simp add: digit_val_def digit_char_def code_char_of_mod)

lemma num_val_fmt: "2 \<le> b \<Longrightarrow> b \<le> 16 \<Longrightarrow> num_val b (fmt_base b n) = n"
proof (induction b n rule: fmt_base.induct)
  case (1 b n)
  show ?case
  proof (cases "n < b")
    case True
    with 1 show ?thesis by (subst fmt_base.simps) (simp add: num_val_def digit_val_char)
  next
    case False
    have "n mod b < b" using 1 by simp
    with 1(3) have d: "digit_val (digit_char (n mod b)) = n mod b" by (intro digit_val_char) linarith
    have "num_val b (fmt_base b (n div b)) = n div b" using 1 False by simp
    then have "num_val b (fmt_base b (n div b) @ [digit_char (n mod b)]) = n div b * b + n mod b"
      using d by (simp add: num_val_def)
    with False 1(2) show ?thesis by (subst fmt_base.simps) simp
  qed
qed

lemma num_val_pad: "num_val b (pad0 w s) = num_val b s"
proof -
  have "foldl (\<lambda>a c. a * b + digit_val c) 0 (replicate n (CHR ''0'')) = 0" for n
    by (induction n) (simp_all add: digit_val_def)
  then show ?thesis by (simp add: num_val_def pad0_def)
qed

lemma set_fmt_base: "2 \<le> b \<Longrightarrow> b \<le> 16 \<Longrightarrow> c \<in> set (fmt_base b n) \<Longrightarrow> \<exists>d < 16. c = digit_char d"
proof (induction b n rule: fmt_base.induct)
  case (1 b n)
  have "n mod b < 16" using 1(2,3) mod_less_divisor [of b n] by linarith
  with 1 show ?case by (subst (asm) fmt_base.simps) (auto split: if_splits intro: exI [of _ n])
qed

lemma digit_char_User: "d < 16 \<Longrightarrow> \<not> is_invalid User (digit_char d)"
proof -
  assume "d < 16"
  then have "48 \<le> code (digit_char d)" "code (digit_char d) \<noteq> 64"
    by (auto simp: digit_char_def code_char_of_mod)
  then show ?thesis by (auto simp: invalid_defs)
qed

lemma id_text_valid:
  assumes "2 \<le> b" and "b \<le> 16"
  shows "valid User (CHR ''i'' # pad0 w (fmt_base b n))"
proof -
  have "\<not> is_invalid User c" if c: "c \<in> set (pad0 w (fmt_base b n))" for c
  proof (cases "c \<in> set (fmt_base b n)")
    case True
    with set_fmt_base [OF assms, of c n] digit_char_User show ?thesis by auto
  next
    case False
    with c have "c = CHR ''0''" by (auto simp: pad0_def)
    then show ?thesis by (simp add: invalid_defs)
  qed
  moreover have "\<not> is_invalid User (CHR ''i'')" by (simp add: invalid_defs)
  ultimately show ?thesis by (auto simp: valid_iff arg_first_check_def)
qed

lemma from_id_total: "from_id i = Some (CHR ''i'' # pad0 8 (fmt_base 16 (unat i)))"
  by (simp add: from_id_def from_str_Some id_text_valid)

lemma from_id_short_total: "from_id_short i = Some (CHR ''i'' # pad0 5 (fmt_base 10 (unat i)))"
  by (simp add: from_id_short_def from_str_Some id_text_valid)

lemma from_id_inj: "from_id i = from_id j \<longleftrightarrow> i = j"
proof
  assume "from_id i = from_id j"
  then have "num_val 16 (pad0 8 (fmt_base 16 (unat i))) = num_val 16 (pad0 8 (fmt_base 16 (unat j)))"
    by (simp add: from_id_total)
  then show "i = j" by (simp add: num_val_pad num_val_fmt word_unat_eq_iff)
qed simp

primrec labels :: "nat \<Rightarrow> 32 word \<Rightarrow> bytes list" where
  "labels 0 i = []"
| "labels (Suc n) i = (let (l, i') = default_label i in l # labels n i')"

lemma labels_eq: "labels n i = map (\<lambda>k. the (from_id (i + word_of_nat (Suc k)))) [0..<n]"
proof (induction n arbitrary: i)
  case (Suc n)
  have "labels (Suc n) i = the (from_id (i + 1)) # labels n (i + 1)"
    by (simp add: default_label_def from_id_total Let_def)
  with Suc [of "i + 1"] show ?case
    by (simp add: upt_conv_Cons map_Suc_upt [symmetric] add.assoc del: upt_Suc)
qed simp

lemma labels_distinct: "n \<le> 2 ^ 32 \<Longrightarrow> distinct (labels n i)"
proof -
  assume n: "n \<le> 2 ^ 32"
  have "inj_on (\<lambda>k. the (from_id (i + word_of_nat (Suc k)))) {0..<n}"
  proof (rule inj_onI)
    fix a b assume ab: "a \<in> {0..<n}" "b \<in> {0..<n}"
      and "the (from_id (i + word_of_nat (Suc a))) = the (from_id (i + word_of_nat (Suc b)))"
    then have "from_id (i + word_of_nat (Suc a)) = from_id (i + word_of_nat (Suc b))"
      by (simp add: from_id_total)
    then have "word_of_nat a = (word_of_nat b :: 32 word)" by (simp add: from_id_inj)
    then have "unat (word_of_nat a :: 32 word) = unat (word_of_nat b :: 32 word)" by simp
    with ab n show "a = b" by (simp add: unsigned_of_nat take_bit_nat_def)
  qed
  then show ?thesis by (simp add: labels_eq distinct_map)
qed

lemma valid_label_key: "valid Key ''label''"
  by (simp add: valid_iff invalid_defs arg_first_check_def)

lemma insert_label:
  assumes "fm_ok fst t"
  shows "fm_ok fst (guard_drop fst (snd (insert_pair k v (tags_edit t))))"
    and "fm_get fst (guard_drop fst (snd (insert_pair k v (tags_edit t)))) k' =
      (if k' = k then Some (k, v) else fm_get fst t k')"
proof -
  have e: "guard_drop fst (snd (insert_pair k v (tags_edit t))) = fm_insert fst (k, v) t"
    by (simp add: fm_insert_def insert_pair_def tags_edit_def split_def Let_def)
  show ok: "fm_ok fst (guard_drop fst (snd (insert_pair k v (tags_edit t))))"
    unfolding e by (rule fm_insert_spec(1) [OF assms])
  show "fm_get fst (guard_drop fst (snd (insert_pair k v (tags_edit t)))) k' =
      (if k' = k then Some (k, v) else fm_get fst t k')"
    using fm_insert_spec(2) [OF assms, of "(k, v)" k'] ok fm_get_map [OF assms] unfolding e by (simp add: fm_get_map)
qed

section \<open>Adjusters: facts\<close>

text \<open>A collection says yes when a member does, and remembers who did.\<close>

lemma multi_should_eq:
  "multi_should msg m =
     (\<exists>(adj, _) \<in> set m. fst (should_adjust msg adj),
      map (\<lambda>(adj, _). (snd (should_adjust msg adj), fst (should_adjust msg adj))) m)"
  by (induction m) (auto simp: split_def Let_def)

lemma length_retain: "length (fst (retain_update ms adj)) \<le> length ms"
  by (induction ms arbitrary: adj) (auto simp: split_def Let_def le_SucI)

section \<open>Properties\<close>

text \<open>C23: The queue keeps its rate.  Consider what a client does with the queue while it neither changes the
  limit nor resets the queue, which both set the time point anew; let the delay be positive and its
  product with the burst not saturate.  Then the messages sent in a window of time, from the end of the
  first send to the beginning of the last, are at most the burst, one more, and one for every delay that
  fits in the window.\<close>

theorem queue_rate_limit:
  assumes "runs (queue_step imax) q es q'" and "i < j" and "j < length es"
    and "q_sub q = burst * q_delay q" and "0 < q_delay q"
  shows "card {i..j} \<le> 1 + burst + (fst (es ! j) - fst (snd (es ! i))) div q_delay q"
  using rl.window_bound [OF assms] by simp

theorem queue_rate_limit_witness:
  "card {0..(1::nat)} \<le> 1 + 4 + (5 - 3) div secs 2"
proof -
  let ?m = "client_new_cmd ''PING''" and ?q = "from_queue 3 [client_new_cmd ''PING'', client_new_cmd ''PING''] :: (unit, unit) queue"
  have "runs (queue_step (10 ^ 20)) ?q ([] @ [(3, 3, ?m)]) (?q\<lparr>q_queue := [?m], q_timepoint := 3 + secs 2\<rparr>)"
    by (rule runs_event [OF runs_refl]) (rule qs_pop, simp add: pop_PopMsg from_queue_def secs_def)
  then have "runs (queue_step (10 ^ 20)) ?q (([] @ [(3, 3, ?m)]) @ [(5, 5, ?m)])
      (?q\<lparr>q_queue := [], q_timepoint := 3 + secs 4\<rparr>)"
    by (rule runs_event) (rule qs_pop, simp add: pop_PopMsg from_queue_def secs_def)
  from queue_rate_limit [OF this, of 0 1 4] show ?thesis by (simp add: from_queue_def secs_def)
qed

text \<open>A message that may be sent is sent, in order; one that may not be sent stays at the front, the
  reported wait is positive, and after waiting that long the same message is sent.\<close>

lemma pop_sends_or_waits:
  assumes "q_queue q = m # ms"
  shows "(if q_timepoint q \<le> now1 + q_sub q then
      max (q_timepoint q) now2 + q_delay q \<le> imax \<longrightarrow>
        (\<exists>q'. pop imax now1 now2 q = Some (PopMsg m, q') \<and> q_queue q' = ms)
    else
      (\<exists>d > 0. pop imax now1 now2 q = Some (PopTimeout (Some d), q) \<and>
        (\<forall>t1 t2. now1 + d \<le> t1 \<longrightarrow> max (q_timepoint q) t2 + q_delay q \<le> imax \<longrightarrow>
          (\<exists>q'. pop imax t1 t2 q = Some (PopMsg m, q') \<and> q_queue q' = ms))))"
proof (cases "q_timepoint q \<le> now1 + q_sub q")
  case True
  with assms show ?thesis by (simp add: pop_PopMsg)
next
  case False
  let ?d = "q_timepoint q - now1 - q_sub q"
  have "pop imax now1 now2 q = Some (PopTimeout (Some ?d), q)"
    using False assms by (simp add: pop_PopTimeout)
  moreover have "0 < ?d" using False by simp
  moreover have "\<exists>q'. pop imax t1 t2 q = Some (PopMsg m, q') \<and> q_queue q' = ms"
    if "now1 + ?d \<le> t1" "max (q_timepoint q) t2 + q_delay q \<le> imax" for t1 t2
    using that False assms by (simp add: pop_PopMsg)
  ultimately show ?thesis using False by auto
qed

text \<open>The first \<open>2 ^ 32\<close> labels of the default labeler are pairwise different, wherever its
  32-bit counter starts.\<close>

lemma default_labels_distinct:
  assumes "n \<le> 2 ^ 32"
  shows "distinct (labels n i)"
  using assms by (rule labels_distinct)

text \<open>A labelled push appends one message, whose tags carry the returned label and are otherwise
  unchanged; without a labeler the message is appended as it is.\<close>

lemma push_labeled_tags:
  assumes "fm_ok fst (cm_tags m)" and "push_labeled m g = (l, g')"
  shows "\<exists>m'. q_queue (qg_queue g') = q_queue (qg_queue g) @ [m'] \<and> fm_ok fst (cm_tags m') \<and>
    cm_cmd m' = cm_cmd m \<and> cm_args m' = cm_args m \<and> (l = None \<longleftrightarrow> \<not> is_using_labeler (qg_queue g)) \<and>
    (if l = None then m' = m else tags_get ''label'' (cm_tags m') = l) \<and>
    (\<forall>k. k \<noteq> ''label'' \<longrightarrow> fm_get fst (cm_tags m') k = fm_get fst (cm_tags m) k)"
proof (cases "q_labeler (qg_queue g)")
  case None
  with assms show ?thesis by (auto simp: push_labeled_def qg_push_def is_using_labeler_def)
next
  case (Some lb)
  let ?l = "fst (l_next lb (l_state lb))"
  let ?t = "guard_drop fst (snd (insert_pair ''label'' ?l (tags_edit (cm_tags m))))"
  have "tags_get ''label'' ?t = Some ?l"
    using insert_label(2) [OF assms(1), of "''label''" ?l "''label''"] valid_label_key
    by (simp add: tags_get_def from_bytes_def valid_def)
  moreover have "l = Some ?l" "q_queue (qg_queue g') = q_queue (qg_queue g) @ [m\<lparr>cm_tags := ?t\<rparr>]"
    using assms(2) Some by (auto simp: push_labeled_def qg_push_def split_def Let_def)
  ultimately show ?thesis
    using insert_label [OF assms(1), of "''label''" ?l] Some by (auto simp: is_using_labeler_def)
qed

end
