(* ===== verification/Handlers.thy ===== *)
theory Handlers
  imports Queue "HOL-Library.Multiset"
begin

text \<open>
  Message handlers and the channels they send to: \<open>client/handler.rs\<close>, the senders of
  \<open>client/handler/channel.rs\<close> and the handlers of \<open>client/handlers.rs\<close>.  Trait objects are records
  of their state and methods, as in \<open>Queue\<close>; the shared client state is a type parameter.
\<close>

section \<open>Senders (\<open>client/handler/channel.rs\<close>)\<close>

datatype Sent = SentClosed | SentOk

datatype 'b control_flow = Continue | Break 'b

definition sent_from :: "Sent control_flow \<Rightarrow> Sent" where
  "sent_from v = (case v of Continue \<Rightarrow> SentOk | Break s \<Rightarrow> s)"

definition cf_discard :: "'b control_flow \<Rightarrow> unit control_flow" where
  "cf_discard cf = (case cf of Continue \<Rightarrow> Continue | Break _ \<Rightarrow> Break ())"

record ('c, 'v) sender =
  snd_state :: 'c
  snd_send :: "'v \<Rightarrow> 'c \<Rightarrow> Sent control_flow \<times> 'c"
  snd_may_send :: "'c \<Rightarrow> bool"

text \<open>\<open>SenderRef\<close>: the sender and the flag that a send has occurred.\<close>

record ('c, 'v) sender_ref =
  sr_sender :: "('c, 'v) sender"
  sr_flag :: bool

definition sr_send :: "'v \<Rightarrow> ('c, 'v) sender_ref \<Rightarrow> Sent control_flow \<times> ('c, 'v) sender_ref" where
  "sr_send v sr =
     (let s = sr_sender sr; (result, st) = snd_send s v (snd_state s)
      in (result, \<lparr>sr_sender = s\<lparr>snd_state := st\<rparr>, sr_flag = (sr_flag sr \<or> result \<noteq> Break SentClosed)\<rparr>))"

definition sr_may_send :: "('c, 'v) sender_ref \<Rightarrow> bool" where
  "sr_may_send sr \<longleftrightarrow> snd_may_send (sr_sender sr) (snd_state (sr_sender sr))"

definition closed_sender :: "(unit, 'v) sender" where
  "closed_sender = \<lparr>snd_state = (), snd_send = (\<lambda>_ s. (Break SentClosed, s)), snd_may_send = (\<lambda>_. False)\<rparr>"

text \<open>The sender of a standard queue channel: whether the receiver is alive, and the values in transit.\<close>

record 'v mpsc =
  mp_open :: bool
  mp_items :: "'v list"

definition mpsc_send :: "'v \<Rightarrow> 'v mpsc \<Rightarrow> Sent control_flow \<times> 'v mpsc" where
  "mpsc_send v c = (if mp_open c then (Continue, c\<lparr>mp_items := mp_items c @ [v]\<rparr>) else (Break SentClosed, c))"

definition mpsc_sender :: "'v mpsc \<Rightarrow> ('v mpsc, 'v) sender" where
  "mpsc_sender c = \<lparr>snd_state = c, snd_send = mpsc_send, snd_may_send = (\<lambda>_. True)\<rparr>"

section \<open>Handlers\<close>

record ('h, 'c, 'v, 's, 'a, 'l) handler =
  h_state :: 'h
  h_handle :: "server_msg \<Rightarrow> 's \<Rightarrow> ('a, 'l) queue_guard \<Rightarrow> ('c, 'v) sender_ref \<Rightarrow> 'h \<Rightarrow>
    unit control_flow \<times> 's \<times> ('a, 'l) queue_guard \<times> ('c, 'v) sender_ref \<times> 'h"
  h_wants_owning :: "'h \<Rightarrow> bool"

datatype HandlerStatus = Keep bool bool | Done bool

text \<open>A boxed handler holds the handler and its sender.\<close>

type_synonym ('h, 'c, 'v, 's, 'a, 'l) box_handler = "('h, 'c, 'v, 's, 'a, 'l) handler \<times> ('c, 'v) sender"

definition box_call ::
  "server_msg \<Rightarrow> 's \<Rightarrow> ('a, 'l) queue \<Rightarrow> ('h, 'c, 'v, 's, 'a, 'l) box_handler \<Rightarrow>
   HandlerStatus \<times> 's \<times> ('a, 'l) queue \<times> ('h, 'c, 'v, 's, 'a, 'l) box_handler" where
  "box_call msg st q b =
     (let (h, snder) = b;
          (cf, st', g, sr, hs) =
            h_handle h msg st (queue_edit q) \<lparr>sr_sender = snder, sr_flag = False\<rparr> (h_state h)
      in (if cf \<noteq> Continue then Done (sr_flag sr) else Keep (sr_flag sr) (h_wants_owning h hs),
          st', qg_queue g, (h\<lparr>h_state := hs\<rparr>, sr_sender sr)))"

record ('h, 'c, 'v, 's, 'a, 'l) handlers =
  hs_handlers :: "(('h, 'c, 'v, 's, 'a, 'l) box_handler \<times> nat) list"
  hs_yielded :: "nat list"
  hs_finished :: "nat list"
  hs_wants_owning :: bool

definition handlers_default :: "('h, 'c, 'v, 's, 'a, 'l) handlers" where
  "handlers_default = \<lparr>hs_handlers = [], hs_yielded = [], hs_finished = [], hs_wants_owning = False\<rparr>"

definition handlers_add ::
  "('h, 'c, 'v, 's, 'a, 'l) handler \<Rightarrow> ('c, 'v) sender \<Rightarrow> ('h, 'c, 'v, 's, 'a, 'l) handlers \<Rightarrow>
   nat \<times> ('h, 'c, 'v, 's, 'a, 'l) handlers" where
  "handlers_add h snder hs =
     (let wo = (hs_wants_owning hs \<or> h_wants_owning h (h_state h));
          (i, fin) =
            (if hs_finished hs = [] then (length (hs_handlers hs), [])
             else (last (hs_finished hs), butlast (hs_finished hs)))
      in (i, hs\<lparr>hs_handlers := hs_handlers hs @ [((h, snder), i)], hs_finished := fin, hs_wants_owning := wo\<rparr>))"

definition handlers_is_empty :: "('h, 'c, 'v, 's, 'a, 'l) handlers \<Rightarrow> bool" where
  "handlers_is_empty hs \<longleftrightarrow> hs_handlers hs = []"

text \<open>\<open>Vec::swap_remove\<close> at an index in range.\<close>

definition swap_remove :: "nat \<Rightarrow> 'x list \<Rightarrow> 'x list" where
  "swap_remove i xs = butlast (xs[i := last xs])"

text \<open>\<open>None\<close> is the panic on an unknown identifier.\<close>

definition cancel_one ::
  "nat \<Rightarrow> ('h, 'c, 'v, 's, 'a, 'l) handlers \<Rightarrow> ('h, 'c, 'v, 's, 'a, 'l) handlers option" where
  "cancel_one i hs =
     (case position (\<lambda>(_, i2). i = i2) (hs_handlers hs) of
        None \<Rightarrow> None
      | Some idx \<Rightarrow>
          (let hl = swap_remove idx (hs_handlers hs) in
           Some (hs\<lparr>hs_handlers := hl, hs_finished := hs_finished hs @ [i],
                    hs_wants_owning := (hs_wants_owning hs \<and> hl \<noteq> [])\<rparr>)))"

definition handlers_cancel :: "('h, 'c, 'v, 's, 'a, 'l) handlers \<Rightarrow> ('h, 'c, 'v, 's, 'a, 'l) handlers" where
  "handlers_cancel hs = \<lparr>hs_handlers = [], hs_yielded = [], hs_finished = [], hs_wants_owning = False\<rparr>"

definition has_results :: "nat \<Rightarrow> ('h, 'c, 'v, 's, 'a, 'l) handlers \<Rightarrow> bool" where
  "has_results finished_at hs \<longleftrightarrow> hs_yielded hs \<noteq> [] \<or> finished_at < length (hs_finished hs)"

text \<open>\<open>split_at\<close> panics beyond the length.\<close>

definition last_run_results ::
  "nat \<Rightarrow> ('h, 'c, 'v, 's, 'a, 'l) handlers \<Rightarrow> (nat list \<times> nat list) option" where
  "last_run_results finished_at hs =
     (if length (hs_finished hs) < finished_at then None
      else Some (hs_yielded hs, drop finished_at (hs_finished hs)))"

text \<open>The loop of \<open>handle\<close>.\<close>

function handle_loop ::
  "server_msg \<Rightarrow> nat \<Rightarrow> 's \<Rightarrow> ('a, 'l) queue \<Rightarrow> ('h, 'c, 'v, 's, 'a, 'l) handlers \<Rightarrow>
   's \<times> ('a, 'l) queue \<times> ('h, 'c, 'v, 's, 'a, 'l) handlers" where
  "handle_loop msg i st q hs =
     (if i < length (hs_handlers hs) then
        (let (b, hid) = hs_handlers hs ! i; (status, st', q', b') = box_call msg st q b in
         case status of
           Keep yielded wo \<Rightarrow>
             handle_loop msg (i + 1) st' q'
               (hs\<lparr>hs_handlers := (hs_handlers hs)[i := (b', hid)],
                   hs_yielded := (if yielded then hs_yielded hs @ [hid] else hs_yielded hs),
                   hs_wants_owning := (hs_wants_owning hs \<or> wo)\<rparr>)
         | Done yielded \<Rightarrow>
             handle_loop msg i st' q'
               (hs\<lparr>hs_handlers := swap_remove i (hs_handlers hs),
                   hs_yielded := (if yielded then hs_yielded hs @ [hid] else hs_yielded hs),
                   hs_finished := hs_finished hs @ [hid]\<rparr>))
      else (st, q, hs))"
  by pat_completeness auto
termination
  by (relation "measure (\<lambda>(_, i, _, _, hs). length (hs_handlers hs) - i)") (auto simp: swap_remove_def)

declare handle_loop.simps [simp del]

definition handlers_handle ::
  "server_msg \<Rightarrow> 's \<Rightarrow> ('a, 'l) queue \<Rightarrow> ('h, 'c, 'v, 's, 'a, 'l) handlers \<Rightarrow>
   nat \<times> 's \<times> ('a, 'l) queue \<times> ('h, 'c, 'v, 's, 'a, 'l) handlers" where
  "handlers_handle msg st q hs =
     (let hs1 = hs\<lparr>hs_wants_owning := False, hs_yielded := []\<rparr>;
          finished_at = length (hs_finished hs1);
          (st', q', hs') = handle_loop msg 0 st q hs1
      in (finished_at, st', q', hs'))"

section \<open>Yielding handlers (\<open>client/handlers.rs\<close>)\<close>

definition yield_all_handle ::
  "server_msg \<Rightarrow> 's \<Rightarrow> ('a, 'l) queue_guard \<Rightarrow> ('c, server_msg) sender_ref \<Rightarrow> unit \<Rightarrow>
   unit control_flow \<times> 's \<times> ('a, 'l) queue_guard \<times> ('c, server_msg) sender_ref \<times> unit" where
  "yield_all_handle msg st g sr h = (let (r, sr') = sr_send msg sr in (cf_discard r, st, g, sr', h))"

definition YieldAll :: "(unit, 'c, server_msg, 's, 'a, 'l) handler" where
  "YieldAll = \<lparr>h_state = (), h_handle = yield_all_handle, h_wants_owning = (\<lambda>_. True)\<rparr>"

text \<open>A parser of \<open>YieldParsed\<close>: the values of a message, with its own state; sending stops when the
  channel closes.\<close>

fun send_all :: "'v list \<Rightarrow> ('c, 'v) sender_ref \<Rightarrow> unit control_flow \<times> ('c, 'v) sender_ref" where
  "send_all [] sr = (Continue, sr)"
| "send_all (v # vs) sr =
     (let (r, sr') = sr_send v sr in
      case cf_discard r of Continue \<Rightarrow> send_all vs sr' | Break u \<Rightarrow> (Break u, sr'))"

record ('p, 'v) yield_parser =
  yp_state :: 'p
  yp_parse :: "server_msg \<Rightarrow> 'p \<Rightarrow> 'v list \<times> 'p"

text \<open>\<open>just\<close> and \<open>with\<close> parse one value, \<open>just_flat_map\<close> and \<open>with_flat_map\<close> map it to a sequence; a
  message that does not parse yields nothing.\<close>

definition parser_one :: "(server_msg \<Rightarrow> ('v, ParseError) result) \<Rightarrow> server_msg \<Rightarrow> 'p \<Rightarrow> 'v list \<times> 'p" where
  "parser_one from_union raw p = (case from_union raw of Inr v \<Rightarrow> ([v], p) | Inl _ \<Rightarrow> ([], p))"

definition parser_flat_map ::
  "(server_msg \<Rightarrow> ('u, ParseError) result) \<Rightarrow> ('u \<Rightarrow> 'p \<Rightarrow> 'v list \<times> 'p) \<Rightarrow> server_msg \<Rightarrow> 'p \<Rightarrow> 'v list \<times> 'p" where
  "parser_flat_map from_union f raw p = (case from_union raw of Inr u \<Rightarrow> f u p | Inl _ \<Rightarrow> ([], p))"

type_synonym ('p, 'v) yield_parsed = "(bytes \<times> ('p, 'v) yield_parser) list"

definition yield_parsed_new :: "('p, 'v) yield_parsed" where
  "yield_parsed_new = fm_new"

definition yield_parsed_just :: "bytes \<Rightarrow> ('p, 'v) yield_parser \<Rightarrow> ('p, 'v) yield_parsed" where
  "yield_parsed_just kind p = fm_singleton (kind, p)"

definition yield_parsed_with :: "bytes \<Rightarrow> ('p, 'v) yield_parser \<Rightarrow> ('p, 'v) yield_parsed \<Rightarrow> ('p, 'v) yield_parsed" where
  "yield_parsed_with kind p m = guard_drop fst (snd (guard_insert fst (kind, p) (fm_edit m)))"

definition yield_parsed_handle ::
  "server_msg \<Rightarrow> 's \<Rightarrow> ('a, 'l) queue_guard \<Rightarrow> ('c, 'v) sender_ref \<Rightarrow> ('p, 'v) yield_parsed \<Rightarrow>
   unit control_flow \<times> 's \<times> ('a, 'l) queue_guard \<times> ('c, 'v) sender_ref \<times> ('p, 'v) yield_parsed" where
  "yield_parsed_handle msg st g sr m =
     (case get_impl fst m (length m) (kind_borrow (sm_kind msg)) of
        None \<Rightarrow> (Continue, st, g, sr, m)
      | Some i \<Rightarrow>
          (let (k, p) = m ! i;
               (vs, p') = yp_parse p msg (yp_state p);
               (r, sr') = send_all vs sr
           in (r, st, g, sr', m[i := (k, p\<lparr>yp_state := p'\<rparr>)])))"

section \<open>Removal by swapping\<close>

lemma length_swap_remove [simp]: "length (swap_remove i xs) = length xs - 1"
  by (simp add: swap_remove_def)

lemma take_swap_remove: "i < length xs \<Longrightarrow> take i (swap_remove i xs) = take i xs"
  by (cases xs rule: rev_cases) (auto simp: swap_remove_def butlast_conv_take min_def)

lemma mset_drop_swap_remove:
  assumes "i < length xs"
  shows "mset (drop i (swap_remove i xs)) = mset (drop (Suc i) xs)"
proof -
  obtain ys z where xs: "xs = ys @ [z]" using assms by (cases xs rule: rev_cases) auto
  show ?thesis
  proof (cases "i = length ys")
    case True
    then show ?thesis by (simp add: swap_remove_def xs)
  next
    case False
    then have i: "i < length ys" using assms xs by simp
    then have "swap_remove i xs = ys[i := z]" by (simp add: swap_remove_def xs list_update_append)
    moreover have "drop i (ys[i := z]) = z # drop (Suc i) ys" using i Cons_nth_drop_Suc [of i "ys[i := z]"] by simp
    ultimately show ?thesis using i by (simp add: xs)
  qed
qed

lemma mset_swap_remove: "i < length xs \<Longrightarrow> add_mset (xs ! i) (mset (swap_remove i xs)) = mset xs"
  using mset_drop_swap_remove [of i xs] take_swap_remove [of i xs]
  by (metis add_mset_add_single append_take_drop_id Cons_nth_drop_Suc mset.simps(2) mset_append union_mset_add_mset_right)

section \<open>Delivery\<close>

text \<open>The reference: the handlers of a list called one after the other, each once.\<close>

fun run_each ::
  "server_msg \<Rightarrow> (('h, 'c, 'v, 's, 'a, 'l) box_handler \<times> nat) list \<Rightarrow> 's \<Rightarrow> ('a, 'l) queue \<Rightarrow>
   (HandlerStatus \<times> ('h, 'c, 'v, 's, 'a, 'l) box_handler \<times> nat) list \<times> 's \<times> ('a, 'l) queue" where
  "run_each msg [] st q = ([], st, q)"
| "run_each msg ((b, hid) # bs) st q =
     (let (status, st', q', b') = box_call msg st q b; (rs, st'', q'') = run_each msg bs st' q'
      in ((status, b', hid) # rs, st'', q''))"

fun did_yield :: "HandlerStatus \<Rightarrow> bool" where
  "did_yield (Keep y w) = y" | "did_yield (Done y) = y"

fun wants_own :: "HandlerStatus \<Rightarrow> bool" where
  "wants_own (Keep y w) = w" | "wants_own (Done y) = False"

fun is_done :: "HandlerStatus \<Rightarrow> bool" where
  "is_done (Keep y w) = False" | "is_done (Done y) = True"

definition yielded_ids :: "(HandlerStatus \<times> 'b \<times> nat) list \<Rightarrow> nat list" where
  "yielded_ids rs = map (\<lambda>(_, _, i). i) (filter (\<lambda>(s, _, _). did_yield s) rs)"

definition done_ids :: "(HandlerStatus \<times> 'b \<times> nat) list \<Rightarrow> nat list" where
  "done_ids rs = map (\<lambda>(_, _, i). i) (filter (\<lambda>(s, _, _). is_done s) rs)"

definition kept :: "(HandlerStatus \<times> 'b \<times> nat) list \<Rightarrow> ('b \<times> nat) list" where
  "kept rs = map (\<lambda>(_, b, i). (b, i)) (filter (\<lambda>(s, _, _). \<not> is_done s) rs)"

lemmas result_defs = yielded_ids_def done_ids_def kept_def

lemma result_Cons [simp]:
  "yielded_ids ((s, b, i) # rs) = (if did_yield s then i # yielded_ids rs else yielded_ids rs)"
  "done_ids ((s, b, i) # rs) = (if is_done s then i # done_ids rs else done_ids rs)"
  "kept ((s, b, i) # rs) = (if is_done s then kept rs else (b, i) # kept rs)"
  "yielded_ids [] = []" "done_ids [] = []" "kept [] = []"
  by (simp_all add: result_defs)

lemma run_each_ids: "map (\<lambda>(_, _, i). i) (fst (run_each msg bs st q)) = map snd bs"
  by (induction bs arbitrary: st q) (auto simp: split_def Let_def)

text \<open>What the loop has done when it stops: some order of the handlers still to come has been run.\<close>

definition delivers ::
  "server_msg \<Rightarrow> nat \<Rightarrow> 's \<Rightarrow> ('a, 'l) queue \<Rightarrow> ('h, 'c, 'v, 's, 'a, 'l) handlers \<Rightarrow>
   's \<times> ('a, 'l) queue \<times> ('h, 'c, 'v, 's, 'a, 'l) handlers \<Rightarrow>
   (('h, 'c, 'v, 's, 'a, 'l) box_handler \<times> nat) list \<Rightarrow> bool" where
  "delivers msg i st q hs res order \<longleftrightarrow>
     (case run_each msg order st q of (rs, st', q') \<Rightarrow>
        mset order = mset (drop i (hs_handlers hs)) \<and> fst res = st' \<and> fst (snd res) = q' \<and>
        mset (hs_handlers (snd (snd res))) = mset (take i (hs_handlers hs)) + mset (kept rs) \<and>
        hs_yielded (snd (snd res)) = hs_yielded hs @ yielded_ids rs \<and>
        hs_finished (snd (snd res)) = hs_finished hs @ done_ids rs \<and>
        hs_wants_owning (snd (snd res)) = (hs_wants_owning hs \<or> (\<exists>r \<in> set rs. wants_own (fst r))))"

lemma handle_loop_delivers: "\<exists>order. delivers msg i st q hs (handle_loop msg i st q hs) order"
proof (induction msg i st q hs rule: handle_loop.induct)
  case (1 msg i st q hs)
  let ?l = "hs_handlers hs"
  show ?case
  proof (cases "i < length ?l")
    case False
    then show ?thesis
      by (intro exI [of _ "[]"]) (simp add: delivers_def handle_loop.simps [of msg i])
  next
    case True
    obtain b hid where bi: "?l ! i = (b, hid)" by (cases "?l ! i")
    obtain status st' q' b' where call: "box_call msg st q b = (status, st', q', b')" by (cases "box_call msg st q b")
    have drop: "drop i ?l = (b, hid) # drop (Suc i) ?l" using True bi by (simp add: Cons_nth_drop_Suc [symmetric])
    show ?thesis
    proof (cases status)
      case (Keep y wo)
      let ?hs = "hs\<lparr>hs_handlers := ?l[i := (b', hid)], hs_yielded := (if y then hs_yielded hs @ [hid] else hs_yielded hs),
        hs_wants_owning := (hs_wants_owning hs \<or> wo)\<rparr>"
      have r: "handle_loop msg i st q hs = handle_loop msg (i + 1) st' q' ?hs"
        using True bi call Keep by (simp add: handle_loop.simps [of msg i])
      obtain order where "delivers msg (i + 1) st' q' ?hs (handle_loop msg i st q hs) order"
        using 1(1) [OF True bi [symmetric] refl call [symmetric] refl refl refl Keep] r by auto
      then have "delivers msg i st q hs (handle_loop msg i st q hs) ((b, hid) # order)"
        using True Keep call drop by (auto simp: delivers_def take_Suc_conv_app_nth split: prod.splits)
      then show ?thesis by blast
    next
      case (Done y)
      let ?hs = "hs\<lparr>hs_handlers := swap_remove i ?l, hs_yielded := (if y then hs_yielded hs @ [hid] else hs_yielded hs),
        hs_finished := hs_finished hs @ [hid]\<rparr>"
      have r: "handle_loop msg i st q hs = handle_loop msg i st' q' ?hs"
        using True bi call Done by (simp add: handle_loop.simps [of msg i st q])
      obtain order where "delivers msg i st' q' ?hs (handle_loop msg i st q hs) order"
        using 1(2) [OF True bi [symmetric] refl call [symmetric] refl refl refl Done] r by auto
      then have "delivers msg i st q hs (handle_loop msg i st q hs) ((b, hid) # order)"
        using True Done call drop
        by (auto simp: delivers_def take_swap_remove mset_drop_swap_remove split: prod.splits)
      then show ?thesis by blast
    qed
  qed
qed

section \<open>Identifiers\<close>

text \<open>The identifiers in use and the ones to be used again are the first natural numbers, each once.\<close>

definition handlers_ok :: "('h, 'c, 'v, 's, 'a, 'l) handlers \<Rightarrow> bool" where
  "handlers_ok hs \<longleftrightarrow>
     mset (map snd (hs_handlers hs)) + mset (hs_finished hs) =
       mset [0..<length (hs_handlers hs) + length (hs_finished hs)]"

lemma handlers_ok_distinct:
  assumes "handlers_ok hs"
  shows "distinct (map snd (hs_handlers hs) @ hs_finished hs)"
    and "set (map snd (hs_handlers hs) @ hs_finished hs) = {..<length (hs_handlers hs) + length (hs_finished hs)}"
proof -
  let ?ids = "map snd (hs_handlers hs) @ hs_finished hs"
  have e: "mset ?ids = mset [0..<length (hs_handlers hs) + length (hs_finished hs)]"
    using assms by (simp add: handlers_ok_def)
  show "distinct ?ids" using mset_eq_imp_distinct_iff [OF e] by simp
  show "set ?ids = {..<length (hs_handlers hs) + length (hs_finished hs)}"
    using mset_eq_setD [OF e] by (simp add: atLeast0LessThan)
qed

lemma handlers_add_ok:
  assumes "handlers_ok hs"
  shows "handlers_ok (snd (handlers_add h s hs))"
    and "fst (handlers_add h s hs) \<notin> snd ` set (hs_handlers hs)"
proof -
  note d = handlers_ok_distinct [OF assms]
  show "handlers_ok (snd (handlers_add h s hs))"
  proof (cases "hs_finished hs" rule: rev_cases)
    case Nil
    with assms show ?thesis by (simp add: handlers_ok_def handlers_add_def)
  next
    case (snoc fin i)
    with assms show ?thesis by (simp add: handlers_ok_def handlers_add_def)
  qed
  show "fst (handlers_add h s hs) \<notin> snd ` set (hs_handlers hs)"
  proof (cases "hs_finished hs" rule: rev_cases)
    case Nil
    with d(2) show ?thesis by (auto simp: handlers_add_def)
  next
    case (snoc fin i)
    with d(1) show ?thesis by (auto simp: handlers_add_def)
  qed
qed

lemma cancel_one_ok: "handlers_ok hs \<Longrightarrow> cancel_one i hs = Some hs' \<Longrightarrow> handlers_ok hs'"
proof -
  assume ok: "handlers_ok hs" and "cancel_one i hs = Some hs'"
  then obtain k where k: "position (\<lambda>(_, i2). i = i2) (hs_handlers hs) = Some k"
    and hs': "hs_handlers hs' = swap_remove k (hs_handlers hs)" "hs_finished hs' = hs_finished hs @ [i]"
    by (auto simp: cancel_one_def Let_def split: option.splits)
  from k have kl: "k < length (hs_handlers hs)" "snd (hs_handlers hs ! k) = i"
    by (auto dest: position_Some_less position_Some_nth)
  have "mset (map snd (hs_handlers hs)) = add_mset i (mset (map snd (swap_remove k (hs_handlers hs))))"
    using arg_cong [OF mset_swap_remove [OF kl(1)], of "image_mset snd"] kl(2) by simp
  then have "mset (map snd (hs_handlers hs')) + mset (hs_finished hs') =
      mset (map snd (hs_handlers hs)) + mset (hs_finished hs)"
    by (simp add: hs')
  moreover have "length (hs_handlers hs') + length (hs_finished hs') = length (hs_handlers hs) + length (hs_finished hs)"
    using kl(1) by (simp add: hs')
  ultimately show ?thesis using ok unfolding handlers_ok_def by metis
qed

lemma cancel_one_known: "cancel_one i hs \<noteq> None \<longleftrightarrow> i \<in> snd ` set (hs_handlers hs)"
proof (cases "position (\<lambda>(_, i2). i = i2) (hs_handlers hs)")
  case None
  then have "\<forall>p \<in> set (hs_handlers hs). i \<noteq> snd p" by (auto simp: position_None split_def)
  then have "i \<notin> snd ` set (hs_handlers hs)" by auto
  with None show ?thesis by (simp add: cancel_one_def)
next
  case (Some k)
  then have "k < length (hs_handlers hs)" "snd (hs_handlers hs ! k) = i"
    by (auto dest: position_Some_less position_Some_nth)
  then have "i \<in> snd ` set (hs_handlers hs)" by force
  with Some show ?thesis by (simp add: cancel_one_def Let_def)
qed

lemma kept_done_mset:
  "mset (map snd (kept rs)) + mset (done_ids rs) = mset (map (\<lambda>(_, _, i). i) rs)"
proof (induction rs)
  case (Cons r rs)
  then show ?case by (cases r) simp
qed simp

lemma handle_ok:
  assumes "handlers_ok hs" and "handlers_handle msg st q hs = (f, st', q', hs')"
  shows "handlers_ok hs'"
proof -
  let ?hs1 = "hs\<lparr>hs_wants_owning := False, hs_yielded := []\<rparr>"
  obtain order where o: "delivers msg 0 st q ?hs1 (handle_loop msg 0 st q ?hs1) order"
    using handle_loop_delivers [of msg 0 st q ?hs1] by (rule exE)
  obtain rs st1 q1 where rs: "run_each msg order st q = (rs, st1, q1)" by (cases "run_each msg order st q")
  have h: "mset (hs_handlers hs') = mset (kept rs)" "hs_finished hs' = hs_finished hs @ done_ids rs"
    "mset order = mset (hs_handlers hs)"
    using o rs assms(2) by (auto simp: delivers_def handlers_handle_def Let_def split: prod.splits)
  have "mset (map (\<lambda>(_, _, i). i) rs) = mset (map snd order)"
    using arg_cong [OF run_each_ids [of msg order st q], of mset] rs by simp
  with kept_done_mset [of rs] have "mset (map snd (hs_handlers hs')) + mset (done_ids rs) = mset (map snd order)"
    using arg_cong [OF h(1), of "image_mset snd"] by simp
  also have "\<dots> = mset (map snd (hs_handlers hs))" using arg_cong [OF h(3), of "image_mset snd"] by simp
  finally have m: "mset (map snd (hs_handlers hs')) + mset (done_ids rs) = mset (map snd (hs_handlers hs))" .
  then have "length (hs_handlers hs') + length (done_ids rs) = length (hs_handlers hs)"
    by (metis length_map size_mset size_union)
  then have "length (hs_handlers hs') + length (hs_finished hs') = length (hs_handlers hs) + length (hs_finished hs)"
    by (simp add: h(2))
  moreover have "mset (map snd (hs_handlers hs')) + mset (hs_finished hs') =
      mset (map snd (hs_handlers hs)) + mset (hs_finished hs)"
    unfolding m [symmetric] h(2) by (simp add: ac_simps)
  ultimately show ?thesis using assms(1) unfolding handlers_ok_def by metis
qed

section \<open>Runs of the registry\<close>

text \<open>The client adds handlers, cancels them, and runs them on the messages it receives.\<close>

inductive handlers_step ::
  "'s \<times> ('a, 'l) queue \<times> ('h, 'c, 'v, 's, 'a, 'l) handlers \<Rightarrow>
   's \<times> ('a, 'l) queue \<times> ('h, 'c, 'v, 's, 'a, 'l) handlers \<Rightarrow> bool" where
  step_add: "handlers_add h s hs = (i, hs') \<Longrightarrow> handlers_step (st, q, hs) (st, q, hs')"
| step_cancel_one: "cancel_one i hs = Some hs' \<Longrightarrow> handlers_step (st, q, hs) (st, q, hs')"
| step_cancel: "handlers_step (st, q, hs) (st, q, handlers_cancel hs)"
| step_handle: "handlers_handle msg st q hs = (f, st', q', hs') \<Longrightarrow> handlers_step (st, q, hs) (st', q', hs')"

inductive_cases handlers_stepE: "handlers_step (st, q, hs) x"

lemma step_added: "handlers_step (st, q, hs) (st, q, snd (handlers_add h s hs))"
  by (rule step_add) (rule prod.collapse [symmetric])

lemma handlers_step_ok: "handlers_step x y \<Longrightarrow> handlers_ok (snd (snd x)) \<Longrightarrow> handlers_ok (snd (snd y))"
proof (induction rule: handlers_step.induct)
  case (step_add h s hs i hs' st q)
  then show ?case using handlers_add_ok(1) [of hs h s] by simp
next
  case (step_cancel st q hs)
  show ?case by (simp add: handlers_ok_def handlers_cancel_def)
next
  case (step_cancel_one i hs hs' st q)
  then show ?case using cancel_one_ok [of hs i hs'] by simp
next
  case (step_handle msg st q hs f st' q' hs')
  then show ?case using handle_ok [of hs msg st q f st' q' hs'] by simp
qed

lemma handlers_reachable_ok:
  "handlers_step\<^sup>*\<^sup>* x y \<Longrightarrow> handlers_ok (snd (snd x)) \<Longrightarrow> handlers_ok (snd (snd y))"
  by (induction rule: rtranclp_induct) (auto dest: handlers_step_ok)

section \<open>Yielded values\<close>

text \<open>What reaches an open queue channel, and a closed one.\<close>

lemma sr_send_open:
  assumes "snd_send (sr_sender sr) = mpsc_send" and "mp_open (snd_state (sr_sender sr))"
  shows "sr_send v sr =
    (Continue, \<lparr>sr_sender = (sr_sender sr)\<lparr>snd_state := (snd_state (sr_sender sr))\<lparr>mp_items := mp_items (snd_state (sr_sender sr)) @ [v]\<rparr>\<rparr>,
       sr_flag = True\<rparr>)"
  using assms by (simp add: sr_send_def mpsc_send_def Let_def)

lemma sr_send_closed:
  assumes "snd_send (sr_sender sr) = mpsc_send" and "\<not> mp_open (snd_state (sr_sender sr))"
  shows "sr_send v sr = (Break SentClosed, sr)"
  using assms by (simp add: sr_send_def mpsc_send_def Let_def)

lemma send_all_open:
  assumes "snd_send (sr_sender sr) = mpsc_send" and "mp_open (snd_state (sr_sender sr))"
  shows "fst (send_all vs sr) = Continue"
    and "mp_items (snd_state (sr_sender (snd (send_all vs sr)))) = mp_items (snd_state (sr_sender sr)) @ vs"
    and "sr_flag (snd (send_all vs sr)) = (sr_flag sr \<or> vs \<noteq> [])"
  using assms by (induction vs arbitrary: sr) (simp_all add: sr_send_open cf_discard_def)

lemma send_all_closed:
  assumes "snd_send (sr_sender sr) = mpsc_send" and "\<not> mp_open (snd_state (sr_sender sr))"
  shows "send_all vs sr = (if vs = [] then Continue else Break (), sr)"
  using assms by (cases vs) (simp_all add: sr_send_closed cf_discard_def)

lemma yield_parsed_get:
  "get_impl fst m (length m) k = Some i \<Longrightarrow> fm_get fst m k = Some (m ! i)"
  "get_impl fst m (length m) k = None \<Longrightarrow> fm_get fst m k = None"
  by (simp_all add: fm_get_def)

lemma map_option_eq_SomeE:
  assumes "map_option f x = Some z" obtains y where "x = Some y" "f y = z"
  using assms by auto

lemma yield_parsed_built:
  fixes ps :: "(bytes \<times> ('p, 'v) yield_parser) list"
  shows "fm_get fst (fold (\<lambda>(k, p). yield_parsed_with k p) ps yield_parsed_new) k =
     map_option (Pair k) (map_of (rev ps) k)"
proof -
  have e: "fold (\<lambda>(k, p). yield_parsed_with k p) ps yield_parsed_new = fold (fm_insert fst) ps fm_new"
    unfolding yield_parsed_new_def by (rule fold_cong) (auto simp: yield_parsed_with_def fm_insert_def)
  have "find (\<lambda>e. fst e = k) qs = map_option (Pair k) (map_of qs k)" for qs :: "(bytes \<times> ('p, 'v) yield_parser) list"
    by (induction qs) auto
  then show ?thesis unfolding e using fm.lookup_inserts [OF fm.inv_emp, of fst ps k]
    by (simp add: fm.lookup_emp split: option.splits)
qed

section \<open>Properties\<close>

text \<open>C25: in every state the registry reaches from the empty one, whatever handlers are added, cancelled
  and run, the identifiers in use and the identifiers to be used again are distinct and together are
  an initial segment of the natural numbers; an added handler gets an identifier no other has.\<close>

theorem handler_ids_unique:
  fixes hs :: "('h, 'c, 'v, 's, 'a, 'l) handlers"
  assumes "handlers_step\<^sup>*\<^sup>* (st0, q0, handlers_default) (st, q, hs)"
  shows "distinct (map snd (hs_handlers hs) @ hs_finished hs) \<and>
    set (map snd (hs_handlers hs) @ hs_finished hs) = {..<length (hs_handlers hs) + length (hs_finished hs)} \<and>
    fst (handlers_add h s hs) \<notin> snd ` set (hs_handlers hs)"
proof -
  have "handlers_ok hs"
    using handlers_reachable_ok [OF assms] by (simp add: handlers_ok_def handlers_default_def)
  then show ?thesis by (intro conjI) (rule handlers_ok_distinct handlers_add_ok, assumption)+
qed

text \<open>Two handlers that yield everything: the first is cancelled, and the next one added takes over its
  identifier.\<close>

theorem handler_ids_unique_witness:
  "let hs1 = snd (handlers_add YieldAll closed_sender (handlers_default :: (unit, unit, server_msg, unit, unit, unit) handlers));
       hs2 = snd (handlers_add YieldAll closed_sender hs1); hs3 = the (cancel_one 0 hs2)
   in map snd (hs_handlers hs3) = [1] \<and> hs_finished hs3 = [0] \<and>
      fst (handlers_add YieldAll closed_sender hs3) \<notin> snd ` set (hs_handlers hs3)"
proof -
  define hs1 where "hs1 = snd (handlers_add YieldAll closed_sender (handlers_default :: (unit, unit, server_msg, unit, unit, unit) handlers))"
  define hs2 where "hs2 = snd (handlers_add YieldAll closed_sender hs1)"
  define hs3 where "hs3 = the (cancel_one 0 hs2)"
  have c: "cancel_one 0 hs2 = Some hs3" "map snd (hs_handlers hs3) = [1]" "hs_finished hs3 = [0]"
    unfolding hs3_def
    by (simp_all add: hs2_def hs1_def handlers_add_def handlers_default_def cancel_one_def swap_remove_def Let_def)
  let ?q = "queue_new 0"
  have "handlers_step ((), ?q, handlers_default) ((), ?q, hs1)" "handlers_step ((), ?q, hs1) ((), ?q, hs2)"
    "handlers_step ((), ?q, hs2) ((), ?q, hs3)"
    unfolding hs1_def hs2_def using c(1) by (simp_all only: step_added step_cancel_one hs1_def hs2_def)
  then have "handlers_step\<^sup>*\<^sup>* ((), ?q, handlers_default) ((), ?q, hs3)"
    by (meson converse_rtranclp_into_rtranclp r_into_rtranclp)
  from handler_ids_unique [OF this, of YieldAll closed_sender] c(2,3)
  show ?thesis unfolding hs1_def [symmetric] hs2_def [symmetric] hs3_def [symmetric] Let_def by blast
qed

text \<open>C26: a run of the registry calls every handler exactly once, in some order, threading the client
  state and the queue through the calls; afterwards the registry holds the handlers that asked to be
  kept, in their new states, and the results of the run name the handlers that sent a value and the
  handlers that finished.\<close>

theorem handle_runs_each_once:
  "case handlers_handle msg st q hs of (f, st', q', hs') \<Rightarrow>
     \<exists>order rs. mset order = mset (hs_handlers hs) \<and> run_each msg order st q = (rs, st', q') \<and>
       mset (hs_handlers hs') = mset (kept rs) \<and> last_run_results f hs' = Some (yielded_ids rs, done_ids rs) \<and>
       hs_wants_owning hs' = (\<exists>r \<in> set rs. wants_own (fst r))"
proof -
  let ?hs1 = "hs\<lparr>hs_wants_owning := False, hs_yielded := []\<rparr>"
  obtain order where o: "delivers msg 0 st q ?hs1 (handle_loop msg 0 st q ?hs1) order"
    using handle_loop_delivers [of msg 0 st q ?hs1] by (rule exE)
  obtain rs st1 q1 where rs: "run_each msg order st q = (rs, st1, q1)" by (cases "run_each msg order st q")
  obtain st' q' hs' where l: "handle_loop msg 0 st q ?hs1 = (st', q', hs')" by (cases "handle_loop msg 0 st q ?hs1")
  show ?thesis
    using o rs l by (auto simp: delivers_def handlers_handle_def last_run_results_def intro!: exI [of _ order] exI [of _ rs])
qed

text \<open>a handler built from parsers for message kinds sends to an open queue channel exactly the
  values that the parser registered last for the kind of the message makes of it, in order, leaves the
  client state and the queue alone and asks to be kept.\<close>

lemma yield_parsed_dispatch:
  assumes "mp_open c"
  shows "case yield_parsed_handle msg st g \<lparr>sr_sender = mpsc_sender c, sr_flag = False\<rparr>
           (fold (\<lambda>(k, p). yield_parsed_with k p) ps yield_parsed_new) of
         (cf, st', g', sr, m') \<Rightarrow> cf = Continue \<and> st' = st \<and> g' = g \<and>
           mp_items (snd_state (sr_sender sr)) = mp_items c @
             (case map_of (rev ps) (kind_borrow (sm_kind msg)) of
                None \<Rightarrow> [] | Some p \<Rightarrow> fst (yp_parse p msg (yp_state p)))"
proof -
  let ?m = "fold (\<lambda>(k, p). yield_parsed_with k p) ps yield_parsed_new" and ?k = "kind_borrow (sm_kind msg)"
  let ?sr = "\<lparr>sr_sender = mpsc_sender c, sr_flag = False\<rparr>"
  have op: "snd_send (sr_sender ?sr) = mpsc_send" "mp_open (snd_state (sr_sender ?sr))" "snd_state (sr_sender ?sr) = c"
    using assms by (simp_all add: mpsc_sender_def)
  note sent = send_all_open [OF op(1,2)]
  show ?thesis
  proof (cases "get_impl fst ?m (length ?m) ?k")
    case None
    with yield_parsed_get(2) [OF None] yield_parsed_built [of ps ?k] op(3) show ?thesis
      by (simp add: yield_parsed_handle_def)
  next
    case (Some i)
    have "map_option (Pair ?k) (map_of (rev ps) ?k) = Some (?m ! i)"
      using yield_parsed_get(1) [OF Some] yield_parsed_built [of ps ?k] by simp
    then obtain p where p: "map_of (rev ps) ?k = Some p" "(?k, p) = ?m ! i" by (rule map_option_eq_SomeE)
    show ?thesis using Some sent op(3) p(1) p(2) [symmetric] by (simp add: yield_parsed_handle_def split_def Let_def)
  qed
qed

end
