(* ===== verification/Oneshot.thy ===== *)
theory Oneshot
  imports Handlers
begin

text \<open>
  The oneshot channel of \<open>client/handler/channel/oneshot.rs\<close>, twice: as operations that run without
  interference, and as threads that interleave at every access to the shared \<open>Inner\<close>, with sequentially
  consistent atomics.  \<open>Once::call_once\<close> is one step: the standard library lets one closure run, once,
  and makes other callers wait for it.  Freeing the allocation is counted, per side, rather than making
  the cell unusable, so that a second free can be seen.
\<close>

section \<open>The shared cell\<close>

record 'v inner =
  sender_count :: nat
  recver :: bool
  once_done :: bool
  in_value :: "'v option"
  freed_s :: nat
  freed_r :: nat

definition channel_new :: "'v inner" where
  "channel_new = \<lparr>sender_count = 1, recver = True, once_done = False, in_value = None, freed_s = 0, freed_r = 0\<rparr>"

section \<open>Operations\<close>

definition sender_clone :: "'v inner \<Rightarrow> 'v inner" where
  "sender_clone c = c\<lparr>sender_count := sender_count c + 1\<rparr>"

definition sender_drop :: "'v inner \<Rightarrow> 'v inner" where
  "sender_drop c =
     (let old = sender_count c; c1 = c\<lparr>sender_count := old - 1\<rparr> in
      if old = 1 then (if \<not> recver c1 then c1\<lparr>freed_s := freed_s c1 + 1\<rparr> else c1) else c1)"

text \<open>\<open>Drop for Receiver\<close>.\<close>

definition recver_drop :: "'v inner \<Rightarrow> 'v inner" where
  "recver_drop c =
     (let c1 = c\<lparr>recver := False\<rparr>; has_value = once_done c1; c2 = c1\<lparr>once_done := True\<rparr>;
          c3 = (if has_value then c2\<lparr>in_value := None\<rparr> else c2)
      in if sender_count c3 = 0 then c3\<lparr>freed_r := freed_r c3 + 1\<rparr> else c3)"

definition os_is_empty :: "'v inner \<Rightarrow> bool" where
  "os_is_empty c \<longleftrightarrow> \<not> once_done c"

text \<open>Reading the value when the lock is completed is sound because it is then initialised.\<close>

definition os_peek :: "'v inner \<Rightarrow> 'v option" where
  "os_peek c = (if once_done c then in_value c else None)"

definition recv_now :: "'v inner \<Rightarrow> 'v option \<times> 'v inner" where
  "recv_now c =
     (let c1 = c\<lparr>recver := False\<rparr>; has_value = once_done c1; c2 = c1\<lparr>once_done := True\<rparr>;
          retval = (if has_value then in_value c2 else None);
          c3 = (if has_value then c2\<lparr>in_value := None\<rparr> else c2)
      in (retval, if sender_count c3 = 0 then c3\<lparr>freed_r := freed_r c3 + 1\<rparr> else c3))"

definition os_is_closed :: "'v inner \<Rightarrow> bool" where
  "os_is_closed c \<longleftrightarrow> \<not> recver c \<or> once_done c"

text \<open>\<open>send\<close> consumes the sender, which is dropped at its end.\<close>

definition os_send :: "'v \<Rightarrow> 'v inner \<Rightarrow> (unit, 'v) result \<times> 'v inner" where
  "os_send v c =
     (let (r, c1) =
        (if recver c \<and> \<not> once_done c then (Inr (), c\<lparr>once_done := True, in_value := Some v\<rparr>) else (Inl v, c))
      in (r, sender_drop c1))"

text \<open>The sender of handlers: an optional oneshot sender, that is taken out by the first send.\<close>

definition opt_send :: "'v \<Rightarrow> bool \<times> 'v inner \<Rightarrow> Sent control_flow \<times> bool \<times> 'v inner" where
  "opt_send v s =
     (let (has_sender, c) = s in
      if \<not> has_sender then (Break SentClosed, s)
      else
        (case os_send v c of
           (Inr _, c') \<Rightarrow> (Break SentOk, False, c')
         | (Inl _, c') \<Rightarrow> (Break SentClosed, False, c')))"

definition opt_may_send :: "bool \<times> 'v inner \<Rightarrow> bool" where
  "opt_may_send s \<longleftrightarrow> fst s \<and> \<not> os_is_closed (snd s)"

definition oneshot_sender :: "'v inner \<Rightarrow> (bool \<times> 'v inner, 'v) sender" where
  "oneshot_sender c = \<lparr>snd_state = (True, c), snd_send = opt_send, snd_may_send = opt_may_send\<rparr>"

section \<open>Threads\<close>

text \<open>The accesses of a sender to the shared cell, in the order of the code: \<open>SLoad\<close> and \<open>SOnce\<close> in \<open>send\<close>,
  \<open>SDrop\<close>, \<open>SCheck\<close> and \<open>SFree\<close> in the destructor.\<close>

datatype 'v sender_pc = SIdle | SLoad 'v | SOnce 'v | SDrop | SCheck | SFree | SDone

text \<open>The accesses of the receiver, in \<open>recv_now\<close> and in the destructor alike: the store, the lock, the
  value, the count.\<close>

datatype recver_pc = RIdle | RStore | ROnce | RTake | RCheck | RFree | RDone

text \<open>The threads also keep the values whose send succeeded, and the values that left the cell.\<close>

record 'v system =
  cell :: "'v inner"
  senders :: "'v sender_pc list"
  receiver :: recver_pc
  accepted :: "'v list"
  taken :: "'v list"

definition sys_new :: "'v system" where
  "sys_new = \<lparr>cell = channel_new, senders = [SIdle], receiver = RIdle, accepted = [], taken = []\<rparr>"

fun sender_act :: "nat \<Rightarrow> 'v sender_pc \<Rightarrow> 'v system \<Rightarrow> 'v system" where
  "sender_act i (SLoad v) s = s\<lparr>senders := (senders s)[i := (if recver (cell s) then SOnce v else SDrop)]\<rparr>"
| "sender_act i (SOnce v) s =
     (if once_done (cell s) then s\<lparr>senders := (senders s)[i := SDrop]\<rparr>
      else s\<lparr>cell := (cell s)\<lparr>once_done := True, in_value := Some v\<rparr>, senders := (senders s)[i := SDrop],
             accepted := accepted s @ [v]\<rparr>)"
| "sender_act i SDrop s =
     s\<lparr>cell := (cell s)\<lparr>sender_count := sender_count (cell s) - 1\<rparr>,
       senders := (senders s)[i := (if sender_count (cell s) = 1 then SCheck else SDone)]\<rparr>"
| "sender_act i SCheck s = s\<lparr>senders := (senders s)[i := (if recver (cell s) then SDone else SFree)]\<rparr>"
| "sender_act i SFree s = s\<lparr>cell := (cell s)\<lparr>freed_s := freed_s (cell s) + 1\<rparr>, senders := (senders s)[i := SDone]\<rparr>"
| "sender_act i _ s = s"

fun recver_act :: "recver_pc \<Rightarrow> 'v system \<Rightarrow> 'v system" where
  "recver_act RStore s = s\<lparr>cell := (cell s)\<lparr>recver := False\<rparr>, receiver := ROnce\<rparr>"
| "recver_act ROnce s =
     s\<lparr>cell := (cell s)\<lparr>once_done := True\<rparr>, receiver := (if once_done (cell s) then RTake else RCheck)\<rparr>"
| "recver_act RTake s =
     s\<lparr>cell := (cell s)\<lparr>in_value := None\<rparr>, receiver := RCheck,
       taken := taken s @ (case in_value (cell s) of Some v \<Rightarrow> [v] | None \<Rightarrow> [])\<rparr>"
| "recver_act RCheck s = s\<lparr>receiver := (if sender_count (cell s) = 0 then RFree else RDone)\<rparr>"
| "recver_act RFree s = s\<lparr>cell := (cell s)\<lparr>freed_r := freed_r (cell s) + 1\<rparr>, receiver := RDone\<rparr>"
| "recver_act _ s = s"

inductive os_step :: "'v system \<Rightarrow> 'v system \<Rightarrow> bool" where
  os_clone: "i < length (senders s) \<Longrightarrow> senders s ! i = SIdle \<Longrightarrow>
    os_step s (s\<lparr>cell := sender_clone (cell s), senders := senders s @ [SIdle]\<rparr>)"
| os_start_send: "i < length (senders s) \<Longrightarrow> senders s ! i = SIdle \<Longrightarrow> os_step s (s\<lparr>senders := (senders s)[i := SLoad v]\<rparr>)"
| os_start_drop: "i < length (senders s) \<Longrightarrow> senders s ! i = SIdle \<Longrightarrow> os_step s (s\<lparr>senders := (senders s)[i := SDrop]\<rparr>)"
| os_sender: "i < length (senders s) \<Longrightarrow> os_step s (sender_act i (senders s ! i) s)"
| os_start_recv: "receiver s = RIdle \<Longrightarrow> os_step s (s\<lparr>receiver := RStore\<rparr>)"
| os_recver: "os_step s (recver_act (receiver s) s)"

section \<open>Invariant\<close>

text \<open>Senders that have not counted themselves out, and senders that are about to free or may be.\<close>

fun live_pc :: "'v sender_pc \<Rightarrow> nat" where
  "live_pc SIdle = 1" | "live_pc (SLoad v) = 1" | "live_pc (SOnce v) = 1" | "live_pc SDrop = 1" | "live_pc _ = 0"

fun check_pc :: "'v sender_pc \<Rightarrow> nat" where
  "check_pc SCheck = 1" | "check_pc _ = 0"

fun free_pc :: "'v sender_pc \<Rightarrow> nat" where
  "free_pc SFree = 1" | "free_pc _ = 0"

definition total :: "('p \<Rightarrow> nat) \<Rightarrow> 'p list \<Rightarrow> nat" where
  "total f ps = sum_list (map f ps)"

lemma total_update: "i < length ps \<Longrightarrow> total f (ps[i := p]) + f (ps ! i) = total f ps + f p"
  unfolding total_def
  by (induction ps arbitrary: i) (auto simp: less_Suc_eq_0_disj nth_Cons' split: nat.splits)

lemma total_append [simp]: "total f (ps @ qs) = total f ps + total f qs" and total_Nil [simp]: "total f [] = 0"
  and total_Cons [simp]: "total f (p # ps) = f p + total f ps"
  by (simp_all add: total_def)

text \<open>The counting part.\<close>

definition count_ok :: "'v system \<Rightarrow> bool" where
  "count_ok s \<longleftrightarrow> sender_count (cell s) = total live_pc (senders s) \<and>
     total check_pc (senders s) + total free_pc (senders s) + freed_s (cell s) \<le> (if sender_count (cell s) = 0 then 1 else 0) \<and>
     freed_r (cell s) \<le> (if receiver s = RDone then 1 else 0) \<and>
     recver (cell s) = (receiver s \<in> {RIdle, RStore}) \<and>
     (sender_count (cell s) = 0 \<and> total check_pc (senders s) = 0 \<and> receiver s \<in> {RFree, RDone} \<longrightarrow>
        1 \<le> total free_pc (senders s) + freed_s (cell s) + freed_r (cell s) + (if receiver s = RFree then 1 else 0))"

text \<open>The value part: where an accepted value is.\<close>

definition value_ok :: "'v system \<Rightarrow> bool" where
  "value_ok s \<longleftrightarrow>
     (if receiver s \<in> {RIdle, RStore, ROnce}
      then taken s = [] \<and> accepted s = (case in_value (cell s) of Some v \<Rightarrow> [v] | None \<Rightarrow> []) \<and>
           (once_done (cell s) \<longleftrightarrow> in_value (cell s) \<noteq> None)
      else if receiver s = RTake
      then taken s = [] \<and> once_done (cell s) \<and> (\<exists>v. in_value (cell s) = Some v \<and> accepted s = [v])
      else taken s = accepted s \<and> length (accepted s) \<le> 1 \<and> once_done (cell s) \<and> in_value (cell s) = None)"

lemma count_ok_sender:
  assumes "count_ok s" and i: "i < length (senders s)"
  shows "count_ok (sender_act i (senders s ! i) s)"
proof -
  note u = total_update [OF i, of live_pc] total_update [OF i, of check_pc] total_update [OF i, of free_pc]
  show ?thesis
  proof (cases "senders s ! i")
    case (SLoad v)
    with assms(1) u [of SDrop] u [of "SOnce v"] show ?thesis by (auto simp: count_ok_def)
  next
    case (SOnce v)
    with assms(1) u [of SDrop] show ?thesis by (auto simp: count_ok_def)
  next
    case SDrop
    with assms(1) u [of SCheck] u [of SDone] show ?thesis by (auto simp: count_ok_def split: if_splits)
  next
    case SCheck
    with assms(1) u [of SFree] u [of SDone] show ?thesis by (auto simp: count_ok_def split: if_splits)
  next
    case SFree
    with assms(1) u [of SDone] show ?thesis by (auto simp: count_ok_def split: if_splits)
  qed (use assms(1) in simp_all)
qed

lemma count_ok_recver: "count_ok s \<Longrightarrow> count_ok (recver_act (receiver s) s)"
  by (cases "receiver s") (auto simp: count_ok_def split: if_splits)

lemma value_ok_sender: "value_ok s \<Longrightarrow> value_ok (sender_act i pc s)"
  by (cases pc) (auto simp: value_ok_def split: if_splits option.splits)

lemma value_ok_recver: "value_ok s \<Longrightarrow> value_ok (recver_act (receiver s) s)"
  by (cases "receiver s") (auto simp: value_ok_def split: if_splits option.splits)

lemma os_step_ok: "os_step s s' \<Longrightarrow> count_ok s \<and> value_ok s \<Longrightarrow> count_ok s' \<and> value_ok s'"
proof (induction rule: os_step.induct)
  case (os_clone i s)
  have "0 < total live_pc (senders s)"
    using total_update [OF os_clone(1), of live_pc SDone] os_clone(2) by simp
  with os_clone show ?case by (auto simp: count_ok_def value_ok_def sender_clone_def)
next
  case (os_start_send i s v)
  with total_update [OF os_start_send(1), of live_pc "SLoad v"] total_update [OF os_start_send(1), of check_pc "SLoad v"]
    total_update [OF os_start_send(1), of free_pc "SLoad v"]
  show ?case by (auto simp: count_ok_def value_ok_def)
next
  case (os_start_drop i s)
  with total_update [OF os_start_drop(1), of live_pc SDrop] total_update [OF os_start_drop(1), of check_pc SDrop]
    total_update [OF os_start_drop(1), of free_pc SDrop]
  show ?case by (auto simp: count_ok_def value_ok_def)
next
  case (os_sender i s)
  then show ?case by (simp add: count_ok_sender value_ok_sender)
next
  case (os_start_recv s)
  then show ?case by (auto simp: count_ok_def value_ok_def)
next
  case (os_recver s)
  then show ?case by (simp add: count_ok_recver value_ok_recver)
qed

lemma os_reachable_ok: "os_step\<^sup>*\<^sup>* sys_new s \<Longrightarrow> count_ok s \<and> value_ok s"
proof (induction rule: rtranclp_induct)
  case base
  show ?case by (simp add: count_ok_def value_ok_def sys_new_def channel_new_def)
next
  case (step s s')
  then show ?case using os_step_ok by blast
qed

section \<open>Operations as runs of a thread\<close>

lemma sender_step: "i < length (senders s) \<Longrightarrow> senders s ! i = pc \<Longrightarrow> sender_act i pc s = s' \<Longrightarrow> os_step s s'"
  using os_sender [of i s] by simp

lemma recver_step: "receiver s = pc \<Longrightarrow> recver_act pc s = s' \<Longrightarrow> os_step s s'"
  using os_recver [of s] by simp

lemmas step_chain = converse_rtranclp_into_rtranclp [of os_step]

lemmas one_step = r_into_rtranclp [of os_step]

lemma sender_drop_runs:
  assumes i: "i < length (senders s)" and d: "senders s ! i = SDrop"
    and "s' = s\<lparr>cell := sender_drop (cell s), senders := (senders s)[i := SDone]\<rparr>"
  shows "os_step\<^sup>*\<^sup>* s s'"
  unfolding assms(3)
proof (cases "sender_count (cell s) = 1")
  case False
  then have "os_step s (s\<lparr>cell := sender_drop (cell s), senders := (senders s)[i := SDone]\<rparr>)"
    by (intro sender_step [OF i d]) (simp add: sender_drop_def Let_def)
  then show "os_step\<^sup>*\<^sup>* s (s\<lparr>cell := sender_drop (cell s), senders := (senders s)[i := SDone]\<rparr>)" by (rule one_step)
next
  case one: True
  let ?c1 = "(cell s)\<lparr>sender_count := 0\<rparr>"
  have 1: "os_step s (s\<lparr>cell := ?c1, senders := (senders s)[i := SCheck]\<rparr>)" (is "os_step s ?s1")
    using one by (intro sender_step [OF i d]) simp
  show "os_step\<^sup>*\<^sup>* s (s\<lparr>cell := sender_drop (cell s), senders := (senders s)[i := SDone]\<rparr>)"
  proof (cases "recver (cell s)")
    case True
    with one i have 2: "os_step ?s1 (s\<lparr>cell := sender_drop (cell s), senders := (senders s)[i := SDone]\<rparr>)"
      by (intro sender_step [of i _ SCheck]) (simp_all add: sender_drop_def)
    show "os_step\<^sup>*\<^sup>* s (s\<lparr>cell := sender_drop (cell s), senders := (senders s)[i := SDone]\<rparr>)" by (rule step_chain [OF 1 one_step [OF 2]])
  next
    case False
    with i have 2: "os_step ?s1 (s\<lparr>cell := ?c1, senders := (senders s)[i := SFree]\<rparr>)" (is "os_step _ ?s2")
      by (intro sender_step [of i _ SCheck]) simp_all
    from False one i have 3: "os_step ?s2 (s\<lparr>cell := sender_drop (cell s), senders := (senders s)[i := SDone]\<rparr>)"
      by (intro sender_step [of i _ SFree]) (simp_all add: sender_drop_def)
    show "os_step\<^sup>*\<^sup>* s (s\<lparr>cell := sender_drop (cell s), senders := (senders s)[i := SDone]\<rparr>)" by (rule step_chain [OF 1 step_chain [OF 2 one_step [OF 3]]])
  qed
qed

text \<open>The operations are runs of a thread that no other thread interrupts.\<close>

inductive os_op :: "'v system \<Rightarrow> 'v system \<Rightarrow> bool" where
  op_clone: "i < length (senders s) \<Longrightarrow> senders s ! i = SIdle \<Longrightarrow>
    os_op s (s\<lparr>cell := sender_clone (cell s), senders := senders s @ [SIdle]\<rparr>)"
| op_send: "i < length (senders s) \<Longrightarrow> senders s ! i = SIdle \<Longrightarrow> os_send v (cell s) = (r, c) \<Longrightarrow>
    os_op s (s\<lparr>cell := c, senders := (senders s)[i := SDone],
      accepted := accepted s @ (case r of Inr _ \<Rightarrow> [v] | Inl _ \<Rightarrow> [])\<rparr>)"
| op_sender_drop: "i < length (senders s) \<Longrightarrow> senders s ! i = SIdle \<Longrightarrow>
    os_op s (s\<lparr>cell := sender_drop (cell s), senders := (senders s)[i := SDone]\<rparr>)"
| op_recv_now: "receiver s = RIdle \<Longrightarrow> recv_now (cell s) = (r, c) \<Longrightarrow>
    os_op s (s\<lparr>cell := c, receiver := RDone, taken := taken s @ (case r of Some v \<Rightarrow> [v] | None \<Rightarrow> [])\<rparr>)"
| op_recver_drop: "receiver s = RIdle \<Longrightarrow>
    os_op s (s\<lparr>cell := recver_drop (cell s), receiver := RDone,
      taken := taken s @ (if once_done (cell s) then (case in_value (cell s) of Some v \<Rightarrow> [v] | None \<Rightarrow> []) else [])\<rparr>)"

lemma recver_drop_recv_now: "recver_drop c = snd (recv_now c)"
  by (simp add: recver_drop_def recv_now_def Let_def)

lemma recver_check_runs:
  assumes "receiver s = RCheck"
    and "s' = s\<lparr>cell := (if sender_count (cell s) = 0 then (cell s)\<lparr>freed_r := freed_r (cell s) + 1\<rparr> else cell s),
      receiver := RDone\<rparr>"
  shows "os_step\<^sup>*\<^sup>* s s'"
proof (cases "sender_count (cell s) = 0")
  case True
  have 1: "os_step s (s\<lparr>receiver := RFree\<rparr>)" by (rule recver_step [OF assms(1)]) (simp add: True)
  have 2: "os_step (s\<lparr>receiver := RFree\<rparr>) (s\<lparr>cell := (cell s)\<lparr>freed_r := freed_r (cell s) + 1\<rparr>, receiver := RDone\<rparr>)"
    by (rule recver_step [of _ RFree]) simp_all
  from step_chain [OF 1 one_step [OF 2]] True assms(2) show ?thesis by simp
next
  case False
  have "os_step s (s\<lparr>receiver := RDone\<rparr>)" by (rule recver_step [OF assms(1)]) (simp add: False)
  from one_step [OF this] False assms(2) show ?thesis by simp
qed

lemma recv_now_runs:
  assumes "receiver s = RIdle" and "recv_now (cell s) = (r, c)"
  shows "os_step\<^sup>*\<^sup>* s (s\<lparr>cell := c, receiver := RDone, taken := taken s @ (case r of Some v \<Rightarrow> [v] | None \<Rightarrow> [])\<rparr>)"
proof -
  let ?c1 = "(cell s)\<lparr>recver := False\<rparr>" and ?c2 = "(cell s)\<lparr>recver := False, once_done := True\<rparr>"
  have 0: "os_step s (s\<lparr>receiver := RStore\<rparr>)" by (rule os_start_recv [OF assms(1)])
  have 1: "os_step (s\<lparr>receiver := RStore\<rparr>) (s\<lparr>cell := ?c1, receiver := ROnce\<rparr>)"
    by (rule recver_step [of _ RStore]) simp_all
  have 2: "os_step (s\<lparr>cell := ?c1, receiver := ROnce\<rparr>)
      (s\<lparr>cell := ?c2, receiver := (if once_done (cell s) then RTake else RCheck)\<rparr>)" (is "os_step _ ?s2")
    by (rule recver_step [of _ ROnce]) simp_all
  have "os_step\<^sup>*\<^sup>* ?s2 (s\<lparr>cell := c, receiver := RDone, taken := taken s @ (case r of Some v \<Rightarrow> [v] | None \<Rightarrow> [])\<rparr>)"
  proof (cases "once_done (cell s)")
    case True
    let ?s3 = "s\<lparr>cell := ?c2\<lparr>in_value := None\<rparr>, receiver := RCheck, taken := taken s @ (case in_value (cell s) of Some v \<Rightarrow> [v] | None \<Rightarrow> [])\<rparr>"
    have 3: "os_step ?s2 ?s3" using True by (intro recver_step [of _ RTake]) simp_all
    have "os_step\<^sup>*\<^sup>* ?s3 (s\<lparr>cell := c, receiver := RDone, taken := taken s @ (case r of Some v \<Rightarrow> [v] | None \<Rightarrow> [])\<rparr>)"
      using True assms(2) by (intro recver_check_runs) (auto simp: recv_now_def Let_def)
    then show ?thesis by (rule step_chain [OF 3])
  next
    case False
    then show ?thesis using assms(2) by (intro recver_check_runs) (auto simp: recv_now_def Let_def)
  qed
  then show ?thesis by (intro step_chain [OF 0] step_chain [OF 1] step_chain [OF 2])
qed

lemma os_send_runs:
  assumes i: "i < length (senders s)" and idle: "senders s ! i = SIdle" and r: "os_send v (cell s) = (r, c)"
  shows "os_step\<^sup>*\<^sup>* s (s\<lparr>cell := c, senders := (senders s)[i := SDone], accepted := accepted s @ (case r of Inr _ \<Rightarrow> [v] | Inl _ \<Rightarrow> [])\<rparr>)"
proof -
  have 0: "os_step s (s\<lparr>senders := (senders s)[i := SLoad v]\<rparr>)" by (rule os_start_send [OF i idle])
  let ?s1 = "s\<lparr>senders := (senders s)[i := SOnce v]\<rparr>" and ?d = "s\<lparr>senders := (senders s)[i := SDrop]\<rparr>"
  let ?w = "s\<lparr>cell := (cell s)\<lparr>once_done := True, in_value := Some v\<rparr>, senders := (senders s)[i := SDrop], accepted := accepted s @ [v]\<rparr>"
  have d: "os_step\<^sup>*\<^sup>* ?d (s\<lparr>cell := sender_drop (cell s), senders := (senders s)[i := SDone]\<rparr>)"
    using i by (intro sender_drop_runs [of i]) simp_all
  have w: "os_step\<^sup>*\<^sup>* ?w (s\<lparr>cell := sender_drop ((cell s)\<lparr>once_done := True, in_value := Some v\<rparr>), senders := (senders s)[i := SDone],
      accepted := accepted s @ [v]\<rparr>)"
    using i by (intro sender_drop_runs [of i]) simp_all
  show ?thesis
  proof (cases "recver (cell s)")
    case False
    then have 1: "os_step (s\<lparr>senders := (senders s)[i := SLoad v]\<rparr>) ?d" using i by (intro sender_step [of i _ "SLoad v"]) simp_all
    from step_chain [OF 0 step_chain [OF 1 d]] False r show ?thesis by (auto simp: os_send_def)
  next
    case rec: True
    then have 1: "os_step (s\<lparr>senders := (senders s)[i := SLoad v]\<rparr>) ?s1" using i by (intro sender_step [of i _ "SLoad v"]) simp_all
    show ?thesis
    proof (cases "once_done (cell s)")
      case True
      then have 2: "os_step ?s1 ?d" using i by (intro sender_step [of i _ "SOnce v"]) simp_all
      from step_chain [OF 0 step_chain [OF 1 step_chain [OF 2 d]]] True r show ?thesis by (auto simp: os_send_def)
    next
      case False
      then have 2: "os_step ?s1 ?w" using i by (intro sender_step [of i _ "SOnce v"]) simp_all
      from step_chain [OF 0 step_chain [OF 1 step_chain [OF 2 w]]] False rec r show ?thesis by (auto simp: os_send_def)
    qed
  qed
qed

lemma os_op_runs: "os_op s s' \<Longrightarrow> os_step\<^sup>*\<^sup>* s s'"
proof (induction rule: os_op.induct)
  case (op_clone i s)
  then show ?case by (intro one_step os_clone)
next
  case (op_send i s v r c)
  then show ?case by (rule os_send_runs)
next
  case (op_sender_drop i s)
  have 1: "os_step s (s\<lparr>senders := (senders s)[i := SDrop]\<rparr>)" by (rule os_start_drop [OF op_sender_drop])
  have "os_step\<^sup>*\<^sup>* (s\<lparr>senders := (senders s)[i := SDrop]\<rparr>) (s\<lparr>cell := sender_drop (cell s), senders := (senders s)[i := SDone]\<rparr>)"
    using op_sender_drop(1) by (intro sender_drop_runs [of i]) simp_all
  then show ?case by (rule step_chain [OF 1])
next
  case (op_recv_now s r c)
  then show ?case by (rule recv_now_runs)
next
  case (op_recver_drop s)
  have "fst (recv_now (cell s)) = (if once_done (cell s) then in_value (cell s) else None)"
    by (simp add: recv_now_def Let_def)
  then show ?case using recv_now_runs [OF op_recver_drop prod.collapse [symmetric]]
    by (cases "once_done (cell s)") (simp_all add: recver_drop_recv_now)
qed

lemma os_ops_run: "os_op\<^sup>*\<^sup>* s s' \<Longrightarrow> os_step\<^sup>*\<^sup>* s s'"
  by (induction rule: rtranclp_induct) (auto dest: os_op_runs intro: rtranclp_trans)

text \<open>Without overlap the cell is freed by whichever side goes last.\<close>

definition seq_ok :: "'v system \<Rightarrow> bool" where
  "seq_ok s \<longleftrightarrow> sender_count (cell s) = total live_pc (senders s) \<and> recver (cell s) = (receiver s = RIdle) \<and>
     receiver s \<in> {RIdle, RDone} \<and>
     freed_s (cell s) + freed_r (cell s) = (if sender_count (cell s) = 0 \<and> receiver s = RDone then 1 else 0)"

lemma seq_ok_sender_gone:
  assumes "seq_ok s" and i: "i < length (senders s)" "senders s ! i = SIdle"
    and c: "sender_count c = sender_count (cell s)" "recver c = recver (cell s)" "freed_s c = freed_s (cell s)" "freed_r c = freed_r (cell s)"
  shows "seq_ok (s\<lparr>cell := sender_drop c, senders := (senders s)[i := SDone], accepted := a\<rparr>)"
    and "seq_ok (s\<lparr>cell := sender_drop c, senders := (senders s)[i := SDone]\<rparr>)"
  using total_update [OF i(1), of live_pc SDone] i(2) assms(1) c
  by (auto simp: seq_ok_def sender_drop_def Let_def split: if_splits)

lemma os_op_seq_ok: "os_op s s' \<Longrightarrow> seq_ok s \<Longrightarrow> seq_ok s'"
proof (induction rule: os_op.induct)
  case (op_clone i s)
  have "0 < total live_pc (senders s)" using total_update [OF op_clone(1), of live_pc SDone] op_clone(2) by simp
  with op_clone(3) show ?case by (auto simp: seq_ok_def sender_clone_def)
next
  case (op_send i s v r c)
  then obtain c1 where "c = sender_drop c1" "sender_count c1 = sender_count (cell s)" "recver c1 = recver (cell s)"
    "freed_s c1 = freed_s (cell s)" "freed_r c1 = freed_r (cell s)"
    by (auto simp: os_send_def split: if_splits)
  then show ?case using seq_ok_sender_gone(1) [OF op_send(4,1,2)] by simp
next
  case (op_sender_drop i s)
  show ?case by (rule seq_ok_sender_gone(2) [OF op_sender_drop(3,1,2)]) simp_all
next
  case (op_recv_now s r c)
  then show ?case by (auto simp: seq_ok_def recv_now_def Let_def split: if_splits)
next
  case (op_recver_drop s)
  then show ?case by (auto simp: seq_ok_def recver_drop_def Let_def split: if_splits)
qed

lemma os_ops_seq_ok: "os_op\<^sup>*\<^sup>* s s' \<Longrightarrow> seq_ok s \<Longrightarrow> seq_ok s'"
  by (induction rule: rtranclp_induct) (auto dest: os_op_seq_ok)

lemma total_done: "\<forall>p \<in> set ps. p = SDone \<Longrightarrow> total live_pc ps = 0 \<and> total check_pc ps = 0 \<and> total free_pc ps = 0"
  by (induction ps) auto

text \<open>A schedule: which thread makes the next access.\<close>

datatype 'v action = StartSend nat 'v | StartDrop nat | SenderNext nat | StartRecv | RecverNext

fun os_do :: "'v action \<Rightarrow> 'v system \<Rightarrow> 'v system" where
  "os_do (StartSend i v) s =
     (if i < length (senders s) \<and> senders s ! i = SIdle then s\<lparr>senders := (senders s)[i := SLoad v]\<rparr> else s)"
| "os_do (StartDrop i) s =
     (if i < length (senders s) \<and> senders s ! i = SIdle then s\<lparr>senders := (senders s)[i := SDrop]\<rparr> else s)"
| "os_do (SenderNext i) s = (if i < length (senders s) then sender_act i (senders s ! i) s else s)"
| "os_do StartRecv s = (if receiver s = RIdle then s\<lparr>receiver := RStore\<rparr> else s)"
| "os_do RecverNext s = recver_act (receiver s) s"

lemma os_do_steps: "os_step\<^sup>*\<^sup>* s (os_do a s)"
  by (cases a) (auto intro!: one_step os_step.intros)

lemma os_schedule: "os_step\<^sup>*\<^sup>* s (fold os_do as s)"
proof (induction as arbitrary: s)
  case (Cons a as)
  with os_do_steps [of s a] show ?case by (simp add: rtranclp_trans [of os_step])
qed simp

section \<open>Properties\<close>

text \<open>C29: however senders and receiver interleave, at most one send succeeds; the receiver reads the value
  only when it is there; and once the receiver is done, the values that left the cell, received or
  destroyed, are exactly the values accepted: none is lost and none is duplicated.\<close>

theorem oneshot_delivers_once:
  assumes "os_step\<^sup>*\<^sup>* sys_new s"
  shows "length (accepted s) \<le> 1 \<and> (receiver s = RTake \<longrightarrow> in_value (cell s) \<noteq> None) \<and>
    (receiver s \<in> {RCheck, RFree, RDone} \<longrightarrow> taken s = accepted s \<and> in_value (cell s) = None)"
  using os_reachable_ok [OF assms] by (auto simp: value_ok_def split: if_splits option.splits)

theorem oneshot_delivers_once_witness:
  "\<exists>s. os_step\<^sup>*\<^sup>* (sys_new :: nat system) s \<and> receiver s = RDone \<and> accepted s = [7] \<and> taken s = [7]"
proof -
  let ?s1 = "sys_new\<lparr>cell := snd (os_send (7::nat) channel_new), senders := [SDone], accepted := [7]\<rparr>"
  let ?s2 = "?s1\<lparr>cell := snd (recv_now (cell ?s1)), receiver := RDone, taken := [7]\<rparr>"
  have "os_op sys_new ?s1" using op_send [of 0 "sys_new :: nat system" 7 "Inr ()" "snd (os_send 7 channel_new)"]
    by (simp add: sys_new_def channel_new_def os_send_def)
  moreover have "os_op ?s1 ?s2" using op_recv_now [of ?s1 "Some 7" "snd (recv_now (cell ?s1))"]
    by (simp add: sys_new_def channel_new_def os_send_def recv_now_def sender_drop_def Let_def)
  ultimately have "os_step\<^sup>*\<^sup>* sys_new ?s2" by (meson os_op_runs rtranclp_trans)
  with oneshot_delivers_once [OF this] show ?thesis by (intro exI [of _ ?s2]) simp
qed

text \<open>when both sides are done the shared allocation has been freed, once or twice: it never leaks.\<close>

lemma oneshot_never_leaks:
  assumes "os_step\<^sup>*\<^sup>* sys_new s" and "receiver s = RDone" and "\<forall>p \<in> set (senders s). p = SDone"
  shows "1 \<le> freed_s (cell s) + freed_r (cell s) \<and> freed_s (cell s) + freed_r (cell s) \<le> 2"
  using os_reachable_ok [OF assms(1)] total_done [OF assms(3)] assms(2) by (auto simp: count_ok_def)

text \<open>operations that do not overlap free the allocation exactly once.\<close>

lemma oneshot_sequential_free:
  assumes "os_op\<^sup>*\<^sup>* sys_new s" and "receiver s = RDone" and "\<forall>p \<in> set (senders s). p = SDone"
  shows "freed_s (cell s) + freed_r (cell s) = 1"
proof -
  have "seq_ok (sys_new :: 'a system)" by (simp add: seq_ok_def sys_new_def channel_new_def)
  with os_ops_seq_ok [OF assms(1)] have "seq_ok s" .
  with total_done [OF assms(3)] assms(2) show ?thesis by (simp add: seq_ok_def)
qed

text \<open>C32: when the last sender and the receiver are dropped at the same time, both can free the allocation:
  the sender counts itself out, the receiver marks itself gone, each then sees the other gone.\<close>

theorem oneshot_double_free:
  "\<exists>s. os_step\<^sup>*\<^sup>* (sys_new :: 'v system) s \<and> freed_s (cell s) + freed_r (cell s) = 2"
proof -
  let ?s = "fold os_do [StartDrop 0, SenderNext 0, StartRecv, RecverNext, SenderNext 0, RecverNext, RecverNext,
    SenderNext 0, RecverNext] (sys_new :: 'v system)"
  have "freed_s (cell ?s) + freed_r (cell ?s) = 2" by (simp add: sys_new_def channel_new_def)
  with os_schedule show ?thesis by blast
qed

end
