(* ===== verification/Parker.thy ===== *)
theory Parker
  imports Oneshot
begin

text \<open>
  The parker of \<open>client/handler/channel/parker.rs\<close> and the blocking receive of a oneshot channel that is built
  on it.  The parking thread and the threads with an unparker interleave at every access to the shared
  pointer, to its reference count and to the parking token of the thread; an operation on the channel
  below is one step, as the theory \<open>Oneshot\<close> has its interleavings.
\<close>

section \<open>The shared pointer\<close>

text \<open>The pointer is null, the address that asks to skip parking, or the address of the variable \<open>th\<close> of a
  call of \<open>park\<close>; these variables are numbered.\<close>

datatype th_ptr = Null | SkipParking | Th nat

text \<open>An unparker: where its thread is, and whether its optional oneshot sender is still there.\<close>

datatype unparker_pc = UIdle | USwap | USeen th_ptr bool | UUnpark bool | UInner | UField | UDone

record unparker =
  up_pc :: unparker_pc
  up_sender :: bool

text \<open>The parking thread.  The numbers count the strong references that \<open>park\<close> holds.\<close>

datatype parker_pc = PIdle | PUpgrade | PExchange | PInner | PPark | PAgain nat | PStore nat | PDrop nat | PRecv | PDone

text \<open>\<open>dangling\<close> records a use of a variable \<open>th\<close> that is gone, \<open>sent\<close> the values whose send succeeded, \<open>received\<close>
  the result of \<open>recv\<close>.\<close>

record 'v psys =
  strong :: nat
  ptr :: th_ptr
  token :: bool
  th_gen :: nat
  parker :: parker_pc
  in_recv :: bool
  unparkers :: "unparker list"
  chan :: "'v inner"
  sent :: "'v list"
  received :: "'v option option"
  dangling :: bool

text \<open>\<open>new\<close>, around the optional sender of a new oneshot channel; one thread parks, and
  it may have its token already (\<open>tok\<close>): a token that is left behind by an earlier call is one.\<close>

definition parker_new :: "bool \<Rightarrow> 'v psys" where
  "parker_new tok =
     \<lparr>strong = 1, ptr = Null, token = tok, th_gen = 0, parker = PIdle, in_recv = False,
      unparkers = [\<lparr>up_pc = UIdle, up_sender = True\<rparr>], chan = channel_new, sent = [], received = None, dangling = False\<rparr>"

section \<open>Unparkers\<close>

definition set_pc :: "nat \<Rightarrow> unparker_pc \<Rightarrow> 'v psys \<Rightarrow> 'v psys" where
  "set_pc i pc s = s\<lparr>unparkers := (unparkers s)[i := (unparkers s ! i)\<lparr>up_pc := pc\<rparr>]\<rparr>"

definition unparker_clone :: "nat \<Rightarrow> 'v psys \<Rightarrow> 'v psys" where
  "unparker_clone i s =
     s\<lparr>strong := strong s + 1, unparkers := unparkers s @ [unparkers s ! i],
       chan := (if up_sender (unparkers s ! i) then sender_clone (chan s) else chan s)\<rparr>"

text \<open>\<open>send\<close> up to the call of \<open>unpark\<close>.\<close>

definition unparker_send :: "nat \<Rightarrow> 'v \<Rightarrow> 'v psys \<Rightarrow> 'v psys" where
  "unparker_send i v s =
     (let (result, has, c) = opt_send v (up_sender (unparkers s ! i), chan s)
      in s\<lparr>chan := c, sent := sent s @ (if result \<noteq> Break SentClosed then [v] else []),
           unparkers := (unparkers s)[i :=
             \<lparr>up_pc = (if result \<noteq> Break SentClosed then USwap else UIdle), up_sender = has\<rparr>]\<rparr>)"

text \<open>Whether the variable \<open>th\<close> with a number is on the stack of the parking thread.\<close>

definition th_alive :: "nat \<Rightarrow> 'v psys \<Rightarrow> bool" where
  "th_alive g s \<longleftrightarrow> g = th_gen s \<and>
     (case parker s of
        PExchange \<Rightarrow> True | PInner \<Rightarrow> True | PPark \<Rightarrow> True | PAgain _ \<Rightarrow> True | PStore _ \<Rightarrow> True | PDrop _ \<Rightarrow> True
      | _ \<Rightarrow> False)"

text \<open>The next access of an unparker: the swap and the use of what it returned in \<open>unpark\<close>; the end of the
  shared ownership, the same use, and the end of the sender in the destructor.\<close>

fun unparker_act :: "nat \<Rightarrow> unparker_pc \<Rightarrow> 'v psys \<Rightarrow> 'v psys" where
  "unparker_act i USwap s = set_pc i (USeen (ptr s) False) (s\<lparr>ptr := SkipParking\<rparr>)"
| "unparker_act i (USeen p dropping) s =
     (case p of
        Th g \<Rightarrow> set_pc i (UUnpark dropping) (if th_alive g s then s else s\<lparr>dangling := True\<rparr>)
      | _ \<Rightarrow> set_pc i (if dropping then UField else UIdle) s)"
| "unparker_act i (UUnpark dropping) s = set_pc i (if dropping then UField else UIdle) (s\<lparr>token := True\<rparr>)"
| "unparker_act i UInner s =
     set_pc i (if strong s = 1 then USeen (ptr s) True else UField) (s\<lparr>strong := strong s - 1\<rparr>)"
| "unparker_act i UField s =
     set_pc i UDone (if up_sender (unparkers s ! i) then s\<lparr>chan := sender_drop (chan s)\<rparr> else s)"
| "unparker_act i _ s = s"

section \<open>The parker\<close>

definition park_return :: "'v psys \<Rightarrow> 'v psys" where
  "park_return s = s\<lparr>parker := (if in_recv s then PRecv else PIdle)\<rparr>"

definition park_drop :: "nat \<Rightarrow> 'v psys \<Rightarrow> 'v psys" where
  "park_drop held s = (if held \<le> 1 then park_return s else s\<lparr>parker := PDrop (held - 1)\<rparr>)"

text \<open>\<open>park\<close>, one access at a time, and the \<open>recv_now\<close> at the end of \<open>recv\<close>.  Parking blocks without the token.\<close>

fun parker_act :: "parker_pc \<Rightarrow> 'v psys \<Rightarrow> 'v psys" where
  "parker_act PUpgrade s =
     (if strong s = 0 then park_return s
      else s\<lparr>strong := strong s + 1, th_gen := th_gen s + 1, parker := PExchange\<rparr>)"
| "parker_act PExchange s =
     (if ptr s = Null then s\<lparr>ptr := Th (th_gen s), parker := PInner\<rparr> else s\<lparr>parker := PAgain 1\<rparr>)"
| "parker_act PInner s =
     (if strong s = 1 then park_return (s\<lparr>strong := 0\<rparr>) else s\<lparr>strong := strong s - 1, parker := PPark\<rparr>)"
| "parker_act PPark s = (if token s then s\<lparr>token := False, parker := PAgain 0\<rparr> else s)"
| "parker_act (PAgain held) s =
     (if strong s = 0 then park_return s else s\<lparr>strong := strong s + 1, parker := PStore (held + 1)\<rparr>)"
| "parker_act (PStore held) s = s\<lparr>ptr := Null, parker := PDrop held\<rparr>"
| "parker_act (PDrop held) s = park_drop held (s\<lparr>strong := strong s - 1\<rparr>)"
| "parker_act PRecv s = (let (r, c) = recv_now (chan s) in s\<lparr>chan := c, received := Some r, parker := PDone\<rparr>)"
| "parker_act _ s = s"

text \<open>\<open>recv\<close> up to the call of \<open>park\<close>.\<close>

definition recv_start :: "'v psys \<Rightarrow> 'v psys" where
  "recv_start s = s\<lparr>in_recv := True, parker := (if os_is_empty (chan s) then PUpgrade else PRecv)\<rparr>"

section \<open>Schedules\<close>

text \<open>What can happen next.  \<open>Spurious\<close> is a return from \<open>std::thread::park\<close> without the token, which its
  documentation allows, and \<open>CallUnpark\<close> a call of \<open>unpark\<close> that no send makes.\<close>

datatype 'v pk_action =
  CallClone nat | CallSend nat 'v | CallUnpark nat | CallDrop nat | UnparkerNext nat | CallPark | CallRecv | ParkerNext | Spurious

definition idle_unparker :: "nat \<Rightarrow> 'v psys \<Rightarrow> bool" where
  "idle_unparker i s \<longleftrightarrow> i < length (unparkers s) \<and> up_pc (unparkers s ! i) = UIdle"

fun pk_do :: "'v pk_action \<Rightarrow> 'v psys \<Rightarrow> 'v psys" where
  "pk_do (CallClone i) s = (if idle_unparker i s then unparker_clone i s else s)"
| "pk_do (CallSend i v) s = (if idle_unparker i s then unparker_send i v s else s)"
| "pk_do (CallUnpark i) s = (if idle_unparker i s then set_pc i USwap s else s)"
| "pk_do (CallDrop i) s = (if idle_unparker i s then set_pc i UInner s else s)"
| "pk_do (UnparkerNext i) s = (if i < length (unparkers s) then unparker_act i (up_pc (unparkers s ! i)) s else s)"
| "pk_do CallPark s = (if parker s = PIdle then s\<lparr>parker := PUpgrade\<rparr> else s)"
| "pk_do CallRecv s = (if parker s = PIdle then recv_start s else s)"
| "pk_do ParkerNext s = parker_act (parker s) s"
| "pk_do Spurious s = (if parker s = PPark then s\<lparr>parker := PAgain 0\<rparr> else s)"

inductive pk_step :: "'v pk_action set \<Rightarrow> 'v psys \<Rightarrow> 'v psys \<Rightarrow> bool" for never where
  pk_act: "a \<notin> never \<Longrightarrow> pk_step never s (pk_do a s)"

abbreviation pk_steps where
  "pk_steps never \<equiv> (pk_step never)\<^sup>*\<^sup>*"

lemma pk_schedule: "set as \<inter> never = {} \<Longrightarrow> pk_steps never s (fold pk_do as s)"
proof (induction as arbitrary: s)
  case (Cons a as)
  then have "pk_step never s (pk_do a s)" by (intro pk_act) auto
  with Cons show ?case by (simp add: converse_rtranclp_into_rtranclp)
qed simp

section \<open>Invariant\<close>

text \<open>Unparkers that own the pointer, and unparkers that are about to unpark the thread.\<close>

fun owns_pc :: "unparker_pc \<Rightarrow> nat" where
  "owns_pc (USeen _ dropping) = of_bool (\<not> dropping)"
| "owns_pc (UUnpark dropping) = of_bool (\<not> dropping)"
| "owns_pc UField = 0"
| "owns_pc UDone = 0"
| "owns_pc _ = 1"

fun took_pc :: "unparker_pc \<Rightarrow> nat" where
  "took_pc (USeen (Th g) _) = 1"
| "took_pc (UUnpark _) = 1"
| "took_pc _ = 0"

fun held :: "parker_pc \<Rightarrow> nat" where
  "held PExchange = 1" | "held PInner = 1" | "held (PAgain h) = h" | "held (PStore h) = h" | "held (PDrop h) = h" | "held _ = 0"

abbreviation owners :: "unparker list \<Rightarrow> nat" where
  "owners us \<equiv> total (\<lambda>u. owns_pc (up_pc u)) us"

abbreviation takers :: "unparker list \<Rightarrow> nat" where
  "takers us \<equiv> total (\<lambda>u. took_pc (up_pc u)) us"

text \<open>What is known of one unparker.\<close>

definition unparker_ok :: "'v psys \<Rightarrow> unparker_pc \<Rightarrow> bool" where
  "unparker_ok s pc \<longleftrightarrow>
     (case pc of
        USeen p dropping \<Rightarrow> (\<forall>g. p = Th g \<longrightarrow> g = th_gen s) \<and> (dropping \<longrightarrow> strong s = 0)
      | UUnpark dropping \<Rightarrow> (dropping \<longrightarrow> strong s = 0)
      | _ \<Rightarrow> True)"

lemma unparker_ok_simps [simp]:
  "unparker_ok s UIdle" "unparker_ok s USwap" "unparker_ok s UInner" "unparker_ok s UField" "unparker_ok s UDone"
  by (simp_all add: unparker_ok_def)

definition parking :: "'v psys \<Rightarrow> bool" where
  "parking s \<longleftrightarrow> parker s \<in> {PInner, PPark}"

text \<open>The count of references.\<close>

definition refs_ok :: "'v psys \<Rightarrow> bool" where
  "refs_ok s \<longleftrightarrow> strong s = owners (unparkers s) + held (parker s) \<and>
     (case parker s of PAgain h \<Rightarrow> h \<le> 1 | PStore h \<Rightarrow> 0 < h | PDrop h \<Rightarrow> 0 < h | _ \<Rightarrow> True)"

text \<open>A thread that parks is announced by the pointer, or someone is about to unpark it, or it has its token:
  exactly one of these.  No one knows of a thread that does not park, and a token can be left only when
  no unparker is left.\<close>

definition announced :: "'v psys \<Rightarrow> nat" where
  "announced s = (if 0 < strong s \<and> ptr s = Th (th_gen s) then 1 else 0)"

definition has_token :: "'v psys \<Rightarrow> nat" where
  "has_token s = (if token s then 1 else 0)"

definition wake_ok :: "'v psys \<Rightarrow> bool" where
  "wake_ok s \<longleftrightarrow>
     (if parking s then takers (unparkers s) + has_token s + announced s = 1
      else takers (unparkers s) = 0 \<and> announced s = 0 \<and> (0 < strong s \<longrightarrow> \<not> token s))"

definition ptr_ok :: "'v psys \<Rightarrow> bool" where
  "ptr_ok s \<longleftrightarrow> (\<forall>g. 0 < strong s \<and> ptr s = Th g \<longrightarrow> g = th_gen s) \<and>
     (\<forall>u \<in> set (unparkers s). unparker_ok s (up_pc u)) \<and> \<not> dangling s"

definition park_ok :: "'v psys \<Rightarrow> bool" where
  "park_ok s \<longleftrightarrow> refs_ok s \<and> wake_ok s \<and> ptr_ok s"

lemma total_set_pc:
  "i < length us \<Longrightarrow> total (\<lambda>u. f (up_pc u)) (us[i := u]) + f (up_pc (us ! i)) = total (\<lambda>u. f (up_pc u)) us + f (up_pc u)"
  using total_update [of i us "\<lambda>u. f (up_pc u)"] by simp

lemma total_pos: "u \<in> set us \<Longrightarrow> f u \<le> total f us"
  by (induction us) (auto simp: total_def)

lemma total_zero: "total f us = 0 \<longleftrightarrow> (\<forall>u \<in> set us. f u = 0)"
  by (induction us) (auto simp: total_def)

lemma ball_update: "\<forall>x \<in> set xs. P x \<Longrightarrow> P y \<Longrightarrow> \<forall>x \<in> set (xs[i := y]). P x"
  using set_update_subset_insert [of xs i y] by blast

lemma set_pc_simps [simp]:
  "strong (set_pc i pc s) = strong s" "ptr (set_pc i pc s) = ptr s" "token (set_pc i pc s) = token s"
  "parker (set_pc i pc s) = parker s" "th_gen (set_pc i pc s) = th_gen s" "dangling (set_pc i pc s) = dangling s"
  "in_recv (set_pc i pc s) = in_recv s" "chan (set_pc i pc s) = chan s" "sent (set_pc i pc s) = sent s" "received (set_pc i pc s) = received s"
  "parking (set_pc i pc s) = parking s" "announced (set_pc i pc s) = announced s" "has_token (set_pc i pc s) = has_token s"
  "unparker_ok (set_pc i pc s) = unparker_ok s"
  by (auto simp: set_pc_def parking_def announced_def has_token_def unparker_ok_def fun_eq_iff split: unparker_pc.splits)

lemma refs_ok_set_pc:
  assumes "i < length (unparkers s)" and "refs_ok (s\<lparr>strong := n\<rparr>)"
    and "strong s + owns_pc (up_pc (unparkers s ! i)) = n + owns_pc pc"
  shows "refs_ok (set_pc i pc s)"
proof -
  have "owners (unparkers (set_pc i pc s)) + owns_pc (up_pc (unparkers s ! i)) = owners (unparkers s) + owns_pc pc"
    using total_set_pc [OF assms(1), of owns_pc "(unparkers s ! i)\<lparr>up_pc := pc\<rparr>"] by (simp add: set_pc_def)
  with assms(2,3) show ?thesis by (simp add: refs_ok_def)
qed

lemma takers_set_pc:
  "i < length (unparkers s) \<Longrightarrow>
   takers (unparkers (set_pc i pc s)) + took_pc (up_pc (unparkers s ! i)) = takers (unparkers s) + took_pc pc"
  using total_set_pc [of i "unparkers s" took_pc "(unparkers s ! i)\<lparr>up_pc := pc\<rparr>"] by (simp add: set_pc_def)

lemma ptr_ok_set_pc:
  assumes "ptr_ok s" and "unparker_ok s pc"
  shows "ptr_ok (set_pc i pc s)"
proof -
  have "unparkers (set_pc i pc s) = (unparkers s)[i := (unparkers s ! i)\<lparr>up_pc := pc\<rparr>]" by (simp add: set_pc_def)
  moreover have "\<forall>u \<in> set ((unparkers s)[i := (unparkers s ! i)\<lparr>up_pc := pc\<rparr>]). unparker_ok s (up_pc u)"
    by (rule ball_update) (use assms in \<open>simp_all add: ptr_ok_def\<close>)
  ultimately have "\<forall>u \<in> set (unparkers (set_pc i pc s)). unparker_ok s (up_pc u)" by simp
  with assms(1) show ?thesis by (simp add: ptr_ok_def)
qed

text \<open>The shared state may change with the unparker.\<close>

lemma park_ok_set_pc:
  assumes i: "i < length (unparkers s)" and us: "unparkers s1 = unparkers s" and p: "parker s1 = parker s"
    and refs: "refs_ok s" "strong s1 + owns_pc (up_pc (unparkers s ! i)) = strong s + owns_pc pc"
    and wake: "wake_ok s" "has_token s1 + announced s1 + took_pc pc = has_token s + announced s + took_pc (up_pc (unparkers s ! i))"
      "parking s \<or> token s1 = token s \<and> strong s1 \<le> strong s"
    and ptr: "ptr_ok s1" "unparker_ok s1 pc"
  shows "park_ok (set_pc i pc s1)"
proof -
  have "refs_ok (s1\<lparr>strong := strong s\<rparr>)" using refs(1) by (simp add: refs_ok_def us p)
  then have "refs_ok (set_pc i pc s1)" using i refs(2) by (intro refs_ok_set_pc) (simp_all add: us)
  moreover have "wake_ok (set_pc i pc s1)"
  proof -
    have t: "takers (unparkers (set_pc i pc s1)) + took_pc (up_pc (unparkers s ! i)) = takers (unparkers s) + took_pc pc"
      using takers_set_pc [of i s1 pc] i us by simp
    have "parking s1 = parking s" by (simp add: parking_def p)
    then show ?thesis using wake t by (cases "parking s") (auto simp: wake_ok_def has_token_def)
  qed
  ultimately show ?thesis using ptr_ok_set_pc [OF ptr] by (simp add: park_ok_def)
qed

lemma unparker_ok_strong: "unparker_ok s pc \<Longrightarrow> strong s1 \<le> strong s \<Longrightarrow> th_gen s1 = th_gen s \<Longrightarrow> unparker_ok s1 pc"
  by (auto simp: unparker_ok_def split: unparker_pc.splits)

lemma ptr_ok_strong:
  assumes "ptr_ok s" and "unparkers s1 = unparkers s" and "strong s1 \<le> strong s" and "th_gen s1 = th_gen s"
    and "dangling s1 = dangling s" and "\<And>g. ptr s1 = Th g \<Longrightarrow> ptr s = Th g"
  shows "ptr_ok s1"
  using assms unparker_ok_strong [of s _ s1] by (auto simp: ptr_ok_def)

lemma taker_parking:
  assumes "park_ok s" and "i < length (unparkers s)" and "0 < took_pc (up_pc (unparkers s ! i))"
  shows "parking s"
  using total_pos [of "unparkers s ! i" "unparkers s" "\<lambda>u. took_pc (up_pc u)"] assms
  by (auto simp: park_ok_def wake_ok_def split: if_splits)

lemma park_ok_unparker_act:
  assumes ok: "park_ok s" and i: "i < length (unparkers s)"
  shows "park_ok (unparker_act i (up_pc (unparkers s ! i)) s)"
proof -
  have r: "refs_ok s" and w: "wake_ok s" and p: "ptr_ok s" using ok by (simp_all add: park_ok_def)
  have u: "unparkers s ! i \<in> set (unparkers s)" using i by simp
  have uok: "unparker_ok s (up_pc (unparkers s ! i))" using p u by (auto simp: ptr_ok_def)
  have own: "owns_pc (up_pc (unparkers s ! i)) \<le> strong s"
    using total_pos [OF u, of "\<lambda>u. owns_pc (up_pc u)"] r by (simp add: refs_ok_def)
  have gen: "0 < strong s \<Longrightarrow> ptr s = Th g \<Longrightarrow> g = th_gen s" for g using p by (auto simp: ptr_ok_def)
  note step = park_ok_set_pc [OF i _ _ r _ w] and taker = taker_parking [OF ok i]
  show ?thesis
  proof (cases "up_pc (unparkers s ! i)")
    case USwap
    have "ptr_ok (s\<lparr>ptr := SkipParking\<rparr>)" by (rule ptr_ok_strong [OF p]) simp_all
    moreover have "took_pc (USeen (ptr s) False) = announced s"
      using own gen USwap by (cases "ptr s") (auto simp: announced_def)
    ultimately have "park_ok (set_pc i (USeen (ptr s) False) (s\<lparr>ptr := SkipParking\<rparr>))"
      using USwap own gen by (intro step) (simp_all add: has_token_def announced_def unparker_ok_def)
    with USwap show ?thesis by simp
  next
    case (USeen q dropping)
    show ?thesis
    proof (cases q)
      case (Th g)
      with USeen taker uok have "th_alive g s" by (auto simp: th_alive_def parking_def unparker_ok_def)
      moreover have "park_ok (set_pc i (UUnpark dropping) s)"
        using USeen Th uok p by (intro step) (auto simp: unparker_ok_def)
      ultimately show ?thesis using USeen Th by simp
    next
      case Null
      with USeen p show ?thesis by (auto intro!: step simp: unparker_ok_def)
    next
      case SkipParking
      with USeen p show ?thesis by (auto intro!: step simp: unparker_ok_def)
    qed
  next
    case (UUnpark dropping)
    with w taker i have "\<not> token s" using total_pos [OF u, of "\<lambda>u. took_pc (up_pc u)"]
      by (auto simp: wake_ok_def has_token_def)
    with UUnpark taker have "park_ok (set_pc i (if dropping then UField else UIdle) (s\<lparr>token := True\<rparr>))"
      by (intro step) (auto simp: has_token_def announced_def unparker_ok_def intro: ptr_ok_strong [OF p])
    with UUnpark show ?thesis by simp
  next
    case UInner
    with own have pos: "0 < strong s" by simp
    let ?pc = "if strong s = 1 then USeen (ptr s) True else UField" and ?s1 = "s\<lparr>strong := strong s - 1\<rparr>"
    have "ptr_ok ?s1" by (rule ptr_ok_strong [OF p]) simp_all
    moreover have "took_pc ?pc + announced ?s1 = announced s"
      using pos gen by (cases "ptr s") (auto simp: announced_def)
    moreover have "unparker_ok ?s1 ?pc" using pos gen by (simp add: unparker_ok_def)
    ultimately have "park_ok (set_pc i ?pc ?s1)"
      using UInner pos by (intro step) (simp_all add: has_token_def)
    with UInner show ?thesis by simp
  next
    case UField
    then have "park_ok (set_pc i UDone (if up_sender (unparkers s ! i) then s\<lparr>chan := sender_drop (chan s)\<rparr> else s))"
      by (intro step) (auto simp: has_token_def announced_def unparker_ok_def intro: ptr_ok_strong [OF p])
    with UField show ?thesis by simp
  qed (use ok in simp_all)
qed

text \<open>The steps of the parker.\<close>

lemma park_return_simps [simp]:
  "strong (park_return s) = strong s" "ptr (park_return s) = ptr s" "token (park_return s) = token s"
  "th_gen (park_return s) = th_gen s" "dangling (park_return s) = dangling s" "unparkers (park_return s) = unparkers s"
  "chan (park_return s) = chan s" "sent (park_return s) = sent s" "received (park_return s) = received s" "in_recv (park_return s) = in_recv s"
  "parking (park_return s) = False" "held (parker (park_return s)) = 0"
  "case parker (park_return s) of PAgain h \<Rightarrow> h \<le> 1 | PStore h \<Rightarrow> 0 < h | PDrop h \<Rightarrow> 0 < h | _ \<Rightarrow> True"
  by (simp_all add: park_return_def parking_def)

lemma refs_ok_return: "strong s = owners (unparkers s) \<Longrightarrow> refs_ok (park_return s)"
  by (simp add: refs_ok_def park_return_def)

lemma owners_takers: "owners us = 0 \<Longrightarrow> u \<in> set us \<Longrightarrow> 0 < took_pc (up_pc u) \<Longrightarrow> up_pc u = UUnpark True \<or> (\<exists>p. up_pc u = USeen p True)"
  by (cases "up_pc u") (auto simp: total_zero)

text \<open>While the parker holds the pointer and no unparker does, no one is about to unpark.\<close>

lemma no_takers:
  assumes "park_ok s" and "owners (unparkers s) = 0" and "0 < strong s"
  shows "takers (unparkers s) = 0"
proof -
  have "took_pc (up_pc u) = 0" if u: "u \<in> set (unparkers s)" for u
  proof (rule ccontr)
    assume "took_pc (up_pc u) \<noteq> 0"
    with owners_takers [OF assms(2) u] have "up_pc u = UUnpark True \<or> (\<exists>p. up_pc u = USeen p True)" by simp
    moreover have "unparker_ok s (up_pc u)" using assms(1) u by (simp add: park_ok_def ptr_ok_def)
    ultimately show False using assms(3) by (auto simp: unparker_ok_def)
  qed
  then show ?thesis by (simp add: total_zero)
qed

text \<open>A step of the parker leaves the unparkers as they are.\<close>

lemma ptr_ok_parker:
  assumes "park_ok s" and "unparkers s1 = unparkers s" and "dangling s1 = dangling s"
    and "strong s1 \<le> strong s \<and> th_gen s1 = th_gen s \<or> takers (unparkers s) = 0 \<and> 0 < strong s"
    and "\<And>g. 0 < strong s1 \<Longrightarrow> ptr s1 = Th g \<Longrightarrow> g = th_gen s1"
  shows "ptr_ok s1"
proof -
  have "unparker_ok s1 (up_pc u)" if u: "u \<in> set (unparkers s)" for u
  proof -
    have ok: "unparker_ok s (up_pc u)" using assms(1) u by (simp add: park_ok_def ptr_ok_def)
    show ?thesis
    proof (cases "strong s1 \<le> strong s \<and> th_gen s1 = th_gen s")
      case True
      with unparker_ok_strong [OF ok] show ?thesis by blast
    next
      case False
      with assms(4) u have "took_pc (up_pc u) = 0" "0 < strong s" by (auto simp: total_zero)
      with ok show ?thesis by (auto simp: unparker_ok_def split: unparker_pc.splits)
    qed
  qed
  moreover have "\<not> dangling s" using assms(1) by (simp add: park_ok_def ptr_ok_def)
  ultimately show ?thesis using assms(2,3,5) by (simp add: ptr_ok_def)
qed

lemma park_ok_parker_act:
  assumes ok: "park_ok s"
  shows "park_ok (parker_act (parker s) s)"
proof -
  have r: "refs_ok s" and w: "wake_ok s" and p: "ptr_ok s" using ok by (simp_all add: park_ok_def)
  have gen: "0 < strong s \<Longrightarrow> ptr s = Th g \<Longrightarrow> g = th_gen s" for g using p by (auto simp: ptr_ok_def)
  note ptr = ptr_ok_parker [OF ok]
  have quiet: "takers (unparkers s) = 0 \<and> (0 < strong s \<longrightarrow> \<not> token s \<and> (\<forall>g. ptr s \<noteq> Th g))" if "\<not> parking s"
    using w that gen by (auto simp: wake_ok_def announced_def split: if_splits)
  show ?thesis
  proof (cases "parker s")
    case PUpgrade
    note q = quiet [unfolded parking_def PUpgrade, simplified]
    show ?thesis
    proof (cases "strong s = 0")
      case True
      have "ptr_ok (park_return s)" using True by (intro ptr) simp_all
      moreover have "refs_ok (park_return s)" using r PUpgrade by (intro refs_ok_return) (simp add: refs_ok_def)
      ultimately show ?thesis using PUpgrade True q by (simp add: park_ok_def wake_ok_def announced_def)
    next
      case False
      have "ptr_ok (s\<lparr>strong := strong s + 1, th_gen := th_gen s + 1, parker := PExchange\<rparr>)"
        using False q by (intro ptr) simp_all
      with PUpgrade False r q show ?thesis by (simp add: park_ok_def refs_ok_def wake_ok_def parking_def announced_def)
    qed
  next
    case PExchange
    note q = quiet [unfolded parking_def PExchange, simplified]
    have pos: "0 < strong s" using r PExchange by (simp add: refs_ok_def)
    have "ptr_ok (s\<lparr>ptr := Th (th_gen s), parker := PInner\<rparr>)" by (intro ptr) simp_all
    moreover have "ptr_ok (s\<lparr>parker := PAgain 1\<rparr>)" using gen by (intro ptr) simp_all
    ultimately show ?thesis using PExchange pos r q
      by (simp add: park_ok_def refs_ok_def wake_ok_def parking_def announced_def has_token_def)
  next
    case PInner
    have pos: "0 < strong s" using r PInner by (simp add: refs_ok_def)
    show ?thesis
    proof (cases "strong s = 1")
      case True
      then have own: "owners (unparkers s) = 0" using r PInner by (simp add: refs_ok_def)
      note t = no_takers [OF ok own pos]
      have "ptr_ok (park_return (s\<lparr>strong := 0\<rparr>))" by (intro ptr) simp_all
      with PInner True own t show ?thesis by (simp add: park_ok_def refs_ok_return wake_ok_def announced_def)
    next
      case False
      have "ptr_ok (s\<lparr>strong := strong s - 1, parker := PPark\<rparr>)" using gen by (intro ptr) simp_all
      with PInner False pos r w show ?thesis
        by (simp add: park_ok_def refs_ok_def wake_ok_def parking_def announced_def has_token_def)
    qed
  next
    case PPark
    have "ptr_ok (s\<lparr>token := False, parker := PAgain 0\<rparr>)" using gen by (intro ptr) simp_all
    with PPark ok r w show ?thesis
      by (cases "token s") (simp_all add: park_ok_def refs_ok_def wake_ok_def parking_def announced_def has_token_def)
  next
    case (PAgain h)
    note q = quiet [unfolded parking_def PAgain, simplified]
    show ?thesis
    proof (cases "strong s = 0")
      case True
      have "ptr_ok (park_return s)" using True by (intro ptr) simp_all
      with PAgain True r q show ?thesis by (simp add: park_ok_def refs_ok_return refs_ok_def wake_ok_def announced_def)
    next
      case False
      have q': "takers (unparkers s) = 0" "\<not> token s" "\<And>g. ptr s \<noteq> Th g" using q False by simp_all
      let ?s = "s\<lparr>strong := strong s + 1, parker := PStore (h + 1)\<rparr>"
      have "ptr_ok ?s" using False q' by (intro ptr) simp_all
      moreover have "refs_ok ?s" using r PAgain by (simp add: refs_ok_def)
      moreover have "wake_ok ?s" using q' by (simp add: wake_ok_def parking_def announced_def)
      ultimately show ?thesis using PAgain False by (simp add: park_ok_def)
    qed
  next
    case (PStore h)
    note q = quiet [unfolded parking_def PStore, simplified]
    have "ptr_ok (s\<lparr>ptr := Null, parker := PDrop h\<rparr>)" by (intro ptr) simp_all
    with PStore r q show ?thesis by (simp add: park_ok_def refs_ok_def wake_ok_def parking_def announced_def)
  next
    case (PDrop h)
    note q = quiet [unfolded parking_def PDrop, simplified]
    have n: "strong s = owners (unparkers s) + h" "0 < h" using r PDrop by (simp_all add: refs_ok_def)
    with q have q': "takers (unparkers s) = 0" "\<not> token s" "\<And>g. ptr s \<noteq> Th g" by simp_all
    show ?thesis
    proof (cases "h \<le> 1")
      case True
      let ?s = "park_return (s\<lparr>strong := strong s - 1\<rparr>)"
      have "ptr_ok ?s" using gen by (intro ptr) simp_all
      moreover have "refs_ok ?s" using n True by (intro refs_ok_return) simp
      moreover have "wake_ok ?s" using q' by (simp add: wake_ok_def announced_def)
      ultimately show ?thesis using PDrop True by (simp add: park_drop_def park_ok_def)
    next
      case False
      have "ptr_ok (s\<lparr>strong := strong s - 1, parker := PDrop (h - 1)\<rparr>)" using gen by (intro ptr) simp_all
      with PDrop False n q' show ?thesis
        by (simp add: park_drop_def park_ok_def refs_ok_def wake_ok_def parking_def announced_def)
    qed
  next
    case PRecv
    note q = quiet [unfolded parking_def PRecv, simplified]
    obtain x c where x: "recv_now (chan s) = (x, c)" by fastforce
    have "ptr_ok (s\<lparr>chan := c, received := Some x, parker := PDone\<rparr>)" using gen by (intro ptr) simp_all
    with PRecv x r q show ?thesis by (auto simp: park_ok_def refs_ok_def wake_ok_def parking_def announced_def)
  qed (use ok in simp_all)
qed

lemma park_ok_idle_pc:
  assumes "park_ok s" and "idle_unparker i s" and "owns_pc pc = 1" and "took_pc pc = 0" and "unparker_ok s pc"
  shows "park_ok (set_pc i pc s)"
  using assms by (intro park_ok_set_pc [of i s]) (simp_all add: idle_unparker_def park_ok_def)

lemma park_ok_clone:
  assumes "park_ok s" and "idle_unparker i s"
  shows "park_ok (unparker_clone i s)"
proof -
  let ?s = "unparker_clone i s"
  have pos: "0 < strong s"
    using total_pos [of "unparkers s ! i" "unparkers s" "\<lambda>u. owns_pc (up_pc u)"] assms
    by (simp add: idle_unparker_def park_ok_def refs_ok_def)
  have "announced ?s = announced s" "has_token ?s = has_token s" "parking ?s = parking s" "token ?s = token s"
      "takers (unparkers ?s) = takers (unparkers s)"
    using assms(2) pos by (simp_all add: announced_def has_token_def parking_def unparker_clone_def idle_unparker_def)
  then have "wake_ok ?s" using assms pos by (simp add: park_ok_def wake_ok_def)
  moreover have "refs_ok ?s" using assms by (simp add: park_ok_def refs_ok_def unparker_clone_def idle_unparker_def)
  moreover have "unparker_ok ?s pc" if "unparker_ok s pc" for pc
    using that pos by (auto simp: unparker_ok_def unparker_clone_def split: unparker_pc.splits)
  then have "ptr_ok ?s" using assms pos
    by (auto simp: park_ok_def ptr_ok_def unparker_clone_def idle_unparker_def)
  ultimately show ?thesis by (simp add: park_ok_def)
qed

text \<open>The channel does not matter here.\<close>

lemma park_ok_chan: "park_ok (s\<lparr>chan := c, sent := vs\<rparr>) = park_ok s"
proof -
  have "unparker_ok (s\<lparr>chan := c, sent := vs\<rparr>) = unparker_ok s" by (auto simp: unparker_ok_def fun_eq_iff split: unparker_pc.splits)
  then show ?thesis by (simp add: park_ok_def refs_ok_def wake_ok_def ptr_ok_def parking_def announced_def has_token_def)
qed

lemma park_ok_sender:
  assumes "park_ok s"
  shows "park_ok (s\<lparr>unparkers := (unparkers s)[i := (unparkers s ! i)\<lparr>up_sender := b\<rparr>]\<rparr>)" (is "park_ok ?s")
proof -
  have "map up_pc (unparkers ?s) = map up_pc (unparkers s)"
    by (cases "i < length (unparkers s)") (simp_all add: map_update list_update_same_conv list_update_beyond)
  note pcs = this
  have t: "total (\<lambda>u. f (up_pc u)) us = sum_list (map f (map up_pc us))" for f us by (simp add: total_def comp_def)
  have e: "up_pc ` set (unparkers ?s) = up_pc ` set (unparkers s)" using arg_cong [OF pcs, of set] by simp
  have u: "unparker_ok ?s = unparker_ok s" by (auto simp: unparker_ok_def fun_eq_iff split: unparker_pc.splits)
  have a: "(\<forall>u \<in> set (unparkers ?s). unparker_ok s (up_pc u)) = (\<forall>u \<in> set (unparkers s). unparker_ok s (up_pc u))"
    using arg_cong [OF e, of "\<lambda>pcs. \<forall>pc \<in> pcs. unparker_ok s pc"] by (simp only: ball_simps)
  have "owners (unparkers ?s) = owners (unparkers s)" and k: "takers (unparkers ?s) = takers (unparkers s)"
    unfolding t pcs by (rule refl)+
  then have "refs_ok ?s" using assms by (simp add: park_ok_def refs_ok_def)
  moreover have "announced ?s = announced s" "has_token ?s = has_token s" "parking ?s = parking s" "token ?s = token s"
    by (simp_all add: announced_def has_token_def parking_def)
  then have "wake_ok ?s" using assms k by (simp add: park_ok_def wake_ok_def)
  moreover have "ptr_ok ?s" using assms a u by (simp add: park_ok_def ptr_ok_def)
  ultimately show ?thesis by (simp add: park_ok_def)
qed

lemma unparker_send_set_pc:
  assumes "opt_send v (up_sender (unparkers s ! i), chan s) = (result, has, c)" and "i < length (unparkers s)"
  shows "unparker_send i v s =
    set_pc i (if result \<noteq> Break SentClosed then USwap else UIdle)
      ((s\<lparr>unparkers := (unparkers s)[i := (unparkers s ! i)\<lparr>up_sender := has\<rparr>]\<rparr>)\<lparr>chan := c, sent := sent s @ (if result \<noteq> Break SentClosed then [v] else [])\<rparr>)"
  using assms by (cases "unparkers s ! i") (simp add: unparker_send_def set_pc_def)

lemma park_ok_send:
  assumes "park_ok s" and "idle_unparker i s"
  shows "park_ok (unparker_send i v s)"
proof -
  obtain result has c where o: "opt_send v (up_sender (unparkers s ! i), chan s) = (result, has, c)" by (metis prod_cases3)
  let ?s1 = "(s\<lparr>unparkers := (unparkers s)[i := (unparkers s ! i)\<lparr>up_sender := has\<rparr>]\<rparr>)
    \<lparr>chan := c, sent := sent s @ (if result \<noteq> Break SentClosed then [v] else [])\<rparr>"
  have "park_ok ?s1" unfolding park_ok_chan by (rule park_ok_sender [OF assms(1)])
  moreover have "idle_unparker i ?s1" using assms(2) by (simp add: idle_unparker_def)
  ultimately show ?thesis unfolding unparker_send_set_pc [OF o assms(2) [unfolded idle_unparker_def, THEN conjunct1]]
    by (intro park_ok_idle_pc) (simp_all add: unparker_ok_def)
qed

lemma park_ok_call:
  assumes "park_ok s" and "parker s = PIdle" and "pc \<in> {PUpgrade, PRecv}"
  shows "park_ok (s\<lparr>in_recv := b, parker := pc\<rparr>)" (is "park_ok ?s")
proof -
  have "unparker_ok ?s = unparker_ok s" by (auto simp: unparker_ok_def fun_eq_iff split: unparker_pc.splits)
  then have "ptr_ok ?s" using assms(1) by (simp add: park_ok_def ptr_ok_def)
  moreover have "announced ?s = announced s" "has_token ?s = has_token s" "\<not> parking ?s" "\<not> parking s"
    using assms(2,3) by (auto simp: announced_def has_token_def parking_def)
  then have "wake_ok ?s" using assms(1) by (simp add: park_ok_def wake_ok_def)
  moreover have "refs_ok ?s" using assms by (auto simp: park_ok_def refs_ok_def)
  ultimately show ?thesis by (simp add: park_ok_def)
qed

lemma park_ok_do:
  assumes "park_ok s" and "a \<noteq> Spurious"
  shows "park_ok (pk_do a s)"
proof (cases a)
  case CallPark
  with assms(1) park_ok_call [of s PUpgrade "in_recv s"] show ?thesis by simp
next
  case CallRecv
  with assms(1) park_ok_call [of s PUpgrade True] park_ok_call [of s PRecv True] show ?thesis by (simp add: recv_start_def)
qed (use assms in \<open>simp_all add: park_ok_clone park_ok_send park_ok_unparker_act park_ok_parker_act park_ok_idle_pc unparker_ok_def\<close>)

lemma park_ok_new: "park_ok (parker_new False)"
  by (simp add: park_ok_def refs_ok_def wake_ok_def ptr_ok_def parker_new_def parking_def announced_def unparker_ok_def)

lemma park_ok_reachable: "pk_steps never (parker_new False) s \<Longrightarrow> Spurious \<in> never \<Longrightarrow> park_ok s"
  by (induction rule: rtranclp_induct) (auto simp: park_ok_new elim!: pk_step.cases intro: park_ok_do)

section \<open>The blocking receive\<close>

text \<open>The value and the receiver.\<close>

definition recv_ok :: "'v psys \<Rightarrow> bool" where
  "recv_ok s \<longleftrightarrow>
     (case received s of
        None \<Rightarrow> recver (chan s) \<and> parker s \<noteq> PDone \<and> once_done (chan s) = (in_value (chan s) \<noteq> None) \<and>
          sent s = (case in_value (chan s) of Some v \<Rightarrow> [v] | None \<Rightarrow> [])
      | Some r \<Rightarrow> \<not> recver (chan s) \<and> parker s = PDone \<and> once_done (chan s) \<and>
          (case r of Some v \<Rightarrow> sent s = [v] | None \<Rightarrow> sent s = [] \<and> strong s = 0))"

text \<open>A reason for the parker to return while there are unparkers: it follows a send.\<close>

fun waking_pc :: "unparker_pc \<Rightarrow> bool" where
  "waking_pc USwap = True"
| "waking_pc (USeen _ dropping) = (\<not> dropping)"
| "waking_pc (UUnpark dropping) = (\<not> dropping)"
| "waking_pc _ = False"

fun woken_pc :: "parker_pc \<Rightarrow> bool" where
  "woken_pc (PAgain _) = True" | "woken_pc (PStore _) = True" | "woken_pc (PDrop _) = True" | "woken_pc PRecv = True"
| "woken_pc _ = False"

definition woken :: "'v psys \<Rightarrow> bool" where
  "woken s \<longleftrightarrow> 0 < strong s \<and> (ptr s = SkipParking \<or> token s \<or> woken_pc (parker s)) \<or>
     (\<exists>u \<in> set (unparkers s). waking_pc (up_pc u))"

definition notify_ok :: "'v psys \<Rightarrow> bool" where
  "notify_ok s \<longleftrightarrow> recv_ok s \<and> (woken s \<longrightarrow> once_done (chan s))"

lemma recv_ok_frame:
  assumes "recv_ok s" and "chan s1 = chan s" and "parker s1 = parker s" and "sent s1 = sent s" and "received s1 = received s"
    and "strong s1 \<le> strong s"
  shows "recv_ok s1"
  using assms by (auto simp: recv_ok_def split: option.splits)

lemma chan_frame [simp]:
  "recver (sender_drop c) = recver c" "once_done (sender_drop c) = once_done c" "in_value (sender_drop c) = in_value c"
  "recver (sender_clone c) = recver c" "once_done (sender_clone c) = once_done c" "in_value (sender_clone c) = in_value c"
  by (simp_all add: sender_drop_def sender_clone_def Let_def)

lemma opt_send_cases:
  assumes "opt_send v (has, c) = (result, has', c')"
  shows "result \<noteq> Break SentClosed \<and> recver c \<and> \<not> once_done c \<and> recver c' \<and> once_done c' \<and> in_value c' = Some v \<or>
    result = Break SentClosed \<and> recver c' = recver c \<and> once_done c' = once_done c \<and> in_value c' = in_value c"
  using assms by (auto simp: opt_send_def os_send_def Let_def split: if_splits)

lemma woken_set_pc: "woken (set_pc i pc s) \<Longrightarrow> waking_pc pc \<or> woken s"
  using set_update_subset_insert [of "unparkers s" i "(unparkers s ! i)\<lparr>up_pc := pc\<rparr>"]
  by (auto simp: woken_def set_pc_def)

lemma owner_strong:
  assumes "park_ok s" and "i < length (unparkers s)" and "owns_pc (up_pc (unparkers s ! i)) = 1"
  shows "0 < strong s"
  using total_pos [of "unparkers s ! i" "unparkers s" "\<lambda>u. owns_pc (up_pc u)"] assms
  by (simp add: park_ok_def refs_ok_def)

lemma waking_owns: "waking_pc pc \<Longrightarrow> owns_pc pc = 1"
  by (cases pc) auto

lemma notify_ok_unparker_act:
  assumes ok: "park_ok s" and n: "notify_ok s" and i: "i < length (unparkers s)"
  shows "notify_ok (unparker_act i (up_pc (unparkers s ! i)) s)"
proof -
  let ?pc = "up_pc (unparkers s ! i)"
  have u: "unparkers s ! i \<in> set (unparkers s)" using i by simp
  have uok: "unparker_ok s ?pc" using ok u by (auto simp: park_ok_def ptr_ok_def)
  have w: "once_done (chan s)" if "waking_pc ?pc" using n that u by (auto simp: notify_ok_def woken_def)
  have r: "recv_ok s" and wk: "woken s \<Longrightarrow> once_done (chan s)" using n by (simp_all add: notify_ok_def)
  have keep: "notify_ok (set_pc i pc s1)" if "recv_ok s1" "chan s1 = chan s \<or> chan s1 = sender_drop (chan s)"
      "waking_pc pc \<Longrightarrow> once_done (chan s)" "woken s1 \<Longrightarrow> once_done (chan s)" for pc s1
  proof -
    have "once_done (chan s1) = once_done (chan s)" using that(2) by auto
    moreover have "recv_ok (set_pc i pc s1)" using that(1) unfolding recv_ok_def set_pc_simps .
    ultimately show ?thesis using woken_set_pc [of i pc s1] that(3,4) by (auto simp: notify_ok_def)
  qed
  show ?thesis
  proof (cases ?pc)
    case USwap
    then have "notify_ok (set_pc i (USeen (ptr s) False) (s\<lparr>ptr := SkipParking\<rparr>))"
      using w by (intro keep recv_ok_frame [OF r]) simp_all
    with USwap show ?thesis by simp
  next
    case (USeen p dropping)
    have "notify_ok (set_pc i (UUnpark dropping) (s\<lparr>dangling := True\<rparr>))" "notify_ok (set_pc i (UUnpark dropping) s)"
        "notify_ok (set_pc i (if dropping then UField else UIdle) s)"
      using USeen w wk by (intro keep recv_ok_frame [OF r]; simp add: woken_def split: if_splits)+
    with USeen show ?thesis by (cases dropping) (simp_all split: th_ptr.split)
  next
    case (UUnpark dropping)
    have "woken (s\<lparr>token := True\<rparr>) \<Longrightarrow> once_done (chan s)"
      using wk w UUnpark uok by (cases dropping) (auto simp: woken_def unparker_ok_def)
    then have "notify_ok (set_pc i (if dropping then UField else UIdle) (s\<lparr>token := True\<rparr>))"
      using UUnpark by (intro keep recv_ok_frame [OF r]) (simp_all split: if_splits)
    with UUnpark show ?thesis by simp
  next
    case UInner
    have "recv_ok (s\<lparr>strong := strong s - 1\<rparr>)" by (rule recv_ok_frame [OF r]) simp_all
    moreover have "woken (s\<lparr>strong := strong s - 1\<rparr>) \<Longrightarrow> once_done (chan s)" using wk by (auto simp: woken_def)
    ultimately have "notify_ok (set_pc i (if strong s = 1 then USeen (ptr s) True else UField) (s\<lparr>strong := strong s - 1\<rparr>))"
      by (intro keep) (simp_all split: if_splits)
    with UInner show ?thesis by simp
  next
    case UField
    have "recv_ok (s\<lparr>chan := sender_drop (chan s)\<rparr>)" using r by (auto simp: recv_ok_def split: option.splits)
    moreover have "woken (s\<lparr>chan := sender_drop (chan s)\<rparr>) = woken s" by (simp add: woken_def)
    ultimately have "notify_ok (set_pc i UDone (s\<lparr>chan := sender_drop (chan s)\<rparr>))" "notify_ok (set_pc i UDone s)"
      using r wk by (intro keep; simp)+
    with UField show ?thesis by simp
  qed (use n in simp_all)
qed

lemma recv_ok_parker:
  assumes "recv_ok s" and "parker s \<noteq> PDone"
  shows "received s = None \<and> recver (chan s) \<and> once_done (chan s) = (in_value (chan s) \<noteq> None) \<and>
    sent s = (case in_value (chan s) of Some v \<Rightarrow> [v] | None \<Rightarrow> [])"
  using assms by (auto simp: recv_ok_def split: option.splits)

lemma notify_ok_parker_act:
  assumes ok: "park_ok s" and n: "notify_ok s"
  shows "notify_ok (parker_act (parker s) s)"
proof (cases "parker s = PDone")
  case False
  have wk: "woken s \<Longrightarrow> once_done (chan s)" using n by (simp add: notify_ok_def)
  note r = recv_ok_parker [OF n [unfolded notify_ok_def, THEN conjunct1] False]
  have keep: "notify_ok s1" if "chan s1 = chan s" "sent s1 = sent s" "received s1 = received s" "parker s1 \<noteq> PDone"
      "woken s1 \<Longrightarrow> once_done (chan s)" for s1
    using that r by (simp add: notify_ok_def recv_ok_def)
  have ret: "parker (park_return s1) \<noteq> PDone" for s1 :: "'a psys" by (simp add: park_return_def)
  have wret: "woken (park_return s1) \<Longrightarrow> once_done (chan s)"
    if "strong s1 = 0" "unparkers s1 = unparkers s" for s1 :: "'a psys"
    using that wk by (auto simp: woken_def)
  have nth: "ptr s \<noteq> Th g" if "0 < strong s" "\<not> parking s" for g
    using ok that by (auto simp: park_ok_def wake_ok_def ptr_ok_def announced_def split: if_splits)
  show ?thesis
  proof (cases "parker s")
    case PUpgrade
    with wret [of s] ret [of s] show ?thesis by (simp, intro conjI impI keep) (use wk in \<open>auto simp: woken_def\<close>)
  next
    case PExchange
    have "0 < strong s" using ok PExchange by (simp add: park_ok_def refs_ok_def)
    with PExchange nth have "ptr s \<noteq> Null \<Longrightarrow> ptr s = SkipParking" by (cases "ptr s") (auto simp: parking_def)
    with PExchange \<open>0 < strong s\<close> show ?thesis by (simp, intro conjI impI keep) (use wk in \<open>auto simp: woken_def\<close>)
  next
    case PInner
    with wret [of "s\<lparr>strong := 0\<rparr>"] ret [of "s\<lparr>strong := 0\<rparr>"] show ?thesis
      by (simp, intro conjI impI keep) (use wk in \<open>auto simp: woken_def\<close>)
  next
    case PPark
    with n show ?thesis by (simp, intro conjI impI keep) (use wk in \<open>auto simp: woken_def\<close>)
  next
    case (PAgain h)
    with wret [of s] ret [of s] show ?thesis by (simp, intro conjI impI keep) (use wk in \<open>auto simp: woken_def\<close>)
  next
    case (PStore h)
    then show ?thesis by (simp, intro keep) (use wk in \<open>auto simp: woken_def\<close>)
  next
    case (PDrop h)
    then have "0 < strong s" using ok by (auto simp: park_ok_def refs_ok_def)
    with PDrop wk have "once_done (chan s)" by (simp add: woken_def)
    with PDrop ret show ?thesis by (simp add: park_drop_def, intro conjI impI keep) simp_all
  next
    case PRecv
    obtain x c where x: "recv_now (chan s) = (x, c)" by fastforce
    then have c: "\<not> recver c" "once_done c" "x = (if once_done (chan s) then in_value (chan s) else None)"
      by (auto simp: recv_now_def Let_def split: if_splits)
    moreover have "strong s = 0" if "\<not> once_done (chan s)"
    proof (rule ccontr)
      assume "strong s \<noteq> 0"
      with PRecv have "woken s" by (simp add: woken_def)
      with wk that show False by simp
    qed
    ultimately show ?thesis using PRecv x r by (auto simp: notify_ok_def recv_ok_def split: option.splits)
  qed (use n False in simp_all)
qed (use n in simp)

lemma notify_ok_send:
  assumes ok: "park_ok s" and n: "notify_ok s" and i: "idle_unparker i s"
  shows "notify_ok (unparker_send i v s)"
proof -
  obtain result has c where o: "opt_send v (up_sender (unparkers s ! i), chan s) = (result, has, c)" by (metis prod_cases3)
  have r: "recv_ok s" and wk: "woken s \<Longrightarrow> once_done (chan s)" using n by (simp_all add: notify_ok_def)
  have pos: "0 < strong s" using owner_strong [OF ok, of i] i by (simp add: idle_unparker_def)
  let ?s1 = "(s\<lparr>unparkers := (unparkers s)[i := (unparkers s ! i)\<lparr>up_sender := has\<rparr>]\<rparr>)
    \<lparr>chan := c, sent := sent s @ (if result \<noteq> Break SentClosed then [v] else [])\<rparr>"
  have eq: "unparker_send i v s = set_pc i (if result \<noteq> Break SentClosed then USwap else UIdle) ?s1"
    using unparker_send_set_pc [OF o] i by (simp add: idle_unparker_def)
  have rec: "recv_ok (unparker_send i v s)"
    using opt_send_cases [OF o] r pos unfolding eq recv_ok_def set_pc_simps by (auto split: option.splits)
  have "woken ?s1 \<Longrightarrow> woken s"
    using set_update_subset_insert [of "unparkers s" i "(unparkers s ! i)\<lparr>up_sender := has\<rparr>"] i
    by (auto simp: woken_def idle_unparker_def)
  then have "woken (unparker_send i v s) \<Longrightarrow> once_done c"
    using opt_send_cases [OF o] wk woken_set_pc [of i "if result \<noteq> Break SentClosed then USwap else UIdle" ?s1]
    unfolding eq by (auto split: if_splits)
  with rec show ?thesis unfolding notify_ok_def eq by simp
qed

lemma notify_ok_clone:
  assumes "park_ok s" and "notify_ok s" and i: "idle_unparker i s"
  shows "notify_ok (unparker_clone i s)"
proof -
  have "0 < strong s" using owner_strong [OF assms(1), of i] i by (simp add: idle_unparker_def)
  with assms(2) i show ?thesis
    by (auto simp: notify_ok_def unparker_clone_def idle_unparker_def woken_def recv_ok_def split: option.splits if_splits)
qed

lemma notify_ok_do:
  assumes ok: "park_ok s" and n: "notify_ok s" and a: "a \<noteq> Spurious" "\<And>i. a \<noteq> CallUnpark i"
  shows "notify_ok (pk_do a s)"
proof (cases a)
  case (CallDrop i)
  have "woken (set_pc i UInner s) \<Longrightarrow> woken s" using woken_set_pc [of i UInner s] by simp
  moreover have "recv_ok (set_pc i UInner s)" using n unfolding notify_ok_def recv_ok_def set_pc_simps by simp
  ultimately show ?thesis using CallDrop n by (auto simp: notify_ok_def)
next
  case CallPark
  with n show ?thesis by (auto simp: notify_ok_def recv_ok_def woken_def split: option.splits)
next
  case CallRecv
  with n show ?thesis
    by (auto simp: notify_ok_def recv_ok_def woken_def recv_start_def os_is_empty_def split: option.splits if_splits)
qed (use assms in \<open>auto simp: notify_ok_clone notify_ok_send notify_ok_unparker_act notify_ok_parker_act\<close>)

lemma notify_ok_new: "notify_ok (parker_new tok) \<or> tok"
  by (simp add: notify_ok_def recv_ok_def woken_def parker_new_def channel_new_def)

lemma notify_ok_reachable:
  assumes "pk_steps never (parker_new False) s" and "Spurious \<in> never" and "range CallUnpark \<subseteq> never"
  shows "park_ok s \<and> notify_ok s"
  using assms(1)
proof (induction rule: rtranclp_induct)
  case base
  show ?case using park_ok_new notify_ok_new [of False] by simp
next
  case (step s s')
  from step.hyps(2) obtain a where a: "a \<notin> never" "s' = pk_do a s" by (auto elim: pk_step.cases)
  with assms(2,3) have "a \<noteq> Spurious" "\<And>i. a \<noteq> CallUnpark i" by auto
  with step.IH a(2) show ?case by (simp add: park_ok_do notify_ok_do)
qed

section \<open>Properties\<close>

text \<open>C30: no wake-up is lost, for a thread that has no parking token when the channel is made and while
  \<open>std::thread::park\<close> returns only when it has to.  (An earlier channel can leave a token behind, and then this fails: see
  \<open>parker_leaves_token\<close>.)  A thread that is blocked in \<open>park\<close> while no unparker is in the middle of an operation has not
  been unparked since it announced itself: its announcement is in place, and there is an unparker left that will find
  it when it unparks or is dropped.  In particular the thread does not stay blocked when all unparkers are gone.  And
  no unparker uses the variable of a call of \<open>park\<close> that has returned.\<close>

theorem parker_no_lost_wakeup:
  assumes "pk_steps never (parker_new False) s" and "Spurious \<in> never"
  shows "\<not> dangling s \<and>
    (parker s = PPark \<and> \<not> token s \<and> (\<forall>u \<in> set (unparkers s). up_pc u \<in> {UIdle, UDone}) \<longrightarrow>
     ptr s = Th (th_gen s) \<and> (\<exists>i. idle_unparker i s))"
proof -
  have ok: "park_ok s" by (rule park_ok_reachable [OF assms])
  have "ptr s = Th (th_gen s) \<and> (\<exists>i. idle_unparker i s)"
    if p: "parker s = PPark" "\<not> token s" and q: "\<forall>u \<in> set (unparkers s). up_pc u \<in> {UIdle, UDone}"
  proof -
    have "takers (unparkers s) = 0" using q by (auto simp: total_zero)
    with ok p have "announced s = 1" by (simp add: park_ok_def wake_ok_def parking_def has_token_def)
    then have "0 < strong s" and ptr: "ptr s = Th (th_gen s)" by (auto simp: announced_def split: if_splits)
    with ok p have "owners (unparkers s) \<noteq> 0" by (simp add: park_ok_def refs_ok_def)
    then obtain u where u: "u \<in> set (unparkers s)" "owns_pc (up_pc u) \<noteq> 0" by (auto simp: total_zero)
    with q have "up_pc u = UIdle" by auto
    with u(1) have "\<exists>i. idle_unparker i s" by (auto simp: idle_unparker_def in_set_conv_nth)
    with ptr show ?thesis by blast
  qed
  moreover have "\<not> dangling s" using ok by (simp add: park_ok_def ptr_ok_def)
  ultimately show ?thesis by blast
qed

theorem parker_no_lost_wakeup_witness:
  "let s = fold pk_do [CallPark, ParkerNext, ParkerNext, ParkerNext] (parker_new False :: nat psys)
   in parker s = PPark \<and> \<not> dangling s \<and> ptr s = Th (th_gen s) \<and> (\<exists>i. idle_unparker i s)"
proof -
  define s where "s = fold pk_do [CallPark, ParkerNext, ParkerNext, ParkerNext] (parker_new False :: nat psys)"
  have r: "pk_steps {Spurious} (parker_new False) s" unfolding s_def by (rule pk_schedule) simp
  have f: "parker s = PPark" "\<not> token s" "unparkers s = [\<lparr>up_pc = UIdle, up_sender = True\<rparr>]" unfolding s_def by code_simp+
  from parker_no_lost_wakeup [OF r] f show ?thesis unfolding Let_def s_def [symmetric] by simp
qed

text \<open>C31: a blocking receive gives what was sent.  When the receiving thread has no parking token as the channel is made
  (an earlier channel can leave one behind, and then this fails: see \<open>parker_leaves_token\<close>), unparking follows a send, as it
  does for the senders of handlers, and \<open>std::thread::park\<close> returns only when it has to, \<open>recv\<close> returns the one value whose
  send succeeded, and it returns nothing only when all senders are gone and no send succeeded.\<close>

theorem recv_returns_sent:
  assumes "pk_steps ({Spurious} \<union> range CallUnpark) (parker_new False) s" and "received s = Some r"
  shows "case r of Some v \<Rightarrow> sent s = [v] | None \<Rightarrow> sent s = [] \<and> (\<forall>u \<in> set (unparkers s). up_pc u \<noteq> UIdle)"
proof -
  have "park_ok s" and "recv_ok s" using notify_ok_reachable [OF assms(1)] by (auto simp: notify_ok_def)
  then have "\<forall>u \<in> set (unparkers s). up_pc u \<noteq> UIdle" if "strong s = 0"
    using that by (auto simp: park_ok_def refs_ok_def total_zero)
  with \<open>recv_ok s\<close> assms(2) show ?thesis by (auto simp: recv_ok_def split: option.splits)
qed

definition example_recv :: "nat pk_action list" where
  "example_recv = [CallRecv, ParkerNext, ParkerNext, ParkerNext, CallSend 0 7] @ replicate 3 (UnparkerNext 0) @ replicate 5 ParkerNext"

theorem recv_returns_sent_witness:
  "received (fold pk_do example_recv (parker_new False)) = Some (Some 7) \<and> sent (fold pk_do example_recv (parker_new False)) = [7]"
proof -
  have "set example_recv \<inter> ({Spurious} \<union> range CallUnpark) = {}" by (auto simp: example_recv_def)
  from pk_schedule [OF this] have r: "pk_steps ({Spurious} \<union> range CallUnpark) (parker_new False) (fold pk_do example_recv (parker_new False))" .
  have f: "received (fold pk_do example_recv (parker_new False)) = Some (Some 7)" by code_simp
  from recv_returns_sent [OF r f] f show ?thesis by simp
qed

text \<open>The token can be left behind.  A sender that sends and is dropped while the receiver has announced itself but
  not yet given up its reference leaves the thread with its parking token after a \<open>recv\<close> that returned the value.
  In the next \<open>recv\<close> on that thread, on another channel, the token ends the parking at once: \<open>recv\<close> returns nothing
  although the sender is there and has not sent, and a sender that sends at that time uses the variable of
  the call of \<open>park\<close> after it has returned.\<close>

lemma parker_leaves_token:
  "\<exists>s s1 s2. pk_steps ({Spurious} \<union> range CallUnpark) (parker_new False) s \<and> received s = Some (Some (v :: 'v)) \<and> token s \<and>
     pk_steps ({Spurious} \<union> range CallUnpark) (parker_new (token s)) s1 \<and> received s1 = Some (None :: 'v option) \<and>
       (\<exists>i. idle_unparker i s1 \<and> up_sender (unparkers s1 ! i)) \<and>
     pk_steps ({Spurious} \<union> range CallUnpark) (parker_new (token s)) s2 \<and> dangling (s2 :: 'v psys)"
proof -
  let ?never = "{Spurious} \<union> range CallUnpark :: 'v pk_action set"
  define as where "as = [CallRecv, ParkerNext, ParkerNext, CallSend 0 v] @ replicate 3 (UnparkerNext 0) @ [CallDrop 0, UnparkerNext 0, UnparkerNext 0, ParkerNext, ParkerNext]"
  define as1 where "as1 = CallRecv # replicate 8 (ParkerNext :: 'v pk_action)"
  define as2 where "as2 = CallRecv # replicate 3 ParkerNext @ [CallSend 0 v, UnparkerNext 0] @ replicate 5 ParkerNext @ [UnparkerNext 0]"
  note defs = parker_new_def channel_new_def idle_unparker_def recv_start_def os_is_empty_def park_return_def park_drop_def
    unparker_send_def opt_send_def os_send_def sender_drop_def recv_now_def set_pc_def th_alive_def numeral_nat
  have n: "set as \<inter> ?never = {}" "set as1 \<inter> ?never = {}" "set as2 \<inter> ?never = {}"
    by (auto simp: as_def as1_def as2_def)
  have 1: "received (fold pk_do as (parker_new False)) = Some (Some v)" "token (fold pk_do as (parker_new False))"
    by (simp_all add: as_def defs)
  have 2: "received (fold pk_do as1 (parker_new True)) = Some None" "idle_unparker 0 (fold pk_do as1 (parker_new True))"
      "up_sender (unparkers (fold pk_do as1 (parker_new True)) ! 0)"
    by (simp_all add: as1_def defs)
  have 3: "dangling (fold pk_do as2 (parker_new True))" by (simp add: as2_def defs)
  show ?thesis
    using pk_schedule [OF n(1), of "parker_new False"] pk_schedule [OF n(2), of "parker_new True"]
      pk_schedule [OF n(3), of "parker_new True"] 1 2 3
    by (intro exI [of _ "fold pk_do as (parker_new False)"] exI [of _ "fold pk_do as1 (parker_new True)"]
        exI [of _ "fold pk_do as2 (parker_new True)"]) auto
qed

end
