(* ===== verification/Channels.thy ===== *)
theory Channels
  imports Parker
begin

text \<open>
  What a \<open>Sender\<close> of \<open>client/handler/channel.rs\<close> promises, as a locale, and its implementations: the closed sender,
  the queue of the standard library, the oneshot channel, alone and with a parker, and the senders of
  tokio, whose channels are parameters.  The channel specifications choose among them.
\<close>

section \<open>Senders of tokio\<close>

text \<open>A send on a channel of tokio gives the value back when it fails.\<close>

type_synonym ('c, 'v) tk_send = "'v \<Rightarrow> 'c \<Rightarrow> (unit, 'v) result \<times> 'c"

definition tk_oneshot_send :: "('c, 'v) tk_send \<Rightarrow> 'v \<Rightarrow> bool \<times> 'c \<Rightarrow> Sent control_flow \<times> bool \<times> 'c" where
  "tk_oneshot_send tk v s =
     (let (has_sender, c) = s in
      if has_sender then
        (case tk v c of
           (Inr _, c') \<Rightarrow> (Break SentOk, False, c')
         | (Inl _, c') \<Rightarrow> (Break SentClosed, False, c'))
      else (Break SentClosed, False, c))"

definition tk_unbounded_send :: "('c, 'v) tk_send \<Rightarrow> 'v \<Rightarrow> 'c \<Rightarrow> Sent control_flow \<times> 'c" where
  "tk_unbounded_send tk v c =
     (case tk v c of
        (Inr _, c') \<Rightarrow> (Continue, c')
      | (Inl _, c') \<Rightarrow> (Break SentClosed, c'))"

text \<open>A weak sender is upgraded for the send; the sender it becomes is dropped afterwards.\<close>

definition tk_weak_send ::
  "('c \<Rightarrow> 'c option) \<Rightarrow> ('c \<Rightarrow> 'c) \<Rightarrow> ('c, 'v) tk_send \<Rightarrow> 'v \<Rightarrow> 'c \<Rightarrow> Sent control_flow \<times> 'c" where
  "tk_weak_send upgrade drop_sender tk v c =
     (case upgrade c of
        Some c1 \<Rightarrow>
          (case tk v c1 of
             (Inr _, c2) \<Rightarrow> (Continue, drop_sender c2)
           | (Inl _, c2) \<Rightarrow> (Break SentClosed, drop_sender c2))
      | None \<Rightarrow> (Break SentClosed, c))"

text \<open>The default of \<open>may_send\<close>.\<close>

definition default_may_send :: "'c \<Rightarrow> bool" where
  "default_may_send c \<longleftrightarrow> True"

section \<open>The sender with a parker\<close>

text \<open>\<open>unpark\<close> without interference: the pointer and the token of the thread it names.\<close>

definition unpark :: "th_ptr \<times> bool \<Rightarrow> th_ptr \<times> bool" where
  "unpark st = (let (p, tok) = st in (SkipParking, case p of Th _ \<Rightarrow> True | _ \<Rightarrow> tok))"

definition unparker_sender_send ::
  "('v \<Rightarrow> 'c \<Rightarrow> Sent control_flow \<times> 'c) \<Rightarrow> 'v \<Rightarrow> 'c \<times> th_ptr \<times> bool \<Rightarrow> Sent control_flow \<times> 'c \<times> th_ptr \<times> bool" where
  "unparker_sender_send send v s =
     (let (c, st) = s; (result, c') = send v c
      in (result, c', if result \<noteq> Break SentClosed then unpark st else st))"

definition unparker_may_send :: "('c \<Rightarrow> bool) \<Rightarrow> 'c \<times> th_ptr \<times> bool \<Rightarrow> bool" where
  "unparker_may_send may s \<longleftrightarrow> may (fst s)"

section \<open>Channel specifications\<close>

text \<open>\<open>SyncChannels\<close>: the boxed sender; the receiver is the same cell, with the parker for the oneshot channel.\<close>

definition sync_new_oneshot :: "((bool \<times> 'v inner) \<times> th_ptr \<times> bool, 'v) sender" where
  "sync_new_oneshot =
     \<lparr>snd_state = ((True, channel_new), Null, False), snd_send = unparker_sender_send opt_send,
      snd_may_send = unparker_may_send opt_may_send\<rparr>"

definition sync_new_queue :: "('v mpsc, 'v) sender" where
  "sync_new_queue = mpsc_sender \<lparr>mp_open = True, mp_items = []\<rparr>"

text \<open>\<open>TokioChannels\<close>, over the new channels of tokio.\<close>

definition tokio_new_oneshot :: "('c, 'v) tk_send \<Rightarrow> 'c \<Rightarrow> (bool \<times> 'c, 'v) sender" where
  "tokio_new_oneshot tk c = \<lparr>snd_state = (True, c), snd_send = tk_oneshot_send tk, snd_may_send = default_may_send\<rparr>"

definition tokio_new_queue :: "('c, 'v) tk_send \<Rightarrow> 'c \<Rightarrow> ('c, 'v) sender" where
  "tokio_new_queue tk c = \<lparr>snd_state = c, snd_send = tk_unbounded_send tk, snd_may_send = default_may_send\<rparr>"

section \<open>The contract of a sender\<close>

text \<open>After a send that says that the channel is closed, and when sending may not succeed, later sends fail.\<close>

locale sender_contract =
  fixes send :: "'v \<Rightarrow> 'c \<Rightarrow> Sent control_flow \<times> 'c" and may :: "'c \<Rightarrow> bool"
  assumes closed: "\<not> may c \<Longrightarrow> send v c = (r, c') \<Longrightarrow> r = Break SentClosed"
    and stays_closed: "send v c = (Break b, c') \<Longrightarrow> send v' c' = (r, c'') \<Longrightarrow> r = Break SentClosed"
begin

text \<open>The flag of a \<open>SenderRef\<close>, which makes a handler appear among those that yielded, is set by sends that succeed only.\<close>

lemma ref_closed:
  assumes "snd_send (sr_sender sr) = send" and "snd_may_send (sr_sender sr) = may" and "\<not> sr_may_send sr"
  shows "fst (sr_send v sr) = Break SentClosed \<and> sr_flag (snd (sr_send v sr)) = sr_flag sr"
proof -
  obtain r c where "send v (snd_state (sr_sender sr)) = (r, c)" by fastforce
  with assms closed [OF _ this] show ?thesis by (simp add: sr_send_def sr_may_send_def)
qed

lemma ref_broken:
  assumes "snd_send (sr_sender sr) = send" and "fst (sr_send v sr) = Break b"
  shows "fst (sr_send v' (snd (sr_send v sr))) = Break SentClosed \<and>
    sr_flag (snd (sr_send v' (snd (sr_send v sr)))) = sr_flag (snd (sr_send v sr))"
proof -
  obtain c where c: "send v (snd_state (sr_sender sr)) = (Break b, c)"
    using assms by (auto simp: sr_send_def Let_def split: prod.splits)
  obtain r c' where c': "send v' c = (r, c')" by fastforce
  from stays_closed [OF c c'] have "r = Break SentClosed" .
  with assms(1) c c' show ?thesis by (auto simp: sr_send_def)
qed

text \<open>A parker does not change the contract.\<close>

lemma with_unparker: "sender_contract (unparker_sender_send send) (unparker_may_send may)"
proof
  fix c c' :: "'c \<times> th_ptr \<times> bool" and v r
  assume "\<not> unparker_may_send may c" and "unparker_sender_send send v c = (r, c')"
  then show "r = Break SentClosed"
    using closed [of "fst c"] by (auto simp: unparker_sender_send_def unparker_may_send_def split: prod.splits)
next
  fix c c' c'' :: "'c \<times> th_ptr \<times> bool" and v v' b r
  assume "unparker_sender_send send v c = (Break b, c')" and "unparker_sender_send send v' c' = (r, c'')"
  then show "r = Break SentClosed"
    using stays_closed [of v "fst c" b "fst c'"] by (auto simp: unparker_sender_send_def split: prod.splits)
qed

end

text \<open>sent before the first failure arrives in order, for a channel that keeps a log of what it took.\<close>

locale logged_sender = sender_contract send may
  for send :: "'v \<Rightarrow> 'c \<Rightarrow> Sent control_flow \<times> 'c" and may :: "'c \<Rightarrow> bool" +
  fixes log :: "'c \<Rightarrow> 'v list"
  assumes logs: "send v c = (r, c') \<Longrightarrow> log c' = (if r = Break SentClosed then log c else log c @ [v])"
begin

lemma send_all_log:
  assumes "snd_send (sr_sender sr) = send" and "send_all vs sr = (r, sr')"
  shows "\<exists>n. log (snd_state (sr_sender sr')) = log (snd_state (sr_sender sr)) @ take n vs \<and> (r = Continue \<longrightarrow> n = length vs)"
  using assms
proof (induction vs arbitrary: sr)
  case (Cons v vs)
  obtain f c where f: "send v (snd_state (sr_sender sr)) = (f, c)" by fastforce
  let ?sr = "\<lparr>sr_sender = (sr_sender sr)\<lparr>snd_state := c\<rparr>, sr_flag = (sr_flag sr \<or> f \<noteq> Break SentClosed)\<rparr>"
  have s: "sr_send v sr = (f, ?sr)" using Cons.prems(1) f by (simp add: sr_send_def)
  show ?case
  proof (cases f)
    case Continue
    with Cons.prems s have "send_all vs ?sr = (r, sr')" by (simp add: cf_discard_def)
    with Cons.IH [of ?sr] Cons.prems(1) obtain n where
      "log (snd_state (sr_sender sr')) = log c @ take n vs \<and> (r = Continue \<longrightarrow> n = length vs)" by auto
    with logs [OF f] Continue show ?thesis by (intro exI [of _ "Suc n"]) simp
  next
    case (Break b)
    with Cons.prems s have "sr' = ?sr" "r = Break ()" by (simp_all add: cf_discard_def)
    with logs [OF f] Break show ?thesis
      by (cases b) (auto intro: exI [of _ 0] exI [of _ 1])
  qed
qed (auto intro: exI [of _ 0])

end

interpretation closed_ch: sender_contract "snd_send closed_sender" "snd_may_send closed_sender"
  by unfold_locales (simp_all add: closed_sender_def)

interpretation mpsc_ch: logged_sender mpsc_send default_may_send mp_items
  by unfold_locales (auto simp: mpsc_send_def default_may_send_def split: if_splits)

interpretation oneshot_ch: sender_contract opt_send opt_may_send
  by unfold_locales
    (auto simp: opt_send_def opt_may_send_def os_send_def os_is_closed_def split: if_splits prod.splits)

text \<open>Sending below the trait: a send that fails keeps failing.  Both forms of the trait on top of it, the one that can
  be used once and the one that can be used many times, keep the contract.\<close>

locale fallible_send =
  fixes tk :: "('c, 'v) tk_send"
  assumes fails: "tk v c = (Inl x, c') \<Longrightarrow> tk v' c' = (r, c'') \<Longrightarrow> \<exists>y. r = Inl y"

sublocale fallible_send \<subseteq> one: sender_contract "tk_oneshot_send tk" default_may_send
  by unfold_locales (auto simp: tk_oneshot_send_def default_may_send_def split: if_splits prod.splits sum.splits)

sublocale fallible_send \<subseteq> many: sender_contract "tk_unbounded_send tk" default_may_send
proof
  fix v v' c b c' r c''
  assume "tk_unbounded_send tk v c = (Break b, c')" and r: "tk_unbounded_send tk v' c' = (r, c'')"
  then obtain x where x: "tk v c = (Inl x, c')"
    by (auto simp: tk_unbounded_send_def split: prod.splits sum.splits)
  obtain r1 c1 where "tk v' c' = (r1, c1)" by fastforce
  with fails [OF x this] r show "r = Break SentClosed" by (auto simp: tk_unbounded_send_def)
qed (simp add: default_may_send_def)

text \<open>The channels of the crate and of the standard library are of this form.\<close>

lemma opt_send_oneshot: "opt_send v s = tk_oneshot_send os_send v s"
  by (simp add: opt_send_def tk_oneshot_send_def Let_def split: prod.splits sum.splits)

definition mpsc_chan_send :: "('v mpsc, 'v) tk_send" where
  "mpsc_chan_send v c = (if mp_open c then (Inr (), c\<lparr>mp_items := mp_items c @ [v]\<rparr>) else (Inl v, c))"

lemma mpsc_send_unbounded: "mpsc_send v c = tk_unbounded_send mpsc_chan_send v c"
  by (simp add: mpsc_send_def tk_unbounded_send_def mpsc_chan_send_def)

interpretation os_chan: fallible_send os_send
  by unfold_locales (auto simp: os_send_def split: if_splits prod.splits)

interpretation mpsc_chan: fallible_send mpsc_chan_send
  by unfold_locales (auto simp: mpsc_chan_send_def split: if_splits)

interpretation parked_ch: sender_contract "unparker_sender_send opt_send" "unparker_may_send opt_may_send"
  by (rule oneshot_ch.with_unparker)

text \<open>The send of an unparker that is not interrupted is a run of its thread.\<close>

lemma unparker_send_runs:
  assumes i: "idle_unparker i s" and "unparker_sender_send opt_send v ((up_sender (unparkers s ! i), chan s), ptr s, token s) =
      (result, (has, c), p, tok)"
  shows "\<exists>n. let s' = fold pk_do (CallSend i v # replicate n (UnparkerNext i)) s
    in idle_unparker i s' \<and> up_sender (unparkers s' ! i) = has \<and> chan s' = c \<and> ptr s' = p \<and> token s' = tok"
proof -
  have o: "opt_send v (up_sender (unparkers s ! i), chan s) = (result, has, c)"
    and p: "(p, tok) = (if result \<noteq> Break SentClosed then unpark (ptr s, token s) else (ptr s, token s))"
    using assms(2) by (auto simp: unparker_sender_send_def split: prod.splits)
  have l: "i < length (unparkers s)" "up_pc (unparkers s ! i) = UIdle" using i by (simp_all add: idle_unparker_def)
  show ?thesis
  proof (cases "result = Break SentClosed")
    case True
    with l o p i show ?thesis by (intro exI [of _ 0]) (simp add: unparker_send_def idle_unparker_def)
  next
    case False
    show ?thesis
    proof (cases "ptr s")
      case (Th g)
      with False l o p i show ?thesis
        by (intro exI [of _ 3]) (simp add: unparker_send_def idle_unparker_def unpark_def set_pc_def numeral_nat)
    qed (use False l o p i in \<open>auto intro!: exI [of _ 2]
          simp: unparker_send_def idle_unparker_def unpark_def set_pc_def numeral_nat\<close>)
  qed
qed

end
