(* ===== verification/SecretBuf.thy ===== *)
theory SecretBuf
  imports BytesStr "HOL-Library.Monad_Syntax"
begin

text \<open>
  Buffers for sensitive data: \<open>string/secretbuf.rs\<close> over the raw memory of \<open>util/ownedslice.rs\<close>.  An
  allocation is a list of cells, \<open>None\<close> for a cell that has not been written.  The outer option of an
  operation is \<open>None\<close> when the code accesses memory outside the allocation, reads an unwritten cell or
  panics.  The allocator is a parameter: \<open>alloc n\<close> is the capacity of \<open>Vec::with_capacity(n)\<close>.  The
  field \<open>sb_freed\<close> records the allocations a buffer has given back, as they were at that time.
\<close>

section \<open>Owned memory (\<open>util/ownedslice.rs\<close>)\<close>

type_synonym mem = "byte option list"

definition os_from_vec :: "bytes \<Rightarrow> nat \<Rightarrow> mem \<times> nat" where
  "os_from_vec contents cap = (map Some contents @ replicate (cap - length contents) None, length contents)"

definition os_as_slice :: "nat \<Rightarrow> mem \<Rightarrow> bytes option" where
  "os_as_slice len m =
     (if len \<le> length m \<and> None \<notin> set (take len m) then Some (map the (take len m)) else None)"

definition into_vec_with_len :: "nat \<Rightarrow> mem \<Rightarrow> bytes option" where
  "into_vec_with_len len m = os_as_slice len m"

definition os_capacity :: "mem \<Rightarrow> nat" where
  "os_capacity m = length m"

definition write_capacity :: "nat \<Rightarrow> mem \<Rightarrow> nat" where
  "write_capacity len m = length m - len"

text \<open>The cells behind \<open>len\<close>, which have to be written already.\<close>

definition as_write_slice :: "nat \<Rightarrow> mem \<Rightarrow> mem option" where
  "as_write_slice len m = (if len \<le> length m \<and> None \<notin> set (drop len m) then Some (drop len m) else None)"

text \<open>A store through a raw pointer, and the loop that stores the default from \<open>cur\<close> to \<open>end\<close>.\<close>

definition write_cell :: "nat \<Rightarrow> byte \<Rightarrow> mem \<Rightarrow> mem option" where
  "write_cell i b m = (if i < length m then Some (m[i := Some b]) else None)"

function write_default :: "nat \<Rightarrow> nat \<Rightarrow> mem \<Rightarrow> mem option" where
  "write_default cur en m =
     (if cur < en then do { m' \<leftarrow> write_cell cur (CHR 0x00) m; write_default (cur + 1) en m' } else Some m)"
  by pat_completeness auto
termination by (relation "measure (\<lambda>(cur, en, m). en - cur)") auto

declare write_default.simps [simp del]

definition init_capacity :: "nat \<Rightarrow> mem \<Rightarrow> mem option" where
  "init_capacity len m = write_default len (len + length m) m"

definition reinit_all :: "mem \<Rightarrow> mem option" where
  "reinit_all m = write_default 0 (length m) m"

section \<open>Secret buffers (\<open>string/secretbuf.rs\<close>)\<close>

record secret_buf =
  sb_data :: mem
  sb_len :: nat
  sb_freed :: "mem list"

definition sb_is_empty :: "secret_buf \<Rightarrow> bool" where
  "sb_is_empty s \<longleftrightarrow> sb_len s = 0"

definition sb_with_capacity :: "(nat \<Rightarrow> nat) \<Rightarrow> nat \<Rightarrow> secret_buf option" where
  "sb_with_capacity alloc n = do {
     let (data, len) = os_from_vec [] (alloc n);
     data' \<leftarrow> init_capacity len data;
     Some \<lparr>sb_data = data', sb_len = len, sb_freed = []\<rparr> }"

definition sb_as_ref :: "secret_buf \<Rightarrow> bytes option" where
  "sb_as_ref s = os_as_slice (sb_len s) (sb_data s)"

definition sb_as_bytes :: "secret_buf \<Rightarrow> ircbytes option" where
  "sb_as_bytes s = do { b \<leftarrow> sb_as_ref s; Some (secret (bytes_from_bytes b)) }"

definition sb_into_bytes :: "secret_buf \<Rightarrow> ircbytes option" where
  "sb_into_bytes s = do { v \<leftarrow> into_vec_with_len (sb_len s) (sb_data s); Some (bytes_from_secret v) }"

definition sb_reserve :: "(nat \<Rightarrow> nat) \<Rightarrow> nat \<Rightarrow> secret_buf \<Rightarrow> secret_buf option" where
  "sb_reserve alloc len s =
     (if write_capacity (sb_len s) (sb_data s) < len then do {
        contents \<leftarrow> os_as_slice (sb_len s) (sb_data s);
        resized \<leftarrow> init_capacity (sb_len s) (fst (os_from_vec contents (alloc (sb_len s + len))));
        old \<leftarrow> reinit_all (sb_data s);
        Some (s\<lparr>sb_data := resized, sb_freed := sb_freed s @ [old]\<rparr>) }
      else Some s)"

definition sb_push :: "(nat \<Rightarrow> nat) \<Rightarrow> byte \<Rightarrow> nat \<Rightarrow> secret_buf \<Rightarrow> secret_buf option" where
  "sb_push alloc b extra s = do {
     s1 \<leftarrow> (if sb_len s = os_capacity (sb_data s) then sb_reserve alloc (1 + extra) s else Some s);
     ws \<leftarrow> as_write_slice (sb_len s1) (sb_data s1);
     data \<leftarrow> write_cell (sb_len s1) b (sb_data s1);
     Some (s1\<lparr>sb_data := data, sb_len := sb_len s1 + 1\<rparr>) }"

text \<open>Copying a slice over the cells from \<open>i\<close> on.\<close>

definition blit :: "nat \<Rightarrow> bytes \<Rightarrow> mem \<Rightarrow> mem" where
  "blit i bs m = take i m @ map Some bs @ drop (i + length bs) m"

definition sb_push_cstr :: "(nat \<Rightarrow> nat) \<Rightarrow> bytes \<Rightarrow> secret_buf \<Rightarrow> secret_buf option" where
  "sb_push_cstr alloc src s = (let len = length src + 1 in do {
     s1 \<leftarrow> sb_reserve alloc len s;
     ws \<leftarrow> as_write_slice (sb_len s1) (sb_data s1);
     if length ws < len then None
     else Some (s1\<lparr>sb_data := blit (sb_len s1) (src @ [CHR 0x00]) (sb_data s1), sb_len := sb_len s1 + len\<rparr>) })"

text \<open>A reader gets the length of the buffer and returns the bytes it puts there.  The loop of
  \<open>read_from\<close> hands it all of the remaining capacity.\<close>

function read_loop ::
  "('r \<Rightarrow> nat \<Rightarrow> (bytes, 'e) result \<times> 'r) \<Rightarrow> nat \<Rightarrow> nat \<Rightarrow> nat \<Rightarrow> mem \<Rightarrow> 'r \<Rightarrow>
   ((nat, 'e) result \<times> mem \<times> 'r) option" where
  "read_loop read expect bytes_read pos m r =
     (if bytes_read < expect then
        (case read r (length m - pos) of
           (Inl e, r') \<Rightarrow> Some (Inl e, m, r')
         | (Inr bs, r') \<Rightarrow>
             if bs = [] then Some (Inr bytes_read, m, r')
             else if length m - pos < length bs then None
             else read_loop read expect (bytes_read + length bs) (pos + length bs) (blit pos bs m) r')
      else Some (Inr bytes_read, m, r))"
  by pat_completeness auto
termination by (relation "measure (\<lambda>(read, expect, br, pos, m, r). expect - br)") (auto simp: neq_Nil_conv)

declare read_loop.simps [simp del]

definition sb_read_from ::
  "(nat \<Rightarrow> nat) \<Rightarrow> nat \<Rightarrow> ('r \<Rightarrow> nat \<Rightarrow> (bytes, 'e) result \<times> 'r) \<Rightarrow> 'r \<Rightarrow> secret_buf \<Rightarrow>
   ((nat, 'e) result \<times> secret_buf \<times> 'r) option" where
  "sb_read_from alloc expect read r s = do {
     s1 \<leftarrow> sb_reserve alloc expect s;
     ws \<leftarrow> as_write_slice (sb_len s1) (sb_data s1);
     (res, data, r') \<leftarrow> read_loop read expect 0 (sb_len s1) (sb_data s1) r;
     Some (res,
       (case res of
          Inl _ \<Rightarrow> s1\<lparr>sb_data := data\<rparr>
        | Inr n \<Rightarrow> s1\<lparr>sb_data := data, sb_len := sb_len s1 + n\<rparr>), r') }"

text \<open>\<open>std::io::Cursor\<close> over a slice.\<close>

definition cursor_read :: "bytes \<Rightarrow> nat \<Rightarrow> (bytes, unit) result \<times> bytes" where
  "cursor_read rest n = (Inr (take n rest), drop n rest)"

definition sb_push_slice :: "(nat \<Rightarrow> nat) \<Rightarrow> bytes \<Rightarrow> secret_buf \<Rightarrow> secret_buf option" where
  "sb_push_slice alloc src s = do {
     (_, s', _) \<leftarrow> sb_read_from alloc (length src) cursor_read src s;
     Some s' }"

definition sb_clear :: "secret_buf \<Rightarrow> secret_buf" where
  "sb_clear s = s\<lparr>sb_len := 0\<rparr>"

definition sb_default :: "(nat \<Rightarrow> nat) \<Rightarrow> secret_buf option" where
  "sb_default alloc = sb_with_capacity alloc 0"

definition sb_from_vec :: "bytes \<Rightarrow> nat \<Rightarrow> secret_buf option" where
  "sb_from_vec contents cap = do {
     let (data, len) = os_from_vec contents cap;
     data' \<leftarrow> init_capacity len data;
     Some \<lparr>sb_data = data', sb_len = len, sb_freed = []\<rparr> }"

text \<open>An iterator of bytes with the size hints it gives, one before every call of \<open>next\<close>.\<close>

fun sb_from_iter_loop :: "(nat \<Rightarrow> nat) \<Rightarrow> (byte \<times> nat) list \<Rightarrow> secret_buf \<Rightarrow> secret_buf option" where
  "sb_from_iter_loop alloc [] s = Some s"
| "sb_from_iter_loop alloc ((b, hint) # bs) s = do { s' \<leftarrow> sb_push alloc b hint s; sb_from_iter_loop alloc bs s' }"

definition sb_from_iter :: "(nat \<Rightarrow> nat) \<Rightarrow> nat \<Rightarrow> nat option \<Rightarrow> (byte \<times> nat) list \<Rightarrow> secret_buf option" where
  "sb_from_iter alloc lo hi bs = do {
     s \<leftarrow> sb_with_capacity alloc (case hi of Some mx \<Rightarrow> max lo (min 65535 mx) | None \<Rightarrow> lo);
     sb_from_iter_loop alloc bs s }"

text \<open>A copied vector has the capacity \<open>alloc\<close> gives it.\<close>

definition sb_clone :: "(nat \<Rightarrow> nat) \<Rightarrow> secret_buf \<Rightarrow> secret_buf option" where
  "sb_clone alloc s = do { b \<leftarrow> sb_as_bytes s; sb_from_vec (b_value b) (alloc (length (b_value b))) }"

definition sb_drop :: "secret_buf \<Rightarrow> mem list option" where
  "sb_drop s = do { m \<leftarrow> reinit_all (sb_data s); Some (sb_freed s @ [m]) }"

section \<open>What the operations do\<close>

text \<open>The contract of the allocator, and the invariant of a buffer: every cell is written, and what has
  been given back was zeroed.\<close>

definition alloc_ok :: "(nat \<Rightarrow> nat) \<Rightarrow> bool" where
  "alloc_ok alloc \<longleftrightarrow> (\<forall>n. n \<le> alloc n)"

definition zeroed :: "mem \<Rightarrow> bool" where
  "zeroed m \<longleftrightarrow> set m \<subseteq> {Some (CHR 0x00)}"

definition sb_ok :: "secret_buf \<Rightarrow> bool" where
  "sb_ok s \<longleftrightarrow> sb_len s \<le> length (sb_data s) \<and> None \<notin> set (sb_data s) \<and> (\<forall>m \<in> set (sb_freed s). zeroed m)"

definition contents :: "secret_buf \<Rightarrow> bytes" where
  "contents s = map the (take (sb_len s) (sb_data s))"

definition room :: "nat \<Rightarrow> secret_buf \<Rightarrow> bool" where
  "room n s \<longleftrightarrow> sb_len s = 0 \<or> sb_len s + n \<le> length (sb_data s)"

lemma write_default_eq:
  "cur \<le> en \<Longrightarrow> write_default cur en m =
     (if cur < en \<and> length m < en then None
      else Some (take cur m @ replicate (en - cur) (Some (CHR 0x00)) @ drop en m))"
proof (induction cur en m rule: write_default.induct)
  case (1 cur en m)
  show ?case
  proof (cases "cur < en \<and> cur < length m")
    case True
    then have "take (Suc cur) (m[cur := Some (CHR 0x00)]) = take cur m @ [Some (CHR 0x00)]"
      by (simp add: take_Suc_conv_app_nth)
    moreover have "en - cur = Suc (en - Suc cur)" using True by arith
    ultimately show ?thesis
      using True 1(1) by (subst write_default.simps) (auto simp: write_cell_def)
  qed (use 1(2) in \<open>subst write_default.simps, auto simp: write_cell_def\<close>)
qed

text \<open>Filling the rest of an allocation stores as many bytes as it has in all: behind the first
  byte, that is too many.\<close>

lemma init_capacity_eq:
  "init_capacity len m =
     (if m = [] then Some [] else if len = 0 then Some (replicate (length m) (Some (CHR 0x00))) else None)"
  by (auto simp: init_capacity_def write_default_eq)

lemma reinit_all_eq: "reinit_all m = Some (replicate (length m) (Some (CHR 0x00)))"
  by (simp add: reinit_all_def write_default_eq)

lemma zeroed_replicate [simp]: "zeroed (replicate n (Some (CHR 0x00)))"
  by (auto simp: zeroed_def)

lemma os_as_slice_ok: "sb_ok s \<Longrightarrow> os_as_slice (sb_len s) (sb_data s) = Some (contents s)"
  by (auto simp: sb_ok_def os_as_slice_def contents_def dest: in_set_takeD)

lemma with_capacity_eq:
  "sb_with_capacity alloc n = Some \<lparr>sb_data = replicate (alloc n) (Some (CHR 0x00)), sb_len = 0, sb_freed = []\<rparr>"
  by (simp add: sb_with_capacity_def os_from_vec_def init_capacity_eq)

lemma reserve_eq:
  assumes "alloc_ok alloc" and "sb_ok s"
  shows "sb_reserve alloc n s =
    (if n \<le> length (sb_data s) - sb_len s then Some s
     else if sb_len s = 0 then
       Some (s\<lparr>sb_data := replicate (alloc n) (Some (CHR 0x00)),
               sb_freed := sb_freed s @ [replicate (length (sb_data s)) (Some (CHR 0x00))]\<rparr>)
     else None)"
proof -
  have "sb_len s = length (contents s)" using assms(2) by (simp add: sb_ok_def contents_def)
  moreover have "sb_len s + n \<le> alloc (sb_len s + n)" using assms(1) by (simp add: alloc_ok_def)
  ultimately show ?thesis
    using os_as_slice_ok [OF assms(2)]
    by (auto simp: sb_reserve_def write_capacity_def init_capacity_eq reinit_all_eq os_from_vec_def)
qed

lemma reserve_room:
  assumes "alloc_ok alloc" and "sb_ok s" and "room n s"
  obtains s1 where "sb_reserve alloc n s = Some s1" and "sb_ok s1" and "contents s1 = contents s"
    and "sb_len s1 = sb_len s" and "sb_len s + n \<le> length (sb_data s1)"
    and "as_write_slice (sb_len s1) (sb_data s1) = Some (drop (sb_len s1) (sb_data s1))"
proof -
  have r: "\<exists>s1. sb_reserve alloc n s = Some s1 \<and> sb_ok s1 \<and> contents s1 = contents s \<and> sb_len s1 = sb_len s \<and>
      sb_len s + n \<le> length (sb_data s1)"
    using assms by (auto simp: reserve_eq room_def) (auto simp: sb_ok_def contents_def alloc_ok_def)
  then obtain s1 where s1: "sb_reserve alloc n s = Some s1" "sb_ok s1" "contents s1 = contents s"
    "sb_len s1 = sb_len s" "sb_len s + n \<le> length (sb_data s1)" by blast
  then have "as_write_slice (sb_len s1) (sb_data s1) = Some (drop (sb_len s1) (sb_data s1))"
    by (auto simp: as_write_slice_def sb_ok_def dest: in_set_dropD)
  with that s1 show thesis by blast
qed

lemma blit_props:
  assumes "i + length bs \<le> length m"
  shows "length (blit i bs m) = length m" and "take (i + length bs) (blit i bs m) = take i m @ map Some bs"
    and "None \<notin> set m \<Longrightarrow> None \<notin> set (blit i bs m)"
  using assms by (auto simp: blit_def dest: in_set_takeD in_set_dropD)

lemma blit_buffer:
  assumes "sb_ok s" and "sb_len s + length bs \<le> length (sb_data s)"
    and "s' = s\<lparr>sb_data := blit (sb_len s) bs (sb_data s), sb_len := sb_len s + length bs\<rparr>"
  shows "sb_ok s'" and "contents s' = contents s @ bs" and "length (sb_data s') = length (sb_data s)"
  using blit_props [OF assms(2)] assms by (auto simp: sb_ok_def contents_def comp_def)

lemma read_loop_cursor:
  "pos + length xs \<le> length m \<Longrightarrow>
   read_loop cursor_read (length xs) 0 pos m xs = Some (Inr (length xs), blit pos xs m, [])"
  by (subst read_loop.simps) (auto simp: cursor_read_def read_loop.simps [of _ "length xs" "length xs"] blit_def)

lemma push_slice_appends:
  assumes "alloc_ok alloc" and "sb_ok s" and "room (length xs) s"
  shows "\<exists>s'. sb_push_slice alloc xs s = Some s' \<and> sb_ok s' \<and> contents s' = contents s @ xs \<and>
    (sb_len s + length xs \<le> length (sb_data s) \<longrightarrow> length (sb_data s') = length (sb_data s))"
proof -
  obtain s1 where s1: "sb_reserve alloc (length xs) s = Some s1" "sb_ok s1" "contents s1 = contents s"
      "sb_len s1 = sb_len s" "sb_len s + length xs \<le> length (sb_data s1)"
      "as_write_slice (sb_len s1) (sb_data s1) = Some (drop (sb_len s1) (sb_data s1))"
    using reserve_room [OF assms] by blast
  have same: "s1 = s" if "sb_len s + length xs \<le> length (sb_data s)"
    using s1(1) that by (auto simp: reserve_eq [OF assms(1,2)] split: if_splits)
  let ?s' = "s1\<lparr>sb_data := blit (sb_len s1) xs (sb_data s1), sb_len := sb_len s1 + length xs\<rparr>"
  have "sb_push_slice alloc xs s = Some ?s'"
    using s1 by (simp add: sb_push_slice_def sb_read_from_def read_loop_cursor)
  with blit_buffer [OF s1(2) _ refl, of xs] s1 same show ?thesis by auto
qed

lemma push_cstr_appends:
  assumes "alloc_ok alloc" and "sb_ok s" and "room (length xs + 1) s"
  shows "\<exists>s'. sb_push_cstr alloc xs s = Some s' \<and> sb_ok s' \<and> contents s' = contents s @ xs @ [CHR 0x00] \<and>
    (sb_len s + length xs + 1 \<le> length (sb_data s) \<longrightarrow> length (sb_data s') = length (sb_data s))"
proof -
  obtain s1 where s1: "sb_reserve alloc (length xs + 1) s = Some s1" "sb_ok s1" "contents s1 = contents s"
      "sb_len s1 = sb_len s" "sb_len s + (length xs + 1) \<le> length (sb_data s1)"
      "as_write_slice (sb_len s1) (sb_data s1) = Some (drop (sb_len s1) (sb_data s1))"
    using reserve_room [OF assms] by blast
  have same: "s1 = s" if "sb_len s + length xs + 1 \<le> length (sb_data s)"
    using s1(1) that by (auto simp: reserve_eq [OF assms(1,2)] split: if_splits)
  let ?s' = "s1\<lparr>sb_data := blit (sb_len s1) (xs @ [CHR 0x00]) (sb_data s1), sb_len := sb_len s1 + length (xs @ [CHR 0x00])\<rparr>"
  have "sb_push_cstr alloc xs s = Some ?s'"
    using s1 by (simp add: sb_push_cstr_def)
  with blit_buffer [OF s1(2) _ refl, of "xs @ [CHR 0x00]"] s1 same show ?thesis by auto
qed

lemma push_appends:
  assumes "alloc_ok alloc" and "sb_ok s" and "room 1 s"
  shows "\<exists>s'. sb_push alloc b extra s = Some s' \<and> sb_ok s' \<and> contents s' = contents s @ [b]"
proof -
  obtain s1 where s1: "(if sb_len s = os_capacity (sb_data s) then sb_reserve alloc (1 + extra) s else Some s) = Some s1"
      "sb_ok s1" "contents s1 = contents s" "sb_len s1 = sb_len s" "sb_len s + 1 \<le> length (sb_data s1)"
  proof (cases "sb_len s = length (sb_data s)")
    case True
    then have "room (1 + extra) s" using assms(3) by (auto simp: room_def)
    from reserve_room [OF assms(1,2) this] True that show thesis
      by (metis add_leE add.assoc os_capacity_def)
  next
    case False
    with assms(2) that [of s] show thesis by (auto simp: os_capacity_def sb_ok_def)
  qed
  have "(sb_data s1)[sb_len s1 := Some b] = blit (sb_len s1) [b] (sb_data s1)"
    using s1(4,5) by (simp add: blit_def upd_conv_take_nth_drop)
  then have "sb_push alloc b extra s = Some (s1\<lparr>sb_data := blit (sb_len s1) [b] (sb_data s1), sb_len := sb_len s1 + length [b]\<rparr>)"
    using s1 by (auto simp: sb_push_def write_cell_def as_write_slice_def sb_ok_def dest: in_set_dropD)
  with blit_buffer [OF s1(2) _ refl, of "[b]"] s1 show ?thesis by auto
qed

lemma drop_zeroed: "sb_ok s \<Longrightarrow> \<exists>ms. sb_drop s = Some ms \<and> (\<forall>m \<in> set ms. zeroed m)"
  by (auto simp: sb_drop_def reinit_all_eq sb_ok_def)

text \<open>A buffer made for the right size takes everything that is pushed to it.\<close>

lemma with_capacity_ok:
  assumes "alloc_ok alloc"
  obtains s where "sb_with_capacity alloc n = Some s" and "sb_ok s" and "contents s = []"
    and "sb_len s = 0" and "n \<le> length (sb_data s)"
  using assms that by (simp add: with_capacity_eq) (simp add: sb_ok_def contents_def alloc_ok_def)

lemma contents_length: "sb_ok s \<Longrightarrow> length (contents s) = sb_len s"
  by (simp add: sb_ok_def contents_def)

lemma from_vec_overflows: "b \<noteq> [] \<Longrightarrow> sb_from_vec b cap = None"
  by (simp add: sb_from_vec_def os_from_vec_def init_capacity_eq)

lemma as_ref_ok: "sb_ok s \<Longrightarrow> sb_as_ref s = Some (contents s)"
  by (simp add: sb_as_ref_def os_as_slice_ok)

lemma into_bytes_ok:
  "sb_ok s \<Longrightarrow> \<exists>b. sb_into_bytes s = Some b \<and> b_value b = contents s \<and> is_secret b"
  by (simp add: sb_into_bytes_def into_vec_with_len_def os_as_slice_ok bytes_from_secret_def is_secret_def
      owned_from_vec_def)

lemma clone_overflows: "sb_ok s \<Longrightarrow> sb_len s \<noteq> 0 \<Longrightarrow> sb_clone alloc s = None"
  using contents_length [of s] from_vec_overflows [of "contents s"]
  by (fastforce simp: sb_clone_def sb_as_bytes_def as_ref_ok secret_def bytes_from_bytes_def is_owning_def)

text \<open>\<open>read_from\<close> takes all a reader offers within the capacity, which may be more than it is asked for.\<close>

lemma read_from_exceeds:
  "\<exists>s s'. sb_with_capacity (\<lambda>n. n) 4 = Some s \<and>
    sb_read_from (\<lambda>n. n) 1 cursor_read ''abcd'' s = Some (Inr 4, s', [])"
  by (auto simp: with_capacity_eq sb_read_from_def sb_reserve_def write_capacity_def as_write_slice_def
      read_loop.simps cursor_read_def)

section \<open>Properties\<close>

text \<open>C19: A secret buffer that is empty or has room for what is pushed appends it, for slices, for
  slices with a terminating zero and for single bytes; it never gives memory back to the allocator that
  still holds a byte of a secret.\<close>

theorem secret_buf_appends:
  assumes "alloc_ok alloc" and "sb_ok s"
  shows "(room (length xs) s \<longrightarrow>
      (\<exists>s'. sb_push_slice alloc xs s = Some s' \<and> sb_ok s' \<and> contents s' = contents s @ xs)) \<and>
    (room (length xs + 1) s \<longrightarrow>
      (\<exists>s'. sb_push_cstr alloc xs s = Some s' \<and> sb_ok s' \<and> contents s' = contents s @ xs @ [CHR 0x00])) \<and>
    (room 1 s \<longrightarrow> (\<exists>s'. sb_push alloc b extra s = Some s' \<and> sb_ok s' \<and> contents s' = contents s @ [b])) \<and>
    (\<exists>ms. sb_drop s = Some ms \<and> (\<forall>m \<in> set ms. zeroed m))"
  using push_slice_appends [OF assms] push_cstr_appends [OF assms] push_appends [OF assms] drop_zeroed [OF assms(2)]
  by blast

theorem secret_buf_appends_witness:
  "\<exists>s'. sb_push_slice (\<lambda>n. n) ''pw'' \<lparr>sb_data = [Some (CHR ''u''), Some (CHR 0x00), Some (CHR 0x00)], sb_len = 1, sb_freed = []\<rparr>
      = Some s' \<and> contents s' = ''upw''"
proof -
  let ?s = "\<lparr>sb_data = [Some (CHR ''u''), Some (CHR 0x00), Some (CHR 0x00)], sb_len = 1, sb_freed = []\<rparr>"
  have "alloc_ok (\<lambda>n. n)" "sb_ok ?s" "room (length ''pw'') ?s" "contents ?s = ''u''"
    by (simp_all add: alloc_ok_def sb_ok_def room_def contents_def)
  with secret_buf_appends [of "\<lambda>n. n" ?s "''pw''"] show ?thesis by fastforce
qed

text \<open>C20: A buffer that already holds a secret and has no room for more writes past the end of its new
  allocation, and so does every buffer made from a vector that is not empty, and every copy.\<close>

theorem secret_buf_overflow:
  assumes "alloc_ok alloc" and "sb_ok s" and "0 < sb_len s"
  shows "(\<not> room n s \<longrightarrow> sb_reserve alloc n s = None) \<and> sb_from_vec (contents s) cap = None \<and> sb_clone alloc s = None"
proof -
  have "contents s \<noteq> []" using assms contents_length [OF assms(2)] by auto
  then show ?thesis
    using assms by (auto simp: reserve_eq room_def from_vec_overflows clone_overflows sb_ok_def)
qed

theorem secret_buf_overflow_witness:
  "sb_reserve (\<lambda>n. n) 1 \<lparr>sb_data = [Some (CHR ''u'')], sb_len = 1, sb_freed = []\<rparr> = None"
  using secret_buf_overflow [of "\<lambda>n. n" "\<lparr>sb_data = [Some (CHR ''u'')], sb_len = 1, sb_freed = []\<rparr>" 1 0]
  by (simp add: alloc_ok_def sb_ok_def room_def)

end
