(* ===== verification/Newtypes.thy ===== *)
theory Newtypes
  imports SecretBuf Transforms Splitter
begin

text \<open>
  The conversions of \<open>string/bytes.rs\<close> and the methods that \<open>impl_subtype!\<close> of \<open>string/subtypes/macros.rs\<close> generates for
  every string newtype, on byte strings with their flags.  A value of the newtype \<open>t\<close> is the string it
  wraps; \<open>nt_made\<close> are the values that the safe functions of the crate can make, but for two uses that are known to break the
  rules (see there).
\<close>

section \<open>Conversions (\<open>string/bytes.rs\<close>)\<close>

definition bytes_is_empty :: "ircbytes \<Rightarrow> bool" where
  "bytes_is_empty b \<longleftrightarrow> b_value b = []"

definition bytes_len :: "ircbytes \<Rightarrow> nat" where
  "bytes_len b = length (b_value b)"

definition to_utf8_lossy :: "ircbytes \<Rightarrow> cow \<times> ircbytes" where
  "to_utf8_lossy b = utf8_cow b"

definition to_utf8_lossy_static :: "ircbytes \<Rightarrow> cow \<times> ircbytes" where
  "to_utf8_lossy_static b =
     (if is_owning b then (let (c, b') = to_utf8_lossy b in (Owned (cow_ref c), b')) else utf8_cow b)"

text \<open>Slices are copied into a buffer of their own.\<close>

definition bytes_from_slice :: "bytes \<Rightarrow> ircbytes" where
  "bytes_from_slice v = bytes_from_vec v"

definition bytes_from_str_slice :: "bytes \<Rightarrow> ircbytes" where
  "bytes_from_str_slice v = bytes_from_string v"

fun bytes_from_cow :: "cow \<Rightarrow> ircbytes" where
  "bytes_from_cow (Borrowed s) = bytes_from_slice s"
| "bytes_from_cow (Owned s) = bytes_from_vec s"

fun bytes_from_str_cow :: "cow \<Rightarrow> ircbytes" where
  "bytes_from_str_cow (Borrowed s) = bytes_from_str_slice s"
| "bytes_from_str_cow (Owned s) = bytes_from_string s"

definition bytes_into_vec :: "ircbytes \<Rightarrow> bytes" where
  "bytes_into_vec b = b_value b"

definition bytes_into_cow :: "ircbytes \<Rightarrow> cow" where
  "bytes_into_cow b = (if ownership b then Owned (bytes_into_vec b) else Borrowed (b_value b))"

text \<open>Comparison of slices: the first difference decides, then the length.\<close>

datatype cmp_ordering = CmpLess | CmpEqual | CmpGreater

fun slice_cmp :: "bytes \<Rightarrow> bytes \<Rightarrow> cmp_ordering" where
  "slice_cmp [] [] = CmpEqual"
| "slice_cmp [] (_ # _) = CmpLess"
| "slice_cmp (_ # _) [] = CmpGreater"
| "slice_cmp (a # as) (b # bs) = (if code a < code b then CmpLess else if code b < code a then CmpGreater else slice_cmp as bs)"

definition bytes_cmp :: "ircbytes \<Rightarrow> ircbytes \<Rightarrow> cmp_ordering" where
  "bytes_cmp a b = slice_cmp (b_value a) (b_value b)"

definition bytes_partial_cmp :: "ircbytes \<Rightarrow> ircbytes \<Rightarrow> cmp_ordering option" where
  "bytes_partial_cmp a b = Some (bytes_cmp a b)"

section \<open>The methods of a newtype (\<open>string/subtypes/macros.rs\<close>)\<close>

definition nt_from_bytes :: "strtype \<Rightarrow> ircbytes \<Rightarrow> (ircbytes, InvalidString) result" where
  "nt_from_bytes t b = (case find_invalid t (b_value b) of Some e \<Rightarrow> Inl e | None \<Rightarrow> Inr b)"

definition nt_from_str :: "strtype \<Rightarrow> bytes \<Rightarrow> ircbytes option" where
  "nt_from_str t s = (if find_invalid t s \<noteq> None then None else Some (bytes_from_str s))"

definition nt_from_super :: "strtype \<Rightarrow> ircbytes \<Rightarrow> (ircbytes, InvalidString) result" where
  "nt_from_super t b = (case super_check t (b_value b) of Some e \<Rightarrow> Inl e | None \<Rightarrow> Inr b)"

definition nt_into_super :: "ircbytes \<Rightarrow> ircbytes" where
  "nt_into_super b = b"

text \<open>\<open>from_secret\<close> on a vector with a capacity: what is refused goes through a \<open>SecretBuf\<close>, which is dropped at once;
  the memory given back is part of the result.\<close>

definition nt_from_secret :: "strtype \<Rightarrow> bytes \<Rightarrow> nat \<Rightarrow> ((ircbytes, InvalidString) result \<times> mem list) option" where
  "nt_from_secret t v cap =
     (case find_invalid t v of
        Some e \<Rightarrow> do { s \<leftarrow> sb_from_vec v cap; freed \<leftarrow> sb_drop s; Some (Inl e, freed) }
      | None \<Rightarrow> Some (Inr (bytes_from_secret v), []))"

definition nt_transform :: "(ircbytes \<Rightarrow> 'v transformation) \<Rightarrow> ircbytes \<Rightarrow> 'v \<times> ircbytes" where
  "nt_transform tf b = transform tf b"

definition nt_into_bytes :: "ircbytes \<Rightarrow> ircbytes" where
  "nt_into_bytes b = b"

definition nt_is_owning :: "ircbytes \<Rightarrow> bool" where
  "nt_is_owning b \<longleftrightarrow> is_owning b"

definition nt_is_secret :: "ircbytes \<Rightarrow> bool" where
  "nt_is_secret b \<longleftrightarrow> is_secret b"

definition nt_owning :: "ircbytes \<Rightarrow> ircbytes" where
  "nt_owning b = owning b"

definition nt_secret :: "ircbytes \<Rightarrow> ircbytes" where
  "nt_secret b = secret b"

definition nt_make_owning :: "ircbytes \<Rightarrow> ircbytes" where
  "nt_make_owning b = make_owning b"

definition nt_is_empty :: "ircbytes \<Rightarrow> bool" where
  "nt_is_empty b \<longleftrightarrow> bytes_is_empty b"

definition nt_len :: "ircbytes \<Rightarrow> nat" where
  "nt_len b = bytes_len b"

text \<open>A \<open>CString\<close> is its bytes with the final zero; building one unchecked from a vector with a zero inside, and
  reading a zero as a \<open>NonZeroU8\<close>, is undefined: \<open>None\<close>.\<close>

definition nt_into_cstring :: "ircbytes \<Rightarrow> bytes option" where
  "nt_into_cstring b = (let vec = bytes_into_vec (nt_into_bytes b) in if CHR 0x00 \<in> set vec then None else Some (vec @ [CHR 0x00]))"

definition nt_as_bytes_nonzero :: "ircbytes \<Rightarrow> bytes option" where
  "nt_as_bytes_nonzero b = (if CHR 0x00 \<in> set (b_value b) then None else Some (b_value b))"

definition newtype_is_utf8_lazy :: "ircbytes \<Rightarrow> bool" where
  "newtype_is_utf8_lazy b = (case is_utf8_lazy b of Some u \<Rightarrow> u | None \<Rightarrow> False)"

definition nt_using_value :: "bytes \<Rightarrow> bool \<Rightarrow> ircbytes \<Rightarrow> ircbytes" where
  "nt_using_value v utf8 b = using_value v (if utf8 then PolValid else PolRecheck) b"

definition bytes_eq_slice :: "ircbytes \<Rightarrow> bytes \<Rightarrow> bool" where
  "bytes_eq_slice b other \<longleftrightarrow> b_value b = other"

definition nt_eq_bytes :: "ircbytes \<Rightarrow> bytes \<Rightarrow> bool" where
  "nt_eq_bytes b other \<longleftrightarrow> bytes_eq_slice b other"

definition nt_eq_str :: "ircbytes \<Rightarrow> bytes \<Rightarrow> bool" where
  "nt_eq_str b other \<longleftrightarrow> bytes_eq_str b other"

definition nt_display :: "ircbytes \<Rightarrow> bytes" where
  "nt_display b = bytes_display b"

definition nt_try_from_slice :: "strtype \<Rightarrow> bytes \<Rightarrow> (ircbytes, InvalidString) result" where
  "nt_try_from_slice t v = nt_from_bytes t (bytes_from_slice v)"

definition nt_try_from_str :: "strtype \<Rightarrow> bytes \<Rightarrow> (ircbytes, InvalidString) result" where
  "nt_try_from_str t v = nt_from_bytes t (bytes_from_str_slice v)"

definition nt_try_from_vec :: "strtype \<Rightarrow> bytes \<Rightarrow> (ircbytes, InvalidString) result" where
  "nt_try_from_vec t v = nt_from_bytes t (bytes_from_vec v)"

definition nt_try_from_string :: "strtype \<Rightarrow> bytes \<Rightarrow> (ircbytes, InvalidString) result" where
  "nt_try_from_string t v = nt_from_bytes t (bytes_from_string v)"

text \<open>\<open>conversions!\<close>: up without a check, down with the full one.\<close>

definition nt_upcast :: "ircbytes \<Rightarrow> ircbytes" where
  "nt_upcast b = b"

definition nt_downcast :: "strtype \<Rightarrow> ircbytes \<Rightarrow> (ircbytes, InvalidString) result" where
  "nt_downcast t b = nt_from_bytes t (nt_into_bytes b)"

text \<open>\<open>maybe_empty!\<close>.\<close>

definition nt_default :: ircbytes where
  "nt_default = bytes_default"

definition nt_empty :: ircbytes where
  "nt_empty = bytes_empty"

section \<open>What the user runs (\<open>string/subtypes/impls.rs\<close>)\<close>

text \<open>The names the \<open>whoami\<close> crate reports, if its feature is enabled.\<close>

definition new_realname :: "bytes option \<Rightarrow> ircbytes option" where
  "new_realname whoami =
     (case whoami of
        Some name \<Rightarrow> (case nt_from_bytes Line (bytes_from_string name) of Inr v \<Rightarrow> Some v | Inl _ \<Rightarrow> None)
      | None \<Rightarrow> None)"

definition new_username :: "bytes option \<Rightarrow> ircbytes option" where
  "new_username whoami =
     (case whoami of
        Some name \<Rightarrow> (case nt_from_bytes User (bytes_from_string name) of Inr v \<Rightarrow> Some v | Inl _ \<Rightarrow> None)
      | None \<Rightarrow> None)"

section \<open>Order and equality\<close>

lemma code_antisym: "\<not> code a < code b \<Longrightarrow> \<not> code b < code a \<Longrightarrow> a = b"
  by (simp add: code_def)

lemma slice_cmp_eq: "slice_cmp a b = CmpEqual \<longleftrightarrow> a = b"
  by (induction a b rule: slice_cmp.induct) (auto dest: code_antisym)

lemma slice_cmp_swap: "slice_cmp a b = CmpLess \<longleftrightarrow> slice_cmp b a = CmpGreater"
  by (induction a b rule: slice_cmp.induct) auto

lemma slice_cmp_trans: "slice_cmp a b = CmpLess \<Longrightarrow> slice_cmp b c = CmpLess \<Longrightarrow> slice_cmp a c = CmpLess"
proof (induction a b arbitrary: c rule: slice_cmp.induct)
  case (2 b bs)
  then show ?case by (cases c) auto
next
  case (4 a as b bs)
  then obtain d ds where c: "c = d # ds" by (cases c) auto
  show ?case
  proof (cases "code a < code b \<or> code b < code d")
    case True
    with "4.prems" c have "code a < code d" by (simp split: if_splits)
    then show ?thesis by (simp add: c)
  next
    case False
    with "4.prems" c have "code a = code b" "code b = code d" "slice_cmp as bs = CmpLess" "slice_cmp bs ds = CmpLess"
      by (simp_all split: if_splits)
    with "4.IH" [of ds] show ?thesis by (simp add: c)
  qed
qed auto

text \<open>Order, equality and conversions look at the value only, as \<open>Borrow\<close> demands.\<close>

lemma bytes_cmp_eq: "bytes_cmp a b = CmpEqual \<longleftrightarrow> bytes_eq a b"
  by (simp add: bytes_cmp_def bytes_eq_def slice_cmp_eq)

lemma bytes_into_cow_value: "cow_ref (bytes_into_cow b) = b_value b"
  by (simp add: bytes_into_cow_def bytes_into_vec_def)

lemma bytes_from_value:
  "b_value (bytes_from_slice v) = v" "b_value (bytes_from_str_slice v) = v" "b_value (bytes_from_cow w) = cow_ref w"
  "b_value (bytes_from_str_cow w) = cow_ref w"
  by (cases w; simp add: bytes_from_slice_def bytes_from_str_slice_def bytes_defs)+

lemma to_utf8_lossy_static_value: "cow_ref (fst (to_utf8_lossy_static b)) = cow_ref (fst (to_utf8_lossy b))"
  by (simp add: to_utf8_lossy_static_def to_utf8_lossy_def split: prod.split)

section \<open>Values of the newtypes\<close>

text \<open>The byte strings that safe code can make; the value of a \<open>String\<close> or \<open>str\<close> is UTF-8.\<close>

inductive bytes_made :: "ircbytes \<Rightarrow> bool" where
  made_empty: "bytes_made bytes_empty"
| made_default: "bytes_made bytes_default"
| made_bytes: "bytes_made (bytes_from_bytes v)"
| made_str: "utf8_valid s \<Longrightarrow> bytes_made (bytes_from_str s)"
| made_secret: "bytes_made (bytes_from_secret v)"
| made_vec: "bytes_made (bytes_from_vec v)"
| made_string: "utf8_valid s \<Longrightarrow> bytes_made (bytes_from_string s)"
| made_checked: "bytes_made b \<Longrightarrow> bytes_made (snd (to_utf8 b))"
| made_lossy: "bytes_made b \<Longrightarrow> bytes_made (into_utf8_lossy b)"
| made_owning: "bytes_made b \<Longrightarrow> bytes_made (owning b)"
| made_make_owning: "bytes_made b \<Longrightarrow> bytes_made (make_owning b)"
| made_make_secret: "bytes_made b \<Longrightarrow> bytes_made (secret b)"
| made_transform: "bytes_made b \<Longrightarrow> utf8_transform tf \<Longrightarrow> bytes_made (snd (transform (tf :: ircbytes \<Rightarrow> unit transformation) b))"

lemma bytes_made_ok: "bytes_made b \<Longrightarrow> bytes_ok b"
proof (induction rule: bytes_made.induct)
  case (made_checked b)
  then show ?case by (simp add: to_utf8_snd)
next
  case (made_transform b tf)
  then show ?case by (simp add: utf8_transform.transform_ok)
qed (auto intro: wf_intros)

text \<open>Values of a newtype.  A transform is used with the marker trait of the type: it keeps the invariant.  A string is
  split off by any program over a splitter that does not check the encoding in the scope of a guard that restores one end of
  the range and not the other (\<open>guarded_check_unsound\<close>); \<open>rest\<close> gives the type that is split or one it converts to.  \<open>Cmd::from_word\<close> is
  used on words that are not empty, since it accepts the empty word.\<close>

inductive nt_made :: "strtype \<Rightarrow> ircbytes \<Rightarrow> bool" where
  nt_checked: "bytes_made b \<Longrightarrow> nt_from_bytes t b = Inr x \<Longrightarrow> nt_made t x"
| nt_literal: "utf8_valid s \<Longrightarrow> nt_from_str t s = Some x \<Longrightarrow> nt_made t x"
| nt_secret_vec: "nt_from_secret t v cap = Some (Inr x, freed) \<Longrightarrow> nt_made t x"
| nt_sub: "nt_made (super t) b \<Longrightarrow> t \<noteq> Bytes \<Longrightarrow> nt_from_super t b = Inr x \<Longrightarrow> nt_made t x"
| nt_super: "nt_made t b \<Longrightarrow> nt_made (super t) (nt_into_super b)"
| nt_down: "nt_made u b \<Longrightarrow> nt_downcast t b = Inr x \<Longrightarrow> nt_made t x"
| nt_own: "nt_made t b \<Longrightarrow> nt_made t (nt_owning b)"
| nt_make_own: "nt_made t b \<Longrightarrow> nt_made t (nt_make_owning b)"
| nt_hide: "nt_made t b \<Longrightarrow> nt_made t (nt_secret b)"
| nt_check_utf8: "nt_made t b \<Longrightarrow> nt_made t (snd (to_utf8 b))"
| nt_slice: "nt_try_from_slice t v = Inr x \<Longrightarrow> nt_made t x"
| nt_str: "utf8_valid s \<Longrightarrow> nt_try_from_str t s = Inr x \<Longrightarrow> nt_made t x"
| nt_vec: "nt_try_from_vec t v = Inr x \<Longrightarrow> nt_made t x"
| nt_string: "utf8_valid s \<Longrightarrow> nt_try_from_string t s = Inr x \<Longrightarrow> nt_made t x"
| nt_none: "t \<in> {NoNul, Line, Word} \<Longrightarrow> x \<in> {nt_default, nt_empty} \<Longrightarrow> nt_made t x"
| nt_changed: "nt_made t b \<Longrightarrow> utf8_transform tf \<Longrightarrow> (\<And>c. valid t (b_value c) \<Longrightarrow> valid t (cow_ref (transformed (tf c)))) \<Longrightarrow>
    nt_made t (snd (nt_transform (tf :: ircbytes \<Rightarrow> unit transformation) b))"
| nt_split: "nt_made t b \<Longrightarrow> splitter_run True True (sp_new (newtype_is_utf8_lazy b) (b_value b)) sp \<Longrightarrow>
    peek_string u r sp = Inr w \<Longrightarrow> nt_made u (nt_using_value w (sp_is_utf8_lazy sp) b)"
| nt_split_rest: "nt_made t b \<Longrightarrow> splitter_run True True (sp_new (newtype_is_utf8_lazy b) (b_value b)) sp \<Longrightarrow>
    peek_rest ((super ^^ n) t) sp = Inr w \<Longrightarrow> nt_made ((super ^^ n) t) (nt_using_value w (sp_is_utf8_lazy sp) b)"
| nt_built: "nt_made t b \<Longrightarrow> (builder_step t)\<^sup>*\<^sup>* (builder_new b) bl \<Longrightarrow> nt_made t (build bl)"
| nt_cmd_word: "nt_made Word b \<Longrightarrow> b_value b \<noteq> [] \<Longrightarrow> cmd_from_word (b_value b) = Inr v \<Longrightarrow>
    nt_made Cmd (snd (nt_transform (AsciiCasemap True) b))"

lemma nt_from_bytes_Inr: "nt_from_bytes t b = Inr x \<longleftrightarrow> x = b \<and> valid t (b_value b)"
  by (auto simp: nt_from_bytes_def valid_def split: option.splits)

lemma value_kept [simp]:
  "b_value (owning b) = b_value b" "b_value (make_owning b) = b_value b" "b_value (secret b) = b_value b"
  "b_value (bytes_from_secret v) = v" "b_value (bytes_from_vec v) = v" "b_value (bytes_from_string v) = v"
  "b_value (bytes_from_str v) = v"
  by (simp_all add: owning_def make_owning_def secret_def owning_force_def bytes_defs)

lemmas nt_defs = nt_from_bytes_Inr nt_into_super_def nt_into_bytes_def nt_downcast_def nt_owning_def nt_make_owning_def nt_secret_def
  nt_try_from_slice_def nt_try_from_str_def nt_try_from_vec_def nt_try_from_string_def nt_default_def nt_empty_def nt_transform_def
  bytes_from_slice_def bytes_from_str_slice_def

text \<open>What a splitter hands out keeps the flag of the string right.\<close>

lemma split_off_ok:
  assumes "bytes_ok b" and "sp_is_utf8_lazy sp \<Longrightarrow> utf8_valid w"
  shows "bytes_ok (nt_using_value w (sp_is_utf8_lazy sp) b)"
  unfolding nt_using_value_def by (rule bytes_ok_using_value [OF assms(1)]) (use assms(2) in auto)

lemma newtype_utf8: "bytes_ok b \<Longrightarrow> newtype_is_utf8_lazy b \<Longrightarrow> utf8_valid (b_value b)"
  by (auto simp: newtype_is_utf8_lazy_def dest: is_utf8_lazy_Some split: option.splits)

lemma split_run_ok:
  assumes "splitter_run True True (sp_new (newtype_is_utf8_lazy b) (b_value b)) sp" and "bytes_ok b"
  shows "enc_ok sp" and "set (as_slice sp) \<subseteq> set (b_value b)"
proof -
  show "enc_ok sp" using run_encoding [OF assms(1) sp_new_wf] newtype_utf8 [OF assms(2)] enc_ok_new by blast
  have "sp_str sp = b_value b" using run_inside [OF assms(1) sp_new_wf] by (simp add: inside_def sp_new_def)
  then show "set (as_slice sp) \<subseteq> set (b_value b)"
    by (auto simp: as_slice_def constrain_def dest: in_set_takeD in_set_dropD)
qed

lemma is_invalid_supers: "is_invalid ((super ^^ n) t) c \<Longrightarrow> is_invalid t c"
  by (induction n) (auto dest: is_invalid_super)

lemma nt_made_ok: "nt_made t b \<Longrightarrow> bytes_ok b \<and> valid t (b_value b)"
proof (induction rule: nt_made.induct)
  case (nt_checked b t x)
  then show ?case by (auto simp: nt_defs bytes_made_ok)
next
  case (nt_literal s t x)
  then show ?case by (auto simp: nt_from_str_def valid_def bytes_ok_new split: if_splits)
next
  case (nt_secret_vec t v cap x freed)
  then show ?case by (auto simp: nt_from_secret_def valid_def bytes_ok_new split: option.splits bind_splits)
next
  case (nt_sub t b x)
  then have "x = b" "super_check t (b_value b) = None" by (auto simp: nt_from_super_def split: option.splits)
  with nt_sub super_check_eq [of t "b_value b"] show ?case by (simp add: valid_def)
next
  case (nt_super t b)
  then show ?case by (simp add: nt_defs valid_super)
next
  case (nt_check_utf8 t b)
  then show ?case by (simp add: to_utf8_snd)
next
  case (nt_none t x)
  then have "valid t []" by (auto simp: valid_iff)
  with nt_none show ?case by (auto simp: nt_defs bytes_ok_new bytes_empty_def bytes_default_def) (simp_all add: bytes_ok_def)
next
  case (nt_changed t b tf)
  then show ?case
    by (simp add: nt_defs utf8_transform.transform_ok utf8_transform.transform_value)
next
  case (nt_split t b sp u r w)
  then have "valid u w" using slice_string_valid by (simp add: peek_string_slice)
  moreover have "sp_is_utf8_lazy sp \<Longrightarrow> utf8_valid w" using split_run_ok(1) nt_split by (auto intro: peek_string_utf8)
  ultimately show ?case using nt_split split_off_ok by (simp add: nt_using_value_def using_value_def)
next
  case (nt_split_rest t b sp n w)
  have "valid ((super ^^ n) t) w"
    using nt_split_rest split_run_ok(2) [of b sp] is_invalid_supers [of n t]
    by (auto simp: peek_rest_Inr valid_iff [of t] valid_iff [of "(super ^^ n) t"])
  moreover have "sp_is_utf8_lazy sp \<Longrightarrow> utf8_valid w" using split_run_ok(1) nt_split_rest by (auto intro: peek_rest_utf8)
  ultimately show ?case using nt_split_rest split_off_ok by (simp add: nt_using_value_def using_value_def)
next
  case (nt_built t b bl)
  then show ?case using builder_builds_valid by blast
next
  case (nt_cmd_word b v)
  then have "v = b_value (snd (nt_transform (AsciiCasemap True) b))"
    by (auto simp: cmd_from_word_Inr nt_defs ascii_casemap.transform_value AsciiCasemap_def map_bytes_out)
  with nt_cmd_word cmd_from_word_valid [of "b_value b" v] show ?case by (auto simp: nt_defs ascii_casemap.transform_ok)
qed (auto simp: nt_defs intro: wf_intros)

lemma valid_nonul: "valid t v \<Longrightarrow> t \<noteq> Bytes \<Longrightarrow> CHR 0x00 \<notin> set v"
  by (cases t) (auto simp: valid_iff invalid_defs dest: uppercase_not_special)

section \<open>Properties\<close>

text \<open>C18: the string newtypes keep their promise.  A value of a newtype that was made with the safe functions of the crate has
  bytes that satisfy the rules of the type and a cached UTF-8 flag that is right, it converts to the next more general
  type, and the unchecked conversions to a C string and to nonzero bytes are sound.  The functions are those of \<open>nt_made\<close>:
  checked and literal construction, conversion between types after a check of the supertype, owning, secret and
  transformed values, builders, splitters and \<open>Cmd::from_word\<close>.  Two uses are left out that break the rules: \<open>Cmd::from_word\<close> of
  the empty word, and splitters whose encoding is checked under a guard that restores one end of the range only.\<close>

theorem newtypes_keep_promise:
  assumes "nt_made t b" and "t \<noteq> Bytes"
  shows "valid t (b_value b) \<and> bytes_ok b \<and> valid (super t) (b_value (nt_into_super b)) \<and>
    nt_into_cstring b = Some (b_value b @ [CHR 0x00]) \<and> nt_as_bytes_nonzero b = Some (b_value b) \<and>
    (newtype_is_utf8_lazy b \<longrightarrow> utf8_valid (b_value b))"
proof -
  from nt_made_ok [OF assms(1)] have ok: "bytes_ok b" "valid t (b_value b)" by auto
  with valid_nonul [OF ok(2) assms(2)] show ?thesis
    by (auto simp: nt_into_cstring_def nt_as_bytes_nonzero_def nt_into_bytes_def bytes_into_vec_def nt_into_super_def
        newtype_is_utf8_lazy_def valid_super dest: is_utf8_lazy_Some split: option.splits)
qed

theorem newtypes_keep_promise_witness:
  "valid Nick (b_value (nt_secret (bytes_from_string ''zombie''))) \<and>
   nt_into_cstring (nt_secret (bytes_from_string ''zombie'')) = Some (''zombie'' @ [CHR 0x00])"
proof -
  have u: "utf8_valid ''zombie''" by code_simp
  have "nt_try_from_string Nick ''zombie'' = Inr (bytes_from_string ''zombie'')" by code_simp
  then have "nt_made Nick (nt_secret (bytes_from_string ''zombie''))" by (intro nt_hide nt_string [OF u])
  from newtypes_keep_promise [OF this] show ?thesis by (simp add: nt_secret_def)
qed

text \<open>A secret that is refused is never given back in the clear: it is dropped through a secret buffer.  The buffer is made in the way that
  overflows, so refusing a vector that is not empty is undefined.\<close>

lemma from_secret_refuses: "find_invalid t v \<noteq> None \<Longrightarrow> v \<noteq> [] \<Longrightarrow> nt_from_secret t v cap = None"
  by (auto simp: nt_from_secret_def from_vec_overflows split: option.splits)

end
