(* ===== verification/Names.thy ===== *)
theory Names
  imports Codec
begin

text \<open>
  Well-known names and their values: the map of \<open>names/types.rs\<close>, the message parsers of
  \<open>names/cmd.rs\<close> and the capability values of \<open>names/cap.rs\<close>.  A name class is given by the function
  that reads the tag of its union type, as the bytes it is compared by; the classes of \<open>names.rs\<close>
  are \<open>client_tag\<close>, \<open>server_tag\<close> and, for the three classes of pairs, \<open>fst\<close>.
\<close>

section \<open>Name classes (\<open>names.rs\<close>)\<close>

definition STAR :: bytes where
  "STAR = ''*''"

definition PLUS :: bytes where
  "PLUS = ''+''"

definition client_tag :: "client_msg \<Rightarrow> bytes" where
  "client_tag m = cm_cmd m"

definition server_tag :: "server_msg \<Rightarrow> bytes" where
  "server_tag m = kind_borrow (sm_kind m)"

section \<open>Name maps\<close>

type_synonym ('u, 'v) name_map = "('u \<times> 'v) list"

definition extract_key :: "('u \<Rightarrow> bytes) \<Rightarrow> 'u \<times> 'v \<Rightarrow> bytes" where
  "extract_key tag elem = tag (fst elem)"

definition nm_new :: "('u, 'v) name_map" where
  "nm_new = fm_new"

definition get_union :: "('u \<Rightarrow> bytes) \<Rightarrow> bytes \<Rightarrow> ('u, 'v) name_map \<Rightarrow> 'u option" where
  "get_union tag k m = map_option fst (fm_get (extract_key tag) m k)"

definition get_extra :: "('u \<Rightarrow> bytes) \<Rightarrow> bytes \<Rightarrow> ('u, 'v) name_map \<Rightarrow> 'v option" where
  "get_extra tag k m = map_option snd (fm_get (extract_key tag) m k)"

text \<open>A name with a value comes with its parser.\<close>

definition get_parsed ::
  "('u \<Rightarrow> bytes) \<Rightarrow> bytes \<Rightarrow> ('u \<Rightarrow> ('t, ParseError) result) \<Rightarrow> ('u, 'v) name_map \<Rightarrow>
   ('t, ParseError) result option" where
  "get_parsed tag k from_union m = map_option (\<lambda>(u, _). from_union u) (fm_get (extract_key tag) m k)"

definition get_both ::
  "('u \<Rightarrow> bytes) \<Rightarrow> bytes \<Rightarrow> ('u \<Rightarrow> ('t, ParseError) result) \<Rightarrow> ('u, 'v) name_map \<Rightarrow>
   (('t, ParseError) result \<times> 'v) option" where
  "get_both tag k from_union m = map_option (\<lambda>(u, x). (from_union u, x)) (fm_get (extract_key tag) m k)"

text \<open>Writing through \<open>get_extra_mut\<close>.\<close>

definition update_extra ::
  "('u \<Rightarrow> bytes) \<Rightarrow> bytes \<Rightarrow> ('v \<Rightarrow> 'v) \<Rightarrow> ('u, 'v) name_map \<Rightarrow> ('u, 'v) name_map" where
  "update_extra tag k f m =
     (case get_impl (extract_key tag) m (length m) k of
        None \<Rightarrow> m
      | Some i \<Rightarrow> m[i := (fst (m ! i), f (snd (m ! i)))])"

definition nm_clear :: "('u, 'v) name_map \<Rightarrow> ('u, 'v) name_map" where
  "nm_clear m = []"

definition nm_keys :: "('u \<Rightarrow> bytes) \<Rightarrow> ('u, 'v) name_map \<Rightarrow> bytes list" where
  "nm_keys tag m = map (\<lambda>e. tag (fst e)) m"

definition nm_edit :: "('u, 'v) name_map \<Rightarrow> ('u \<times> 'v) guard" where
  "nm_edit m = fm_edit m"

definition nm_insert ::
  "('u \<Rightarrow> bytes) \<Rightarrow> 'u \<Rightarrow> 'v \<Rightarrow> ('u \<times> 'v) guard \<Rightarrow> ('u \<times> 'v) option \<times> ('u \<times> 'v) guard" where
  "nm_insert tag elem extra g = guard_insert (extract_key tag) (elem, extra) g"

definition insert_or_update ::
  "('u \<Rightarrow> bytes) \<Rightarrow> 'u \<Rightarrow> 'v \<Rightarrow> ('u \<times> 'v) guard \<Rightarrow> 'u option \<times> ('u \<times> 'v) guard" where
  "insert_or_update tag elem extra g =
     (case guard_get_or_insert (extract_key tag) (elem, extra) g of
        ((eref, Some (elem', extra')), g') \<Rightarrow>
          (Some elem', g'\<lparr>g_buf := (g_buf g')[eref := (fst (g_buf g' ! eref), extra')]\<rparr>)
      | ((_, None), g') \<Rightarrow> (None, g'))"

definition nm_try_insert ::
  "('u \<Rightarrow> bytes) \<Rightarrow> 'u \<Rightarrow> 'v \<Rightarrow> ('u \<times> 'v) guard \<Rightarrow> ('u \<times> 'v) option \<times> ('u \<times> 'v) guard" where
  "nm_try_insert tag elem extra g = guard_try_insert (extract_key tag) (elem, extra) g"

definition remove_raw ::
  "('u \<Rightarrow> bytes) \<Rightarrow> bytes \<Rightarrow> ('u \<times> 'v) guard \<Rightarrow> (('u \<times> 'v) option \<times> ('u \<times> 'v) guard) option" where
  "remove_raw tag k g = guard_remove (extract_key tag) k g"

section \<open>Values of messages (\<open>names/cmd.rs\<close>)\<close>

text \<open>The macro \<open>basic_unary!\<close> with a target argument, and with the constant target \<open>STAR\<close>.\<close>

definition basic_unary_args :: "bool \<Rightarrow> string \<Rightarrow> args \<Rightarrow> (bytes \<times> bytes, ParseError) result" where
  "basic_unary_args targeted name args =
     (case split_last args of
        ([target], Some value) \<Rightarrow>
          if targeted then Inr (target, value) else Inl (InvalidField (name @ '' args'') ''invalid arguments'')
      | ([], Some value) \<Rightarrow>
          if targeted then Inl (InvalidField (name @ '' args'') ''invalid arguments'') else Inr (STAR, value)
      | _ \<Rightarrow> Inl (InvalidField (name @ '' args'') ''invalid arguments''))"

definition basic_unary_server ::
  "bool \<Rightarrow> string \<Rightarrow> server_msg \<Rightarrow> (bytes targeted_msg, ParseError) result" where
  "basic_unary_server targeted name m =
     bind_res (basic_unary_args targeted name (sm_args m)) (\<lambda>(target, value).
       Inr \<lparr>tm_tags = sm_tags m, tm_source = sm_source m, tm_target = target, tm_value = value\<rparr>)"

definition basic_unary_client ::
  "bool \<Rightarrow> string \<Rightarrow> client_msg \<Rightarrow> (bytes targeted_msg, ParseError) result" where
  "basic_unary_client targeted name m =
     bind_res (basic_unary_args targeted name (cm_args m)) (\<lambda>(target, value).
       Inr \<lparr>tm_tags = cm_tags m, tm_source = None, tm_target = target, tm_value = value\<rparr>)"

text \<open>The commands the macro is used for, and whether they have a target.\<close>

definition basic_unary_cmds :: "(bytes \<times> bool) list" where
  "basic_unary_cmds =
     [(''NOTICE'', True), (''PART'', True), (''PRIVMSG'', True), (''QUIT'', False), (''TOPIC'', True),
      (''WALLOPS'', False)]"

definition join_from_union :: "server_msg \<Rightarrow> (unit targeted_msg, ParseError) result" where
  "join_from_union m =
     (case args_all (sm_args m) of
        Some [target] \<Rightarrow>
          Inr \<lparr>tm_tags = sm_tags m, tm_source = sm_source m, tm_target = target, tm_value = ()\<rparr>
      | _ \<Rightarrow> Inl (InvalidField ''$name args'' ''invalid arguments''))"

section \<open>Values of capabilities (\<open>names/cap.rs\<close>)\<close>

text \<open>One mechanism of a comma-separated value, cut off under a guard.\<close>

definition sasl_name :: "splitter \<Rightarrow> bytes \<times> splitter" where
  "sasl_name sp = save_end (\<lambda>s. rest_or_default Word (until_byte_eq (CHR '','') s)) sp"

lemma sasl_name_eq:
  assumes "wf_splitter sp"
  shows "fst (sasl_name sp) = takeWhile (\<lambda>c. c \<noteq> CHR '','') (as_slice sp)"
    and "as_slice (snd (sasl_name sp)) = dropWhile (\<lambda>c. c \<noteq> CHR '','') (as_slice sp)"
    and "wf_splitter (snd (sasl_name sp))"
  using save_end_rest_or_default [OF assms truncates_until_byte_eq [of "CHR '',''"], of Word]
  by (simp_all add: sasl_name_def slice_simps slice_rest_def drop_length_takeWhile)

text \<open>The mechanisms of the \<open>sasl\<close> capability; the \<open>BTreeSet\<close> is a set.  The recursion is on the
  splitter; a splitter is always well formed, and the first disjunct only makes the function total.\<close>

function sasl_loop :: "splitter \<Rightarrow> bytes set \<Rightarrow> bytes set" where
  "sasl_loop sp names =
     (if \<not> wf_splitter sp \<or> sp_is_empty sp then names
      else
        (let (name, sp1) = sasl_name sp;
             names' =
               (if name \<noteq> [] then
                  insert (b_value (snd (transform (AsciiCasemap True) (bytes_from_bytes name)))) names
                else names);
             (_, sp2) = next_byte sp1
         in sasl_loop sp2 names'))"
  by pat_completeness auto
termination
proof (relation "measure (\<lambda>(sp, _). length (as_slice sp))", simp)
  fix sp names name' x y names' a b c
  assume "\<not> (\<not> wf_splitter sp \<or> sp_is_empty sp)" and x: "x = sasl_name sp" "(name', y) = x"
    and "a = next_byte y" "(b, c) = a"
  then have "as_slice sp \<noteq> []" "as_slice c = tl (dropWhile (\<lambda>c. c \<noteq> CHR '','') (as_slice sp))"
    using sasl_name_eq(2) [of sp] next_byte_slice [of y] by (auto simp: sp_is_empty_iff) (metis snd_conv)+
  moreover from this have "length (dropWhile (\<lambda>c. c \<noteq> CHR '','') (as_slice sp)) \<le> length (as_slice sp)"
    by (simp add: length_dropWhile_le)
  ultimately show "((c, names'), sp, names) \<in> measure (\<lambda>(sp, _). length (as_slice sp))"
    by (cases "as_slice sp") (auto intro: le_less_trans)
qed

declare sasl_loop.simps [simp del]

definition sasl_from_union :: "bytes \<times> bytes \<Rightarrow> (bytes set, ParseError) result" where
  "sasl_from_union u = Inr (sasl_loop (sp_new False (snd u)) {})"

end
