(* ===== verification/Base64.thy ===== *)
theory Base64
  imports Names
begin

text \<open>
  Chunked Base64 as used by \<open>AUTHENTICATE\<close>: \<open>string/base64.rs\<close>, and the encoders of \<open>string/bytes.rs\<close>.
  The codec itself is the crate \<open>base64\<close>: \<open>encode\<close> and \<open>decode\<close> are parameters, and \<open>engine_ok\<close> states
  what its standard engine documents: decoding undoes encoding, the output is padded to groups of
  four characters of the Base64 alphabet.
\<close>

section \<open>Encoding a string (\<open>string/bytes.rs\<close>)\<close>

definition to_base64_impl :: "(bytes \<Rightarrow> bytes) \<Rightarrow> ircbytes \<Rightarrow> ircbytes" where
  "to_base64_impl encode b =
     (let (own, val) = owned_from_vec (encode (b_value b))
      in \<lparr>b_value = val, ownership = own, b_utf8 = 1, b_secret = b_secret b\<rparr>)"

definition to_base64 :: "(bytes \<Rightarrow> bytes) \<Rightarrow> ircbytes \<Rightarrow> ircbytes" where
  "to_base64 encode b = to_base64_impl encode b"

definition to_base64_plus :: "(bytes \<Rightarrow> bytes) \<Rightarrow> ircbytes \<Rightarrow> ircbytes" where
  "to_base64_plus encode b = (if b_value b = [] then bytes_from_str PLUS else to_base64_impl encode b)"

section \<open>The chunk encoder\<close>

text \<open>The splitter with the secrecy of its string, or the secrecy of the final \<open>+\<close>.\<close>

record chunk_encoder =
  ce_splitter :: "(splitter \<times> bool, bool) result"
  ce_max :: nat

definition ce_empty :: chunk_encoder where
  "ce_empty = \<lparr>ce_splitter = Inl False, ce_max = 0\<rparr>"

definition ce_new :: "(bytes \<Rightarrow> bytes) \<Rightarrow> bytes \<Rightarrow> nat \<Rightarrow> bool \<Rightarrow> chunk_encoder" where
  "ce_new encode bs mx sec =
     (if mx = 0 then ce_empty
      else
        (let encoded = encode bs;
             sp = (if encoded \<noteq> [] then Inr (sp_new True encoded, sec) else Inl sec)
         in \<lparr>ce_splitter = sp, ce_max = mx\<rparr>))"

definition ce_is_empty :: "chunk_encoder \<Rightarrow> bool" where
  "ce_is_empty e \<longleftrightarrow> ce_max e = 0"

text \<open>A yielded argument with its secrecy; the outer \<open>None\<close> is the panic of the unwrap.\<close>

definition ce_next :: "chunk_encoder \<Rightarrow> ((bytes \<times> bool) option \<times> chunk_encoder) option" where
  "ce_next e =
     (if ce_max e = 0 then Some (None, e)
      else
        (case ce_splitter e of
           Inr (sp, sec) \<Rightarrow>
             (let (r, sp') = save_end (\<lambda>x. sp_rest Arg (until_count (ce_max e) x)) sp in
              case r of
                Inl _ \<Rightarrow> None
              | Inr chunk \<Rightarrow>
                  Some (Some (chunk, sec),
                    if length chunk < ce_max e then ce_empty
                    else if sp_is_empty sp' then e\<lparr>ce_splitter := Inl sec\<rparr>
                    else e\<lparr>ce_splitter := Inr (sp', sec)\<rparr>))
         | Inl sec \<Rightarrow> Some (Some (PLUS, sec), ce_empty)))"

definition ce_len :: "chunk_encoder \<Rightarrow> nat" where
  "ce_len e =
     (if ce_max e = 0 then 0
      else (case ce_splitter e of Inr (sp, _) \<Rightarrow> sp_len sp div ce_max e + 1 | Inl _ \<Rightarrow> 1))"

section \<open>The chunk decoder\<close>

record chunk_decoder =
  cd_buf :: bytes
  cd_len :: nat

definition cd_new :: "nat \<Rightarrow> chunk_decoder" where
  "cd_new n = \<lparr>cd_buf = [], cd_len = n\<rparr>"

definition cd_decode :: "(bytes \<Rightarrow> (bytes, 'e) result) \<Rightarrow> chunk_decoder \<Rightarrow> (bytes, 'e) result \<times> chunk_decoder" where
  "cd_decode decode d = (decode (cd_buf d), d\<lparr>cd_buf := []\<rparr>)"

definition cd_add ::
  "(bytes \<Rightarrow> (bytes, 'e) result) \<Rightarrow> bytes \<Rightarrow> chunk_decoder \<Rightarrow> (bytes, 'e) result option \<times> chunk_decoder" where
  "cd_add decode chunk d =
     (if length chunk < cd_len d then
        (let d1 = (if chunk \<noteq> ''+'' then d\<lparr>cd_buf := cd_buf d @ chunk\<rparr> else d); (r, d2) = cd_decode decode d1
         in (Some r, d2))
      else (None, d\<lparr>cd_buf := cd_buf d @ chunk\<rparr>))"

section \<open>Hypotheses on the engine\<close>

definition base64_byte :: "byte \<Rightarrow> bool" where
  "base64_byte c \<longleftrightarrow> is_ascii_uppercase c \<or> is_ascii_lowercase c \<or> is_ascii_digit c \<or> c \<in> {CHR ''+'', CHR ''/'', CHR ''=''}"

definition engine_ok :: "(bytes \<Rightarrow> bytes) \<Rightarrow> (bytes \<Rightarrow> (bytes, 'e) result) \<Rightarrow> bool" where
  "engine_ok encode decode \<longleftrightarrow>
     (\<forall>b. decode (encode b) = Inr b \<and> 4 dvd length (encode b) \<and> (\<forall>c \<in> set (encode b). base64_byte c))"

section \<open>The chunks of a text\<close>

function chunks :: "nat \<Rightarrow> bytes \<Rightarrow> bytes list" where
  "chunks n s = (if n = 0 \<or> length s < n then [if s = [] then ''+'' else s] else take n s # chunks n (drop n s))"
  by pat_completeness auto
termination by (relation "measure (\<lambda>(n, s). length s)") auto

declare chunks.simps [simp del]

text \<open>Taking chunks until there is none, with the number of them as fuel.\<close>

fun ce_collect :: "nat \<Rightarrow> chunk_encoder \<Rightarrow> (bytes \<times> bool) list option" where
  "ce_collect 0 e = (if ce_max e = 0 then Some [] else None)"
| "ce_collect (Suc n) e =
     (case ce_next e of
        None \<Rightarrow> None
      | Some (None, _) \<Rightarrow> Some []
      | Some (Some c, e') \<Rightarrow> map_option (Cons c) (ce_collect n e'))"

lemma base64_byte_arg:
  assumes "base64_byte c"
  shows "\<not> is_invalid Arg c" and "c \<noteq> CHR '':''"
proof -
  have "code c \<in> {43, 47, 61} \<or> 65 \<le> code c \<and> code c \<le> 90 \<or> 97 \<le> code c \<and> code c \<le> 122 \<or> 48 \<le> code c \<and> code c \<le> 57"
    using assms by (auto simp: base64_byte_def is_ascii_uppercase_def is_ascii_lowercase_def is_ascii_digit_def)
  then show "\<not> is_invalid Arg c" and "c \<noteq> CHR '':''" by (auto simp: invalid_defs)
qed

lemma base64_valid:
  assumes "s \<noteq> []" and "\<forall>c \<in> set s. base64_byte c"
  shows "valid Arg s" and "check_others Arg s = None"
proof -
  show v: "valid Arg s" using assms base64_byte_arg by (auto simp: valid_iff arg_first_check_None)
  then show "check_others Arg s = None" by (simp add: valid_iff)
qed

definition ce_rep :: "chunk_encoder \<Rightarrow> nat \<Rightarrow> bytes \<Rightarrow> bool \<Rightarrow> bool" where
  "ce_rep e n s sec \<longleftrightarrow> ce_max e = n \<and> 0 < n \<and>
     (if s = [] then ce_splitter e = Inl sec
      else \<exists>sp. ce_splitter e = Inr (sp, sec) \<and> wf_splitter sp \<and> as_slice sp = s)"

lemma ce_next_Nil: "ce_rep e n [] sec \<Longrightarrow> ce_next e = Some (Some (''+'', sec), ce_empty)"
  by (simp add: ce_rep_def ce_next_def PLUS_def)

lemma ce_next_Cons:
  assumes e: "ce_rep e n s sec" and s: "s \<noteq> []" "\<forall>c \<in> set s. base64_byte c"
  shows "\<exists>e'. ce_next e = Some (Some (take n s, sec), e') \<and> (if length s < n then e' = ce_empty else ce_rep e' n (drop n s) sec)"
proof -
  obtain sp where sp: "ce_splitter e = Inr (sp, sec)" "wf_splitter sp" "as_slice sp = s" and n: "ce_max e = n" "0 < n"
    using e s(1) by (auto simp: ce_rep_def)
  let ?r = "save_end (\<lambda>x. sp_rest Arg (until_count n x)) sp"
  note r = save_end_rest [OF sp(2) truncates_until_count [of n], of Arg, unfolded until_count_slice [OF sp(2)] sp(3)]
  have "take n s \<noteq> []" "\<forall>c \<in> set (take n s). base64_byte c" using s n(2) by (auto dest: in_set_takeD)
  then have "slice_rest Arg (take n s) = Inr (take n s)" using base64_valid(2) by (simp add: slice_rest_def)
  with r obtain sp' where sp': "?r = (Inr (take n s), sp')" "as_slice sp' = drop n s" "wf_splitter sp'"
    by (cases ?r) (auto simp: min_def)
  have lt: "length (take n s) < n \<longleftrightarrow> length s < n" by auto
  show ?thesis
  proof (cases "length s < n")
    case True
    then show ?thesis using sp sp' n lt by (simp add: ce_next_def)
  next
    case False
    then show ?thesis using sp sp' n lt by (auto simp: ce_next_def ce_rep_def sp_is_empty_iff)
  qed
qed

lemma ce_collect_chunks:
  "ce_rep e n s sec \<Longrightarrow> \<forall>c \<in> set s. base64_byte c \<Longrightarrow>
   ce_collect (length s div n + 1) e = Some (map (\<lambda>c. (c, sec)) (chunks n s))"
proof (induction n s arbitrary: e rule: chunks.induct)
  case (1 n s)
  then have n: "0 < n" by (simp add: ce_rep_def)
  consider (Nil) "s = []" | (last) "s \<noteq> []" "length s < n" | (more) "s \<noteq> []" "n \<le> length s" by force
  then show ?case
  proof cases
    case Nil
    with ce_next_Nil [of e n sec] 1(2) n show ?thesis by (simp add: chunks.simps [of n] ce_empty_def)
  next
    case last
    with ce_next_Cons [OF 1(2) last(1) 1(3)] n show ?thesis by (simp add: chunks.simps [of n] ce_empty_def)
  next
    case more
    then obtain e' where e': "ce_next e = Some (Some (take n s, sec), e')" "ce_rep e' n (drop n s) sec"
      using ce_next_Cons [OF 1(2) more(1) 1(3)] by auto
    have "length s div n = Suc (length (drop n s) div n)" using more n by (simp add: le_div_geq)
    moreover have "ce_collect (length (drop n s) div n + 1) e' = Some (map (\<lambda>c. (c, sec)) (chunks n (drop n s)))"
      using 1(1) [OF _ e'(2)] more n 1(3) by (auto dest: in_set_dropD)
    ultimately show ?thesis using e'(1) more n by (simp add: chunks.simps [of n s])
  qed
qed

lemma ce_new_rep: "0 < n \<Longrightarrow> ce_rep (ce_new encode b n sec) n (encode b) sec"
  by (simp add: ce_rep_def ce_new_def Let_def sp_new_wf sp_new_slice)

lemma ce_len_new: "0 < n \<Longrightarrow> ce_len (ce_new encode b n sec) = length (encode b) div n + 1"
  by (simp add: ce_len_def ce_new_def Let_def sp_len_eq sp_new_wf sp_new_slice)

section \<open>Decoding the chunks\<close>

fun cd_feed :: "(bytes \<Rightarrow> (bytes, 'e) result) \<Rightarrow> bytes list \<Rightarrow> chunk_decoder \<Rightarrow> (bytes, 'e) result option list \<times> chunk_decoder" where
  "cd_feed decode [] d = ([], d)"
| "cd_feed decode (c # cs) d = (let (r, d1) = cd_add decode c d; (rs, d2) = cd_feed decode cs d1 in (r # rs, d2))"

lemma cd_feed_chunks:
  assumes "4 dvd n" and "0 < n" and "4 dvd length s"
  shows "cd_feed decode (chunks n s) \<lparr>cd_buf = buf, cd_len = n\<rparr> =
    (replicate (length s div n) None @ [Some (decode (buf @ s))], \<lparr>cd_buf = [], cd_len = n\<rparr>)"
  using assms
proof (induction n s arbitrary: buf rule: chunks.induct)
  case (1 n s)
  show ?case
  proof (cases "length s < n")
    case True
    have "s \<noteq> ''+''" using 1(4) by auto
    moreover have "1 < n" using 1(2,3) by (auto elim!: dvdE)
    ultimately show ?thesis using True 1(3) by (auto simp: chunks.simps [of n s] cd_add_def cd_decode_def)
  next
    case False
    have "4 dvd length (drop n s)" using 1(2,4) False by (simp add: dvd_diff_nat)
    with 1 False have IH: "cd_feed decode (chunks n (drop n s)) \<lparr>cd_buf = buf @ take n s, cd_len = n\<rparr> =
      (replicate (length (drop n s) div n) None @ [Some (decode ((buf @ take n s) @ drop n s))], \<lparr>cd_buf = [], cd_len = n\<rparr>)"
      by simp
    have "length s div n = Suc (length (drop n s) div n)" using False 1(3) by (simp add: le_div_geq)
    with False IH 1(3) show ?thesis by (simp add: chunks.simps [of n s] cd_add_def)
  qed
qed

lemma chunks_length: "0 < n \<Longrightarrow> length (chunks n s) = length s div n + 1"
proof (induction n s rule: chunks.induct)
  case (1 n s)
  then show ?case by (cases "length s < n") (simp_all add: chunks.simps [of n s] le_div_geq)
qed

lemma chunks_valid:
  "0 < n \<Longrightarrow> \<forall>c \<in> set s. base64_byte c \<Longrightarrow> c \<in> set (chunks n s) \<Longrightarrow> valid Arg c \<and> length c \<le> n"
proof (induction n s rule: chunks.induct)
  case (1 n s)
  show ?case
  proof (cases "length s < n")
    case True
    moreover have "valid Arg ''+''" by (simp add: valid_iff invalid_defs arg_first_check_def)
    ultimately show ?thesis using 1 base64_valid(1) [of s] by (auto simp: chunks.simps [of n s] split: if_splits)
  next
    case False
    have t: "\<forall>c \<in> set (take n s). base64_byte c" "\<forall>c \<in> set (drop n s). base64_byte c"
      using 1(3) by (auto dest: in_set_takeD in_set_dropD)
    have "take n s \<noteq> []" using False 1(2) by auto
    then have f: "valid Arg (take n s)" using t(1) by (rule base64_valid)
    have "c = take n s \<or> c \<in> set (chunks n (drop n s))"
      using 1(4) False 1(2) by (subst (asm) chunks.simps) simp
    with f 1(1) [OF _ 1(2) t(2)] False 1(2) show ?thesis by auto
  qed
qed

section \<open>Properties\<close>

text \<open>C40: for a maximum that is a positive multiple of four, as the 400 of SASL is, and an engine that decodes
  what it encodes to multiples of four letters of the base64 alphabet, the chunks of the encoder are
  arguments no longer than the maximum, as many as it announces, all as secret as asked for; a decoder
  with the same chunk length waits for the last of them and then returns the encoded bytes, ready for the
  next message.\<close>

theorem chunk_roundtrip:
  assumes "engine_ok encode decode" and "0 < n" and "4 dvd n"
  shows "\<exists>cs. ce_collect (ce_len (ce_new encode b n sec)) (ce_new encode b n sec) = Some (map (\<lambda>c. (c, sec)) cs) \<and>
    length cs = ce_len (ce_new encode b n sec) \<and> (\<forall>c \<in> set cs. valid Arg c \<and> length c \<le> n) \<and>
    cd_feed decode cs (cd_new n) = (replicate (length cs - 1) None @ [Some (Inr b)], cd_new n)"
proof -
  have e: "decode (encode b) = Inr b" "4 dvd length (encode b)" "\<forall>c \<in> set (encode b). base64_byte c"
    using assms(1) by (auto simp: engine_ok_def)
  note f = cd_feed_chunks [OF assms(3,2) e(2), of decode "[]"]
  from chunks_length [OF assms(2), of "encode b"] f e ce_collect_chunks [OF ce_new_rep [OF assms(2), of encode b sec] e(3)]
    chunks_valid [OF assms(2) e(3)]
  show ?thesis by (intro exI [of _ "chunks n (encode b)"]) (simp add: ce_len_new [OF assms(2)] cd_new_def)
qed

text \<open>An engine that satisfies the hypotheses: four characters for every byte.\<close>

fun quad_encode :: "bytes \<Rightarrow> bytes" where
  "quad_encode [] = []"
| "quad_encode (c # cs) = char_of (65 + code c div 16) # char_of (65 + code c mod 16) # CHR ''A'' # CHR ''A'' # quad_encode cs"

fun quad_decode :: "bytes \<Rightarrow> (bytes, unit) result" where
  "quad_decode [] = Inr []"
| "quad_decode (a # b # _ # _ # r) = bind_res (quad_decode r) (\<lambda>cs. Inr (char_of ((code a - 65) * 16 + (code b - 65)) # cs))"
| "quad_decode _ = Inl ()"

lemma quad_engine: "engine_ok quad_encode quad_decode"
  unfolding engine_ok_def
proof
  fix b
  have d: "code c div 16 < 16" for c :: char by (simp add: less_mult_imp_div_less)
  have d2: "code c mod 16 \<le> 25" for c :: char using mod_less_divisor [of 16 "code c"] by linarith
  have m: "code c div 16 * 16 + code c mod 16 = code c" for c :: char by simp
  have "quad_decode (quad_encode b) = Inr b"
  proof (induction b)
    case (Cons c b)
    have "(65 + code c div 16) mod 256 - 65 = code c div 16" using d [of c] by simp
    moreover have "(65 + code c mod 16) mod 256 - 65 = code c mod 16" by simp
    ultimately show ?case using Cons by (simp add: code_char_of_mod m)
  qed simp
  moreover have "length (quad_encode b) = 4 * length b" by (induction b) simp_all
  then have "4 dvd length (quad_encode b)" by simp
  moreover have "\<forall>c \<in> set (quad_encode b). base64_byte c"
  proof (induction b)
    case (Cons c b)
    have "base64_byte (char_of (65 + code c div 16))" "base64_byte (char_of (65 + code c mod 16))"
      using d [of c] d2 [of c] by (simp_all add: base64_byte_def is_ascii_uppercase_def code_char_of_mod)
    with Cons show ?case by (simp add: base64_byte_def is_ascii_uppercase_def)
  qed simp
  ultimately show "quad_decode (quad_encode b) = Inr b \<and> 4 dvd length (quad_encode b) \<and> (\<forall>c \<in> set (quad_encode b). base64_byte c)"
    by blast
qed

theorem chunk_roundtrip_witness:
  "\<exists>cs. ce_collect (ce_len (ce_new quad_encode ''zombie'' 8 True)) (ce_new quad_encode ''zombie'' 8 True) = Some (map (\<lambda>c. (c, True)) cs) \<and>
    length cs = 4 \<and> cd_feed quad_decode cs (cd_new 8) = ([None, None, None, Some (Inr ''zombie'')], cd_new 8)"
proof -
  have l: "ce_len (ce_new quad_encode ''zombie'' 8 True) = 4" by (simp add: ce_len_new)
  obtain cs where "ce_collect (ce_len (ce_new quad_encode ''zombie'' 8 True)) (ce_new quad_encode ''zombie'' 8 True) = Some (map (\<lambda>c. (c, True)) cs)"
    "length cs = ce_len (ce_new quad_encode ''zombie'' 8 True)"
    "cd_feed quad_decode cs (cd_new 8) = (replicate (length cs - 1) None @ [Some (Inr ''zombie'')], cd_new 8)"
    using chunk_roundtrip [OF quad_engine, of 8 "''zombie''" True] by auto
  with l show ?thesis by (intro exI [of _ cs]) (simp add: numeral_3_eq_3)
qed

end
