(* ===== verification/Mode.thy ===== *)
theory Mode
  imports Names
begin

unbundle bit_operations_syntax

text \<open>
  Channel modes, \<open>state/mode.rs\<close>: mode letters, sets of them in a 64-bit word, the four classes of
  modes and the status prefixes.  A \<open>Mode\<close> is its letter, a \<open>ModeSet\<close> its word.  The lemmas show
  that the bit operations are the operations of finite sets of letters.
\<close>

section \<open>Mode letters\<close>

definition mode_new :: "byte \<Rightarrow> byte option" where
  "mode_new letter =
     (if code (CHR ''a'') \<le> code letter \<and> code letter \<le> code (CHR ''z'') \<or>
         code (CHR ''A'') \<le> code letter \<and> code letter \<le> code (CHR ''Z'')
      then Some letter else None)"

definition mode_index :: "byte \<Rightarrow> 8 word" where
  "mode_index m =
     (let raw = u8_of m;
          letter_id = 26 - (raw AND 31);
          cas = (if raw \<ge> u8_of (CHR ''a'') then 1 else 0)
      in push_bit 1 letter_id + cas)"

datatype ordering = Less | Equal | Greater

definition word_cmp :: "8 word \<Rightarrow> 8 word \<Rightarrow> ordering" where
  "word_cmp a b = (if a < b then Less else if a = b then Equal else Greater)"

definition mode_cmp :: "byte \<Rightarrow> byte \<Rightarrow> ordering" where
  "mode_cmp a b = word_cmp (mode_index b) (mode_index a)"

definition new_from_index :: "32 word \<Rightarrow> byte" where
  "new_from_index i =
     (let basis = u8_of (CHR ''A'') + ucast (push_bit 5 (i AND 1))
      in byte_of (basis + (25 - ucast (drop_bit 1 i))))"

definition mode_mask :: "byte \<Rightarrow> 64 word" where
  "mode_mask m = push_bit (unat (mode_index m)) 1"

section \<open>Mode sets\<close>

type_synonym mode_set = "64 word"

definition ms_new :: mode_set where
  "ms_new = 0"

definition ms_with :: "mode_set \<Rightarrow> byte \<Rightarrow> mode_set" where
  "ms_with s m = s OR mode_mask m"

definition ms_set :: "byte \<Rightarrow> mode_set \<Rightarrow> bool \<times> mode_set" where
  "ms_set m s = (let s' = s OR mode_mask m in (s \<noteq> s', s'))"

definition ms_unset :: "byte \<Rightarrow> mode_set \<Rightarrow> bool \<times> mode_set" where
  "ms_unset m s = (let s' = s AND NOT (mode_mask m) in (s \<noteq> s', s'))"

definition ms_contains :: "mode_set \<Rightarrow> byte \<Rightarrow> bool" where
  "ms_contains s m \<longleftrightarrow> s AND mode_mask m \<noteq> 0"

definition ms_is_empty :: "mode_set \<Rightarrow> bool" where
  "ms_is_empty s \<longleftrightarrow> s = 0"

definition count_ones :: "64 word \<Rightarrow> nat" where
  "count_ones w = length (filter (bit w) [0..<64])"

definition ms_len :: "mode_set \<Rightarrow> nat" where
  "ms_len s = count_ones s"

definition ms_union :: "mode_set \<Rightarrow> mode_set \<Rightarrow> mode_set" where
  "ms_union a b = a OR b"

definition ms_intersection :: "mode_set \<Rightarrow> mode_set \<Rightarrow> mode_set" where
  "ms_intersection a b = a AND b"

definition ms_difference :: "mode_set \<Rightarrow> mode_set \<Rightarrow> mode_set" where
  "ms_difference a b = a AND NOT b"


definition ms_from_iter :: "byte list \<Rightarrow> mode_set" where
  "ms_from_iter ms = foldl (\<lambda>s m. snd (ms_set m s)) ms_new ms"

text \<open>Indices of the highest and the lowest bit of a word that is not zero.\<close>

fun ilog2 :: "nat \<Rightarrow> nat" where
  "ilog2 n = (if n < 2 then 0 else Suc (ilog2 (n div 2)))"

fun trailing_zeros :: "nat \<Rightarrow> nat" where
  "trailing_zeros n = (if n = 0 \<or> odd n then 0 else Suc (trailing_zeros (n div 2)))"

declare ilog2.simps [simp del] trailing_zeros.simps [simp del]

definition iter_next :: "64 word \<Rightarrow> (byte \<times> 64 word) option" where
  "iter_next w =
     (if w = 0 then None
      else (let mode = new_from_index (word_of_nat (ilog2 (unat w))) in Some (mode, w AND NOT (mode_mask mode))))"

definition iter_next_back :: "64 word \<Rightarrow> (byte \<times> 64 word) option" where
  "iter_next_back w =
     (if w = 0 then None
      else (let mode = new_from_index (word_of_nat (trailing_zeros (unat w)))
            in Some (mode, w AND NOT (mode_mask mode))))"

text \<open>At most 64 elements can be taken from a word.\<close>

primrec iter_take :: "nat \<Rightarrow> 64 word \<Rightarrow> byte list" where
  "iter_take 0 w = []"
| "iter_take (Suc n) w = (case iter_next w of None \<Rightarrow> [] | Some (m, w') \<Rightarrow> m # iter_take n w')"

definition ms_iter :: "mode_set \<Rightarrow> byte list" where
  "ms_iter s = iter_take 64 s"

definition ms_display :: "mode_set \<Rightarrow> bytes" where
  "ms_display s = ms_iter s"

section \<open>Mode types\<close>

datatype ModeType = TypeA | TypeB | TypeC | TypeD | Status

fun type_index :: "ModeType \<Rightarrow> nat" where
  "type_index TypeA = 0" | "type_index TypeB = 1" | "type_index TypeC = 2" | "type_index TypeD = 3"
| "type_index Status = 4"

definition is_listlike :: "ModeType \<Rightarrow> bool" where
  "is_listlike t \<longleftrightarrow> t \<in> {TypeA, Status}"

definition needs_arg_to_set :: "ModeType \<Rightarrow> bool" where
  "needs_arg_to_set t \<longleftrightarrow> t \<notin> {TypeD}"

definition needs_arg_to_unset :: "ModeType \<Rightarrow> bool" where
  "needs_arg_to_unset t \<longleftrightarrow> t \<in> {TypeA, TypeB, Status}"

text \<open>The array of four sets.\<close>

type_synonym mode_types = "mode_set list"

definition mt_new :: mode_types where
  "mt_new = [ms_new, ms_new, ms_new, ms_new]"

definition mt_from_set :: "mode_set \<Rightarrow> ModeType \<Rightarrow> mode_types" where
  "mt_from_set s t =
     (case t of
        TypeA \<Rightarrow> [s, ms_new, ms_new, ms_new]
      | TypeB \<Rightarrow> [ms_new, s, ms_new, ms_new]
      | TypeC \<Rightarrow> [ms_new, ms_new, s, ms_new]
      | TypeD \<Rightarrow> [ms_new, ms_new, ms_new, s]
      | _ \<Rightarrow> mt_new)"

definition mt_from_sets :: "mode_set \<Rightarrow> mode_set \<Rightarrow> mode_set \<Rightarrow> mode_set \<Rightarrow> mode_types \<times> mode_set" where
  "mt_from_sets a b c d =
     (let o1 = ms_intersection a b;
          o2 = ms_union o1 (ms_intersection b c);
          o3 = ms_union o2 (ms_intersection c d);
          o4 = ms_union o3 (ms_intersection b d);
          ov = ms_union o4 (ms_intersection c d)
      in ([ms_difference a ov, ms_difference b ov, ms_difference c ov, ms_difference d ov], ov))"

text \<open>The loop of \<open>parse\<close>: the sets, the index of the current one, and the rest of the string.\<close>

fun mt_parse_loop :: "mode_types \<Rightarrow> nat \<Rightarrow> bytes \<Rightarrow> mode_types \<times> bytes" where
  "mt_parse_loop sets i [] = (sets, [])"
| "mt_parse_loop sets i (b # rest) =
     (if b = CHR '','' then (if i + 1 < 4 then mt_parse_loop sets (i + 1) rest else (sets, rest))
      else
        (case mode_new b of
           Some m \<Rightarrow> mt_parse_loop (sets[i := snd (ms_set m (sets ! i))]) i rest
         | None \<Rightarrow> mt_parse_loop sets i rest))"

definition mt_parse :: "bytes \<Rightarrow> mode_types \<times> mode_set \<times> bytes" where
  "mt_parse bs =
     (let (sets, rest) = mt_parse_loop mt_new 0 bs;
          (rv, overlap) = mt_from_sets (sets ! 0) (sets ! 1) (sets ! 2) (sets ! 3)
      in (rv, overlap, rest))"

definition mt_get :: "mode_types \<Rightarrow> byte \<Rightarrow> ModeType option" where
  "mt_get mt m =
     map_option (\<lambda>v. if v = 0 then TypeA else if v = 1 then TypeB else if v = 2 then TypeC else TypeD)
       (find (\<lambda>v. ms_contains (mt ! v) m) [3, 0, 1, 2])"

definition mt_insert :: "byte \<Rightarrow> ModeType \<Rightarrow> mode_types \<Rightarrow> mode_types" where
  "mt_insert m t mt =
     map (\<lambda>(i, s). if i \<noteq> type_index t then snd (ms_unset m s) else snd (ms_set m s)) (enumerate 0 mt)"

definition mt_insert_set :: "mode_set \<Rightarrow> ModeType \<Rightarrow> mode_types \<Rightarrow> mode_types" where
  "mt_insert_set ms t mt =
     map (\<lambda>(i, s). if i \<noteq> type_index t then ms_difference s ms else ms_union s ms) (enumerate 0 mt)"

definition mt_display :: "mode_types \<Rightarrow> bytes" where
  "mt_display mt =
     ms_display (mt ! 0) @ '','' @ ms_display (mt ! 1) @ '','' @ ms_display (mt ! 2) @ '','' @ ms_display (mt ! 3)"

section \<open>Status modes\<close>

type_synonym status_modes = "(byte \<times> byte) list"

definition escape_ascii :: "byte \<Rightarrow> bytes" where
  "escape_ascii b =
     (if b = CHR 0x09 then [CHR 0x5C, CHR ''t'']
      else if b = CHR 0x0D then [CHR 0x5C, CHR ''r'']
      else if b = CHR 0x0A then [CHR 0x5C, CHR ''n'']
      else if b \<in> {CHR 0x27, CHR 0x22, CHR 0x5C} then [CHR 0x5C, b]
      else if 0x20 \<le> code b \<and> code b < 0x7F then [b]
      else [CHR 0x5C, CHR ''x'', digit_char (code b div 16), digit_char (code b mod 16)])"

text \<open>One turn of the loop takes a prefix, then a mode letter; a missing or non-ASCII prefix makes this and
  all later prefixes zero.\<close>

fun sm_loop :: "bytes \<Rightarrow> bytes \<Rightarrow> bool \<Rightarrow> status_modes \<Rightarrow> (status_modes, ParseError) result" where
  "sm_loop [] prefixes skip m = Inr m"
| "sm_loop (l # modes) prefixes skip m =
     (let (prefix, prefixes', skip') =
        (if skip then (CHR 0x00, prefixes, skip)
         else
           (case prefixes of
              [] \<Rightarrow> (CHR 0x00, [], True)
            | p # ps \<Rightarrow> if is_ascii p then (p, ps, skip) else (CHR 0x00, ps, True)))
      in case mode_new l of
           None \<Rightarrow> sm_loop modes prefixes' skip' m
         | Some mode \<Rightarrow>
             (case find (\<lambda>(mb, pb). mode = mb \<or> prefix = pb) m of
                Some (mb, _) \<Rightarrow>
                  if mode = mb then Inl (InvalidField ''PREFIX value'' (''duplicate mode `'' @ [mode] @ ''`''))
                  else Inl (InvalidField ''PREFIX value'' (''duplicate prefix `'' @ escape_ascii prefix @ ''`''))
              | None \<Rightarrow> sm_loop modes prefixes' skip' (m @ [(mode, prefix)])))"

definition sm_parse :: "bytes \<Rightarrow> (status_modes, ParseError) result" where
  "sm_parse arg =
     (case arg of
        [] \<Rightarrow> Inl (InvalidField ''PREFIX value'' (''missing leading '' @ [CHR 0x27, CHR ''('', CHR 0x27]))
      | b # arg' \<Rightarrow>
          if b \<noteq> CHR ''('' then Inl (InvalidField ''PREFIX value'' (''missing leading '' @ [CHR 0x27, CHR ''('', CHR 0x27]))
          else
            (case position (\<lambda>c. c = CHR '')'') arg' of
               None \<Rightarrow> Inl (InvalidField ''PREFIX value'' (''missing closing '' @ [CHR 0x27, CHR '')'', CHR 0x27]))
             | Some i \<Rightarrow> sm_loop (take i arg') (drop (i + 1) arg') False []))"

definition sm_contains :: "status_modes \<Rightarrow> byte \<Rightarrow> bool" where
  "sm_contains sm mode \<longleftrightarrow> (\<exists>(m, _) \<in> set sm. m = mode)"

definition get_prefix :: "status_modes \<Rightarrow> byte \<Rightarrow> byte option" where
  "get_prefix sm mode =
     Option.bind (find (\<lambda>(m, _). m = mode) sm) (\<lambda>(_, p). if p = CHR 0x00 then None else Some p)"

definition get_mode :: "status_modes \<Rightarrow> byte \<Rightarrow> byte option" where
  "get_mode sm prefix = map_option fst (find (\<lambda>(_, p). p = prefix) sm)"

section \<open>The modes of a server\<close>

record server_chan_modes =
  sc_nonstatus :: mode_types
  sc_status :: status_modes
  sc_overlap :: mode_set
  sc_extra :: "mode_set list"

fun extra_loop :: "bytes \<Rightarrow> mode_set \<Rightarrow> mode_set list \<Rightarrow> mode_set list" where
  "extra_loop [] s extra = (if \<not> ms_is_empty s then extra @ [s] else extra)"
| "extra_loop (b # rest) s extra =
     (if b = CHR '','' then extra_loop rest ms_new (extra @ [s])
      else
        (case mode_new b of
           Some m \<Rightarrow> extra_loop rest (snd (ms_set m s)) extra
         | None \<Rightarrow> extra_loop rest s extra))"

definition from_isupport :: "(bytes \<times> bytes, 'v) name_map \<Rightarrow> server_chan_modes" where
  "from_isupport isupport =
     (let (nonstatus, overlap, extra) =
        (case get_union fst ''CHANMODES'' isupport of
           Some (_, raw) \<Rightarrow>
             (let (ns, ov, extra_raw) = mt_parse raw in (ns, ov, extra_loop extra_raw ms_new []))
         | None \<Rightarrow> (mt_new, ms_new, []));
          status =
        (case get_union fst ''PREFIX'' isupport of
           Some (_, raw) \<Rightarrow> (case sm_parse raw of Inr s \<Rightarrow> s | Inl _ \<Rightarrow> [])
         | None \<Rightarrow> [])
      in \<lparr>sc_nonstatus = nonstatus, sc_status = status, sc_overlap = overlap, sc_extra = extra\<rparr>)"

definition sc_get :: "server_chan_modes \<Rightarrow> byte \<Rightarrow> ModeType option" where
  "sc_get sc m = (if sm_contains (sc_status sc) m then Some Status else mt_get (sc_nonstatus sc) m)"

section \<open>The index of a mode\<close>

abbreviation idx :: "byte \<Rightarrow> nat" where
  "idx m \<equiv> unat (mode_index m)"

definition mode_ok :: "byte \<Rightarrow> bool" where
  "mode_ok m \<longleftrightarrow> mode_new m \<noteq> None"

lemma mode_new_eq: "mode_new m = (if mode_ok m then Some m else None)"
  by (simp add: mode_ok_def mode_new_def)

lemma mode_ok_code: "mode_ok m \<longleftrightarrow> 65 \<le> code m \<and> code m \<le> 90 \<or> 97 \<le> code m \<and> code m \<le> 122"
  by (auto simp: mode_ok_def mode_new_def)

lemma unat_u8: "unat (u8_of m) = code m"
  by (simp add: u8_of_def unsigned_of_nat take_bit_nat_def code_def)


lemma code_mod32:
  assumes "mode_ok m"
  shows "1 \<le> code m mod 32" "code m mod 32 \<le> 26"
    "code m = 64 + code m mod 32 + (if 97 \<le> code m then 32 else 0)"
proof -
  consider "65 \<le> code m" "code m \<le> 90" | "97 \<le> code m" "code m \<le> 122"
    using assms by (auto simp: mode_ok_code)
  then have "code m mod 32 = code m - (if 97 \<le> code m then 96 else 64)"
    by cases (simp_all add: mod_if)
  then show "1 \<le> code m mod 32" "code m mod 32 \<le> 26"
    "code m = 64 + code m mod 32 + (if 97 \<le> code m then 32 else 0)"
    using assms by (auto simp: mode_ok_code)
qed

lemma unat_double: "unat (x :: 8 word) < 128 \<Longrightarrow> unat (push_bit 1 x) = 2 * unat x"
  by (simp add: push_bit_eq_mult unat_word_ariths)

lemma unat_sum3:
  "unat x + unat y + unat z < 256 \<Longrightarrow> unat (x + y + z :: 8 word) = unat x + unat y + unat z"
  by (simp add: unat_word_ariths)

lemma idx_eq:
  assumes "mode_ok m"
  shows "idx m = 2 * (26 - code m mod 32) + (if 97 \<le> code m then 1 else 0)"
proof -
  let ?w = "26 - (u8_of m AND 31)"
  have "u8_of m AND 31 = take_bit 5 (u8_of m)" by (simp add: take_bit_eq_mask mask_eq_exp_minus_1)
  then have a: "unat (u8_of m AND 31) = code m mod 32"
    by (simp add: unsigned_take_bit_eq unat_u8 take_bit_nat_def)
  then have "u8_of m AND 31 \<le> 26" using code_mod32(2) [OF assms] by (simp add: word_le_nat_alt)
  then have w: "unat ?w = 26 - code m mod 32" using a by (simp add: unat_sub)
  then have p: "unat (push_bit 1 ?w) = 2 * (26 - code m mod 32)"
    using unat_double [of ?w] by linarith
  have c: "u8_of (CHR ''a'') \<le> u8_of m \<longleftrightarrow> 97 \<le> code m" by (simp add: word_le_nat_alt unat_u8)
  show ?thesis unfolding mode_index_def Let_def c using p code_mod32(1) [OF assms]
    by (auto simp: unat_word_ariths)
qed

lemma idx_less: "mode_ok m \<Longrightarrow> idx m < 52"
  using code_mod32(1) [of m] by (auto simp: idx_eq)

lemma unat_new_from_index:
  assumes "i < 52"
  shows "code (new_from_index (word_of_nat i)) = 90 + 32 * (i mod 2) - i div 2"
proof -
  let ?i = "word_of_nat i :: 32 word"
  have u: "unat ?i = i" using assms by (simp add: unsigned_of_nat take_bit_nat_def)
  have "?i AND 1 = take_bit 1 ?i" by (simp add: take_bit_eq_mask)
  then have a: "unat (?i AND 1) = i mod 2" by (simp add: unsigned_take_bit_eq u take_bit_nat_def del: take_bit_Suc_0)
  have b: "unat (ucast (push_bit 5 (?i AND 1)) :: 8 word) = 32 * (i mod 2)"
    using a by (simp add: unsigned_ucast_eq push_bit_eq_mult take_bit_nat_def unat_word_ariths)
  have c: "unat (ucast (drop_bit 1 ?i) :: 8 word) = i div 2"
    using assms by (simp add: unsigned_ucast_eq unsigned_drop_bit_eq u drop_bit_nat_def take_bit_nat_def)
  have d: "unat (25 - ucast (drop_bit 1 ?i) :: 8 word) = 25 - i div 2"
    using c assms by (subst unat_sub) (simp_all add: word_le_nat_alt)
  have "unat (u8_of (CHR ''A'') + ucast (push_bit 5 (?i AND 1)) + (25 - ucast (drop_bit 1 ?i))) = 90 + 32 * (i mod 2) - i div 2"
    using unat_sum3 [of "u8_of (CHR ''A'')" "ucast (push_bit 5 (?i AND 1))" "25 - ucast (drop_bit 1 ?i)"] assms
    unfolding b d unat_u8 by (simp add: add.commute)
  then show ?thesis using assms by (simp add: new_from_index_def Let_def byte_of_def code_char_of_mod)
qed


lemma new_from_index_ok:
  assumes "i < 52"
  shows "mode_ok (new_from_index (word_of_nat i))" and "idx (new_from_index (word_of_nat i)) = i"
proof -
  let ?m = "new_from_index (word_of_nat i)"
  obtain q r where i: "i = 2 * q + r" "r < 2" using mult_div_mod_eq [of 2 i] mod_less_divisor [of 2 i] by (metis zero_less_numeral)
  then have q: "i div 2 = q" "i mod 2 = r" "q < 26" using assms by auto
  have c: "code ?m = 90 + 32 * r - q" using unat_new_from_index [OF assms] q by simp
  then show ok: "mode_ok ?m" using i q by (auto simp: mode_ok_code less_2_cases_iff)
  from i(2) consider "r = 0" | "r = 1" by linarith
  then have "code ?m mod 32 = 26 - q"
    using c q(3) code_mod32(3) [OF ok] by cases (auto split: if_splits)
  with idx_eq [OF ok] c q(3) i(2) show "idx ?m = i" using i by (auto simp: less_2_cases_iff)
qed

lemma new_from_index_idx: "mode_ok m \<Longrightarrow> new_from_index (word_of_nat (idx m)) = m"
proof -
  assume m: "mode_ok m"
  let ?k = "code m mod 32" and ?r = "if 97 \<le> code m then 1 else 0 :: nat"
  have i: "idx m = 2 * (26 - ?k) + ?r" using idx_eq [OF m] by simp
  have "code (new_from_index (word_of_nat (idx m))) = 90 + 32 * ?r - (26 - ?k)"
    using unat_new_from_index [OF idx_less [OF m]] i by auto
  also have "\<dots> = code m" using code_mod32 [OF m] by auto
  finally show ?thesis by (simp add: code_inject)
qed

lemma idx_inject: "mode_ok a \<Longrightarrow> mode_ok b \<Longrightarrow> idx a = idx b \<longleftrightarrow> a = b"
  using new_from_index_idx by metis


section \<open>Mode sets as sets\<close>

definition ms_ok :: "mode_set \<Rightarrow> bool" where
  "ms_ok s \<longleftrightarrow> (\<forall>n. bit s n \<longrightarrow> n < 52)"

text \<open>The letters in a set.\<close>

definition modes :: "mode_set \<Rightarrow> byte set" where
  "modes s = {m. mode_ok m \<and> bit s (idx m)}"

lemma mode_set_eq: "a = b \<longleftrightarrow> (\<forall>n. bit a n = bit (b :: mode_set) n)"
  by (auto intro: bit_word_eqI)

lemma bit_mask: "mode_ok m \<Longrightarrow> bit (mode_mask m) n \<longleftrightarrow> n = idx m"
  using idx_less [of m] by (simp add: mode_mask_def bit_exp_iff) auto

lemma bit_mode_ops [simp]:
  "mode_ok m \<Longrightarrow> bit (s OR mode_mask m) n \<longleftrightarrow> bit s n \<or> n = idx m"
  "mode_ok m \<Longrightarrow> bit (s AND NOT (mode_mask m)) n \<longleftrightarrow> bit s n \<and> n \<noteq> idx m"
  by (auto simp: bit_or_iff bit_and_iff bit_not_iff bit_mask dest: bit_imp_le_length)

lemma bit_ms_ops:
  "bit (ms_union a b) n \<longleftrightarrow> bit a n \<or> bit b n"
  "bit (ms_intersection a b) n \<longleftrightarrow> bit a n \<and> bit b n"
  "bit (ms_difference a b) n \<longleftrightarrow> bit a n \<and> \<not> bit b n"
  by (auto simp: ms_union_def ms_intersection_def ms_difference_def bit_or_iff bit_and_iff bit_not_iff
      dest: bit_imp_le_length)

lemma modes_eqI: "ms_ok a \<Longrightarrow> ms_ok b \<Longrightarrow> modes a = modes b \<longleftrightarrow> a = b"
proof
  assume ok: "ms_ok a" "ms_ok b" and m: "modes a = modes b"
  have "bit a n \<longleftrightarrow> bit b n" for n
  proof (cases "n < 52")
    case True
    let ?m = "new_from_index (word_of_nat n)"
    have "?m \<in> modes a \<longleftrightarrow> ?m \<in> modes b" using m by simp
    then show ?thesis using new_from_index_ok [OF True] by (simp add: modes_def)
  next
    case False
    with ok show ?thesis by (auto simp: ms_ok_def)
  qed
  then show "a = b" by (rule bit_word_eqI)
qed simp

lemma ms_ok_ops [wf_intros]:
  "ms_ok ms_new" "mode_ok m \<Longrightarrow> ms_ok s \<Longrightarrow> ms_ok (ms_with s m)"
  "mode_ok m \<Longrightarrow> ms_ok s \<Longrightarrow> ms_ok (snd (ms_set m s))" "mode_ok m \<Longrightarrow> ms_ok s \<Longrightarrow> ms_ok (snd (ms_unset m s))"
  "ms_ok a \<Longrightarrow> ms_ok b \<Longrightarrow> ms_ok (ms_union a b)" "ms_ok a \<Longrightarrow> ms_ok (ms_intersection a b)"
  "ms_ok a \<Longrightarrow> ms_ok (ms_difference a b)"
  by (auto simp: ms_ok_def ms_new_def ms_with_def ms_set_def ms_unset_def bit_ms_ops idx_less Let_def)

lemma modes_ops:
  "modes ms_new = {}" "mode_ok m \<Longrightarrow> modes (ms_with s m) = insert m (modes s)"
  "mode_ok m \<Longrightarrow> modes (snd (ms_set m s)) = insert m (modes s)"
  "mode_ok m \<Longrightarrow> modes (snd (ms_unset m s)) = modes s - {m}"
  "modes (ms_union a b) = modes a \<union> modes b" "modes (ms_intersection a b) = modes a \<inter> modes b"
  "modes (ms_difference a b) = modes a - modes b"
  by (auto simp: modes_def ms_new_def ms_with_def ms_set_def ms_unset_def bit_ms_ops Let_def idx_inject)

lemma ms_contains_iff: "mode_ok m \<Longrightarrow> ms_contains s m \<longleftrightarrow> m \<in> modes s"
proof -
  assume m: "mode_ok m"
  have "s AND mode_mask m = 0 \<longleftrightarrow> \<not> bit s (idx m)"
    using m idx_less [OF m] by (auto simp: mode_set_eq bit_and_iff bit_mask)
  with m show ?thesis by (simp add: ms_contains_def modes_def)
qed



lemma modes_bij: "ms_ok s \<Longrightarrow> bij_betw idx (modes s) {n. bit s n}"
proof (rule bij_betwI')
  show "idx x = idx y \<longleftrightarrow> x = y" if "x \<in> modes s" "y \<in> modes s" for x y
    using that by (simp add: modes_def idx_inject)
  show "idx x \<in> {n. bit s n}" if "x \<in> modes s" for x using that by (simp add: modes_def)
  show "\<exists>x \<in> modes s. y = idx x" if "ms_ok s" "y \<in> {n. bit s n}" for y
    using that new_from_index_ok [of y] by (intro bexI [of _ "new_from_index (word_of_nat y)"]) (auto simp: ms_ok_def modes_def)
qed

lemma ms_len_card: "ms_ok s \<Longrightarrow> ms_len s = card (modes s)"
proof -
  assume ok: "ms_ok s"
  have "{n. bit s n} = set (filter (bit s) [0..<64])"
    by (auto dest: bit_imp_le_length)
  then have "card {n. bit s n} = count_ones s" using distinct_card [of "filter (bit s) [0..<64]"] by (simp add: count_ones_def)
  with bij_betw_same_card [OF modes_bij [OF ok]] show ?thesis by (simp add: ms_len_def)
qed


section \<open>Iteration\<close>

lemma ilog2_bits: "n \<noteq> 0 \<Longrightarrow> bit n (ilog2 n) \<and> (\<forall>k. bit n k \<longrightarrow> k \<le> ilog2 n)"
proof (induction n rule: ilog2.induct)
  case (1 n)
  show ?case
  proof (cases "n < 2")
    case True
    with 1(2) have "n = 1" by linarith
    then show ?thesis using bit_1_iff [where 'a = nat] by (simp add: ilog2.simps)
  next
    case False
    with 1(1) have IH: "bit (n div 2) (ilog2 (n div 2))" "\<forall>k. bit (n div 2) k \<longrightarrow> k \<le> ilog2 (n div 2)" by simp_all
    have "k \<le> Suc (ilog2 (n div 2))" if "bit n k" for k
      using that IH(2) by (cases k) (simp_all add: bit_Suc)
    with IH(1) False show ?thesis by (simp add: ilog2.simps [of n] bit_Suc)
  qed
qed

lemma trailing_zeros_bits: "n \<noteq> 0 \<Longrightarrow> bit n (trailing_zeros n) \<and> (\<forall>k. bit n k \<longrightarrow> trailing_zeros n \<le> k)"
proof (induction n rule: trailing_zeros.induct)
  case (1 n)
  show ?case
  proof (cases "odd n")
    case True
    then show ?thesis by (simp add: trailing_zeros.simps [of n] bit_0)
  next
    case False
    with 1 have IH: "bit (n div 2) (trailing_zeros (n div 2))"
      "\<forall>k. bit (n div 2) k \<longrightarrow> trailing_zeros (n div 2) \<le> k" by auto
    have "Suc (trailing_zeros (n div 2)) \<le> k" if "bit n k" for k
      using that IH(2) False by (cases k) (simp_all add: bit_Suc bit_0)
    with IH(1) False 1(2) show ?thesis by (simp add: trailing_zeros.simps [of n] bit_Suc)
  qed
qed

lemma bit_unat: "bit (unat w) n \<longleftrightarrow> bit (w :: mode_set) n"
  by (auto simp: bit_unsigned_iff dest: bit_imp_le_length)

lemma ms_ok_not_empty: "ms_ok s \<Longrightarrow> s = 0 \<longleftrightarrow> modes s = {}"
  using modes_eqI [of s ms_new] by (simp add: ms_ok_ops modes_ops) (simp add: ms_new_def)

lemma new_from_index_bit:
  assumes "ms_ok s" and "bit s n"
  shows "new_from_index (word_of_nat n) \<in> modes s" and "idx (new_from_index (word_of_nat n)) = n"
  using assms new_from_index_ok [of n] by (auto simp: ms_ok_def modes_def)

lemma iter_next_spec:
  assumes "ms_ok s" and "s \<noteq> 0"
  obtains m s' where "iter_next s = Some (m, s')" "m \<in> modes s" "ms_ok s'" "modes s' = modes s - {m}"
    "\<forall>x \<in> modes s'. idx x < idx m"
proof -
  let ?i = "ilog2 (unat s)" let ?m = "new_from_index (word_of_nat ?i)"
  have i: "bit s ?i" "\<forall>k. bit s k \<longrightarrow> k \<le> ?i"
    using ilog2_bits [of "unat s"] assms(2) by (simp_all add: bit_unat unat_gt_0)
  note m = new_from_index_bit [OF assms(1) i(1)]
  then have ok: "mode_ok ?m" by (simp add: modes_def)
  let ?s = "snd (ms_unset ?m s)"
  have s: "modes ?s = modes s - {?m}" "ms_ok ?s" using ok assms(1) by (simp_all add: modes_ops ms_ok_ops)
  have "idx x < idx ?m" if "x \<in> modes s - {?m}" for x
  proof -
    from that i(2) m(2) have "idx x \<le> idx ?m" "idx x \<noteq> idx ?m" using idx_inject [of x ?m] ok by (auto simp: modes_def)
    then show ?thesis by simp
  qed
  with s m(1) that [of ?m ?s] assms(2) show thesis by (simp add: iter_next_def ms_unset_def Let_def)
qed

lemma iter_next_back_spec:
  assumes "ms_ok s" and "s \<noteq> 0"
  obtains m s' where "iter_next_back s = Some (m, s')" "m \<in> modes s" "ms_ok s'" "modes s' = modes s - {m}"
    "\<forall>x \<in> modes s'. idx m < idx x"
proof -
  let ?i = "trailing_zeros (unat s)" let ?m = "new_from_index (word_of_nat ?i)"
  have i: "bit s ?i" "\<forall>k. bit s k \<longrightarrow> ?i \<le> k"
    using trailing_zeros_bits [of "unat s"] assms(2) by (simp_all add: bit_unat unat_gt_0)
  note m = new_from_index_bit [OF assms(1) i(1)]
  then have ok: "mode_ok ?m" by (simp add: modes_def)
  let ?s = "snd (ms_unset ?m s)"
  have s: "modes ?s = modes s - {?m}" "ms_ok ?s" using ok assms(1) by (simp_all add: modes_ops ms_ok_ops)
  have "idx ?m < idx x" if "x \<in> modes s - {?m}" for x
  proof -
    from that i(2) m(2) have "idx ?m \<le> idx x" "idx x \<noteq> idx ?m" using idx_inject [of x ?m] ok by (auto simp: modes_def)
    then show ?thesis by simp
  qed
  with s m(1) that [of ?m ?s] assms(2) show thesis by (simp add: iter_next_back_def ms_unset_def Let_def)
qed

lemma finite_modes: "finite (modes s)"
  by (rule finite_subset [of _ UNIV]) simp_all

lemma iter_take_spec:
  "ms_ok s \<Longrightarrow> card (modes s) \<le> n \<Longrightarrow>
   set (iter_take n s) = modes s \<and> sorted_wrt (\<lambda>a b. idx b < idx a) (iter_take n s)"
proof (induction n arbitrary: s)
  case 0
  then show ?case by (simp add: finite_modes)
next
  case (Suc n)
  show ?case
  proof (cases "s = 0")
    case True
    with Suc.prems ms_ok_not_empty [of s] show ?thesis by (simp add: iter_next_def)
  next
    case False
    then obtain m s' where s': "iter_next s = Some (m, s')" "m \<in> modes s" "ms_ok s'" "modes s' = modes s - {m}"
      "\<forall>x \<in> modes s'. idx x < idx m"
      using iter_next_spec [OF Suc.prems(1)] by blast
    then have "card (modes s') \<le> n" using Suc.prems(2) by (simp add: finite_modes)
    with Suc.IH [OF s'(3)] s' show ?thesis by auto
  qed
qed

lemma card_modes: "ms_ok s \<Longrightarrow> card (modes s) \<le> 64"
  using length_filter_le [of "bit s" "[0..<64]"] by (simp add: ms_len_card [symmetric] ms_len_def count_ones_def)

lemma ms_iter_spec:
  assumes "ms_ok s"
  shows "set (ms_iter s) = modes s" and "sorted_wrt (\<lambda>a b. idx b < idx a) (ms_iter s)"
  using iter_take_spec [OF assms card_modes [OF assms]] by (simp_all add: ms_iter_def)

lemma mode_cmp_Less: "mode_cmp a b = Less \<longleftrightarrow> idx b < idx a"
  by (simp add: mode_cmp_def word_cmp_def word_less_nat_alt)

lemma sorted_idx_distinct: "sorted_wrt (\<lambda>a b. idx b < idx a) xs \<Longrightarrow> distinct xs"
  by (induction xs) auto

lemma sorted_idx_unique:
  "sorted_wrt (\<lambda>a b. idx b < idx a) xs \<Longrightarrow> sorted_wrt (\<lambda>a b. idx b < idx a) ys \<Longrightarrow> set xs = set ys \<Longrightarrow> xs = ys"
proof (induction xs arbitrary: ys)
  case (Cons x xs)
  then obtain y ys' where ys: "ys = y # ys'" by (cases ys) auto
  have "x = y"
  proof (rule ccontr)
    assume "x \<noteq> y"
    then have "x \<in> set ys'" "y \<in> set xs" using Cons.prems(3) ys by auto
    with Cons.prems(1,2) ys have "idx x < idx y" "idx y < idx x" by auto
    then show False by simp
  qed
  moreover have "set xs = set ys'"
    using Cons.prems sorted_idx_distinct [of "x # xs"] sorted_idx_distinct [of ys] ys calculation by auto
  ultimately show ?case using Cons ys by auto
qed simp

lemma ms_iter_back:
  assumes "ms_ok s" and "iter_next_back s = Some (m, s')"
  shows "ms_iter s = ms_iter s' @ [m]"
proof -
  have "s \<noteq> 0" using assms(2) by (auto simp: iter_next_back_def)
  with assms obtain x t where x: "iter_next_back s = Some (x, t)" "x \<in> modes s" "ms_ok t" "modes t = modes s - {x}"
    "\<forall>y \<in> modes t. idx x < idx y"
    using iter_next_back_spec by blast
  with assms(2) have t: "ms_ok s'" "modes s' = modes s - {m}" "m \<in> modes s" "\<forall>y \<in> modes s'. idx m < idx y" by auto
  show ?thesis
    using ms_iter_spec [OF assms(1)] ms_iter_spec [OF t(1)] t
    by (intro sorted_idx_unique) (auto simp: sorted_wrt_append)
qed

lemma ms_from_iter_spec:
  assumes "\<forall>m \<in> set l. mode_ok m"
  shows "ms_ok (ms_from_iter l) \<and> modes (ms_from_iter l) = set l"
proof -
  have "ms_ok (foldl (\<lambda>s m. snd (ms_set m s)) s l) \<and> modes (foldl (\<lambda>s m. snd (ms_set m s)) s l) = modes s \<union> set l"
    if "ms_ok s" for s
    using that assms by (induction l arbitrary: s) (auto simp: ms_ok_ops modes_ops)
  from this [OF ms_ok_ops(1)] show ?thesis by (simp add: ms_from_iter_def modes_ops)
qed

lemma ms_from_iter_iter: "ms_ok s \<Longrightarrow> ms_from_iter (ms_iter s) = s"
proof -
  assume ok: "ms_ok s"
  have "\<forall>m \<in> set (ms_iter s). mode_ok m" using ms_iter_spec(1) [OF ok] by (auto simp: modes_def)
  from ms_from_iter_spec [OF this] ok show ?thesis
    by (simp add: modes_eqI [symmetric] ms_iter_spec(1))
qed


section \<open>Mode types: facts\<close>

definition mt_ok :: "mode_types \<Rightarrow> bool" where
  "mt_ok mt \<longleftrightarrow> length mt = 4 \<and> (\<forall>s \<in> set mt. ms_ok s)"

text \<open>No mode has two types.\<close>

definition coherent :: "mode_types \<Rightarrow> bool" where
  "coherent mt \<longleftrightarrow> (\<forall>i < 4. \<forall>j < 4. i \<noteq> j \<longrightarrow> modes (mt ! i) \<inter> modes (mt ! j) = {})"

lemma all_less_4: "(\<forall>i < 4. P i) \<longleftrightarrow> P 0 \<and> P (Suc 0) \<and> P 2 \<and> P (3 :: nat)"
proof -
  have "i < 4 \<longleftrightarrow> i = 0 \<or> i = Suc 0 \<or> i = 2 \<or> i = 3" for i :: nat by linarith
  then show ?thesis by auto
qed

lemma mt_okE:
  assumes "mt_ok mt"
  obtains a b c d where "mt = [a, b, c, d]" "ms_ok a" "ms_ok b" "ms_ok c" "ms_ok d"
  using assms by (auto simp: mt_ok_def numeral_eq_Suc length_Suc_conv)

lemma coherent_4:
  "coherent [a, b, c, d] \<longleftrightarrow> modes a \<inter> modes b = {} \<and> modes a \<inter> modes c = {} \<and> modes a \<inter> modes d = {} \<and>
     modes b \<inter> modes c = {} \<and> modes b \<inter> modes d = {} \<and> modes c \<inter> modes d = {}"
  by (auto simp: coherent_def all_less_4)

lemma mt_get_4:
  "mode_ok m \<Longrightarrow> mt_get [a, b, c, d] m =
     (if m \<in> modes d then Some TypeD else if m \<in> modes a then Some TypeA else if m \<in> modes b then Some TypeB
      else if m \<in> modes c then Some TypeC else None)"
  by (simp add: mt_get_def ms_contains_iff)

lemma mt_insert_4:
  "mt_insert m t [a, b, c, d] =
     map (\<lambda>(i, s). if i \<noteq> type_index t then snd (ms_unset m s) else snd (ms_set m s)) [(0, a), (1, b), (2, c), (3, d)]"
  by (simp add: mt_insert_def numeral_2_eq_2 numeral_3_eq_3)

lemma mt_insert_set_4:
  "mt_insert_set ms t [a, b, c, d] =
     map (\<lambda>(i, s). if i \<noteq> type_index t then ms_difference s ms else ms_union s ms) [(0, a), (1, b), (2, c), (3, d)]"
  by (simp add: mt_insert_set_def numeral_2_eq_2 numeral_3_eq_3)

lemma mt_insert_get:
  assumes "mt_ok mt" and "mode_ok m" and "mode_ok m'"
  shows "mt_get (mt_insert m t mt) m' = (if m' = m then (if t = Status then None else Some t) else mt_get mt m')"
proof -
  from assms(1) obtain a b c d where mt: "mt = [a, b, c, d]" by (rule mt_okE)
  show ?thesis
    using assms(2,3) by (cases t) (auto simp: mt mt_insert_4 mt_get_4 modes_ops)
qed

lemma mt_insert_set_get:
  assumes "mt_ok mt" and "mode_ok m"
  shows "mt_get (mt_insert_set ms t mt) m =
    (if m \<in> modes ms then (if t = Status then None else Some t) else mt_get mt m)"
proof -
  from assms(1) obtain a b c d where mt: "mt = [a, b, c, d]" by (rule mt_okE)
  show ?thesis
    using assms(2) by (cases t) (auto simp: mt mt_insert_set_4 mt_get_4 modes_ops)
qed

lemma mt_insert_ok:
  assumes "mt_ok mt" and "mode_ok m"
  shows "mt_ok (mt_insert m t mt)" and "coherent mt \<Longrightarrow> coherent (mt_insert m t mt)"
proof -
  from assms(1) obtain a b c d where mt: "mt = [a, b, c, d]" by (rule mt_okE)
  show "mt_ok (mt_insert m t mt)"
    using assms by (auto simp: mt mt_ok_def mt_insert_4 intro: ms_ok_ops)
  show "coherent mt \<Longrightarrow> coherent (mt_insert m t mt)"
    using assms(2) by (cases t) (auto simp: mt mt_insert_4 coherent_4 modes_ops)
qed

lemma mt_insert_set_ok:
  assumes "mt_ok mt" and "ms_ok ms"
  shows "mt_ok (mt_insert_set ms t mt)" and "coherent mt \<Longrightarrow> coherent (mt_insert_set ms t mt)"
proof -
  from assms(1) obtain a b c d where mt: "mt = [a, b, c, d]" by (rule mt_okE)
  show "mt_ok (mt_insert_set ms t mt)"
    using assms by (auto simp: mt mt_ok_def mt_insert_set_4 intro: ms_ok_ops)
  show "coherent mt \<Longrightarrow> coherent (mt_insert_set ms t mt)"
    by (cases t) (auto simp: mt mt_insert_set_4 coherent_4 modes_ops)
qed

text \<open>Exactly the overlaps of the first set with the third and with the fourth are missed.\<close>

lemma mt_from_sets_coherent:
  "coherent (fst (mt_from_sets a b c d)) \<longleftrightarrow>
     modes a \<inter> modes c \<subseteq> modes b \<union> modes d \<and> modes a \<inter> modes d \<subseteq> modes b \<union> modes c"
  by (auto simp: mt_from_sets_def Let_def coherent_4 modes_ops)

lemma mt_from_sets_ok:
  "ms_ok a \<Longrightarrow> ms_ok b \<Longrightarrow> ms_ok c \<Longrightarrow> ms_ok d \<Longrightarrow> mt_ok (fst (mt_from_sets a b c d)) \<and> ms_ok (snd (mt_from_sets a b c d))"
  by (auto simp: mt_from_sets_def Let_def mt_ok_def intro!: ms_ok_ops)

lemma mt_from_sets_disjoint:
  assumes "mt_ok [a, b, c, d]" and "coherent [a, b, c, d]"
  shows "mt_from_sets a b c d = ([a, b, c, d], ms_new)"
proof -
  have ok: "ms_ok a" "ms_ok b" "ms_ok c" "ms_ok d" using assms(1) by (simp_all add: mt_ok_def)
  let ?r = "mt_from_sets a b c d"
  have "modes (snd ?r) = modes ms_new" using assms(2) by (simp add: mt_from_sets_def Let_def coherent_4 modes_ops)
  then have ov: "snd ?r = ms_new" using modes_eqI mt_from_sets_ok [OF ok] ms_ok_ops(1) by blast
  have "fst ?r = map (\<lambda>s. ms_difference s (snd ?r)) [a, b, c, d]" by (simp add: mt_from_sets_def Let_def)
  also have "\<dots> = [a, b, c, d]" unfolding ov using ok
    by (simp add: modes_eqI [symmetric] ms_ok_ops modes_ops)
  finally show ?thesis using ov by (metis prod.collapse)
qed

lemma mode_ok_not_comma: "mode_ok m \<Longrightarrow> m \<noteq> CHR '',''"
  by (auto simp: mode_ok_code)

lemma mt_parse_loop_modes:
  assumes "\<forall>m \<in> set l. mode_ok m" and "i < length sets"
  shows "mt_parse_loop sets i (l @ rest) = mt_parse_loop (sets[i := foldl (\<lambda>s m. snd (ms_set m s)) (sets ! i) l]) i rest"
  using assms
proof (induction l arbitrary: sets)
  case (Cons m l)
  then have "mode_ok m" "m \<noteq> CHR '',''" by (simp_all add: mode_ok_not_comma)
  with Cons show ?case by (simp add: mode_new_eq)
qed simp

lemma mt_parse_display:
  assumes "mt_ok mt" and "coherent mt"
  shows "mt_parse (mt_display mt) = (mt, ms_new, [])"
proof -
  from assms(1) obtain a b c d where mt: "mt = [a, b, c, d]" by (rule mt_okE)
  have ok: "ms_ok a" "ms_ok b" "ms_ok c" "ms_ok d" using assms(1) by (simp_all add: mt mt_ok_def)
  have m: "\<forall>m \<in> set (ms_iter s). mode_ok m" "foldl (\<lambda>s m. snd (ms_set m s)) ms_new (ms_iter s) = s"
    if "ms_ok s" for s
    using ms_iter_spec(1) [OF that] ms_from_iter_iter [OF that] by (auto simp: modes_def ms_from_iter_def)
  have "mt_parse_loop mt_new 0 (mt_display mt) = (mt, [])"
    using ok by (simp add: mt mt_display_def ms_display_def mt_new_def mt_parse_loop_modes m numeral_2_eq_2 numeral_3_eq_3)
      (use mt_parse_loop_modes [OF m(1) [OF ok(4)], of 3 "[a, b, c, ms_new]" "[]"] in \<open>simp add: m numeral_3_eq_3\<close>)
  with mt_from_sets_disjoint assms show ?thesis by (simp add: mt mt_parse_def)
qed

section \<open>Status modes: facts\<close>

definition sm_ok :: "status_modes \<Rightarrow> bool" where
  "sm_ok sm \<longleftrightarrow> distinct (map fst sm) \<and> distinct (map snd sm) \<and> (\<forall>(m, p) \<in> set sm. mode_ok m \<and> is_ascii p)"

lemma sm_loop_ok: "sm_loop ms ps skip m = Inr sm \<Longrightarrow> sm_ok m \<Longrightarrow> sm_ok sm"
proof (induction ms ps skip m rule: sm_loop.induct)
  case (2 l ms ps skip m)
  define t where "t = (if skip then (CHR 0x00, ps, skip)
         else
           (case ps of
              [] \<Rightarrow> (CHR 0x00, [], True)
            | p # ps \<Rightarrow> if is_ascii p then (p, ps, skip) else (CHR 0x00, ps, True)))"
  obtain p ps' skip' where p: "t = (p, ps', skip')" by (cases t)
  have a: "is_ascii p" using p by (auto simp: t_def is_ascii_def split: if_splits list.splits)
  note IH = 2(1,2) [OF p [symmetric, unfolded t_def] refl]
  show ?case
  proof (cases "mode_ok l")
    case False
    with 2 p show ?thesis by (simp add: mode_new_eq t_def [symmetric])
  next
    case True
    show ?thesis
    proof (cases "find (\<lambda>(mb, pb). l = mb \<or> p = pb) m")
      case None
      then have "\<forall>(a, b) \<in> set m. l \<noteq> a \<and> p \<noteq> b" by (auto simp: find_None_iff)
      then have "sm_ok (m @ [(l, p)])" using 2(4) True a by (auto simp: sm_ok_def)
      with 2 p None True show ?thesis by (simp add: mode_new_eq t_def [symmetric])
    qed (use 2 p True in \<open>auto simp: mode_new_eq t_def [symmetric] split: if_splits\<close>)
  qed
qed simp

lemma sm_parse_ok: "sm_parse arg = Inr sm \<Longrightarrow> sm_ok sm"
proof -
  have "sm_ok []" by (simp add: sm_ok_def)
  moreover assume "sm_parse arg = Inr sm"
  then obtain ms ps where "sm_loop ms ps False [] = Inr sm"
    by (cases arg) (simp_all add: sm_parse_def split: if_split_asm option.split_asm)
  ultimately show ?thesis using sm_loop_ok by blast
qed

lemma find_fst: "distinct (map fst sm) \<Longrightarrow> find (\<lambda>(m, _). m = k) sm = Some e \<longleftrightarrow> e \<in> set sm \<and> fst e = k"
  by (induction sm) auto

lemma find_snd: "distinct (map snd sm) \<Longrightarrow> find (\<lambda>(_, p). p = k) sm = Some e \<longleftrightarrow> e \<in> set sm \<and> snd e = k"
  by (induction sm) auto

lemma get_prefix_iff: "sm_ok sm \<Longrightarrow> get_prefix sm m = Some p \<longleftrightarrow> (m, p) \<in> set sm \<and> p \<noteq> CHR 0x00"
proof -
  assume "sm_ok sm"
  then have f: "find (\<lambda>(x, _). x = m) sm = Some e \<longleftrightarrow> e \<in> set sm \<and> fst e = m" for e
    by (intro find_fst) (simp add: sm_ok_def)
  have "get_prefix sm m = Some p \<longleftrightarrow> (\<exists>e. find (\<lambda>(x, _). x = m) sm = Some e \<and> snd e = p \<and> p \<noteq> CHR 0x00)"
    by (auto simp: get_prefix_def bind_eq_Some_conv split: if_split_asm)
  also have "\<dots> \<longleftrightarrow> (m, p) \<in> set sm \<and> p \<noteq> CHR 0x00" unfolding f by auto
  finally show ?thesis .
qed

lemma get_mode_iff: "sm_ok sm \<Longrightarrow> get_mode sm p = Some m \<longleftrightarrow> (m, p) \<in> set sm"
proof -
  assume "sm_ok sm"
  then have f: "find (\<lambda>(_, x). x = p) sm = Some e \<longleftrightarrow> e \<in> set sm \<and> snd e = p" for e
    by (intro find_snd) (simp add: sm_ok_def)
  have "get_mode sm p = Some m \<longleftrightarrow> (\<exists>e. find (\<lambda>(_, x). x = p) sm = Some e \<and> fst e = m)"
    by (auto simp: get_mode_def)
  also have "\<dots> \<longleftrightarrow> (m, p) \<in> set sm" unfolding f by auto
  finally show ?thesis .
qed

lemma sm_contains_iff: "sm_contains sm m \<longleftrightarrow> m \<in> fst ` set sm"
  by (force simp: sm_contains_def)

section \<open>The modes of a server: facts\<close>

lemma mt_parse_loop_ok: "mt_ok sets \<Longrightarrow> i < 4 \<Longrightarrow> mt_ok (fst (mt_parse_loop sets i bs))"
proof (induction sets i bs rule: mt_parse_loop.induct)
  case (2 sets i b rest)
  have "mt_ok (sets[i := snd (ms_set b (sets ! i))])" if "mode_ok b"
  proof -
    have "ms_ok (sets ! i)" using 2(4,5) by (auto simp: mt_ok_def)
    with that have "ms_ok (snd (ms_set b (sets ! i)))" by (simp add: ms_ok_ops)
    with 2(4) show ?thesis unfolding mt_ok_def by (auto dest!: set_update_subset_insert [THEN subsetD])
  qed
  with 2 show ?case by (auto simp: mode_new_eq split: if_split_asm)
qed simp

lemma mt_parse_ok: "mt_ok (fst (mt_parse bs))"
proof -
  have "mt_ok mt_new" by (simp add: mt_new_def mt_ok_def ms_ok_ops)
  then have l: "mt_ok (fst (mt_parse_loop mt_new 0 bs))" by (rule mt_parse_loop_ok) simp
  then obtain a b c d where s: "fst (mt_parse_loop mt_new 0 bs) = [a, b, c, d]" "ms_ok a" "ms_ok b" "ms_ok c" "ms_ok d"
    by (rule mt_okE)
  have "fst (mt_parse bs) = fst (mt_from_sets a b c d)"
    using s(1) by (simp add: mt_parse_def split_def Let_def numeral_2_eq_2 numeral_3_eq_3)
  with mt_from_sets_ok [OF s(2-5)] show ?thesis by simp
qed

section \<open>Properties\<close>



text \<open>Iterating over a mode set yields each of its letters once, in the order of modes (alphabetical,
  lower case first), from the back in the reverse order, and collecting the letters gives the set back.\<close>

lemma modeset_iteration:
  assumes "ms_ok s"
  shows "set (ms_iter s) = modes s \<and> sorted_wrt (\<lambda>a b. mode_cmp a b = Less) (ms_iter s) \<and>
    length (ms_iter s) = ms_len s \<and> ms_from_iter (ms_iter s) = s \<and>
    (\<forall>m s'. iter_next_back s = Some (m, s') \<longrightarrow> ms_iter s = ms_iter s' @ [m])"
proof -
  note sp = ms_iter_spec [OF assms]
  have "length (ms_iter s) = ms_len s"
    using distinct_card [OF sorted_idx_distinct [OF sp(2)]] sp(1) by (simp add: ms_len_card [OF assms])
  with sp ms_from_iter_iter [OF assms] ms_iter_back [OF assms] show ?thesis by (simp add: mode_cmp_Less)
qed

text \<open>A coherent table of mode types is parsed back from its printed form, with no overlap and nothing
  left over.\<close>

lemma chanmodes_roundtrip:
  assumes "mt_ok mt" and "coherent mt"
  shows "mt_parse (mt_display mt) = (mt, ms_new, [])"
  using assms by (rule mt_parse_display)

text \<open>Setting the type of a mode, or of a set of modes, makes the lookup return it for exactly these
  modes, and keeps the table well formed and coherent.\<close>

lemma mode_types_insert:
  assumes "mt_ok mt" and "mode_ok m" and "mode_ok m'" and "t \<noteq> Status" and "ms_ok ms"
  shows "mt_get (mt_insert m t mt) m' = (if m' = m then Some t else mt_get mt m') \<and>
    mt_get (mt_insert_set ms t mt) m' = (if m' \<in> modes ms then Some t else mt_get mt m') \<and>
    mt_ok (mt_insert m t mt) \<and> mt_ok (mt_insert_set ms t mt) \<and>
    (coherent mt \<longrightarrow> coherent (mt_insert m t mt) \<and> coherent (mt_insert_set ms t mt))"
  using assms mt_insert_get [OF assms(1-3)] mt_insert_set_get [OF assms(1,3)] mt_insert_ok [OF assms(1,2)]
    mt_insert_set_ok [OF assms(1,5)]
  by simp

text \<open>The constructor from four sets removes every overlap except those of the first set with the third
  and with the fourth: its result is coherent exactly if these are covered by the other sets.\<close>

lemma from_sets_coherence:
  "coherent (fst (mt_from_sets a b c d)) \<longleftrightarrow>
     modes a \<inter> modes c \<subseteq> modes b \<union> modes d \<and> modes a \<inter> modes d \<subseteq> modes b \<union> modes c"
  by (rule mt_from_sets_coherent)

text \<open>A parsed prefix token is a bijection between its modes with a prefix and these prefixes: looking
  up a mode by its prefix and a prefix by its mode are inverse.\<close>

lemma status_modes_bijective:
  assumes "sm_parse arg = Inr sm" and "p \<noteq> CHR 0x00"
  shows "sm_ok sm \<and> (get_prefix sm m = Some p \<longleftrightarrow> get_mode sm p = Some m) \<and> (get_mode sm p = Some m \<longrightarrow> sm_contains sm m)"
  using sm_parse_ok [OF assms(1)] assms(2)
  by (auto simp: get_prefix_iff get_mode_iff sm_contains_iff intro: rev_image_eqI)

text \<open>Two modes without a prefix are refused as a duplicate prefix, although the table is meant to hold
  modes that have none.\<close>

lemma prefixless_modes_refused:
  "sm_parse ''(ov)'' = Inl (InvalidField ''PREFIX value'' (''duplicate prefix `'' @ escape_ascii (CHR 0x00) @ ''`''))"
  by (simp add: sm_parse_def mode_new_def is_ascii_def)

end
