(* ===== verification/Isupport.thy ===== *)
theory Isupport
  imports Mode
begin

text \<open>
  Values of ISUPPORT tokens, \<open>names/isupport.rs\<close>.  A token of the name class is a pair of a key and a
  word; each name has a parser of the word.  The parsers of unsigned integers of the standard library
  are part of the model, with their error texts.
\<close>

section \<open>Unsigned integers from text\<close>

datatype int_error = EmptyInt | InvalidDigit | PosOverflow | ZeroInt

definition int_error_text :: "int_error \<Rightarrow> string" where
  "int_error_text e =
     (case e of
        EmptyInt \<Rightarrow> ''cannot parse integer from empty string''
      | InvalidDigit \<Rightarrow> ''invalid digit found in string''
      | PosOverflow \<Rightarrow> ''number too large to fit in target type''
      | ZeroInt \<Rightarrow> ''number would be zero for non-zero type'')"

text \<open>The digit loop: the multiplication is checked before the digit, the error of the digit comes first.\<close>

fun parse_digits :: "nat \<Rightarrow> nat \<Rightarrow> bytes \<Rightarrow> (nat, int_error) result" where
  "parse_digits bound r [] = Inr r"
| "parse_digits bound r (c # cs) =
     (if \<not> is_ascii_digit c then Inl InvalidDigit
      else if bound \<le> r * 10 then Inl PosOverflow
      else
        (let r' = r * 10 + (code c - 48) in if bound \<le> r' then Inl PosOverflow else parse_digits bound r' cs))"

definition parse_uint :: "nat \<Rightarrow> bytes \<Rightarrow> (nat, int_error) result" where
  "parse_uint bound s =
     (case s of
        [] \<Rightarrow> Inl EmptyInt
      | c # cs \<Rightarrow>
          if cs = [] \<and> c \<in> {CHR ''+'', CHR ''-''} then Inl InvalidDigit
          else if c = CHR ''+'' then parse_digits bound 0 cs
          else parse_digits bound 0 s)"

definition parse_nonzero :: "nat \<Rightarrow> bytes \<Rightarrow> (nat, int_error) result" where
  "parse_nonzero bound s = bind_res (parse_uint bound s) (\<lambda>n. if n = 0 then Inl ZeroInt else Inr n)"

section \<open>Tokens\<close>

type_synonym isupport_union = "bytes \<times> bytes"

text \<open>The macro \<open>defn_isupport!\<close>: the error of a parser becomes an invalid field.  The field name is the
  text the macro produces.\<close>

definition isupport_from_union ::
  "(bytes \<Rightarrow> ('t, string) result) \<Rightarrow> isupport_union \<Rightarrow> ('t, ParseError) result" where
  "isupport_from_union do_parse input = map_err (\<lambda>e. InvalidField ''$name value'' e) (do_parse (snd input))"

definition isupport_unitary :: "bytes \<Rightarrow> (unit, string) result" where
  "isupport_unitary arg = Inr ()"

text \<open>The text of the error of \<open>from_utf8\<close> is not modelled: \<open>utf8_error\<close> stands for it.\<close>

definition isupport_strparse :: "string \<Rightarrow> (bytes \<Rightarrow> ('t, int_error) result) \<Rightarrow> bytes \<Rightarrow> ('t, string) result" where
  "isupport_strparse utf8_error parse arg =
     (case fst (to_utf8 (bytes_from_bytes arg)) of
        None \<Rightarrow> Inl utf8_error
      | Some this \<Rightarrow> map_err int_error_text (parse this))"

definition isupport_strparse_option ::
  "string \<Rightarrow> (bytes \<Rightarrow> ('t, int_error) result) \<Rightarrow> bytes \<Rightarrow> ('t option, string) result" where
  "isupport_strparse_option utf8_error parse arg =
     (if arg = [] then Inr None
      else bind_res (isupport_strparse utf8_error parse arg) (\<lambda>v. Inr (Some v)))"

definition isupport_mode :: "byte option \<Rightarrow> bytes \<Rightarrow> (byte, string) result" where
  "isupport_mode dflt arg =
     (case arg of
        ml # _ \<Rightarrow> (case mode_new ml of Some m \<Rightarrow> Inr m | None \<Rightarrow> Inl ''invalid mode letter'')
      | [] \<Rightarrow> (case dflt of Some d \<Rightarrow> Inr d | None \<Rightarrow> Inl ''missing mode letter''))"

definition u16_bound :: nat where
  "u16_bound = 2 ^ 16"

definition u32_bound :: nat where
  "u32_bound = 2 ^ 32"

text \<open>The names with a value, by kind.\<close>

definition unitary_names :: "bytes list" where
  "unitary_names = [''ETRACE'', ''KNOCK'', ''SAFELIST'', ''UTF8ONLY'', ''WHOX'']"

definition u16_names :: "bytes list" where
  "u16_names = [''AWAYLEN'', ''CHANNELLEN'', ''HOSTLEN'', ''KICKLEN'', ''MODES'', ''NICKLEN'', ''TOPICLEN'', ''USERLEN'']"

definition u32_option_names :: "bytes list" where
  "u32_option_names = [''MONITOR'', ''SILENCE'']"

definition mode_names :: "(bytes \<times> byte option) list" where
  "mode_names = [(''BOT'', None), (''CALLERID'', Some (CHR ''g'')), (''EXCEPTS'', Some (CHR ''e'')), (''INVEX'', Some (CHR ''I''))]"

definition u16_value :: "string \<Rightarrow> isupport_union \<Rightarrow> (nat, ParseError) result" where
  "u16_value utf8_error = isupport_from_union (isupport_strparse utf8_error (parse_nonzero u16_bound))"

definition u32_option_value :: "string \<Rightarrow> isupport_union \<Rightarrow> (nat option, ParseError) result" where
  "u32_option_value utf8_error = isupport_from_union (isupport_strparse_option utf8_error (parse_nonzero u32_bound))"

definition mode_value :: "byte option \<Rightarrow> isupport_union \<Rightarrow> (byte, ParseError) result" where
  "mode_value dflt = isupport_from_union (isupport_mode dflt)"

definition network_value :: "isupport_union \<Rightarrow> (bytes, ParseError) result" where
  "network_value = isupport_from_union (\<lambda>arg. Inr arg)"

definition chanmodes_value :: "isupport_union \<Rightarrow> (mode_types, ParseError) result" where
  "chanmodes_value = isupport_from_union (\<lambda>arg. Inr (fst (mt_parse arg)))"

text \<open>\<open>prefix_error\<close> is the text of the boxed parse error.\<close>

definition prefix_value :: "(ParseError \<Rightarrow> string) \<Rightarrow> isupport_union \<Rightarrow> (status_modes, ParseError) result" where
  "prefix_value prefix_error = isupport_from_union (\<lambda>arg. map_err prefix_error (sm_parse arg))"

section \<open>Integers: facts\<close>

lemma is_ascii_digit_char: "d < 10 \<Longrightarrow> is_ascii_digit (digit_char d)"
  by (auto simp: is_ascii_digit_def digit_char_def code_char_of_mod)

lemma parse_digits_bound: "parse_digits b r cs = Inr n \<Longrightarrow> r < b \<Longrightarrow> n < b"
  by (induction b r cs rule: parse_digits.induct) (auto simp: Let_def split: if_split_asm)

lemma parse_uint_bound: "parse_uint b s = Inr n \<Longrightarrow> 0 < b \<Longrightarrow> n < b"
  by (cases s) (auto simp: parse_uint_def simp del: parse_digits.simps dest: parse_digits_bound split: if_split_asm)

lemma fmt_base_10: "fmt_base 10 n = (if n < 10 then [digit_char n] else fmt_base 10 (n div 10) @ [digit_char (n mod 10)])"
  by (subst fmt_base.simps) simp

lemma parse_digits_snoc:
  "parse_digits b r (cs @ [c]) = bind_res (parse_digits b r cs) (\<lambda>m. parse_digits b m [c])"
  by (induction b r cs rule: parse_digits.induct) (auto simp: Let_def)

lemma parse_digit: "d < 10 \<Longrightarrow> r * 10 + d < b \<Longrightarrow> parse_digits b r [digit_char d] = Inr (r * 10 + d)"
  by (simp add: is_ascii_digit_char) (simp add: digit_char_def code_char_of_mod)

lemma parse_digits_fmt: "n < b \<Longrightarrow> parse_digits b 0 (fmt_base 10 n) = Inr n"
proof (induction n rule: less_induct)
  case (less n)
  show ?case
  proof (cases "n < 10")
    case True
    with less.prems parse_digit [of n 0 b] show ?thesis by (subst fmt_base_10) simp
  next
    case False
    then have "parse_digits b 0 (fmt_base 10 (n div 10)) = Inr (n div 10)" using less by simp
    moreover have "parse_digits b (n div 10) [digit_char (n mod 10)] = Inr n"
      using parse_digit [of "n mod 10" "n div 10" b] less.prems by simp
    ultimately show ?thesis using False by (subst fmt_base_10) (simp add: parse_digits_snoc)
  qed
qed

lemma fmt_base_nonempty: "fmt_base b n \<noteq> []"
  by (subst fmt_base.simps) simp

lemma hd_fmt_base_10: "is_ascii_digit (hd (fmt_base 10 n))"
proof (induction n rule: less_induct)
  case (less n)
  show ?case
  proof (cases "n < 10")
    case True
    then show ?thesis by (subst fmt_base_10) (simp add: is_ascii_digit_char)
  next
    case False
    then have "is_ascii_digit (hd (fmt_base 10 (n div 10)))" using less by simp
    with False show ?thesis by (subst fmt_base_10) (simp add: fmt_base_nonempty)
  qed
qed

text \<open>A number printed in decimal is parsed back.\<close>

lemma parse_uint_fmt: "n < b \<Longrightarrow> parse_uint b (fmt_base 10 n) = Inr n"
proof -
  assume n: "n < b"
  obtain c cs where s: "fmt_base 10 n = c # cs" by (cases "fmt_base 10 n") (auto simp: fmt_base_nonempty)
  then have "is_ascii_digit c" using hd_fmt_base_10 [of n] by simp
  then have "c \<noteq> CHR ''+''" "c \<noteq> CHR ''-''" by (auto simp: is_ascii_digit_def)
  with parse_digits_fmt [OF n] s show ?thesis by (simp add: parse_uint_def)
qed

lemma parse_nonzero_bound: "parse_nonzero b s = Inr n \<Longrightarrow> 0 < b \<Longrightarrow> 0 < n \<and> n < b"
  by (auto simp: parse_nonzero_def bind_res_Inr dest: parse_uint_bound split: if_split_asm)

lemma parse_nonzero_fmt: "0 < n \<Longrightarrow> n < b \<Longrightarrow> parse_nonzero b (fmt_base 10 n) = Inr n"
  by (simp add: parse_nonzero_def parse_uint_fmt)

lemma u16_value_bound: "u16_value e u = Inr n \<Longrightarrow> 0 < n \<and> n < 2 ^ 16"
  by (auto simp: u16_value_def isupport_from_union_def isupport_strparse_def map_err_Inr u16_bound_def
      dest: parse_nonzero_bound split: option.splits)

lemma digit_is_ascii: "is_ascii_digit c \<Longrightarrow> is_ascii c"
  by (auto simp: is_ascii_digit_def is_ascii_def)

lemma fmt_base_10_digits: "c \<in> set (fmt_base 10 n) \<Longrightarrow> is_ascii_digit c"
proof (induction n rule: less_induct)
  case (less n)
  show ?case
  proof (cases "n < 10")
    case True
    with less.prems show ?thesis by (subst (asm) fmt_base_10) (simp add: is_ascii_digit_char)
  next
    case False
    with less.prems have "c \<in> set (fmt_base 10 (n div 10)) \<or> c = digit_char (n mod 10)"
      by (subst (asm) fmt_base_10) auto
    with less.IH [of "n div 10"] False show ?thesis by (auto simp: is_ascii_digit_char)
  qed
qed

lemma fmt_base_10_utf8: "utf8_valid (fmt_base 10 n)"
  by (rule utf8_valid_ascii) (auto intro: digit_is_ascii fmt_base_10_digits)

lemma parse_digits_mono: "parse_digits b r cs = Inr n \<Longrightarrow> b \<le> b' \<Longrightarrow> parse_digits b' r cs = Inr n"
  by (induction b r cs rule: parse_digits.induct) (auto simp: Let_def split: if_split_asm)

lemma parse_digits_fmt_Inr: "0 < b \<Longrightarrow> parse_digits b 0 (fmt_base 10 n) = Inr m \<Longrightarrow> m = n \<and> n < b"
  using parse_digits_mono [of b 0 "fmt_base 10 n" m "max b (Suc n)"] parse_digits_fmt [of n "max b (Suc n)"]
    parse_digits_bound [of b 0 "fmt_base 10 n" m] by auto

lemma parse_uint_digits: "parse_uint b (fmt_base 10 n) = parse_digits b 0 (fmt_base 10 n)"
proof -
  obtain c cs where s: "fmt_base 10 n = c # cs" by (cases "fmt_base 10 n") (auto simp: fmt_base_nonempty)
  then have "is_ascii_digit c" using hd_fmt_base_10 [of n] by simp
  then have "c \<noteq> CHR ''+''" "c \<noteq> CHR ''-''" by (auto simp: is_ascii_digit_def)
  with s show ?thesis by (simp add: parse_uint_def)
qed

lemma parse_nonzero_fmt_iff:
  "0 < b \<Longrightarrow> parse_nonzero b (fmt_base 10 n) = Inr m \<longleftrightarrow> m = n \<and> 0 < n \<and> n < b"
  using parse_digits_fmt [of n b] parse_digits_fmt_Inr [of b n]
  by (auto simp: parse_nonzero_def parse_uint_digits bind_res_Inr split: if_splits)

lemma strparse_utf8: "utf8_valid arg \<Longrightarrow> isupport_strparse e p arg = map_err int_error_text (p arg)"
  by (simp add: isupport_strparse_def to_utf8_fst wf_intros, simp add: bytes_from_bytes_def)

section \<open>Properties\<close>

text \<open>a numeric \<open>ISUPPORT\<close> value printed in decimal is parsed to itself exactly when it is a
  nonzero 16 bit number; zero and larger numbers are refused, and nothing out of range is returned.\<close>

lemma isupport_number_exact:
  "(u16_value e (k, fmt_base 10 n) = Inr m \<longleftrightarrow> m = n \<and> 0 < n \<and> n < 2 ^ 16) \<and>
   (case u16_value e u of Inr m' \<Rightarrow> 0 < m' \<and> m' < 2 ^ 16 | Inl _ \<Rightarrow> True)"
proof
  show "u16_value e (k, fmt_base 10 n) = Inr m \<longleftrightarrow> m = n \<and> 0 < n \<and> n < 2 ^ 16"
    using parse_nonzero_fmt_iff [of u16_bound n m]
    by (simp add: u16_value_def isupport_from_union_def strparse_utf8 fmt_base_10_utf8 map_err_Inr u16_bound_def)
  show "case u16_value e u of Inr m' \<Rightarrow> 0 < m' \<and> m' < 2 ^ 16 | Inl _ \<Rightarrow> True"
    by (auto dest: u16_value_bound split: sum.splits)
qed

end
