(* ===== verification/ClientLogic.thy ===== *)
theory ClientLogic
  imports Handlers Isupport
begin

text \<open>
  The state shared by handlers and the logic of a client that does not depend on the connection:
  \<open>client/state.rs\<close>, \<open>client/logic.rs\<close> and the time limits of \<open>client/conn/time.rs\<close>.  The state is a
  flat map from type identifiers to boxed values; the identifier the compiler gives to a key is the
  parameter \<open>tid\<close>, of which only that distinct types have distinct identifiers is used.
\<close>

section \<open>Time limits (\<open>client/conn/time.rs\<close>)\<close>

record time_limits =
  tl_read :: "nat option"
  tl_write :: "nat option"
  tl_update_write :: bool

definition tl_default :: time_limits where
  "tl_default = \<lparr>tl_read = None, tl_write = None, tl_update_write = False\<rparr>"

definition require_update :: "time_limits \<Rightarrow> time_limits" where
  "require_update t = t\<lparr>tl_update_write := True\<rparr>"

definition tl_set_read_timeout :: "nat option \<Rightarrow> time_limits \<Rightarrow> time_limits" where
  "tl_set_read_timeout timeout t = t\<lparr>tl_read := map_option (\<lambda>d. max d (secs 1)) timeout\<rparr>"

definition tl_set_write_timeout :: "nat option \<Rightarrow> time_limits \<Rightarrow> time_limits" where
  "tl_set_write_timeout timeout t =
     t\<lparr>tl_update_write := True, tl_write := map_option (\<lambda>d. max d (secs 1)) timeout\<rparr>"

section \<open>Keys of the shared state (\<open>client/state.rs\<close>)\<close>

text \<open>The keys that the crate defines.  \<open>ClientStateKey\<close> is a public trait, so a program can add its own; each is one more type with
  an identifier of its own.\<close>

datatype state_key = ClientSource | ServerSource | Caps | ISupport | ServerVersion | Account

text \<open>A boxed value, with the type it can be downcast to.\<close>

datatype state_value =
  VSource source
| VCaps "(bytes \<times> bytes, bool) name_map"
| VISupport "(isupport_union, unit) name_map"
| VArg bytes
| VAccount "bytes option"

fun as_source :: "state_value \<Rightarrow> source option" where
  "as_source (VSource s) = Some s" | "as_source _ = None"

fun as_caps :: "state_value \<Rightarrow> (bytes \<times> bytes, bool) name_map option" where
  "as_caps (VCaps m) = Some m" | "as_caps _ = None"

fun as_isupport :: "state_value \<Rightarrow> (isupport_union, unit) name_map option" where
  "as_isupport (VISupport m) = Some m" | "as_isupport _ = None"

fun as_arg :: "state_value \<Rightarrow> bytes option" where
  "as_arg (VArg a) = Some a" | "as_arg _ = None"

fun as_account :: "state_value \<Rightarrow> bytes option option" where
  "as_account (VAccount a) = Some a" | "as_account _ = None"

text \<open>The type of the value of a key.\<close>

fun key_type_ok :: "state_key \<Rightarrow> state_value \<Rightarrow> bool" where
  "key_type_ok ClientSource v = (\<exists>s. v = VSource s)"
| "key_type_ok ServerSource v = (\<exists>s. v = VSource s)"
| "key_type_ok Caps v = (\<exists>m. v = VCaps m)"
| "key_type_ok ISupport v = (\<exists>m. v = VISupport m)"
| "key_type_ok ServerVersion v = (\<exists>a. v = VArg a)"
| "key_type_ok Account v = (\<exists>a. v = VAccount a)"

type_synonym type_ids = "state_key \<Rightarrow> nat"

section \<open>The shared state (\<open>client/logic.rs\<close>)\<close>

definition usize_max :: nat where
  "usize_max = 2 ^ 64 - 1"

definition usize_sat :: "nat \<Rightarrow> nat \<Rightarrow> nat" where
  "usize_sat a b = min usize_max (a + b)"

definition DEFAULT_SOURCE_LEN :: nat where
  "DEFAULT_SOURCE_LEN = 85"

record client_state =
  cs_source_len :: nat
  cs_state :: "(nat \<times> state_value) list"

definition cs_new :: client_state where
  "cs_new = \<lparr>cs_source_len = DEFAULT_SOURCE_LEN, cs_state = fm_new\<rparr>"

definition cs_get :: "type_ids \<Rightarrow> state_key \<Rightarrow> (state_value \<Rightarrow> 'v option) \<Rightarrow> client_state \<Rightarrow> 'v option" where
  "cs_get tid k downcast cs = Option.bind (fm_get fst (cs_state cs) (tid k)) (\<lambda>v. downcast (snd v))"

text \<open>Writing through \<open>get_mut\<close>; \<open>None\<close> when there is nothing to write to.\<close>

definition cs_get_mut ::
  "type_ids \<Rightarrow> state_key \<Rightarrow> (state_value \<Rightarrow> state_value option) \<Rightarrow> client_state \<Rightarrow> client_state option" where
  "cs_get_mut tid k f cs =
     Option.bind (get_impl fst (cs_state cs) (length (cs_state cs)) (tid k)) (\<lambda>i.
       map_option (\<lambda>v. cs\<lparr>cs_state := (cs_state cs)[i := (fst (cs_state cs ! i), v)]\<rparr>) (f (snd (cs_state cs ! i))))"

definition cs_insert :: "type_ids \<Rightarrow> state_key \<Rightarrow> state_value \<Rightarrow> client_state \<Rightarrow> client_state" where
  "cs_insert tid k v cs =
     cs\<lparr>cs_state := guard_drop fst (snd (guard_insert fst (tid k, v) (fm_edit (cs_state cs))))\<rparr>"

definition cs_clear :: "client_state \<Rightarrow> client_state" where
  "cs_clear cs = cs\<lparr>cs_state := []\<rparr>"

definition set_source_len :: "nat \<Rightarrow> client_state \<Rightarrow> client_state" where
  "set_source_len len cs = cs\<lparr>cs_source_len := len\<rparr>"

text \<open>A length limit of the server, if it is there and parses; \<open>utf8_error\<close> is the text of an error
  that is dropped here.\<close>

definition isupport_len :: "string \<Rightarrow> bytes \<Rightarrow> (isupport_union, unit) name_map \<Rightarrow> nat option" where
  "isupport_len utf8_error name m =
     (case get_parsed fst name (u16_value utf8_error) m of Some (Inr v) \<Rightarrow> Some v | _ \<Rightarrow> None)"

definition or_else :: "'v option \<Rightarrow> 'v option \<Rightarrow> 'v option" where
  "or_else a b = (case a of Some v \<Rightarrow> Some v | None \<Rightarrow> b)"

definition some_or :: "'v \<Rightarrow> 'v option \<Rightarrow> 'v" where
  "some_or d x = (case x of Some v \<Rightarrow> v | None \<Rightarrow> d)"

definition calc_source_len :: "type_ids \<Rightarrow> client_state \<Rightarrow> source option \<Rightarrow> bool \<Rightarrow> nat" where
  "calc_source_len tid cs src trust_notilde =
     (let ln = map_option (\<lambda>v. length (src_nick v)) src;
          (lu, lh) =
            (case Option.bind src userhost of
               Some uh \<Rightarrow>
                 (map_option (\<lambda>u. if trust_notilde then length u else len_with_tilde u) (uh_user uh),
                  Some (length (uh_host uh)))
             | None \<Rightarrow> (None, None))
      in case (ln, lu, lh) of
           (Some ln, Some lu, Some lh) \<Rightarrow> usize_sat (usize_sat (usize_sat ln lu) lh) 2
         | _ \<Rightarrow>
             (case cs_get tid ISupport as_isupport cs of
                Some isupport \<Rightarrow>
                  (let len = some_or 9 (or_else ln (isupport_len [] ''NICKLEN'' isupport));
                       len = usize_sat len (some_or 10 (or_else lu (isupport_len [] ''USERLEN'' isupport)));
                       len = usize_sat len (some_or 64 (or_else lh (isupport_len [] ''HOSTLEN'' isupport)))
                   in usize_sat len 2)
              | None \<Rightarrow> DEFAULT_SOURCE_LEN))"

definition update_source_len_from :: "type_ids \<Rightarrow> source option \<Rightarrow> bool \<Rightarrow> client_state \<Rightarrow> nat \<times> client_state" where
  "update_source_len_from tid src add_tilde cs =
     (let n = calc_source_len tid cs src (\<not> add_tilde) in (n, cs\<lparr>cs_source_len := n\<rparr>))"

definition update_source_len :: "type_ids \<Rightarrow> client_state \<Rightarrow> nat \<times> client_state" where
  "update_source_len tid cs =
     (let src = cs_get tid ClientSource as_source cs; n = calc_source_len tid cs src False
      in (n, cs\<lparr>cs_source_len := n\<rparr>))"

section \<open>Client logic\<close>

record ('h, 'c, 'v, 'a, 'l) client_logic =
  cl_timeout :: time_limits
  cl_queue :: "('a, 'l) queue"
  cl_state :: client_state
  cl_handlers :: "('h, 'c, 'v, client_state, 'a, 'l) handlers"

definition cl_new :: "nat \<Rightarrow> ('h, 'c, 'v, 'a, 'l) client_logic" where
  "cl_new now = \<lparr>cl_timeout = tl_default, cl_queue = queue_new now, cl_state = cs_new, cl_handlers = handlers_default\<rparr>"

definition with_queue :: "('a, 'l) queue \<Rightarrow> ('h, 'c, 'v, 'a, 'l) client_logic \<Rightarrow> ('h, 'c, 'v, 'a, 'l) client_logic" where
  "with_queue q cl = cl\<lparr>cl_queue := q\<rparr>"

definition with_state :: "client_state \<Rightarrow> ('h, 'c, 'v, 'a, 'l) client_logic \<Rightarrow> ('h, 'c, 'v, 'a, 'l) client_logic" where
  "with_state st cl = cl\<lparr>cl_state := st\<rparr>"

definition with_read_timeout :: "nat \<Rightarrow> ('h, 'c, 'v, 'a, 'l) client_logic \<Rightarrow> ('h, 'c, 'v, 'a, 'l) client_logic" where
  "with_read_timeout timeout cl = cl\<lparr>cl_timeout := tl_set_read_timeout (Some timeout) (cl_timeout cl)\<rparr>"

definition with_write_timeout :: "nat \<Rightarrow> ('h, 'c, 'v, 'a, 'l) client_logic \<Rightarrow> ('h, 'c, 'v, 'a, 'l) client_logic" where
  "with_write_timeout timeout cl = cl\<lparr>cl_timeout := tl_set_write_timeout (Some timeout) (cl_timeout cl)\<rparr>"

definition cl_set_read_timeout :: "nat option \<Rightarrow> ('h, 'c, 'v, 'a, 'l) client_logic \<Rightarrow> ('h, 'c, 'v, 'a, 'l) client_logic" where
  "cl_set_read_timeout timeout cl = cl\<lparr>cl_timeout := tl_set_read_timeout timeout (cl_timeout cl)\<rparr>"

definition cl_set_write_timeout :: "nat option \<Rightarrow> ('h, 'c, 'v, 'a, 'l) client_logic \<Rightarrow> ('h, 'c, 'v, 'a, 'l) client_logic" where
  "cl_set_write_timeout timeout cl = cl\<lparr>cl_timeout := tl_set_write_timeout timeout (cl_timeout cl)\<rparr>"

text \<open>\<open>mk\<close> is \<open>MakeHandler::make_handler\<close>: it reads the state and queues messages.  When it fails,
  what it queued stays queued.\<close>

type_synonym ('t, 'h, 'c, 'v, 'a, 'l, 'e) make_handler =
  "client_state \<Rightarrow> ('a, 'l) queue_guard \<Rightarrow> 't \<Rightarrow>
   (('h, 'c, 'v, client_state, 'a, 'l) handler, 'e) result \<times> ('a, 'l) queue_guard"

definition add_with_sender ::
  "('c, 'v) sender \<Rightarrow> ('t, 'h, 'c, 'v, 'a, 'l, 'e) make_handler \<Rightarrow> 't \<Rightarrow> ('h, 'c, 'v, 'a, 'l) client_logic \<Rightarrow>
   (nat, 'e) result \<times> ('h, 'c, 'v, 'a, 'l) client_logic" where
  "add_with_sender snder mk v cl =
     (let (r, g) = mk (cl_state cl) (queue_edit (cl_queue cl)) v; cl1 = cl\<lparr>cl_queue := qg_queue g\<rparr> in
      case r of
        Inl e \<Rightarrow> (Inl e, cl1)
      | Inr h \<Rightarrow> (let (i, hs) = handlers_add h snder (cl_handlers cl1) in (Inr i, cl1\<lparr>cl_handlers := hs\<rparr>)))"

text \<open>\<open>channel\<close> is \<open>MakeHandler::make_channel\<close> for the channel specification.\<close>

definition add_with_spec ::
  "('c, 'v) sender \<times> 'r \<Rightarrow> ('t, 'h, 'c, 'v, 'a, 'l, 'e) make_handler \<Rightarrow> 't \<Rightarrow> ('h, 'c, 'v, 'a, 'l) client_logic \<Rightarrow>
   (nat \<times> 'r, 'e) result \<times> ('h, 'c, 'v, 'a, 'l) client_logic" where
  "add_with_spec channel mk v cl =
     (let (snder, recv) = channel; (r, cl') = add_with_sender snder mk v cl in
      (bind_res r (\<lambda>i. Inr (i, recv)), cl'))"

text \<open>The blanket conversion of a self-made handler: it only queues its messages.\<close>

definition self_made ::
  "('h \<Rightarrow> client_state \<Rightarrow> ('a, 'l) queue_guard \<Rightarrow> ('a, 'l) queue_guard) \<Rightarrow>
   (('h, 'c, 'v, client_state, 'a, 'l) handler, 'h, 'c, 'v, 'a, 'l, 'e) make_handler" where
  "self_made queue_msgs st g h = (Inr h, queue_msgs (h_state h) st g)"

definition cl_reset :: "nat \<Rightarrow> ('h, 'c, 'v, 'a, 'l) client_logic \<Rightarrow> ('h, 'c, 'v, 'a, 'l) client_logic" where
  "cl_reset now cl =
     cl\<lparr>cl_handlers := handlers_cancel (cl_handlers cl), cl_queue := queue_reset now (cl_queue cl),
        cl_state := cs_clear (cl_state cl)\<rparr>"

definition needs_run :: "('h, 'c, 'v, 'a, 'l) client_logic \<Rightarrow> bool" where
  "needs_run cl \<longleftrightarrow> \<not> handlers_is_empty (cl_handlers cl) \<or> \<not> queue_is_empty (cl_queue cl)"

definition run_once :: "server_msg \<Rightarrow> ('h, 'c, 'v, 'a, 'l) client_logic \<Rightarrow> nat \<times> ('h, 'c, 'v, 'a, 'l) client_logic" where
  "run_once msg cl =
     (let (f, st, q, hs) = handlers_handle msg (cl_state cl) (adjust msg (cl_queue cl)) (cl_handlers cl)
      in (f, cl\<lparr>cl_state := st, cl_queue := q, cl_handlers := hs\<rparr>))"

section \<open>The shared state as a typed store\<close>

definition cs_ok :: "type_ids \<Rightarrow> client_state \<Rightarrow> bool" where
  "cs_ok tid cs \<longleftrightarrow> fm_ok fst (cs_state cs) \<and>
     (\<forall>e \<in> set (cs_state cs). \<exists>k. fst e = tid k \<and> key_type_ok k (snd e))"

lemma cs_ok_new: "cs_ok tid cs_new"
  by (simp add: cs_ok_def cs_new_def fm.inv_emp [of fst] fm_new_def fm_ok_def)

lemma cs_insert_eq: "cs_insert tid k v cs = cs\<lparr>cs_state := fm_insert fst (tid k, v) (cs_state cs)\<rparr>"
  by (simp add: cs_insert_def fm_insert_def)

lemma cs_ok_insert:
  assumes "cs_ok tid cs" and "key_type_ok k v"
  shows "cs_ok tid (cs_insert tid k v cs)"
proof -
  have f: "fm_ok fst (cs_state cs)" using assms(1) by (simp add: cs_ok_def)
  then have f': "fm_ok fst (fm_insert fst (tid k, v) (cs_state cs))" by (rule fm_insert_spec)
  have "e \<in> set (cs_state cs) \<or> e = (tid k, v)" if "e \<in> set (fm_insert fst (tid k, v) (cs_state cs))" for e
  proof -
    have "fm_map fst (fm_insert fst (tid k, v) (cs_state cs)) (fst e) = Some e"
      using that fm_map_Some [OF fm_ok_distinct [OF f']] by simp
    then show ?thesis using fm_insert_spec(2) [OF f, of "(tid k, v)" "fst e"] fm_map_Some [OF fm_ok_distinct [OF f]]
      by (auto split: if_splits)
  qed
  with assms f' show ?thesis unfolding cs_ok_def cs_insert_eq by fastforce
qed

lemma cs_get_insert:
  assumes "cs_ok tid cs" and "inj tid"
  shows "cs_get tid k' d (cs_insert tid k v cs) = (if k' = k then d v else cs_get tid k' d cs)"
  using assms fm.lookup_ins [of fst "cs_state cs" "(tid k, v)" "tid k'"]
  by (auto simp: cs_get_def cs_insert_eq cs_ok_def dest: injD)

text \<open>A write through \<open>get_mut\<close> keeps the types when the written value has the type of the old one.\<close>

definition same_type :: "(state_value \<Rightarrow> state_value option) \<Rightarrow> bool" where
  "same_type f \<longleftrightarrow> (\<forall>k v v'. f v = Some v' \<longrightarrow> key_type_ok k v \<longrightarrow> key_type_ok k v')"

lemma cs_get_mutE:
  assumes "cs_get_mut tid k f cs = Some cs'"
  obtains i v where "get_impl fst (cs_state cs) (length (cs_state cs)) (tid k) = Some i"
    "f (snd (cs_state cs ! i)) = Some v"
    "cs' = cs\<lparr>cs_state := (cs_state cs)[i := (fst (cs_state cs ! i), v)]\<rparr>"
  using assms by (auto simp: cs_get_mut_def bind_eq_Some_conv)

lemma cs_index:
  assumes "fm_ok fst m" and "get_impl fst m (length m) k = Some i"
  shows "i < length m" and "fst (m ! i) = k"
proof -
  have "fm_map fst m k = Some (m ! i)" using fm_get_map [OF assms(1), of k] assms(2) by (simp add: fm_get_def)
  then show "fst (m ! i) = k" using fm_map_Some [OF fm_ok_distinct [OF assms(1)]] by auto
  show "i < length m" using assms by (auto simp: get_impl_def fm_ok_def dest: binary_search_Inr split: sum.splits if_splits)
qed

lemma cs_ok_get_mut:
  assumes "cs_ok tid cs" and "same_type f" and "cs_get_mut tid k f cs = Some cs'"
  shows "cs_ok tid cs'"
proof -
  from assms(3) obtain i v where i: "get_impl fst (cs_state cs) (length (cs_state cs)) (tid k) = Some i"
    "f (snd (cs_state cs ! i)) = Some v"
    and cs': "cs' = cs\<lparr>cs_state := (cs_state cs)[i := (fst (cs_state cs ! i), v)]\<rparr>" by (rule cs_get_mutE)
  have f: "fm_ok fst (cs_state cs)" using assms(1) by (simp add: cs_ok_def)
  note idx = cs_index [OF f i(1)]
  have "map fst ((cs_state cs)[i := (fst (cs_state cs ! i), v)]) = map fst (cs_state cs)"
    by (metis fst_conv list_update_id map_update)
  then have f': "fm_ok fst ((cs_state cs)[i := (fst (cs_state cs ! i), v)])" using f by (simp add: fm_ok_def)
  have "cs_state cs ! i \<in> set (cs_state cs)" using idx(1) by simp
  then obtain k2 where "fst (cs_state cs ! i) = tid k2" "key_type_ok k2 (snd (cs_state cs ! i))"
    using assms(1) unfolding cs_ok_def by blast
  then have "\<exists>k2. fst (cs_state cs ! i) = tid k2 \<and> key_type_ok k2 v" using assms(2) i(2) unfolding same_type_def by blast
  then have "\<forall>e \<in> set ((cs_state cs)[i := (fst (cs_state cs ! i), v)]). \<exists>k. fst e = tid k \<and> key_type_ok k (snd e)"
    using assms(1) set_update_subset_insert [of "cs_state cs" i "(fst (cs_state cs ! i), v)"]
    unfolding cs_ok_def by fastforce
  with f' show ?thesis by (simp add: cs_ok_def cs')
qed

text \<open>What the crate and its handlers do to the state: inserting values of the type of their key,
  writing through \<open>get_mut\<close>, clearing, and updating the assumed length.\<close>

inductive cs_step :: "type_ids \<Rightarrow> client_state \<Rightarrow> client_state \<Rightarrow> bool" for tid where
  cs_step_insert: "key_type_ok k v \<Longrightarrow> cs_step tid cs (cs_insert tid k v cs)"
| cs_step_get_mut: "same_type f \<Longrightarrow> cs_get_mut tid k f cs = Some cs' \<Longrightarrow> cs_step tid cs cs'"
| cs_step_clear: "cs_step tid cs (cs_clear cs)"
| cs_step_set_len: "cs_step tid cs (set_source_len n cs)"
| cs_step_update_len: "cs_step tid cs (snd (update_source_len tid cs))"
| cs_step_update_len_from: "cs_step tid cs (snd (update_source_len_from tid src add_tilde cs))"

lemma cs_step_ok: "cs_step tid cs cs' \<Longrightarrow> cs_ok tid cs \<Longrightarrow> cs_ok tid cs'"
proof (induction rule: cs_step.induct)
  case (cs_step_insert k v cs)
  then show ?case by (simp add: cs_ok_insert)
next
  case (cs_step_get_mut f k cs cs')
  show ?case by (rule cs_ok_get_mut [OF cs_step_get_mut(3,1,2)])
qed (simp_all add: cs_ok_def cs_clear_def set_source_len_def update_source_len_def update_source_len_from_def Let_def fm_ok_def)

lemma cs_reachable_ok: "(cs_step tid)\<^sup>*\<^sup>* cs cs' \<Longrightarrow> cs_ok tid cs \<Longrightarrow> cs_ok tid cs'"
  by (induction rule: rtranclp_induct) (auto dest: cs_step_ok)

lemma cs_ok_typed:
  assumes "cs_ok tid cs" and "inj tid" and "fm_get fst (cs_state cs) (tid k) = Some e"
  shows "key_type_ok k (snd e)"
proof -
  have f: "fm_ok fst (cs_state cs)" using assms(1) by (simp add: cs_ok_def)
  have e: "e \<in> set (cs_state cs)" "fst e = tid k"
    using assms(3) fm_get_map [OF f] fm_map_Some [OF fm_ok_distinct [OF f]] by auto
  then obtain k2 where "fst e = tid k2" "key_type_ok k2 (snd e)" using assms(1) unfolding cs_ok_def by blast
  then show ?thesis using e(2) assms(2) by (auto dest: injD)
qed

section \<open>The assumed length of the source\<close>

lemma usize_sat_le: "usize_sat a b \<le> usize_max"
  by (simp add: usize_sat_def)

lemma usize_sat_ge2: "2 \<le> usize_sat a 2"
  by (simp add: usize_sat_def usize_max_def)

lemma calc_source_len_range: "2 \<le> calc_source_len tid cs src t \<and> calc_source_len tid cs src t \<le> usize_max"
  by (simp add: calc_source_len_def usize_sat_le usize_sat_ge2 DEFAULT_SOURCE_LEN_def Let_def split: prod.splits option.splits)
    (simp add: usize_max_def)

lemma len_with_tilde_ge: "length u \<le> len_with_tilde u"
  by (simp add: len_with_tilde_def)

lemma calc_source_len_complete:
  assumes "userhost s = Some uh" and "uh_user uh = Some u" and "length (src_nick s) + len_with_tilde u + length (uh_host uh) + 2 \<le> usize_max"
  shows "calc_source_len tid cs (Some s) False = length (src_nick s) + len_with_tilde u + length (uh_host uh) + 2"
  using assms by (simp add: calc_source_len_def usize_sat_def)

section \<open>Properties\<close>

text \<open>C27: the shared state is a typed store: whatever is inserted, written through references, cleared
  and recomputed, a value found under a key always has the type of the key, so that no downcast
  fails.\<close>

theorem state_lookup_typed:
  assumes "(cs_step tid)\<^sup>*\<^sup>* cs_new cs" and "inj tid" and "fm_get fst (cs_state cs) (tid k) = Some e"
  shows "key_type_ok k (snd e)"
  using cs_ok_typed [OF cs_reachable_ok [OF assms(1) cs_ok_new] assms(2,3)] .

theorem state_lookup_typed_witness:
  "let tid = (\<lambda>k. case k of ClientSource \<Rightarrow> 4 | ServerSource \<Rightarrow> 1 | Caps \<Rightarrow> 5 | ISupport \<Rightarrow> 0 | ServerVersion \<Rightarrow> 3 | Account \<Rightarrow> 2);
       cs = cs_insert tid Account (VAccount None) cs_new
   in fm_get fst (cs_state cs) (tid Account) = Some (2, VAccount None) \<and> key_type_ok Account (VAccount None)"
proof -
  define tid :: type_ids where "tid = (\<lambda>k. case k of ClientSource \<Rightarrow> 4 | ServerSource \<Rightarrow> 1 | Caps \<Rightarrow> 5 | ISupport \<Rightarrow> 0 | ServerVersion \<Rightarrow> 3 | Account \<Rightarrow> 2)"
  have inj: "inj tid" by (auto simp: tid_def inj_def split: state_key.splits)
  define cs where "cs = cs_insert tid Account (VAccount None) cs_new"
  have r: "(cs_step tid)\<^sup>*\<^sup>* cs_new cs" unfolding cs_def by (rule r_into_rtranclp, rule cs_step_insert) simp
  have g: "fm_get fst (cs_state cs) (tid Account) = Some (2, VAccount None)"
    unfolding cs_def cs_insert_eq using fm.lookup_ins [of fst "cs_state cs_new" "(tid Account, VAccount None)" "tid Account"] cs_ok_new [of tid]
    by (simp add: cs_ok_def tid_def)
  from state_lookup_typed [OF r inj g] g show ?thesis by (simp add: Let_def tid_def cs_def)
qed

text \<open>the assumed length of the client's source is at least 2 and fits a \<open>usize\<close>, whatever the source
  and the limits of the server are, so that the unchecked \<open>NonZeroUsize\<close> is sound; when the source is
  complete it is no less than the length the source is written with, with a tilde in front of the user
  or without.\<close>

lemma source_len_sound:
  assumes "userhost s = Some uh" and "uh_user uh = Some u" and "src_len s < usize_max"
  shows "2 \<le> calc_source_len tid cs src t \<and> calc_source_len tid cs src t \<le> usize_max \<and>
    length (src_write s) \<le> calc_source_len tid cs (Some s) False \<and>
    calc_source_len tid cs (Some s) False = src_len s + (if no_tilde u then 1 else 0)"
proof -
  have "src_len s = length (src_nick s) + length u + length (uh_host uh) + 2"
    using assms(1,2) by (simp add: src_len_def uh_len_def)
  with calc_source_len_complete [OF assms(1,2), of tid cs] assms(3)
  have "calc_source_len tid cs (Some s) False = src_len s + (if no_tilde u then 1 else 0)"
    by (simp add: len_with_tilde_def)
  with calc_source_len_range [of tid cs src t] show ?thesis by (simp add: src_write_length)
qed

text \<open>after a reset the client has no handlers, no queued messages and no shared state, so it does
  not need to run; the assumed length of the source is the one thing that stays.\<close>

lemma reset_forgets:
  "\<not> needs_run (cl_reset now cl) \<and> cs_get tid k d (cl_state (cl_reset now cl)) = None \<and>
   cs_source_len (cl_state (cl_reset now cl)) = cs_source_len (cl_state cl)"
  by (simp add: needs_run_def cl_reset_def handlers_is_empty_def handlers_cancel_def queue_is_empty_def queue_reset_def
      queue_clear_def use_no_labeler_def Let_def cs_clear_def cs_get_def fm.lookup_emp [unfolded fm_new_def])

end
