(* ===== verification/ClientHandlers.thy ===== *)
theory ClientHandlers
  imports ClientLogic
begin

text \<open>
  The built-in handlers: \<open>client/handlers/ping.rs\<close>, \<open>client/handlers/autoreply.rs\<close> and
  \<open>client/handlers/track.rs\<close>.  The hash of an instant (\<open>util/hash.rs\<close>) folds a 64 bit SipHash, whose
  keys depend on the platform: \<open>siphash\<close> is a parameter.  Clock readings are arguments.
\<close>

unbundle bit_operations_syntax

section \<open>Ping\<close>

definition mangle :: "('x \<Rightarrow> 64 word) \<Rightarrow> 'x \<Rightarrow> 32 word" where
  "mangle siphash h = (let hash = siphash h in ucast (drop_bit 32 hash XOR (hash AND 0xFFFFFFFF)))"

fun ping_value :: "32 word \<Rightarrow> bytes \<Rightarrow> 32 word option" where
  "ping_value value [] = Some value"
| "ping_value value (byte # bs) =
     (if code byte < 48 \<or> 55 < code byte then None
      else ping_value (push_bit 3 value OR word_of_nat (code byte - 48)) bs)"

text \<open>The source of a message is well formed, and \<open>owning_merged\<close> returns it.\<close>

definition ping_handle ::
  "(nat \<Rightarrow> 64 word) \<Rightarrow> nat \<Rightarrow> server_msg \<Rightarrow> 's \<Rightarrow> ('a, 'l) queue_guard \<Rightarrow>
   ('c, source option \<times> nat) sender_ref \<Rightarrow> nat \<Rightarrow>
   unit control_flow \<times> 's \<times> ('a, 'l) queue_guard \<times> ('c, source option \<times> nat) sender_ref \<times> nat" where
  "ping_handle siphash now msg st g sr t =
     (if sm_kind msg = KCmd ''PONG'' then
        (case snd (split_last (sm_args msg)) of
           None \<Rightarrow> (Continue, st, g, sr, t)
         | Some lst \<Rightarrow>
             (case ping_value 0 lst of
                None \<Rightarrow> (Continue, st, g, sr, t)
              | Some value \<Rightarrow>
                  if mangle siphash t = value then
                    (let (_, sr') = sr_send (Option.bind (sm_source msg) owning_merged, now - t) sr
                     in (Break (), st, g, sr', t))
                  else (Continue, st, g, sr, t)))
      else (Continue, st, g, sr, t))"

text \<open>\<open>None\<close> is the panic of an unwrap.\<close>

definition ping_queue_msgs :: "(nat \<Rightarrow> 64 word) \<Rightarrow> nat \<Rightarrow> ('a, 'l) queue_guard \<Rightarrow> ('a, 'l) queue_guard option" where
  "ping_queue_msgs siphash t g =
     (case from_bytes Arg (fmt_base 8 (unat (mangle siphash t))) of
        Inl _ \<Rightarrow> None
      | Inr hash \<Rightarrow>
          (let msg = client_new_cmd ''PING'' in Some (qg_push (msg\<lparr>cm_args := add_word hash (cm_args msg)\<rparr>) g)))"

text \<open>A function over a generic sink returns the messages it sends; a queue takes them in order.\<close>

definition pong :: "server_msg \<Rightarrow> bool \<times> client_msg list" where
  "pong msg =
     (let retval = (sm_kind msg = KCmd ''PING'') in
      if retval then
        (let reply = client_new_cmd ''PONG'';
             reply =
               (case snd (split_last (sm_args msg)) of
                  Some lst \<Rightarrow> reply\<lparr>cm_args := snd (args_add lst (cm_args reply))\<rparr>
                | None \<Rightarrow> reply)
         in (retval, [reply]))
      else (retval, []))"

definition qg_send_all :: "client_msg list \<Rightarrow> ('a, 'l) queue_guard \<Rightarrow> ('a, 'l) queue_guard" where
  "qg_send_all ms g = foldl (\<lambda>g m. qg_push m g) g ms"

definition auto_pong_handle ::
  "server_msg \<Rightarrow> 's \<Rightarrow> ('a, 'l) queue_guard \<Rightarrow> ('c, unit) sender_ref \<Rightarrow> unit \<Rightarrow>
   unit control_flow \<times> 's \<times> ('a, 'l) queue_guard \<times> ('c, unit) sender_ref \<times> unit" where
  "auto_pong_handle msg st g sr h = (Continue, st, qg_send_all (snd (pong msg)) g, sr, h)"

section \<open>Replies to CTCP queries (\<open>autoreply.rs\<close>)\<close>

record ctcp_version =
  cv_version :: bytes
  cv_source :: bytes

definition ctcp_reply :: "bytes \<Rightarrow> bytes \<Rightarrow> bytes \<Rightarrow> client_msg" where
  "ctcp_reply nick cmd body =
     (let msg = client_new_cmd ''NOTICE'';
          args = add_word nick (cm_args msg);
          args = snd (args_add (ctcp_into_line \<lparr>ctcp_cmd = cmd, ctcp_body = body\<rparr>) args)
      in msg\<lparr>cm_args := args\<rparr>)"

definition ctcp_version_handle ::
  "server_msg \<Rightarrow> 's \<Rightarrow> ('a, 'l) queue_guard \<Rightarrow> ('c, unit) sender_ref \<Rightarrow> ctcp_version \<Rightarrow>
   unit control_flow \<times> 's \<times> ('a, 'l) queue_guard \<times> ('c, unit) sender_ref \<times> ctcp_version" where
  "ctcp_version_handle raw st g sr h =
     (case basic_unary_server True ''PRIVMSG'' raw of
        Inl _ \<Rightarrow> (Continue, st, g, sr, h)
      | Inr msg \<Rightarrow>
          (let msg = targeted_map ctcp_parse msg in
           case tm_source msg of
             None \<Rightarrow> (Continue, st, g, sr, h)
           | Some src \<Rightarrow>
               if ctcp_cmd (tm_value msg) = ''VERSION'' \<and> cv_version h \<noteq> [] then
                 (Continue, st, qg_push (ctcp_reply (src_nick src) ''VERSION'' (cv_version h)) g, sr, h)
               else if ctcp_cmd (tm_value msg) = ''SOURCE'' \<and> cv_source h \<noteq> [] then
                 (Continue, st, qg_push (ctcp_reply (src_nick src) ''SOURCE'' (cv_source h)) g, sr, h)
               else (Continue, st, g, sr, h)))"

section \<open>Tracking the client's source (\<open>track.rs\<close>)\<close>

definition debug_byte :: "byte option \<Rightarrow> string" where
  "debug_byte b = (case b of None \<Rightarrow> ''None'' | Some c \<Rightarrow> ''Some('' @ fmt_base 10 (code c) @ '')'')"

text \<open>\<open>Inl None\<close> is an item about another nickname.\<close>

definition parse_userhost_item :: "bytes \<Rightarrow> bytes \<Rightarrow> (UserHost, ParseError option) result" where
  "parse_userhost_item item nick =
     (let sp = sp_new False item;
          (r, sp1) = save_end (\<lambda>x. sp_string Nick True (until_byte_eq (CHR ''*'') (until_byte_eq (CHR ''='') x))) sp
      in if r \<noteq> Inr nick then Inl None
         else
           (let (b, sp2) = next_byte sp1;
                is_op =
                  (case b of
                     Some c \<Rightarrow>
                       if c = CHR ''='' then Inr sp2
                       else if c = CHR ''*'' then
                         (let (b2, sp3) = next_byte sp2 in
                          if b2 = Some (CHR ''='') then Inr sp3
                          else Inl (Some (InvalidField ''is_op'' (''expected =, got '' @ debug_byte b2))))
                       else Inl (Some (InvalidField ''is_op'' (''expected * or =, got '' @ debug_byte b)))
                   | None \<Rightarrow> Inl (Some (InvalidField ''is_op'' (''expected * or =, got '' @ debug_byte b))))
            in bind_res is_op (\<lambda>sp4.
                 let (b3, sp5) = next_byte sp4 in
                 if b3 = Some (CHR ''+'') \<or> b3 = Some (CHR ''-'')
                 then map_err Some (uh_parse (fst (rest_or_default Word sp5)))
                 else Inl (Some (InvalidField ''is_away'' (''expected + or -, got '' @ debug_byte b3))))))"

fun first_userhost :: "bytes list \<Rightarrow> bytes \<Rightarrow> UserHost option" where
  "first_userhost [] nick = None"
| "first_userhost (item # items) nick =
     (case parse_userhost_item item nick of Inr uh \<Rightarrow> Some uh | Inl _ \<Rightarrow> first_userhost items nick)"

text \<open>Writing the client's source through the reference, and recomputing the assumed length.\<close>

definition write_source :: "source \<Rightarrow> state_value \<Rightarrow> state_value option" where
  "write_source s v = (case v of VSource _ \<Rightarrow> Some (VSource s) | _ \<Rightarrow> None)"

definition put_client_source :: "type_ids \<Rightarrow> source \<Rightarrow> client_state \<Rightarrow> client_state" where
  "put_client_source tid s st =
     (case cs_get_mut tid ClientSource (write_source s) st of
        Some st' \<Rightarrow> snd (update_source_len tid st')
      | None \<Rightarrow> st)"

definition track_step :: "type_ids \<Rightarrow> server_msg \<Rightarrow> client_state \<Rightarrow> unit control_flow \<times> client_state" where
  "track_step tid msg st =
     (if kind_as_str (sm_kind msg) = ''302'' then
        (case args_all (sm_args msg) of
           Some (_ # items) \<Rightarrow>
             (case cs_get tid ClientSource as_source st of
                None \<Rightarrow> (Break (), st)
              | Some src \<Rightarrow>
                  (case first_userhost items (src_nick src) of
                     Some uh \<Rightarrow> (Continue, put_client_source tid (src\<lparr>userhost := Some uh\<rparr>) st)
                   | None \<Rightarrow> (Continue, st)))
         | _ \<Rightarrow> (Continue, st))
      else if kind_as_str (sm_kind msg) = ''NICK'' then
        (case args_all (sm_args msg) of
           Some [nick] \<Rightarrow>
             (case cs_get tid ClientSource as_source st of
                None \<Rightarrow> (Break (), st)
              | Some src \<Rightarrow>
                  (case from_super Nick nick of
                     Inl _ \<Rightarrow> (Continue, st)
                   | Inr nick \<Rightarrow>
                       (case sm_source msg of
                          Some m_src \<Rightarrow>
                            if src_nick m_src = src_nick src
                            then (Continue, put_client_source tid (src\<lparr>src_nick := nick\<rparr>) st)
                            else (Continue, st)
                        | None \<Rightarrow> (Continue, st))))
         | _ \<Rightarrow> (Continue, st))
      else if kind_as_str (sm_kind msg) = ''CHGHOST'' then
        (case args_all (sm_args msg) of
           Some [user, host] \<Rightarrow>
             (case cs_get tid ClientSource as_source st of
                None \<Rightarrow> (Break (), st)
              | Some src \<Rightarrow>
                  (case sm_source msg of
                     Some m_src \<Rightarrow>
                       if src_nick m_src = src_nick src then
                         (case from_super User user of
                            Inl _ \<Rightarrow> (Continue, st)
                          | Inr user \<Rightarrow>
                              (Continue, put_client_source tid
                                 (src\<lparr>userhost := Some \<lparr>uh_user = Some user, uh_host = host\<rparr>\<rparr>) st))
                       else (Continue, st)
                   | None \<Rightarrow> (Continue, st)))
         | _ \<Rightarrow> (Continue, st))
      else (Continue, st))"

definition track_handle ::
  "type_ids \<Rightarrow> server_msg \<Rightarrow> client_state \<Rightarrow> ('a, 'l) queue_guard \<Rightarrow> ('c, unit) sender_ref \<Rightarrow> unit \<Rightarrow>
   unit control_flow \<times> client_state \<times> ('a, 'l) queue_guard \<times> ('c, unit) sender_ref \<times> unit" where
  "track_handle tid msg st g sr h = (let (cf, st') = track_step tid msg st in (cf, st', g, sr, h))"

definition track_queue_msgs :: "type_ids \<Rightarrow> client_state \<Rightarrow> ('a, 'l) queue_guard \<Rightarrow> ('a, 'l) queue_guard" where
  "track_queue_msgs tid st g =
     (case cs_get tid ClientSource as_source st of
        Some src \<Rightarrow>
          (let msg = client_new_cmd ''USERHOST''
           in qg_push (msg\<lparr>cm_args := snd (args_add (src_nick src) (cm_args msg))\<rparr>) g)
      | None \<Rightarrow> g)"

section \<open>Octal numbers\<close>

lemma ping_value_append: "ping_value v (xs @ ys) = Option.bind (ping_value v xs) (\<lambda>w. ping_value w ys)"
  by (induction xs arbitrary: v) auto

lemma octal_step:
  assumes "d < 8"
  shows "push_bit 3 (word_of_nat n :: 32 word) OR word_of_nat d = word_of_nat (n * 8 + d)"
proof -
  have t: "(word_of_nat d :: 32 word) = take_bit 3 (word_of_nat d)" using assms by (simp add: take_bit_of_nat take_bit_nat_eq_self)
  have "push_bit 3 (word_of_nat n :: 32 word) AND word_of_nat d = 0"
    by (subst t) (rule bit_eqI, simp add: bit_and_iff bit_push_bit_iff bit_take_bit_iff)
  then have "push_bit 3 (word_of_nat n :: 32 word) + word_of_nat d = push_bit 3 (word_of_nat n) OR word_of_nat d"
    by (rule disjunctive_add_eq_or)
  then show ?thesis by (simp add: push_bit_eq_mult mult.commute)
qed

lemma ping_digit: "d < 8 \<Longrightarrow> ping_value (word_of_nat n) [digit_char d] = Some (word_of_nat (n * 8 + d))"
  by (simp add: digit_char_def code_char_of_mod octal_step del: of_nat_add of_nat_mult)

text \<open>The octal digits of a number are read back as the number, wrapped to 32 bits.\<close>

lemma ping_value_fmt: "ping_value 0 (fmt_base 8 n) = Some (word_of_nat n)"
proof (induction n rule: less_induct)
  case (less n)
  show ?case
  proof (cases "n < 8")
    case True
    with ping_digit [of n 0] show ?thesis by (subst fmt_base.simps) simp
  next
    case False
    then have "ping_value 0 (fmt_base 8 (n div 8)) = Some (word_of_nat (n div 8))" using less by simp
    with False ping_digit [of "n mod 8" "n div 8"] show ?thesis
      by (subst fmt_base.simps) (simp add: ping_value_append del: of_nat_add of_nat_mult)
  qed
qed

lemma digit_char_Arg: "d < 16 \<Longrightarrow> digit_char d \<notin> {CHR 0x00, CHR 0x0A, CHR 0x0D, CHR '' '', CHR '':''}"
proof -
  assume "d < 16"
  then have "48 \<le> code (digit_char d)" "code (digit_char d) \<noteq> 58" by (auto simp: digit_char_def code_char_of_mod)
  then show ?thesis by auto
qed

lemma octal_arg: "from_bytes Arg (fmt_base 8 n) = Inr (fmt_base 8 n)"
proof -
  have d: "c \<notin> {CHR 0x00, CHR 0x0A, CHR 0x0D, CHR '' '', CHR '':''}" if "c \<in> set (fmt_base 8 n)" for c
    using that set_fmt_base [of 8 c n] digit_char_Arg by fastforce
  then have "valid Word (fmt_base 8 n)" unfolding valid_Word_iff by blast
  moreover have "hd (fmt_base 8 n) \<noteq> CHR '':''" using d [OF hd_in_set [OF fmt_base_nonempty]] by blast
  ultimately have "valid Arg (fmt_base 8 n)" by (simp add: valid_Arg_iff fmt_base_nonempty)
  then show ?thesis by (simp add: from_bytes_def valid_def)
qed

section \<open>Items of a \<open>USERHOST\<close> reply\<close>

text \<open>The parser, on the bytes of the item.\<close>

definition item_tail :: "bytes \<Rightarrow> (UserHost, ParseError option) result" where
  "item_tail s =
     (case s of
        c # rest \<Rightarrow>
          if c \<in> {CHR ''+'', CHR ''-''} then map_err Some (uh_parse rest)
          else Inl (Some (InvalidField ''is_away'' (''expected + or -, got '' @ debug_byte (Some c))))
      | [] \<Rightarrow> Inl (Some (InvalidField ''is_away'' (''expected + or -, got '' @ debug_byte None))))"

lemma item_tail_splitter:
  "wf_splitter sp \<Longrightarrow>
   (let (b3, sp5) = next_byte sp in
      if b3 = Some (CHR ''+'') \<or> b3 = Some (CHR ''-'')
      then map_err Some (uh_parse (fst (rest_or_default Word sp5)))
      else Inl (Some (InvalidField ''is_away'' (''expected + or -, got '' @ debug_byte b3)))) = item_tail (as_slice sp)"
  by (cases "as_slice sp") (auto simp: item_tail_def split_def slice_simps next_byte_slice)

lemma next_byte_Cons:
  assumes "wf_splitter sp" and "as_slice sp = c # s"
  obtains sp' where "next_byte sp = (Some c, sp')" "wf_splitter sp'" "as_slice sp' = s"
  using assms next_byte_fst [of sp] next_byte_slice [of sp] next_byte_wf [of sp] by (cases "next_byte sp") auto

lemma userhost_item_nick:
  fixes nick t :: bytes
  defines "sp \<equiv> sp_new False (nick @ t)"
  assumes "valid Nick nick" and "CHR ''='' \<notin> set nick" and "CHR ''*'' \<notin> set nick"
    and "takeWhile (\<lambda>c. c \<noteq> CHR ''*'') (takeWhile (\<lambda>c. c \<noteq> CHR ''='') t) = []"
  obtains sp' where
    "save_end (\<lambda>x. sp_string Nick True (until_byte_eq (CHR ''*'') (until_byte_eq (CHR ''='') x))) sp = (Inr nick, sp')"
    "wf_splitter sp'" "as_slice sp' = t"
proof -
  let ?g = "\<lambda>x. until_byte_eq (CHR ''*'') (until_byte_eq (CHR ''='') x)"
  let ?r = "save_end (\<lambda>x. sp_string Nick True (?g x)) sp"
  have g: "truncates ?g" by (rule truncates_comp [OF truncates_until_byte_eq truncates_until_byte_eq])
  note r = save_end_string [OF sp_new_wf [of False "nick @ t"] g, of Nick True, folded sp_def]
  have "as_slice (?g sp) = nick"
    using assms(3,4,5) by (simp add: until_byte_eq_slice sp_def sp_new_slice takeWhile_append)
  with r assms(2) have "fst ?r = Inr nick" "as_slice (snd ?r) = t" "wf_splitter (snd ?r)"
    by (simp_all add: slice_string_all sp_def sp_new_slice)
  then show thesis using that [of "snd ?r"] by (cases ?r) simp
qed

lemma parse_userhost_item_eq:
  assumes "valid Nick nick" and "CHR ''='' \<notin> set nick" and "CHR ''*'' \<notin> set nick"
  shows "parse_userhost_item (nick @ CHR ''='' # s) nick = item_tail s"
    and "parse_userhost_item (nick @ CHR ''*'' # CHR ''='' # s) nick = item_tail s"
proof -
  obtain sp1 where 1: "save_end (\<lambda>x. sp_string Nick True (until_byte_eq (CHR ''*'') (until_byte_eq (CHR ''='') x)))
      (sp_new False (nick @ CHR ''='' # s)) = (Inr nick, sp1)" "wf_splitter sp1" "as_slice sp1 = CHR ''='' # s"
    by (rule userhost_item_nick [OF assms, of "CHR ''='' # s"]) simp_all
  obtain sp2 where 2: "next_byte sp1 = (Some (CHR ''=''), sp2)" "wf_splitter sp2" "as_slice sp2 = s"
    by (rule next_byte_Cons [OF 1(2,3)])
  show "parse_userhost_item (nick @ CHR ''='' # s) nick = item_tail s"
    using item_tail_splitter [OF 2(2)] by (simp add: parse_userhost_item_def 1 2)
  obtain sp3 where 3: "save_end (\<lambda>x. sp_string Nick True (until_byte_eq (CHR ''*'') (until_byte_eq (CHR ''='') x)))
      (sp_new False (nick @ CHR ''*'' # CHR ''='' # s)) = (Inr nick, sp3)" "wf_splitter sp3" "as_slice sp3 = CHR ''*'' # CHR ''='' # s"
    by (rule userhost_item_nick [OF assms, of "CHR ''*'' # CHR ''='' # s"]) simp_all
  obtain sp4 where 4: "next_byte sp3 = (Some (CHR ''*''), sp4)" "wf_splitter sp4" "as_slice sp4 = CHR ''='' # s"
    by (rule next_byte_Cons [OF 3(2,3)])
  obtain sp5 where 5: "next_byte sp4 = (Some (CHR ''=''), sp5)" "wf_splitter sp5" "as_slice sp5 = s"
    by (rule next_byte_Cons [OF 4(2,3)])
  show "parse_userhost_item (nick @ CHR ''*'' # CHR ''='' # s) nick = item_tail s"
    using item_tail_splitter [OF 5(2)] by (simp add: parse_userhost_item_def 3 4 5)
qed

section \<open>The tracked source\<close>

text \<open>What a message makes of the client's source.\<close>

definition from_self :: "server_msg \<Rightarrow> source \<Rightarrow> bool" where
  "from_self msg src \<longleftrightarrow> (case sm_source msg of Some m \<Rightarrow> src_nick m = src_nick src | None \<Rightarrow> False)"

definition tracked :: "server_msg \<Rightarrow> source \<Rightarrow> source" where
  "tracked msg src =
     (case (kind_as_str (sm_kind msg), args_all (sm_args msg)) of
        (k, Some as) \<Rightarrow>
          if k = ''302'' then
            (case find (\<lambda>i. \<exists>uh. parse_userhost_item i (src_nick src) = Inr uh) (tl as) of
               Some i \<Rightarrow> src\<lparr>userhost := Some (projr (parse_userhost_item i (src_nick src)))\<rparr>
             | None \<Rightarrow> src)
          else if k = ''NICK'' \<and> length as = 1 \<and> valid Nick (hd as) \<and> from_self msg src then src\<lparr>src_nick := hd as\<rparr>
          else if k = ''CHGHOST'' \<and> length as = 2 \<and> valid User (hd as) \<and> from_self msg src
          then src\<lparr>userhost := Some \<lparr>uh_user = Some (hd as), uh_host = as ! 1\<rparr>\<rparr>
          else src
      | (_, None) \<Rightarrow> src)"

lemma first_userhost_find:
  "first_userhost items nick = map_option (\<lambda>i. projr (parse_userhost_item i nick))
     (find (\<lambda>i. \<exists>uh. parse_userhost_item i nick = Inr uh) items)"
  by (induction items) (auto split: sum.splits)

lemma same_type_write_source: "same_type (write_source s)"
  by (auto simp: same_type_def write_source_def split: state_value.splits elim!: key_type_ok.elims)

lemma cs_get_mut_get:
  assumes "cs_ok tid st" and "fm_get fst (cs_state st) (tid k) = Some e" and "f (snd e) = Some v"
  obtains st' where "cs_get_mut tid k f st = Some st'"
    "\<And>n. fm_get fst (cs_state st') n = (if n = tid k then Some (tid k, v) else fm_get fst (cs_state st) n)"
proof -
  let ?m = "cs_state st"
  have ok: "fm_ok fst ?m" using assms(1) by (simp add: cs_ok_def)
  obtain i where i: "get_impl fst ?m (length ?m) (tid k) = Some i" "?m ! i = e"
    using assms(2) by (auto simp: fm_get_def)
  note idx = cs_index [OF ok i(1)]
  let ?m' = "?m[i := (tid k, v)]"
  have "map fst ?m' = map fst ?m" using idx by (metis fst_conv list_update_id map_update)
  then have ok': "fm_ok fst ?m'" using ok by (simp add: fm_ok_def)
  have "position (\<lambda>x. fst x = fst (tid k, v)) ?m = Some i"
    using position_unique [OF fm_ok_distinct [OF ok] idx(1)] idx(2) by simp
  then have "fm_map fst ?m' n = (if n = tid k then Some (tid k, v) else fm_map fst ?m n)" for n
    using fm_map_update [OF fm_ok_distinct [OF ok], of "(tid k, v)" i n] by simp
  then have get: "fm_get fst ?m' n = (if n = tid k then Some (tid k, v) else fm_get fst ?m n)" for n
    using fm_get_map [OF ok] fm_get_map [OF ok'] by simp
  have "cs_get_mut tid k f st = Some (st\<lparr>cs_state := ?m'\<rparr>)"
    using i idx assms(3) by (simp add: cs_get_mut_def)
  then show thesis using that get by simp
qed

lemma cs_get_as_source: "cs_get tid k as_source st = Some src \<Longrightarrow> \<exists>e. fm_get fst (cs_state st) (tid k) = Some e \<and> snd e = VSource src"
  by (auto simp: cs_get_def bind_eq_Some_conv elim!: as_source.elims)

lemma cs_get_update_len [simp]: "cs_get tid k d (snd (update_source_len tid' st)) = cs_get tid k d st"
  by (simp add: cs_get_def update_source_len_def Let_def)

lemma calc_source_len_cong:
  "cs_get tid ISupport as_isupport a = cs_get tid ISupport as_isupport b \<Longrightarrow> calc_source_len tid a s t = calc_source_len tid b s t"
  by (simp only: calc_source_len_def)

lemma put_client_source_spec:
  assumes "cs_ok tid st" and "cs_get tid ClientSource as_source st = Some src"
  shows "fm_get fst (cs_state (put_client_source tid s st)) n =
      (if n = tid ClientSource then Some (n, VSource s) else fm_get fst (cs_state st) n)"
    and "cs_get tid ClientSource as_source (put_client_source tid s st) = Some s"
    and "cs_source_len (put_client_source tid s st) = calc_source_len tid (put_client_source tid s st) (Some s) False"
proof -
  obtain e where e: "fm_get fst (cs_state st) (tid ClientSource) = Some e" "snd e = VSource src"
    using cs_get_as_source [OF assms(2)] by auto
  have w: "write_source s (snd e) = Some (VSource s)" using e(2) by (simp add: write_source_def)
  obtain st' where st': "cs_get_mut tid ClientSource (write_source s) st = Some st'"
    and get: "\<And>n. fm_get fst (cs_state st') n =
      (if n = tid ClientSource then Some (tid ClientSource, VSource s) else fm_get fst (cs_state st) n)"
    by (rule cs_get_mut_get [where f = "write_source s", OF assms(1) e(1) w]) blast
  show "fm_get fst (cs_state (put_client_source tid s st)) n =
      (if n = tid ClientSource then Some (n, VSource s) else fm_get fst (cs_state st) n)"
    by (simp add: put_client_source_def st' update_source_len_def Let_def get)
  have c: "cs_get tid ClientSource as_source st' = Some s" by (simp add: cs_get_def get)
  then show "cs_get tid ClientSource as_source (put_client_source tid s st) = Some s" by (simp add: put_client_source_def st')
  show "cs_source_len (put_client_source tid s st) = calc_source_len tid (put_client_source tid s st) (Some s) False"
    using c calc_source_len_cong [of tid "snd (update_source_len tid st')" st' "Some s" False]
    by (simp add: put_client_source_def st') (simp add: update_source_len_def Let_def)
qed

lemma from_super_arg:
  assumes "valid Arg s" and "t \<in> {Nick, User}"
  shows "valid t s \<Longrightarrow> from_super t s = Inr s" and "\<not> valid t s \<Longrightarrow> \<exists>e. from_super t s = Inl e"
proof -
  have "from_super t s = from_bytes t s" using assms by (intro from_super_eq) auto
  then show "valid t s \<Longrightarrow> from_super t s = Inr s" and "\<not> valid t s \<Longrightarrow> \<exists>e. from_super t s = Inl e"
    by (auto simp: from_bytes_def valid_def split: option.splits)
qed

lemma track_nick:
  assumes "cs_get tid ClientSource as_source st = Some src" and "args_all (sm_args msg) = Some as"
    and "kind_as_str (sm_kind msg) = ''NICK''" and "\<forall>a \<in> set as. valid Arg a"
  shows "track_step tid msg st = (Continue, st) \<and> tracked msg src = src \<or>
    track_step tid msg st = (Continue, put_client_source tid (tracked msg src) st)"
proof (cases "length as = 1")
  case True
  then obtain n where n: "as = [n]" by (cases as) auto
  with assms(4) have "valid Arg n" by simp
  note fs = from_super_arg [OF this, of Nick]
  show ?thesis
  proof (cases "valid Nick n")
    case True
    with fs(1) assms(1-3) n show ?thesis by (simp add: track_step_def tracked_def from_self_def split: option.splits)
  next
    case False
    with fs(2) obtain e where "from_super Nick n = Inl e" by auto
    with False assms(1-3) n show ?thesis by (simp add: track_step_def tracked_def)
  qed
next
  case False
  with assms(1-3) show ?thesis by (auto simp: track_step_def tracked_def split: list.splits)
qed

lemma track_chghost:
  assumes "cs_get tid ClientSource as_source st = Some src" and "args_all (sm_args msg) = Some as"
    and "kind_as_str (sm_kind msg) = ''CHGHOST''" and "\<forall>a \<in> set as. valid Arg a"
  shows "track_step tid msg st = (Continue, st) \<and> tracked msg src = src \<or>
    track_step tid msg st = (Continue, put_client_source tid (tracked msg src) st)"
proof (cases "length as = 2")
  case True
  then obtain u h where uh: "as = [u, h]" by (auto simp: length_Suc_conv numeral_2_eq_2)
  with assms(4) have "valid Arg u" by simp
  note fs = from_super_arg [OF this, of User]
  show ?thesis
  proof (cases "valid User u")
    case True
    with fs(1) assms(1-3) uh show ?thesis by (simp add: track_step_def tracked_def from_self_def split: option.splits)
  next
    case False
    with fs(2) obtain e where "from_super User u = Inl e" by auto
    with False assms(1-3) uh show ?thesis by (simp add: track_step_def tracked_def split: option.splits)
  qed
next
  case False
  with assms(1-3) show ?thesis by (auto simp: track_step_def tracked_def split: list.splits)
qed

lemma track_step_cases:
  assumes src: "cs_get tid ClientSource as_source st = Some src" and "args_ok (sm_args msg)"
  shows "track_step tid msg st = (Continue, st) \<and> tracked msg src = src \<or>
    track_step tid msg st = (Continue, put_client_source tid (tracked msg src) st)"
proof (cases "args_all (sm_args msg)")
  case None
  then show ?thesis by (simp add: track_step_def tracked_def)
next
  case (Some as)
  then have as: "\<forall>a \<in> set as. valid Arg a" using assms(2) by (auto simp: args_all_def args_ok_def split: if_splits)
  consider "kind_as_str (sm_kind msg) = ''302''" | "kind_as_str (sm_kind msg) = ''NICK''"
    | "kind_as_str (sm_kind msg) = ''CHGHOST''" | "kind_as_str (sm_kind msg) \<notin> {''302'', ''NICK'', ''CHGHOST''}" by blast
  then show ?thesis
  proof cases
    case 1
    with Some src show ?thesis
      by (cases as) (simp_all add: track_step_def tracked_def first_userhost_find split: option.splits)
  next
    case 2
    with track_nick [OF src Some _ as] show ?thesis by simp
  next
    case 3
    with track_chghost [OF src Some _ as] show ?thesis by simp
  next
    case 4
    with Some show ?thesis by (simp add: track_step_def tracked_def)
  qed
qed

section \<open>Properties\<close>

text \<open>a ping finishes exactly on the \<open>PONG\<close> whose last argument is the octal number it queued,
  modulo \<open>2\<^sup>3\<^sup>2\<close>, and then sends the source of the reply and the time that has passed; the server that
  repeats the queued argument answers it.\<close>

lemma ping_answered:
  "ping_queue_msgs siphash t g =
     Some (qg_push \<lparr>cm_tags = tags_new, cm_cmd = ''PING'',
       cm_args = \<lparr>words = [fmt_base 8 (unat (mangle siphash t))], long = None\<rparr>\<rparr> g) \<and>
   (fst (ping_handle siphash now msg st g' sr t) = Break () \<longleftrightarrow>
      sm_kind msg = KCmd ''PONG'' \<and>
      (\<exists>a. snd (split_last (sm_args msg)) = Some a \<and> ping_value 0 a = Some (mangle siphash t))) \<and>
   ping_handle siphash now \<lparr>sm_tags = tgs, sm_source = None, sm_kind = KCmd ''PONG'',
       sm_args = \<lparr>words = ws @ [fmt_base 8 (unat (mangle siphash t))], long = None\<rparr>\<rparr> st g' sr t =
     (Break (), st, g', snd (sr_send (None, now - t) sr), t)"
proof (intro conjI)
  show "ping_queue_msgs siphash t g =
     Some (qg_push \<lparr>cm_tags = tags_new, cm_cmd = ''PING'',
       cm_args = \<lparr>words = [fmt_base 8 (unat (mangle siphash t))], long = None\<rparr>\<rparr> g)"
    by (simp add: ping_queue_msgs_def octal_arg client_new_cmd_def add_word_def args_empty_def)
  show "fst (ping_handle siphash now msg st g' sr t) = Break () \<longleftrightarrow>
      sm_kind msg = KCmd ''PONG'' \<and>
      (\<exists>a. snd (split_last (sm_args msg)) = Some a \<and> ping_value 0 a = Some (mangle siphash t))"
    by (auto simp: ping_handle_def split_def Let_def split: option.splits)
  show "ping_handle siphash now \<lparr>sm_tags = tgs, sm_source = None, sm_kind = KCmd ''PONG'',
       sm_args = \<lparr>words = ws @ [fmt_base 8 (unat (mangle siphash t))], long = None\<rparr>\<rparr> st g' sr t =
     (Break (), st, g', snd (sr_send (None, now - t) sr), t)"
    by (simp add: ping_handle_def split_last_def ping_value_fmt split_def Let_def)
qed

text \<open>an item of a \<open>USERHOST\<close> reply about the client, with or without the operator mark and the away
  sign, is parsed to its user and host.\<close>

lemma userhost_item_roundtrip:
  assumes "valid Nick nick" and "CHR ''='' \<notin> set nick" and "CHR ''*'' \<notin> set nick"
    and "valid User user" and "valid Word host" and "host \<noteq> []"
  shows "parse_userhost_item
      (nick @ (if is_op then ''*='' else ''='') @ (if is_away then ''-'' else ''+'') @ user @ ''@'' @ host) nick =
    Inr \<lparr>uh_user = Some user, uh_host = host\<rparr>"
proof -
  have at: "CHR ''@'' \<notin> set user" using assms(4) by (auto simp: valid_iff invalid_defs)
  then have "takeWhile (\<lambda>c. c \<noteq> CHR ''@'') (user @ CHR ''@'' # host) = user"
    "dropWhile (\<lambda>c. c \<noteq> CHR ''@'') (user @ CHR ''@'' # host) = CHR ''@'' # host"
    by (simp_all add: takeWhile_append dropWhile_append)
  then have "uh_parse (user @ CHR ''@'' # host) = Inr \<lparr>uh_user = Some user, uh_host = host\<rparr>"
    using assms(4,6) by (simp add: uh_parse_eq slice_string_all)
  with parse_userhost_item_eq [OF assms(1-3)] show ?thesis by (cases is_op; cases is_away) (simp_all add: item_tail_def)
qed

text \<open>C28: the tracking handler keeps the client's source up to date.  In every state the client reaches in which a
  source is stored, a message with well-formed arguments changes it to what the message says of the client
  (\<open>tracked\<close>: a \<open>USERHOST\<close> reply, and a \<open>NICK\<close> or \<open>CHGHOST\<close> from the client itself) and leaves every other entry of the
  state as it is, and if the assumed source length was that of the stored source, it still is.  Without a
  stored source the handler changes nothing.\<close>

theorem track_follows_source:
  assumes "(cs_step tid)\<^sup>*\<^sup>* cs_new st" and "args_ok (sm_args msg)"
  shows "(case cs_get tid ClientSource as_source st of
       None \<Rightarrow> snd (track_step tid msg st) = st
     | Some src \<Rightarrow>
         fst (track_step tid msg st) = Continue \<and>
         cs_get tid ClientSource as_source (snd (track_step tid msg st)) = Some (tracked msg src) \<and>
         (\<forall>n. n \<noteq> tid ClientSource \<longrightarrow>
            fm_get fst (cs_state (snd (track_step tid msg st))) n = fm_get fst (cs_state st) n) \<and>
         (cs_source_len st = calc_source_len tid st (Some src) False \<longrightarrow>
          cs_source_len (snd (track_step tid msg st)) =
            calc_source_len tid (snd (track_step tid msg st)) (Some (tracked msg src)) False))"
proof (cases "cs_get tid ClientSource as_source st")
  case None
  then show ?thesis by (simp add: track_step_def split: option.splits list.splits)
next
  case (Some src)
  have ok: "cs_ok tid st" by (rule cs_reachable_ok [OF assms(1) cs_ok_new])
  note put = put_client_source_spec [OF ok Some, where s = "tracked msg src"]
  from track_step_cases [OF Some assms(2)] Some show ?thesis
  proof (elim disjE conjE)
    assume "track_step tid msg st = (Continue, put_client_source tid (tracked msg src) st)"
    then show ?thesis by (simp add: Some put)
  qed simp
qed

theorem track_follows_source_witness:
  "let tid = (\<lambda>k. case k of ClientSource \<Rightarrow> 4 | ServerSource \<Rightarrow> 1 | Caps \<Rightarrow> 5 | ISupport \<Rightarrow> 0 | ServerVersion \<Rightarrow> 3 | Account \<Rightarrow> 2);
       src = new_user ''zombie'' ''vine'' ''host'';
       st = snd (update_source_len tid (cs_insert tid ClientSource (VSource src) cs_new));
       msg = \<lparr>sm_tags = [], sm_source = Some src, sm_kind = KCmd ''NICK'', sm_args = \<lparr>words = [''undead''], long = None\<rparr>\<rparr>
   in cs_get tid ClientSource as_source (snd (track_step tid msg st)) = Some (new_user ''undead'' ''vine'' ''host'')"
proof -
  define tid :: type_ids where "tid = (\<lambda>k. case k of ClientSource \<Rightarrow> 4 | ServerSource \<Rightarrow> 1 | Caps \<Rightarrow> 5 | ISupport \<Rightarrow> 0 | ServerVersion \<Rightarrow> 3 | Account \<Rightarrow> 2)"
  have inj: "inj tid" by (auto simp: tid_def inj_def split: state_key.splits)
  define src where "src = new_user ''zombie'' ''vine'' ''host''"
  define st1 where "st1 = cs_insert tid ClientSource (VSource src) cs_new"
  define st where "st = snd (update_source_len tid st1)"
  define msg where "msg = \<lparr>sm_tags = [], sm_source = Some src, sm_kind = KCmd ''NICK'', sm_args = \<lparr>words = [''undead''], long = None\<rparr>\<rparr>"
  have g1: "cs_get tid ClientSource as_source st1 = Some src"
    unfolding st1_def by (simp add: cs_get_insert [OF cs_ok_new inj])
  have "cs_step tid cs_new st1" unfolding st1_def by (rule cs_step_insert) simp
  moreover have "cs_step tid st1 st" unfolding st_def by (rule cs_step_update_len)
  ultimately have r: "(cs_step tid)\<^sup>*\<^sup>* cs_new st" by (meson converse_rtranclp_into_rtranclp r_into_rtranclp)
  have g: "cs_get tid ClientSource as_source st = Some src" unfolding st_def using g1 by simp
  have l: "cs_source_len st = calc_source_len tid st (Some src) False"
    using calc_source_len_cong [of tid st st1 "Some src" False] g1 unfolding st_def by simp (simp add: update_source_len_def Let_def)
  have v: "valid Nick ''undead''" "valid Arg ''undead''" by (simp_all add: valid_iff invalid_defs arg_first_check_def)
  then have a: "args_ok (sm_args msg)" by (simp add: msg_def args_ok_def)
  have "tracked msg src = new_user ''undead'' ''vine'' ''host''"
    using v by (simp add: tracked_def msg_def src_def kind_as_str_def args_all_def from_self_def new_user_def)
  with track_follows_source [OF r a] g l show ?thesis
    by (simp add: Let_def tid_def [symmetric] src_def [symmetric] st1_def [symmetric] st_def [symmetric] msg_def [symmetric])
qed

text \<open>the handler for \<open>VERSION\<close> queries answers every message with a target and a \<open>VERSION\<close> query
  from some source, with one \<open>NOTICE\<close> to its nickname; as the kind of the message is not looked at, also
  a \<open>NOTICE\<close> is answered.\<close>

lemma ctcp_version_answers:
  assumes "split_last (sm_args msg) = ([target], Some line)" and "sm_source msg = Some src"
    and "ctcp_cmd (ctcp_parse line) = ''VERSION''" and "cv_version h \<noteq> []"
  shows "ctcp_version_handle (msg\<lparr>sm_kind := KCmd ''NOTICE''\<rparr>) st g sr h =
     (Continue, st, qg_push (ctcp_reply (src_nick src) ''VERSION'' (cv_version h)) g, sr, h) \<and>
   cm_cmd (ctcp_reply (src_nick src) ''VERSION'' (cv_version h)) = ''NOTICE''"
  using assms
  by (simp add: ctcp_version_handle_def basic_unary_server_def basic_unary_args_def targeted_map_def ctcp_reply_def
      client_new_cmd_def Let_def)

end
