(* ===== verification/Auth.thy ===== *)
theory Auth
  imports Base64 SecretBuf ClientHandlers "HOL-Library.Sublist"
begin

text \<open>
  SASL authentication: \<open>client/auth.rs\<close>, \<open>client/auth/handler.rs\<close>, the mechanisms of
  \<open>client/auth/sasl\<close> and the secrets of \<open>client/auth/secret.rs\<close>.  A boxed \<open>SaslLogic\<close> is a record of
  its state and methods.  Operations on secret buffers may fail as in \<open>SecretBuf\<close>, so what uses them
  returns an option.  The engine of the base64 crate and the allocator are parameters.
\<close>

section \<open>Mechanisms (\<open>auth.rs\<close>)\<close>

definition msg_abort :: client_msg where
  "msg_abort = (let msg = client_new_cmd ''AUTHENTICATE'' in msg\<lparr>cm_args := add_word STAR (cm_args msg)\<rparr>)"

record 'm sasl_logic =
  sl_state :: 'm
  sl_name :: "'m \<Rightarrow> bytes"
  sl_reply :: "bytes \<Rightarrow> secret_buf \<Rightarrow> 'm \<Rightarrow> ((unit, string) result \<times> secret_buf \<times> 'm) option"
  sl_size_hint :: "'m \<Rightarrow> nat"

definition logic_name :: "'m sasl_logic \<Rightarrow> bytes" where
  "logic_name l = sl_name l (sl_state l)"

definition logic_size_hint :: "'m sasl_logic \<Rightarrow> nat" where
  "logic_size_hint l = sl_size_hint l (sl_state l)"

definition logic_reply ::
  "bytes \<Rightarrow> secret_buf \<Rightarrow> 'm sasl_logic \<Rightarrow> ((unit, string) result \<times> secret_buf \<times> 'm sasl_logic) option" where
  "logic_reply inp out l = do {
     (r, out', st) \<leftarrow> sl_reply l inp out (sl_state l);
     Some (r, out', l\<lparr>sl_state := st\<rparr>) }"

type_synonym 'm sasl_queue = "'m sasl_logic list"

definition sq_new :: "'m sasl_queue" where
  "sq_new = []"

definition sq_is_empty :: "'m sasl_queue \<Rightarrow> bool" where
  "sq_is_empty q \<longleftrightarrow> q = []"

definition sq_len :: "'m sasl_queue \<Rightarrow> nat" where
  "sq_len q = length q"

text \<open>\<open>logic\<close> is the method of the trait \<open>Sasl\<close>.\<close>

definition sq_push :: "('s \<Rightarrow> 'm sasl_logic list option) \<Rightarrow> 's \<Rightarrow> 'm sasl_queue \<Rightarrow> 'm sasl_queue option" where
  "sq_push logic sasl q = do { ls \<leftarrow> logic sasl; Some (q @ ls) }"

definition sq_pop :: "'m sasl_queue \<Rightarrow> 'm sasl_logic option \<times> 'm sasl_queue" where
  "sq_pop q = (case q of [] \<Rightarrow> (None, []) | l # q' \<Rightarrow> (Some l, q'))"

definition sq_retain :: "(bytes \<Rightarrow> bool) \<Rightarrow> 'm sasl_queue \<Rightarrow> 'm sasl_queue" where
  "sq_retain supported q = filter (\<lambda>l. supported (logic_name l)) q"

definition sq_clear :: "'m sasl_queue \<Rightarrow> 'm sasl_queue" where
  "sq_clear q = []"

fun sq_push_all :: "('s \<Rightarrow> 'm sasl_logic list option) \<Rightarrow> 's list \<Rightarrow> 'm sasl_queue \<Rightarrow> 'm sasl_queue option" where
  "sq_push_all logic [] q = Some q"
| "sq_push_all logic (s # ss) q = do { q' \<leftarrow> sq_push logic s q; sq_push_all logic ss q' }"

definition sq_from_iter :: "('s \<Rightarrow> 'm sasl_logic list option) \<Rightarrow> 's list \<Rightarrow> 'm sasl_queue option" where
  "sq_from_iter logic ss = sq_push_all logic ss sq_new"

section \<open>PLAIN and EXTERNAL (\<open>sasl/password.rs\<close>, \<open>sasl/external.rs\<close>)\<close>

datatype mech = ExternalLogic bytes | PlainLogic secret_buf

definition external_name :: bytes where
  [simp]: "external_name = ''EXTERNAL''"

definition external_reply ::
  "(nat \<Rightarrow> nat) \<Rightarrow> bytes \<Rightarrow> secret_buf \<Rightarrow> bytes \<Rightarrow> ((unit, string) result \<times> secret_buf \<times> mech) option" where
  [simp]: "external_reply alloc inp out z =
     (if inp \<noteq> [] then Some (Inl ''non-empty server message'', out, ExternalLogic z)
      else do { out' \<leftarrow> sb_push_slice alloc z out; Some (Inr (), out', ExternalLogic z) })"

definition external_size_hint :: "bytes \<Rightarrow> nat" where
  [simp]: "external_size_hint z = length z"

fun mech_name :: "mech \<Rightarrow> bytes" where
  "mech_name (ExternalLogic z) = external_name"
| "mech_name (PlainLogic d) = ''PLAIN''"

fun mech_reply ::
  "(nat \<Rightarrow> nat) \<Rightarrow> bytes \<Rightarrow> secret_buf \<Rightarrow> mech \<Rightarrow> ((unit, string) result \<times> secret_buf \<times> mech) option" where
  "mech_reply alloc inp out (ExternalLogic z) = external_reply alloc inp out z"
| "mech_reply alloc inp out (PlainLogic d) =
     (if inp \<noteq> [] then Some (Inl ''non-empty server message'', out, PlainLogic d)
      else if sb_is_empty d then Some (Inl ''already sent auth'', out, PlainLogic d)
      else Some (Inr (), d, PlainLogic out))"

fun mech_size_hint :: "mech \<Rightarrow> nat" where
  "mech_size_hint (ExternalLogic z) = external_size_hint z"
| "mech_size_hint (PlainLogic d) = 0"

definition mech_box :: "(nat \<Rightarrow> nat) \<Rightarrow> mech \<Rightarrow> mech sasl_logic" where
  "mech_box alloc m =
     \<lparr>sl_state = m, sl_name = mech_name, sl_reply = mech_reply alloc, sl_size_hint = mech_size_hint\<rparr>"

definition plain_logic_new :: "(nat \<Rightarrow> nat) \<Rightarrow> bytes \<Rightarrow> bytes \<Rightarrow> bytes \<Rightarrow> mech option" where
  "plain_logic_new alloc authzid authcid passwd = do {
     d \<leftarrow> sb_with_capacity alloc (2 + length passwd + length authcid + length authzid);
     d \<leftarrow> sb_push_cstr alloc authzid d;
     d \<leftarrow> sb_push_cstr alloc authcid d;
     d \<leftarrow> sb_push_slice alloc passwd d;
     Some (PlainLogic d) }"

definition external_logic :: "(nat \<Rightarrow> nat) \<Rightarrow> bytes \<Rightarrow> mech sasl_logic list option" where
  "external_logic alloc authzid = Some [mech_box alloc (ExternalLogic authzid)]"

datatype PasswordMechanism = PwPlain

definition full_set :: "PasswordMechanism list" where
  "full_set = [PwPlain]"

fun pm_logic :: "(nat \<Rightarrow> nat) \<Rightarrow> bytes \<Rightarrow> bytes \<Rightarrow> bytes \<Rightarrow> PasswordMechanism \<Rightarrow> mech sasl_logic option" where
  "pm_logic alloc authzid authcid passwd PwPlain =
     map_option (mech_box alloc) (plain_logic_new alloc authzid authcid passwd)"

record password =
  pw_deny_methods :: "PasswordMechanism set"
  pw_authzid :: bytes
  pw_authcid :: bytes
  pw_passwd :: bytes

definition password_new :: "bytes \<Rightarrow> bytes \<Rightarrow> password" where
  "password_new username passwd =
     \<lparr>pw_deny_methods = {}, pw_authzid = [], pw_authcid = username, pw_passwd = passwd\<rparr>"

fun collect_opt :: "('x \<Rightarrow> 'y option) \<Rightarrow> 'x list \<Rightarrow> 'y list option" where
  "collect_opt f [] = Some []"
| "collect_opt f (x # xs) = do { y \<leftarrow> f x; ys \<leftarrow> collect_opt f xs; Some (y # ys) }"

definition password_logic :: "(nat \<Rightarrow> nat) \<Rightarrow> password \<Rightarrow> mech sasl_logic list option" where
  "password_logic alloc p =
     collect_opt (pm_logic alloc (pw_authzid p) (pw_authcid p) (pw_passwd p))
       (filter (\<lambda>m. m \<notin> pw_deny_methods p) full_set)"

record plain =
  pl_authzid :: bytes
  pl_authcid :: bytes
  pl_passwd :: bytes

definition plain_new :: "bytes \<Rightarrow> bytes \<Rightarrow> plain" where
  "plain_new username passwd = \<lparr>pl_authzid = [], pl_authcid = username, pl_passwd = passwd\<rparr>"

definition plain_logic :: "(nat \<Rightarrow> nat) \<Rightarrow> plain \<Rightarrow> mech sasl_logic list option" where
  "plain_logic alloc p = do {
     l \<leftarrow> plain_logic_new alloc (pl_authzid p) (pl_authcid p) (pl_passwd p);
     Some [mech_box alloc l] }"

datatype AnySasl = AnyExternal bytes | AnyPassword password

fun any_logic :: "(nat \<Rightarrow> nat) \<Rightarrow> AnySasl \<Rightarrow> mech sasl_logic list option" where
  "any_logic alloc (AnyExternal s) = external_logic alloc s"
| "any_logic alloc (AnyPassword s) = password_logic alloc s"

section \<open>Secrets (\<open>secret.rs\<close>)\<close>

datatype load_error = NoSecretLoader | InvalidSecret InvalidString

text \<open>\<open>LoadSecret\<close> for the unit type and for \<open>Clear\<close>; the replaced buffer is dropped.\<close>

definition load_unit :: "secret_buf \<Rightarrow> (unit, load_error) result \<times> secret_buf" where
  "load_unit data = (Inl NoSecretLoader, data)"

definition load_clear :: "secret_buf \<Rightarrow> secret_buf \<Rightarrow> (unit, load_error) result \<times> secret_buf" where
  "load_clear self data = (Inr (), self)"

definition secret_load ::
  "(nat \<Rightarrow> nat) \<Rightarrow> strtype \<Rightarrow> nat \<Rightarrow> (secret_buf \<Rightarrow> (unit, load_error) result \<times> secret_buf) \<Rightarrow>
   (bytes, load_error) result option" where
  "secret_load alloc T size_hint load = do {
     buf \<leftarrow> sb_with_capacity alloc size_hint;
     let (r, buf') = load buf;
     case r of
       Inl e \<Rightarrow> Some (Inl e)
     | Inr _ \<Rightarrow> do {
         b \<leftarrow> sb_into_bytes buf';
         Some (case from_bytes T (b_value b) of Inl e \<Rightarrow> Inl (InvalidSecret e) | Inr s \<Rightarrow> Inr s) } }"

section \<open>The handler (\<open>handler.rs\<close>)\<close>

record 'm auth_handler =
  ah_queue :: "'m sasl_queue"
  ah_logic :: "'m sasl_logic"
  ah_decoder :: chunk_decoder

datatype auth_error = AuthBroken bytes | AuthUnsupported | AuthFail bytes

fun auth_error_display :: "auth_error \<Rightarrow> bytes" where
  "auth_error_display (AuthFail reason) = ''login failed: '' @ show_bytes reason"
| "auth_error_display AuthUnsupported = ''no supported mechanisms''"
| "auth_error_display (AuthBroken m) = ''server has broken '' @ show_bytes m @ '' implementation''"

definition auth_new :: "'m sasl_logic \<Rightarrow> 'm sasl_queue \<Rightarrow> 'm auth_handler" where
  "auth_new logic q = \<lparr>ah_queue = q, ah_logic = logic, ah_decoder = cd_new 400\<rparr>"

definition auth_from_queue :: "'m sasl_queue \<Rightarrow> 'm auth_handler option" where
  "auth_from_queue q = (case sq_pop q of (None, _) \<Rightarrow> None | (Some l, q') \<Rightarrow> Some (auth_new l q'))"

definition authenticate :: "bytes \<Rightarrow> client_msg" where
  "authenticate w = (let msg = client_new_cmd ''AUTHENTICATE'' in msg\<lparr>cm_args := add_word w (cm_args msg)\<rparr>)"

definition auth_msg :: "'m auth_handler \<Rightarrow> client_msg" where
  "auth_msg h = authenticate (logic_name (ah_logic h))"

definition auth_retain :: "(bytes \<Rightarrow> bool) \<Rightarrow> 'm auth_handler \<Rightarrow> bool option \<times> 'm auth_handler" where
  "auth_retain supported h =
     (let h1 = h\<lparr>ah_queue := sq_retain supported (ah_queue h)\<rparr> in
      if supported (logic_name (ah_logic h1)) then (None, h1)
      else
        (case sq_pop (ah_queue h1) of
           (Some l, q) \<Rightarrow> (Some True, h1\<lparr>ah_queue := q, ah_logic := l\<rparr>)
         | (None, q) \<Rightarrow> (Some False, h1\<lparr>ah_queue := q\<rparr>)))"

text \<open>The outcome of a message: the result, the messages sent and the handler.\<close>

type_synonym 'm auth_outcome = "(bool, auth_error) result \<times> client_msg list \<times> 'm auth_handler"

text \<open>The answer to a decoded challenge.\<close>

definition auth_reply ::
  "(nat \<Rightarrow> nat) \<Rightarrow> (bytes \<Rightarrow> bytes) \<Rightarrow> bytes \<Rightarrow> 'm auth_handler \<Rightarrow> 'm auth_outcome option" where
  "auth_reply alloc encode chal h = do {
     buf \<leftarrow> sb_with_capacity alloc (logic_size_hint (ah_logic h));
     (r, buf', l) \<leftarrow> logic_reply chal buf (ah_logic h);
     let h1 = h\<lparr>ah_logic := l\<rparr>;
     case r of
       Inl _ \<Rightarrow>
         (let nm = logic_name (ah_logic h1) in
          case sq_pop (sq_retain (\<lambda>ln. nm \<noteq> ln) (ah_queue h1)) of
            (Some l', q) \<Rightarrow> Some (Inr False, [msg_abort], h1\<lparr>ah_queue := q, ah_logic := l'\<rparr>)
          | (None, q) \<Rightarrow> Some (Inl (AuthBroken nm), [msg_abort], h1\<lparr>ah_queue := q\<rparr>))
     | Inr _ \<Rightarrow> do {
         b \<leftarrow> sb_as_ref buf';
         let e = ce_new encode b 400 True;
         cs \<leftarrow> ce_collect (ce_len e) e;
         Some (Inr False, map (\<lambda>(c, _). authenticate c) cs, h1) } }"

definition auth_challenge ::
  "(nat \<Rightarrow> nat) \<Rightarrow> (bytes \<Rightarrow> bytes) \<Rightarrow> (bytes \<Rightarrow> (bytes, 'e) result) \<Rightarrow> server_msg \<Rightarrow> 'm auth_handler \<Rightarrow>
   'm auth_outcome option" where
  "auth_challenge alloc encode decode msg h =
     (let (res, dec) =
            (case words (sm_args msg) of
               first # _ \<Rightarrow> cd_add decode first (ah_decoder h)
             | [] \<Rightarrow> (let (r, d) = cd_decode decode (ah_decoder h) in (Some r, d)));
          h1 = h\<lparr>ah_decoder := dec\<rparr>
      in case res of
           None \<Rightarrow> Some (Inr False, [], h1)
         | Some (Inl _) \<Rightarrow> Some (Inl (AuthBroken ''base64''), [msg_abort], h1)
         | Some (Inr chal) \<Rightarrow> auth_reply alloc encode chal h1)"

definition auth_handle ::
  "(nat \<Rightarrow> nat) \<Rightarrow> (bytes \<Rightarrow> bytes) \<Rightarrow> (bytes \<Rightarrow> (bytes, 'e) result) \<Rightarrow> server_msg \<Rightarrow> 'm auth_handler \<Rightarrow>
   'm auth_outcome option" where
  "auth_handle alloc encode decode msg h =
     (let k = kind_as_str (sm_kind msg) in
      if k = ''AUTHENTICATE'' then auth_challenge alloc encode decode msg h
      else if k = ''902'' \<or> k = ''904'' then
        (case sq_pop (ah_queue h) of
           (Some l, q) \<Rightarrow> (let h' = h\<lparr>ah_queue := q, ah_logic := l\<rparr> in Some (Inr False, [auth_msg h'], h'))
         | (None, _) \<Rightarrow>
             Some (Inl (AuthFail (case snd (split_last (sm_args msg)) of Some l \<Rightarrow> l | None \<Rightarrow> [])), [], h))
      else if k = ''905'' then Some (Inl (AuthBroken ''counting''), [], h)
      else if k = ''906'' then Some (Inr False, [auth_msg h], h)
      else if k = ''908'' then
        (let mechs = set (fst (split_last (sm_args msg)));
             h' = h\<lparr>ah_queue := sq_retain (\<lambda>ln. ln \<in> mechs) (ah_queue h)\<rparr>
         in if sq_is_empty (ah_queue h') \<and> logic_name (ah_logic h') \<notin> mechs
            then Some (Inl AuthUnsupported, [], h')
            else Some (Inr False, [], h'))
      else if k = ''900'' \<or> k = ''903'' \<or> k = ''907'' then Some (Inr True, [], h)
      else Some (Inr False, [], h))"

definition auth_client_handle ::
  "(nat \<Rightarrow> nat) \<Rightarrow> (bytes \<Rightarrow> bytes) \<Rightarrow> (bytes \<Rightarrow> (bytes, 'e) result) \<Rightarrow> server_msg \<Rightarrow>
   client_state \<Rightarrow> ('a, 'l) queue_guard \<Rightarrow> ('c, (unit, auth_error) result) sender_ref \<Rightarrow> 'm auth_handler \<Rightarrow>
   (unit control_flow \<times> client_state \<times> ('a, 'l) queue_guard \<times> ('c, (unit, auth_error) result) sender_ref \<times>
    'm auth_handler) option" where
  "auth_client_handle alloc encode decode msg st g sr h = do {
     (v, out, h') \<leftarrow> auth_handle alloc encode decode msg h;
     let g' = qg_send_all out g;
     Some (case v of
             Inr False \<Rightarrow> (Continue, st, g', sr, h')
           | Inr True \<Rightarrow> (let (_, sr') = sr_send (Inr ()) sr in (Break (), st, g', sr', h'))
           | Inl e \<Rightarrow> (let (_, sr') = sr_send (Inl e) sr in (Break (), st, g', sr', h'))) }"

text \<open>\<open>MakeHandler\<close> of the command \<open>AUTHENTICATE\<close>, for a queue and for one configuration.\<close>

definition auth_make_handler ::
  "('a, 'l) queue_guard \<Rightarrow> 'm sasl_queue \<Rightarrow> ('m auth_handler, unit) result \<times> ('a, 'l) queue_guard" where
  "auth_make_handler g q =
     (case sq_pop q of
        (None, _) \<Rightarrow> (Inl (), g)
      | (Some l, q') \<Rightarrow> (let h = auth_new l q' in (Inr h, qg_push (auth_msg h) g)))"

definition auth_make_handler_one ::
  "('s \<Rightarrow> 'm sasl_logic list option) \<Rightarrow> ('a, 'l) queue_guard \<Rightarrow> 's \<Rightarrow>
   (('m auth_handler, unit) result \<times> ('a, 'l) queue_guard) option" where
  "auth_make_handler_one logic g sasl = do { q \<leftarrow> logic sasl; Some (auth_make_handler g q) }"

section \<open>What an exchange needs of its mechanisms\<close>

lemma ce_collect_new:
  assumes "engine_ok encode decode" and "0 < n"
  shows "ce_collect (ce_len (ce_new encode b n sec)) (ce_new encode b n sec) = Some (map (\<lambda>c. (c, sec)) (chunks n (encode b)))"
  using ce_collect_chunks [OF ce_new_rep [OF assms(2), of encode b sec]] assms
  by (simp add: ce_len_new engine_ok_def)

text \<open>The names of the authenticators that are still in play, the current one first.\<close>

definition in_play :: "'m auth_handler \<Rightarrow> bytes list" where
  "in_play h = logic_name (ah_logic h) # map logic_name (ah_queue h)"

text \<open>A sequence of messages, up to the one that ends the exchange.\<close>

fun auth_run ::
  "(nat \<Rightarrow> nat) \<Rightarrow> (bytes \<Rightarrow> bytes) \<Rightarrow> (bytes \<Rightarrow> (bytes, 'e) result) \<Rightarrow> server_msg list \<Rightarrow> 'm auth_handler \<Rightarrow>
   'm auth_outcome option" where
  "auth_run alloc encode decode [] h = Some (Inr False, [], h)"
| "auth_run alloc encode decode (m # ms) h = do {
     (r, out, h') \<leftarrow> auth_handle alloc encode decode m h;
     if r = Inr False then do {
       (r', out', h'') \<leftarrow> auth_run alloc encode decode ms h';
       Some (r', out @ out', h'') }
     else Some (r, out, h') }"

lemma auth_run_append:
  "auth_run alloc encode decode (ms @ ms') h =
     Option.bind (auth_run alloc encode decode ms h) (\<lambda>(r, out, h').
       if r = Inr False
       then map_option (\<lambda>(r', out', h''). (r', out @ out', h'')) (auth_run alloc encode decode ms' h')
       else Some (r, out, h'))"
proof (induction ms arbitrary: h)
  case Nil
  show ?case by (cases "auth_run alloc encode decode ms' h") auto
next
  case (Cons m ms)
  show ?case
  proof (cases "auth_handle alloc encode decode m h")
    case (Some p)
    obtain r out h' where p: "p = (r, out, h')" by (cases p)
    show ?thesis
    proof (cases "r = Inr False")
      case True
      then show ?thesis
        by (cases "auth_run alloc encode decode ms h'") (auto simp: Some p Cons.IH split_def map_conv_bind_option Option.bind_assoc comp_def)
    qed (simp add: Some p)
  qed simp
qed

definition refusal :: "server_msg \<Rightarrow> bool" where
  "refusal m \<longleftrightarrow> kind_as_str (sm_kind m) \<in> {''902'', ''904''}"

text \<open>What one message does to the authenticators in play: none is added or reordered, and a refusal
  that does not end the exchange takes one away.\<close>

definition narrows :: "('m sasl_logic \<Rightarrow> bool) \<Rightarrow> 'm auth_handler \<Rightarrow> server_msg \<Rightarrow> 'm auth_outcome \<Rightarrow> bool" where
  "narrows ok h msg = (\<lambda>(r, out, h').
     (\<forall>l \<in> set (ah_logic h' # ah_queue h'). ok l) \<and> subseq (in_play h') (in_play h) \<and>
     (refusal msg \<and> r = Inr False \<longrightarrow> Suc (length (ah_queue h')) = length (ah_queue h)))"

locale sasl_mechanism =
  fixes alloc :: "nat \<Rightarrow> nat" and logic_ok :: "'m sasl_logic \<Rightarrow> bool"
  assumes reply: "logic_ok l \<Longrightarrow> sb_with_capacity alloc (logic_size_hint l) = Some buf \<Longrightarrow>
      \<exists>r buf' l'. logic_reply chal buf l = Some (r, buf', l') \<and> logic_ok l' \<and> logic_name l' = logic_name l \<and> sb_ok buf'"
begin

lemma reply_progress:
  assumes "engine_ok encode decode" and "\<forall>l \<in> set (ah_logic h # ah_queue h). logic_ok l"
  shows "\<exists>r out h'. auth_reply alloc encode chal h = Some (r, out, h') \<and>
    (\<forall>l \<in> set (ah_logic h' # ah_queue h'). logic_ok l) \<and> subseq (in_play h') (in_play h)"
proof -
  obtain buf where buf: "sb_with_capacity alloc (logic_size_hint (ah_logic h)) = Some buf"
    by (simp add: with_capacity_eq)
  from reply [OF _ buf, of chal] assms(2) obtain r buf' l' where l':
    "logic_reply chal buf (ah_logic h) = Some (r, buf', l')" "logic_ok l'" "logic_name l' = logic_name (ah_logic h)" "sb_ok buf'"
    by auto
  let ?q = "sq_retain (\<lambda>ln. logic_name (ah_logic h) \<noteq> ln) (ah_queue h)"
  have q: "subseq (map logic_name ?q) (map logic_name (ah_queue h))" "set ?q \<subseteq> set (ah_queue h)"
    by (auto simp: sq_retain_def subseq_map subseq_filter_left)
  show ?thesis
  proof (cases r)
    case (Inr u)
    then show ?thesis
      using buf l' as_ref_ok [OF l'(4)] ce_collect_new [OF assms(1)] assms(2)
      by (auto simp: auth_reply_def in_play_def)
  next
    case (Inl e)
    show ?thesis
    proof (cases ?q)
      case Nil
      then show ?thesis using buf l' Inl assms(2) by (auto simp: auth_reply_def in_play_def sq_pop_def)
    next
      case (Cons l2 q2)
      have "subseq (logic_name l2 # map logic_name q2) (in_play h)"
        using q(1) Cons unfolding in_play_def by (intro list_emb_Cons) simp
      then show ?thesis
        using buf l' Inl assms(2) Cons q(2) by (auto simp: auth_reply_def in_play_def sq_pop_def)
    qed
  qed
qed

lemma challenge_progress:
  assumes "engine_ok encode decode" and "\<forall>l \<in> set (ah_logic h # ah_queue h). logic_ok l"
  shows "\<exists>r out h'. auth_challenge alloc encode decode msg h = Some (r, out, h') \<and>
    (\<forall>l \<in> set (ah_logic h' # ah_queue h'). logic_ok l) \<and> subseq (in_play h') (in_play h)"
proof -
  obtain res dec where rd: "(case words (sm_args msg) of first # _ \<Rightarrow> cd_add decode first (ah_decoder h)
      | [] \<Rightarrow> (let (r, d) = cd_decode decode (ah_decoder h) in (Some r, d))) = (res, dec)" by fastforce
  have same: "in_play (h\<lparr>ah_decoder := dec\<rparr>) = in_play h" by (simp add: in_play_def)
  show ?thesis
  proof (cases "\<exists>chal. res = Some (Inr chal)")
    case True
    then obtain chal where "res = Some (Inr chal)" by blast
    then show ?thesis
      using reply_progress [OF assms(1), of "h\<lparr>ah_decoder := dec\<rparr>" chal] assms(2) same rd
      by (simp add: auth_challenge_def)
  next
    case False
    then show ?thesis
      using rd assms(2) same by (cases res) (auto simp: auth_challenge_def Let_def split: sum.splits)
  qed
qed

lemma handle_progress:
  assumes "engine_ok encode decode" and "\<forall>l \<in> set (ah_logic h # ah_queue h). logic_ok l"
  shows "\<exists>oc. auth_handle alloc encode decode msg h = Some oc \<and> narrows logic_ok h msg oc"
proof (cases "kind_as_str (sm_kind msg) = ''AUTHENTICATE''")
  case True
  then show ?thesis
    using challenge_progress [OF assms, of msg] by (auto simp: auth_handle_def refusal_def narrows_def)
next
  case False
  have pop: "narrows logic_ok h msg (r, out, h\<lparr>ah_queue := q, ah_logic := l\<rparr>)" if "ah_queue h = l # q" for r out l q
    using assms(2) that by (auto simp: narrows_def in_play_def intro: list_emb_Cons)
  have ret: "narrows logic_ok h msg (r, out, h\<lparr>ah_queue := sq_retain p (ah_queue h)\<rparr>)"
    if "\<not> refusal msg" for r out p
    using assms(2) that by (auto simp: narrows_def in_play_def sq_retain_def subseq_map subseq_filter_left)
  have keep: "narrows logic_ok h msg (r, out, h)" if "\<not> refusal msg \<or> r \<noteq> Inr False" for r out
    using assms(2) that by (auto simp: narrows_def in_play_def)
  show ?thesis
  proof (cases "refusal msg")
    case True
    with False pop keep show ?thesis
      by (cases "ah_queue h") (auto simp: auth_handle_def refusal_def sq_pop_def Let_def)
  next
    case nr: False
    with False ret keep show ?thesis by (auto simp: auth_handle_def refusal_def Let_def)
  qed
qed

lemma run_progress:
  assumes "engine_ok encode decode" and "\<forall>l \<in> set (ah_logic h # ah_queue h). logic_ok l"
  shows "\<exists>r out h'. auth_run alloc encode decode ms h = Some (r, out, h') \<and> subseq (in_play h') (in_play h) \<and>
    (\<forall>l \<in> set (ah_logic h' # ah_queue h'). logic_ok l) \<and>
    (r = Inr False \<longrightarrow> length (filter refusal ms) + length (ah_queue h') \<le> length (ah_queue h))"
  using assms(2)
proof (induction ms arbitrary: h)
  case (Cons m ms)
  from handle_progress [OF assms(1) Cons.prems, of m] obtain r out h' where h': "auth_handle alloc encode decode m h = Some (r, out, h')"
    "\<forall>l \<in> set (ah_logic h' # ah_queue h'). logic_ok l" "subseq (in_play h') (in_play h)"
    "refusal m \<and> r = Inr False \<Longrightarrow> Suc (length (ah_queue h')) = length (ah_queue h)" by (auto simp: narrows_def)
  have len: "length (ah_queue h') \<le> length (ah_queue h)" using list_emb_length [OF h'(3)] by (simp add: in_play_def)
  show ?case
  proof (cases "r = Inr False")
    case True
    from Cons.IH [OF h'(2)] obtain r2 out2 h2 where h2: "auth_run alloc encode decode ms h' = Some (r2, out2, h2)"
      "subseq (in_play h2) (in_play h')" "\<forall>l \<in> set (ah_logic h2 # ah_queue h2). logic_ok l"
      "r2 = Inr False \<longrightarrow> length (filter refusal ms) + length (ah_queue h2) \<le> length (ah_queue h')" by blast
    have "subseq (in_play h2) (in_play h)" using h2(2) h'(3) by (rule subseq_order.trans)
    then show ?thesis using True h' h2 len by auto
  qed (use h' in auto)
qed simp

lemma run_narrows:
  assumes "engine_ok encode decode" and "\<forall>l \<in> set (ah_logic h # ah_queue h). logic_ok l"
  shows "\<exists>r1 out1 h1 r out h'. auth_run alloc encode decode ms h = Some (r1, out1, h1) \<and>
    auth_run alloc encode decode (ms @ ms') h = Some (r, out, h') \<and>
    subseq (in_play h') (in_play h1) \<and> subseq (in_play h1) (in_play h) \<and>
    (r = Inr False \<longrightarrow> length (filter refusal (ms @ ms')) \<le> length (ah_queue h))"
proof -
  obtain r1 out1 h1 where h1: "auth_run alloc encode decode ms h = Some (r1, out1, h1)" "subseq (in_play h1) (in_play h)"
    "\<forall>l \<in> set (ah_logic h1 # ah_queue h1). logic_ok l"
    "r1 = Inr False \<longrightarrow> length (filter refusal ms) + length (ah_queue h1) \<le> length (ah_queue h)"
    using run_progress [OF assms, of ms] by blast
  show ?thesis
  proof (cases "r1 = Inr False")
    case True
    obtain r out h' where "auth_run alloc encode decode ms' h1 = Some (r, out, h')" "subseq (in_play h') (in_play h1)"
      "r = Inr False \<longrightarrow> length (filter refusal ms') + length (ah_queue h') \<le> length (ah_queue h1)"
      using run_progress [OF assms(1) h1(3), of ms'] by blast
    with True h1 show ?thesis by (auto simp: auth_run_append)
  qed (use h1 in \<open>auto simp: auth_run_append\<close>)
qed

end

section \<open>The built-in mechanisms\<close>

definition mech_ok :: "mech \<Rightarrow> bool" where
  "mech_ok m = (case m of ExternalLogic _ \<Rightarrow> True | PlainLogic d \<Rightarrow> sb_ok d)"

definition mech_box_ok :: "(nat \<Rightarrow> nat) \<Rightarrow> mech sasl_logic \<Rightarrow> bool" where
  "mech_box_ok alloc l \<longleftrightarrow> alloc_ok alloc \<and> l = mech_box alloc (sl_state l) \<and> mech_ok (sl_state l)"

lemma mech_reply_ok:
  assumes "alloc_ok alloc" and "mech_ok m" and "sb_with_capacity alloc (mech_size_hint m) = Some buf"
  shows "\<exists>r buf' m'. mech_reply alloc chal buf m = Some (r, buf', m') \<and> mech_ok m' \<and> mech_name m' = mech_name m \<and> sb_ok buf'"
proof -
  have buf: "sb_ok buf" "sb_len buf = 0" using assms(1,3) with_capacity_ok [OF assms(1), of "mech_size_hint m"] by auto
  show ?thesis
  proof (cases m)
    case (ExternalLogic z)
    then show ?thesis
      using push_slice_appends [OF assms(1) buf(1), of z] buf by (auto simp: mech_ok_def room_def)
  qed (use assms(2) buf in \<open>auto simp: mech_ok_def\<close>)
qed

interpretation builtin: sasl_mechanism alloc "mech_box_ok alloc" for alloc
proof
  fix l buf chal assume l: "mech_box_ok alloc l" "sb_with_capacity alloc (logic_size_hint l) = Some buf"
  then obtain m where "l = mech_box alloc m" "mech_ok m" "alloc_ok alloc" by (auto simp: mech_box_ok_def)
  with l mech_reply_ok [of alloc m buf chal]
  show "\<exists>r buf' l'. logic_reply chal buf l = Some (r, buf', l') \<and> mech_box_ok alloc l' \<and> logic_name l' = logic_name l \<and> sb_ok buf'"
    by (auto simp: mech_box_def mech_box_ok_def logic_reply_def logic_name_def logic_size_hint_def)
qed

text \<open>The secret of \<open>PLAIN\<close> is built without a reallocation.\<close>

lemma plain_logic_new_ok:
  assumes "alloc_ok alloc"
  shows "\<exists>d. plain_logic_new alloc authzid authcid passwd = Some (PlainLogic d) \<and> sb_ok d \<and>
    contents d = authzid @ CHR 0x00 # authcid @ CHR 0x00 # passwd"
proof -
  let ?n = "2 + length passwd + length authcid + length authzid"
  obtain d0 where d0: "sb_with_capacity alloc ?n = Some d0" "sb_ok d0" "contents d0 = []" "sb_len d0 = 0" "?n \<le> length (sb_data d0)"
    using with_capacity_ok [OF assms, of ?n] by blast
  have "room (length authzid + 1) d0" using d0 by (simp add: room_def)
  with push_cstr_appends [OF assms d0(2) this] d0 obtain d1 where d1: "sb_push_cstr alloc authzid d0 = Some d1" "sb_ok d1"
    "contents d1 = authzid @ [CHR 0x00]" "length (sb_data d1) = length (sb_data d0)" by auto
  have l1: "sb_len d1 = length authzid + 1" using contents_length [OF d1(2)] d1(3) by simp
  then have "room (length authcid + 1) d1" using d0 d1 by (simp add: room_def)
  with push_cstr_appends [OF assms d1(2) this] d0 d1 l1 obtain d2 where d2: "sb_push_cstr alloc authcid d1 = Some d2" "sb_ok d2"
    "contents d2 = authzid @ CHR 0x00 # authcid @ [CHR 0x00]" "length (sb_data d2) = length (sb_data d0)" by auto
  have "sb_len d2 = length authzid + length authcid + 2" using contents_length [OF d2(2)] d2(3) by simp
  then have "room (length passwd) d2" using d0 d2 by (simp add: room_def)
  with push_slice_appends [OF assms d2(2) this] d0 d1 d2 show ?thesis by (auto simp: plain_logic_new_def)
qed

lemma plain_box_ok:
  assumes "alloc_ok alloc" and "plain_logic_new alloc authzid authcid passwd = Some m"
  shows "mech_box_ok alloc (mech_box alloc m)"
  using assms plain_logic_new_ok [OF assms(1), of authzid authcid passwd]
  by (auto simp: mech_box_ok_def mech_box_def mech_ok_def)

lemma any_logic_ok:
  assumes "alloc_ok alloc"
  shows "\<exists>ls. any_logic alloc s = Some ls \<and> (\<forall>l \<in> set ls. mech_box_ok alloc l)"
proof (cases s)
  case (AnyExternal z)
  then show ?thesis using assms by (simp add: external_logic_def mech_box_ok_def mech_box_def mech_ok_def)
next
  case (AnyPassword p)
  from plain_logic_new_ok [OF assms, of "pw_authzid p" "pw_authcid p" "pw_passwd p"] obtain d where
    d: "plain_logic_new alloc (pw_authzid p) (pw_authcid p) (pw_passwd p) = Some (PlainLogic d)" by blast
  with plain_box_ok [OF assms d] AnyPassword show ?thesis
    by (auto simp: password_logic_def full_set_def)
qed

lemma sq_push_all_ok:
  assumes "alloc_ok alloc" and "\<forall>l \<in> set q. mech_box_ok alloc l"
  shows "\<exists>q'. sq_push_all (any_logic alloc) ss q = Some q' \<and> (\<forall>l \<in> set q'. mech_box_ok alloc l)"
  using assms(2)
proof (induction ss arbitrary: q)
  case (Cons s ss)
  from any_logic_ok [OF assms(1), of s] obtain ls where "any_logic alloc s = Some ls" "\<forall>l \<in> set ls. mech_box_ok alloc l"
    by blast
  with Cons.IH [of "q @ ls"] Cons.prems show ?case by (auto simp: sq_push_def)
qed simp

text \<open>The answer of \<open>PLAIN\<close> to the empty challenge.\<close>

lemma cd_add_plus: "decode [] = Inr [] \<Longrightarrow> 1 < n \<Longrightarrow> cd_add decode ''+'' (cd_new n) = (Some (Inr []), cd_new n)"
  by (simp add: cd_add_def cd_decode_def cd_new_def)

lemma plain_answers:
  assumes "engine_ok encode decode" and "decode [] = Inr []" and "sb_ok d" and "sb_len d \<noteq> 0"
    and "kind_as_str (sm_kind msg) = ''AUTHENTICATE''" and "words (sm_args msg) = [''+'']"
  shows "\<exists>h'. auth_handle alloc encode decode msg (auth_new (mech_box alloc (PlainLogic d)) q) =
      Some (Inr False, map authenticate (chunks 400 (encode (contents d))), h')"
  using assms ce_collect_new [OF assms(1), of 400 "contents d" True]
  by (simp add: auth_handle_def auth_challenge_def auth_new_def cd_add_plus auth_reply_def with_capacity_eq logic_reply_def
      mech_box_def as_ref_ok sb_is_empty_def comp_def)

section \<open>Properties\<close>

text \<open>C10: An exchange with the built-in mechanisms never fails internally, whatever messages the server sends.  The
  authenticators in play, the current one and those that wait, are at any time some of the configured ones in
  the configured order; one that is no longer in play never comes back, and the exchange ends at the latest
  when the server has refused as many times as there are authenticators.  (The current one may be announced
  more than once: whenever the server acknowledges an abort.)\<close>

theorem auth_tries_in_order:
  assumes "alloc_ok alloc" and "engine_ok encode decode"
    and "sq_from_iter (any_logic alloc) sasls = Some q" and "q \<noteq> []"
  shows "\<exists>h r1 out1 h1 r out h'. auth_from_queue q = Some h \<and>
    auth_run alloc encode decode ms h = Some (r1, out1, h1) \<and>
    auth_run alloc encode decode (ms @ ms') h = Some (r, out, h') \<and>
    subseq (in_play h1) (map logic_name q) \<and> subseq (in_play h') (in_play h1) \<and>
    (r = Inr False \<longrightarrow> length (filter refusal (ms @ ms')) < length q)"
proof -
  have ok: "\<forall>l \<in> set q. mech_box_ok alloc l"
    using sq_push_all_ok [OF assms(1), of "[]" sasls] assms(3) by (simp add: sq_from_iter_def sq_new_def)
  obtain l q' where q: "q = l # q'" using assms(4) by (cases q) auto
  have h: "auth_from_queue q = Some (auth_new l q')" "in_play (auth_new l q') = map logic_name q"
    by (simp_all add: q auth_from_queue_def sq_pop_def in_play_def auth_new_def)
  have "\<forall>l \<in> set (ah_logic (auth_new l q') # ah_queue (auth_new l q')). mech_box_ok alloc l"
    using ok by (simp add: q auth_new_def)
  from builtin.run_narrows [OF assms(2) this, of ms ms'] h show ?thesis by (fastforce simp: q auth_new_def)
qed

definition example_refused :: server_msg where
  "example_refused = \<lparr>sm_tags = [], sm_source = None, sm_kind = KNumeric ''904'', sm_args = args_empty\<rparr>"

theorem auth_tries_in_order_witness:
  "\<exists>h r out h'. auth_from_queue [mech_box (\<lambda>n. n) (ExternalLogic [])] = Some h \<and>
    auth_run (\<lambda>n. n) quad_encode quad_decode [server_new_cmd ''PING'', example_refused] h = Some (r, out, h') \<and>
    subseq (in_play h') [''EXTERNAL''] \<and> r \<noteq> Inr False"
proof -
  let ?q = "[mech_box (\<lambda>n. n) (ExternalLogic [])]" and ?ms = "[server_new_cmd ''PING'']" and ?ms' = "[example_refused]"
  have q: "sq_from_iter (any_logic (\<lambda>n. n)) [AnyExternal []] = Some ?q"
    by (simp add: sq_from_iter_def sq_push_def sq_new_def external_logic_def)
  have al: "alloc_ok (\<lambda>n. n)" by (simp add: alloc_ok_def)
  have names: "map logic_name ?q = [''EXTERNAL'']" by (simp add: logic_name_def mech_box_def)
  have one: "\<not> length (filter refusal (?ms @ ?ms')) < length ?q"
    by (simp add: example_refused_def refusal_def kind_as_str_def)
  obtain h r out h' and h1 :: "mech auth_handler" where h: "auth_from_queue ?q = Some h" "auth_run (\<lambda>n. n) quad_encode quad_decode (?ms @ ?ms') h = Some (r, out, h')"
    "subseq (in_play h1) [''EXTERNAL'']" "subseq (in_play h') (in_play h1)" "r = Inr False \<longrightarrow> length (filter refusal (?ms @ ?ms')) < length ?q"
    using auth_tries_in_order [OF al quad_engine q list.distinct(2), of ?ms ?ms'] unfolding names by blast
  have "subseq (in_play h') [''EXTERNAL'']" using h(4,3) by (rule subseq_order.trans)
  moreover have "r \<noteq> Inr False" using h(5) one by blast
  ultimately show ?thesis using h(1,2) unfolding append.simps by blast
qed

text \<open>C15: To an empty challenge the handler answers for \<open>PLAIN\<close> with lines of at most 400 bytes that a
  server decodes to the authorization identity, the user name and the password, separated by zeros.\<close>

theorem plain_login:
  assumes "alloc_ok alloc" and "engine_ok encode decode" and "decode [] = Inr []"
    and "kind_as_str (sm_kind msg) = ''AUTHENTICATE''" and "words (sm_args msg) = [''+'']"
  shows "\<exists>l h' cs. plain_logic alloc p = Some [l] \<and>
    auth_handle alloc encode decode msg (auth_new l q) = Some (Inr False, map authenticate cs, h') \<and>
    (\<forall>c \<in> set cs. valid Arg c \<and> length c \<le> 400) \<and>
    cd_feed decode cs (cd_new 400) = (replicate (length cs - 1) None @
      [Some (Inr (pl_authzid p @ CHR 0x00 # pl_authcid p @ CHR 0x00 # pl_passwd p))], cd_new 400)"
proof -
  from plain_logic_new_ok [OF assms(1)] obtain d where d:
    "plain_logic_new alloc (pl_authzid p) (pl_authcid p) (pl_passwd p) = Some (PlainLogic d)" "sb_ok d"
    "contents d = pl_authzid p @ CHR 0x00 # pl_authcid p @ CHR 0x00 # pl_passwd p" by metis
  have ne: "sb_len d \<noteq> 0" using contents_length [OF d(2)] d(3) by auto
  have e: "decode (encode (contents d)) = Inr (contents d)" "4 dvd length (encode (contents d))"
    "\<forall>c \<in> set (encode (contents d)). base64_byte c"
    using assms(2) by (auto simp: engine_ok_def)
  have feed: "cd_feed decode (chunks 400 (encode (contents d))) (cd_new 400) =
      (replicate (length (chunks 400 (encode (contents d))) - 1) None @ [Some (Inr (contents d))], cd_new 400)"
    using cd_feed_chunks [of 400 "encode (contents d)" decode "[]"] e by (simp add: cd_new_def chunks_length)
  from plain_answers [OF assms(2,3) d(2) ne assms(4,5), of alloc q] chunks_valid [OF _ e(3), of 400] feed d
  show ?thesis by (fastforce simp: plain_logic_def)
qed

theorem plain_login_witness:
  "\<exists>l h' cs. plain_logic (\<lambda>n. n) (plain_new ''me'' ''pw'') = Some [l] \<and>
    auth_handle (\<lambda>n. n) quad_encode quad_decode
      ((server_new_cmd ''AUTHENTICATE'')\<lparr>sm_args := \<lparr>words = [''+''], long = None\<rparr>\<rparr>) (auth_new l []) =
    Some (Inr False, map authenticate cs, h')"
  using plain_login [OF _ quad_engine, of "\<lambda>n. n" "(server_new_cmd ''AUTHENTICATE'')\<lparr>sm_args := \<lparr>words = [''+''], long = None\<rparr>\<rparr>"
      "plain_new ''me'' ''pw''" "[]"]
  by (fastforce simp: alloc_ok_def server_new_cmd_def kind_as_str_def)

end
