(* ===== verification/Cap.thy ===== *)
theory Cap
  imports Names Builder
begin

text \<open>
  Capability negotiation, \<open>client/cap.rs\<close>: the requests a client sends and the arguments of the
  server's \<open>CAP\<close> messages.  A sink is the list of messages sent to it.  A \<open>BTreeMap\<close> is its list of
  entries in ascending order of the keys.
\<close>

section \<open>Ordered maps of the standard library\<close>

fun btm_insert :: "'k::linorder \<Rightarrow> 'v \<Rightarrow> ('k \<times> 'v) list \<Rightarrow> ('k \<times> 'v) list" where
  "btm_insert k v [] = [(k, v)]"
| "btm_insert k v ((k', v') # m) =
     (if k < k' then (k, v) # (k', v') # m
      else if k = k' then (k, v) # m
      else (k', v') # btm_insert k v m)"

lemma btm_insert_keys: "fst ` set (btm_insert k v m) = insert k (fst ` set m)"
  by (induction k v m rule: btm_insert.induct) (simp_all add: insert_commute)

lemma btm_insert_ascending: "ascending (map fst m) \<Longrightarrow> ascending (map fst (btm_insert k v m))"
proof (induction m)
  case (Cons e m)
  then show ?case using btm_insert_keys [of k v m] by (cases e) force
qed simp

lemma btm_insert_map: "ascending (map fst m) \<Longrightarrow> map_of (btm_insert k v m) = (map_of m)(k \<mapsto> v)"
  by (induction k v m rule: btm_insert.induct) (auto simp: fun_eq_iff)

section \<open>Requests\<close>

text \<open>One step of the loop of \<open>req\<close>: the line being built and the messages sent so far.\<close>

definition req_step :: "client_msg \<Rightarrow> nat \<Rightarrow> builder \<times> client_msg list \<Rightarrow> bytes \<Rightarrow> builder \<times> client_msg list" where
  "req_step msg base_len = (\<lambda>(cap_string, sent) cap.
     if length (bld_bytes cap_string) + length cap < base_len then
       (let cap_string' =
              (if bld_bytes cap_string \<noteq> [] then snd (try_push_char Line 32 cap_string) else cap_string)
        in (bld_append (bytes_from_bytes cap) cap_string', sent))
     else
       (builder_new (bytes_from_bytes cap),
        if bld_bytes cap_string \<noteq> []
        then sent @ [msg\<lparr>cm_args := snd (args_add (b_value (build cap_string)) (cm_args msg))\<rparr>]
        else sent))"

text \<open>The messages \<open>req\<close> sends; \<open>None\<close> is the panic of \<open>add_literal\<close>.\<close>

definition req :: "bytes list \<Rightarrow> bytes option \<Rightarrow> source option \<Rightarrow> client_msg list option" where
  "req caps client server =
     (case add_literal ''REQ'' args_empty of
        None \<Rightarrow> None
      | Some a \<Rightarrow>
          (let msg = (client_new_cmd ''CAP'')\<lparr>cm_args := a\<rparr>;
               len_mod = 4 + (case client of Some c \<Rightarrow> int (length c) | None \<Rightarrow> 1);
               base_len = nat (client_bytes_left msg server - len_mod);
               (cap_string, sent) = foldl (req_step msg base_len) (builder_new bytes_empty, []) caps
           in Some (sent @ [msg\<lparr>cm_args := snd (args_add (b_value (build cap_string)) (cm_args msg))\<rparr>])))"

section \<open>Subcommands\<close>

datatype SubCmd = Ls | SubCmd_List | Ack | Nak | New | Del

definition subcmd_from_bytes :: "bytes \<Rightarrow> SubCmd option" where
  "subcmd_from_bytes b =
     (if b = ''LS'' then Some Ls
      else if b = ''LIST'' then Some SubCmd_List
      else if b = ''ACK'' then Some Ack
      else if b = ''NAK'' then Some Nak
      else if b = ''NEW'' then Some New
      else if b = ''DEL'' then Some Del
      else None)"

fun into_cmd :: "SubCmd \<Rightarrow> bytes" where
  "into_cmd Ls = ''LS''"
| "into_cmd SubCmd_List = ''LIST''"
| "into_cmd Ack = ''ACK''"
| "into_cmd Nak = ''NAK''"
| "into_cmd New = ''NEW''"
| "into_cmd Del = ''DEL''"

definition into_arg :: "SubCmd \<Rightarrow> bytes" where
  "into_arg c = into_cmd c"

section \<open>Messages of the server\<close>

type_synonym caps = "(bytes \<times> bytes) list"

record server_msg_args =
  cap_nick :: bytes
  cap_subcmd :: SubCmd
  cap_is_last :: bool
  cap_caps :: caps

text \<open>The loop of \<open>ServerMsgArgs::parse\<close>; \<open>None\<close> is a loop that does not end or a failed \<open>unwrap\<close>.\<close>

partial_function (option) cap_loop :: "splitter \<Rightarrow> caps \<Rightarrow> caps option" where
  "cap_loop sp caps =
     (if sp_is_empty sp then Some caps
      else
        (let sp1 = consume_whitespace sp;
             (w, sp2) = string_or_default Word False sp1;
             (r, wd1) = sp_string Key False (sp_new False w)
         in case r of
              Inl _ \<Rightarrow> cap_loop sp2 caps
            | Inr key \<Rightarrow>
                (let (sep, wd2) = next_byte wd1 in
                 case sep of
                   None \<Rightarrow> cap_loop sp2 (btm_insert key [] caps)
                 | Some c \<Rightarrow>
                     if c = CHR ''='' then
                       (case fst (sp_rest Word wd2) of
                          Inl _ \<Rightarrow> None
                        | Inr value \<Rightarrow> cap_loop sp2 (btm_insert key value caps))
                     else cap_loop sp2 caps)))"

definition cap_parse :: "args \<Rightarrow> (server_msg_args, ParseError) result option" where
  "cap_parse a =
     (case split_last a of
        (_, None) \<Rightarrow> Some (Inl (MissingField ''caps''))
      | ([], Some _) \<Rightarrow> Some (Inl (MissingField ''nick''))
      | (n # ws, Some lst) \<Rightarrow>
          (case from_super Nick n of
             Inl e \<Rightarrow> Some (Inl (InvalidNick e))
           | Inr nick \<Rightarrow>
               (case ws of
                  [] \<Rightarrow> Some (Inl (MissingField ''subcmd''))
                | sc # ws' \<Rightarrow>
                    (let sc' = b_value (snd (transform (AsciiCasemap True) (bytes_from_bytes sc))) in
                     case subcmd_from_bytes sc' of
                       None \<Rightarrow>
                         Some (Inl (InvalidField ''subcmd''
                           (''unknown CAP subcommand: '' @ cow_ref (from_utf8_lossy sc'))))
                     | Some subcmd \<Rightarrow>
                         (case ws' of
                            la # _ \<Rightarrow>
                              if la = ''*'' then
                                map_option (\<lambda>c. Inr \<lparr>cap_nick = nick, cap_subcmd = subcmd,
                                  cap_is_last = False, cap_caps = c\<rparr>) (cap_loop (sp_new False lst) [])
                              else
                                Some (Inl (InvalidField ''is_last''
                                  (''expected * as first CAP argument, got '' @ cow_ref (from_utf8_lossy la))))
                          | [] \<Rightarrow>
                              map_option (\<lambda>c. Inr \<lparr>cap_nick = nick, cap_subcmd = subcmd,
                                cap_is_last = True, cap_caps = c\<rparr>) (cap_loop (sp_new False lst) []))))))"

text \<open>\<open>combine\<close> returns the newer message if it cannot be merged.\<close>

definition combine :: "server_msg_args \<Rightarrow> server_msg_args \<Rightarrow> server_msg_args option \<times> server_msg_args" where
  "combine self newer =
     (if cap_is_last self \<or> cap_subcmd self \<noteq> cap_subcmd newer \<or> cap_nick self \<noteq> cap_nick newer
      then (Some newer, self)
      else (None, self\<lparr>cap_is_last := cap_is_last newer,
              cap_caps := foldl (\<lambda>m (k, v). btm_insert k v m) (cap_caps self) (cap_caps newer)\<rparr>))"

definition contains :: "server_msg_args \<Rightarrow> bytes \<Rightarrow> bool" where
  "contains self cap \<longleftrightarrow> map_of (cap_caps self) cap \<noteq> None"

section \<open>What a request contains\<close>

fun join_caps :: "bytes list \<Rightarrow> bytes" where
  "join_caps [] = []"
| "join_caps [x] = x"
| "join_caps (x # y # xs) = x @ CHR '' '' # join_caps (y # xs)"

text \<open>The specification of the loop: capabilities are packed greedily into groups.\<close>

fun pack :: "nat \<Rightarrow> bytes list \<Rightarrow> bytes list \<Rightarrow> bytes list list" where
  "pack n cur [] = [cur]"
| "pack n cur (c # cs) =
     (if length (join_caps cur) + length c < n then pack n (cur @ [c]) cs
      else if cur = [] then pack n [c] cs
      else cur # pack n [c] cs)"

lemma join_caps_Cons: "join_caps (x # xs) = (if xs = [] then x else x @ CHR '' '' # join_caps xs)"
  by (cases xs) auto

lemma join_caps_snoc: "join_caps (xs @ [y]) = (if xs = [] then y else join_caps xs @ CHR '' '' # y)"
  by (induction xs rule: join_caps.induct) auto

lemma join_caps_Nil: "[] \<notin> set xs \<Longrightarrow> join_caps xs = [] \<longleftrightarrow> xs = []"
  by (induction xs rule: join_caps.induct) auto

lemma pack_not_Nil [simp]: "pack n cur cs \<noteq> []"
  by (induction n cur cs rule: pack.induct) auto

lemma concat_pack: "concat (pack n cur cs) = cur @ cs"
  by (induction n cur cs rule: pack.induct) auto

lemma pack_fits:
  assumes "length cur \<le> 1 \<or> length (join_caps cur) \<le> n \<and> 0 < n" and "g \<in> set (pack n cur cs)"
  shows "length g \<le> 1 \<or> length (join_caps g) \<le> n \<and> 0 < n"
  using assms by (induction n cur cs rule: pack.induct) (auto simp: join_caps_snoc split: if_splits)

lemma value_build [simp]: "b_value (build bl) = bld_bytes bl"
  by (simp add: build_def bytes_from_string_def bytes_from_vec_def owned_from_vec_def)

lemma bld_bytes_append: "bld_bytes (bld_append (bytes_from_bytes c) bl) = bld_bytes bl @ c"
  by (simp add: bld_append_def append_unchecked_def bytes_from_bytes_def)

lemma bld_bytes_space: "bld_bytes (snd (try_push_char Line 32 bl)) = bld_bytes bl @ '' ''"
  by (simp add: try_push_char_def try_append_str_def encode_utf8_def invalid_defs)
    (simp add: char_of_def bit_iff_odd)

lemma bld_bytes_new: "bld_bytes (builder_new (bytes_from_bytes c)) = c"
  by (simp add: builder_new_def bytes_from_bytes_def)

definition req_msg :: "client_msg \<Rightarrow> bytes list \<Rightarrow> client_msg" where
  "req_msg msg g = msg\<lparr>cm_args := snd (args_add (join_caps g) (cm_args msg))\<rparr>"

lemma req_step_packs:
  assumes "bld_bytes cs = join_caps cur" and "[] \<notin> set (cur @ caps)"
  shows "\<exists>cs'. foldl (req_step msg n) (cs, sent) caps =
      (cs', sent @ map (req_msg msg) (butlast (pack n cur caps))) \<and>
    bld_bytes cs' = join_caps (last (pack n cur caps))"
  using assms
proof (induction n cur caps arbitrary: cs sent rule: pack.induct)
  case (2 n cur c caps)
  have ne: "bld_bytes cs = [] \<longleftrightarrow> cur = []" "[] \<notin> set cur" "c \<noteq> []" "[] \<notin> set caps"
    using 2(4,5) by (auto simp: join_caps_Nil)
  show ?case
  proof (cases "length (join_caps cur) + length c < n")
    case True
    then obtain cs1 where "req_step msg n (cs, sent) c = (cs1, sent)" "bld_bytes cs1 = join_caps (cur @ [c])"
      using 2(4) ne by (simp add: req_step_def Let_def bld_bytes_append bld_bytes_space join_caps_snoc)
    with 2(1) [OF True] ne True show ?thesis by auto
  next
    case False
    then have st: "req_step msg n (cs, sent) c =
        (builder_new (bytes_from_bytes c), sent @ (if cur = [] then [] else [req_msg msg cur]))"
      using 2(4) ne by (simp add: req_step_def Let_def req_msg_def)
    show ?thesis
      using 2(2,3) [OF False, of "builder_new (bytes_from_bytes c)" "sent @ (if cur = [] then [] else [req_msg msg cur])"] ne False st
      by (cases "cur = []") (auto simp: bld_bytes_new)
  qed
qed auto

definition req_head :: client_msg where
  "req_head = \<lparr>cm_tags = tags_new, cm_cmd = ''CAP'', cm_args = \<lparr>words = [''REQ''], long = None\<rparr>\<rparr>"

definition req_budget :: "bytes option \<Rightarrow> source option \<Rightarrow> nat" where
  "req_budget client server = nat (client_bytes_left req_head server - (4 + (case client of Some c \<Rightarrow> int (length c) | None \<Rightarrow> 1)))"

lemma req_packs:
  assumes "[] \<notin> set caps"
  shows "req caps client server = Some (map (req_msg req_head) (pack (req_budget client server) [] caps))"
proof -
  let ?p = "pack (req_budget client server) [] caps"
  have h: "add_literal ''REQ'' args_empty = Some (cm_args req_head)"
    by (simp add: add_literal_def from_str_def find_invalid_def invalid_defs args_add_def add_impl_def
        arg_first_check_def args_empty_def req_head_def)
  have m: "(client_new_cmd ''CAP'')\<lparr>cm_args := cm_args req_head\<rparr> = req_head"
    by (simp add: client_new_cmd_def req_head_def)
  have "bld_bytes (builder_new bytes_empty) = join_caps []"
    by (simp add: builder_new_def bytes_empty_def)
  from req_step_packs [OF this, of caps req_head "req_budget client server" "[]"] assms obtain cs where
    "foldl (req_step req_head (req_budget client server)) (builder_new bytes_empty, []) caps =
       (cs, map (req_msg req_head) (butlast ?p))" "bld_bytes cs = join_caps (last ?p)"
    by auto
  moreover have "map (req_msg req_head) ?p = map (req_msg req_head) (butlast ?p) @ [req_msg req_head (last ?p)]"
    by (metis append_butlast_last_id list.simps(8,9) map_append pack_not_Nil)
  ultimately show ?thesis
    by (simp add: req_def h m req_budget_def [symmetric]) (simp add: req_msg_def)
qed

section \<open>The parser of a capability list\<close>

text \<open>What one word of the list stands for.\<close>

definition cap_item :: "bytes \<Rightarrow> (bytes \<times> bytes) option" where
  "cap_item w =
     (case slice_string Key False w of
        Inl _ \<Rightarrow> None
      | Inr k \<Rightarrow>
          (case drop (length k) w of
             [] \<Rightarrow> Some (k, [])
           | c # v \<Rightarrow> if c = CHR ''='' then Some (k, v) else None))"

lemma cap_loop_empty: "wf_splitter sp \<Longrightarrow> as_slice sp = [] \<Longrightarrow> cap_loop sp m = Some m"
  by (subst cap_loop.simps) (simp add: sp_is_empty_iff)

lemma cap_loop_word:
  assumes "wf_splitter sp" and "as_slice sp = p @ w @ rest" and "\<forall>c \<in> set p. is_ascii_whitespace c"
    and "valid Word w" and "plain_start w" and "rest = [] \<or> is_invalid Word (hd rest)"
  shows "\<exists>sp2. wf_splitter sp2 \<and> as_slice sp2 = rest \<and>
    cap_loop sp m = cap_loop sp2 (case cap_item w of Some (k, v) \<Rightarrow> btm_insert k v m | None \<Rightarrow> m)"
proof -
  let ?sp1 = "consume_whitespace sp"
  have s1: "as_slice ?sp1 = w @ rest" "wf_splitter ?sp1"
    using assms(1,2,3) dropWhile_plain [OF assms(5), of rest] by (simp_all add: slice_simps wf_intros)
  have ex: "slice_string Word False (w @ rest) = Inr w"
    using assms(4,6) by (rule slice_string_exact)
  obtain sp2 where sd: "string_or_default Word False ?sp1 = (w, sp2)"
    using string_or_default_slice(1) [of Word False ?sp1] ex s1
    by (cases "string_or_default Word False ?sp1") simp
  then have sp2: "as_slice sp2 = rest" "wf_splitter sp2"
    using s1 string_or_default_slice(2) [of Word False ?sp1] ex string_or_default_wf [OF s1(2), of Word False]
    by simp_all
  have "cap_loop sp m = cap_loop sp2 (case cap_item w of Some (k, v) \<Rightarrow> btm_insert k v m | None \<Rightarrow> m)"
  proof (cases "slice_string Key False w")
    case (Inl e)
    then show ?thesis
      using assms(1,2,5) sp_string_slice(1) [of Key False "sp_new False w"]
      by (subst cap_loop.simps) (auto simp: sp_is_empty_iff sd split_def Let_def slice_simps cap_item_def plain_start_def)
  next
    case (Inr k)
    obtain wd where "sp_string Key False (sp_new False w) = (Inr k, wd)" and wd: "as_slice wd = drop (length k) w"
      using Inr sp_string_slice [of Key False "sp_new False w"]
      by (cases "sp_string Key False (sp_new False w)") (auto simp: slice_simps)
    then show ?thesis
      using assms(1,2,5) Inr sp_rest_slice(1) [of Word "snd (next_byte wd)"]
      by (subst cap_loop.simps)
        (auto simp: sp_is_empty_iff sd split_def Let_def slice_simps slice_rest_def cap_item_def plain_start_def
          split: list.splits)
  qed
  with sp2 show ?thesis by blast
qed

text \<open>On a line the loop ends, and the map is in order.\<close>

lemma cap_loop_returns:
  assumes "wf_splitter sp" and "valid Line (as_slice sp)" and "ascending (map fst m)"
  shows "\<exists>r. cap_loop sp m = Some r \<and> ascending (map fst r)"
  using assms
proof (induction "length (as_slice sp)" arbitrary: sp m rule: less_induct)
  case less
  let ?p = "takeWhile is_ascii_whitespace (as_slice sp)" and ?t = "dropWhile is_ascii_whitespace (as_slice sp)"
  let ?w = "takeWhile (\<lambda>b. \<not> is_invalid Word b) ?t" and ?r = "dropWhile (\<lambda>b. \<not> is_invalid Word b) ?t"
  show ?case
  proof (cases "?t = []")
    case True
    have e: "as_slice (consume_whitespace sp) = []" using True by (simp add: slice_simps)
    obtain sp2 where sd: "string_or_default Word False (consume_whitespace sp) = ([], sp2)"
      using string_or_default_slice(1) [of Word False "consume_whitespace sp"] e
      by (cases "string_or_default Word False (consume_whitespace sp)") (simp add: slice_string_def)
    have "fst (sp_string Key False (sp_new False [])) = Inl Empty"
      by (simp add: sp_string_slice slice_simps slice_string_def arg_first_check_def)
    then have "cap_loop sp m = (if as_slice sp = [] then Some m else cap_loop sp2 m)"
      using less(2) by (subst cap_loop.simps) (auto simp: sp_is_empty_iff split_def Let_def sd)
    moreover have "cap_loop sp2 m = Some m"
      using e sd string_or_default_slice(2) [of Word False "consume_whitespace sp"]
        string_or_default_wf [OF consume_whitespace_wf [OF less(2)], of Word False]
      by (intro cap_loop_empty) simp_all
    ultimately show ?thesis using less(4) by auto
  next
    case False
    have "hd ?t \<in> set (as_slice sp)" using False by (metis hd_in_set set_dropWhileD)
    moreover have nw: "\<not> is_ascii_whitespace (hd ?t)" using False by (simp add: hd_dropWhile)
    ultimately have "\<not> is_invalid Word (hd ?t)"
      using less(3) by (auto simp: valid_iff invalid_defs is_ascii_whitespace_def)
    then have w: "?w \<noteq> []" "hd ?w = hd ?t" using False by (cases ?t; simp)+
    have sl: "as_slice sp = ?p @ ?w @ ?r" by simp
    have "valid Word ?w" by (auto simp: valid_iff dest: set_takeWhileD)
    moreover have "plain_start ?w" using w nw by (simp add: plain_start_def)
    moreover have "?r = [] \<or> is_invalid Word (hd ?r)" using hd_dropWhile [of "\<lambda>b. \<not> is_invalid Word b" ?t] by auto
    ultimately obtain sp2 where sp2: "wf_splitter sp2" "as_slice sp2 = ?r"
      "cap_loop sp m = cap_loop sp2 (case cap_item ?w of Some (k, v) \<Rightarrow> btm_insert k v m | None \<Rightarrow> m)"
      using cap_loop_word [OF less(2) sl, of m] by (auto dest: set_takeWhileD)
    have len: "length ?r < length (as_slice sp)"
    proof -
      have "length (as_slice sp) = length ?p + (length ?w + length ?r)"
        using arg_cong [OF sl, of length] by (simp only: length_append)
      moreover have "0 < length ?w" using w(1) by (simp only: length_greater_0_conv not_False_eq_True)
      ultimately show ?thesis by linarith
    qed
    have "valid Line ?r" using less(3) by (auto simp: valid_iff dest!: set_dropWhileD)
    moreover have "ascending (map fst (case cap_item ?w of Some (k, v) \<Rightarrow> btm_insert k v m | None \<Rightarrow> m))"
      using less(4) by (simp add: btm_insert_ascending split: option.splits prod.splits)
    ultimately show ?thesis using less(1) [OF _ sp2(1)] len sp2(2,3) by simp
  qed
qed

lemma cap_parse_returns:
  assumes "args_ok a"
  shows "\<exists>r. cap_parse a = Some r"
proof -
  have "\<exists>c. cap_loop (sp_new False l) [] = Some c" if "snd (split_last a) = Some l" for l
  proof -
    have "valid Line l"
      using assms that valid_subtypes(5,6)
      by (auto simp: args_ok_def split_last_def split: option.splits if_splits)
    then show ?thesis using cap_loop_returns [of "sp_new False l" "[]"] by (auto simp: slice_simps wf_intros)
  qed
  then show ?thesis
    by (fastforce simp: cap_parse_def Let_def split: prod.splits option.splits list.splits sum.splits)
qed

text \<open>Printed lists: the words of \<open>CAP LS\<close>, with or without a value.\<close>

definition item_text :: "bytes \<times> bytes option \<Rightarrow> bytes" where
  "item_text = (\<lambda>(k, v). case v of None \<Rightarrow> k | Some v \<Rightarrow> k @ CHR ''='' # v)"

definition item_ok :: "bytes \<times> bytes option \<Rightarrow> bool" where
  "item_ok = (\<lambda>(k, v). valid Key k \<and> plain_start k \<and> (case v of None \<Rightarrow> True | Some v \<Rightarrow> valid Word v))"

definition item_entry :: "bytes \<times> bytes option \<Rightarrow> bytes \<times> bytes" where
  "item_entry = (\<lambda>(k, v). (k, case v of None \<Rightarrow> [] | Some v \<Rightarrow> v))"

lemma cap_item_text: "item_ok it \<Longrightarrow> cap_item (item_text it) = Some (item_entry it)"
  using slice_string_exact [of Key "fst it" "[]"] slice_string_exact [of Key "fst it" "CHR ''='' # the (snd it)"]
  by (cases it) (auto simp: item_ok_def item_text_def item_entry_def cap_item_def invalid_defs split: option.splits)

lemma item_text_ok: "item_ok it \<Longrightarrow> valid Word (item_text it) \<and> plain_start (item_text it)"
  using valid_subtypes(1,5)
  by (cases it) (fastforce simp: item_ok_def item_text_def plain_start_def valid_Word_iff split: option.splits)

definition btm_insert_all :: "('k::linorder \<times> 'v) list \<Rightarrow> ('k \<times> 'v) list \<Rightarrow> ('k \<times> 'v) list" where
  "btm_insert_all es m = foldl (\<lambda>m (k, v). btm_insert k v m) m es"

lemma btm_insert_all_map:
  "ascending (map fst m) \<Longrightarrow>
   ascending (map fst (btm_insert_all es m)) \<and> map_of (btm_insert_all es m) = map_of m ++ map_of (rev es)"
  by (induction es arbitrary: m)
    (auto simp: btm_insert_all_def btm_insert_ascending btm_insert_map map_add_def fun_eq_iff split: option.splits)

lemma cap_loop_items:
  assumes "wf_splitter sp" and "\<forall>it \<in> set items. item_ok it"
    and "as_slice sp = (if items = [] then [] else p @ join_caps (map item_text items))" and "p \<in> {[], '' ''}"
  shows "cap_loop sp m = Some (btm_insert_all (map item_entry items) m)"
  using assms
proof (induction items arbitrary: sp p m)
  case Nil
  then show ?case by (simp add: cap_loop_empty btm_insert_all_def)
next
  case (Cons it items)
  define rest where "rest = (if items = [] then [] else '' '' @ join_caps (map item_text items))"
  have sl: "as_slice sp = p @ item_text it @ rest" using Cons.prems(3) by (simp add: join_caps_Cons rest_def)
  have ws: "\<forall>c \<in> set p. is_ascii_whitespace c" using Cons.prems(4) by auto
  have "rest = [] \<or> is_invalid Word (hd rest)" by (simp add: rest_def invalid_defs)
  then obtain sp2 where sp2: "wf_splitter sp2" "as_slice sp2 = rest"
      "cap_loop sp m = cap_loop sp2 (case item_entry it of (k, v) \<Rightarrow> btm_insert k v m)"
    using cap_loop_word [OF Cons.prems(1) sl ws, of m] Cons.prems(2) item_text_ok [of it] cap_item_text [of it] by auto
  from Cons.IH [OF this(1) _ this(2) [unfolded rest_def]] Cons.prems(2) sp2(3) show ?case
    by (simp add: btm_insert_all_def split_def)
qed

lemma casemap_upper_value: "b_value (snd (transform (AsciiCasemap True) (bytes_from_bytes s))) = map to_ascii_uppercase s"
  by (simp add: ascii_casemap.transform_value AsciiCasemap_def map_bytes_out bytes_from_bytes_def)

lemma cap_parse_words:
  assumes "valid Nick nick" and "map to_ascii_uppercase sc = into_arg subcmd"
    and "ws = (if final then [] else [''*''])"
  shows "cap_parse (args_new (nick # sc # ws) (Some l)) =
    map_option (\<lambda>c. Inr \<lparr>cap_nick = nick, cap_subcmd = subcmd, cap_is_last = final, cap_caps = c\<rparr>)
      (cap_loop (sp_new False l) [])"
proof -
  have sl: "split_last (args_new (nick # sc # ws) (Some l)) = (nick # sc # ws, Some l)"
    by (simp add: args_new_def add_impl_def split_last_def butlast_append)
  have "from_super Nick nick = Inr nick"
    using assms(1) by (simp add: from_super_def valid_iff check_bytes_None [THEN iffD2] invalid_defs)
  moreover have "subcmd_from_bytes (into_arg subcmd) = Some subcmd"
    by (cases subcmd) (simp_all add: subcmd_from_bytes_def into_arg_def)
  ultimately show ?thesis
    unfolding cap_parse_def sl using assms(2,3) by (simp add: casemap_upper_value)
qed

text \<open>Merging the lines of one reply: the maps are joined, a newer value wins.\<close>

lemma combine_merges:
  assumes "\<not> cap_is_last a" and "cap_subcmd a = cap_subcmd b" and "cap_nick a = cap_nick b"
    and "ascending (map fst (cap_caps a))" and "ascending (map fst (cap_caps b))"
  shows "fst (combine a b) = None" and "cap_is_last (snd (combine a b)) = cap_is_last b"
    and "map_of (cap_caps (snd (combine a b))) = map_of (cap_caps a) ++ map_of (cap_caps b)"
proof -
  have "map_of (rev (cap_caps b)) = map_of (cap_caps b)"
    using assms(5) by (simp add: map_of_inject_set ascending_iff rev_map [symmetric])
  then show "map_of (cap_caps (snd (combine a b))) = map_of (cap_caps a) ++ map_of (cap_caps b)"
    using assms(1-3) btm_insert_all_map [OF assms(4), of "cap_caps b"] by (simp add: combine_def btm_insert_all_def)
qed (use assms in \<open>simp_all add: combine_def\<close>)

lemma contains_combine:
  assumes "\<not> cap_is_last a" and "cap_subcmd a = cap_subcmd b" and "cap_nick a = cap_nick b"
    and "ascending (map fst (cap_caps a))" and "ascending (map fst (cap_caps b))"
  shows "contains (snd (combine a b)) k \<longleftrightarrow> contains a k \<or> contains b k"
  using combine_merges(3) [OF assms] by (auto simp: contains_def map_add_def split: option.splits)

section \<open>The answer to a request\<close>

definition target_of :: "bytes option \<Rightarrow> bytes" where
  "target_of client = (case client of Some c \<Rightarrow> c | None \<Rightarrow> STAR)"

text \<open>A server answers \<open>REQ\<close> by \<open>ACK\<close> or \<open>NAK\<close> with the same list.\<close>

definition cap_reply :: "SubCmd \<Rightarrow> bytes option \<Rightarrow> source option \<Rightarrow> bytes list \<Rightarrow> server_msg" where
  "cap_reply sub client server g =
     \<lparr>sm_tags = tags_new, sm_source = server, sm_kind = KCmd ''CAP'',
      sm_args = args_new [target_of client, into_arg sub] (Some (join_caps g))\<rparr>"

lemma req_budget_value:
  "0 < req_budget client server \<Longrightarrow>
   int (req_budget client server) =
     498 - (case server of Some s \<Rightarrow> 2 + int (src_len s) | None \<Rightarrow> 0) - int (length (target_of client))"
  by (simp add: req_budget_def client_bytes_left_def bytes_left_def req_head_def args_is_empty_def len_bytes_def
      target_of_def STAR_def min_def split: option.splits if_splits)

lemma cap_reply_fits:
  assumes "sub \<in> {Ack, Nak}" and "length (join_caps g) \<le> req_budget client server" and "0 < req_budget client server"
  shows "length (server_write_to (cap_reply sub client server g)) \<le> 510"
proof -
  have "length (args_text (args_new [target_of client, into_arg sub] (Some (join_caps g)))) \<le>
      length (target_of client) + 7 + length (join_caps g)"
    using assms(1) by (auto simp: args_new_def add_impl_def args_text_def into_arg_def)
  then show ?thesis
    using assms(2) req_budget_value [OF assms(3)]
    by (simp add: server_write_to_def msg_write_text cap_reply_def head_text_def tags_new_def fm_new_def src_write_length
        kind_as_arg_def kind_as_str_def split: option.splits)
qed

lemma cap_reply_parse:
  assumes "valid Nick (target_of client)" and "\<forall>c \<in> set g. valid Key c \<and> plain_start c"
  shows "\<exists>m. cap_parse (sm_args (cap_reply sub client server g)) =
      Some (Inr \<lparr>cap_nick = target_of client, cap_subcmd = sub, cap_is_last = True, cap_caps = m\<rparr>) \<and>
    map_of m = (\<lambda>k. if k \<in> set g then Some [] else None)"
proof -
  let ?items = "map (\<lambda>k. (k, None)) g"
  have j: "join_caps (map item_text ?items) = join_caps g"
    by (simp add: item_text_def comp_def)
  have up: "map to_ascii_uppercase (into_arg sub) = into_arg sub"
    by (cases sub) (simp_all add: into_arg_def to_ascii_uppercase_def is_ascii_lowercase_def)
  have "cap_loop (sp_new False (join_caps g)) [] = Some (btm_insert_all (map item_entry ?items) [])"
    using assms(2) j
    by (intro cap_loop_items [of _ _ "[]"]) (auto simp: item_ok_def wf_intros slice_simps)
  moreover have "map_of (btm_insert_all (map item_entry ?items) []) = (\<lambda>k. if k \<in> set g then Some [] else None)"
    using btm_insert_all_map [of "[]" "map item_entry ?items"]
    by (auto simp: item_entry_def comp_def rev_map map_of_map_restrict restrict_map_def)
  ultimately show ?thesis
    using cap_parse_words [OF assms(1) up, of "[]" True "join_caps g"] by (simp add: cap_reply_def)
qed

section \<open>Properties\<close>

text \<open>C11: Requesting capabilities whose names are keys that do not start with a tab or form feed sends each of
  them exactly once and in order, packed into messages; if the client's name is a valid nickname (or
  \<open>*\<close>, when it has none yet), the server's \<open>ACK\<close> or \<open>NAK\<close> of a message fits a line of 510 bytes unless the
  message asks for a single capability, and the client parses it as exactly the capabilities it asked
  for.\<close>

theorem req_acknowledged:
  assumes "\<forall>c \<in> set caps. valid Key c \<and> plain_start c" and "valid Nick (target_of client)" and "sub \<in> {Ack, Nak}"
  shows "\<exists>gs. req caps client server = Some (map (req_msg req_head) gs) \<and> concat gs = caps \<and>
    (\<forall>g \<in> set gs.
       (length g \<le> 1 \<or> length (server_write_to (cap_reply sub client server g)) \<le> 510) \<and>
       (\<exists>m. cap_parse (sm_args (cap_reply sub client server g)) =
            Some (Inr \<lparr>cap_nick = target_of client, cap_subcmd = sub, cap_is_last = True, cap_caps = m\<rparr>) \<and>
          map_of m = (\<lambda>k. if k \<in> set g then Some [] else None)))"
proof -
  let ?gs = "pack (req_budget client server) [] caps"
  have "req caps client server = Some (map (req_msg req_head) ?gs)"
    using assms(1) by (intro req_packs) (auto simp: plain_start_def)
  moreover have cc: "concat ?gs = caps" by (simp add: concat_pack)
  moreover have "length g \<le> 1 \<or> length (server_write_to (cap_reply sub client server g)) \<le> 510"
    if "g \<in> set ?gs" for g
    using pack_fits [OF _ that] cap_reply_fits [OF assms(3)] by auto
  moreover have "\<forall>c \<in> set g. valid Key c \<and> plain_start c" if "g \<in> set ?gs" for g
    using that cc assms(1) by (metis UN_I set_concat)
  ultimately show ?thesis using cap_reply_parse [OF assms(2)] by blast
qed

theorem req_acknowledged_witness:
  "\<exists>gs. req [''sasl'', ''batch''] (Some ''me'') None = Some (map (req_msg req_head) gs) \<and> concat gs = [''sasl'', ''batch'']"
  using req_acknowledged [of "[''sasl'', ''batch'']" "Some ''me''" Ack None]
  by (auto simp: valid_iff invalid_defs arg_first_check_def plain_start_def is_ascii_whitespace_def target_of_def)

text \<open>The list of a \<open>CAP\<close> message is parsed to the map of its capabilities and values: for every
  nickname, subcommand in any case of letters, continuation marker and list of words with or without a
  value, where a later word replaces an earlier one.\<close>

lemma cap_list_roundtrip:
  assumes "valid Nick nick" and "map to_ascii_uppercase sc = into_arg subcmd" and "\<forall>it \<in> set items. item_ok it"
  shows "\<exists>m. cap_parse (args_new (nick # sc # (if final then [] else [''*''])) (Some (join_caps (map item_text items)))) =
      Some (Inr \<lparr>cap_nick = nick, cap_subcmd = subcmd, cap_is_last = final, cap_caps = m\<rparr>) \<and>
    ascending (map fst m) \<and> map_of m = map_of (rev (map item_entry items))"
  using cap_parse_words [OF assms(1,2) refl, of final "join_caps (map item_text items)"]
    cap_loop_items [of "sp_new False (join_caps (map item_text items))" items "[]" "[]"] assms(3)
    btm_insert_all_map [of "[]" "map item_entry items"]
  by (auto simp: wf_intros slice_simps)

end
