(* ===== verification/Serde.thy ===== *)
theory Serde
  imports Newtypes Auth Cap
begin

text \<open>
  Texts of the errors (\<open>error.rs\<close>) and serialisation: \<open>string/serde.rs\<close>, the \<open>Serialize\<close> and \<open>Deserialize\<close> instances of the
  newtypes (\<open>string/subtypes/macros.rs\<close>), of \<open>Args\<close>, of \<open>Tags\<close> and of the secrets of \<open>client/auth/secret.rs\<close>.

  A \<open>Serializer\<close> is told what a value is made of: a \<open>content\<close>.  A \<open>Deserializer\<close> is asked for a kind of value and calls
  the visitor back with what it makes of the data, or fails.  A data format is the parameter \<open>ask\<close>: what it
  delivers for a request on a serialised content; \<open>data_format\<close> states what every format documents.
\<close>

section \<open>Errors (\<open>error.rs\<close>)\<close>

fun invalid_string_display :: "InvalidString \<Rightarrow> string" where
  "invalid_string_display Empty = ''empty substring''"
| "invalid_string_display Colon = ''substring begins with colon''"
| "invalid_string_display (Byte b) = ''invalid byte '' @ [CHR 0x27] @ escape_ascii b @ [CHR 0x27]"

fun parse_error_display :: "ParseError \<Rightarrow> string" where
  "parse_error_display TooLong = ''message is too long''"
| "parse_error_display (MissingField f) = ''missing field '' @ f"
| "parse_error_display (InvalidField f e) = ''invalid field '' @ f @ '': '' @ e"
| "parse_error_display (InvalidLine e) = ''invalid line: '' @ invalid_string_display e"
| "parse_error_display (InvalidNick e) = ''invalid source nickname: '' @ invalid_string_display e"
| "parse_error_display (InvalidUser e) = ''invalid source username: '' @ invalid_string_display e"
| "parse_error_display (InvalidHost e) = ''invalid source hostname: '' @ invalid_string_display e"
| "parse_error_display (InvalidKind e) = ''invalid message kind: '' @ invalid_string_display e"

text \<open>The cause of an error: the boxed one of a field, which the model keeps as its text, or a string error.\<close>

fun parse_error_source :: "ParseError \<Rightarrow> (string, InvalidString) result option" where
  "parse_error_source (InvalidField _ e) = Some (Inr e)"
| "parse_error_source (InvalidLine e) = Some (Inl e)"
| "parse_error_source (InvalidNick e) = Some (Inl e)"
| "parse_error_source (InvalidUser e) = Some (Inl e)"
| "parse_error_source (InvalidHost e) = Some (Inl e)"
| "parse_error_source (InvalidKind e) = Some (Inl e)"
| "parse_error_source _ = None"

definition io_from_parse_error :: "ParseError \<Rightarrow> io_error" where
  "io_from_parse_error e = InvalidData e"

definition io_from_invalid_string :: "InvalidString \<Rightarrow> io_error" where
  "io_from_invalid_string e = InvalidDataString e"

section \<open>The data model of serde\<close>

text \<open>Sequences and maps carry the length that was announced for them.\<close>

datatype content =
    CBool bool | CInt int | CStr bytes | CString bytes | CBytes bytes | CByteBuf bytes | CUnit | CNone
  | CSeq "nat option" "content list"
  | CMap "nat option" "(content \<times> content) list"

text \<open>\<open>serde::de::Error\<close>: what was found and what was expected, or a message.\<close>

datatype de_error = InvalidType content string | InvalidValue content string | Custom string

text \<open>The methods of a \<open>Deserializer\<close> that the crate calls.\<close>

datatype request = AskString | AskSeq | AskMap

type_synonym format = "request \<Rightarrow> content \<Rightarrow> (content, de_error) result"

section \<open>Byte strings (\<open>string/serde.rs\<close>)\<close>

definition bytes_serialize :: "ircbytes \<Rightarrow> content" where
  "bytes_serialize b = (case fst (to_utf8 b) of Some s \<Rightarrow> CStr s | None \<Rightarrow> CBytes (b_value b))"

definition bytes_expecting :: string where
  "bytes_expecting = ''a string or byte array (either owning or borrowed) or false/unit''"

fun bytes_visit :: "content \<Rightarrow> (ircbytes, de_error) result" where
  "bytes_visit (CBool v) = (if \<not> v then Inr bytes_empty else Inl (InvalidType (CBool v) bytes_expecting))"
| "bytes_visit (CStr v) = Inr (owning (bytes_from_str v))"
| "bytes_visit (CString v) = Inr (bytes_from_string v)"
| "bytes_visit (CBytes v) = Inr (owning (bytes_from_bytes v))"
| "bytes_visit (CByteBuf v) = Inr (bytes_from_vec v)"
| "bytes_visit CUnit = Inr bytes_empty"
| "bytes_visit c = Inl (InvalidType c bytes_expecting)"

definition bytes_deserialize :: "format \<Rightarrow> content \<Rightarrow> (ircbytes, de_error) result" where
  "bytes_deserialize ask c = bind_res (ask AskString c) bytes_visit"

section \<open>Newtypes (\<open>string/subtypes/macros.rs\<close>)\<close>

definition nt_serialize :: "ircbytes \<Rightarrow> content" where
  "nt_serialize b = bytes_serialize (nt_into_bytes b)"

definition nt_deserialize :: "format \<Rightarrow> strtype \<Rightarrow> content \<Rightarrow> (ircbytes, de_error) result" where
  "nt_deserialize ask t c =
     (case bytes_deserialize ask c of
        Inl e \<Rightarrow> Inl e
      | Inr b \<Rightarrow> map_err (\<lambda>e. Custom (invalid_string_display e)) (nt_from_bytes t b))"

section \<open>Arguments (\<open>ircmsg/args.rs\<close>)\<close>

text \<open>\<open>Vec::deserialize\<close> stops at the first element that fails.\<close>

fun all_results :: "('e, 'x) result list \<Rightarrow> ('e list, 'x) result" where
  "all_results [] = Inr []"
| "all_results (Inl e # rs) = Inl e"
| "all_results (Inr x # rs) = (case all_results rs of Inl e \<Rightarrow> Inl e | Inr xs \<Rightarrow> Inr (x # xs))"

fun vec_visit :: "(content \<Rightarrow> ('a, de_error) result) \<Rightarrow> content \<Rightarrow> ('a list, de_error) result" where
  "vec_visit de (CSeq _ cs) = all_results (map de cs)"
| "vec_visit de c = Inl (InvalidType c ''a sequence'')"

definition vec_deserialize :: "format \<Rightarrow> (content \<Rightarrow> ('a, de_error) result) \<Rightarrow> content \<Rightarrow> ('a list, de_error) result" where
  "vec_deserialize ask de c = bind_res (ask AskSeq c) (vec_visit de)"

definition args_serialize :: "args \<Rightarrow> content" where
  "args_serialize a =
     CSeq (Some (args_len a))
       (map (\<lambda>w. nt_serialize (bytes_from_bytes w)) (words a) @
        (case long a of Some l \<Rightarrow> [nt_serialize (bytes_from_bytes l)] | None \<Rightarrow> []))"

definition invalid_arg :: "nat \<Rightarrow> InvalidString \<Rightarrow> de_error" where
  "invalid_arg i e = Custom (''invalid arg @ index '' @ fmt_base 10 i @ '': '' @ invalid_string_display e)"

fun args_words :: "nat \<Rightarrow> ircbytes list \<Rightarrow> bytes list \<Rightarrow> (bytes list, de_error) result" where
  "args_words i [] ws = Inr ws"
| "args_words i (arg # as) ws =
     (case find_invalid Arg (b_value arg) of
        Some e \<Rightarrow> Inl (invalid_arg i e)
      | None \<Rightarrow> args_words (i + 1) as (ws @ [b_value arg]))"

definition args_deserialize :: "format \<Rightarrow> content \<Rightarrow> (args, de_error) result" where
  "args_deserialize ask c =
     (case vec_deserialize ask (bytes_deserialize ask) c of
        Inl e \<Rightarrow> Inl e
      | Inr as \<Rightarrow>
          if as = [] then Inr args_empty
          else
            (case args_words 0 (butlast as) [] of
               Inl e \<Rightarrow> Inl e
             | Inr ws \<Rightarrow>
                 (case nt_from_bytes Line (last as) of
                    Inr l \<Rightarrow> Inr (snd (add_impl (b_value l) \<lparr>words = ws, long = None\<rparr>))
                  | Inl e \<Rightarrow> Inl (invalid_arg (length ws) e))))"

section \<open>Tags (\<open>ircmsg/tags.rs\<close>)\<close>

definition tags_serialize :: "tags \<Rightarrow> content" where
  "tags_serialize t =
     CMap (Some (length t)) (map (\<lambda>(k, v). (nt_serialize (bytes_from_bytes k), nt_serialize (bytes_from_bytes v))) t)"

text \<open>\<open>BTreeMap::deserialize\<close> reads a key, then its value, and inserts them.\<close>

fun btree_entries :: "format \<Rightarrow> (content \<times> content) list \<Rightarrow> tag list \<Rightarrow> (tag list, de_error) result" where
  "btree_entries ask [] m = Inr m"
| "btree_entries ask ((ck, cv) # es) m =
     (case nt_deserialize ask Key ck of
        Inl e \<Rightarrow> Inl e
      | Inr k \<Rightarrow>
          (case nt_deserialize ask NoNul cv of
             Inl e \<Rightarrow> Inl e
           | Inr v \<Rightarrow> btree_entries ask es (btm_insert (b_value k) (b_value v) m)))"

fun btree_visit :: "format \<Rightarrow> content \<Rightarrow> (tag list, de_error) result" where
  "btree_visit ask (CMap _ es) = btree_entries ask es []"
| "btree_visit ask c = Inl (InvalidType c ''a map'')"

definition tags_deserialize :: "format \<Rightarrow> content \<Rightarrow> (tags, de_error) result" where
  "tags_deserialize ask c =
     (case bind_res (ask AskMap c) (btree_visit ask) of Inl e \<Rightarrow> Inl e | Inr m \<Rightarrow> Inr (fm_from_vec fst m))"

section \<open>Secrets (\<open>client/auth/secret.rs\<close>)\<close>

definition load_hint_default :: nat where
  "load_hint_default = 32"

definition load_hint_unit :: nat where
  "load_hint_unit = 0"

definition load_hint_clear :: nat where
  "load_hint_clear = 0"

fun load_error_display :: "load_error \<Rightarrow> string" where
  "load_error_display NoSecretLoader = ''no secret loader''"
| "load_error_display (InvalidSecret e) = invalid_string_display e"

text \<open>\<open>String::deserialize\<close> takes bytes that are UTF-8.\<close>

fun string_visit :: "content \<Rightarrow> (bytes, de_error) result" where
  "string_visit (CStr s) = Inr s"
| "string_visit (CString s) = Inr s"
| "string_visit (CBytes s) = (if utf8_valid s then Inr s else Inl (InvalidValue (CBytes s) ''a string''))"
| "string_visit (CByteBuf s) = (if utf8_valid s then Inr s else Inl (InvalidValue (CBytes s) ''a string''))"
| "string_visit c = Inl (InvalidType c ''a string'')"

definition string_deserialize :: "format \<Rightarrow> content \<Rightarrow> (bytes, de_error) result" where
  "string_deserialize ask c = bind_res (ask AskString c) string_visit"

text \<open>The engine of the base64 crate is a parameter, with the text of its errors and the capacity of the vector it returns.\<close>

definition clear_deserialize ::
  "(bytes \<Rightarrow> (bytes, 'e) result) \<Rightarrow> ('e \<Rightarrow> string) \<Rightarrow> (bytes \<Rightarrow> nat) \<Rightarrow> format \<Rightarrow> content \<Rightarrow> (secret_buf, de_error) result option" where
  "clear_deserialize decode text vec_cap ask c =
     (case string_deserialize ask c of
        Inl e \<Rightarrow> Some (Inl e)
      | Inr s \<Rightarrow>
          (case decode s of
             Inl e \<Rightarrow> Some (Inl (Custom (text e)))
           | Inr data \<Rightarrow> do { sb \<leftarrow> sb_from_vec data (vec_cap data); Some (Inr sb) }))"

definition secret_deserialize ::
  "(nat \<Rightarrow> nat) \<Rightarrow> strtype \<Rightarrow> (content \<Rightarrow> ('l, de_error) result option) \<Rightarrow> ('l \<Rightarrow> nat) \<Rightarrow>
   ('l \<Rightarrow> secret_buf \<Rightarrow> (unit, load_error) result \<times> secret_buf) \<Rightarrow> content \<Rightarrow> (ircbytes, de_error) result option" where
  "secret_deserialize alloc T de hint load c = do {
     r \<leftarrow> de c;
     case r of
       Inl e \<Rightarrow> Some (Inl e)
     | Inr loaded \<Rightarrow> do {
         buf \<leftarrow> sb_with_capacity alloc (hint loaded);
         let (lr, buf') = load loaded buf;
         case lr of
           Inl e \<Rightarrow> Some (Inl (Custom (load_error_display e)))
         | Inr _ \<Rightarrow> do {
             b \<leftarrow> sb_into_bytes buf';
             Some (map_err (\<lambda>e. Custom (invalid_string_display e)) (nt_from_bytes T b)) } } }"

section \<open>Errors tell what happened\<close>

text \<open>The text of an error determines the error: escaping a byte is injective.\<close>

lemma digit_char_inj: "digit_char m = digit_char n \<Longrightarrow> m < 16 \<Longrightarrow> n < 16 \<Longrightarrow> m = n"
  by (auto simp: digit_char_def split: if_splits dest!: arg_cong [where f = code])

lemma escape_ascii_inj: "escape_ascii a = escape_ascii b \<longleftrightarrow> a = b"
proof
  assume *: "escape_ascii a = escape_ascii b"
  have hex: "a = b" if "digit_char (code a div 16) = digit_char (code b div 16)" "digit_char (code a mod 16) = digit_char (code b mod 16)"
  proof -
    have "code a div 16 < 16" "code b div 16 < 16" using code_less [of a] code_less [of b] by (simp_all add: less_mult_imp_div_less)
    with that have "code a div 16 = code b div 16" "code a mod 16 = code b mod 16" using digit_char_inj by simp_all
    then have "code a = code b" by (metis div_mult_mod_eq)
    then show ?thesis by (simp add: code_inject)
  qed
  with * show "a = b" by (auto simp: escape_ascii_def split: if_splits)
qed simp

lemma invalid_string_display_inj: "invalid_string_display d = invalid_string_display e \<longleftrightarrow> d = e"
  by (cases d; cases e) (simp_all add: escape_ascii_inj)

section \<open>Data formats\<close>

lemma from_bytes_value [simp]: "b_value (bytes_from_bytes v) = v"
  by (simp add: bytes_from_bytes_def)

lemma visit_ok:
  "utf8_valid v \<Longrightarrow> bytes_ok (owning (bytes_from_str v))" "utf8_valid v \<Longrightarrow> bytes_ok (bytes_from_string v)"
  "bytes_ok (owning (bytes_from_bytes v))" "bytes_ok (bytes_from_vec v)" "bytes_ok bytes_empty"
  by (auto intro: wf_intros)

lemma bytes_serialize_eq:
  "bytes_ok b \<Longrightarrow> bytes_serialize b = (if utf8_valid (b_value b) then CStr (b_value b) else CBytes (b_value b))"
  by (simp add: bytes_serialize_def to_utf8_fst)

lemma all_results_map: "\<forall>x \<in> set xs. f x = Inr (g x) \<Longrightarrow> all_results (map f xs) = Inr (map g xs)"
  by (induction xs) simp_all

lemma args_words_eq:
  "args_words i as ws = Inr vs \<longleftrightarrow> vs = ws @ map b_value as \<and> (\<forall>b \<in> set as. valid Arg (b_value b))"
proof (induction i as ws rule: args_words.induct)
  case (2 i arg as ws)
  show ?case
  proof (cases "find_invalid Arg (b_value arg)")
    case None
    then show ?thesis using "2.IH" by (simp add: valid_def)
  qed (simp add: valid_def)
qed auto

lemma args_words_Inl:
  "args_words i as ws = Inl e \<Longrightarrow> \<exists>j < length as. find_invalid Arg (b_value (as ! j)) \<noteq> None \<and>
     e = invalid_arg (i + j) (the (find_invalid Arg (b_value (as ! j))))"
proof (induction i as ws rule: args_words.induct)
  case (2 i arg as ws)
  show ?case
  proof (cases "find_invalid Arg (b_value arg)")
    case None
    with 2 obtain j where "j < length as" "find_invalid Arg (b_value (as ! j)) \<noteq> None"
        "e = invalid_arg (i + 1 + j) (the (find_invalid Arg (b_value (as ! j))))" by auto
    then show ?thesis by (intro exI [of _ "Suc j"]) simp
  qed (use 2 in auto)
qed simp

text \<open>Whatever the input says, what is read satisfies the invariants.\<close>

lemma nt_deserialize_valid: "nt_deserialize ask t c = Inr x \<Longrightarrow> valid t (b_value x)"
  by (auto simp: nt_deserialize_def nt_from_bytes_def valid_def split: sum.splits option.splits)

lemma args_deserialize_ok: "args_deserialize ask c = Inr a \<Longrightarrow> args_ok a"
  by (auto simp: args_deserialize_def args_words_eq nt_from_bytes_Inr args_ok_def add_impl_def valid_def
      args_empty_def split: sum.splits if_splits)

lemma tag_list_ok_insert: "valid Key k \<Longrightarrow> valid NoNul v \<Longrightarrow> tag_list_ok m \<Longrightarrow> tag_list_ok (btm_insert k v m)"
  by (induction k v m rule: btm_insert.induct) (auto simp: tag_list_ok_def)

lemma btree_entries_ok:
  "btree_entries ask es m = Inr m' \<Longrightarrow> tag_list_ok m \<Longrightarrow> tag_list_ok m'"
proof (induction ask es m rule: btree_entries.induct)
  case (2 ask ck cv es m)
  from "2.prems"(1) obtain k v where kv: "nt_deserialize ask Key ck = Inr k" "nt_deserialize ask NoNul cv = Inr v"
      "btree_entries ask es (btm_insert (b_value k) (b_value v) m) = Inr m'"
    by (auto split: sum.splits)
  from nt_deserialize_valid [OF kv(1)] nt_deserialize_valid [OF kv(2)] "2.prems"(2)
  have "tag_list_ok (btm_insert (b_value k) (b_value v) m)" by (rule tag_list_ok_insert)
  with kv "2.IH" [OF kv(1,2)] show ?case by simp
qed simp

lemma tags_deserialize_ok: "tags_deserialize ask c = Inr t \<Longrightarrow> tags_ok t"
proof -
  assume "tags_deserialize ask c = Inr t"
  then obtain c' m where c': "btree_visit ask c' = Inr m" "t = fm_from_vec fst m"
    by (auto simp: tags_deserialize_def bind_res_Inr split: sum.splits)
  then obtain n es where "btree_entries ask es [] = Inr m" by (cases c') auto
  from btree_entries_ok [OF this] c' show ?thesis by (simp add: tags_ok_from_vec tag_list_ok_def)
qed

lemma btm_insert_last: "\<forall>e \<in> set m. fst e < k \<Longrightarrow> btm_insert k v m = m @ [(k, v)]"
  by (induction k v m rule: btm_insert.induct) auto

lemma btm_insert_ascends: "ascending (map fst (m @ t)) \<Longrightarrow> btm_insert_all t m = m @ t"
proof (induction t arbitrary: m)
  case (Cons e t)
  obtain k v where e: "e = (k, v)" by force
  from Cons.prems have "btm_insert k v m = m @ [e]" unfolding e by (intro btm_insert_last) (auto simp: sorted_wrt_append)
  with Cons.IH [of "m @ [e]"] Cons.prems show ?case by (simp add: btm_insert_all_def e)
qed (simp add: btm_insert_all_def)

lemma btm_insert_all_id: "fm_ok fst t \<Longrightarrow> fm_from_vec fst (btm_insert_all t []) = t"
  using btm_insert_ascends [of "[]" t] by (simp add: fm_ok_def fm_from_vec_ascending)

text \<open>What a format makes of a string, and whether it can.\<close>

definition delivered :: "format \<Rightarrow> bytes \<Rightarrow> ircbytes" where
  "delivered ask v = projr (bytes_deserialize ask (nt_serialize (bytes_from_bytes v)))"

definition keeps_bytes :: "format \<Rightarrow> bytes \<Rightarrow> bool" where
  "keeps_bytes ask v \<longleftrightarrow> ask AskString (CBytes v) \<in> {Inr (CBytes v), Inr (CByteBuf v)}"

definition readable :: "format \<Rightarrow> bytes \<Rightarrow> bool" where
  "readable ask v \<longleftrightarrow> utf8_valid v \<or> keeps_bytes ask v"

text \<open>A format delivers a string when asked for a string, a sequence when asked for a sequence and a map when asked for a
  map; a string may come back owned or borrowed, and the announced length of a container may be forgotten.
  What it does with a byte string when asked for a string is not fixed by serde: \<open>keeps_bytes\<close>.\<close>

locale data_format =
  fixes ask :: format
  assumes ask_str: "ask AskString (CStr s) \<in> {Inr (CStr s), Inr (CString s)}"
    and ask_seq: "\<exists>n'. ask AskSeq (CSeq n cs) = Inr (CSeq n' cs)"
    and ask_map: "\<exists>n'. ask AskMap (CMap n es) = Inr (CMap n' es)"
begin

lemma bytes_carried:
  "bytes_ok b \<Longrightarrow> readable ask (b_value b) \<Longrightarrow>
   \<exists>x. bytes_deserialize ask (bytes_serialize b) = Inr x \<and> b_value x = b_value b \<and> bytes_ok x"
  using ask_str [of "b_value b"]
  by (auto simp: bytes_serialize_eq bytes_deserialize_def visit_ok readable_def keeps_bytes_def)

lemma nt_carried:
  assumes "valid t v" and "readable ask v"
  shows "\<exists>x. nt_deserialize ask t (nt_serialize (bytes_from_bytes v)) = Inr x \<and> b_value x = v"
proof -
  obtain x where "bytes_deserialize ask (bytes_serialize (bytes_from_bytes v)) = Inr x" "b_value x = v"
    using bytes_carried [OF bytes_ok_new(3), of v] assms(2) by auto
  with assms show ?thesis by (simp add: nt_deserialize_def nt_serialize_def nt_into_bytes_def nt_from_bytes_def valid_def)
qed

lemma delivered:
  assumes "readable ask v"
  shows "bytes_deserialize ask (nt_serialize (bytes_from_bytes v)) = Inr (delivered ask v)" "b_value (delivered ask v) = v"
  using bytes_carried [OF bytes_ok_new(3), of v] assms by (auto simp: delivered_def nt_serialize_def nt_into_bytes_def)

lemma vec_carried:
  "\<forall>w \<in> set ws. readable ask w \<Longrightarrow>
   vec_deserialize ask (bytes_deserialize ask) (CSeq n (map (\<lambda>w. nt_serialize (bytes_from_bytes w)) ws)) = Inr (map (delivered ask) ws)"
  using ask_seq [of n "map (\<lambda>w. nt_serialize (bytes_from_bytes w)) ws"]
  by (auto simp: vec_deserialize_def comp_def delivered intro!: all_results_map)

lemma args_carried:
  assumes ok: "args_ok a" and readable: "\<forall>w \<in> set (words a) \<union> set_option (long a). readable ask w"
  shows "args_deserialize ask (args_serialize a) = Inr a"
proof -
  define ws where "ws = words a @ (case long a of Some l \<Rightarrow> [l] | None \<Rightarrow> [])"
  have r: "\<forall>w \<in> set ws. readable ask w" using readable by (auto simp: ws_def split: option.splits)
  have "args_serialize a = CSeq (Some (args_len a)) (map (\<lambda>w. nt_serialize (bytes_from_bytes w)) ws)"
    by (simp add: args_serialize_def ws_def split: option.split)
  then have v: "vec_deserialize ask (bytes_deserialize ask) (args_serialize a) = Inr (map (delivered ask) ws)"
    by (simp only: vec_carried [OF r])
  show ?thesis
  proof (cases "ws = []")
    case True
    then show ?thesis using v by (cases a) (auto simp: args_deserialize_def ws_def args_empty_def split: option.splits)
  next
    case False
    have "\<forall>w \<in> set (butlast ws). valid Arg w" "valid Line (last ws)"
      using ok False valid_subtypes(5,6) by (auto simp: ws_def args_ok_def butlast_append dest: in_set_butlastD split: option.splits if_splits)
    moreover have "snd (add_impl (last ws) \<lparr>words = butlast ws, long = None\<rparr>) = a"
      using ok False by (cases a) (auto simp: ws_def args_ok_def add_impl_def valid_def butlast_append split: option.splits)
    moreover have d: "\<forall>w \<in> set (butlast ws). b_value (delivered ask w) = w" "b_value (delivered ask (last ws)) = last ws"
      using r False delivered(2) by (auto dest: in_set_butlastD)
    moreover have "map (b_value \<circ> delivered ask) (butlast ws) = butlast ws" using d(1) by (intro map_idI) simp
    ultimately show ?thesis
      using v False args_words_eq [of 0 "map (delivered ask) (butlast ws)" "[]" "butlast ws"]
      by (simp add: args_deserialize_def map_butlast [symmetric] last_map nt_from_bytes_def valid_def)
  qed
qed

lemma entries_carried:
  "tag_list_ok t \<Longrightarrow> \<forall>(k, v) \<in> set t. readable ask k \<and> readable ask v \<Longrightarrow>
   btree_entries ask (map (\<lambda>(k, v). (nt_serialize (bytes_from_bytes k), nt_serialize (bytes_from_bytes v))) t) m =
   Inr (btm_insert_all t m)"
proof (induction t arbitrary: m)
  case (Cons e t)
  obtain k v where "e = (k, v)" by force
  with Cons nt_carried [of Key k] nt_carried [of NoNul v] show ?case
    by (auto simp: tag_list_ok_def btm_insert_all_def)
qed (simp add: btm_insert_all_def)

lemma tags_carried:
  assumes ok: "tags_ok t" and "\<forall>(k, v) \<in> set t. readable ask k \<and> readable ask v"
  shows "tags_deserialize ask (tags_serialize t) = Inr t"
proof -
  obtain n where "ask AskMap (tags_serialize t) = Inr (CMap n
      (map (\<lambda>(k, v). (nt_serialize (bytes_from_bytes k), nt_serialize (bytes_from_bytes v))) t))"
    using ask_map unfolding tags_serialize_def by blast
  moreover have "tag_list_ok t" using ok by (simp add: tags_ok_def tag_list_ok_def)
  moreover have "fm_from_vec fst (btm_insert_all t []) = t"
    using ok by (intro btm_insert_all_id) (simp add: tags_ok_def)
  ultimately show ?thesis
    using assms(2) by (simp add: tags_deserialize_def entries_carried)
qed

end

text \<open>A format that describes itself lends what it was given, or gives away copies, whatever it is asked for.\<close>

definition lent_format :: format where
  "lent_format r c = Inr c"

fun owned_format :: format where
  "owned_format _ (CStr s) = Inr (CString s)"
| "owned_format _ (CBytes s) = Inr (CByteBuf s)"
| "owned_format _ (CSeq n cs) = Inr (CSeq None cs)"
| "owned_format _ (CMap n es) = Inr (CMap None es)"
| "owned_format _ c = Inr c"

text \<open>A binary format that stores strings and byte strings in the same way, and takes the data for what it is asked for.\<close>

fun binary_format :: format where
  "binary_format AskString (CBytes s) =
     (if utf8_valid s then Inr (CString s) else Inl (InvalidValue (CBytes s) ''a UTF-8 string''))"
| "binary_format _ (CStr s) = Inr (CString s)"
| "binary_format _ c = Inr c"

text \<open>JSON has no byte strings: its serializer writes them as sequences of numbers, and a sequence is refused when a string is
  asked for.\<close>

fun json_format :: format where
  "json_format AskString (CBytes s) =
     Inl (InvalidType (CSeq None (map (\<lambda>b. CInt (int (code b))) s)) bytes_expecting)"
| "json_format _ (CStr s) = Inr (CStr s)"
| "json_format _ (CSeq n cs) = Inr (CSeq None cs)"
| "json_format _ (CMap n es) = Inr (CMap None es)"
| "json_format _ c = Inr c"

interpretation lent: data_format lent_format
  by unfold_locales (auto simp: lent_format_def)

interpretation owned: data_format owned_format
  by unfold_locales simp_all

interpretation binary: data_format binary_format
  by unfold_locales simp_all

interpretation json: data_format json_format
  by unfold_locales simp_all

lemma readable_formats:
  "readable lent_format v" "readable owned_format v" "readable binary_format v = utf8_valid v" "readable json_format v = utf8_valid v"
  by (auto simp: readable_def keeps_bytes_def lent_format_def)

text \<open>A byte string is serialised as bytes and asked for as a string: what is not UTF-8 is written to such a format and never
  read back.\<close>

lemma formats_lose_bytes:
  assumes "bytes_ok b" and "\<not> utf8_valid (b_value b)"
  shows "\<exists>e. bytes_deserialize json_format (bytes_serialize b) = Inl e"
    and "\<exists>e. bytes_deserialize binary_format (bytes_serialize b) = Inl e"
  using assms by (simp_all add: bytes_serialize_eq bytes_deserialize_def)

text \<open>The length a sequence is announced with is the number of its elements.\<close>

lemma args_hint: "\<exists>cs. args_serialize a = CSeq (Some (length cs)) cs"
  by (simp add: args_serialize_def args_len_def split: option.split)

text \<open>Deserialising a secret is loading it, with the errors as texts.\<close>

lemma secret_deserialize_load:
  "de c = Some (Inr l) \<Longrightarrow>
   map_option (map_sum id b_value) (secret_deserialize alloc T de hint load c) =
   map_option (map_sum (\<lambda>e. Custom (load_error_display e)) id) (secret_load alloc T (hint l) (load l))"
  by (auto simp: secret_deserialize_def secret_load_def nt_from_bytes_def from_bytes_def Let_def
      split: bind_splits sum.splits option.splits prod.splits)

lemma secret_unit_fails:
  "sb_with_capacity alloc load_hint_unit \<noteq> None \<Longrightarrow>
   secret_deserialize alloc T (\<lambda>c. Some (Inr ())) (\<lambda>_. load_hint_unit) (\<lambda>_. load_unit) c = Some (Inl (Custom ''no secret loader''))"
  by (auto simp: secret_deserialize_def load_unit_def)

text \<open>No secret that is not empty can be read as a \<open>Clear\<close>: its buffer is made in the way that overflows.\<close>

lemma clear_overflows:
  "string_deserialize ask c = Inr s \<Longrightarrow> decode s = Inr data \<Longrightarrow> data \<noteq> [] \<Longrightarrow> clear_deserialize decode text cap ask c = None"
  by (simp add: clear_deserialize_def from_vec_overflows)

section \<open>Properties\<close>

text \<open>C38: what is serialised is read back.  A string of a newtype, an argument list and tags, written to a data format that
  delivers strings, sequences and maps when it is asked for them, come back as they were, if each of their strings is
  UTF-8 or the format delivers a byte string also when it is asked for a string, as formats do that describe
  themselves.  (Other formats lose strings that are not UTF-8, because a string is always asked for: see
  \<open>formats_lose_bytes\<close>.)  And whatever any format delivers, what is accepted satisfies the invariants of its
  type.\<close>

theorem serde_roundtrip:
  assumes "data_format ask" and "valid T v" and "args_ok a" and "tags_ok t"
    and "\<forall>s \<in> {v} \<union> set (words a) \<union> set_option (long a) \<union> fst ` set t \<union> snd ` set t.
      utf8_valid s \<or> ask AskString (CBytes s) \<in> {Inr (CBytes s), Inr (CByteBuf s)}"
  shows "(\<exists>x. nt_deserialize ask T (nt_serialize (bytes_from_bytes v)) = Inr x \<and> b_value x = v) \<and>
    args_deserialize ask (args_serialize a) = Inr a \<and> tags_deserialize ask (tags_serialize t) = Inr t \<and>
    (\<forall>any c x. nt_deserialize any T c = Inr x \<longrightarrow> valid T (b_value x)) \<and>
    (\<forall>any c a. args_deserialize any c = Inr a \<longrightarrow> args_ok a) \<and> (\<forall>any c t. tags_deserialize any c = Inr t \<longrightarrow> tags_ok t)"
proof -
  have "readable ask v" "\<forall>w \<in> set (words a) \<union> set_option (long a). readable ask w"
    "\<forall>(k, x) \<in> set t. readable ask k \<and> readable ask x"
    using assms(5) by (force simp: readable_def keeps_bytes_def)+
  then show ?thesis
    using data_format.nt_carried [OF assms(1,2)] data_format.args_carried [OF assms(1,3)]
      data_format.tags_carried [OF assms(1,4)] nt_deserialize_valid args_deserialize_ok tags_deserialize_ok by blast
qed

theorem serde_roundtrip_witness:
  "args_deserialize binary_format (args_serialize \<lparr>words = [''#a''], long = Some ''hi all''\<rparr>) =
     Inr \<lparr>words = [''#a''], long = Some ''hi all''\<rparr> \<and>
   tags_deserialize owned_format (tags_serialize [(''id'', [CHR 0xFF])]) = Inr [(''id'', [CHR 0xFF])]"
proof -
  have v: "valid Nick ''me''" "valid Arg ''#a''" "valid Line ''hi all''" "\<not> valid Arg ''hi all''" "valid Key ''id''" "valid NoNul [CHR 0xFF]"
    "utf8_valid ''me''" "utf8_valid ''#a''" "utf8_valid ''hi all''"
    by code_simp+
  have "args_deserialize binary_format (args_serialize \<lparr>words = [''#a''], long = Some ''hi all''\<rparr>) =
      Inr \<lparr>words = [''#a''], long = Some ''hi all''\<rparr>"
    using v serde_roundtrip [OF binary.data_format_axioms, of Nick "''me''" "\<lparr>words = [''#a''], long = Some ''hi all''\<rparr>" "[]"]
    by (simp add: args_ok_def tags_ok_def fm_ok_def)
  moreover have "tags_deserialize owned_format (tags_serialize [(''id'', [CHR 0xFF])]) = Inr [(''id'', [CHR 0xFF])]"
    using v serde_roundtrip [OF owned.data_format_axioms, of Nick "''me''" "\<lparr>words = [], long = None\<rparr>" "[(''id'', [CHR 0xFF])]"]
    by (simp add: args_ok_def tags_ok_def fm_ok_def)
  ultimately show ?thesis ..
qed

end
