(* ===== verification/Nicks.thy ===== *)
theory Nicks
  imports ClientHandlers
begin

text \<open>
  Nickname generators: \<open>client/nick.rs\<close> and \<open>client/nick/suffix.rs\<close>.  Boxed generators are a datatype
  over the implementations of the crate; the iterator of \<open>FromIter\<close> is the list of its remaining items
  with whether its size hint has an upper bound.
\<close>

unbundle bit_operations_syntax

section \<open>Suffixes (\<open>client/nick/suffix.rs\<close>)\<close>

datatype suffix_type =
  Letter bool | Base8 | Base10 | Base16 bool | NonZeroBase8 | NonZeroBase10 | NonZeroBase16 bool
| Choice "bytes list" | SChar nat

abbreviation push_byte :: "nat \<Rightarrow> builder \<Rightarrow> builder" where
  "push_byte b nick \<equiv> snd (try_push Nick (char_of b) nick)"

fun suffix_append :: "suffix_type \<Rightarrow> nat \<Rightarrow> builder \<Rightarrow> builder" where
  "suffix_append (Letter uc) num nick = push_byte ((if uc then 65 else 97) + num mod 26) nick"
| "suffix_append Base8 num nick = push_byte (48 + (num AND 7)) nick"
| "suffix_append Base10 num nick = push_byte (48 + num mod 10) nick"
| "suffix_append (Base16 uc) num nick =
     (let num = num AND 15 in
      push_byte (if uc \<and> 9 < num then 65 + num else if \<not> uc \<and> 9 < num then 97 + num else 48 + num) nick)"
| "suffix_append NonZeroBase8 num nick = push_byte (49 + num mod 7) nick"
| "suffix_append NonZeroBase10 num nick = push_byte (49 + num mod 9) nick"
| "suffix_append (NonZeroBase16 uc) num nick =
     (let num = num mod 15 in
      push_byte (if uc \<and> 8 < num then 65 + num else if \<not> uc \<and> 8 < num then 97 + num else 49 + num) nick)"
| "suffix_append (Choice opts) num nick =
     (if opts \<noteq> [] then bld_append (bytes_from_bytes (opts ! (num mod length opts))) nick else nick)"
| "suffix_append (SChar c) num nick = snd (try_push_char Nick c nick)"

fun variance :: "suffix_type \<Rightarrow> nat" where
  "variance (Letter _) = 26"
| "variance Base8 = 8"
| "variance Base10 = 10"
| "variance (Base16 _) = 16"
| "variance NonZeroBase8 = 7"
| "variance NonZeroBase10 = 9"
| "variance (NonZeroBase16 _) = 15"
| "variance (Choice c) = min 255 (length c)"
| "variance (SChar _) = 1"

datatype suffix_strategy = Rng "32 word option" | Seq

record suffix =
  strategy :: suffix_strategy
  suffixes :: "suffix_type list"

definition suffix_default :: suffix where
  "suffix_default = \<lparr>strategy = Rng None, suffixes = []\<rparr>"

record suffix_gen =
  sg_cfg :: suffix
  sg_prefix :: bytes
  sg_state :: "32 word"
  sg_limit :: nat

definition u8_sat :: "nat \<Rightarrow> nat \<Rightarrow> nat" where
  "u8_sat a b = min 255 (a + b)"

text \<open>\<open>now\<close> is the time since the epoch as milliseconds and nanoseconds, each cut to 32 bits.\<close>

definition suffix_transform ::
  "(bytes \<Rightarrow> 64 word) \<Rightarrow> (32 word \<times> 32 word) option \<Rightarrow> suffix \<Rightarrow> bytes \<Rightarrow> suffix_gen" where
  "suffix_transform siphash now cfg prefix =
     (if suffixes cfg = [] then \<lparr>sg_cfg = suffix_default, sg_prefix = prefix, sg_state = 0, sg_limit = 1\<rparr>
      else
        (let (seed, limit) =
           (case strategy cfg of
              Rng seed \<Rightarrow>
                (let limit = foldl (\<lambda>count x. u8_sat count (variance x div 2)) 1 (suffixes cfg) in
                 case seed of
                   Some seed \<Rightarrow> (seed, limit)
                 | None \<Rightarrow>
                     (let seed = mangle siphash prefix in
                      (case now of Some (millis, nanos) \<Rightarrow> (seed XOR millis) XOR nanos | None \<Rightarrow> seed, limit)))
            | Seq \<Rightarrow> (0, foldl (\<lambda>count x. u8_sat count (variance x)) 0 (suffixes cfg)))
         in \<lparr>sg_cfg = cfg, sg_prefix = prefix, sg_state = seed, sg_limit = limit\<rparr>))"

fun rng_loop :: "suffix_type list \<Rightarrow> bool \<Rightarrow> 32 word \<Rightarrow> builder \<Rightarrow> builder \<times> 32 word" where
  "rng_loop [] cycle state nick = (nick, state)"
| "rng_loop (x # xs) cycle state nick =
     (if cycle then
        (let state = state * 1664525 + 1013904223
         in rng_loop xs False state (suffix_append x (unat (ucast (drop_bit 16 state) :: 8 word)) nick))
      else rng_loop xs True state (suffix_append x (unat (ucast (drop_bit 24 state) :: 8 word)) nick))"

fun seq_loop :: "suffix_type list \<Rightarrow> nat \<Rightarrow> builder \<Rightarrow> builder" where
  "seq_loop [] cnt nick = nick"
| "seq_loop (x # xs) cnt nick =
     (let v = variance x in
      if v = 0 then seq_loop xs cnt nick
      else
        (let cnt = cnt - 1; nick = suffix_append x (cnt mod 256 mod v) nick; cnt = cnt div v in
         if cnt = 0 then nick else seq_loop xs cnt nick))"

definition calc_next :: "suffix_gen \<Rightarrow> bytes \<times> 32 word" where
  "calc_next g =
     (let nick = builder_new (bytes_from_bytes (sg_prefix g)) in
      case strategy (sg_cfg g) of
        Rng _ \<Rightarrow>
          (let (nick, state) = rng_loop (suffixes (sg_cfg g)) True (sg_state g) nick in (b_value (build nick), state))
      | Seq \<Rightarrow>
          (let state = sg_state g + 1
           in (b_value (build (seq_loop (suffixes (sg_cfg g)) (unat state) nick)), state)))"

text \<open>\<open>None\<close> is the underflow of the counter.\<close>

definition suffix_next :: "suffix_gen \<Rightarrow> (bytes \<times> suffix_gen option) option" where
  "suffix_next g =
     (let (nick, state) = calc_next g in
      if sg_limit g = 0 then None
      else
        (let g' = g\<lparr>sg_state := state, sg_limit := sg_limit g - 1\<rparr>
         in Some (nick, if sg_limit g' \<noteq> 0 then Some g' else None)))"

definition suffix_peek :: "suffix_gen \<Rightarrow> bytes" where
  "suffix_peek g = fst (calc_next g)"

definition suffix_handle_invalid :: "suffix_gen \<Rightarrow> bytes \<Rightarrow> suffix_gen option" where
  "suffix_handle_invalid g nick =
     (if take (length (sg_prefix g)) nick = sg_prefix g then None else Some g)"

section \<open>Generators (\<open>client/nick.rs\<close>)\<close>

datatype nick_gen =
  GNick bytes
| GFromIter bytes "bytes list" bool
| GChain "nick_gen option" "nick_gen option"
| GSuffix suffix_gen

definition gen_from_iter :: "bytes list \<Rightarrow> bool \<Rightarrow> nick_gen option" where
  "gen_from_iter it bounded = (case it of [] \<Rightarrow> None | nick # it' \<Rightarrow> Some (GFromIter nick it' bounded))"

definition gen_from_iter_or :: "bytes \<Rightarrow> bytes list \<Rightarrow> bool \<Rightarrow> nick_gen" where
  "gen_from_iter_or dflt it bounded =
     (case it of [] \<Rightarrow> GFromIter dflt [] bounded | nick # it' \<Rightarrow> GFromIter nick it' bounded)"

text \<open>A nickname as a generator, and an iterator as one.\<close>

definition lit_next :: "bytes \<Rightarrow> bytes \<times> nick_gen option" where
  [simp]: "lit_next n = (n, None)"

definition lit_peek :: "bytes \<Rightarrow> bytes" where
  [simp]: "lit_peek n = n"

definition lit_handle_invalid :: "bytes \<Rightarrow> bytes \<Rightarrow> nick_gen option" where
  [simp]: "lit_handle_invalid nick n = (if nick = n then Some (GNick n) else None)"

definition from_iter_next :: "bytes \<Rightarrow> bytes list \<Rightarrow> bool \<Rightarrow> bytes \<times> nick_gen option" where
  [simp]: "from_iter_next n it b = (case it of m # it' \<Rightarrow> (n, Some (GFromIter m it' b)) | [] \<Rightarrow> (n, None))"

definition from_iter_peek :: "bytes \<Rightarrow> bytes" where
  [simp]: "from_iter_peek n = n"

definition from_iter_handle_invalid :: "bytes \<Rightarrow> bytes list \<Rightarrow> bool \<Rightarrow> nick_gen option" where
  [simp]: "from_iter_handle_invalid n it bounded = (if bounded then Some (GFromIter n it bounded) else None)"

text \<open>\<open>None\<close> is a panic: the underflow above, or the unwrap of a chain without its second part.\<close>

fun next_nick :: "nick_gen \<Rightarrow> (bytes \<times> nick_gen option) option" where
  "next_nick (GNick n) = Some (lit_next n)"
| "next_nick (GFromIter n it b) = Some (from_iter_next n it b)"
| "next_nick (GChain (Some a) b) =
     map_option (\<lambda>(nick, a'). (nick, Some (GChain a' b))) (next_nick a)"
| "next_nick (GChain None (Some b)) = next_nick b"
| "next_nick (GChain None None) = None"
| "next_nick (GSuffix g) = map_option (\<lambda>(nick, g'). (nick, map_option GSuffix g')) (suffix_next g)"

fun gen_peek :: "nick_gen \<Rightarrow> bytes option" where
  "gen_peek (GNick n) = Some (lit_peek n)"
| "gen_peek (GFromIter n it b) = Some (from_iter_peek n)"
| "gen_peek (GChain a (Some b)) = (case a of Some a \<Rightarrow> gen_peek a | None \<Rightarrow> gen_peek b)"
| "gen_peek (GChain a None) = None"
| "gen_peek (GSuffix g) = Some (suffix_peek g)"

text \<open>A chain always has its second part (\<open>gen_ok\<close> below); the unwraps that rely on it are not repeated
  here.\<close>

fun handle_invalid :: "bytes \<Rightarrow> nick_gen \<Rightarrow> nick_gen option" where
  "handle_invalid nick (GNick n) = lit_handle_invalid nick n"
| "handle_invalid nick (GFromIter n it bounded) = from_iter_handle_invalid n it bounded"
| "handle_invalid nick (GChain a b) =
     (case Option.bind a (handle_invalid nick) of
        None \<Rightarrow> Option.bind b (handle_invalid nick)
      | Some a' \<Rightarrow>
          (case Option.bind b (handle_invalid nick) of
             None \<Rightarrow> Some a'
           | Some b' \<Rightarrow> Some (GChain (Some a') (Some b'))))"
| "handle_invalid nick (GSuffix g) = map_option GSuffix (suffix_handle_invalid g nick)"

text \<open>A nickname that the server refuses is kept exactly if it is the one that was refused.\<close>

lemma refused_nick_kept: "handle_invalid nick (GNick n) = (if nick = n then Some (GNick n) else None)"
  by simp

definition gen_chain :: "nick_gen \<Rightarrow> nick_gen \<Rightarrow> nick_gen" where
  "gen_chain a b = GChain (Some a) (Some b)"

text \<open>\<open>nt\<close> is a \<open>NickTransformer\<close>; \<open>None\<close> is the panic of \<open>peek\<close>.\<close>

definition chain_using :: "(bytes \<Rightarrow> nick_gen) \<Rightarrow> nick_gen \<Rightarrow> nick_gen option" where
  "chain_using nt a = map_option (\<lambda>n. gen_chain a (nt n)) (gen_peek a)"

section \<open>What a generator yields\<close>

fun suffix_all :: "nat \<Rightarrow> suffix_gen \<Rightarrow> bytes list" where
  "suffix_all 0 g = []"
| "suffix_all (Suc n) g = fst (calc_next g) # suffix_all n (g\<lparr>sg_state := snd (calc_next g), sg_limit := n\<rparr>)"

fun gen_all :: "nick_gen \<Rightarrow> bytes list" where
  "gen_all (GNick n) = [n]"
| "gen_all (GFromIter n it b) = n # it"
| "gen_all (GChain a b) =
     (case a of Some a \<Rightarrow> gen_all a | None \<Rightarrow> []) @ (case b of Some b \<Rightarrow> gen_all b | None \<Rightarrow> [])"
| "gen_all (GSuffix g) = suffix_all (sg_limit g) g"

fun gen_ok :: "nick_gen \<Rightarrow> bool" where
  "gen_ok (GNick n) = True"
| "gen_ok (GFromIter n it b) = True"
| "gen_ok (GChain a b) = ((case a of Some a \<Rightarrow> gen_ok a | None \<Rightarrow> True) \<and> (case b of Some b \<Rightarrow> gen_ok b | None \<Rightarrow> False))"
| "gen_ok (GSuffix g) = (0 < sg_limit g)"

text \<open>Asking a generator for nicknames until it has no continuation.\<close>

fun drain :: "nat \<Rightarrow> nick_gen \<Rightarrow> bytes list option" where
  "drain 0 g = None"
| "drain (Suc n) g =
     (case next_nick g of
        None \<Rightarrow> None
      | Some (nick, None) \<Rightarrow> Some [nick]
      | Some (nick, Some g') \<Rightarrow> map_option (Cons nick) (drain n g'))"

lemma next_nick_spec:
  "gen_ok g \<Longrightarrow> \<exists>nick g'. next_nick g = Some (nick, g') \<and>
     gen_all g = nick # (case g' of Some g' \<Rightarrow> gen_all g' | None \<Rightarrow> []) \<and> (\<forall>g2. g' = Some g2 \<longrightarrow> gen_ok g2)"
proof (induction g rule: next_nick.induct)
  case (3 a b)
  then obtain nick a' where "next_nick a = Some (nick, a')"
    "gen_all a = nick # (case a' of Some g' \<Rightarrow> gen_all g' | None \<Rightarrow> [])" "\<forall>g2. a' = Some g2 \<longrightarrow> gen_ok g2"
    by auto
  with 3(2) show ?case
    by (intro exI [of _ nick] exI [of _ "Some (GChain a' b)"]) (auto split: option.splits)
next
  case (6 g)
  then obtain n where n: "sg_limit g = Suc n" by (cases "sg_limit g") auto
  then show ?case by (cases n) (auto simp: suffix_next_def split_def Let_def)
qed (auto split: option.splits list.splits)

lemma gen_all_nonempty: "gen_ok g \<Longrightarrow> gen_all g \<noteq> []"
  using next_nick_spec [of g] by auto

lemma drain_gen_all: "gen_ok g \<Longrightarrow> length (gen_all g) \<le> n \<Longrightarrow> drain n g = Some (gen_all g)"
proof (induction n arbitrary: g)
  case 0
  then show ?case using gen_all_nonempty [of g] by simp
next
  case (Suc n)
  obtain nick g' where g': "next_nick g = Some (nick, g')"
    "gen_all g = nick # (case g' of Some g' \<Rightarrow> gen_all g' | None \<Rightarrow> [])" "\<forall>g2. g' = Some g2 \<longrightarrow> gen_ok g2"
    using next_nick_spec [OF Suc.prems(1)] by blast
  then show ?case using Suc by (cases g') auto
qed

lemma gen_peek_hd: "gen_ok g \<Longrightarrow> gen_peek g = Some (hd (gen_all g))"
proof (induction g rule: gen_peek.induct)
  case (5 g)
  then show ?case by (cases "sg_limit g") (auto simp: suffix_peek_def)
qed (auto split: option.splits simp: gen_all_nonempty)

section \<open>Generated nicknames are nicknames\<close>

definition suffix_ok :: "suffix_type \<Rightarrow> bool" where
  "suffix_ok x \<longleftrightarrow> (case x of Choice opts \<Rightarrow> \<forall>n \<in> set opts. valid Nick n | SChar c \<Rightarrow> scalar c | _ \<Rightarrow> True)"

lemma suffix_append_ok:
  assumes "suffix_ok x" and "builder_ok Nick bl"
  shows "builder_ok Nick (suffix_append x n bl)" and "\<exists>t. bld_bytes (suffix_append x n bl) = bld_bytes bl @ t"
proof -
  show "builder_ok Nick (suffix_append x n bl)"
    using assms by (cases x) (auto simp: suffix_ok_def try_push_char_def bytes_from_bytes_def Let_def
        intro!: try_push_ok try_append_str_ok utf8_valid_encode bld_append_ok bytes_ok_new [unfolded bytes_from_bytes_def])
  show "\<exists>t. bld_bytes (suffix_append x n bl) = bld_bytes bl @ t"
    by (cases x) (auto simp: try_push_def try_push_char_def try_append_str_def bld_append_def append_unchecked_def Let_def
        split: option.splits)
qed

lemma bld_bytes_prefix_trans: "b = a @ t \<Longrightarrow> \<exists>t. c = b @ t \<Longrightarrow> \<exists>t. c = a @ t"
  by auto

lemma rng_loop_ok:
  "\<forall>x \<in> set xs. suffix_ok x \<Longrightarrow> builder_ok Nick bl \<Longrightarrow>
   builder_ok Nick (fst (rng_loop xs cyc st bl)) \<and> (\<exists>t. bld_bytes (fst (rng_loop xs cyc st bl)) = bld_bytes bl @ t)"
proof (induction xs arbitrary: cyc st bl)
  case (Cons x xs)
  have s: "builder_ok Nick (suffix_append x n bl)" "\<exists>t. bld_bytes (suffix_append x n bl) = bld_bytes bl @ t" for n
    using suffix_append_ok [of x bl n] Cons.prems by auto
  have IH: "builder_ok Nick (fst (rng_loop xs cyc' st' (suffix_append x n bl)))"
    "\<exists>t. bld_bytes (fst (rng_loop xs cyc' st' (suffix_append x n bl))) = bld_bytes bl @ t" for cyc' st' n
  proof -
    have i: "builder_ok Nick (fst (rng_loop xs cyc' st' (suffix_append x n bl)))"
      "\<exists>t. bld_bytes (fst (rng_loop xs cyc' st' (suffix_append x n bl))) = bld_bytes (suffix_append x n bl) @ t"
      using Cons.IH [OF _ s(1)] Cons.prems(1) by simp_all
    show "builder_ok Nick (fst (rng_loop xs cyc' st' (suffix_append x n bl)))" by (rule i)
    obtain t where "bld_bytes (suffix_append x n bl) = bld_bytes bl @ t" using s(2) by blast
    from bld_bytes_prefix_trans [OF this i(2)]
    show "\<exists>t. bld_bytes (fst (rng_loop xs cyc' st' (suffix_append x n bl))) = bld_bytes bl @ t" .
  qed
  show ?case using IH by (cases cyc) (simp_all add: Let_def)
qed simp

lemma seq_loop_ok:
  "\<forall>x \<in> set xs. suffix_ok x \<Longrightarrow> builder_ok Nick bl \<Longrightarrow>
   builder_ok Nick (seq_loop xs c bl) \<and> (\<exists>t. bld_bytes (seq_loop xs c bl) = bld_bytes bl @ t)"
proof (induction xs arbitrary: c bl)
  case (Cons x xs)
  have s: "builder_ok Nick (suffix_append x n bl)" "\<exists>t. bld_bytes (suffix_append x n bl) = bld_bytes bl @ t" for n
    using suffix_append_ok [of x bl n] Cons.prems by auto
  show ?case
  proof (cases "variance x = 0")
    case True
    with Cons show ?thesis by simp
  next
    case False
    let ?n = "(c - 1) mod 256 mod variance x" and ?c = "(c - 1) div variance x"
    have i: "builder_ok Nick (seq_loop xs ?c (suffix_append x ?n bl))"
      "\<exists>t. bld_bytes (seq_loop xs ?c (suffix_append x ?n bl)) = bld_bytes (suffix_append x ?n bl) @ t"
      using Cons.IH [OF _ s(1)] Cons.prems(1) by simp_all
    obtain t where "bld_bytes (suffix_append x ?n bl) = bld_bytes bl @ t" using s(2) by blast
    from bld_bytes_prefix_trans [OF this i(2)] i(1) s False show ?thesis by (simp add: Let_def)
  qed
qed simp

definition sgen_ok :: "suffix_gen \<Rightarrow> bool" where
  "sgen_ok g \<longleftrightarrow> valid Nick (sg_prefix g) \<and> (\<forall>x \<in> set (suffixes (sg_cfg g)). suffix_ok x)"

lemma calc_next_ok:
  assumes "sgen_ok g"
  shows "valid Nick (fst (calc_next g))" and "take (length (sg_prefix g)) (fst (calc_next g)) = sg_prefix g"
proof -
  have b: "builder_ok Nick (builder_new (bytes_from_bytes (sg_prefix g)))" (is "builder_ok Nick ?b")
    using assms by (intro builder_new_ok bytes_ok_new) (simp add: sgen_ok_def bytes_from_bytes_def)
  have p: "bld_bytes ?b = sg_prefix g" by (simp add: builder_new_def bytes_from_bytes_def)
  note r = rng_loop_ok [OF _ b, of "suffixes (sg_cfg g)" True "sg_state g"]
  note q = seq_loop_ok [OF _ b, of "suffixes (sg_cfg g)" "unat (sg_state g + 1)"]
  show "valid Nick (fst (calc_next g))" using r q assms
    by (auto simp: calc_next_def sgen_ok_def split_def Let_def build_value builder_ok_def split: suffix_strategy.splits)
  show "take (length (sg_prefix g)) (fst (calc_next g)) = sg_prefix g" using r q assms p
    by (auto simp: calc_next_def sgen_ok_def split_def Let_def build_value split: suffix_strategy.splits)
qed

lemma suffix_all_ok:
  "sgen_ok g \<Longrightarrow> n \<in> set (suffix_all k g) \<Longrightarrow> valid Nick n \<and> take (length (sg_prefix g)) n = sg_prefix g"
proof (induction k arbitrary: g)
  case (Suc k)
  let ?g = "g\<lparr>sg_state := snd (calc_next g), sg_limit := k\<rparr>"
  have "sgen_ok ?g" "sg_prefix ?g = sg_prefix g" using Suc.prems(1) by (simp_all add: sgen_ok_def)
  with Suc.prems calc_next_ok [OF Suc.prems(1)] Suc.IH [of ?g] show ?case by auto
qed simp

fun nicks_ok :: "nick_gen \<Rightarrow> bool" where
  "nicks_ok (GNick n) = valid Nick n"
| "nicks_ok (GFromIter n it b) = (valid Nick n \<and> (\<forall>m \<in> set it. valid Nick m))"
| "nicks_ok (GChain a b) = ((case a of Some a \<Rightarrow> nicks_ok a | None \<Rightarrow> True) \<and> (case b of Some b \<Rightarrow> nicks_ok b | None \<Rightarrow> True))"
| "nicks_ok (GSuffix g) = sgen_ok g"

lemma gen_all_valid: "nicks_ok g \<Longrightarrow> n \<in> set (gen_all g) \<Longrightarrow> valid Nick n"
  by (induction g rule: nicks_ok.induct) (auto split: option.splits dest: suffix_all_ok)

section \<open>Sequential suffixes are distinct\<close>

text \<open>A suffix of one byte, and the byte it appends.\<close>

fun suffix_byte :: "suffix_type \<Rightarrow> nat \<Rightarrow> nat" where
  "suffix_byte (Letter uc) d = (if uc then 65 else 97) + d"
| "suffix_byte Base8 d = 48 + d"
| "suffix_byte Base10 d = 48 + d"
| "suffix_byte (Base16 uc) d = (if d \<le> 9 then 48 else if uc then 65 else 97) + d"
| "suffix_byte NonZeroBase8 d = 49 + d"
| "suffix_byte NonZeroBase10 d = 49 + d"
| "suffix_byte (NonZeroBase16 uc) d = (if d \<le> 8 then 49 else if uc then 65 else 97) + d"
| "suffix_byte (SChar c) d = c"
| "suffix_byte (Choice _) d = 0"

definition single :: "suffix_type \<Rightarrow> bool" where
  "single x \<longleftrightarrow> (case x of Choice _ \<Rightarrow> False | SChar c \<Rightarrow> c < 128 \<and> \<not> is_invalid Nick (char_of c) | _ \<Rightarrow> True)"

lemma nick_byte_ok: "48 \<le> n \<Longrightarrow> n < 128 \<Longrightarrow> n \<noteq> 64 \<Longrightarrow> \<not> is_invalid_for_nick True (char_of (n::nat))"
proof -
  assume n: "48 \<le> n" "n < 128" "n \<noteq> 64"
  define c :: char where "c = char_of n"
  have "code c = n" using n by (simp add: c_def code_char_of_mod)
  with n have "\<not> is_invalid Nick c" by (auto simp: invalid_defs)
  then show ?thesis by (simp add: c_def)
qed

lemma and_mask_nat: "(d::nat) AND 7 = d mod 8" "(d::nat) AND 15 = d mod 16"
  using take_bit_eq_mask [of 3 d] take_bit_eq_mask [of 4 d] by (simp_all add: mask_eq_exp_minus_1 take_bit_eq_mod)

lemma single_append:
  assumes "single x" and "d < variance x"
  shows "bld_bytes (suffix_append x d bl) = bld_bytes bl @ [char_of (suffix_byte x d)]"
proof (cases x)
  case (SChar c)
  then show ?thesis using assms
    by (simp add: single_def try_push_char_def try_append_str_def encode_utf8_def check_bytes_None [THEN iffD2])
next
  case (Choice opts)
  then show ?thesis using assms by (simp add: single_def)
qed (use assms in \<open>auto simp: try_push_def and_mask_nat nick_byte_ok Let_def\<close>)

lemma single_inj:
  assumes "single x" and "d < variance x" and "e < variance x" and "char_of (suffix_byte x d) = (char_of (suffix_byte x e) :: char)"
  shows "d = e"
proof -
  have "suffix_byte x d < 128" "suffix_byte x e < 128" using assms(1-3) by (cases x; auto simp: single_def)+
  then have "suffix_byte x d = suffix_byte x e" using arg_cong [OF assms(4), of code] by (simp add: code_char_of_mod)
  then show ?thesis using assms(1-3) by (cases x) (auto simp: single_def split: if_splits)
qed

lemma single_variance: "single x \<Longrightarrow> 0 < variance x \<and> variance x \<le> 26"
  by (cases x) (auto simp: single_def)

fun seq_text :: "suffix_type list \<Rightarrow> nat \<Rightarrow> bytes" where
  "seq_text [] c = []"
| "seq_text (x # xs) c =
     char_of (suffix_byte x ((c - 1) mod variance x)) #
       (if (c - 1) div variance x = 0 then [] else seq_text xs ((c - 1) div variance x))"

lemma seq_loop_text:
  "\<forall>x \<in> set xs. single x \<Longrightarrow> c \<le> 256 \<Longrightarrow> bld_bytes (seq_loop xs c bl) = bld_bytes bl @ seq_text xs c"
proof (induction xs arbitrary: c bl)
  case (Cons x xs)
  then have v: "0 < variance x" and x: "single x" using single_variance by auto
  let ?d = "(c - 1) mod variance x" and ?c = "(c - 1) div variance x"
  show ?case
  proof (cases "c = 0")
    case True
    with v x single_append [OF x, of 0 bl] show ?thesis by simp
  next
    case False
    then have m: "(c - 1) mod 256 = c - 1" and c: "?c \<le> 256" using Cons.prems(2) by (auto intro: div_le_dividend [THEN le_trans])
    have "bld_bytes (suffix_append x ?d bl) = bld_bytes bl @ [char_of (suffix_byte x ?d)]"
      using single_append [OF x] v by simp
    moreover have "bld_bytes (seq_loop xs ?c (suffix_append x ?d bl)) = bld_bytes (suffix_append x ?d bl) @ seq_text xs ?c"
      using Cons c by simp
    ultimately show ?thesis using v m by (simp add: Let_def)
  qed
qed simp

text \<open>The number of texts of a list of suffixes.\<close>

fun seq_total :: "suffix_type list \<Rightarrow> nat" where
  "seq_total [] = 0"
| "seq_total (x # xs) = variance x + variance x * seq_total xs"

lemma seq_text_inj:
  "\<forall>x \<in> set xs. single x \<Longrightarrow> 1 \<le> c \<Longrightarrow> c \<le> seq_total xs \<Longrightarrow> 1 \<le> d \<Longrightarrow> d \<le> seq_total xs \<Longrightarrow>
   seq_text xs c = seq_text xs d \<Longrightarrow> c = d"
proof (induction xs arbitrary: c d)
  case (Cons x xs)
  let ?v = "variance x"
  have v: "0 < ?v" and x: "single x" using Cons.prems(1) single_variance by auto
  have le: "(k - 1) div ?v \<le> seq_total xs" if "1 \<le> k" "k \<le> seq_total (x # xs)" for k
  proof -
    have "k - 1 < ?v * Suc (seq_total xs)" using that by simp
    then show ?thesis by (simp add: div_less_iff_less_mult v less_Suc_eq_le [symmetric] mult.commute)
  qed
  have "char_of (suffix_byte x ((c - 1) mod ?v)) = (char_of (suffix_byte x ((d - 1) mod ?v)) :: char)" using Cons.prems(6) by simp
  then have m: "(c - 1) mod ?v = (d - 1) mod ?v" using single_inj [OF x] v by simp
  let ?c = "(c - 1) div ?v" and ?d = "(d - 1) div ?v"
  have t: "seq_text xs k \<noteq> []" if "0 < k" "k \<le> seq_total xs" for k using that by (cases xs) auto
  have "?c = ?d"
  proof (cases "?c = 0 \<or> ?d = 0")
    case True
    then show ?thesis using Cons.prems(6) t [of ?c] t [of ?d] le [of c] le [of d] Cons.prems(2-5)
      by (auto split: if_splits)
  next
    case False
    then show ?thesis using Cons.IH [of ?c ?d] Cons.prems le by (simp add: Suc_le_eq)
  qed
  with m have "c - 1 = d - 1" by (metis div_mult_mod_eq)
  with Cons.prems(2,4) show ?case by simp
qed simp

lemma seq_limit_total:
  assumes "\<forall>x \<in> set xs. single x"
  shows "foldl (\<lambda>n x. u8_sat n (variance x)) 0 xs \<le> seq_total xs"
proof -
  have "foldl (\<lambda>n x. u8_sat n (variance x)) a xs \<le> a + sum_list (map variance xs)" for a
  proof (induction xs arbitrary: a)
    case (Cons x xs)
    have "u8_sat a (variance x) \<le> a + variance x" by (simp add: u8_sat_def)
    with Cons [of "u8_sat a (variance x)"] show ?case by simp
  qed simp
  moreover have "sum_list (map variance xs) \<le> seq_total xs" using assms
  proof (induction xs)
    case (Cons x xs)
    then have "1 * seq_total xs \<le> variance x * seq_total xs" using single_variance [of x] by (intro mult_le_mono) auto
    then have a: "seq_total xs \<le> variance x * seq_total xs" by simp
    have "sum_list (map variance xs) \<le> seq_total xs" using Cons by simp
    from le_trans [OF this a] show ?case by simp
  qed simp
  ultimately show ?thesis using le_trans [of _ "0 + sum_list (map variance xs)"] by fastforce
qed

lemma seq_limit_255: "a \<le> 255 \<Longrightarrow> foldl (\<lambda>n x. u8_sat n (variance x)) a xs \<le> 255"
  by (induction xs arbitrary: a) (simp_all add: u8_sat_def)

lemma seq_limit_pos: "0 < a \<or> (\<exists>x \<in> set xs. 0 < variance x) \<Longrightarrow> 0 < foldl (\<lambda>n x. u8_sat n (variance x)) a xs"
  by (induction xs arbitrary: a) (auto simp: u8_sat_def)

lemma calc_next_seq:
  assumes "strategy (sg_cfg g) = Seq" and "\<forall>x \<in> set (suffixes (sg_cfg g)). single x" and "unat (sg_state g) < 255"
  shows "calc_next g = (sg_prefix g @ seq_text (suffixes (sg_cfg g)) (unat (sg_state g) + 1), sg_state g + 1)"
    and "unat (sg_state g + 1) = unat (sg_state g) + 1"
proof -
  show u: "unat (sg_state g + 1) = unat (sg_state g) + 1" using assms(3) by (simp add: unat_word_ariths)
  show "calc_next g = (sg_prefix g @ seq_text (suffixes (sg_cfg g)) (unat (sg_state g) + 1), sg_state g + 1)"
    using seq_loop_text [OF assms(2), of "unat (sg_state g) + 1"] assms(1,3) u
    by (simp add: calc_next_def Let_def build_value builder_new_def bytes_from_bytes_def)
qed

lemma suffix_all_seq:
  assumes "strategy (sg_cfg g) = Seq" and "\<forall>x \<in> set (suffixes (sg_cfg g)). single x" and "unat (sg_state g) + k \<le> 255"
  shows "suffix_all k g =
    map (\<lambda>i. sg_prefix g @ seq_text (suffixes (sg_cfg g)) i) [Suc (unat (sg_state g))..<Suc (unat (sg_state g) + k)]"
  using assms
proof (induction k arbitrary: g)
  case (Suc k)
  let ?g = "g\<lparr>sg_state := snd (calc_next g), sg_limit := k\<rparr>"
  note c = calc_next_seq [OF Suc.prems(1,2)]
  have "suffix_all k ?g = map (\<lambda>i. sg_prefix ?g @ seq_text (suffixes (sg_cfg ?g)) i)
      [Suc (unat (sg_state ?g))..<Suc (unat (sg_state ?g) + k)]"
    using Suc.prems c by (intro Suc.IH) simp_all
  then show ?case using c Suc.prems(3) by (simp add: upt_conv_Cons del: upt_Suc)
qed simp

text \<open>Boundary cases.  A sequence of nothing but empty choices has the limit zero, and its first use
  underflows; the hexadecimal digits above nine are letters from \<open>K\<close> on.\<close>

lemma empty_choice_panics:
  "next_nick (GSuffix (suffix_transform siphash now \<lparr>strategy = Seq, suffixes = [Choice []]\<rparr> prefix)) = None"
  by (simp add: suffix_transform_def suffix_next_def u8_sat_def split_def)

lemma base16_letters:
  "bld_bytes (suffix_append (Base16 True) 10 bl) = bld_bytes bl @ ''K''"
  "bld_bytes (suffix_append (NonZeroBase16 False) 9 bl) = bld_bytes bl @ ''j''"
  using single_append [of "Base16 True" 10 bl] single_append [of "NonZeroBase16 False" 9 bl]
  by (simp_all add: single_def char_of_eq_iff)

section \<open>Properties\<close>

text \<open>asking a well-formed generator for nicknames again and again ends, without a panic, after exactly
  the nicknames of its specification: a chain yields those of its first part, then those of its second;
  \<open>peek\<close> shows the first of them.\<close>

lemma nick_generators_finish:
  assumes "gen_ok g" and "gen_ok h" and "length (gen_all g) \<le> n"
  shows "drain n g = Some (gen_all g) \<and> gen_all g \<noteq> [] \<and> gen_peek g = Some (hd (gen_all g)) \<and>
    drain (n + length (gen_all h)) (gen_chain g h) = Some (gen_all g @ gen_all h)"
  using drain_gen_all [OF assms(1,3)] gen_all_nonempty [OF assms(1)] gen_peek_hd [OF assms(1)]
    drain_gen_all [of "gen_chain g h" "n + length (gen_all h)"] assms
  by (simp add: gen_chain_def)

text \<open>C39: the sequential strategy over suffixes of one byte never repeats a nickname: the generator of a
  valid prefix ends after as many nicknames as its limit says, all distinct, all valid and all starting
  with the prefix.\<close>

theorem suffix_seq_distinct:
  assumes "valid Nick prefix" and "xs \<noteq> []" and "\<forall>x \<in> set xs. single x"
    and "g = suffix_transform siphash now \<lparr>strategy = Seq, suffixes = xs\<rparr> prefix"
  shows "drain 255 (GSuffix g) = Some (gen_all (GSuffix g)) \<and> length (gen_all (GSuffix g)) = sg_limit g \<and>
    0 < sg_limit g \<and> distinct (gen_all (GSuffix g)) \<and>
    (\<forall>nick \<in> set (gen_all (GSuffix g)). valid Nick nick \<and> take (length prefix) nick = prefix)"
proof -
  have g: "g = \<lparr>sg_cfg = \<lparr>strategy = Seq, suffixes = xs\<rparr>, sg_prefix = prefix, sg_state = 0,
      sg_limit = foldl (\<lambda>n x. u8_sat n (variance x)) 0 xs\<rparr>" (is "g = ?g")
    using assms(2,4) by (simp add: suffix_transform_def)
  have l: "sg_limit g \<le> 255" "sg_limit g \<le> seq_total xs" using seq_limit_255 [of 0 xs] seq_limit_total [OF assms(3)] by (simp_all add: g)
  have pos: "0 < sg_limit g" using seq_limit_pos [of 0 xs] single_variance assms(2,3) by (cases xs) (auto simp: g)
  have all: "gen_all (GSuffix g) = map (\<lambda>i. prefix @ seq_text xs i) [1..<Suc (sg_limit g)]"
    using suffix_all_seq [of g "sg_limit g"] l(1) assms(3) by (simp add: g)
  have "inj_on (\<lambda>i. prefix @ seq_text xs i) {1..<Suc (sg_limit g)}"
    using seq_text_inj [OF assms(3)] l(2) by (intro inj_onI) auto
  then have d: "distinct (gen_all (GSuffix g))" unfolding all by (simp add: distinct_map del: upt_Suc)
  have "suffix_ok x" if "single x" for x
    using that by (cases x) (auto simp: suffix_ok_def single_def scalar_def)
  then have "sgen_ok g" using assms(1,3) by (simp add: sgen_ok_def g)
  then have v: "\<forall>nick \<in> set (gen_all (GSuffix g)). valid Nick nick \<and> take (length prefix) nick = prefix"
    using suffix_all_ok [of g _ "sg_limit g"] by (simp add: g)
  have len: "length (gen_all (GSuffix g)) = sg_limit g" unfolding all by simp
  then have "drain 255 (GSuffix g) = Some (gen_all (GSuffix g))" using l(1) pos by (intro drain_gen_all) simp_all
  with len pos d v show ?thesis by blast
qed

theorem suffix_seq_distinct_witness:
  "let g = suffix_transform (\<lambda>_. 0) None \<lparr>strategy = Seq, suffixes = [SChar 95, NonZeroBase8]\<rparr> ''Foo''
   in sg_limit g = 8 \<and> distinct (gen_all (GSuffix g)) \<and> length (gen_all (GSuffix g)) = 8"
proof -
  define g where "g = suffix_transform (\<lambda>_. 0) None \<lparr>strategy = Seq, suffixes = [SChar 95, NonZeroBase8]\<rparr> ''Foo''"
  have c: "\<not> is_invalid_for_nick True (char_of (95 :: nat))" by (rule nick_byte_ok) simp_all
  have v: "valid Nick ''Foo''" by (simp add: valid_iff invalid_defs arg_first_check_def)
  have s: "\<forall>x \<in> set [SChar 95, NonZeroBase8]. single x" using c by (simp add: single_def)
  have "sg_limit g = 8" by (simp add: g_def suffix_transform_def u8_sat_def)
  with suffix_seq_distinct [OF v _ s g_def] show ?thesis unfolding Let_def g_def [symmetric] by simp
qed

end
