(* ===== verification/Register.thy ===== *)
theory Register
  imports Cap Auth Nicks Isupport
begin

text \<open>
  Connection registration: \<open>client/register.rs\<close> and \<open>client/register/handler.rs\<close>.  A \<open>BTreeSet\<close> is a
  finite set, iterated in ascending order.  The functions over a generic sink return the messages they
  send.  An outer \<open>None\<close> is a panic of the code or a loop without end in a parser it calls.
\<close>

section \<open>The result of registration (\<open>handler.rs\<close>)\<close>

record registration =
  reg_nick :: bytes
  reg_userhost :: "UserHost option"
  reg_account :: "bytes option"
  reg_source :: "source option"
  reg_caps :: "(bytes \<times> bytes, bool) name_map"
  reg_version :: "bytes option"
  reg_isupport :: "(isupport_union, unit) name_map"

definition reg_new :: "bytes \<Rightarrow> registration" where
  "reg_new nick =
     \<lparr>reg_nick = nick, reg_userhost = None, reg_account = None, reg_source = None, reg_caps = nm_new,
      reg_version = None, reg_isupport = nm_new\<rparr>"

definition reg_default :: registration where
  "reg_default = reg_new STAR"

definition reg_save :: "type_ids \<Rightarrow> registration \<Rightarrow> client_state \<Rightarrow> client_state" where
  "reg_save tid self cs =
     (let src = \<lparr>src_nick = reg_nick self, userhost = reg_userhost self\<rparr>;
          cs = snd (update_source_len_from tid (Some src) True cs);
          cs = cs_insert tid ClientSource (VSource src) cs;
          cs = cs_insert tid Account (VAccount (reg_account self)) cs;
          cs = cs_insert tid Caps (VCaps (reg_caps self)) cs;
          cs = cs_insert tid ISupport (VISupport (reg_isupport self)) cs;
          cs = (case reg_source self of Some s \<Rightarrow> cs_insert tid ServerSource (VSource s) cs | None \<Rightarrow> cs)
      in case reg_version self of Some v \<Rightarrow> cs_insert tid ServerVersion (VArg v) cs | None \<Rightarrow> cs)"

definition parse_myinfo :: "bytes list \<Rightarrow> registration \<Rightarrow> registration" where
  "parse_myinfo args self =
     (case drop 2 args of [] \<Rightarrow> self | version # _ \<Rightarrow> self\<lparr>reg_version := Some version\<rparr>)"

datatype broken_cause = BrokenText string | BrokenParse ParseError

datatype reg_error =
  NoAccess bytes
| NoNicks
| NoLogin
| Redirect bytes nat bytes
| ServerError server_msg
| RegBroken broken_cause
| MissingCaps "bytes set"

datatype io_kind = ConnectionRefused | IoInvalidData | IoOther

definition reg_error_kind :: "reg_error \<Rightarrow> io_kind" where
  "reg_error_kind e = (case e of NoAccess _ \<Rightarrow> ConnectionRefused | RegBroken _ \<Rightarrow> IoInvalidData | _ \<Rightarrow> IoOther)"

section \<open>The states\<close>

datatype 'm reg_state =
  StBroken
| StReq "bytes set \<Rightarrow> bytes set" "'m sasl_queue"
| StAck "bytes set" "'m sasl_queue"
| StSasl "'m auth_handler"
| is_cap_end: StCapEnd
| is_await_welcome: StAwaitWelcome
| is_await_end: StAwaitEnd

definition state_ack :: "bool \<Rightarrow> caps \<Rightarrow> 'm reg_state \<Rightarrow> (unit, reg_error) result \<times> client_msg list \<times> 'm reg_state" where
  "state_ack ack caps st =
     (case st of
        StAck ackd q \<Rightarrow>
          (let keys = set (map fst caps); missing = ackd \<inter> keys in
           if \<not> ack \<and> missing \<noteq> {} then (Inl (MissingCaps missing), [], st)
           else
             (let ackd' = (if ack then ackd - keys else ackd) in
              if ackd' = {} then
                (case auth_from_queue q of
                   Some h \<Rightarrow> (Inr (), [auth_msg h], StSasl h)
                 | None \<Rightarrow> (Inr (), [], StCapEnd))
              else (Inr (), [], StAck ackd' q)))
      | _ \<Rightarrow> (Inr (), [], st))"

section \<open>The handler\<close>

record 'm reg_handler =
  rh_nicks :: "nick_gen option"
  rh_state :: "'m reg_state"
  rh_needs_auth :: bool
  rh_reg :: registration

type_synonym 'm reg_outcome = "(registration option, reg_error) result \<times> client_msg list \<times> 'm reg_handler"

definition rh_new ::
  "bytes \<times> nick_gen option \<Rightarrow> (bytes set \<Rightarrow> bytes set) \<Rightarrow> bool \<Rightarrow> 'm sasl_queue \<Rightarrow> 'm reg_handler" where
  "rh_new nicks caps needs_auth auths =
     \<lparr>rh_nicks = snd nicks, rh_state = StReq caps auths, rh_needs_auth = needs_auth, rh_reg = reg_new (fst nicks)\<rparr>"

abbreviation upd_reg :: "(registration \<Rightarrow> registration) \<Rightarrow> 'm reg_handler \<Rightarrow> 'm reg_handler" where
  "upd_reg f h \<equiv> h\<lparr>rh_reg := f (rh_reg h)\<rparr>"

definition nick_msg :: "bytes \<Rightarrow> client_msg" where
  "nick_msg nick = (let msg = client_new_cmd ''NICK'' in msg\<lparr>cm_args := add_word nick (cm_args msg)\<rparr>)"

definition rh_next_nick :: "'m reg_handler \<Rightarrow> 'm reg_outcome option" where
  "rh_next_nick h =
     (case rh_nicks h of
        None \<Rightarrow> Some (Inl NoNicks, [], h)
      | Some nicks \<Rightarrow> do {
          (nick, nicks') \<leftarrow> next_nick nicks;
          Some (Inr None, [nick_msg nick], upd_reg (reg_nick_update (\<lambda>_. nick)) (h\<lparr>rh_nicks := nicks'\<rparr>)) })"

text \<open>\<open>owning_merged\<close> on an optional source.\<close>

definition merged :: "source option \<Rightarrow> source option option" where
  "merged src = (case src of None \<Rightarrow> Some None | Some s \<Rightarrow> map_option Some (owning_merged s))"

definition rh_welcome :: "server_msg \<Rightarrow> 'm reg_handler \<Rightarrow> 'm reg_outcome option" where
  "rh_welcome msg h =
     (let nick =
            (case words (sm_args msg) of
               n # _ \<Rightarrow> if n \<noteq> STAR then (case from_super Nick n of Inr k \<Rightarrow> Some k | Inl _ \<Rightarrow> None) else None
             | [] \<Rightarrow> None);
          h1 = (case nick of Some n \<Rightarrow> upd_reg (reg_nick_update (\<lambda>_. n)) h | None \<Rightarrow> h)
      in do {
        src \<leftarrow> (if sm_source msg \<noteq> None \<and> reg_source (rh_reg h1) \<noteq> sm_source msg then merged (sm_source msg)
               else Some (reg_source (rh_reg h1)));
        Some (Inr None, [], upd_reg (reg_source_update (\<lambda>_. src)) (h1\<lparr>rh_state := StAwaitEnd\<rparr>)) })"

text \<open>One token of \<open>RPL_ISUPPORT\<close>.\<close>

definition isupport_item :: "bytes \<Rightarrow> (bytes \<times> bytes) option" where
  "isupport_item tok =
     (case sp_string Key False (sp_new False tok) of
        (Inl _, _) \<Rightarrow> None
      | (Inr key, sp) \<Rightarrow>
          (let (b, sp1) = next_byte sp in
           if b \<noteq> None \<and> b \<noteq> Some (CHR ''='') then None else Some (key, fst (rest_or_default Word sp1))))"

definition rh_isupport :: "server_msg \<Rightarrow> 'm reg_handler \<Rightarrow> 'm reg_outcome option" where
  "rh_isupport msg h =
     (case words (sm_args msg) of
        [] \<Rightarrow> Some (Inr None, [], h)
      | _ # toks \<Rightarrow>
          (let g = foldl (\<lambda>g tok. case isupport_item tok of None \<Rightarrow> g | Some kv \<Rightarrow> snd (nm_insert fst kv () g))
                     (nm_edit (reg_isupport (rh_reg h))) toks
           in Some (Inr None, [], upd_reg (reg_isupport_update (\<lambda>_. guard_drop (extract_key fst) g)) h)))"

definition is_ascii_graphic :: "byte \<Rightarrow> bool" where
  "is_ascii_graphic c \<longleftrightarrow> 33 \<le> code c \<and> code c \<le> 126"

text \<open>The last piece of \<open>rsplit\<close>: what follows the last byte that is not accepted.\<close>

definition last_run :: "(byte \<Rightarrow> bool) \<Rightarrow> bytes \<Rightarrow> bytes" where
  "last_run p s = rev (takeWhile p (rev s))"

definition parse_bounce :: "bytes \<Rightarrow> (bytes \<times> nat) option" where
  "parse_bounce lst =
     (case position (\<lambda>c. c = CHR '','') lst of
        None \<Rightarrow> None
      | Some i \<Rightarrow>
          (let server = last_run is_ascii_graphic (take i lst);
               port = last_run is_ascii_digit (drop (i + 1) lst)
           in case from_bytes Word server of
                Inl _ \<Rightarrow> None
              | Inr server \<Rightarrow>
                  if utf8_valid port then
                    (case parse_uint 65536 port of Inl _ \<Rightarrow> None | Inr p \<Rightarrow> Some (server, p))
                  else None))"

definition rh_bounce :: "server_msg \<Rightarrow> reg_error" where
  "rh_bounce msg =
     (case snd (split_last (sm_args msg)) of
        None \<Rightarrow> RegBroken (BrokenText ''empty 005 message'')
      | Some lst \<Rightarrow>
          (case parse_bounce lst of
             Some (server, port) \<Rightarrow> Redirect server port lst
           | None \<Rightarrow> ServerError msg))"

definition rh_redirect :: "server_msg \<Rightarrow> reg_error" where
  "rh_redirect msg =
     (case split_last (sm_args msg) of
        ([_, client, port], Some info) \<Rightarrow>
          (case parse_uint 65536 (cow_ref (from_utf8_lossy port)) of
             Inr p \<Rightarrow> Redirect client p info
           | Inl e \<Rightarrow> RegBroken (BrokenText (''not a valid port `'' @ show_bytes port @ ''`: '' @ int_error_text e)))
      | _ \<Rightarrow> ServerError msg)"

definition rh_whoami :: "bytes \<Rightarrow> 'm reg_handler \<Rightarrow> 'm reg_outcome" where
  "rh_whoami whoami h =
     (case src_parse whoami of
        Inl e \<Rightarrow> (Inl (RegBroken (BrokenParse e)), [], h)
      | Inr s \<Rightarrow> (Inr None, [], upd_reg (\<lambda>r. r\<lparr>reg_nick := src_nick s, reg_userhost := userhost s\<rparr>) h))"

definition rh_logged_in :: "server_msg \<Rightarrow> 'm reg_handler \<Rightarrow> 'm reg_outcome" where
  "rh_logged_in msg h =
     (let args = fst (split_last (sm_args msg)) in
      if args = [] then (Inr None, [], h)
      else
        (let h1 = upd_reg (reg_account_update (\<lambda>_. Some (last args))) h in
         if butlast args = [] then (Inr None, [], h1) else rh_whoami (last (butlast args)) h1))"

definition rh_logged_out :: "server_msg \<Rightarrow> 'm reg_handler \<Rightarrow> 'm reg_outcome" where
  "rh_logged_out msg h =
     (let h1 = upd_reg (reg_account_update (\<lambda>_. None)) h; args = fst (split_last (sm_args msg)) in
      if args = [] then (Inr None, [], h1) else rh_whoami (last args) h1)"

section \<open>Capabilities\<close>

definition try_insert_all :: "caps \<Rightarrow> (bytes \<times> bytes, bool) name_map \<Rightarrow> (bytes \<times> bytes, bool) name_map" where
  "try_insert_all caps m =
     guard_drop (extract_key fst) (foldl (\<lambda>g kv. snd (nm_try_insert fst kv False g)) (nm_edit m) caps)"

definition enable_all :: "caps \<Rightarrow> (bytes \<times> bytes, bool) name_map \<Rightarrow> (bytes \<times> bytes, bool) name_map" where
  "enable_all caps m =
     guard_drop (extract_key fst) (foldl (\<lambda>g kv. snd (insert_or_update fst kv True g)) (nm_edit m) caps)"

fun remove_keys :: "bytes list \<Rightarrow> ((bytes \<times> bytes) \<times> bool) guard \<Rightarrow> ((bytes \<times> bytes) \<times> bool) guard option" where
  "remove_keys [] g = Some g"
| "remove_keys (k # ks) g = do { (_, g') \<leftarrow> remove_raw fst k g; remove_keys ks g' }"

text \<open>The authenticators whose mechanism the server has, once the list of capabilities is complete.\<close>

definition supported_auths :: "(bytes \<times> bytes, bool) name_map \<Rightarrow> 'm sasl_queue \<Rightarrow> 'm sasl_queue" where
  "supported_auths caps auths =
     (case get_parsed fst ''sasl'' sasl_from_union caps of
        Some (Inr mechs) \<Rightarrow> sq_retain (\<lambda>mech. mech \<in> mechs) auths
      | Some (Inl _) \<Rightarrow> auths
      | None \<Rightarrow> sq_clear auths)"

text \<open>The end of \<open>CAP LS\<close>.  The state is taken out of the handler and lost when an error is returned.\<close>

definition rh_request ::
  "(bytes set \<Rightarrow> bytes set) \<Rightarrow> 'm sasl_queue \<Rightarrow> 'm reg_handler \<Rightarrow> 'm reg_outcome option" where
  "rh_request require auths h =
     (let broken = h\<lparr>rh_state := StBroken\<rparr>;
          auths' = supported_auths (reg_caps (rh_reg h)) auths;
          avail = set (nm_keys fst (reg_caps (rh_reg h)));
          reqs = require avail;
          reqs' = (if \<not> sq_is_empty auths' then insert ''sasl'' reqs else reqs);
          diff = reqs' - avail;
          reqs'' = reqs' - {''sts''}
      in if sq_is_empty auths' \<and> rh_needs_auth h then Some (Inl NoLogin, [], broken)
         else if diff \<noteq> {} then Some (Inl (MissingCaps diff), [], broken)
         else if reqs'' = {} then Some (Inr None, [], h\<lparr>rh_state := StCapEnd\<rparr>)
         else do {
           out \<leftarrow> req (sorted_list_of_set reqs'') (Some (reg_nick (rh_reg h))) (reg_source (rh_reg h));
           Some (Inr None, out, h\<lparr>rh_state := StAck reqs'' auths'\<rparr>) })"

definition rh_cap :: "server_msg \<Rightarrow> 'm reg_handler \<Rightarrow> 'm reg_outcome option" where
  "rh_cap msg h = do {
     r \<leftarrow> cap_parse (sm_args msg);
     case r of
       Inl e \<Rightarrow> Some (Inl (RegBroken (BrokenParse e)), [], h)
     | Inr cm \<Rightarrow>
         (let ack = (\<lambda>b h. let (r, out, st) = state_ack b (cap_caps cm) (rh_state h) in
                       (bind_res r (\<lambda>_. Inr None), out, h\<lparr>rh_state := st\<rparr>))
          in case cap_subcmd cm of
               Ls \<Rightarrow>
                 (let h1 = upd_reg (\<lambda>r. r\<lparr>reg_caps := try_insert_all (cap_caps cm) (reg_caps r)\<rparr>) h in
                  if cap_is_last cm then
                    (case rh_state h1 of
                       StReq require auths \<Rightarrow> rh_request require auths h1
                     | _ \<Rightarrow> Some (Inr None, [], h1))
                  else Some (Inr None, [], h1))
             | New \<Rightarrow> Some (Inr None, [], upd_reg (\<lambda>r. r\<lparr>reg_caps := try_insert_all (cap_caps cm) (reg_caps r)\<rparr>) h)
             | Ack \<Rightarrow>
                 (case ack True h of
                    (Inl e, out, h1) \<Rightarrow> Some (Inl e, out, h1)
                  | (Inr v, out, h1) \<Rightarrow>
                      Some (Inr v, out, upd_reg (\<lambda>r. r\<lparr>reg_caps := enable_all (cap_caps cm) (reg_caps r)\<rparr>) h1))
             | Nak \<Rightarrow> Some (ack False h)
             | Del \<Rightarrow> do {
                 g \<leftarrow> remove_keys (map fst (cap_caps cm)) (nm_edit (reg_caps (rh_reg h)));
                 Some (ack False (upd_reg (\<lambda>r. r\<lparr>reg_caps := guard_drop (extract_key fst) g\<rparr>) h)) }
             | SubCmd_List \<Rightarrow> Some (Inl (RegBroken (BrokenText ''unexpected CAP LIST'')), [], h)) }"

section \<open>Handling a message\<close>

definition rh_dispatch :: "bool \<Rightarrow> server_msg \<Rightarrow> 'm reg_handler \<Rightarrow> 'm reg_outcome option" where
  "rh_dispatch ignore_sasl msg h =
     (let k = kind_as_str (sm_kind msg); fail = (\<lambda>e. Some (Inl e, [], h)) in
      if k \<in> {''001'', ''002'', ''003'', ''004''} \<and> rh_needs_auth h \<and> reg_account (rh_reg h) = None then fail NoLogin
      else if k = ''001'' then rh_welcome msg h
      else if k = ''004'' \<and> is_await_end (rh_state h) then
        Some (Inr None, [], upd_reg (parse_myinfo (words (sm_args msg))) h)
      else if k = ''005'' \<and> is_await_end (rh_state h) then rh_isupport msg h
      else if k = ''004'' then fail (RegBroken (BrokenText ''004 sent before 001''))
      else if k = ''005'' then fail (rh_bounce msg)
      else if k = ''010'' then fail (rh_redirect msg)
      else if k \<in> {''376'', ''422''} \<and> is_await_end (rh_state h) then
        Some (Inr (Some (rh_reg h)), [], h\<lparr>rh_reg := reg_default\<rparr>)
      else if k \<in> {''376'', ''422''} then fail (RegBroken (BrokenText ''unexpected MOTD message''))
      else if k = ''432'' then
        rh_next_nick (h\<lparr>rh_nicks := Option.bind (rh_nicks h) (handle_invalid (reg_nick (rh_reg h)))\<rparr>)
      else if k \<in> {''433'', ''436''} then rh_next_nick h
      else if k \<in> {''464'', ''465''} then
        fail (NoAccess (case snd (split_last (sm_args msg)) of Some l \<Rightarrow> l | None \<Rightarrow> []))
      else if k = ''900'' then Some (rh_logged_in msg h)
      else if k = ''901'' then Some (rh_logged_out msg h)
      else if k \<in> {''902'', ''904'', ''905'', ''906'', ''907''} \<and> ignore_sasl then Some (Inr None, [], h)
      else if k = ''CAP'' then rh_cap msg h
      else if kind_is_error (sm_kind msg) = Some True then fail (ServerError msg)
      else Some (Inr None, [], h))"

definition cap_end :: "client_msg option" where
  "cap_end = (let msg = client_new_cmd ''CAP'' in map_option (\<lambda>a. msg\<lparr>cm_args := a\<rparr>) (add_literal ''END'' (cm_args msg)))"

text \<open>What follows the dispatch when it did not return an error.\<close>

definition rh_finish :: "'m reg_outcome \<Rightarrow> 'm reg_outcome option" where
  "rh_finish = (\<lambda>(r, out, h).
     case r of
       Inl e \<Rightarrow> Some (r, out, h)
     | Inr v \<Rightarrow>
         if is_cap_end (rh_state h) then
           (if rh_needs_auth h \<and> reg_account (rh_reg h) = None then Some (Inl NoLogin, out, h)
            else do { msg \<leftarrow> cap_end; Some (r, out @ [msg], h\<lparr>rh_state := StAwaitWelcome\<rparr>) })
         else Some (r, out, h))"

text \<open>The part of a SASL exchange in progress: its failure ends it like its success.\<close>

definition rh_sasl ::
  "(nat \<Rightarrow> nat) \<Rightarrow> (bytes \<Rightarrow> bytes) \<Rightarrow> (bytes \<Rightarrow> (bytes, 'e) result) \<Rightarrow> server_msg \<Rightarrow> 'm reg_handler \<Rightarrow>
   (bool \<times> client_msg list \<times> 'm reg_handler) option" where
  "rh_sasl alloc encode decode msg h =
     (case rh_state h of
        StSasl sasl \<Rightarrow> do {
          (r, out, sasl') \<leftarrow> auth_handle alloc encode decode msg sasl;
          Some (True, out, h\<lparr>rh_state := (if r = Inr False then StSasl sasl' else StCapEnd)\<rparr>) }
      | _ \<Rightarrow> Some (False, [], h))"

definition rh_handle ::
  "(nat \<Rightarrow> nat) \<Rightarrow> (bytes \<Rightarrow> bytes) \<Rightarrow> (bytes \<Rightarrow> (bytes, 'e) result) \<Rightarrow> server_msg \<Rightarrow> 'm reg_handler \<Rightarrow>
   'm reg_outcome option" where
  "rh_handle alloc encode decode msg h = do {
     src \<leftarrow> (if reg_source (rh_reg h) = None then merged (sm_source msg) else Some (reg_source (rh_reg h)));
     let h = upd_reg (reg_source_update (\<lambda>_. src)) h;
     let (ponged, out0) = pong msg;
     if ponged then Some (Inr None, out0, h)
     else do {
       (ignore_sasl, out1, h) \<leftarrow> rh_sasl alloc encode decode msg h;
       (r, out2, h) \<leftarrow> rh_dispatch ignore_sasl msg h;
       rh_finish (r, out1 @ out2, h) } }"

definition rh_client_handle ::
  "type_ids \<Rightarrow> (nat \<Rightarrow> nat) \<Rightarrow> (bytes \<Rightarrow> bytes) \<Rightarrow> (bytes \<Rightarrow> (bytes, 'e) result) \<Rightarrow> server_msg \<Rightarrow>
   client_state \<Rightarrow> ('a, 'l) queue_guard \<Rightarrow> ('c, (unit, reg_error) result) sender_ref \<Rightarrow> 'm reg_handler \<Rightarrow>
   (unit control_flow \<times> client_state \<times> ('a, 'l) queue_guard \<times> ('c, (unit, reg_error) result) sender_ref \<times>
    'm reg_handler) option" where
  "rh_client_handle tid alloc encode decode msg st g sr h = do {
     (r, out, h') \<leftarrow> rh_handle alloc encode decode msg h;
     let g' = qg_send_all out g;
     Some (case r of
             Inr (Some v) \<Rightarrow> (let (_, sr') = sr_send (Inr ()) sr in (Break (), reg_save tid v st, g', sr', h'))
           | Inr None \<Rightarrow> (Continue, st, g', sr, h')
           | Inl e \<Rightarrow> (let (_, sr') = sr_send (Inl e) sr in (Break (), st, g', sr', h'))) }"

definition rh_wants_owning :: "'m reg_handler \<Rightarrow> bool" where
  "rh_wants_owning h \<longleftrightarrow> is_await_welcome (rh_state h)"

section \<open>Starting a registration (\<open>register.rs\<close>)\<close>

text \<open>The functions that give names may panic, the authenticators use secret buffers: options.\<close>

record ('o, 'm) register =
  rg_password :: "'o \<Rightarrow> bytes option"
  rg_username :: "'o \<Rightarrow> bytes option"
  rg_user_p1 :: "'o \<Rightarrow> bytes"
  rg_user_p2 :: "'o \<Rightarrow> bytes"
  rg_realname :: "'o \<Rightarrow> bytes"
  rg_nicks :: "'o \<Rightarrow> nick_gen option"
  rg_caps :: "'o \<Rightarrow> bytes set \<Rightarrow> bytes set"
  rg_auth :: "'o \<Rightarrow> ('m sasl_queue \<times> bool) option"

definition register_msgs ::
  "('o, 'm) register \<Rightarrow> 'o \<Rightarrow> ((bytes \<times> nick_gen option) \<times> client_msg list) option" where
  "register_msgs self opts =
     (let pass = (case rg_password self opts of
             None \<Rightarrow> []
           | Some p \<Rightarrow> (let msg = client_new_cmd ''PASS'' in [msg\<lparr>cm_args := snd (args_add p (cm_args msg))\<rparr>]));
          cap = client_new_cmd ''CAP'';
          user = client_new_cmd ''USER''
      in do {
        a \<leftarrow> add_literal ''LS'' (cm_args cap);
        a \<leftarrow> add_literal ''302'' a;
        username \<leftarrow> rg_username self opts;
        let ua = add_word (rg_user_p2 self opts) (add_word (rg_user_p1 self opts) (add_word username (cm_args user)));
        nicks \<leftarrow> rg_nicks self opts;
        (nick, gen) \<leftarrow> next_nick nicks;
        Some ((nick, gen),
          pass @ [cap\<lparr>cm_args := a\<rparr>, user\<lparr>cm_args := snd (args_add (rg_realname self opts) ua)\<rparr>, nick_msg nick]) })"

definition register_handler ::
  "('o, 'm) register \<Rightarrow> 'o \<Rightarrow> ('m reg_handler \<times> client_msg list) option" where
  "register_handler self opts = do {
     (nicks, out) \<leftarrow> register_msgs self opts;
     (auths, needs_auth) \<leftarrow> rg_auth self opts;
     Some (rh_new nicks (rg_caps self opts) (needs_auth \<and> sq_is_empty auths) auths, out) }"

definition register_make_handler ::
  "('o, 'm) register \<Rightarrow> ('a, 'l) queue_guard \<Rightarrow> 'o \<Rightarrow> ('m reg_handler \<times> ('a, 'l) queue_guard) option" where
  "register_make_handler self g opts = do {
     (h, out) \<leftarrow> register_handler self opts;
     Some (h, qg_send_all out g) }"

section \<open>What a message may change\<close>

abbreviation kind_of :: "server_msg \<Rightarrow> bytes" where
  "kind_of m \<equiv> kind_as_str (sm_kind m)"

abbreviation has_account :: "'m reg_handler \<Rightarrow> bool" where
  "has_account h \<equiv> reg_account (rh_reg h) \<noteq> None"

text \<open>An account comes only from 900, the last phase only from 001.\<close>

definition frames :: "server_msg \<Rightarrow> 'm reg_handler \<Rightarrow> 'm reg_handler \<Rightarrow> bool" where
  "frames m h h' \<longleftrightarrow> rh_needs_auth h' = rh_needs_auth h \<and>
     (has_account h' \<longrightarrow> has_account h \<or> kind_of m = ''900'') \<and>
     (is_await_end (rh_state h') \<longrightarrow>
        is_await_end (rh_state h) \<or> kind_of m = ''001'' \<and> (rh_needs_auth h \<longrightarrow> has_account h))"

lemma frames_trans: "frames m h h1 \<Longrightarrow> frames m h1 h2 \<Longrightarrow> frames m h h2"
  by (auto simp: frames_def)

lemma frames_same [intro]:
  "rh_needs_auth h' = rh_needs_auth h \<Longrightarrow> reg_account (rh_reg h') = reg_account (rh_reg h) \<Longrightarrow>
   (is_await_end (rh_state h') \<Longrightarrow> is_await_end (rh_state h)) \<Longrightarrow> frames m h h'"
  by (auto simp: frames_def)

lemma rh_next_nick_frames: "rh_next_nick h = Some (r, out, h') \<Longrightarrow> frames m h h' \<and> rh_state h' = rh_state h \<and> (\<forall>v. r = Inr v \<longrightarrow> v = None)"
  by (auto simp: rh_next_nick_def split: option.splits Option.bind_splits)

lemma rh_whoami_frames: "rh_whoami w h = (r, out, h') \<Longrightarrow> frames m h h' \<and> rh_state h' = rh_state h \<and> (\<forall>v. r = Inr v \<longrightarrow> v = None)"
  by (auto simp: rh_whoami_def split: sum.splits)

lemma rh_logged_in_frames:
  assumes "rh_logged_in msg h = (r, out, h')" and "kind_of msg = ''900''"
  shows "frames msg h h' \<and> rh_state h' = rh_state h \<and> (\<forall>v. r = Inr v \<longrightarrow> v = None)"
  using assms rh_whoami_frames
  by (fastforce simp: rh_logged_in_def Let_def frames_def split: if_splits)

lemma rh_logged_out_frames:
  assumes "rh_logged_out msg h = (r, out, h')"
  shows "frames msg h h' \<and> rh_state h' = rh_state h \<and> (\<forall>v. r = Inr v \<longrightarrow> v = None)"
  using assms rh_whoami_frames [of _ _ r out h' msg]
  by (fastforce simp: rh_logged_out_def Let_def frames_def split: if_splits)

lemma rh_welcome_frames:
  assumes "rh_welcome msg h = Some (r, out, h')" and "kind_of msg = ''001''" and "rh_needs_auth h \<Longrightarrow> has_account h"
  shows "frames msg h h' \<and> rh_state h' = StAwaitEnd \<and> r = Inr None"
  using assms by (auto simp: rh_welcome_def Let_def frames_def split: option.splits list.splits sum.splits if_splits Option.bind_splits)

lemma state_ack_frames:
  "state_ack b caps st = (r, out, st') \<Longrightarrow> is_await_end st' \<Longrightarrow> is_await_end st"
  by (auto simp: state_ack_def Let_def split: reg_state.splits if_splits option.splits)

lemma rh_request_frames:
  "rh_request require auths h = Some (r, out, h') \<Longrightarrow> frames m h h' \<and> (\<forall>v. r = Inr v \<longrightarrow> v = None)"
  by (auto simp: rh_request_def Let_def split: if_splits Option.bind_splits)

lemma rh_cap_frames:
  assumes "rh_cap msg h = Some (r, out, h')"
  shows "frames msg h h' \<and> (\<forall>v. r = Inr v \<longrightarrow> v = None)"
proof -
  obtain cr where cr: "cap_parse (sm_args msg) = Some cr"
    using assms by (auto simp: rh_cap_def split: Option.bind_splits)
  show ?thesis
  proof (cases cr)
    case (Inr cm)
    obtain r1 out1 st1 where st1: "state_ack True (cap_caps cm) (rh_state h) = (r1, out1, st1)" by (metis surj_pair)
    obtain r2 out2 st2 where st2: "state_ack False (cap_caps cm) (rh_state h) = (r2, out2, st2)" by (metis surj_pair)
    let ?h = "upd_reg (\<lambda>r. r\<lparr>reg_caps := try_insert_all (cap_caps cm) (reg_caps r)\<rparr>) h"
    have k: "frames msg h ?h" by auto
    show ?thesis
    proof (cases "cap_subcmd cm")
      case Ls
      then show ?thesis
        using assms cr Inr k rh_request_frames [of _ _ ?h r out h' msg] frames_trans [OF k, of h']
        by (auto simp: rh_cap_def Let_def split: if_splits reg_state.splits)
    next
      case Ack
      then show ?thesis
        using assms cr Inr st1 state_ack_frames [OF st1]
        by (auto simp: rh_cap_def bind_res_Inr split: sum.splits)
    next
      case Nak
      then show ?thesis
        using assms cr Inr st2 state_ack_frames [OF st2]
        by (auto simp: rh_cap_def bind_res_Inr split: sum.splits)
    next
      case Del
      then show ?thesis
        using assms cr Inr st2 state_ack_frames [OF st2]
        by (auto simp: rh_cap_def bind_res_Inr split: sum.splits Option.bind_splits)
    qed (use assms cr Inr k in \<open>auto simp: rh_cap_def\<close>)
  qed (use assms cr in \<open>auto simp: rh_cap_def\<close>)
qed

text \<open>The dispatch: registration completes only in the last phase.\<close>

lemma rh_dispatch_frames:
  assumes "rh_dispatch ig msg h = Some (r, out, h')"
  shows "frames msg h h'" and "r = Inr (Some reg) \<Longrightarrow> is_await_end (rh_state h) \<and> reg = rh_reg h"
proof -
  have "frames msg h h' \<and> (r = Inr (Some reg) \<longrightarrow> is_await_end (rh_state h) \<and> reg = rh_reg h)"
  proof -
    consider "kind_of msg = ''001'' \<and> (rh_needs_auth h \<longrightarrow> has_account h)" | "kind_of msg = ''432''" | "kind_of msg \<in> {''433'', ''436''}"
      | "kind_of msg = ''900''" | "kind_of msg = ''901''" | "kind_of msg = ''CAP''" | "kind_of msg = ''005'' \<and> is_await_end (rh_state h)"
      | "kind_of msg \<notin> {''432'', ''433'', ''436'', ''900'', ''901'', ''CAP''}" "kind_of msg = ''001'' \<longrightarrow> rh_needs_auth h \<and> \<not> has_account h"
        "kind_of msg = ''005'' \<longrightarrow> \<not> is_await_end (rh_state h)"
      by blast
    then show ?thesis
    proof cases
      case 1
      then show ?thesis using assms rh_welcome_frames [of msg h r out h'] by (auto simp: rh_dispatch_def Let_def split: if_splits)
    next
      case 2
      let ?h = "h\<lparr>rh_nicks := Option.bind (rh_nicks h) (handle_invalid (reg_nick (rh_reg h)))\<rparr>"
      have "frames msg h ?h" by auto
      with 2 show ?thesis
        using assms rh_next_nick_frames [of ?h r out h' msg] frames_trans [of msg h ?h h'] by (auto simp: rh_dispatch_def Let_def)
    next
      case 3
      then show ?thesis using assms rh_next_nick_frames [of h r out h' msg] by (auto simp: rh_dispatch_def Let_def)
    next
      case 4
      then show ?thesis using assms rh_logged_in_frames [of msg h r out h'] by (auto simp: rh_dispatch_def Let_def)
    next
      case 5
      then show ?thesis using assms rh_logged_out_frames [of msg h r out h'] by (auto simp: rh_dispatch_def Let_def)
    next
      case 6
      then show ?thesis using assms rh_cap_frames [of msg h r out h'] by (auto simp: rh_dispatch_def Let_def)
    next
      case 7
      then show ?thesis using assms by (auto simp: rh_dispatch_def rh_isupport_def Let_def split: list.splits)
    next
      case 8
      then show ?thesis
        using assms
        by (auto simp: rh_dispatch_def Let_def reg_default_def reg_new_def frames_def parse_myinfo_def split: if_splits list.splits)
    qed
  qed
  then show "frames msg h h'" and "r = Inr (Some reg) \<Longrightarrow> is_await_end (rh_state h) \<and> reg = rh_reg h" by blast+
qed

lemma rh_finish_frames:
  "rh_finish (r, out, h) = Some (r', out', h') \<Longrightarrow> frames m h h' \<and> (\<forall>v. r' = Inr v \<longrightarrow> r = Inr v \<and> \<not> is_cap_end (rh_state h'))"
  by (auto simp: rh_finish_def split: sum.splits if_splits Option.bind_splits)

lemma rh_sasl_frames:
  "rh_sasl alloc encode decode msg h = Some (ig, out, h') \<Longrightarrow>
   frames msg h h' \<and> rh_reg h' = rh_reg h \<and> (is_await_end (rh_state h') \<longrightarrow> h' = h)"
  by (auto simp: rh_sasl_def split: reg_state.splits Option.bind_splits if_splits)

lemma rh_handle_frames:
  assumes "rh_handle alloc encode decode msg h = Some (r, out, h')"
  shows "frames msg h h'" and "r = Inr (Some reg) \<Longrightarrow> is_await_end (rh_state h)"
proof -
  have "frames msg h h' \<and> (r = Inr (Some reg) \<longrightarrow> is_await_end (rh_state h))"
  proof -
    obtain src where src: "(if reg_source (rh_reg h) = None then merged (sm_source msg) else Some (reg_source (rh_reg h))) = Some src"
      using assms unfolding rh_handle_def by (fastforce split: Option.bind_splits)
    let ?h = "upd_reg (reg_source_update (\<lambda>_. src)) h"
    have k: "frames msg h ?h" by auto
    show ?thesis
    proof (cases "fst (pong msg)")
      case True
      then show ?thesis using assms src k by (auto simp: rh_handle_def split_def)
    next
      case False
      then obtain ig out1 h1 r2 out2 h2 where s: "rh_sasl alloc encode decode msg ?h = Some (ig, out1, h1)"
          "rh_dispatch ig msg h1 = Some (r2, out2, h2)" "rh_finish (r2, out1 @ out2, h2) = Some (r, out, h')"
        using assms src by (auto simp: rh_handle_def split_def split: Option.bind_splits)
      have "frames msg h h'"
        using k rh_sasl_frames [OF s(1)] rh_dispatch_frames(1) [OF s(2)] rh_finish_frames [OF s(3), of msg] by (blast intro: frames_trans)
      moreover have "is_await_end (rh_state h)" if "r = Inr (Some reg)"
        using that rh_finish_frames [OF s(3), of msg] rh_dispatch_frames(2) [OF s(2), of reg] rh_sasl_frames [OF s(1)] by auto
      ultimately show ?thesis by blast
    qed
  qed
  then show "frames msg h h'" and "r = Inr (Some reg) \<Longrightarrow> is_await_end (rh_state h)" by blast+
qed

section \<open>Runs\<close>

fun rh_run ::
  "(nat \<Rightarrow> nat) \<Rightarrow> (bytes \<Rightarrow> bytes) \<Rightarrow> (bytes \<Rightarrow> (bytes, 'e) result) \<Rightarrow> server_msg list \<Rightarrow> 'm reg_handler \<Rightarrow>
   'm reg_outcome option" where
  "rh_run alloc encode decode [] h = Some (Inr None, [], h)"
| "rh_run alloc encode decode (m # ms) h = do {
     (r, out, h') \<leftarrow> rh_handle alloc encode decode m h;
     if r = Inr None then do {
       (r', out', h'') \<leftarrow> rh_run alloc encode decode ms h';
       Some (r', out @ out', h'') }
     else Some (r, out, h') }"

text \<open>What the messages so far must have been.\<close>

definition traced :: "bool \<Rightarrow> server_msg list \<Rightarrow> 'm reg_handler \<Rightarrow> bool" where
  "traced needs prev h \<longleftrightarrow> rh_needs_auth h = needs \<and>
     (has_account h \<longrightarrow> (\<exists>m \<in> set prev. kind_of m = ''900'')) \<and>
     (is_await_end (rh_state h) \<longrightarrow>
        (\<exists>p m s. prev = p @ m # s \<and> kind_of m = ''001'' \<and> (needs \<longrightarrow> (\<exists>m' \<in> set p. kind_of m' = ''900''))))"

lemma traced_step:
  assumes "traced needs prev h" and "frames m h h'"
  shows "traced needs (prev @ [m]) h'"
proof -
  have "\<exists>p m' s. prev @ [m] = p @ m' # s \<and> kind_of m' = ''001'' \<and> (needs \<longrightarrow> (\<exists>m'' \<in> set p. kind_of m'' = ''900''))"
    if "is_await_end (rh_state h')"
  proof (cases "is_await_end (rh_state h)")
    case True
    then obtain p m' s where "prev = p @ m' # s" "kind_of m' = ''001''" "needs \<longrightarrow> (\<exists>m'' \<in> set p. kind_of m'' = ''900'')"
      using assms(1) by (auto simp: traced_def)
    then show ?thesis by (intro exI [of _ p] exI [of _ m'] exI [of _ "s @ [m]"]) simp
  next
    case False
    then show ?thesis
      using that assms by (intro exI [of _ prev] exI [of _ m] exI [of _ "[]"]) (auto simp: traced_def frames_def)
  qed
  with assms show ?thesis by (auto simp: traced_def frames_def)
qed

lemma run_traced:
  assumes "traced needs prev h" and "rh_run alloc encode decode ms h = Some (Inr (Some reg), out, h')"
  shows "\<exists>p m s. prev @ ms = p @ m # s \<and> kind_of m = ''001'' \<and> (needs \<longrightarrow> (\<exists>m' \<in> set p. kind_of m' = ''900''))"
  using assms
proof (induction ms arbitrary: prev h out)
  case (Cons m ms)
  then obtain r out1 h1 where h1: "rh_handle alloc encode decode m h = Some (r, out1, h1)"
    by (auto split: Option.bind_splits)
  show ?case
  proof (cases "r = Inr None")
    case True
    with Cons.prems(2) h1 obtain out2 where "rh_run alloc encode decode ms h1 = Some (Inr (Some reg), out2, h')"
      by (auto split: Option.bind_splits)
    from Cons.IH [OF traced_step [OF Cons.prems(1) rh_handle_frames(1) [OF h1]] this] show ?thesis by simp
  next
    case False
    with Cons.prems(2) h1 have "is_await_end (rh_state h)" using rh_handle_frames(2) [OF h1, of reg] by auto
    with Cons.prems(1) obtain p m' s where "prev = p @ m' # s" "kind_of m' = ''001''" "needs \<longrightarrow> (\<exists>m'' \<in> set p. kind_of m'' = ''900'')"
      by (auto simp: traced_def)
    then show ?thesis by (intro exI [of _ p] exI [of _ m'] exI [of _ "s @ m # ms"]) simp
  qed
qed simp

section \<open>Negotiation\<close>

text \<open>Groups of a request are not empty.\<close>

lemma pack_no_Nil: "cur @ cs \<noteq> [] \<Longrightarrow> [] \<notin> set (pack n cur cs)"
  by (induction n cur cs rule: pack.induct) auto

lemma cap_reply_keys:
  assumes "valid Nick nick" and "\<forall>c \<in> set g. valid Key c \<and> plain_start c"
  obtains m where "cap_parse (sm_args (cap_reply sub (Some nick) server g)) =
      Some (Inr \<lparr>cap_nick = nick, cap_subcmd = sub, cap_is_last = True, cap_caps = m\<rparr>)"
    and "fst ` set m = set g"
proof -
  have "valid Nick (target_of (Some nick))" using assms(1) by (simp add: target_of_def)
  from cap_reply_parse [OF this assms(2), of sub server] obtain m where m:
    "cap_parse (sm_args (cap_reply sub (Some nick) server g)) =
      Some (Inr \<lparr>cap_nick = nick, cap_subcmd = sub, cap_is_last = True, cap_caps = m\<rparr>)"
    "map_of m = (\<lambda>k. if k \<in> set g then Some [] else None)" by (auto simp: target_of_def)
  have "fst ` set m = dom (map_of m)" by (rule dom_map_of_conv_image_fst [symmetric])
  then have "fst ` set m = set g" by (auto simp: m(2) dom_def split: if_splits)
  with m(1) that show thesis by blast
qed

text \<open>What remains to be done when everything is acknowledged.\<close>

definition acked_state :: "'m sasl_queue \<Rightarrow> 'm reg_state" where
  "acked_state q = (case auth_from_queue q of Some a \<Rightarrow> StSasl a | None \<Rightarrow> StAwaitWelcome)"

definition acked_msgs :: "'m sasl_queue \<Rightarrow> client_msg list" where
  "acked_msgs q = [case auth_from_queue q of Some a \<Rightarrow> auth_msg a | None \<Rightarrow> the cap_end]"

lemma cap_end_Some: "\<exists>m. cap_end = Some m"
  by (simp add: cap_end_def add_literal_def from_str_def find_invalid_def invalid_defs Let_def)

text \<open>The source the handler has once it has seen a message: the first that any message had.\<close>

definition learned :: "server_msg \<Rightarrow> 'm reg_handler \<Rightarrow> 'm reg_handler" where
  "learned msg h =
     upd_reg (reg_source_update (\<lambda>_. if reg_source (rh_reg h) = None then sm_source msg else reg_source (rh_reg h))) h"

lemma learned_simps [simp]:
  "rh_state (learned msg h) = rh_state h" "rh_needs_auth (learned msg h) = rh_needs_auth h"
  "rh_nicks (learned msg h) = rh_nicks h" "reg_account (rh_reg (learned msg h)) = reg_account (rh_reg h)"
  "reg_nick (rh_reg (learned msg h)) = reg_nick (rh_reg h)" "reg_caps (rh_reg (learned msg h)) = reg_caps (rh_reg h)"
  by (simp_all add: learned_def)

lemma merged_ok: "pred_option src_ok src \<Longrightarrow> merged src = Some src"
  by (cases src) (simp_all add: merged_def owning_merged_id)

lemma rh_handle_cap:
  assumes "kind_of msg = ''CAP''" and "\<And>a. rh_state h \<noteq> StSasl a" and "pred_option src_ok (sm_source msg)"
  shows "rh_handle alloc encode decode msg h = Option.bind (rh_cap msg (learned msg h)) rh_finish"
proof -
  let ?h = "learned msg h"
  have src: "(if reg_source (rh_reg h) = None then merged (sm_source msg) else Some (reg_source (rh_reg h))) =
      Some (reg_source (rh_reg ?h))"
    using assms(3) by (simp add: merged_ok learned_def)
  have h: "upd_reg (reg_source_update (\<lambda>_. reg_source (rh_reg ?h))) h = ?h" by (simp add: learned_def)
  have "sm_kind msg \<noteq> KCmd ''PING''" using assms(1) by (auto simp: kind_as_str_def)
  then have "pong msg = (False, [])" by (simp add: pong_def)
  moreover have "rh_sasl alloc encode decode msg ?h = Some (False, [], ?h)"
    using assms(2) by (simp add: rh_sasl_def split: reg_state.splits)
  moreover have "rh_dispatch False msg ?h = rh_cap msg ?h" using assms(1) by (simp add: rh_dispatch_def)
  ultimately show ?thesis unfolding rh_handle_def src by (simp add: split_def h)
qed

lemma rh_handle_ack:
  assumes "rh_state h = StAck R q" and "valid Nick nick" and "\<forall>c \<in> set g. valid Key c \<and> plain_start c"
    and "q = [] \<Longrightarrow> rh_needs_auth h \<Longrightarrow> has_account h" and "pred_option src_ok server"
  shows "\<exists>h'. rh_handle alloc encode decode (cap_reply Ack (Some nick) server g) h =
      Some (Inr None, if R \<subseteq> set g then acked_msgs q else [], h') \<and>
    rh_state h' = (if R \<subseteq> set g then acked_state q else StAck (R - set g) q) \<and>
    rh_needs_auth h' = rh_needs_auth h \<and> reg_account (rh_reg h') = reg_account (rh_reg h)"
proof -
  let ?msg = "cap_reply Ack (Some nick) server g"
  obtain m where m: "cap_parse (sm_args ?msg) = Some (Inr \<lparr>cap_nick = nick, cap_subcmd = Ack, cap_is_last = True, cap_caps = m\<rparr>)"
    "fst ` set m = set g" using cap_reply_keys [OF assms(2,3)] by blast
  let ?st = "if R \<subseteq> set g then (case auth_from_queue q of Some a \<Rightarrow> StSasl a | None \<Rightarrow> StCapEnd) else StAck (R - set g) q"
  let ?out = "if R \<subseteq> set g then (case auth_from_queue q of Some a \<Rightarrow> [auth_msg a] | None \<Rightarrow> []) else []"
  let ?l = "learned ?msg h"
  let ?h1 = "upd_reg (\<lambda>r. r\<lparr>reg_caps := enable_all m (reg_caps r)\<rparr>) (?l\<lparr>rh_state := ?st\<rparr>)"
  have "state_ack True m (rh_state h) = (Inr (), ?out, ?st)"
    using assms(1) m(2) by (simp add: state_ack_def Let_def split: option.splits)
  then have rc: "rh_cap ?msg ?l = Some (Inr None, ?out, ?h1)" by (simp add: rh_cap_def m(1))
  have "rh_handle alloc encode decode ?msg h = Option.bind (rh_cap ?msg ?l) rh_finish"
    using assms(1,5) by (intro rh_handle_cap) (auto simp: cap_reply_def kind_as_str_def)
  then have e: "rh_handle alloc encode decode ?msg h = rh_finish (Inr None, ?out, ?h1)" by (simp only: rc bind.bind_lunit)
  have q: "auth_from_queue q = None \<Longrightarrow> q = []" by (cases q) (simp_all add: auth_from_queue_def sq_pop_def)
  obtain ce where ce: "cap_end = Some ce" using cap_end_Some by blast
  show ?thesis
    unfolding e
    by (cases "auth_from_queue q"; cases "R \<subseteq> set g")
      (use q assms(4) in \<open>auto simp: rh_finish_def acked_msgs_def acked_state_def ce\<close>)
qed

lemma acks_complete:
  assumes "rh_state h = StAck (set (concat gs)) q" and "gs \<noteq> []" and "[] \<notin> set gs" and "distinct (concat gs)"
    and "valid Nick nick" and "\<forall>c \<in> set (concat gs). valid Key c \<and> plain_start c"
    and "q = [] \<Longrightarrow> rh_needs_auth h \<Longrightarrow> has_account h" and "pred_option src_ok server"
  shows "\<exists>h'. rh_run alloc encode decode (map (cap_reply Ack (Some nick) server) gs) h = Some (Inr None, acked_msgs q, h') \<and>
    rh_state h' = acked_state q"
  using assms
proof (induction gs arbitrary: h)
  case (Cons g gs)
  let ?R = "set (concat (g # gs))"
  have disj: "set g \<inter> set (concat gs) = {}" using Cons.prems(4) by auto
  have sub: "?R \<subseteq> set g \<longleftrightarrow> gs = []"
  proof (cases gs)
    case (Cons g2 gs2)
    then obtain x where "x \<in> set (concat gs)" using Cons.prems(3) by (cases g2) auto
    then have "x \<in> ?R" "x \<notin> set g" using disj by auto
    with Cons show ?thesis by blast
  qed simp
  have diff: "?R - set g = set (concat gs)" using disj by auto
  have "\<forall>c \<in> set g. valid Key c \<and> plain_start c" using Cons.prems(6) by simp
  from rh_handle_ack [OF Cons.prems(1,5) this Cons.prems(7,8), of alloc encode decode] obtain h1 where h1:
    "rh_handle alloc encode decode (cap_reply Ack (Some nick) server g) h = Some (Inr None, if gs = [] then acked_msgs q else [], h1)"
    "rh_state h1 = (if gs = [] then acked_state q else StAck (set (concat gs)) q)" "rh_needs_auth h1 = rh_needs_auth h"
    "reg_account (rh_reg h1) = reg_account (rh_reg h)"
    unfolding sub diff by blast
  show ?case
  proof (cases "gs = []")
    case True
    then show ?thesis using h1 by simp
  next
    case False
    have "\<exists>h'. rh_run alloc encode decode (map (cap_reply Ack (Some nick) server) gs) h1 = Some (Inr None, acked_msgs q, h') \<and>
        rh_state h' = acked_state q"
      by (rule Cons.IH) (use Cons.prems False h1 in auto)
    then show ?thesis using h1(1) False by auto
  qed
qed simp

text \<open>The capabilities asked for at the end of \<open>CAP LS\<close>.\<close>

definition requested :: "bytes set \<Rightarrow> 'm sasl_queue \<Rightarrow> bytes set" where
  "requested reqs auths = (if auths = [] then reqs else insert ''sasl'' reqs)"

text \<open>The four ways in which the list of capabilities ends.\<close>

lemma rh_handle_ls:
  assumes "rh_state h = StReq require auths" and "kind_of ls = ''CAP''" and "pred_option src_ok (sm_source ls)"
    and "cap_parse (sm_args ls) = Some (Inr cm)" and "cap_subcmd cm = Ls" and "cap_is_last cm"
    and "caps' = try_insert_all (cap_caps cm) (reg_caps (rh_reg h))" and "avail = set (nm_keys fst caps')"
    and "auths' = supported_auths caps' auths" and "reqs = requested (require avail) auths'" and "R = reqs - {''sts''}"
    and "h1 = upd_reg (\<lambda>r. r\<lparr>reg_caps := caps'\<rparr>) (learned ls h)"
  shows "rh_handle alloc encode decode ls h =
    (if auths' = [] \<and> rh_needs_auth h then Some (Inl NoLogin, [], h1\<lparr>rh_state := StBroken\<rparr>)
     else if \<not> reqs \<subseteq> avail then Some (Inl (MissingCaps (reqs - avail)), [], h1\<lparr>rh_state := StBroken\<rparr>)
     else if R = {} then Some (Inr None, [the cap_end], h1\<lparr>rh_state := StAwaitWelcome\<rparr>)
     else map_option (\<lambda>out. (Inr None, out, h1\<lparr>rh_state := StAck R auths'\<rparr>))
       (req (sorted_list_of_set R) (Some (reg_nick (rh_reg h))) (reg_source (rh_reg h1))))"
proof -
  have "rh_handle alloc encode decode ls h = Option.bind (rh_cap ls (learned ls h)) rh_finish"
    using assms(1-3) by (intro rh_handle_cap) simp_all
  also have "rh_cap ls (learned ls h) = rh_request require auths h1"
    using assms(1,4-7,12) by (simp add: rh_cap_def)
  also have "rh_request require auths h1 =
    (if auths' = [] \<and> rh_needs_auth h then Some (Inl NoLogin, [], h1\<lparr>rh_state := StBroken\<rparr>)
     else if \<not> reqs \<subseteq> avail then Some (Inl (MissingCaps (reqs - avail)), [], h1\<lparr>rh_state := StBroken\<rparr>)
     else if R = {} then Some (Inr None, [], h1\<lparr>rh_state := StCapEnd\<rparr>)
     else map_option (\<lambda>out. (Inr None, out, h1\<lparr>rh_state := StAck R auths'\<rparr>))
       (req (sorted_list_of_set R) (Some (reg_nick (rh_reg h))) (reg_source (rh_reg h1))))"
    by (simp add: rh_request_def Let_def assms(8-12) requested_def sq_is_empty_def map_option_case
        split: option.split)
  finally have e: "rh_handle alloc encode decode ls h = \<dots> \<bind> rh_finish" .
  have "R = {} \<Longrightarrow> auths' = []" using assms(10,11) by (auto simp: requested_def split: if_splits)
  moreover have "rh_needs_auth h1 = rh_needs_auth h" by (simp add: assms(12))
  moreover obtain m where m: "cap_end = Some m" using cap_end_Some by blast
  ultimately show ?thesis
    unfolding e
    by (cases "req (sorted_list_of_set R) (Some (reg_nick (rh_reg h))) (reg_source (rh_reg h1))")
      (simp_all add: rh_finish_def m)
qed

section \<open>Properties\<close>

text \<open>C6: Registration completes only after the server has sent its welcome, and a handler that requires
  a login completes only if the server has reported one before the welcome.\<close>

theorem registration_needs_welcome:
  assumes "rh_run alloc encode decode ms (rh_new nicks caps needs auths) = Some (Inr (Some reg), out, h')"
  shows "\<exists>p m s. ms = p @ m # s \<and> kind_of m = ''001'' \<and> (needs \<longrightarrow> (\<exists>m' \<in> set p. kind_of m' = ''900''))"
  using run_traced [OF _ assms, of needs "[]"] by (simp add: traced_def rh_new_def reg_new_def)

definition example_welcome :: server_msg where
  "example_welcome =
     \<lparr>sm_tags = tags_new, sm_source = None, sm_kind = KNumeric ''001'', sm_args = \<lparr>words = [''me''], long = None\<rparr>\<rparr>"

definition example_motd_end :: server_msg where
  "example_motd_end =
     \<lparr>sm_tags = tags_new, sm_source = None, sm_kind = KNumeric ''376'', sm_args = \<lparr>words = [''me''], long = None\<rparr>\<rparr>"

theorem registration_needs_welcome_witness:
  "\<exists>p m s. [example_welcome, example_motd_end] = p @ m # s \<and> kind_of m = ''001''"
proof -
  have "\<exists>reg h'. rh_run (\<lambda>n. n) quad_encode quad_decode [example_welcome, example_motd_end]
      (rh_new (''me'', None) (\<lambda>_. {}) False ([] :: mech sasl_queue)) = Some (Inr (Some reg), [], h')"
    by (simp add: rh_handle_def rh_new_def reg_new_def merged_def pong_def rh_sasl_def rh_dispatch_def rh_welcome_def
        rh_finish_def example_welcome_def example_motd_end_def kind_as_str_def STAR_def from_super_def invalid_defs Let_def)
  then obtain reg h' where "rh_run (\<lambda>n. n) quad_encode quad_decode [example_welcome, example_motd_end]
      (rh_new (''me'', None) (\<lambda>_. {}) False ([] :: mech sasl_queue)) = Some (Inr (Some reg), [], h')" by blast
  from registration_needs_welcome [OF this] show ?thesis by simp
qed

end
