(* ===== verification/Defaults.thy ===== *)
theory Defaults
  imports Register
begin

text \<open>
  Options and default choices for registration, \<open>client/register/defaults.rs\<close>.  Deserialisation of the
  options is not modelled.  The identifier from the \<open>whoami\<close> crate is a parameter, absent when the
  feature is off; so are the hash and the clock of the nickname suffixes.
\<close>

section \<open>Options\<close>

record 'a options =
  op_pass :: "bytes option"
  op_nicks :: "bytes list"
  op_username :: "bytes option"
  op_realname :: "bytes option"
  op_sasl :: "'a list"
  op_allow_sasl_fail :: bool
  op_caps :: "bytes set"

definition auths :: "('a \<Rightarrow> 'm sasl_logic list option) \<Rightarrow> 'a options \<Rightarrow> ('m sasl_queue \<times> bool) option" where
  "auths logic self = do {
     q \<leftarrow> sq_from_iter logic (op_sasl self);
     let require_sasl = (\<not> (op_allow_sasl_fail self \<or> sq_is_empty q));
     Some (q, require_sasl) }"

definition options_new :: "'a options" where
  "options_new =
     \<lparr>op_pass = None, op_nicks = [], op_username = None, op_realname = None, op_sasl = [],
      op_allow_sasl_fail = False, op_caps = {}\<rparr>"

definition set_pass :: "bytes \<Rightarrow> 'a options \<Rightarrow> (unit, InvalidString) result \<times> 'a options" where
  "set_pass pass self =
     (case from_bytes Line pass of
        Inl e \<Rightarrow> (Inl e, self)
      | Inr l \<Rightarrow> (Inr (), self\<lparr>op_pass := Some l\<rparr>))"

definition add_sasl :: "'a \<Rightarrow> 'a options \<Rightarrow> 'a options" where
  "add_sasl sasl self = self\<lparr>op_sasl := op_sasl self @ [sasl]\<rparr>"

section \<open>Capabilities\<close>

definition common_caps :: "bytes set" where
  "common_caps = {''account-notify'', ''account-tag'', ''chghost'', ''extended-join'', ''extended-monitor'',
     ''invite-notify'', ''labeled-response'', ''message-tags'', ''msgid'', ''multi-prefix'', ''server-time'',
     ''setname'', ''standard-replies'', ''userhost-in-names''}"

definition default_caps :: "bytes set \<Rightarrow> bool \<Rightarrow> bool \<Rightarrow> bytes set \<Rightarrow> bytes set" where
  "default_caps caps add_common require caps_avail =
     (case (add_common, require) of
        (False, False) \<Rightarrow> caps \<inter> caps_avail
      | (False, True) \<Rightarrow> caps
      | (True, False) \<Rightarrow> (caps \<union> common_caps) \<inter> caps_avail
      | (True, True) \<Rightarrow> caps \<union> (caps_avail \<inter> common_caps))"

section \<open>Names\<close>

definition default_user_p1 :: "'o \<Rightarrow> bytes" where
  "default_user_p1 opts = ''8''"

definition default_user_p2 :: "'o \<Rightarrow> bytes" where
  "default_user_p2 opts = STAR"

definition NT_FALLBACK :: suffix where
  "NT_FALLBACK = \<lparr>strategy = Seq, suffixes = [SChar 96, Base10, Base8]\<rparr>"

definition NT_GUEST :: suffix where
  "NT_GUEST = \<lparr>strategy = Rng None, suffixes = [Base10, Base8, Base10, Base8]\<rparr>"

definition NT_BOT :: suffix where
  "NT_BOT = \<lparr>strategy = Rng None,
     suffixes = [Base10, Base16 False, Base16 False, Base16 False, Base16 False, Base16 False]\<rparr>"

definition default_client_nicks ::
  "(bytes \<Rightarrow> 64 word) \<Rightarrow> (32 word \<times> 32 word) option \<Rightarrow> bytes list \<Rightarrow> nick_gen option" where
  "default_client_nicks siphash now nicks =
     (case gen_from_iter nicks True of
        Some g \<Rightarrow> chain_using (\<lambda>p. GSuffix (suffix_transform siphash now NT_FALLBACK p)) g
      | None \<Rightarrow> chain_using (\<lambda>p. GSuffix (suffix_transform siphash now NT_GUEST p)) (GNick ''Guest''))"

definition default_client_username :: "32 word option \<Rightarrow> bytes option \<Rightarrow> bytes option" where
  "default_client_username whoami username =
     (case username of
        Some u \<Rightarrow> Some u
      | None \<Rightarrow>
          (case whoami of
             Some i \<Rightarrow> from_id_short (ucast (drop_bit 16 i XOR (i AND 0xFFFF)))
           | None \<Rightarrow> from_str User ''user''))"

definition default_client_realname :: "bytes option \<Rightarrow> bytes" where
  "default_client_realname realname = (case realname of Some r \<Rightarrow> r | None \<Rightarrow> ''???'')"

definition default_bot_nicks ::
  "(bytes \<Rightarrow> 64 word) \<Rightarrow> (32 word \<times> 32 word) option \<Rightarrow> bytes list \<Rightarrow> nick_gen" where
  "default_bot_nicks siphash now nicks =
     (let vzbnicks = GSuffix (suffix_transform siphash now NT_BOT ''VNZB'') in
      case gen_from_iter nicks True of
        Some g \<Rightarrow> gen_chain g vzbnicks
      | None \<Rightarrow> vzbnicks)"

definition default_bot_username :: "bytes option \<Rightarrow> bytes" where
  "default_bot_username username = (case username of Some u \<Rightarrow> u | None \<Rightarrow> ''vnzb_bot'')"

definition default_bot_realname :: "bytes option \<Rightarrow> bytes" where
  "default_bot_realname realname = (case realname of Some r \<Rightarrow> r | None \<Rightarrow> ''Vinezombie Bot'')"

section \<open>Registrations\<close>

definition register_as_custom ::
  "('o \<Rightarrow> bytes option) \<Rightarrow> ('o \<Rightarrow> bytes option) \<Rightarrow> ('o \<Rightarrow> bytes) \<Rightarrow> ('o \<Rightarrow> nick_gen option) \<Rightarrow>
   ('o \<Rightarrow> bytes set \<Rightarrow> bytes set) \<Rightarrow> ('o \<Rightarrow> ('m sasl_queue \<times> bool) option) \<Rightarrow> ('o, 'm) register" where
  "register_as_custom password username realname nicks caps auth =
     \<lparr>rg_password = password, rg_username = username, rg_user_p1 = default_user_p1, rg_user_p2 = default_user_p2,
      rg_realname = realname, rg_nicks = nicks, rg_caps = caps, rg_auth = auth\<rparr>"

definition register_as_client ::
  "(bytes \<Rightarrow> 64 word) \<Rightarrow> (32 word \<times> 32 word) option \<Rightarrow> 32 word option \<Rightarrow> ('a \<Rightarrow> 'm sasl_logic list option) \<Rightarrow>
   ('a options, 'm) register" where
  "register_as_client siphash now whoami logic =
     register_as_custom op_pass
       (\<lambda>opts. default_client_username whoami (op_username opts))
       (\<lambda>opts. default_client_realname (op_realname opts))
       (\<lambda>opts. default_client_nicks siphash now (op_nicks opts))
       (\<lambda>opts. default_caps (op_caps opts) True False)
       (auths logic)"

definition register_as_bot ::
  "(bytes \<Rightarrow> 64 word) \<Rightarrow> (32 word \<times> 32 word) option \<Rightarrow> ('a \<Rightarrow> 'm sasl_logic list option) \<Rightarrow>
   ('a options, 'm) register" where
  "register_as_bot siphash now logic =
     register_as_custom op_pass
       (\<lambda>opts. Some (default_bot_username (op_username opts)))
       (\<lambda>opts. default_bot_realname (op_realname opts))
       (\<lambda>opts. Some (default_bot_nicks siphash now (op_nicks opts)))
       (\<lambda>opts. default_caps (op_caps opts) False True)
       (auths logic)"

section \<open>Facts\<close>

lemma default_caps_optional: "default_caps caps c False avail \<subseteq> avail"
  by (cases c) (auto simp: default_caps_def)

lemma default_caps_required: "caps \<subseteq> default_caps caps c True avail"
  by (cases c) (auto simp: default_caps_def)

lemma default_caps_common: "default_caps caps c True avail \<subseteq> avail \<longleftrightarrow> caps \<subseteq> avail"
  by (cases c) (auto simp: default_caps_def)

lemma default_client_nicks_total: "\<exists>g. default_client_nicks siphash now nicks = Some g"
  by (auto simp: default_client_nicks_def chain_using_def gen_from_iter_def split: option.splits list.splits)

text \<open>The first nickname and the user name are always there, so the burst can be sent.\<close>

lemma default_client_username_total: "\<exists>u. default_client_username whoami username = Some u"
  using from_id_short_total
  by (auto simp: default_client_username_def from_str_def find_invalid_def invalid_defs arg_first_check_def split: option.splits)

lemma needs_auth_lost:
  assumes "register_handler r opts = Some (h, out)" and "rg_auth r = auths logic"
  shows "\<not> rh_needs_auth h"
  using assms by (auto simp: register_handler_def auths_def rh_new_def split: Option.bind_splits)

section \<open>Properties\<close>

text \<open>The handlers of the standard registrations never require a login, also when the options name
  authenticators and do not allow them to fail: the flag is dropped unless the queue is empty, and for an
  empty queue the options do not set it.\<close>

lemma login_not_enforced:
  assumes "register_handler (register_as_client siphash now whoami logic) opts = Some (h, out) \<or>
    register_handler (register_as_bot siphash now logic) opts = Some (h, out)"
  shows "\<not> rh_needs_auth h"
  using assms needs_auth_lost [of "register_as_client siphash now whoami logic" opts h out logic]
    needs_auth_lost [of "register_as_bot siphash now logic" opts h out logic]
  by (auto simp: register_as_client_def register_as_bot_def register_as_custom_def)

definition example_options :: "AnySasl options" where
  "example_options = options_new\<lparr>op_nicks := [''me''], op_sasl := [AnyExternal ''me'']\<rparr>"

end
