(* ===== verification/HandlerMake.thy ===== *)
theory HandlerMake
  imports Channels Serde Defaults
begin

text \<open>
  What a handler needs before it runs: its channel (\<open>make_channel\<close> of every handler of the crate, \<open>client/handlers*\<close>,
  \<open>client/auth/handler.rs\<close>, \<open>client/register.rs\<close>), its first messages where it has none, the parsers of \<open>YieldParsed\<close> that map
  values, and the conversions of queues, sinks and errors next to them.  A channel specification is a record with
  what \<open>new_oneshot\<close> and \<open>new_queue\<close> make: a sender and a receiver.
\<close>

section \<open>Channels of handlers\<close>

record ('o, 'q, 'v, 'ro, 'rq) channel_spec =
  new_oneshot :: "('o, 'v) sender \<times> 'ro"
  new_queue :: "('q, 'v) sender \<times> 'rq"

definition yield_all_make_channel :: "('o, 'q, 'v, 'ro, 'rq) channel_spec \<Rightarrow> ('q, 'v) sender \<times> 'rq" where
  "yield_all_make_channel spec = new_queue spec"

definition yield_parsed_make_channel :: "('o, 'q, 'v, 'ro, 'rq) channel_spec \<Rightarrow> ('q, 'v) sender \<times> 'rq" where
  "yield_parsed_make_channel spec = new_queue spec"

definition ping_make_channel :: "('o, 'q, 'v, 'ro, 'rq) channel_spec \<Rightarrow> ('o, 'v) sender \<times> 'ro" where
  "ping_make_channel spec = new_oneshot spec"

definition autopong_make_channel :: "('o, 'q, 'v, 'ro, 'rq) channel_spec \<Rightarrow> (unit, 'v) sender \<times> unit" where
  "autopong_make_channel spec = (closed_sender, ())"

definition ctcp_make_channel :: "('o, 'q, 'v, 'ro, 'rq) channel_spec \<Rightarrow> (unit, 'v) sender \<times> unit" where
  "ctcp_make_channel spec = (closed_sender, ())"

definition track_make_channel :: "('o, 'q, 'v, 'ro, 'rq) channel_spec \<Rightarrow> (unit, 'v) sender \<times> unit" where
  "track_make_channel spec = (closed_sender, ())"

definition auth_make_channel :: "('o, 'q, 'v, 'ro, 'rq) channel_spec \<Rightarrow> ('o, 'v) sender \<times> 'ro" where
  "auth_make_channel spec = new_oneshot spec"

definition auth_one_make_channel :: "('o, 'q, 'v, 'ro, 'rq) channel_spec \<Rightarrow> ('o, 'v) sender \<times> 'ro" where
  "auth_one_make_channel spec = new_oneshot spec"

definition register_make_channel :: "('o, 'q, 'v, 'ro, 'rq) channel_spec \<Rightarrow> ('o, 'v) sender \<times> 'ro" where
  "register_make_channel spec = new_oneshot spec"

text \<open>A handler that makes itself has the channel of its type.\<close>

definition self_made_channel ::
  "(('o, 'q, 'v, 'ro, 'rq) channel_spec \<Rightarrow> ('c, 'v) sender \<times> 'r) \<Rightarrow> ('o, 'q, 'v, 'ro, 'rq) channel_spec \<Rightarrow> ('c, 'v) sender \<times> 'r" where
  "self_made_channel make_channel spec = make_channel spec"

definition SyncChannels :: "((bool \<times> 'v inner) \<times> th_ptr \<times> bool, 'v mpsc, 'v, unit, unit) channel_spec" where
  "SyncChannels = \<lparr>new_oneshot = (sync_new_oneshot, ()), new_queue = (sync_new_queue, ())\<rparr>"

text \<open>The first messages of the handlers that have none.\<close>

definition yield_all_queue_msgs :: "client_state \<Rightarrow> ('a, 'l) queue_guard \<Rightarrow> ('a, 'l) queue_guard" where
  "yield_all_queue_msgs st g = g"

definition yield_parsed_queue_msgs :: "client_state \<Rightarrow> ('a, 'l) queue_guard \<Rightarrow> ('a, 'l) queue_guard" where
  "yield_parsed_queue_msgs st g = g"

definition autopong_queue_msgs :: "client_state \<Rightarrow> ('a, 'l) queue_guard \<Rightarrow> ('a, 'l) queue_guard" where
  "autopong_queue_msgs st g = g"

definition ctcp_queue_msgs :: "client_state \<Rightarrow> ('a, 'l) queue_guard \<Rightarrow> ('a, 'l) queue_guard" where
  "ctcp_queue_msgs st g = g"

section \<open>Handlers (\<open>client/handlers.rs\<close>, \<open>client/handlers/autoreply.rs\<close>, \<open>client/handlers/ping.rs\<close>)\<close>

definition yield_parsed_just_flat_map ::
  "bytes \<Rightarrow> (server_msg \<Rightarrow> ('u, ParseError) result) \<Rightarrow> ('u \<Rightarrow> 'p \<Rightarrow> 'v list \<times> 'p) \<Rightarrow> 'p \<Rightarrow> ('p, 'v) yield_parsed" where
  "yield_parsed_just_flat_map kind from_union f p0 =
     yield_parsed_just kind \<lparr>yp_state = p0, yp_parse = parser_flat_map from_union f\<rparr>"

text \<open>A function to options is one to sequences of at most one element.\<close>

definition opt_seq :: "('u \<Rightarrow> 'p \<Rightarrow> 'v option \<times> 'p) \<Rightarrow> 'u \<Rightarrow> 'p \<Rightarrow> 'v list \<times> 'p" where
  "opt_seq f u p = (let (r, p') = f u p in (case r of None \<Rightarrow> [] | Some v \<Rightarrow> [v], p'))"

definition yield_parsed_just_map ::
  "bytes \<Rightarrow> (server_msg \<Rightarrow> ('u, ParseError) result) \<Rightarrow> ('u \<Rightarrow> 'p \<Rightarrow> 'v option \<times> 'p) \<Rightarrow> 'p \<Rightarrow> ('p, 'v) yield_parsed" where
  "yield_parsed_just_map kind from_union f p0 = yield_parsed_just_flat_map kind from_union (opt_seq f) p0"

definition yield_parsed_with_flat_map ::
  "bytes \<Rightarrow> (server_msg \<Rightarrow> ('u, ParseError) result) \<Rightarrow> ('u \<Rightarrow> 'p \<Rightarrow> 'v list \<times> 'p) \<Rightarrow> 'p \<Rightarrow> ('p, 'v) yield_parsed \<Rightarrow> ('p, 'v) yield_parsed" where
  "yield_parsed_with_flat_map kind from_union f p0 m =
     yield_parsed_with kind \<lparr>yp_state = p0, yp_parse = parser_flat_map from_union f\<rparr> m"

definition yield_parsed_with_map ::
  "bytes \<Rightarrow> (server_msg \<Rightarrow> ('u, ParseError) result) \<Rightarrow> ('u \<Rightarrow> 'p \<Rightarrow> 'v option \<times> 'p) \<Rightarrow> 'p \<Rightarrow> ('p, 'v) yield_parsed \<Rightarrow> ('p, 'v) yield_parsed" where
  "yield_parsed_with_map kind from_union f p0 m = yield_parsed_with_flat_map kind from_union (opt_seq f) p0 m"

definition yield_parsed_wants_owning :: "('p, 'v) yield_parsed \<Rightarrow> bool" where
  "yield_parsed_wants_owning m \<longleftrightarrow> True"

text \<open>\<open>ctcp_version_handler!\<close>, with the three variables the build sets.\<close>

definition line_or_default :: "bytes \<Rightarrow> bytes" where
  "line_or_default s = unwrap_or [] (from_bytes Line s)"

definition ctcp_version_handler :: "bytes \<Rightarrow> bytes \<Rightarrow> bytes \<Rightarrow> ctcp_version" where
  "ctcp_version_handler pkg version repository =
     \<lparr>cv_version = line_or_default (pkg @ '' v'' @ version), cv_source = line_or_default repository\<rparr>"

definition ping_default :: "nat \<Rightarrow> nat" where
  "ping_default now = now"

section \<open>Queues, adjusters and sinks (\<open>client/queue.rs\<close>, \<open>client/sink.rs\<close>, \<open>client/logic.rs\<close>)\<close>

definition queue_default :: "nat \<Rightarrow> ('a, 'l) queue" where
  "queue_default now = queue_new now"

definition queue_from_iter :: "nat \<Rightarrow> client_msg list \<Rightarrow> ('a, 'l) queue" where
  "queue_from_iter now ms = from_queue now ms"

definition queue_from_vec :: "nat \<Rightarrow> client_msg list \<Rightarrow> ('a, 'l) queue" where
  "queue_from_vec now ms = from_queue now ms"

definition queue_from_deque :: "nat \<Rightarrow> client_msg list \<Rightarrow> ('a, 'l) queue" where
  "queue_from_deque now ms = from_queue now ms"

definition qg_is_using_labeler :: "('a, 'l) queue_guard \<Rightarrow> bool" where
  "qg_is_using_labeler g \<longleftrightarrow> q_labeler (qg_queue g) \<noteq> None"

definition multi_is_empty :: "'a multi_adjuster \<Rightarrow> bool" where
  "multi_is_empty m \<longleftrightarrow> m = []"

definition multi_len :: "'a multi_adjuster \<Rightarrow> nat" where
  "multi_len m = length m"

text \<open>A closure is a sink: it is called with the message.\<close>

definition closure_send :: "(client_msg \<Rightarrow> 's \<Rightarrow> 's) \<Rightarrow> client_msg \<Rightarrow> 's \<Rightarrow> 's" where
  "closure_send f msg s = f msg s"

definition sasl_queue_from_vec :: "'m sasl_logic list \<Rightarrow> 'm sasl_logic list" where
  "sasl_queue_from_vec v = v"

definition any_from_external :: "bytes \<Rightarrow> AnySasl" where
  "any_from_external s = AnyExternal s"

definition any_from_password :: "password \<Rightarrow> AnySasl" where
  "any_from_password s = AnyPassword s"

section \<open>Errors of handlers\<close>

definition no_handler_display :: string where
  "no_handler_display = ''handler intentionally not created''"

definition end_of_nicks_display :: string where
  "end_of_nicks_display = ''no more nicknames''"

fun broken_display :: "broken_cause \<Rightarrow> string" where
  "broken_display (BrokenText t) = t"
| "broken_display (BrokenParse e) = parse_error_display e"

text \<open>The capabilities of a set are shown in order, with a separator between.\<close>

fun join_with :: "string \<Rightarrow> string list \<Rightarrow> string" where
  "join_with sep [] = []"
| "join_with sep [x] = x"
| "join_with sep (x # xs) = x @ sep @ join_with sep xs"

fun reg_error_display :: "reg_error \<Rightarrow> string" where
  "reg_error_display (NoAccess l) = ''access denied: '' @ show_bytes l"
| "reg_error_display NoNicks = ''no fallback nicks remaining''"
| "reg_error_display NoLogin = ''failed to log in''"
| "reg_error_display (ServerError e) = ''server error: '' @ server_display e"
| "reg_error_display (RegBroken e) = ''invalid message: '' @ broken_display e"
| "reg_error_display (Redirect s p i) =
     ''redirected to '' @ show_bytes s @ '':'' @ fmt_base 10 p @ '': '' @ show_bytes i"
| "reg_error_display (MissingCaps c) =
     ''missing required capabilities: '' @ join_with '', '' (map show_bytes (sorted_list_of_set c))"

fun reg_error_source :: "reg_error \<Rightarrow> broken_cause option" where
  "reg_error_source (RegBroken e) = Some e"
| "reg_error_source _ = None"

datatype auth_io_kind = PermissionDenied | AuthInvalidData | AuthNotSupported

definition auth_error_io :: "auth_error \<Rightarrow> auth_io_kind \<times> string" where
  "auth_error_io e =
     (case e of
        AuthFail r \<Rightarrow> (PermissionDenied, lossy r)
      | AuthBroken _ \<Rightarrow> (AuthInvalidData, auth_error_display e)
      | AuthUnsupported \<Rightarrow> (AuthNotSupported, auth_error_display e))"

section \<open>Lemmas\<close>

text \<open>The handlers that report at most once get a oneshot, the others a queue, and those with nothing to report a sender
  that is closed; every sender of the synchronous channels keeps the contract of senders.\<close>

lemma make_channel_contracts:
  "sender_contract (snd_send (fst (ping_make_channel SyncChannels))) (snd_may_send (fst (ping_make_channel SyncChannels)))"
  "sender_contract (snd_send (fst (yield_all_make_channel SyncChannels))) (snd_may_send (fst (yield_all_make_channel SyncChannels)))"
  "sender_contract (snd_send (fst (autopong_make_channel spec))) (snd_may_send (fst (autopong_make_channel spec)))"
  using parked_ch.sender_contract_axioms mpsc_ch.sender_contract_axioms closed_ch.sender_contract_axioms
  by (simp_all add: ping_make_channel_def yield_all_make_channel_def autopong_make_channel_def SyncChannels_def
      sync_new_oneshot_def sync_new_queue_def mpsc_sender_def default_may_send_def [abs_def] closed_sender_def)

lemma line_or_default_valid: "valid Line (line_or_default s)"
  by (auto simp: line_or_default_def from_bytes_def valid_def split: option.split) (simp add: find_invalid_def)

text \<open>What a mapped parser yields for a message of its kind is what the function makes of the parsed value.\<close>

lemma with_flat_map_get:
  "fm_ok fst m \<Longrightarrow> fm_get fst (yield_parsed_with_flat_map kind from_union f p0 m) kind =
     Some (kind, \<lparr>yp_state = p0, yp_parse = parser_flat_map from_union f\<rparr>)"
  using fm_insert_spec [of fst m "(kind, \<lparr>yp_state = p0, yp_parse = parser_flat_map from_union f\<rparr>)"]
  by (simp add: yield_parsed_with_flat_map_def yield_parsed_with_def fm_insert_def fm_get_map)

end
