(* ===== verification/NameTables.thy ===== *)
theory NameTables
  imports Isupport
begin

text \<open>
  The names of \<open>names/cmd.rs\<close>, \<open>names/cap.rs\<close> and \<open>names/isupport.rs\<close>: the macros that define them write each as an
  unchecked constant.  A name is a unit struct; it is modelled by the string it stands in for.  The name
  classes of \<open>names.rs\<close>, the conversions and comparisons of names, numerics and message kinds, and the iterator
  over the keys of a name map (\<open>names/types.rs\<close>).
\<close>

section \<open>Name classes (\<open>names.rs\<close>)\<close>

text \<open>The tag of a union, and the union after a write through \<open>get_tag_mut\<close>.\<close>

definition client_tag_mut :: "(bytes \<Rightarrow> bytes) \<Rightarrow> client_msg \<Rightarrow> client_msg" where
  "client_tag_mut f m = m\<lparr>cm_cmd := f (cm_cmd m)\<rparr>"

definition server_tag_mut :: "(ServerMsgKindRaw \<Rightarrow> ServerMsgKindRaw) \<Rightarrow> server_msg \<Rightarrow> server_msg" where
  "server_tag_mut f m = m\<lparr>sm_kind := f (sm_kind m)\<rparr>"

definition isupport_tag :: "bytes \<times> bytes \<Rightarrow> bytes" where
  "isupport_tag u = fst u"

definition isupport_tag_mut :: "(bytes \<Rightarrow> bytes) \<Rightarrow> bytes \<times> bytes \<Rightarrow> bytes \<times> bytes" where
  "isupport_tag_mut f u = (f (fst u), snd u)"

definition msgtag_tag :: "bytes \<times> bytes \<Rightarrow> bytes" where
  "msgtag_tag u = fst u"

definition msgtag_tag_mut :: "(bytes \<Rightarrow> bytes) \<Rightarrow> bytes \<times> bytes \<Rightarrow> bytes \<times> bytes" where
  "msgtag_tag_mut f u = (f (fst u), snd u)"

definition cap_tag :: "bytes \<times> bytes \<Rightarrow> bytes" where
  "cap_tag u = fst u"

definition cap_tag_mut :: "(bytes \<Rightarrow> bytes) \<Rightarrow> bytes \<times> bytes \<Rightarrow> bytes \<times> bytes" where
  "cap_tag_mut f u = (f (fst u), snd u)"

section \<open>Commands (\<open>names/cmd.rs\<close>)\<close>

definition client_only_cmds :: "bytes list" where
  "client_only_cmds =
     [''ACCEPT'', ''ADMIN'', ''CHALLENGE'', ''CHATHISTORY'', ''HELP'', ''INFO'', ''KILL'', ''KNOCK'', ''LINKS'', ''LIST'',
      ''LUSERS'', ''MONITOR'', ''MAP'', ''MOTD'', ''NAMES'', ''OPER'', ''PASS'', ''STATS'', ''TIME'', ''USER'', ''USERHOST'',
      ''VERSION'', ''WEBIRC'', ''WHO'', ''WHOIS'', ''WHOWAS'']"

definition server_only_cmds :: "bytes list" where
  "server_only_cmds = [''ACCOUNT'', ''CHGHOST'', ''ERROR'', ''FAIL'', ''NOTE'', ''WARN'']"

definition both_cmds :: "bytes list" where
  "both_cmds =
     [''AUTHENTICATE'', ''AWAY'', ''BATCH'', ''CAP'', ''INVITE'', ''JOIN'', ''KICK'', ''MODE'', ''NICK'', ''NOTICE'', ''PART'',
      ''PING'', ''PONG'', ''PRIVMSG'', ''QUIT'', ''REGISTER'', ''SETNAME'', ''TAGMSG'', ''TOPIC'', ''VERIFY'', ''WALLOPS'']"

text \<open>The structs that \<open>defn_cmd!\<close> defines, and those that implement \<open>Name\<close> for each class.\<close>

definition all_cmds :: "bytes list" where
  "all_cmds = client_only_cmds @ server_only_cmds @ both_cmds"

definition client_names :: "bytes list" where
  "client_names = client_only_cmds @ both_cmds"

definition server_names :: "bytes list" where
  "server_names = server_only_cmds @ both_cmds"

definition as_cmd :: "bytes \<Rightarrow> bytes" where
  "as_cmd n = n"

definition cmd_display :: "bytes \<Rightarrow> bytes" where
  "cmd_display n = n"

definition cmd_eq :: "bytes \<Rightarrow> bytes \<Rightarrow> bool" where
  "cmd_eq n other \<longleftrightarrow> as_cmd n = other"

definition as_kind :: "bytes \<Rightarrow> ServerMsgKindRaw" where
  "as_kind n = KCmd n"

definition kind_name_eq :: "bytes \<Rightarrow> ServerMsgKindRaw \<Rightarrow> bool" where
  "kind_name_eq n other \<longleftrightarrow> as_kind n = other"

definition client_as_raw :: "bytes \<Rightarrow> bytes" where
  "client_as_raw n = as_cmd n"

definition server_as_raw :: "bytes \<Rightarrow> ServerMsgKindRaw" where
  "server_as_raw n = as_kind n"

section \<open>Capabilities and tokens (\<open>names/cap.rs\<close>, \<open>names/isupport.rs\<close>)\<close>

text \<open>A capability is written under one identifier and stands in for another string.\<close>

definition cap_names :: "(string \<times> bytes) list" where
  "cap_names =
     [(''ACCOUNT_NOTIFY'', ''account-notify''), (''ACCOUNT_TAG'', ''account-tag''), (''BATCH'', ''batch''),
      (''CHGHOST'', ''chghost''), (''ECHO_MESSAGE'', ''echo-message''), (''EXTENDED_JOIN'', ''extended-join''),
      (''EXTENDED_MONITOR'', ''extended-monitor''), (''INVITE_NOTIFY'', ''invite-notify''),
      (''LABELED_RESPONSE'', ''labeled-response''), (''MESSAGE_TAGS'', ''message-tags''), (''MSGID'', ''msgid''),
      (''MULTI_PREFIX'', ''multi-prefix''), (''SASL'', ''sasl''), (''SERVER_TIME'', ''server-time''), (''SETNAME'', ''setname''),
      (''STANDARD_REPLIES'', ''standard-replies''), (''STS'', ''sts''), (''USERHOST_IN_NAMES'', ''userhost-in-names'')]"

definition cap_as_key :: "string \<times> bytes \<Rightarrow> bytes" where
  "cap_as_key n = snd n"

definition cap_name_display :: "string \<times> bytes \<Rightarrow> bytes" where
  "cap_name_display n = fst n"

definition cap_name_eq :: "string \<times> bytes \<Rightarrow> bytes \<Rightarrow> bool" where
  "cap_name_eq n other \<longleftrightarrow> cap_as_key n = other"

definition cap_as_raw :: "string \<times> bytes \<Rightarrow> bytes" where
  "cap_as_raw n = cap_as_key n"

definition isupport_names :: "bytes list" where
  "isupport_names = unitary_names @ u16_names @ u32_option_names @ map fst mode_names @ [''NETWORK'', ''CHANMODES'', ''PREFIX'', ''USERMODES'']"

definition isupport_as_key :: "bytes \<Rightarrow> bytes" where
  "isupport_as_key n = n"

definition isupport_display :: "bytes \<Rightarrow> bytes" where
  "isupport_display n = n"

definition isupport_eq :: "bytes \<Rightarrow> bytes \<Rightarrow> bool" where
  "isupport_eq n other \<longleftrightarrow> isupport_as_key n = other"

definition isupport_as_raw :: "bytes \<Rightarrow> bytes" where
  "isupport_as_raw n = isupport_as_key n"

section \<open>Kinds and numerics (\<open>ircmsg/servermsgkind.rs\<close>, \<open>ircmsg/numeric.rs\<close>)\<close>

definition kind_from_cmd :: "bytes \<Rightarrow> ServerMsgKindRaw" where
  "kind_from_cmd c = KCmd c"

definition kind_from_numeric :: "numeric \<Rightarrow> ServerMsgKindRaw" where
  "kind_from_numeric n = KNumeric n"

definition kind_eq_str :: "ServerMsgKindRaw \<Rightarrow> bytes \<Rightarrow> bool" where
  "kind_eq_str k other \<longleftrightarrow> kind_as_arg k = other"

definition kind_eq_slice :: "ServerMsgKindRaw \<Rightarrow> bytes \<Rightarrow> bool" where
  "kind_eq_slice k other \<longleftrightarrow> kind_as_arg k = other"

definition kind_eq_cmd :: "ServerMsgKindRaw \<Rightarrow> bytes \<Rightarrow> bool" where
  "kind_eq_cmd k other = (case k of KCmd cmd \<Rightarrow> cmd = other | KNumeric _ \<Rightarrow> False)"

definition kind_eq_numeric :: "ServerMsgKindRaw \<Rightarrow> numeric \<Rightarrow> bool" where
  "kind_eq_numeric k other = (case k of KNumeric num \<Rightarrow> num = other | KCmd _ \<Rightarrow> False)"

text \<open>\<open>Hash\<close> feeds the bytes of a slice to the hasher, with their number.\<close>

definition slice_hash :: "(nat \<Rightarrow> bytes \<Rightarrow> 'h \<Rightarrow> 'h) \<Rightarrow> bytes \<Rightarrow> 'h \<Rightarrow> 'h" where
  "slice_hash feed s h = feed (length s) s h"

definition numeric_hash :: "(nat \<Rightarrow> bytes \<Rightarrow> 'h \<Rightarrow> 'h) \<Rightarrow> numeric \<Rightarrow> 'h \<Rightarrow> 'h" where
  "numeric_hash feed n h = slice_hash feed n h"

definition kind_hash :: "(nat \<Rightarrow> bytes \<Rightarrow> 'h \<Rightarrow> 'h) \<Rightarrow> ServerMsgKindRaw \<Rightarrow> 'h \<Rightarrow> 'h" where
  "kind_hash feed k h = (case k of KNumeric n \<Rightarrow> numeric_hash feed n h | KCmd c \<Rightarrow> slice_hash feed c h)"

definition numeric_as_bytes :: "numeric \<Rightarrow> bytes" where
  "numeric_as_bytes n = n"

definition numeric_as_str :: "numeric \<Rightarrow> bytes" where
  "numeric_as_str n = numeric_as_bytes n"

definition numeric_write :: "numeric \<Rightarrow> bytes \<Rightarrow> bytes" where
  "numeric_write n out = out @ numeric_as_bytes n"

definition numeric_display :: "numeric \<Rightarrow> bytes" where
  "numeric_display n = numeric_as_str n"

text \<open>\<open>TryFrom<u16>\<close>: the error of a number is that of the conversion to \<open>u8\<close>; unwrapping it panics when that succeeds.\<close>

definition numeric_try_from :: "16 word \<Rightarrow> (numeric, unit) result option" where
  "numeric_try_from v =
     (case from_int v of
        Some n \<Rightarrow> Some (Inr n)
      | None \<Rightarrow> if unat v < 256 then None else Some (Inl ()))"

section \<open>Name maps (\<open>names/types.rs\<close>)\<close>

text \<open>\<open>get_both_mut\<close> with what the caller writes through it, and removal by name.\<close>

definition get_both_mut ::
  "('u \<Rightarrow> bytes) \<Rightarrow> bytes \<Rightarrow> ('u \<Rightarrow> ('t, ParseError) result) \<Rightarrow> ('v \<Rightarrow> 'v) \<Rightarrow> ('u, 'v) name_map \<Rightarrow>
   ('t, ParseError) result option \<times> ('u, 'v) name_map" where
  "get_both_mut tag k from_union f m =
     (case get_impl (extract_key tag) m (length m) k of
        None \<Rightarrow> (None, m)
      | Some i \<Rightarrow> (Some (from_union (fst (m ! i))), m[i := (fst (m ! i), f (snd (m ! i)))]))"

definition nm_remove ::
  "('u \<Rightarrow> bytes) \<Rightarrow> bytes \<Rightarrow> ('u \<times> 'v) guard \<Rightarrow> (('u \<times> 'v) option \<times> ('u \<times> 'v) guard) option" where
  "nm_remove tag name g = remove_raw tag name g"

text \<open>The iterator over the keys is the slice of the entries that are left.\<close>

definition nmi_next :: "('u \<Rightarrow> bytes) \<Rightarrow> ('u \<times> 'v) list \<Rightarrow> bytes option \<times> ('u \<times> 'v) list" where
  "nmi_next tag s = (case s of [] \<Rightarrow> (None, s) | e # rest \<Rightarrow> (Some (tag (fst e)), rest))"

definition nmi_next_back :: "('u \<Rightarrow> bytes) \<Rightarrow> ('u \<times> 'v) list \<Rightarrow> bytes option \<times> ('u \<times> 'v) list" where
  "nmi_next_back tag s = (if s = [] then (None, s) else (Some (tag (fst (last s))), butlast s))"

definition nmi_size_hint :: "('u \<times> 'v) list \<Rightarrow> nat \<times> nat option" where
  "nmi_size_hint s = (let size = length s in (size, Some size))"

section \<open>The unchecked constants are valid\<close>

lemma all_cmds_valid: "\<forall>n \<in> set all_cmds. valid Cmd n"
  by code_simp

lemma cap_names_valid: "\<forall>n \<in> set cap_names. valid Key (cap_as_key n)"
  by code_simp

lemma isupport_names_valid: "\<forall>n \<in> set isupport_names. valid Key (isupport_as_key n)"
  by code_simp

lemma names_distinct: "distinct all_cmds" "distinct (map fst cap_names)" "distinct (map snd cap_names)" "distinct isupport_names"
  by code_simp+

lemma unary_commands_are_names: "set (map fst basic_unary_cmds) \<subseteq> set both_cmds"
  by code_simp

lemma client_names_cmds: "set client_names \<subseteq> set all_cmds" "set server_names \<subseteq> set all_cmds"
  by (auto simp: client_names_def server_names_def all_cmds_def)

text \<open>\<open>Name::as_raw\<close> of two names is the same only for the same name.\<close>

lemma as_raw_inject: "server_as_raw m = server_as_raw n \<longleftrightarrow> m = n" "client_as_raw m = client_as_raw n \<longleftrightarrow> m = n"
  by (simp_all add: server_as_raw_def as_kind_def client_as_raw_def as_cmd_def)

text \<open>The display of a capability is its identifier and not the capability.\<close>

lemma cap_display_differs: "n \<in> set cap_names \<Longrightarrow> cap_name_display n \<noteq> cap_as_key n"
proof -
  have "\<forall>n \<in> set cap_names. cap_name_display n \<noteq> cap_as_key n" by code_simp
  then show "n \<in> set cap_names \<Longrightarrow> ?thesis" by blast
qed

section \<open>Comparing kinds\<close>

text \<open>The comparisons of a kind agree with each other and with its hash; a numeric is never taken for a command.\<close>

lemma kind_eq_agree:
  "kind_eq_str k s \<longleftrightarrow> kind_borrow k = s" "kind_eq_slice k s \<longleftrightarrow> kind_borrow k = s"
  "kind_eq_cmd k c \<longleftrightarrow> k = kind_from_cmd c" "kind_eq_numeric k n \<longleftrightarrow> k = kind_from_numeric n"
  "kind_name_eq c k \<longleftrightarrow> kind_eq_cmd k c"
  by (cases k; simp add: kind_eq_str_def kind_eq_slice_def kind_as_arg_def kind_as_str_def kind_borrow_def kind_eq_cmd_def
      kind_from_cmd_def kind_eq_numeric_def kind_from_numeric_def kind_name_eq_def as_kind_def eq_commute)+

lemma kind_hash_borrow: "kind_hash feed k h = slice_hash feed (kind_borrow k) h"
  by (cases k) (simp_all add: kind_hash_def kind_borrow_def numeric_hash_def)

lemma numeric_try_from_total: "\<exists>r. numeric_try_from v = Some r \<and> (r = Inl () \<longleftrightarrow> 1000 \<le> unat v)"
  by (auto simp: numeric_try_from_def from_int_def word_less_nat_alt)

section \<open>Iterating over keys\<close>

text \<open>A run of the iterator from both ends: what came from the front, what came from the back, and what is left.\<close>

fun nmi_run :: "('u \<Rightarrow> bytes) \<Rightarrow> bool list \<Rightarrow> ('u \<times> 'v) list \<Rightarrow> bytes option list \<times> bytes option list \<times> ('u \<times> 'v) list" where
  "nmi_run tag [] s = ([], [], s)"
| "nmi_run tag (front # ps) s =
     (let (r, s') = (if front then nmi_next tag s else nmi_next_back tag s); (fs, bs, s'') = nmi_run tag ps s'
      in if front then (r # fs, bs, s'') else (fs, r # bs, s''))"

definition somes :: "'a option list \<Rightarrow> 'a list" where
  "somes xs = map the (filter (\<lambda>x. x \<noteq> None) xs)"

lemma somes_simps [simp]: "somes [] = []" "somes (None # xs) = somes xs" "somes (Some x # xs) = x # somes xs"
  by (simp_all add: somes_def)

lemma nmi_run_keys:
  "nmi_run tag ps s = (fs, bs, rest) \<Longrightarrow>
   somes fs @ nm_keys tag rest @ rev (somes bs) = nm_keys tag s \<and> length rest = length s - length ps"
proof (induction tag ps s arbitrary: fs bs rest rule: nmi_run.induct)
  case (2 tag front ps s)
  show ?case
  proof (cases "s = []")
    case True
    with 2 show ?thesis
      by (cases front) (fastforce simp: nmi_next_def nmi_next_back_def split: prod.splits)+
  next
    case False
    show ?thesis
    proof (cases front)
      case True
      with False obtain e s' where s: "s = e # s'" by (cases s) auto
      with 2 True show ?thesis by (fastforce simp: nmi_next_def nm_keys_def split: prod.splits)
    next
      case rear: False
      from False obtain s' e where s: "s = s' @ [e]" by (metis rev_exhaust)
      with 2 rear show ?thesis by (fastforce simp: nmi_next_back_def nm_keys_def split: prod.splits)
    qed
  qed
qed simp

section \<open>Properties\<close>

text \<open>the names are sound.  Every command, capability and token that the macros write without a check satisfies the rules
  of its type, no two are the same, and a message whose first word is the name of a command is given that name
  by the parsers of both directions.\<close>

lemma names_sound:
  "(\<forall>n \<in> set all_cmds. valid Cmd (as_cmd n)) \<and> (\<forall>n \<in> set cap_names. valid Key (cap_as_key n)) \<and>
   (\<forall>n \<in> set isupport_names. valid Key (isupport_as_key n)) \<and>
   distinct all_cmds \<and> distinct (map cap_as_key cap_names) \<and> distinct isupport_names \<and>
   (\<forall>n \<in> set client_names. client_parse_kind n = Inr (client_as_raw n)) \<and>
   (\<forall>n \<in> set server_names. server_parse_kind n = Inr (server_as_raw n))"
proof -
  have v: "\<forall>n \<in> set all_cmds. valid Cmd n" by (rule all_cmds_valid)
  then have "\<forall>n \<in> set client_names. client_parse_kind n = Inr (client_as_raw n)"
    using client_names_cmds(1) by (auto simp: client_parse_kind_def cmd_from_word_cmd client_as_raw_def as_cmd_def)
  moreover have "\<forall>n \<in> set server_names. server_parse_kind n = Inr (server_as_raw n)"
  proof
    fix n
    assume "n \<in> set server_names"
    with v client_names_cmds(2) have "kind_ok (KCmd n)" by (auto simp: kind_ok_def)
    from server_parse_kind_text [OF this] show "server_parse_kind n = Inr (server_as_raw n)"
      by (simp add: kind_as_arg_def kind_as_str_def server_as_raw_def as_kind_def)
  qed
  moreover have "cap_as_key = snd" by (auto simp: cap_as_key_def)
  ultimately show ?thesis
    using v cap_names_valid isupport_names_valid names_distinct by (simp add: as_cmd_def)
qed

end
