(* ===== verification/Conn.thy ===== *)
theory Conn
  imports ClientLogic
begin

text \<open>
  Connections: server addresses and message buffers (\<open>client/conn.rs\<close>), time limits on blocking
  I/O (\<open>client/conn/time.rs\<close>) and the blocking streams (\<open>client/conn/sync.rs\<close>).  Sockets, TLS sessions
  and the clock are not code of the library: they are records of operations on a state \<open>'e\<close> of the
  outside world.  What the library relies on is the locale \<open>buf_conn\<close>, the contract of \<open>BufRead\<close>
  and \<open>Write\<close>: a read gives the next bytes of the stream or fails and takes nothing, a write
  accepts a prefix.
\<close>

section \<open>Server addresses\<close>

record server_addr =
  sa_address :: bytes
  sa_tls :: bool
  sa_port :: "16 word option"

definition port_num :: "server_addr \<Rightarrow> 16 word" where
  "port_num a = (case sa_port a of Some no \<Rightarrow> no | None \<Rightarrow> if sa_tls a then 6697 else 6667)"

definition sa_eq :: "server_addr \<Rightarrow> server_addr \<Rightarrow> bool" where
  "sa_eq a b \<longleftrightarrow> sa_tls a = sa_tls b \<and> port_num a = port_num b \<and> sa_address a = sa_address b"

text \<open>What \<open>hash\<close> hands to the hasher, in order.\<close>

datatype hash_write = HBytes bytes | HU8 "8 word" | HU16 "16 word"

definition sa_hash :: "server_addr \<Rightarrow> hash_write list" where
  "sa_hash a = [HBytes (sa_address a), HU8 (if sa_tls a then 1 else 0), HU16 (port_num a)]"

definition utf8_address :: "server_addr \<Rightarrow> (bytes, io_error) result" where
  "utf8_address a = (if utf8_valid (sa_address a) then Inr (sa_address a) else Inl InvalidInput)"

definition from_host :: "bytes \<Rightarrow> (server_addr, InvalidString) result" where
  "from_host s = bind_res (from_bytes Word s) (\<lambda>w. Inr \<lparr>sa_address = w, sa_tls = True, sa_port = None\<rparr>)"

definition from_host_str :: "bytes \<Rightarrow> server_addr option" where
  "from_host_str s = map_option (\<lambda>w. \<lparr>sa_address = w, sa_tls = True, sa_port = None\<rparr>) (from_str Word s)"

definition to_word :: "server_addr \<Rightarrow> bytes" where
  "to_word a = sa_address a @ (if sa_tls a then PLUS else []) @ fmt_base 10 (unat (port_num a))"

text \<open>Equality ignores how the port was given, and hashing agrees with it.\<close>

lemma sa_eq_hash: "sa_eq a b \<longleftrightarrow> sa_hash a = sa_hash b"
  by (auto simp: sa_eq_def sa_hash_def)

lemma sa_eq_default_port: "sa_eq a (a\<lparr>sa_port := Some (port_num a)\<rparr>)"
  by (simp add: sa_eq_def port_num_def split: option.splits)

lemma from_host_agrees: "from_host_str s = Some a \<longleftrightarrow> from_host s = Inr a"
  by (auto simp: from_host_str_def from_host_def from_str_def from_bytes_def split: option.splits)

text \<open>The text has no separator before the port, so that different servers have the same text.\<close>

lemma to_word_ambiguous:
  "to_word \<lparr>sa_address = ''irc.example'', sa_tls = False, sa_port = Some 12\<rparr> =
   to_word \<lparr>sa_address = ''irc.example1'', sa_tls = False, sa_port = Some 2\<rparr>"
  by code_simp

section \<open>Message buffers\<close>

definition BUFSIZE :: nat where
  "BUFSIZE = 16384"

record 'k msg_io =
  mi_conn :: 'k
  mi_buf_i :: bytes
  mi_buf_o :: bytes

definition mi_new :: "'k \<Rightarrow> 'k msg_io" where
  "mi_new c = \<lparr>mi_conn = c, mi_buf_i = [], mi_buf_o = []\<rparr>"

definition mi_reset :: "'k msg_io \<Rightarrow> 'k msg_io" where
  "mi_reset m = m\<lparr>mi_buf_i := [], mi_buf_o := []\<rparr>"

section \<open>The outside world\<close>

record 'e system =
  sys_now :: "'e \<Rightarrow> nat \<times> 'e"
  sys_sleep :: "nat \<Rightarrow> 'e \<Rightarrow> 'e"

text \<open>\<open>Connection\<close>: a reader with a buffer, a writer and their timeouts, on a state that includes
  the outside world.\<close>

type_synonym ('w, 'r) io_op = "'w \<Rightarrow> ('r, io_error) result \<times> 'w"

record 'w connection =
  c_now :: "'w \<Rightarrow> nat \<times> 'w"
  c_sleep :: "nat \<Rightarrow> 'w \<Rightarrow> 'w"
  c_set_read_timeout :: "nat option \<Rightarrow> ('w, unit) io_op"
  c_set_write_timeout :: "nat option \<Rightarrow> ('w, unit) io_op"
  c_fill_buf :: "('w, bytes) io_op"
  c_consume :: "nat \<Rightarrow> 'w \<Rightarrow> 'w"
  c_write :: "bytes \<Rightarrow> ('w, nat) io_op"
  c_flush :: "('w, unit) io_op"

section \<open>Halves of a connection (\<open>client/conn/time.rs\<close>)\<close>

record 'w read_half =
  hr_set_read_timeout :: "nat option \<Rightarrow> ('w, unit) io_op"
  hr_fill_buf :: "('w, bytes) io_op"
  hr_consume :: "nat \<Rightarrow> 'w \<Rightarrow> 'w"

record 'w write_half =
  hw_set_write_timeout :: "nat option \<Rightarrow> ('w, unit) io_op"
  hw_write :: "bytes \<Rightarrow> ('w, nat) io_op"
  hw_flush :: "('w, unit) io_op"

definition no_timeout :: "nat option \<Rightarrow> ('w, unit) io_op" where
  "no_timeout timeout w = (Inr (), w)"

definition empty_read :: "'w read_half" where
  "empty_read = \<lparr>hr_set_read_timeout = no_timeout, hr_fill_buf = (\<lambda>w. (Inr [], w)), hr_consume = (\<lambda>_ w. w)\<rparr>"

text \<open>The bytes from the position of a cursor on.\<close>

definition cursor_half :: "(bytes \<times> 'e) read_half" where
  "cursor_half = \<lparr>hr_set_read_timeout = no_timeout, hr_fill_buf = (\<lambda>(b, e). (Inr b, b, e)),
     hr_consume = (\<lambda>n (b, e). (drop n b, e))\<rparr>"

text \<open>A deque is two slices; reading exposes the front one.\<close>

definition deque_read :: "((bytes \<times> bytes) \<times> 'e) read_half" where
  "deque_read = \<lparr>hr_set_read_timeout = no_timeout,
     hr_fill_buf = (\<lambda>((f, b), e). if f = [] then (Inr b, (b, []), e) else (Inr f, (f, b), e)),
     hr_consume = (\<lambda>n ((f, b), e). ((drop n f, drop (n - length f) b), e))\<rparr>"

definition empty_write :: "'w write_half" where
  "empty_write = \<lparr>hw_set_write_timeout = no_timeout, hw_write = (\<lambda>b w. (Inr (length b), w)), hw_flush = (\<lambda>w. (Inr (), w))\<rparr>"

definition sink_write :: "'w write_half" where
  "sink_write = \<lparr>hw_set_write_timeout = no_timeout, hw_write = (\<lambda>b w. (Inr (length b), w)), hw_flush = (\<lambda>w. (Inr (), w))\<rparr>"

definition vec_write :: "(bytes \<times> 'e) write_half" where
  "vec_write = \<lparr>hw_set_write_timeout = no_timeout, hw_write = (\<lambda>b (v, e). (Inr (length b), v @ b, e)),
     hw_flush = (\<lambda>w. (Inr (), w))\<rparr>"

definition deque_write :: "((bytes \<times> bytes) \<times> 'e) write_half" where
  "deque_write = \<lparr>hw_set_write_timeout = no_timeout, hw_write = (\<lambda>b ((f, k), e). (Inr (length b), (f, k @ b), e)),
     hw_flush = (\<lambda>w. (Inr (), w))\<rparr>"

text \<open>An operation on one half, seen as one on the pair.\<close>

definition on_fst :: "('r \<times> 'e \<Rightarrow> 'x \<times> 'r \<times> 'e) \<Rightarrow> ('r \<times> 'k) \<times> 'e \<Rightarrow> 'x \<times> ('r \<times> 'k) \<times> 'e" where
  "on_fst f = (\<lambda>((r, k), e). let (x, r', e') = f (r, e) in (x, (r', k), e'))"

definition on_snd :: "('k \<times> 'e \<Rightarrow> 'x \<times> 'k \<times> 'e) \<Rightarrow> ('r \<times> 'k) \<times> 'e \<Rightarrow> 'x \<times> ('r \<times> 'k) \<times> 'e" where
  "on_snd f = (\<lambda>((r, k), e). let (x, k', e') = f (k, e) in (x, (r, k'), e'))"

text \<open>\<open>Bidir\<close> is a connection that reads from one half and writes to the other.\<close>

definition bidir_set_read_timeout :: "('r \<times> 'e) read_half \<Rightarrow> nat option \<Rightarrow> (('r \<times> 'k) \<times> 'e, unit) io_op" where
  "bidir_set_read_timeout hr t = on_fst (hr_set_read_timeout hr t)"

definition bidir_set_write_timeout :: "('k \<times> 'e) write_half \<Rightarrow> nat option \<Rightarrow> (('r \<times> 'k) \<times> 'e, unit) io_op" where
  "bidir_set_write_timeout hw t = on_snd (hw_set_write_timeout hw t)"

definition bidir ::
  "'e system \<Rightarrow> ('r \<times> 'e) read_half \<Rightarrow> ('k \<times> 'e) write_half \<Rightarrow> (('r \<times> 'k) \<times> 'e) connection" where
  "bidir sys hr hw =
     \<lparr>c_now = (\<lambda>(x, e). let (t, e') = sys_now sys e in (t, x, e')),
      c_sleep = (\<lambda>d (x, e). (x, sys_sleep sys d e)),
      c_set_read_timeout = bidir_set_read_timeout hr,
      c_set_write_timeout = bidir_set_write_timeout hw,
      c_fill_buf = on_fst (hr_fill_buf hr),
      c_consume = (\<lambda>n ((r, k), e). let (r', e') = hr_consume hr n (r, e) in ((r', k), e')),
      c_write = (\<lambda>b. on_snd (hw_write hw b)),
      c_flush = on_snd (hw_flush hw)\<rparr>"

section \<open>Time limits on blocking reads\<close>

definition timeout_fallback :: "nat option \<Rightarrow> nat option \<Rightarrow> nat option \<times> bool" where
  "timeout_fallback new_timeout old_timeout =
     (if new_timeout \<noteq> None then (new_timeout, True) else (old_timeout, False))"

definition filter_time_error :: "('x, io_error) result \<Rightarrow> ('x option, io_error) result" where
  "filter_time_error r =
     (case r of
        Inr v \<Rightarrow> Inr (Some v)
      | Inl e \<Rightarrow> (case e of TimedOut \<Rightarrow> Inr None | WouldBlock \<Rightarrow> Inr None | _ \<Rightarrow> Inl e))"

text \<open>A \<open>TimeLimitedSync\<close> is the connection and the deadline of the whole read.  \<open>checked_add\<close> gives
  no deadline beyond the largest instant.\<close>

definition tls_new ::
  "'w connection \<Rightarrow> nat \<Rightarrow> time_limits \<Rightarrow> nat option \<Rightarrow> 'w \<Rightarrow>
   (nat option \<times> bool, io_error) result \<times> time_limits \<times> 'w" where
  "tls_new c imax lims write_after w =
     (let (r, lims1, w1) =
        (if tl_update_write lims then
           (case c_set_write_timeout c (tl_write lims) w of
              (Inl e, w1) \<Rightarrow> (Inl e, lims, w1)
            | (Inr _, w1) \<Rightarrow> (Inr (), lims\<lparr>tl_update_write := False\<rparr>, w1))
         else (Inr (), lims, w))
      in case r of
           Inl e \<Rightarrow> (Inl e, lims1, w1)
         | Inr _ \<Rightarrow>
             (let (rd, constrained) = timeout_fallback write_after (tl_read lims) in
              case rd of
                None \<Rightarrow> (Inr (None, constrained), lims1, w1)
              | Some dur \<Rightarrow>
                  (let (now, w2) = c_now c w1 in
                   (Inr (if now + dur \<le> imax then Some (now + dur) else None, constrained), lims1, w2))))"

definition update_timeout :: "'w connection \<Rightarrow> nat option \<Rightarrow> ('w, unit) io_op" where
  "update_timeout c deadline w =
     (case deadline of
        None \<Rightarrow> (Inr (), w)
      | Some d \<Rightarrow>
          (let (now, w1) = c_now c w; duration = d - now in
           if duration \<noteq> 0 then c_set_read_timeout c (Some duration) w1 else (Inl TimedOut, w1)))"

definition tls_write :: "'w connection \<Rightarrow> bytes \<Rightarrow> ('w, nat) io_op" where
  "tls_write c b = c_write c b"

definition tls_flush :: "'w connection \<Rightarrow> ('w, unit) io_op" where
  "tls_flush c = c_flush c"

definition tls_fill_buf :: "'w connection \<Rightarrow> nat option \<Rightarrow> ('w, bytes) io_op" where
  "tls_fill_buf c deadline w =
     (case update_timeout c deadline w of
        (Inl e, w1) \<Rightarrow> (Inl e, w1)
      | (Inr _, w1) \<Rightarrow> c_fill_buf c w1)"

definition tls_consume :: "'w connection \<Rightarrow> nat \<Rightarrow> 'w \<Rightarrow> 'w" where
  "tls_consume c n = c_consume c n"

text \<open>\<open>Read::read\<close> of a buffered reader copies from its buffer.\<close>

definition tls_read :: "'w connection \<Rightarrow> nat option \<Rightarrow> nat \<Rightarrow> ('w, bytes) io_op" where
  "tls_read c deadline n w =
     (case update_timeout c deadline w of
        (Inl e, w1) \<Rightarrow> (Inl e, w1)
      | (Inr _, w1) \<Rightarrow>
          (case c_fill_buf c w1 of
             (Inl e, w2) \<Rightarrow> (Inl e, w2)
           | (Inr b, w2) \<Rightarrow> (Inr (take n b), c_consume c (min n (length b)) w2)))"


section \<open>Blocking streams (\<open>client/conn/sync.rs\<close>)\<close>

datatype shutdown_how = ShutRead | ShutWrite | ShutBoth

text \<open>The operations of a socket or of a TLS session on it.\<close>

record 'w stream_ops =
  s_shutdown :: "shutdown_how \<Rightarrow> ('w, unit) io_op"
  s_set_read_timeout :: "nat option \<Rightarrow> ('w, unit) io_op"
  s_set_write_timeout :: "nat option \<Rightarrow> ('w, unit) io_op"
  s_read_timeout :: "('w, nat option) io_op"
  s_write_timeout :: "('w, nat option) io_op"
  s_read :: "nat \<Rightarrow> ('w, bytes) io_op"
  s_read_vectored :: "nat list \<Rightarrow> ('w, bytes) io_op"
  s_write :: "bytes \<Rightarrow> ('w, nat) io_op"
  s_flush :: "('w, unit) io_op"

text \<open>A TLS stream owns its session and its socket.\<close>

datatype ('t, 'n) stream_inner = Closed | Tcp 't | Tls 'n 't

text \<open>The timeouts of a borrowed and of an owned TLS stream are those of its socket.\<close>

definition tlsref_set_read_timeout :: "('t \<times> 'e) stream_ops \<Rightarrow> nat option \<Rightarrow> (('n \<times> 't) \<times> 'e, unit) io_op" where
  "tlsref_set_read_timeout sock timeout = on_snd (s_set_read_timeout sock timeout)"

definition tlsref_set_write_timeout :: "('t \<times> 'e) stream_ops \<Rightarrow> nat option \<Rightarrow> (('n \<times> 't) \<times> 'e, unit) io_op" where
  "tlsref_set_write_timeout sock timeout = on_snd (s_set_write_timeout sock timeout)"

definition tlsown_set_read_timeout :: "('t \<times> 'e) stream_ops \<Rightarrow> nat option \<Rightarrow> (('n \<times> 't) \<times> 'e, unit) io_op" where
  "tlsown_set_read_timeout sock timeout = on_snd (s_set_read_timeout sock timeout)"

definition tlsown_set_write_timeout :: "('t \<times> 'e) stream_ops \<Rightarrow> nat option \<Rightarrow> (('n \<times> 't) \<times> 'e, unit) io_op" where
  "tlsown_set_write_timeout sock timeout = on_snd (s_set_write_timeout sock timeout)"

definition lift_tcp :: "('t \<Rightarrow> ('t, 'n) stream_inner) \<Rightarrow> 'x \<times> 't \<times> 'e \<Rightarrow> 'x \<times> ('t, 'n) stream_inner \<times> 'e" where
  "lift_tcp f r = (case r of (x, t, e) \<Rightarrow> (x, f t, e))"

definition lift_tls :: "'x \<times> ('n \<times> 't) \<times> 'e \<Rightarrow> 'x \<times> ('t, 'n) stream_inner \<times> 'e" where
  "lift_tls r = (case r of (x, (n, t), e) \<Rightarrow> (x, Tls n t, e))"

definition stream_shutdown ::
  "('t \<times> 'e) stream_ops \<Rightarrow> shutdown_how \<Rightarrow> (('t, 'n) stream_inner \<times> 'e, unit) io_op" where
  "stream_shutdown tcp how w =
     (case w of
        (Closed, e) \<Rightarrow> (Inr (), Closed, e)
      | (Tcp s, e) \<Rightarrow> lift_tcp Tcp (s_shutdown tcp how (s, e))
      | (Tls n s, e) \<Rightarrow> lift_tcp (Tls n) (s_shutdown tcp how (s, e)))"

definition stream_set_read_timeout ::
  "('t \<times> 'e) stream_ops \<Rightarrow> nat option \<Rightarrow> (('t, 'n) stream_inner \<times> 'e, unit) io_op" where
  "stream_set_read_timeout tcp timeout w =
     (case w of
        (Closed, e) \<Rightarrow> (Inr (), Closed, e)
      | (Tcp s, e) \<Rightarrow> lift_tcp Tcp (s_set_read_timeout tcp timeout (s, e))
      | (Tls n s, e) \<Rightarrow> lift_tcp (Tls n) (s_set_read_timeout tcp timeout (s, e)))"

definition stream_set_write_timeout ::
  "('t \<times> 'e) stream_ops \<Rightarrow> nat option \<Rightarrow> (('t, 'n) stream_inner \<times> 'e, unit) io_op" where
  "stream_set_write_timeout tcp timeout w =
     (case w of
        (Closed, e) \<Rightarrow> (Inr (), Closed, e)
      | (Tcp s, e) \<Rightarrow> lift_tcp Tcp (s_set_write_timeout tcp timeout (s, e))
      | (Tls n s, e) \<Rightarrow> lift_tcp (Tls n) (s_set_write_timeout tcp timeout (s, e)))"

definition stream_read_timeout :: "('t \<times> 'e) stream_ops \<Rightarrow> (('t, 'n) stream_inner \<times> 'e, nat option) io_op" where
  "stream_read_timeout tcp w =
     (case w of
        (Closed, e) \<Rightarrow> (Inr None, Closed, e)
      | (Tcp s, e) \<Rightarrow> lift_tcp Tcp (s_read_timeout tcp (s, e))
      | (Tls n s, e) \<Rightarrow> lift_tcp (Tls n) (s_read_timeout tcp (s, e)))"

definition stream_write_timeout :: "('t \<times> 'e) stream_ops \<Rightarrow> (('t, 'n) stream_inner \<times> 'e, nat option) io_op" where
  "stream_write_timeout tcp w =
     (case w of
        (Closed, e) \<Rightarrow> (Inr None, Closed, e)
      | (Tcp s, e) \<Rightarrow> lift_tcp Tcp (s_write_timeout tcp (s, e))
      | (Tls n s, e) \<Rightarrow> lift_tcp (Tls n) (s_write_timeout tcp (s, e)))"

definition stream_read ::
  "('t \<times> 'e) stream_ops \<Rightarrow> (('n \<times> 't) \<times> 'e) stream_ops \<Rightarrow> nat \<Rightarrow> (('t, 'n) stream_inner \<times> 'e, bytes) io_op" where
  "stream_read tcp tls n w =
     (case w of
        (Closed, e) \<Rightarrow> (Inr [], Closed, e)
      | (Tcp s, e) \<Rightarrow> lift_tcp Tcp (s_read tcp n (s, e))
      | (Tls c s, e) \<Rightarrow> lift_tls (s_read tls n ((c, s), e)))"

definition stream_read_vectored ::
  "('t \<times> 'e) stream_ops \<Rightarrow> (('n \<times> 't) \<times> 'e) stream_ops \<Rightarrow> nat list \<Rightarrow> (('t, 'n) stream_inner \<times> 'e, bytes) io_op" where
  "stream_read_vectored tcp tls ns w =
     (case w of
        (Closed, e) \<Rightarrow> (Inr [], Closed, e)
      | (Tcp s, e) \<Rightarrow> lift_tcp Tcp (s_read_vectored tcp ns (s, e))
      | (Tls c s, e) \<Rightarrow> lift_tls (s_read_vectored tls ns ((c, s), e)))"

definition stream_write ::
  "('t \<times> 'e) stream_ops \<Rightarrow> (('n \<times> 't) \<times> 'e) stream_ops \<Rightarrow> bytes \<Rightarrow> (('t, 'n) stream_inner \<times> 'e, nat) io_op" where
  "stream_write tcp tls b w =
     (case w of
        (Closed, e) \<Rightarrow> (Inr 0, Closed, e)
      | (Tcp s, e) \<Rightarrow> lift_tcp Tcp (s_write tcp b (s, e))
      | (Tls c s, e) \<Rightarrow> lift_tls (s_write tls b ((c, s), e)))"

definition stream_flush ::
  "('t \<times> 'e) stream_ops \<Rightarrow> (('n \<times> 't) \<times> 'e) stream_ops \<Rightarrow> (('t, 'n) stream_inner \<times> 'e, unit) io_op" where
  "stream_flush tcp tls w =
     (case w of
        (Closed, e) \<Rightarrow> (Inr (), Closed, e)
      | (Tcp s, e) \<Rightarrow> lift_tcp Tcp (s_flush tcp (s, e))
      | (Tls c s, e) \<Rightarrow> lift_tls (s_flush tls ((c, s), e)))"

definition stream :: "('t \<times> 'e) stream_ops \<Rightarrow> (('n \<times> 't) \<times> 'e) stream_ops \<Rightarrow> (('t, 'n) stream_inner \<times> 'e) stream_ops" where
  "stream tcp tls =
     \<lparr>s_shutdown = stream_shutdown tcp, s_set_read_timeout = stream_set_read_timeout tcp,
      s_set_write_timeout = stream_set_write_timeout tcp, s_read_timeout = stream_read_timeout tcp,
      s_write_timeout = stream_write_timeout tcp, s_read = stream_read tcp tls,
      s_read_vectored = stream_read_vectored tcp tls, s_write = stream_write tcp tls, s_flush = stream_flush tcp tls\<rparr>"

text \<open>A \<open>BufReader\<close>: what it has read and not handed out yet, and its capacity.  It reads only when
  it has nothing left.\<close>

definition br_fill_buf :: "nat \<Rightarrow> ('t \<times> 'e) stream_ops \<Rightarrow> ((bytes \<times> 't) \<times> 'e, bytes) io_op" where
  "br_fill_buf cap s w =
     (case w of ((b, t), e) \<Rightarrow>
        if b = [] then
          (case s_read s cap (t, e) of
             (Inl er, t', e') \<Rightarrow> (Inl er, ([], t'), e')
           | (Inr b', t', e') \<Rightarrow> (Inr b', (b', t'), e'))
        else (Inr b, (b, t), e))"

definition br_consume :: "nat \<Rightarrow> (bytes \<times> 't) \<times> 'e \<Rightarrow> (bytes \<times> 't) \<times> 'e" where
  "br_consume n w = (case w of ((b, t), e) \<Rightarrow> ((drop n b, t), e))"

definition br_set_read_timeout :: "('t \<times> 'e) stream_ops \<Rightarrow> nat option \<Rightarrow> ((bytes \<times> 't) \<times> 'e, unit) io_op" where
  "br_set_read_timeout s timeout = on_snd (s_set_read_timeout s timeout)"

definition br_set_write_timeout :: "('t \<times> 'e) stream_ops \<Rightarrow> nat option \<Rightarrow> ((bytes \<times> 't) \<times> 'e, unit) io_op" where
  "br_set_write_timeout s timeout = on_snd (s_set_write_timeout s timeout)"

definition buf_reader :: "'e system \<Rightarrow> nat \<Rightarrow> ('t \<times> 'e) stream_ops \<Rightarrow> ((bytes \<times> 't) \<times> 'e) connection" where
  "buf_reader sys cap s =
     \<lparr>c_now = (\<lambda>(x, e). let (t, e') = sys_now sys e in (t, x, e')),
      c_sleep = (\<lambda>d (x, e). (x, sys_sleep sys d e)),
      c_set_read_timeout = br_set_read_timeout s,
      c_set_write_timeout = br_set_write_timeout s,
      c_fill_buf = br_fill_buf cap s,
      c_consume = br_consume,
      c_write = (\<lambda>b. on_snd (s_write s b)),
      c_flush = on_snd (s_flush s)\<rparr>"

text \<open>Connecting: resolving and opening the socket, building the TLS session and its configuration
  are not code of the library.\<close>

definition connect_no_tls ::
  "(bytes \<Rightarrow> 16 word \<Rightarrow> ('e, 't) io_op) \<Rightarrow> server_addr \<Rightarrow> ('e, bytes \<times> ('t, 'n) stream_inner) io_op" where
  "connect_no_tls tcp_connect a e =
     (case utf8_address a of
        Inl er \<Rightarrow> (Inl er, e)
      | Inr s \<Rightarrow>
          (case tcp_connect s (port_num a) e of
             (Inl er, e1) \<Rightarrow> (Inl er, e1)
           | (Inr sock, e1) \<Rightarrow> (Inr ([], Tcp sock), e1)))"

definition connect ::
  "(bytes \<Rightarrow> 16 word \<Rightarrow> ('e, 't) io_op) \<Rightarrow> (bytes \<Rightarrow> ('name, nat) result) \<Rightarrow> ('cfg \<Rightarrow> 'name \<Rightarrow> ('n, nat) result) \<Rightarrow>
   (('n \<times> 't) \<times> 'e) stream_ops \<Rightarrow> ('e, 'cfg) io_op \<Rightarrow> server_addr \<Rightarrow> ('e, bytes \<times> ('t, 'n) stream_inner) io_op" where
  "connect tcp_connect server_name client_connection tls tls_fn a e =
     (case utf8_address a of
        Inl er \<Rightarrow> (Inl er, e)
      | Inr s \<Rightarrow>
          if sa_tls a then
            (case server_name s of
               Inl _ \<Rightarrow> (Inl InvalidInput, e)
             | Inr name \<Rightarrow>
                 (case tls_fn e of
                    (Inl er, e1) \<Rightarrow> (Inl er, e1)
                  | (Inr config, e1) \<Rightarrow>
                      (case client_connection config name of
                         Inl er \<Rightarrow> (Inl (OtherError er), e1)
                       | Inr conn \<Rightarrow>
                           (case tcp_connect s (port_num a) e1 of
                              (Inl er, e2) \<Rightarrow> (Inl er, e2)
                            | (Inr sock, e2) \<Rightarrow>
                                (case s_flush tls ((conn, sock), e2) of
                                   (Inl er, _, e3) \<Rightarrow> (Inl er, e3)
                                 | (Inr _, (conn', sock'), e3) \<Rightarrow> (Inr ([], Tls conn' sock'), e3))))))
          else
            (case tcp_connect s (port_num a) e of
               (Inl er, e1) \<Rightarrow> (Inl er, e1)
             | (Inr sock, e1) \<Rightarrow> (Inr ([], Tcp sock), e1)))"

end
