(* ===== verification/ConnIo.thy ===== *)
theory ConnIo
  imports Conn
begin

text \<open>
  Reading messages from a connection and writing to it: the \<open>read_msg!\<close> macro of \<open>ircmsg/codec.rs\<close> on a
  blocking reader that may fail or run into its deadline at any byte, with \<open>BufRead::read_until\<close> and
  \<open>Write::write_all\<close> of the standard library.  The locale \<open>buf_conn\<close> is the contract of the connection;
  inside it, reading is a refinement of \<open>client_read\<close> on the bytes of the stream.
\<close>

section \<open>Loops of the standard library\<close>

text \<open>A panic is a value of its own here, so that \<open>None\<close> means only that a loop does not end.\<close>

datatype 'x exec = Panic | Return 'x

definition bind_exec :: "'x exec option \<Rightarrow> ('x \<Rightarrow> 'y exec option) \<Rightarrow> 'y exec option" where
  "bind_exec m f = (case m of None \<Rightarrow> None | Some Panic \<Rightarrow> Some Panic | Some (Return x) \<Rightarrow> f x)"

text \<open>One attempt to read: nothing yet, an error, or the bytes in the buffer of the reader.\<close>

datatype attempt = Retry | Fail io_error | Got bytes

text \<open>\<open>read_until\<close> on a reader limited to \<open>limit\<close> bytes: what was read so far is in the buffer when an error
  ends it.\<close>

partial_function (option) until_via ::
  "('w \<Rightarrow> attempt \<times> 'w) \<Rightarrow> (nat \<Rightarrow> 'w \<Rightarrow> 'w) \<Rightarrow> byte \<Rightarrow> nat \<Rightarrow> nat \<Rightarrow> bytes \<Rightarrow> 'w \<Rightarrow>
   ((nat, io_error) result \<times> bytes \<times> 'w) option" where
  "until_via fill cons d limit n buf w =
     (if limit = 0 then Some (Inr n, buf, cons 0 w)
      else
        (case fill w of
           (Retry, w1) \<Rightarrow> until_via fill cons d limit n buf w1
         | (Fail e, w1) \<Rightarrow> Some (Inl e, buf, w1)
         | (Got b, w1) \<Rightarrow>
             (case position (\<lambda>x. x = d) (take limit b) of
                Some i \<Rightarrow> Some (Inr (n + (i + 1)), buf @ take (i + 1) b, cons (i + 1) w1)
              | None \<Rightarrow>
                  (let used = length (take limit b); w2 = cons used w1 in
                   if used = 0 then Some (Inr n, buf, w2)
                   else until_via fill cons d (limit - used) (n + used) (buf @ take limit b) w2))))"

text \<open>One attempt to write, and \<open>write_all\<close>.\<close>

datatype wrote = WRetry | WFail io_error | Wrote nat

partial_function (option) write_all_via ::
  "(bytes \<Rightarrow> 'w \<Rightarrow> wrote \<times> 'w) \<Rightarrow> bytes \<Rightarrow> 'w \<Rightarrow> ((unit, io_error) result \<times> 'w) exec option" where
  "write_all_via wr buf w =
     (if buf = [] then Some (Return (Inr (), w))
      else
        (case wr buf w of
           (Wrote n, w1) \<Rightarrow>
             if n = 0 then Some (Return (Inl WriteZero, w1))
             else if length buf < n then Some Panic
             else write_all_via wr (drop n buf) w1
         | (WFail e, w1) \<Rightarrow> Some (Return (Inl e, w1))
         | (WRetry, w1) \<Rightarrow> write_all_via wr buf w1))"

text \<open>The blocking loops repeat what was interrupted.\<close>

definition sync_fill :: "'w connection \<Rightarrow> nat option \<Rightarrow> 'w \<Rightarrow> attempt \<times> 'w" where
  "sync_fill c dl w =
     (case tls_fill_buf c dl w of
        (Inl e, w1) \<Rightarrow> (if e = Interrupted then Retry else Fail e, w1)
      | (Inr b, w1) \<Rightarrow> (Got b, w1))"

definition sync_write :: "'w connection \<Rightarrow> bytes \<Rightarrow> 'w \<Rightarrow> wrote \<times> 'w" where
  "sync_write c b w =
     (case c_write c b w of
        (Inl e, w1) \<Rightarrow> (if e = Interrupted then WRetry else WFail e, w1)
      | (Inr n, w1) \<Rightarrow> (Wrote n, w1))"

definition io_read_until ::
  "'w connection \<Rightarrow> nat option \<Rightarrow> byte \<Rightarrow> nat \<Rightarrow> nat \<Rightarrow> bytes \<Rightarrow> 'w \<Rightarrow> ((nat, io_error) result \<times> bytes \<times> 'w) option" where
  "io_read_until c dl d limit n buf w = until_via (sync_fill c dl) (tls_consume c) d limit n buf w"

definition io_write_all :: "'w connection \<Rightarrow> bytes \<Rightarrow> 'w \<Rightarrow> ((unit, io_error) result \<times> 'w) exec option" where
  "io_write_all c buf w = write_all_via (sync_write c) buf w"

section \<open>Reading a message\<close>

text \<open>\<open>read_buf!\<close> with the buffer it leaves (reversed).\<close>

fun read_buf_from :: "bytes \<Rightarrow> bool \<Rightarrow> buf_outcome \<times> bytes" where
  "read_buf_from [] found_newline = (Again, [])"
| "read_buf_from (c # rbuf) found_newline =
     (if c = CHR 0x0A then read_buf_from rbuf True
      else if c = CHR 0x0D \<and> found_newline then read_buf_from rbuf found_newline
      else if c \<in> {CHR 0x0D, CHR 0x00} then (BadEnd (InvalidLine (Byte c)), c # rbuf)
      else if found_newline then (ParseLine (rev (c # rbuf)), c # rbuf)
      else (BadEnd TooLong, c # rbuf))"

text \<open>\<open>read_msg!\<close> over a \<open>read_until\<close> up to the next newline, blocking or not; an owning read takes the
  buffer when it parses the line.\<close>

partial_function (option) read_msg_via ::
  "(nat \<Rightarrow> bytes \<Rightarrow> 'w \<Rightarrow> ((nat, io_error) result \<times> bytes \<times> 'w) option) \<Rightarrow>
   nat \<Rightarrow> (bytes \<Rightarrow> ('m, ParseError) result option) \<Rightarrow> bool \<Rightarrow> bytes \<Rightarrow> 'w \<Rightarrow> (('m, io_error) result \<times> bytes \<times> 'w) option" where
  "read_msg_via read_line limit parse owned buf w =
     (case (if length buf < limit then read_line (limit - length buf) buf w else Some (Inr 1, buf, w)) of
        None \<Rightarrow> None
      | Some (Inl e, buf1, w1) \<Rightarrow> Some (Inl e, buf1, w1)
      | Some (Inr n, buf1, w1) \<Rightarrow>
          if n = 0 then Some (Inl UnexpectedEof, buf1, w1)
          else
            (case read_buf_from (rev buf1) False of
               (Again, rest) \<Rightarrow> read_msg_via read_line limit parse owned (rev rest) w1
             | (BadEnd e, rest) \<Rightarrow> Some (Inl (InvalidData e), rev rest, w1)
             | (ParseLine l, rest) \<Rightarrow>
                 (case parse l of
                    None \<Rightarrow> None
                  | Some r \<Rightarrow> Some (map_err InvalidData r, if owned then [] else rev rest, w1))))"

definition read_msg_from ::
  "nat \<Rightarrow> (bytes \<Rightarrow> ('m, ParseError) result option) \<Rightarrow> bool \<Rightarrow> 'w connection \<Rightarrow> nat option \<Rightarrow> bytes \<Rightarrow> 'w \<Rightarrow>
   (('m, io_error) result \<times> bytes \<times> 'w) option" where
  "read_msg_from limit parse owned c dl buf w =
     read_msg_via (\<lambda>n. io_read_until c dl (CHR 0x0A) n 0) limit parse owned buf w"

declare until_via.simps [code] write_all_via.simps [code] read_msg_via.simps [code]

definition client_read_owning_from ::
  "'w connection \<Rightarrow> nat option \<Rightarrow> bytes \<Rightarrow> 'w \<Rightarrow> ((server_msg, io_error) result \<times> bytes \<times> 'w) option" where
  "client_read_owning_from = read_msg_from server_MAX_LEN server_msg_parse True"

definition client_read_borrowing_from ::
  "'w connection \<Rightarrow> nat option \<Rightarrow> bytes \<Rightarrow> 'w \<Rightarrow> ((server_msg, io_error) result \<times> bytes \<times> 'w) option" where
  "client_read_borrowing_from = read_msg_from server_MAX_LEN server_msg_parse False"

definition server_read_owning_from ::
  "'w connection \<Rightarrow> nat option \<Rightarrow> bytes \<Rightarrow> 'w \<Rightarrow> ((client_msg, io_error) result \<times> bytes \<times> 'w) option" where
  "server_read_owning_from = read_msg_from client_MAX_LEN client_msg_parse True"

definition server_read_borrowing_from ::
  "'w connection \<Rightarrow> nat option \<Rightarrow> bytes \<Rightarrow> 'w \<Rightarrow> ((client_msg, io_error) result \<times> bytes \<times> 'w) option" where
  "server_read_borrowing_from = read_msg_from client_MAX_LEN client_msg_parse False"

section \<open>Sending a message\<close>

definition crlf :: bytes where
  "crlf = [CHR 0x0D, CHR 0x0A]"

text \<open>\<open>send_to\<close> over a \<open>write_all\<close>, blocking or not: the line is appended to the buffer, which is cleared only when
  all of it was written.\<close>

definition send_via ::
  "(bytes \<Rightarrow> 'w \<Rightarrow> ((unit, io_error) result \<times> 'w) exec option) \<Rightarrow> bytes \<Rightarrow> bytes \<Rightarrow> 'w \<Rightarrow>
   ((unit, io_error) result \<times> bytes \<times> 'w) exec option" where
  "send_via write_all line buf w =
     (let buf' = (buf @ line) @ crlf in
      bind_exec (write_all buf' w) (\<lambda>(r, w1).
        Some (Return (case r of Inl e \<Rightarrow> (Inl e, buf', w1) | Inr _ \<Rightarrow> (Inr (), [], w1)))))"

definition client_send_io ::
  "'w connection \<Rightarrow> client_msg \<Rightarrow> bytes \<Rightarrow> 'w \<Rightarrow> ((unit, io_error) result \<times> bytes \<times> 'w) exec option" where
  "client_send_io c msg = send_via (io_write_all c) (client_write_to msg)"

definition server_send_io ::
  "'w connection \<Rightarrow> server_msg \<Rightarrow> bytes \<Rightarrow> 'w \<Rightarrow> ((unit, io_error) result \<times> bytes \<times> 'w) exec option" where
  "server_send_io c msg = send_via (io_write_all c) (server_write_to msg)"

lemma read_buf_from_outcome: "fst (read_buf_from rbuf f) = read_buf rbuf f"
  by (induction rbuf f rule: read_buf_from.induct) auto

lemma read_buf_from_again: "read_buf_from rbuf f = (Again, rest) \<Longrightarrow> rest = [] \<and> set rbuf \<subseteq> {CHR 0x0A, CHR 0x0D}"
  by (induction rbuf f rule: read_buf_from.induct) (auto split: if_splits)

lemma read_until_append:
  assumes "d \<notin> set p" and "length p \<le> limit"
  shows "read_until d limit (p @ s) =
    (case read_until d (limit - length p) s of (new, rest) \<Rightarrow> (p @ new, rest))"
proof -
  have "position (\<lambda>x. x = d) p = None" using assms(1) by (auto simp: position_None)
  with assms(2) show ?thesis by (auto simp: read_until_def position_append split: option.splits)
qed

text \<open>A blank line, which a read skips, and a stream with some of its first lines skipped.\<close>

definition blank_line :: "nat \<Rightarrow> bytes \<Rightarrow> bool" where
  "blank_line limit l \<longleftrightarrow> (\<exists>k. l = replicate k (CHR 0x0D) @ [CHR 0x0A]) \<and> length l \<le> limit"

inductive skips :: "nat \<Rightarrow> bytes \<Rightarrow> bytes \<Rightarrow> bool" for limit where
  skips_refl: "skips limit i i"
| skips_blank: "blank_line limit l \<Longrightarrow> skips limit i i' \<Longrightarrow> skips limit (l @ i) i'"

lemma read_buf_CRs: "read_buf (replicate k (CHR 0x0D)) True = Again"
  by (induction k) auto

lemma read_msg_blank:
  assumes "blank_line limit l"
  shows "read_msg limit parse [] (l @ i) = read_msg limit parse [] i"
proof -
  obtain k where l: "l = replicate k (CHR 0x0D) @ [CHR 0x0A]" and k: "Suc k \<le> limit"
    using assms by (auto simp: blank_line_def)
  have "position (\<lambda>x. x = CHR 0x0A) (replicate k (CHR 0x0D) @ CHR 0x0A # take (limit - Suc k) i) = Some k"
    using position_first [of "CHR 0x0A" "replicate k (CHR 0x0D)"] by simp
  moreover have "take limit (l @ i) = replicate k (CHR 0x0D) @ CHR 0x0A # take (limit - Suc k) i"
    using k by (auto simp: l take_Cons' min_def)
  ultimately have "read_until (CHR 0x0A) limit (l @ i) = (l, i)" by (simp add: read_until_def l)
  moreover have "read_buf (rev l) False = Again" by (simp add: l read_buf_CRs)
  ultimately show ?thesis using k l by (subst read_msg.simps) simp
qed

lemma read_msg_skips: "skips limit i i' \<Longrightarrow> read_msg limit parse [] i = read_msg limit parse [] i'"
  by (induction rule: skips.induct) (simp_all add: read_msg_blank)

lemma read_until_first: "read_until d limit i = (l, rest) \<Longrightarrow> l = [] \<or> d \<notin> set (butlast l)"
proof -
  assume r: "read_until d limit i = (l, rest)"
  show ?thesis
  proof (cases "position (\<lambda>x. x = d) (take limit i)")
    case None
    with r have "l = take limit i" by (simp add: read_until_def)
    with None show ?thesis by (auto simp: position_None dest: in_set_butlastD)
  next
    case (Some k)
    have k: "k < length i" "k < limit" using position_Some_less [OF Some] by auto
    have "l = take (Suc k) i" using r Some by (simp add: read_until_def)
    then have "butlast l = take k (take limit i)" using k by (simp add: butlast_take)
    with position_Some_take [OF Some] show ?thesis by (auto dest: set_takeWhileD)
  qed
qed

lemma read_buf_from_blank:
  assumes "read_buf_from (rev l) False = (Again, rest)" and "l \<noteq> []" and "CHR 0x0A \<notin> set (butlast l)" and "length l \<le> limit"
  shows "blank_line limit l"
proof -
  have l: "l = butlast l @ [last l]" using assms(2) by simp
  have "rev l = last l # rev (butlast l)" using arg_cong [OF l, of rev] by simp
  with assms(1) have "last l = CHR 0x0A" by (auto split: if_splits)
  moreover have "set (butlast l) \<subseteq> {CHR 0x0D}"
    using read_buf_from_again [OF assms(1)] assms(3) in_set_butlastD [of _ l] by fastforce
  then have "butlast l = replicate (length (butlast l)) (CHR 0x0D)" by (auto intro!: replicate_eqI)
  ultimately show ?thesis using l assms(4) unfolding blank_line_def by metis
qed

text \<open>What a read buffer holds between two calls.\<close>

definition buf_ok :: "nat \<Rightarrow> bytes \<Rightarrow> bool" where
  "buf_ok limit buf \<longleftrightarrow> CHR 0x0A \<notin> set buf \<and> length buf < limit"

definition time_error :: "io_error \<Rightarrow> bool" where
  "time_error e \<longleftrightarrow> e = TimedOut \<or> e = WouldBlock"

section \<open>What a read does to the stream\<close>

text \<open>For \<open>pending\<close>, what the peer has sent or will send and the client has not taken, and \<open>written\<close>, what
  the connection has accepted: a read of a line succeeds with the next line or the limit, or fails and
  keeps what it took in the buffer.\<close>

definition line_spec ::
  "('w \<Rightarrow> bytes) \<Rightarrow> ('w \<Rightarrow> bytes) \<Rightarrow> nat \<Rightarrow> bytes \<Rightarrow> 'w \<Rightarrow> (nat, io_error) result \<Rightarrow> bytes \<Rightarrow> 'w \<Rightarrow> bool" where
  "line_spec pending written limit buf w r buf' w' \<longleftrightarrow> written w' = written w \<and>
    (case r of
       Inr m \<Rightarrow> \<exists>new. read_until (CHR 0x0A) limit (pending w) = (new, pending w') \<and> buf' = buf @ new \<and> m = length new
     | Inl e \<Rightarrow> \<exists>new. pending w = new @ pending w' \<and> buf' = buf @ new \<and> CHR 0x0A \<notin> set new \<and> length new < limit)"

lemma until_via_spec:
  assumes fill: "\<And>w f w'. fill w = (f, w') \<Longrightarrow> pending w' = pending w \<and> written w' = written w \<and>
      (\<forall>b. f = Got b \<longrightarrow> filled w' = b \<and> (\<exists>s. pending w = b @ s) \<and> (b = [] \<longrightarrow> pending w = []))"
    and cons: "\<And>n w. n \<le> length (filled w) \<Longrightarrow> pending (cons n w) = drop n (pending w) \<and> written (cons n w) = written w"
    and run: "until_via fill cons (CHR 0x0A) limit 0 buf w = Some (r, buf', w')"
  shows "line_spec pending written limit buf w r buf' w'"
proof -
  let ?Q = "\<lambda>d limit n buf w (r, buf', w'). written w' = written w \<and>
    (case r of
       Inr m \<Rightarrow> \<exists>new. read_until d limit (pending w) = (new, pending w') \<and> buf' = buf @ new \<and> m = n + length new
     | Inl e \<Rightarrow> \<exists>new. pending w = new @ pending w' \<and> buf' = buf @ new \<and> d \<notin> set new \<and> length new < limit)"
  let ?P = "\<lambda>fi co d limit n buf w y. fi = fill \<and> co = cons \<longrightarrow> ?Q d limit n buf w y"
  have "?P fill cons (CHR 0x0A) limit 0 buf w (r, buf', w')"
  proof (rule until_via.raw_induct [where P = ?P, OF _ run], rule impI, elim conjE)
    fix rec fi co d limit n buf w y
    assume IH0: "\<And>fi co d limit n buf w y. rec fi co d limit n buf w = Some y \<Longrightarrow> ?P fi co d limit n buf w y"
      and eq0: "(if limit = 0 then Some (Inr n, buf, co 0 w)
      else
        (case fi w of
           (Retry, w1) \<Rightarrow> rec fi co d limit n buf w1
         | (Fail e, w1) \<Rightarrow> Some (Inl e, buf, w1)
         | (Got b, w1) \<Rightarrow>
             (case position (\<lambda>x. x = d) (take limit b) of
                Some i \<Rightarrow> Some (Inr (n + (i + 1)), buf @ take (i + 1) b, co (i + 1) w1)
              | None \<Rightarrow>
                  (let used = length (take limit b); w2 = co used w1 in
                   if used = 0 then Some (Inr n, buf, w2)
                   else rec fi co d (limit - used) (n + used) (buf @ take limit b) w2)))) = Some y"
      and fi: "fi = fill" and co: "co = cons"
    have IH: "?Q d limit n buf w y" if "rec fill cons d limit n buf w = Some y" for d limit n buf w y
      using IH0 [OF that] by simp
    note eq = eq0 [unfolded fi co]
    show "?Q d limit n buf w y"
    proof (cases "limit = 0")
      case True
      with eq cons [of 0 w] show ?thesis by (auto simp: read_until_def)
    next
      case limit: False
      obtain f w1 where f: "fill w = (f, w1)" by fastforce
      note w1 = fill [OF f]
      show ?thesis
      proof (cases f)
        case Retry
        with eq limit f have "rec fill cons d limit n buf w1 = Some y" by simp
        from IH [OF this, unfolded w1 [THEN conjunct1] w1 [THEN conjunct2, THEN conjunct1]] show ?thesis .
      next
        case (Fail e)
        with eq limit f w1 show ?thesis by auto
      next
        case (Got b)
        from w1 Got obtain s where s: "pending w = b @ s" by blast
        have len: "k \<le> length b \<Longrightarrow> pending (cons k w1) = drop k (b @ s) \<and> written (cons k w1) = written w" for k
          using cons [of k w1] w1 s Got by simp
        show ?thesis
        proof (cases "position (\<lambda>x. x = d) (take limit b)")
          case (Some i)
          have i: "i < length b" "i < limit" using position_Some_less [OF Some] by auto
          have y: "y = (Inr (n + (i + 1)), buf @ take (i + 1) b, cons (i + 1) w1)"
            using eq limit f Got Some by simp
          have "position (\<lambda>x. x = d) (take limit (b @ s)) = Some i" using Some by (simp add: position_append)
          then have "read_until d limit (pending w) = (take (i + 1) b, drop (i + 1) (b @ s))"
            using i s by (simp add: read_until_def)
          with y len [of "i + 1"] i show ?thesis by simp
        next
          case None
          then have d: "d \<notin> set (take limit b)" by (auto simp: position_None)
          show ?thesis
          proof (cases "b = []")
            case True
            with w1 Got have "pending w = []" by simp
            with eq limit f Got None True len [of 0] s show ?thesis by (auto simp: read_until_def)
          next
            case False
            let ?u = "min (length b) limit"
            have u: "0 < ?u" "?u \<le> length b" using False limit by auto
            let ?w2 = "cons ?u w1"
            have "rec fill cons d (limit - ?u) (n + ?u) (buf @ take limit b) ?w2 = Some y"
              using eq limit f Got None u(1) by (simp add: Let_def)
            note q = IH [OF this]
            have w2: "pending ?w2 = drop ?u (b @ s)" "written ?w2 = written w" using len [OF u(2)] by auto
            have split: "pending w = take limit b @ pending ?w2" using s w2(1) by (simp add: min_def)
            have len': "length (take limit b) = ?u" "length (take limit b) \<le> limit" by auto
            show ?thesis
              using q w2(2) d u(1) read_until_append [OF d len'(2), of "pending ?w2"] unfolding split len'(1)
              by (cases y) (fastforce split: sum.splits)
          qed
        qed
      qed
    qed
  qed
  then show ?thesis by (cases r) (simp_all add: line_spec_def)
qed

definition write_spec ::
  "('w \<Rightarrow> bytes) \<Rightarrow> ('w \<Rightarrow> bytes) \<Rightarrow> bytes \<Rightarrow> 'w \<Rightarrow> ((unit, io_error) result \<times> 'w) exec \<Rightarrow> bool" where
  "write_spec pending written buf w y \<longleftrightarrow>
     (case y of
        Panic \<Rightarrow> False
      | Return (r, w') \<Rightarrow> pending w' = pending w \<and>
          (case r of Inr _ \<Rightarrow> written w' = written w @ buf | Inl e \<Rightarrow> \<exists>n. written w' = written w @ take n buf))"

lemma write_all_via_spec:
  assumes wr: "\<And>b w f w'. wr b w = (f, w') \<Longrightarrow> pending w' = pending w \<and>
      (case f of Wrote n \<Rightarrow> n \<le> length b \<and> written w' = written w @ take n b | _ \<Rightarrow> written w' = written w)"
    and run: "write_all_via wr buf w = Some y"
  shows "write_spec pending written buf w y"
proof -
  let ?Q = "write_spec pending written"
  let ?P = "\<lambda>wr' buf w y. wr' = wr \<longrightarrow> ?Q buf w y"
  have "?P wr buf w y"
  proof (rule write_all_via.raw_induct [where P = ?P, OF _ run], rule impI)
    fix rec wr' buf w y
    assume IH0: "\<And>wr' buf w y. rec wr' buf w = Some y \<Longrightarrow> ?P wr' buf w y"
      and eq0: "(if buf = [] then Some (Return (Inr (), w))
      else
        (case wr' buf w of
           (Wrote n, w1) \<Rightarrow>
             if n = 0 then Some (Return (Inl WriteZero, w1))
             else if length buf < n then Some Panic
             else rec wr' (drop n buf) w1
         | (WFail e, w1) \<Rightarrow> Some (Return (Inl e, w1))
         | (WRetry, w1) \<Rightarrow> rec wr' buf w1)) = Some y"
      and wr': "wr' = wr"
    note eq = eq0 [unfolded wr']
    have IH: "?Q buf w y" if "rec wr buf w = Some y" for buf w y using IH0 [OF that] by simp
    show "?Q buf w y"
    proof (cases "buf = []")
      case True
      with eq show ?thesis by (auto simp: write_spec_def)
    next
      case False
      obtain f w1 where f: "wr buf w = (f, w1)" by fastforce
      note w1 = wr [OF f]
      show ?thesis
      proof (cases f)
        case WRetry
        with eq False f have r: "rec wr buf w1 = Some y" by simp
        have w: "pending w1 = pending w" "written w1 = written w" using w1 WRetry by auto
        from IH [OF r] show ?thesis unfolding write_spec_def w .
      next
        case (WFail e)
        with eq False f w1 show ?thesis by (auto simp: write_spec_def intro: exI [of _ 0])
      next
        case (Wrote n)
        show ?thesis
        proof (cases "n = 0")
          case True
          with eq False f Wrote w1 show ?thesis by (auto simp: write_spec_def intro: exI [of _ 0])
        next
          case n: False
          with eq False f Wrote w1 have "rec wr (drop n buf) w1 = Some y" by simp
          note q = IH [OF this]
          have t: "take n buf @ take k (drop n buf) = take (n + k) buf" for k by (simp add: take_add)
          show ?thesis
          proof (cases y)
            case (Return p)
            obtain r' w' where p: "p = (r', w')" by fastforce
            show ?thesis using q w1 Wrote unfolding Return p by (cases r') (auto simp: write_spec_def t)
          qed (use q in \<open>simp add: write_spec_def\<close>)
        qed
      qed
    qed
  qed
  then show ?thesis by simp
qed

text \<open>A message that is read is the next message of the stream, whatever was in the buffer; a read
  that runs out of time has skipped blank lines at most.\<close>

definition read_spec ::
  "('w \<Rightarrow> bytes) \<Rightarrow> ('w \<Rightarrow> bytes) \<Rightarrow> nat \<Rightarrow> (bytes \<Rightarrow> ('m, ParseError) result option) \<Rightarrow>
   bytes \<Rightarrow> 'w \<Rightarrow> ('m, io_error) result \<Rightarrow> bytes \<Rightarrow> 'w \<Rightarrow> bool" where
  "read_spec pending written limit parse buf w r buf' w' \<longleftrightarrow> written w' = written w \<and>
    (case r of
       Inr m \<Rightarrow> read_msg limit parse [] (buf @ pending w) = Some (Inr m, pending w')
     | Inl e \<Rightarrow> time_error e \<longrightarrow> buf_ok limit buf' \<and> skips limit (buf @ pending w) (buf' @ pending w'))"

lemma read_msg_via_spec:
  assumes lines: "\<And>n buf w r buf' w'. read_line n buf w = Some (r, buf', w') \<Longrightarrow> line_spec pending written n buf w r buf' w'"
    and "read_msg_via read_line limit parse owned buf w = Some (r, buf', w')" and "buf_ok limit buf"
  shows "read_spec pending written limit parse buf w r buf' w'"
proof -
  let ?Q = "\<lambda>limit parse buf w (r, buf', w'). read_spec pending written limit parse buf w r buf' w'"
  let ?P = "\<lambda>rl limit parse owned buf w y. rl = read_line \<and> buf_ok limit buf \<longrightarrow> ?Q limit parse buf w y"
  have "?P read_line limit parse owned buf w (r, buf', w')"
  proof (rule read_msg_via.raw_induct [where P = ?P, OF _ assms(2)], rule impI, elim conjE)
    fix rec rl limit and parse :: "bytes \<Rightarrow> ('m, ParseError) result option" and owned :: bool and buf w y
    assume IH0: "\<And>rl limit parse owned buf w y. rec rl limit parse owned buf w = Some y \<Longrightarrow> ?P rl limit parse owned buf w y"
      and eq0: "(case (if length buf < limit then rl (limit - length buf) buf w else Some (Inr 1, buf, w)) of
        None \<Rightarrow> None
      | Some (Inl e, buf1, w1) \<Rightarrow> Some (Inl e, buf1, w1)
      | Some (Inr n, buf1, w1) \<Rightarrow>
          if n = 0 then Some (Inl UnexpectedEof, buf1, w1)
          else
            (case read_buf_from (rev buf1) False of
               (Again, rest) \<Rightarrow> rec rl limit parse owned (rev rest) w1
             | (BadEnd e, rest) \<Rightarrow> Some (Inl (InvalidData e), rev rest, w1)
             | (ParseLine l, rest) \<Rightarrow>
                 (case parse l of
                    None \<Rightarrow> None
                  | Some r \<Rightarrow> Some (map_err InvalidData r, if owned then [] else rev rest, w1)))) = Some y"
      and rl: "rl = read_line" and ok: "buf_ok limit buf"
    have IH: "?Q limit parse [] w y" if "rec read_line limit parse owned [] w = Some y" for w y
      using IH0 [OF that] ok by (auto simp: buf_ok_def)
    have nl: "CHR 0x0A \<notin> set buf" and len: "length buf < limit" using ok by (auto simp: buf_ok_def)
    note eq = eq0 [unfolded rl, simplified len if_True]
    obtain r1 buf1 w1 where u: "read_line (limit - length buf) buf w = Some (r1, buf1, w1)"
      using eq by (cases "read_line (limit - length buf) buf w") auto
    note spec = lines [OF u, unfolded line_spec_def]
    show "?Q limit parse buf w y"
    proof (cases r1)
      case (Inl e)
      with spec obtain new where "pending w = new @ pending w1" "buf1 = buf @ new" "CHR 0x0A \<notin> set new"
        "length new < limit - length buf" "written w1 = written w" by auto
      moreover have "y = (Inl e, buf1, w1)" using eq u Inl by simp
      ultimately show ?thesis using nl by (auto simp: read_spec_def buf_ok_def intro: skips_refl)
    next
      case (Inr n)
      with spec obtain new where r: "read_until (CHR 0x0A) (limit - length buf) (pending w) = (new, pending w1)"
        and b1: "buf1 = buf @ new" and n: "n = length new" and wr: "written w1 = written w" by auto
      have R: "read_until (CHR 0x0A) limit (buf @ pending w) = (buf1, pending w1)"
        using read_until_append [OF nl, of limit "pending w"] len r b1 by simp
      have app: "buf @ pending w = buf1 @ pending w1" using read_until_shrinks [OF R] .
      show ?thesis
      proof (cases "new = []")
        case True
        with eq u Inr n wr show ?thesis by (auto simp: read_spec_def time_error_def)
      next
        case False
        have limit: "0 < limit" using len by simp
        have b1l: "buf1 \<noteq> []" using b1 False by simp
        have cl: "read_msg limit parse [] (buf @ pending w) =
          (case read_buf (rev buf1) False of
              Again \<Rightarrow> read_msg limit parse [] (pending w1)
            | BadEnd e \<Rightarrow> Some (Inl (InvalidData e), pending w1)
            | ParseLine l \<Rightarrow>
                (case parse l of
                   None \<Rightarrow> None
                 | Some r \<Rightarrow> Some (map_err InvalidData r, pending w1)))"
          using R limit b1l by (subst read_msg.simps) simp
        obtain oc rest where o: "read_buf_from (rev buf1) False = (oc, rest)" by fastforce
        have oc: "read_buf (rev buf1) False = oc" using read_buf_from_outcome [of "rev buf1" False] o by simp
        show ?thesis
        proof (cases oc)
          case Again
          have len1: "length buf1 \<le> limit" using R by (auto simp: read_until_def split: option.splits dest: position_Some_less)
          have bl: "blank_line limit buf1"
            using read_buf_from_blank [OF o [unfolded Again] b1l _ len1] read_until_first [OF R] b1l by simp
          have "rec read_line limit parse owned [] w1 = Some y"
            using eq u Inr n False o Again read_buf_from_again [OF o [unfolded Again]] by simp
          note q = IH [OF this]
          show ?thesis using q cl oc Again wr skips_blank [OF bl, of "pending w1"] unfolding read_spec_def app
            by (cases y) (auto split: sum.splits)
        next
          case (BadEnd e)
          with eq u Inr n False o wr show ?thesis by (auto simp: read_spec_def time_error_def)
        next
          case (ParseLine l)
          then obtain r' where p: "parse l = Some r'" using eq u Inr n False o by (auto split: option.splits)
          then have y: "y = (map_err InvalidData r', if owned then [] else rev rest, w1)"
            using eq u Inr n False o ParseLine by simp
          show ?thesis unfolding y using cl oc ParseLine p wr by (cases r') (auto simp: read_spec_def time_error_def)
        qed
      qed
    qed
  qed
  with assms(3) show ?thesis by simp
qed

section \<open>The contract of a connection\<close>

text \<open>\<open>pending\<close> is what the peer has sent or will send and the client has not taken, \<open>filled\<close> the
  part of it a read has exposed, \<open>written\<close> what the connection has accepted.\<close>

text \<open>What \<open>send_to\<close> promises: \<open>sent\<close> is the line with what the buffer held before, and the buffer after it.\<close>

definition send_spec ::
  "('w \<Rightarrow> bytes) \<Rightarrow> ('w \<Rightarrow> bytes) \<Rightarrow> bytes \<times> bytes \<Rightarrow> 'w \<Rightarrow> ((unit, io_error) result \<times> bytes \<times> 'w) exec \<Rightarrow> bool" where
  "send_spec pending written sent w y \<longleftrightarrow>
     (case y of
        Panic \<Rightarrow> False
      | Return (r, buf', w') \<Rightarrow> pending w' = pending w \<and>
          (case r of
             Inr _ \<Rightarrow> written w' = written w @ fst sent \<and> buf' = snd sent
           | Inl e \<Rightarrow> buf' = fst sent \<and> (\<exists>n. written w' = written w @ take n (fst sent))))"

lemma send_via_spec:
  assumes "\<And>b y. wa b w = Some y \<Longrightarrow> write_spec pending written b w y" and "send_via wa line buf w = Some y"
  shows "send_spec pending written (buf @ line @ crlf, []) w y"
proof -
  define b where "b = buf @ line @ crlf"
  have run: "bind_exec (wa b w) (\<lambda>(r, w1).
      Some (Return (case r of Inl e \<Rightarrow> (Inl e, b, w1) | Inr _ \<Rightarrow> (Inr (), [], w1)))) = Some y"
    using assms(2) unfolding send_via_def b_def Let_def append_assoc .
  then obtain x where x: "wa b w = Some x" by (cases "wa b w") (auto simp: bind_exec_def)
  from assms(1) [OF x] run x show ?thesis unfolding b_def [symmetric]
    by (auto simp: bind_exec_def write_spec_def send_spec_def split: exec.splits sum.splits)
qed

locale buf_conn =
  fixes c :: "'w connection" and pending filled written :: "'w \<Rightarrow> bytes"
  assumes now_frame: "c_now c w = (t, w') \<Longrightarrow> pending w' = pending w \<and> written w' = written w"
    and sleep_frame: "pending (c_sleep c d w) = pending w \<and> written (c_sleep c d w) = written w"
    and set_read_frame: "c_set_read_timeout c tmo w = (r, w') \<Longrightarrow> pending w' = pending w \<and> written w' = written w"
    and set_write_frame: "c_set_write_timeout c tmo w = (r, w') \<Longrightarrow> pending w' = pending w \<and> written w' = written w"
    and flush_frame: "c_flush c w = (r, w') \<Longrightarrow> pending w' = pending w \<and> written w' = written w"
    and fill_err: "c_fill_buf c w = (Inl e, w') \<Longrightarrow> pending w' = pending w \<and> written w' = written w"
    and fill_ok: "c_fill_buf c w = (Inr b, w') \<Longrightarrow> pending w' = pending w \<and> written w' = written w \<and>
      filled w' = b \<and> (\<exists>s. pending w = b @ s) \<and> (b = [] \<longrightarrow> pending w = [])"
    and consume_ok: "n \<le> length (filled w) \<Longrightarrow>
      pending (c_consume c n w) = drop n (pending w) \<and> written (c_consume c n w) = written w"
    and write_ok: "c_write c b w = (Inr n, w') \<Longrightarrow>
      n \<le> length b \<and> pending w' = pending w \<and> written w' = written w @ take n b"
    and write_err: "c_write c b w = (Inl e, w') \<Longrightarrow> pending w' = pending w \<and> written w' = written w"
begin

lemma update_timeout_frame:
  "update_timeout c dl w = (r, w') \<Longrightarrow> pending w' = pending w \<and> written w' = written w"
  by (auto simp: update_timeout_def Let_def split: option.splits prod.splits if_splits dest!: now_frame set_read_frame)

lemma tls_fill_err:
  "tls_fill_buf c dl w = (Inl e, w') \<Longrightarrow> pending w' = pending w \<and> written w' = written w"
  by (auto simp: tls_fill_buf_def split: prod.splits sum.splits dest!: update_timeout_frame fill_err)

lemma tls_fill_ok:
  assumes "tls_fill_buf c dl w = (Inr b, w')"
  shows "pending w' = pending w \<and> written w' = written w \<and> filled w' = b \<and> (\<exists>s. pending w = b @ s) \<and> (b = [] \<longrightarrow> pending w = [])"
proof -
  obtain r w1 where u: "update_timeout c dl w = (r, w1)" by fastforce
  with assms have "c_fill_buf c w1 = (Inr b, w')" by (auto simp: tls_fill_buf_def split: sum.splits)
  from fill_ok [OF this] update_timeout_frame [OF u] show ?thesis by simp
qed

lemma consume_zero: "pending (c_consume c 0 w) = pending w \<and> written (c_consume c 0 w) = written w"
  using consume_ok [of 0 w] by simp

lemma sync_fill_frame:
  assumes "sync_fill c dl w = (f, w')"
  shows "pending w' = pending w \<and> written w' = written w \<and>
    (\<forall>b. f = Got b \<longrightarrow> filled w' = b \<and> (\<exists>s. pending w = b @ s) \<and> (b = [] \<longrightarrow> pending w = []))"
proof -
  obtain r w1 where r: "tls_fill_buf c dl w = (r, w1)" by fastforce
  show ?thesis
  proof (cases r)
    case (Inl e)
    with assms r tls_fill_err [OF r [unfolded Inl]] show ?thesis by (auto simp: sync_fill_def split: if_splits)
  next
    case (Inr b)
    with assms r tls_fill_ok [OF r [unfolded Inr]] show ?thesis by (auto simp: sync_fill_def)
  qed
qed

lemma read_msg_from_spec:
  assumes "read_msg_from limit parse owned c dl buf w = Some (r, buf', w')" and "buf_ok limit buf"
  shows "read_spec pending written limit parse buf w r buf' w'"
proof (rule read_msg_via_spec [OF _ assms(1) [unfolded read_msg_from_def] assms(2)])
  fix n buf w r buf' w'
  assume "io_read_until c dl (CHR 0x0A) n 0 buf w = Some (r, buf', w')"
  from until_via_spec [OF sync_fill_frame _ this [unfolded io_read_until_def]]
  show "line_spec pending written n buf w r buf' w'" by (simp add: tls_consume_def consume_ok)
qed

lemma io_write_all_spec:
  assumes "io_write_all c buf w = Some y"
  shows "write_spec pending written buf w y"
proof (rule write_all_via_spec [OF _ assms [unfolded io_write_all_def]])
  fix b w f w'
  assume wr: "sync_write c b w = (f, w')"
  obtain r w1 where r: "c_write c b w = (r, w1)" by fastforce
  show "pending w' = pending w \<and> (case f of Wrote n \<Rightarrow> n \<le> length b \<and> written w' = written w @ take n b | _ \<Rightarrow> written w' = written w)"
  proof (cases r)
    case (Inl e)
    with wr r write_err [OF r [unfolded Inl]] show ?thesis by (auto simp: sync_write_def split: if_splits)
  next
    case (Inr n)
    with wr r write_ok [OF r [unfolded Inr]] show ?thesis by (auto simp: sync_write_def)
  qed
qed

lemma client_send_io_spec:
  "client_send_io c msg buf w = Some y \<Longrightarrow> send_spec pending written (client_send_to msg buf) w y"
  unfolding client_send_io_def client_send_to_def Let_def append_assoc crlf_def [symmetric] by (rule send_via_spec [OF io_write_all_spec])

lemma server_send_io_spec:
  "server_send_io c msg buf w = Some y \<Longrightarrow> send_spec pending written (server_send_to msg buf) w y"
  unfolding server_send_io_def server_send_to_def Let_def append_assoc crlf_def [symmetric] by (rule send_via_spec [OF io_write_all_spec])

end

section \<open>Time\<close>

text \<open>The loops do not turn back a clock that their steps do not turn back.\<close>

lemma until_via_later:
  fixes clock :: "'w \<Rightarrow> nat"
  assumes fill: "\<And>w f w'. fill w = (f, w') \<Longrightarrow> clock w \<le> clock w'" and cons: "\<And>n w. clock w \<le> clock (cons n w)"
    and run: "until_via fill cons d limit n buf w = Some (r, buf', w')"
  shows "clock w \<le> clock w'"
proof -
  let ?P = "\<lambda>fi co d limit n buf w (r, buf', w'). fi = fill \<and> co = cons \<longrightarrow> clock w \<le> clock w'"
  have "?P fill cons d limit n buf w (r, buf', w')"
  proof (rule until_via.raw_induct [where P = ?P, OF _ run], goal_cases)
    case (1 rec fi co d limit n buf w y)
    obtain f w1 where f: "fi w = (f, w1)" by fastforce
    have "clock w1 \<le> clock (co k w1)" if "co = cons" for k using cons that by simp
    then show ?case
      using 1(2) f fill [of w f w1] cons [of w 0]
      by (auto simp: Let_def split: if_splits attempt.splits option.splits dest!: 1(1) intro: order_trans)
  qed
  then show ?thesis by simp
qed

lemma write_all_via_later:
  fixes clock :: "'w \<Rightarrow> nat"
  assumes wr: "\<And>b w f w'. wr b w = (f, w') \<Longrightarrow> clock w \<le> clock w'"
    and run: "write_all_via wr buf w = Some (Return (r, w'))"
  shows "clock w \<le> clock w'"
proof -
  let ?P = "\<lambda>wr' buf w y. wr' = wr \<longrightarrow> (\<forall>r w'. y = Return (r, w') \<longrightarrow> clock w \<le> clock w')"
  have "?P wr buf w (Return (r, w'))"
  proof (rule write_all_via.raw_induct [where P = ?P, OF _ run], goal_cases)
    case (1 rec wr' buf w y)
    obtain f w1 where f: "wr' buf w = (f, w1)" by fastforce
    show ?case
      using 1(2) f wr [of buf w f w1]
      by (auto split: if_splits wrote.splits dest!: 1(1) intro: order_trans)
  qed
  then show ?thesis by simp
qed

lemma read_msg_via_later:
  fixes clock :: "'w \<Rightarrow> nat"
  assumes lines: "\<And>n buf w r buf' w'. read_line n buf w = Some (r, buf', w') \<Longrightarrow> clock w \<le> clock w'"
    and run: "read_msg_via read_line limit parse owned buf w = Some (r, buf', w')"
  shows "clock w \<le> clock w'"
proof -
  let ?P = "\<lambda>rl limit parse owned buf w (r, buf', w'). rl = read_line \<longrightarrow> clock w \<le> clock w'"
  have "?P read_line limit parse owned buf w (r, buf', w')"
  proof (rule read_msg_via.raw_induct [where P = ?P, OF _ run], goal_cases)
    case (1 rec rl limit parse owned buf w y)
    show ?case
      using 1(2) lines [of "limit - length buf" buf w]
      by (auto split: if_splits option.splits sum.splits prod.splits buf_outcome.splits dest!: 1(1) intro: order_trans)
  qed
  then show ?thesis by simp
qed

text \<open>A connection with the clock of the machine, \<open>clock w\<close> being the time in the state \<open>w\<close>: the documentation of
  \<open>Instant\<close> says that it is never turned back.\<close>

locale timed_conn = buf_conn c pending filled written
  for c :: "'w connection" and pending filled written +
  fixes clock :: "'w \<Rightarrow> nat"
  assumes now_clock: "c_now c w = (t, w') \<Longrightarrow> clock w \<le> t \<and> t \<le> clock w'"
    and sleep_later: "clock w \<le> clock (c_sleep c d w)"
    and set_read_later: "c_set_read_timeout c tmo w = (r, w') \<Longrightarrow> clock w \<le> clock w'"
    and set_write_later: "c_set_write_timeout c tmo w = (r, w') \<Longrightarrow> clock w \<le> clock w'"
    and fill_later: "c_fill_buf c w = (x, w') \<Longrightarrow> clock w \<le> clock w'"
    and consume_later: "clock w \<le> clock (c_consume c n w)"
    and write_later: "c_write c b w = (y, w') \<Longrightarrow> clock w \<le> clock w'"
    and flush_later: "c_flush c w = (r, w') \<Longrightarrow> clock w \<le> clock w'"
begin

lemma now_later: "c_now c w = (t, w') \<Longrightarrow> clock w \<le> clock w'"
  using now_clock by (blast intro: order_trans)

lemma sync_fill_later: "sync_fill c dl w = (f, w') \<Longrightarrow> clock w \<le> clock w'"
  by (auto simp: sync_fill_def tls_fill_buf_def update_timeout_def Let_def split: option.splits prod.splits if_splits sum.splits
      dest!: now_later set_read_later fill_later intro: order_trans)

lemma sync_write_later: "sync_write c b w = (f, w') \<Longrightarrow> clock w \<le> clock w'"
  by (auto simp: sync_write_def split: prod.splits sum.splits dest!: write_later)

lemma read_msg_from_later: "read_msg_from limit parse owned c dl buf w = Some (r, buf', w') \<Longrightarrow> clock w \<le> clock w'"
  unfolding read_msg_from_def io_read_until_def
  by (erule read_msg_via_later [rotated])
    (erule until_via_later [where fill = "sync_fill c dl" and cons = "tls_consume c" for dl, rotated 2],
      auto simp: tls_consume_def consume_later dest: sync_fill_later)

lemma io_write_all_later: "io_write_all c buf w = Some (Return (r, w')) \<Longrightarrow> clock w \<le> clock w'"
  unfolding io_write_all_def by (erule write_all_via_later [rotated]) (rule sync_write_later)

end

end
