(* ===== verification/Client.thy ===== *)
theory Client
  imports ConnIo
begin

text \<open>
  The client (\<open>client.rs\<close>) and its blocking loop \<open>run\<close> with \<open>flush_partial\<close> (\<open>client/conn/sync.rs\<close>).
  A client owns its connection with the message buffers, the logic, the channel specification and
  the closure for read timeouts.  What the blocking and the asynchronous loop share is written once,
  over the operations in which they differ.  The abstract client of the second half has no buffers
  and no socket: it takes messages from a stream and appends messages to another while time passes; a
  loop over a flush and a read that are steps of it (the locale \<open>client_io\<close>) refines it.
\<close>

section \<open>The client (\<open>client.rs\<close>)\<close>

type_synonym ('h, 'c, 'v, 'a, 'l, 'f) timeout_fn =
  "(('f \<Rightarrow> ('h, 'c, 'v, 'a, 'l) client_logic \<Rightarrow> unit control_flow \<times> ('h, 'c, 'v, 'a, 'l) client_logic \<times> 'f) \<times> 'f) option"

record ('w, 'h, 'c, 'v, 'a, 'l, 's, 'f) client =
  k_conn :: "'w msg_io"
  k_spec :: 's
  k_logic :: "('h, 'c, 'v, 'a, 'l) client_logic"
  k_on_timeout :: "('h, 'c, 'v, 'a, 'l, 'f) timeout_fn"

definition new_with_logic ::
  "'w \<Rightarrow> 's \<Rightarrow> ('h, 'c, 'v, 'a, 'l) client_logic \<Rightarrow> ('w, 'h, 'c, 'v, 'a, 'l, 's, 'f) client" where
  "new_with_logic conn spec logic = \<lparr>k_conn = mi_new conn, k_spec = spec, k_logic = logic, k_on_timeout = None\<rparr>"

definition client_new :: "nat \<Rightarrow> 'w \<Rightarrow> 's \<Rightarrow> ('w, 'h, 'c, 'v, 'a, 'l, 's, 'f) client" where
  "client_new now conn spec = new_with_logic conn spec (cl_new now)"

definition new_with_queue ::
  "nat \<Rightarrow> 'w \<Rightarrow> 's \<Rightarrow> ('a, 'l) queue \<Rightarrow> ('w, 'h, 'c, 'v, 'a, 'l, 's, 'f) client" where
  "new_with_queue now conn spec q = new_with_logic conn spec (with_queue q (cl_new now))"

text \<open>\<open>mkch\<close> is \<open>MakeHandler::make_channel\<close>.\<close>

definition client_add ::
  "('s \<Rightarrow> ('c, 'v) sender \<times> 'r) \<Rightarrow> ('t, 'h, 'c, 'v, 'a, 'l, 'er) make_handler \<Rightarrow> 't \<Rightarrow>
   ('w, 'h, 'c, 'v, 'a, 'l, 's, 'f) client \<Rightarrow> (nat \<times> 'r, 'er) result \<times> ('w, 'h, 'c, 'v, 'a, 'l, 's, 'f) client" where
  "client_add mkch mk v k =
     (let (send, recv) = mkch (k_spec k); (r, l) = add_with_sender send mk v (k_logic k)
      in (bind_res r (\<lambda>i. Inr (i, recv)), k\<lparr>k_logic := l\<rparr>))"

definition take_conn :: "('w, 'h, 'c, 'v, 'a, 'l, 's, 'f) client \<Rightarrow> 'w" where
  "take_conn k = mi_conn (k_conn k)"

definition with_conn ::
  "'w2 \<Rightarrow> ('w, 'h, 'c, 'v, 'a, 'l, 's, 'f) client \<Rightarrow> ('w2, 'h, 'c, 'v, 'a, 'l, 's, 'f) client" where
  "with_conn conn k =
     \<lparr>k_conn = \<lparr>mi_conn = conn, mi_buf_i = mi_buf_i (k_conn k), mi_buf_o = mi_buf_o (k_conn k)\<rparr>,
      k_spec = k_spec k,
      k_logic = (k_logic k)\<lparr>cl_timeout := require_update (cl_timeout (k_logic k))\<rparr>,
      k_on_timeout = k_on_timeout k\<rparr>"

definition with_spec ::
  "'s2 \<Rightarrow> ('w, 'h, 'c, 'v, 'a, 'l, 's, 'f) client \<Rightarrow> ('w, 'h, 'c, 'v, 'a, 'l, 's2, 'f) client" where
  "with_spec spec k =
     \<lparr>k_conn = k_conn k, k_spec = spec, k_logic = k_logic k, k_on_timeout = k_on_timeout k\<rparr>"

definition client_queue :: "('w, 'h, 'c, 'v, 'a, 'l, 's, 'f) client \<Rightarrow> ('a, 'l) queue" where
  "client_queue k = cl_queue (k_logic k)"

definition client_queue_mut ::
  "(('a, 'l) queue \<Rightarrow> ('a, 'l) queue) \<Rightarrow> ('w, 'h, 'c, 'v, 'a, 'l, 's, 'f) client \<Rightarrow> ('w, 'h, 'c, 'v, 'a, 'l, 's, 'f) client" where
  "client_queue_mut f k = k\<lparr>k_logic := (k_logic k)\<lparr>cl_queue := f (cl_queue (k_logic k))\<rparr>\<rparr>"

definition client_state_ref :: "('w, 'h, 'c, 'v, 'a, 'l, 's, 'f) client \<Rightarrow> client_state" where
  "client_state_ref k = cl_state (k_logic k)"

definition client_state_mut ::
  "(client_state \<Rightarrow> client_state) \<Rightarrow> ('w, 'h, 'c, 'v, 'a, 'l, 's, 'f) client \<Rightarrow> ('w, 'h, 'c, 'v, 'a, 'l, 's, 'f) client" where
  "client_state_mut f k = k\<lparr>k_logic := (k_logic k)\<lparr>cl_state := f (cl_state (k_logic k))\<rparr>\<rparr>"

definition set_timeout_fn ::
  "('h, 'c, 'v, 'a, 'l, 'f) timeout_fn \<Rightarrow> ('w, 'h, 'c, 'v, 'a, 'l, 's, 'f) client \<Rightarrow> ('w, 'h, 'c, 'v, 'a, 'l, 's, 'f) client" where
  "set_timeout_fn f k = (case f of Some g \<Rightarrow> k\<lparr>k_on_timeout := Some g\<rparr> | None \<Rightarrow> k\<lparr>k_on_timeout := None\<rparr>)"

definition client_set_read_timeout ::
  "nat option \<Rightarrow> ('w, 'h, 'c, 'v, 'a, 'l, 's, 'f) client \<Rightarrow> ('w, 'h, 'c, 'v, 'a, 'l, 's, 'f) client" where
  "client_set_read_timeout t k = k\<lparr>k_logic := cl_set_read_timeout t (k_logic k)\<rparr>"

definition client_set_write_timeout ::
  "nat option \<Rightarrow> ('w, 'h, 'c, 'v, 'a, 'l, 's, 'f) client \<Rightarrow> ('w, 'h, 'c, 'v, 'a, 'l, 's, 'f) client" where
  "client_set_write_timeout t k = k\<lparr>k_logic := cl_set_write_timeout t (k_logic k)\<rparr>"

definition client_add_with_spec ::
  "('c, 'v) sender \<times> 'r \<Rightarrow> ('t, 'h, 'c, 'v, 'a, 'l, 'er) make_handler \<Rightarrow> 't \<Rightarrow>
   ('w, 'h, 'c, 'v, 'a, 'l, 's, 'f) client \<Rightarrow> (nat \<times> 'r, 'er) result \<times> ('w, 'h, 'c, 'v, 'a, 'l, 's, 'f) client" where
  "client_add_with_spec channel mk v k =
     (let (r, l) = add_with_spec channel mk v (k_logic k) in (r, k\<lparr>k_logic := l\<rparr>))"

definition client_add_with_sender ::
  "('c, 'v) sender \<Rightarrow> ('t, 'h, 'c, 'v, 'a, 'l, 'er) make_handler \<Rightarrow> 't \<Rightarrow>
   ('w, 'h, 'c, 'v, 'a, 'l, 's, 'f) client \<Rightarrow> (nat, 'er) result \<times> ('w, 'h, 'c, 'v, 'a, 'l, 's, 'f) client" where
  "client_add_with_sender snder mk v k =
     (let (r, l) = add_with_sender snder mk v (k_logic k) in (r, k\<lparr>k_logic := l\<rparr>))"

definition client_reset :: "nat \<Rightarrow> ('w, 'h, 'c, 'v, 'a, 'l, 's, 'f) client \<Rightarrow> ('w, 'h, 'c, 'v, 'a, 'l, 's, 'f) client" where
  "client_reset now k = k\<lparr>k_conn := mi_reset (k_conn k), k_logic := cl_reset now (k_logic k)\<rparr>"

definition reset_with_conn ::
  "nat \<Rightarrow> 'w \<Rightarrow> ('w, 'h, 'c, 'v, 'a, 'l, 's, 'f) client \<Rightarrow> 'w \<times> ('w, 'h, 'c, 'v, 'a, 'l, 's, 'f) client" where
  "reset_with_conn now conn k =
     (let k1 = k\<lparr>k_conn := (k_conn k)\<lparr>mi_conn := conn\<rparr>\<rparr>;
          k2 = k1\<lparr>k_logic := (k_logic k1)\<lparr>cl_timeout := require_update (cl_timeout (k_logic k1))\<rparr>\<rparr>
      in (mi_conn (k_conn k), client_reset now k2))"

definition client_needs_run :: "('w, 'h, 'c, 'v, 'a, 'l, 's, 'f) client \<Rightarrow> bool" where
  "client_needs_run k \<longleftrightarrow> needs_run (k_logic k)"

section \<open>Flushing the queue (\<open>client/conn/sync.rs\<close>)\<close>

text \<open>\<open>Queue::pop\<close> reads the clock when there is a message, and again when it is taken.\<close>

definition pop_now ::
  "('w \<Rightarrow> nat \<times> 'w) \<Rightarrow> nat \<Rightarrow> ('a, 'l) queue \<Rightarrow> 'w \<Rightarrow> (pop_outcome \<times> ('a, 'l) queue \<times> 'w) exec" where
  "pop_now now imax q w =
     (if queue_is_empty q then Return (PopTimeout None, q, w)
      else
        (let (t1, w1) = now w in
         if q_timepoint q - t1 - q_sub q = 0 then
           (let (t2, w2) = now w1 in
            case pop imax t1 t2 q of None \<Rightarrow> Panic | Some (r, q') \<Rightarrow> Return (r, q', w2))
         else (case pop imax t1 t1 q of None \<Rightarrow> Panic | Some (r, q') \<Rightarrow> Return (r, q', w1))))"

lemma pop_now_shrinks: "pop_now now imax q w = Return (PopMsg m, q', w') \<Longrightarrow> q_queue q = m # q_queue q'"
  by (auto simp: pop_now_def pop_def Let_def queue_is_empty_def split: prod.splits list.splits if_splits option.splits)

function flush_loop ::
  "('w \<Rightarrow> nat \<times> 'w) \<Rightarrow> nat \<Rightarrow> ('a, 'l) queue \<Rightarrow> bytes \<Rightarrow> 'w \<Rightarrow> (nat option \<times> ('a, 'l) queue \<times> bytes \<times> 'w) exec" where
  "flush_loop now imax q buf w =
     (case pop_now now imax q w of
        Panic \<Rightarrow> Panic
      | Return (PopTimeout timeout, q', w') \<Rightarrow> Return (timeout, q', buf, w')
      | Return (PopMsg popped, q', w') \<Rightarrow> flush_loop now imax q' ((buf @ client_write_to popped) @ crlf) w')"
  by pat_completeness auto
termination
  by (relation "measure (\<lambda>(now, imax, q, buf, w). length (q_queue q))") (auto dest!: pop_now_shrinks)

declare flush_loop.simps [simp del]

definition put_world :: "'w \<Rightarrow> ('w, 'h, 'c, 'v, 'a, 'l, 's, 'f) client \<Rightarrow> ('w, 'h, 'c, 'v, 'a, 'l, 's, 'f) client" where
  "put_world w k = k\<lparr>k_conn := (k_conn k)\<lparr>mi_conn := w\<rparr>\<rparr>"

text \<open>The body of \<open>flush_partial\<close> over a clock, a \<open>write_all\<close> and a \<open>flush\<close>.\<close>

type_synonym 'k flush_op = "'k \<Rightarrow> ((nat option, io_error) result \<times> 'k) exec option"

definition flush_via ::
  "('w \<Rightarrow> nat \<times> 'w) \<Rightarrow> (bytes \<Rightarrow> 'w \<Rightarrow> ((unit, io_error) result \<times> 'w) exec option) \<Rightarrow>
   ('w \<Rightarrow> ((unit, io_error) result \<times> 'w) exec option) \<Rightarrow> nat \<Rightarrow> ('w, 'h, 'c, 'v, 'a, 'l, 's, 'f) client flush_op" where
  "flush_via now write_all flush imax k =
     (if queue_is_empty (cl_queue (k_logic k)) then Some (Return (Inr None, k))
      else
        (case flush_loop now imax (cl_queue (k_logic k)) (mi_buf_o (k_conn k)) (mi_conn (k_conn k)) of
           Panic \<Rightarrow> Some Panic
         | Return (timeout, q, buf_o, w) \<Rightarrow>
             bind_exec (write_all buf_o w) (\<lambda>(result, w1).
               let k1 = k\<lparr>k_logic := (k_logic k)\<lparr>cl_queue := q\<rparr>,
                          k_conn := (k_conn k)\<lparr>mi_conn := w1, mi_buf_o := []\<rparr>\<rparr>
               in case result of
                    Inl e \<Rightarrow> Some (Return (Inl e, k1))
                  | Inr _ \<Rightarrow>
                      bind_exec (flush w1) (\<lambda>(result2, w2).
                        case result2 of
                          Inl e \<Rightarrow> Some (Return (Inl e, put_world w2 k1))
                        | Inr _ \<Rightarrow> Some (Return (Inr timeout, put_world w2 k1))))))"

definition flush_partial :: "'w connection \<Rightarrow> nat \<Rightarrow> ('w, 'h, 'c, 'v, 'a, 'l, 's, 'f) client flush_op" where
  "flush_partial c imax k = flush_via (c_now c) (io_write_all c) (\<lambda>w. Some (Return (c_flush c w))) imax k"

section \<open>The loop\<close>

datatype ('k, 'x) turn = Next 'k | Finish 'x 'k

type_synonym run_result = "((nat list \<times> nat list) option, io_error) result"

text \<open>A read that timed out for lack of input.\<close>

definition timed_out ::
  "('w, 'h, 'c, 'v, 'a, 'l, 's, 'f) client \<Rightarrow> (('w, 'h, 'c, 'v, 'a, 'l, 's, 'f) client, run_result) turn" where
  "timed_out k =
     (case k_on_timeout k of
        Some (f, s) \<Rightarrow>
          (let (flow, l, s') = f s (k_logic k); k1 = k\<lparr>k_logic := l, k_on_timeout := Some (f, s')\<rparr>
           in case flow of Continue \<Rightarrow> Next k1 | Break _ \<Rightarrow> Finish (Inl TimedOut) k1)
      | None \<Rightarrow> Finish (Inr None) k)"

text \<open>A message that was read.\<close>

definition handle_turn ::
  "('w, 'h, 'c, 'v, 'a, 'l, 's, 'f) client flush_op \<Rightarrow> server_msg \<Rightarrow> ('w, 'h, 'c, 'v, 'a, 'l, 's, 'f) client \<Rightarrow>
   (('w, 'h, 'c, 'v, 'a, 'l, 's, 'f) client, run_result) turn exec option" where
  "handle_turn flush msg k =
     (let (finished_at, l) = run_once msg (k_logic k);
          k1 = k\<lparr>k_logic := l, k_conn := (k_conn k)\<lparr>mi_buf_i := []\<rparr>\<rparr>
      in if has_results finished_at (cl_handlers l) then
           bind_exec (flush k1) (\<lambda>(r, k2).
             case r of
               Inl e \<Rightarrow> Some (Return (Finish (Inl e) k2))
             | Inr _ \<Rightarrow>
                 (case last_run_results finished_at (cl_handlers (k_logic k2)) of
                    None \<Rightarrow> Some Panic
                  | Some ids \<Rightarrow> Some (Return (Finish (Inr (Some ids)) k2))))
         else Some (Return (Next k1)))"

text \<open>One turn of the loop.  A read gives a message, an error, or the news that time ran out and
  whether the time limit came from the queue.\<close>

type_synonym 'k read_op = "nat option \<Rightarrow> 'k \<Rightarrow> (((server_msg, bool) result, io_error) result \<times> 'k) option"

definition turn_via ::
  "('w, 'h, 'c, 'v, 'a, 'l, 's, 'f) client flush_op \<Rightarrow> (nat \<Rightarrow> 'w \<Rightarrow> 'w) \<Rightarrow>
   ('w, 'h, 'c, 'v, 'a, 'l, 's, 'f) client read_op \<Rightarrow> ('w, 'h, 'c, 'v, 'a, 'l, 's, 'f) client \<Rightarrow>
   (('w, 'h, 'c, 'v, 'a, 'l, 's, 'f) client, run_result) turn exec option" where
  "turn_via flush sleep read k =
     bind_exec (flush k) (\<lambda>(r, k1).
       case r of
         Inl e \<Rightarrow> Some (Return (Finish (Inl e) k1))
       | Inr wait_for \<Rightarrow>
           if handlers_is_empty (cl_handlers (k_logic k1)) then
             (case wait_for of
                Some d \<Rightarrow> Some (Return (Next (put_world (sleep d (mi_conn (k_conn k1))) k1)))
              | None \<Rightarrow> Some (Return (Finish (Inr (Some ([], []))) k1)))
           else
             (case read wait_for k1 of
                None \<Rightarrow> None
              | Some (Inl e, k2) \<Rightarrow> Some (Return (Finish (Inl e) k2))
              | Some (Inr (Inl by_queue), k2) \<Rightarrow> Some (Return (if by_queue then Next k2 else timed_out k2))
              | Some (Inr (Inr msg), k2) \<Rightarrow> handle_turn flush msg k2))"

partial_function (option) turns ::
  "('k \<Rightarrow> ('k, 'x) turn exec option) \<Rightarrow> 'k \<Rightarrow> ('x \<times> 'k) exec option" where
  "turns turn k =
     (case turn k of
        None \<Rightarrow> None
      | Some Panic \<Rightarrow> Some Panic
      | Some (Return (Next k1)) \<Rightarrow> turns turn k1
      | Some (Return (Finish r k1)) \<Rightarrow> Some (Return (r, k1)))"

declare turns.simps [code]

text \<open>The blocking read of \<open>run\<close>, and \<open>run\<close>.\<close>

definition read_step :: "'w connection \<Rightarrow> nat \<Rightarrow> ('w, 'h, 'c, 'v, 'a, 'l, 's, 'f) client read_op" where
  "read_step c imax wait_for k =
     (case tls_new c imax (cl_timeout (k_logic k)) wait_for (mi_conn (k_conn k)) of
        (r, lims, w) \<Rightarrow>
          (let k1 = put_world w (k\<lparr>k_logic := (k_logic k)\<lparr>cl_timeout := lims\<rparr>\<rparr>) in
           case r of
             Inl e \<Rightarrow> Some (Inl e, k1)
           | Inr (deadline, rto_from_queue) \<Rightarrow>
               (case (if hs_wants_owning (cl_handlers (k_logic k1))
                      then client_read_owning_from c deadline (mi_buf_i (k_conn k1)) w
                      else client_read_borrowing_from c deadline (mi_buf_i (k_conn k1)) w) of
                  None \<Rightarrow> None
                | Some (msg, buf_i, w1) \<Rightarrow>
                    Some (case filter_time_error msg of
                            Inl e \<Rightarrow> Inl e
                          | Inr None \<Rightarrow> Inr (Inl rto_from_queue)
                          | Inr (Some m) \<Rightarrow> Inr (Inr m),
                          k1\<lparr>k_conn := (k_conn k1)\<lparr>mi_conn := w1, mi_buf_i := buf_i\<rparr>\<rparr>))))"

definition run_turn ::
  "'w connection \<Rightarrow> nat \<Rightarrow> ('w, 'h, 'c, 'v, 'a, 'l, 's, 'f) client \<Rightarrow>
   (('w, 'h, 'c, 'v, 'a, 'l, 's, 'f) client, run_result) turn exec option" where
  "run_turn c imax = turn_via (flush_partial c imax) (c_sleep c) (read_step c imax)"

definition run ::
  "'w connection \<Rightarrow> nat \<Rightarrow> ('w, 'h, 'c, 'v, 'a, 'l, 's, 'f) client \<Rightarrow>
   (run_result \<times> ('w, 'h, 'c, 'v, 'a, 'l, 's, 'f) client) exec option" where
  "run c imax k = turns (run_turn c imax) k"

section \<open>The abstract client\<close>

text \<open>The state is the logic, the closure for timeouts, the stream of the server that is still to be
  read, what the client has sent, and the time.  A message leaves the queue when the queue lets it go at
  an instant between the time before the step and the time after it: a client that does not look at the
  clock is not a refinement.  The closure for timeouts runs only when nothing is queued.\<close>

type_synonym ('h, 'c, 'v, 'a, 'l, 'f) abs_client =
  "('h, 'c, 'v, 'a, 'l) client_logic \<times> ('h, 'c, 'v, 'a, 'l, 'f) timeout_fn \<times> bytes \<times> bytes \<times> nat"

inductive client_step ::
  "nat \<Rightarrow> ('h, 'c, 'v, 'a, 'l, 'f) abs_client \<Rightarrow> ('h, 'c, 'v, 'a, 'l, 'f) abs_client \<Rightarrow> bool" for imax where
  step_send: "t \<le> t1 \<Longrightarrow> t1 \<le> t2 \<Longrightarrow> t2 \<le> t' \<Longrightarrow> pop imax t1 t2 (cl_queue l) = Some (PopMsg m, q) \<Longrightarrow>
    client_step imax (l, f, i, out, t) (l\<lparr>cl_queue := q\<rparr>, f, i, out @ client_write_to m @ crlf, t')"
| step_receive: "client_read [] i = Some (Inr m, i') \<Longrightarrow>
    client_step imax (l, f, i, out, t) (snd (run_once m l), f, i', out, t)"
| step_blank: "blank_line server_MAX_LEN b \<Longrightarrow> client_step imax (l, f, b @ i, out, t) (l, f, i, out, t)"
| step_limits: "client_step imax (l, f, i, out, t)
    (l\<lparr>cl_timeout := (cl_timeout l)\<lparr>tl_update_write := False\<rparr>\<rparr>, f, i, out, t)"
| step_timeout: "f s l = (flow, l', s') \<Longrightarrow> q_queue (cl_queue l) = [] \<Longrightarrow>
    client_step imax (l, Some (f, s), i, out, t) (l', Some (f, s'), i, out, t)"
| step_tick: "t \<le> t' \<Longrightarrow> client_step imax (l, f, i, out, t) (l, f, i, out, t')"

abbreviation client_steps where
  "client_steps imax \<equiv> (client_step imax)\<^sup>*\<^sup>*"

definition client_abs ::
  "('w \<Rightarrow> bytes) \<Rightarrow> ('w \<Rightarrow> bytes) \<Rightarrow> ('w \<Rightarrow> nat) \<Rightarrow> ('w, 'h, 'c, 'v, 'a, 'l, 's, 'f) client \<Rightarrow>
   ('h, 'c, 'v, 'a, 'l, 'f) abs_client" where
  "client_abs pending written clock k =
     (k_logic k, k_on_timeout k, mi_buf_i (k_conn k) @ pending (mi_conn (k_conn k)), written (mi_conn (k_conn k)),
      clock (mi_conn (k_conn k)))"

text \<open>Between two calls the output buffer is empty and the input buffer holds part of a line.\<close>

definition client_ok :: "('w, 'h, 'c, 'v, 'a, 'l, 's, 'f) client \<Rightarrow> bool" where
  "client_ok k \<longleftrightarrow> mi_buf_o (k_conn k) = [] \<and> buf_ok server_MAX_LEN (mi_buf_i (k_conn k))"

lemma steps_skips:
  "skips server_MAX_LEN i i' \<Longrightarrow> client_steps imax (l, f, i, out, t) (l, f, i', out, t)"
  by (induction rule: skips.induct) (auto intro: converse_rtranclp_into_rtranclp step_blank)

lemma steps_tick: "t \<le> t' \<Longrightarrow> client_steps imax a (l, f, i, out, t) \<Longrightarrow> client_steps imax a (l, f, i, out, t')"
  by (blast intro: rtranclp.rtrancl_into_rtrancl step_tick)

text \<open>What is popped is appended to the buffer, in order.\<close>

lemma flush_loop_Return:
  "flush_loop now imax q buf w = Return (timeout, q', buf', w') \<longleftrightarrow>
   pop_now now imax q w = Return (PopTimeout timeout, q', w') \<and> buf' = buf \<or>
   (\<exists>m q1 w1. pop_now now imax q w = Return (PopMsg m, q1, w1) \<and>
      flush_loop now imax q1 ((buf @ client_write_to m) @ crlf) w1 = Return (timeout, q', buf', w'))"
  by (subst flush_loop.simps) (auto split: exec.splits prod.splits pop_outcome.splits)

lemma pop_now_msg:
  "pop_now now imax q w = Return (PopMsg m, q', w') \<Longrightarrow>
   \<exists>t1 w1 t2. now w = (t1, w1) \<and> now w1 = (t2, w') \<and> pop imax t1 t2 q = Some (PopMsg m, q')"
  by (auto simp: pop_now_def pop_def Let_def split: prod.splits if_splits option.splits list.splits)

lemma pop_now_timeout: "pop_now now imax q w = Return (PopTimeout d, q', w') \<Longrightarrow> q' = q"
  by (auto simp: pop_now_def pop_def Let_def queue_is_empty_def split: prod.splits if_splits option.splits list.splits)

lemma pop_now_drained: "pop_now now imax q w = Return (PopTimeout None, q', w') \<Longrightarrow> q_queue q' = []"
  by (auto simp: pop_now_def pop_def Let_def queue_is_empty_def split: prod.splits if_splits option.splits list.splits)

text \<open>A flush that succeeds has popped, written and flushed.\<close>

lemma flush_via_done:
  assumes "flush_via now wa fl imax k = Some (Return (Inr timeout, k'))" and "\<not> queue_is_empty (cl_queue (k_logic k))"
  shows "\<exists>q buf w w1 w2.
    flush_loop now imax (cl_queue (k_logic k)) (mi_buf_o (k_conn k)) (mi_conn (k_conn k)) = Return (timeout, q, buf, w) \<and>
    wa buf w = Some (Return (Inr (), w1)) \<and> fl w1 = Some (Return (Inr (), w2)) \<and>
    k' = put_world w2 (k\<lparr>k_logic := (k_logic k)\<lparr>cl_queue := q\<rparr>, k_conn := (k_conn k)\<lparr>mi_conn := w1, mi_buf_o := []\<rparr>\<rparr>)"
proof -
  let ?f = "flush_loop now imax (cl_queue (k_logic k)) (mi_buf_o (k_conn k)) (mi_conn (k_conn k))"
  obtain tmo q buf w where f: "?f = Return (tmo, q, buf, w)"
    using assms by (cases ?f) (auto simp: flush_via_def)
  obtain r w1 where wa: "wa buf w = Some (Return (r, w1))"
    using assms f by (cases "wa buf w") (auto simp: flush_via_def bind_exec_def split: exec.splits)
  have r: "r = Inr ()" using assms f wa by (cases r) (auto simp: flush_via_def bind_exec_def)
  obtain r2 w2 where fl: "fl w1 = Some (Return (r2, w2))"
    using assms f wa r by (cases "fl w1") (auto simp: flush_via_def bind_exec_def Let_def split: exec.splits)
  have r2: "r2 = Inr ()" using assms f wa r fl by (cases r2) (auto simp: flush_via_def bind_exec_def)
  have "tmo = timeout \<and>
      k' = put_world w2 (k\<lparr>k_logic := (k_logic k)\<lparr>cl_queue := q\<rparr>, k_conn := (k_conn k)\<lparr>mi_conn := w1, mi_buf_o := []\<rparr>\<rparr>)"
    using assms f wa r fl r2 by (auto simp: flush_via_def bind_exec_def)
  with f wa r fl r2 show ?thesis by blast
qed

text \<open>Every message that leaves the queue is written.\<close>

definition encoded :: "client_msg list \<Rightarrow> bytes" where
  "encoded ms = concat (map (\<lambda>m. client_write_to m @ crlf) ms)"

lemma flush_loop_popped:
  assumes "flush_loop now imax q buf w = Return (tmo, q', buf', w')"
  shows "\<exists>ms. q_queue q = ms @ q_queue q' \<and> buf' = buf @ encoded ms"
  using assms
proof (induction "length (q_queue q)" arbitrary: q buf w rule: less_induct)
  case less
  from flush_loop_Return [THEN iffD1, OF less.prems] show ?case
  proof (elim disjE conjE exE)
    assume p: "pop_now now imax q w = Return (PopTimeout tmo, q', w')" and "buf' = buf"
    with pop_now_timeout [OF p] show ?thesis by (simp add: encoded_def)
  next
    fix m q1 w1
    assume p: "pop_now now imax q w = Return (PopMsg m, q1, w1)"
      and f: "flush_loop now imax q1 ((buf @ client_write_to m) @ crlf) w1 = Return (tmo, q', buf', w')"
    have q: "q_queue q = m # q_queue q1" using pop_now_shrinks [OF p] .
    then have "length (q_queue q1) < length (q_queue q)" by simp
    from less.hyps [OF this f] obtain ms where "q_queue q1 = ms @ q_queue q'"
      "buf' = ((buf @ client_write_to m) @ crlf) @ encoded ms" by blast
    with q show ?thesis by (intro exI [of _ "m # ms"]) (simp add: encoded_def)
  qed
qed

lemma flush_loop_frame:
  assumes now: "\<And>w t w'. now w = (t, w') \<Longrightarrow> pending w' = pending w \<and> written w' = written w"
    and "flush_loop now imax q buf w = Return (timeout, q', buf', w')"
  shows "pending w' = pending w \<and> written w' = written w \<and> (timeout = None \<longrightarrow> q_queue q' = [])"
  using assms(2)
proof (induction "length (q_queue q)" arbitrary: q buf w rule: less_induct)
  case less
  have frame: "pending w' = pending w \<and> written w' = written w" if "pop_now now imax q w = Return (r, q', w')" for r q' w'
    using that by (auto simp: pop_now_def Let_def split: prod.splits if_splits option.splits dest!: now)
  from flush_loop_Return [THEN iffD1, OF less.prems] show ?case
  proof (elim disjE conjE exE)
    assume p: "pop_now now imax q w = Return (PopTimeout timeout, q', w')"
    then show ?thesis using frame [OF p] pop_now_drained [of now imax q w q' w'] by auto
  next
    fix m q1 w1
    assume p: "pop_now now imax q w = Return (PopMsg m, q1, w1)"
      and f: "flush_loop now imax q1 ((buf @ client_write_to m) @ crlf) w1 = Return (timeout, q', buf', w')"
    have "length (q_queue q1) < length (q_queue q)" using pop_now_shrinks [OF p] by simp
    from less.hyps [OF this f] frame [OF p] show ?thesis by simp
  qed
qed

lemma flush_loop_steps:
  fixes l :: "('h, 'c, 'v, 'a, 'l) client_logic" and f :: "('h, 'c, 'v, 'a, 'l, 'f) timeout_fn"
  assumes now: "\<And>w t w'. now w = (t, w') \<Longrightarrow> clock w \<le> t \<and> t \<le> clock w'"
    and "flush_loop now imax q buf w = Return (timeout, q', buf @ new, w')" and "cl_queue l = q"
  shows "client_steps imax (l, f, i, out, clock w) (l\<lparr>cl_queue := q'\<rparr>, f, i, out @ new, clock w')"
  using assms(2,3)
proof (induction "length (q_queue q)" arbitrary: q buf w l out new rule: less_induct)
  case less
  from flush_loop_Return [THEN iffD1, OF less.prems(1)] show ?case
  proof (elim disjE conjE exE)
    assume p: "pop_now now imax q w = Return (PopTimeout timeout, q', w')" and "buf @ new = buf"
    moreover have "l\<lparr>cl_queue := q'\<rparr> = l" using pop_now_timeout [OF p] less.prems(2) by simp
    moreover have "clock w \<le> clock w'"
      using p by (auto simp: pop_now_def Let_def split: prod.splits if_splits option.splits dest!: now)
    ultimately show ?thesis by (auto intro: step_tick)
  next
    fix m q1 w1
    assume p: "pop_now now imax q w = Return (PopMsg m, q1, w1)"
      and fl: "flush_loop now imax q1 ((buf @ client_write_to m) @ crlf) w1 = Return (timeout, q', buf @ new, w')"
    from flush_loop_popped [OF fl] obtain ms where ms: "new = client_write_to m @ crlf @ encoded ms" by auto
    have "length (q_queue q1) < length (q_queue q)" using pop_now_shrinks [OF p] by simp
    from less.hyps [OF this, of "(buf @ client_write_to m) @ crlf" w1 "encoded ms" "l\<lparr>cl_queue := q1\<rparr>" "out @ client_write_to m @ crlf"]
    have "client_steps imax (l\<lparr>cl_queue := q1\<rparr>, f, i, out @ client_write_to m @ crlf, clock w1)
        (l\<lparr>cl_queue := q'\<rparr>, f, i, out @ new, clock w')"
      using fl by (simp add: ms)
    moreover obtain t1 w2 t2 where "now w = (t1, w2)" "now w2 = (t2, w1)" "pop imax t1 t2 q = Some (PopMsg m, q1)"
      using pop_now_msg [OF p] by blast
    then have "client_step imax (l, f, i, out, clock w) (l\<lparr>cl_queue := q1\<rparr>, f, i, out @ client_write_to m @ crlf, clock w1)"
      using less.prems(2) now [of w t1 w2] now [of w2 t2 w1] by (intro step_send [of _ t1 t2]) auto
    ultimately show ?thesis by (rule converse_rtranclp_into_rtranclp [rotated])
  qed
qed

text \<open>What a flush has done when it succeeds, over a clock and writes that keep to the contract.\<close>

definition flushed ::
  "('w \<Rightarrow> bytes) \<Rightarrow> ('w \<Rightarrow> bytes) \<Rightarrow> nat option \<Rightarrow>
   ('w, 'h, 'c, 'v, 'a, 'l, 's, 'f) client \<Rightarrow> ('w, 'h, 'c, 'v, 'a, 'l, 's, 'f) client \<Rightarrow> bool" where
  "flushed pending written tmo k k' \<longleftrightarrow> client_ok k' \<and> cl_handlers (k_logic k') = cl_handlers (k_logic k) \<and>
     (tmo = None \<longrightarrow> q_queue (cl_queue (k_logic k')) = []) \<and>
     (\<exists>ms. q_queue (cl_queue (k_logic k)) = ms @ q_queue (cl_queue (k_logic k')) \<and>
        written (mi_conn (k_conn k')) = written (mi_conn (k_conn k)) @ encoded ms)"

lemma flush_via_flushed:
  assumes now: "\<And>w t w'. now w = (t, w') \<Longrightarrow> pending w' = pending w \<and> written w' = written w"
    and wa: "\<And>b w w'. wa b w = Some (Return (Inr (), w')) \<Longrightarrow> pending w' = pending w \<and> written w' = written w @ b"
    and fl: "\<And>w w'. fl w = Some (Return (Inr (), w')) \<Longrightarrow> pending w' = pending w \<and> written w' = written w"
    and run: "flush_via now wa fl imax k = Some (Return (Inr timeout, k'))" and ok: "client_ok k"
  shows "flushed pending written timeout k k'"
proof (cases "queue_is_empty (cl_queue (k_logic k))")
  case True
  with run ok show ?thesis by (auto simp: flush_via_def flushed_def encoded_def queue_is_empty_def)
next
  case False
  let ?q = "cl_queue (k_logic k)" and ?w = "mi_conn (k_conn k)"
  from flush_via_done [OF run False] ok obtain q buf w w1 w2 where
    f: "flush_loop now imax ?q [] ?w = Return (timeout, q, buf, w)" and w1: "wa buf w = Some (Return (Inr (), w1))"
    and w2: "fl w1 = Some (Return (Inr (), w2))" and k': "k' = put_world w2
      (k\<lparr>k_logic := (k_logic k)\<lparr>cl_queue := q\<rparr>, k_conn := (k_conn k)\<lparr>mi_conn := w1, mi_buf_o := []\<rparr>\<rparr>)"
    by (auto simp: client_ok_def)
  from flush_loop_popped [OF f] obtain ms where "q_queue ?q = ms @ q_queue q" "buf = encoded ms" by auto
  moreover have "written w2 = written ?w @ buf" "timeout = None \<longrightarrow> q_queue q = []"
    using wa [OF w1] fl [OF w2] flush_loop_frame [of now pending written, OF now f] by auto
  ultimately show ?thesis using ok by (auto simp: k' put_world_def client_ok_def flushed_def)
qed

lemma flush_via_steps:
  assumes now: "\<And>w t w'. now w = (t, w') \<Longrightarrow> pending w' = pending w \<and> written w' = written w \<and> clock w \<le> t \<and> t \<le> clock w'"
    and wa: "\<And>b w w'. wa b w = Some (Return (Inr (), w')) \<Longrightarrow>
      pending w' = pending w \<and> written w' = written w @ b \<and> clock w \<le> clock w'"
    and fl: "\<And>w w'. fl w = Some (Return (Inr (), w')) \<Longrightarrow> pending w' = pending w \<and> written w' = written w \<and> clock w \<le> clock w'"
    and run: "flush_via now wa fl imax k = Some (Return (Inr timeout, k'))" and ok: "client_ok k"
  shows "client_steps imax (client_abs pending written clock k) (client_abs pending written clock k')"
proof (cases "queue_is_empty (cl_queue (k_logic k))")
  case True
  with run ok show ?thesis by (simp add: flush_via_def)
next
  case False
  let ?q = "cl_queue (k_logic k)" and ?w = "mi_conn (k_conn k)" and ?l = "k_logic k"
  from flush_via_done [OF run False] ok obtain q buf w w1 w2 where
    f: "flush_loop now imax ?q [] ?w = Return (timeout, q, [] @ buf, w)" and w1: "wa buf w = Some (Return (Inr (), w1))"
    and w2: "fl w1 = Some (Return (Inr (), w2))" and k': "k' = put_world w2
      (k\<lparr>k_logic := ?l\<lparr>cl_queue := q\<rparr>, k_conn := (k_conn k)\<lparr>mi_conn := w1, mi_buf_o := []\<rparr>\<rparr>)"
    by (auto simp: client_ok_def)
  have "pending w = pending ?w \<and> written w = written ?w"
    using flush_loop_frame [of now pending written, OF _ f] now by blast
  then have "pending w2 = pending ?w" "written w2 = written ?w @ buf" "clock w \<le> clock w2"
    using wa [OF w1] fl [OF w2] by auto
  moreover have "client_steps imax (?l, g, i, out, clock ?w) (?l\<lparr>cl_queue := q\<rparr>, g, i, out @ buf, clock w)" for g i out
    using now by (intro flush_loop_steps [OF _ f refl]) blast
  ultimately show ?thesis by (auto simp: k' client_abs_def put_world_def intro: steps_tick)
qed

section \<open>The loop refines the abstract client\<close>

text \<open>The contract of a flush and a read, blocking or not: a flush that succeeds has \<open>flushed\<close>, a read
  gives the next message of the stream or has skipped blank lines at most, and it says whether the time
  limit that ended it came from the queue.\<close>

locale client_io =
  fixes flush :: "('w, 'h, 'c, 'v, 'a, 'l, 's, 'f) client flush_op" and sleep :: "nat \<Rightarrow> 'w \<Rightarrow> 'w"
    and read :: "('w, 'h, 'c, 'v, 'a, 'l, 's, 'f) client read_op"
    and imax :: nat and pending written :: "'w \<Rightarrow> bytes" and clock :: "'w \<Rightarrow> nat"
  assumes flush_ok: "flush k = Some (Return (Inr tmo, k')) \<Longrightarrow> client_ok k \<Longrightarrow> flushed pending written tmo k k' \<and>
      client_steps imax (client_abs pending written clock k) (client_abs pending written clock k')"
    and sleep_ok: "pending (sleep d w) = pending w \<and> written (sleep d w) = written w \<and> clock w \<le> clock (sleep d w)"
    and read_time: "read wait_for k = Some (Inr (Inl by_queue), k') \<Longrightarrow> client_ok k \<Longrightarrow>
      client_ok k' \<and> client_steps imax (client_abs pending written clock k) (client_abs pending written clock k') \<and>
      cl_queue (k_logic k') = cl_queue (k_logic k) \<and> (by_queue \<longleftrightarrow> wait_for \<noteq> None)"
    and read_message: "read wait_for k = Some (Inr (Inr m), k') \<Longrightarrow> client_ok k \<Longrightarrow> mi_buf_o (k_conn k') = [] \<and>
      (\<exists>i. client_steps imax (client_abs pending written clock k)
         (k_logic k', k_on_timeout k', i, written (mi_conn (k_conn k')), clock (mi_conn (k_conn k'))) \<and>
       client_read [] i = Some (Inr m, pending (mi_conn (k_conn k'))))"
begin

lemma timed_out_steps:
  "timed_out k = Next k' \<or> timed_out k = Finish r k' \<Longrightarrow> client_ok k \<Longrightarrow> q_queue (cl_queue (k_logic k)) = [] \<Longrightarrow>
   client_ok k' \<and> client_steps imax (client_abs pending written clock k) (client_abs pending written clock k')"
  by (auto simp: timed_out_def client_ok_def client_abs_def Let_def split: option.splits prod.splits control_flow.splits
      intro!: r_into_rtranclp step_timeout)

lemma handle_turn_steps:
  assumes "handle_turn flush m k = Some (Return t)" and "mi_buf_o (k_conn k) = []"
    and "client_read [] i = Some (Inr m, pending (mi_conn (k_conn k)))"
    and "t = Next k' \<or> t = Finish (Inr ids) k'"
  shows "client_ok k' \<and>
    client_steps imax (k_logic k, k_on_timeout k, i, written (mi_conn (k_conn k)), clock (mi_conn (k_conn k))) (client_abs pending written clock k')"
proof -
  obtain fa l where ro: "run_once m (k_logic k) = (fa, l)" by fastforce
  let ?k1 = "k\<lparr>k_logic := l, k_conn := (k_conn k)\<lparr>mi_buf_i := []\<rparr>\<rparr>"
  have ok1: "client_ok ?k1" using assms(2) by (simp add: client_ok_def buf_ok_def server_MAX_LEN_def)
  have "client_step imax (k_logic k, k_on_timeout k, i, written (mi_conn (k_conn k)), clock (mi_conn (k_conn k))) (client_abs pending written clock ?k1)"
    using step_receive [OF assms(3), of imax "k_logic k"] ro by (simp add: client_abs_def)
  moreover have "client_ok k' \<and> client_steps imax (client_abs pending written clock ?k1) (client_abs pending written clock k')"
  proof (cases "has_results fa (cl_handlers l)")
    case True
    with assms(1) ro obtain r k2 where fl: "flush ?k1 = Some (Return (r, k2))"
      by (cases "flush ?k1") (auto simp: handle_turn_def bind_exec_def split: exec.splits)
    obtain tmo where r: "r = Inr tmo" and k2: "k2 = k'"
      using assms(1,4) ro True fl by (cases r) (auto simp: handle_turn_def bind_exec_def split: option.splits)
    from flush_ok [OF fl [unfolded r k2] ok1] show ?thesis by (simp add: flushed_def)
  next
    case False
    with assms(1,4) ro ok1 show ?thesis by (auto simp: handle_turn_def)
  qed
  ultimately show ?thesis by (auto intro: converse_rtranclp_into_rtranclp)
qed

lemma turn_steps:
  assumes "turn_via flush sleep read k = Some (Return t)" and "client_ok k" and "t = Next k' \<or> t = Finish (Inr ids) k'"
  shows "client_ok k' \<and> client_steps imax (client_abs pending written clock k) (client_abs pending written clock k')"
proof -
  obtain r k1 where fl: "flush k = Some (Return (r, k1))"
    using assms(1) by (cases "flush k") (auto simp: turn_via_def bind_exec_def split: exec.splits)
  obtain wf where r: "r = Inr wf" using assms(1,3) fl by (cases r) (auto simp: turn_via_def bind_exec_def)
  have k1: "client_ok k1" "client_steps imax (client_abs pending written clock k) (client_abs pending written clock k1)"
    and idle: "wf = None \<Longrightarrow> q_queue (cl_queue (k_logic k1)) = []"
    using flush_ok [OF fl [unfolded r] assms(2)] by (auto simp: flushed_def)
  have "client_ok k' \<and> client_steps imax (client_abs pending written clock k1) (client_abs pending written clock k')"
  proof (cases "handlers_is_empty (cl_handlers (k_logic k1))")
    case True
    with assms(1,3) fl r k1(1) show ?thesis
      by (cases wf) (auto simp: turn_via_def bind_exec_def put_world_def client_ok_def client_abs_def sleep_ok intro!: r_into_rtranclp step_tick)
  next
    case False
    note turn = assms(1) [unfolded turn_via_def bind_exec_def fl r]
    obtain x k2 where rd: "read wf k1 = Some (Inr x, k2)"
      using turn False assms(3) by (cases "read wf k1") (auto split: sum.splits)
    show ?thesis
    proof (cases x)
      case (Inl fq)
      have "k' = k2 \<or> \<not> fq \<and> (timed_out k2 = Next k' \<or> timed_out k2 = Finish (Inr ids) k')"
        using turn False rd Inl assms(3) by (auto split: if_splits)
      with read_time [OF rd [unfolded Inl] k1(1)] idle timed_out_steps [of k2 k' "Inr ids"] show ?thesis
        by (auto intro: rtranclp_trans)
    next
      case (Inr m)
      from read_message [OF rd [unfolded Inr] k1(1)] obtain i where bo: "mi_buf_o (k_conn k2) = []"
        and st: "client_steps imax (client_abs pending written clock k1) (k_logic k2, k_on_timeout k2, i, written (mi_conn (k_conn k2)), clock (mi_conn (k_conn k2)))"
        and cr: "client_read [] i = Some (Inr m, pending (mi_conn (k_conn k2)))" by blast
      have "handle_turn flush m k2 = Some (Return t)" using turn False rd Inr by simp
      from handle_turn_steps [OF this bo cr assms(3)] st show ?thesis by (auto intro: rtranclp_trans)
    qed
  qed
  with k1(2) show ?thesis by (auto intro: rtranclp_trans)
qed

lemma turns_steps:
  assumes "turns (turn_via flush sleep read) k = Some (Return (Inr ids, k'))" and "client_ok k"
  shows "client_ok k' \<and> client_steps imax (client_abs pending written clock k) (client_abs pending written clock k')"
proof -
  let ?turn = "turn_via flush sleep read"
  let ?Q = "\<lambda>(k :: ('w, 'h, 'c, 'v, 'a, 'l, 's, 'f) client)
      (y :: (run_result \<times> ('w, 'h, 'c, 'v, 'a, 'l, 's, 'f) client) exec). \<forall>ids k'. y = Return (Inr ids, k') \<longrightarrow> client_ok k \<longrightarrow>
      client_ok k' \<and> client_steps imax (client_abs pending written clock k) (client_abs pending written clock k')"
  let ?P = "\<lambda>turn k y. turn = ?turn \<longrightarrow> ?Q k y"
  have "?P ?turn k (Return (Inr ids, k'))"
  proof (rule turns.raw_induct [where P = ?P, OF _ assms(1)], intro impI allI)
    fix rec turn k y and ids k2
    assume IH: "\<And>turn k y. rec turn k = Some y \<Longrightarrow> ?P turn k y"
      and eq: "(case turn k of
        None \<Rightarrow> None
      | Some Panic \<Rightarrow> Some Panic
      | Some (Return (Next k1)) \<Rightarrow> rec turn k1
      | Some (Return (Finish r k1)) \<Rightarrow> Some (Return (r, k1))) = Some y" and turn: "turn = ?turn"
      and y: "y = Return (Inr ids, k2)" and ok: "client_ok k"
    obtain t where t: "?turn k = Some (Return t)"
      using eq y turn by (auto split: option.splits exec.splits)
    show "client_ok k2 \<and> client_steps imax (client_abs pending written clock k) (client_abs pending written clock k2)"
    proof (cases t)
      case (Next k1)
      have "rec ?turn k1 = Some y" using eq t Next turn by simp
      from IH [OF this] y have "client_ok k1 \<longrightarrow>
          client_ok k2 \<and> client_steps imax (client_abs pending written clock k1) (client_abs pending written clock k2)" by blast
      moreover have "client_ok k1 \<and> client_steps imax (client_abs pending written clock k) (client_abs pending written clock k1)"
        using turn_steps [OF t ok] Next by blast
      ultimately show ?thesis by (auto intro: rtranclp_trans)
    next
      case (Finish r' k1)
      with eq t turn y have "r' = Inr ids" "k1 = k2" by auto
      with turn_steps [OF t ok] Finish show ?thesis by blast
    qed
  qed
  with assms(2) show ?thesis by blast
qed

end

section \<open>The blocking loop\<close>

lemma steps_limits:
  assumes "lims = cl_timeout l \<or> lims = (cl_timeout l)\<lparr>tl_update_write := False\<rparr>"
  shows "client_steps imax (l, f, i, out, t) (l\<lparr>cl_timeout := lims\<rparr>, f, i, out, t)"
  using assms by (elim disjE) (auto intro: step_limits)

context buf_conn
begin

lemma flush_loop_keeps:
  assumes "flush_loop (c_now c) imax q buf w = Return (timeout, q', buf', w')"
  shows "pending w' = pending w \<and> written w' = written w"
  using flush_loop_frame [of "c_now c" pending written, OF now_frame assms] by simp

lemma flush_partial_flushed:
  assumes "flush_partial c imax k = Some (Return (Inr timeout, k'))" and "client_ok k"
  shows "flushed pending written timeout k k'"
proof (rule flush_via_flushed [OF _ _ _ assms(1) [unfolded flush_partial_def] assms(2)])
  fix b w w'
  assume "io_write_all c b w = Some (Return (Inr (), w'))"
  from io_write_all_spec [OF this] show "pending w' = pending w \<and> written w' = written w @ b" by (simp add: write_spec_def)
qed (auto dest: now_frame flush_frame)

lemma tls_new_frame:
  assumes "tls_new c imax lims wa w = (r, lims', w')"
  shows "pending w' = pending w \<and> written w' = written w \<and> (lims' = lims \<or> lims' = lims\<lparr>tl_update_write := False\<rparr>)"
proof -
  obtain r1 w1 where sw: "c_set_write_timeout c (tl_write lims) w = (r1, w1)" by fastforce
  obtain rd cs where fb: "timeout_fallback wa (tl_read lims) = (rd, cs)" by fastforce
  obtain t w2 where n: "c_now c w = (t, w2)" by fastforce
  obtain t' w3 where n': "c_now c w1 = (t', w3)" by fastforce
  show ?thesis
    using assms set_write_frame [OF sw] now_frame [OF n] now_frame [OF n']
    by (cases "tl_update_write lims"; cases r1; cases rd) (auto simp: tls_new_def sw fb n n')
qed

end

context timed_conn
begin

lemma flush_partial_steps:
  assumes "flush_partial c imax k = Some (Return (Inr timeout, k'))" and "client_ok k"
  shows "client_steps imax (client_abs pending written clock k) (client_abs pending written clock k')"
proof (rule flush_via_steps [OF _ _ _ assms(1) [unfolded flush_partial_def] assms(2)])
  fix b w w'
  assume w: "io_write_all c b w = Some (Return (Inr (), w'))"
  from io_write_all_spec [OF w] io_write_all_later [OF w]
  show "pending w' = pending w \<and> written w' = written w @ b \<and> clock w \<le> clock w'" by (simp add: write_spec_def)
qed (auto dest: now_frame now_clock flush_frame flush_later)

lemma tls_new_later:
  assumes "tls_new c imax lims wa w = (r, lims', w')"
  shows "clock w \<le> clock w' \<and> (\<forall>dl bq. r = Inr (dl, bq) \<longrightarrow> bq = (wa \<noteq> None))"
proof -
  obtain r1 w1 where sw: "c_set_write_timeout c (tl_write lims) w = (r1, w1)" by fastforce
  obtain t w2 where n: "c_now c w = (t, w2)" by fastforce
  obtain t' w3 where n': "c_now c w1 = (t', w3)" by fastforce
  show ?thesis
    using assms set_write_later [OF sw] now_later [OF n] now_later [OF n']
    by (cases "tl_update_write lims"; cases r1; cases wa; cases "tl_read lims") (auto simp: tls_new_def sw n n' timeout_fallback_def)
qed

text \<open>What a read leaves behind, whether it succeeds or not.\<close>

lemma read_step_spec:
  assumes "read_step c imax wait_for k = Some (Inr x, k')" and "client_ok k"
  shows "mi_buf_o (k_conn k') = [] \<and> k_on_timeout k' = k_on_timeout k \<and>
    written (mi_conn (k_conn k')) = written (mi_conn (k_conn k)) \<and>
    client_steps imax (client_abs pending written clock k)
      (k_logic k', k_on_timeout k, mi_buf_i (k_conn k) @ pending (mi_conn (k_conn k)), written (mi_conn (k_conn k)),
       clock (mi_conn (k_conn k'))) \<and> cl_queue (k_logic k') = cl_queue (k_logic k) \<and>
    (case x of
       Inl bq \<Rightarrow> bq = (wait_for \<noteq> None) \<and> buf_ok server_MAX_LEN (mi_buf_i (k_conn k')) \<and> skips server_MAX_LEN
         (mi_buf_i (k_conn k) @ pending (mi_conn (k_conn k))) (mi_buf_i (k_conn k') @ pending (mi_conn (k_conn k')))
     | Inr m \<Rightarrow> client_read [] (mi_buf_i (k_conn k) @ pending (mi_conn (k_conn k))) =
         Some (Inr m, pending (mi_conn (k_conn k'))))"
proof -
  let ?w = "mi_conn (k_conn k)" and ?b = "mi_buf_i (k_conn k)"
  obtain r lims w where n: "tls_new c imax (cl_timeout (k_logic k)) wait_for ?w = (r, lims, w)"
    by (cases "tls_new c imax (cl_timeout (k_logic k)) wait_for ?w")
  note fr = tls_new_frame [OF n]
  obtain dl rq where r: "r = Inr (dl, rq)" using assms(1) n by (cases r) (auto simp: read_step_def Let_def)
  let ?own = "hs_wants_owning (cl_handlers (k_logic k))"
  have eq: "read_step c imax wait_for k =
      (case read_msg_from server_MAX_LEN server_msg_parse ?own c dl ?b w of
         None \<Rightarrow> None
       | Some (msg, buf_i, w1) \<Rightarrow>
           Some (case filter_time_error msg of Inl e \<Rightarrow> Inl e | Inr None \<Rightarrow> Inr (Inl rq) | Inr (Some m) \<Rightarrow> Inr (Inr m),
             k\<lparr>k_logic := (k_logic k)\<lparr>cl_timeout := lims\<rparr>, k_conn := (k_conn k)\<lparr>mi_conn := w1, mi_buf_i := buf_i\<rparr>\<rparr>))"
    by (cases ?own) (simp_all add: read_step_def n r Let_def put_world_def client_read_owning_from_def
        client_read_borrowing_from_def split: option.split prod.split)
  obtain msg buf_i w1 where m: "read_msg_from server_MAX_LEN server_msg_parse ?own c dl ?b w = Some (msg, buf_i, w1)"
    using assms(1) eq by (cases "read_msg_from server_MAX_LEN server_msg_parse ?own c dl ?b w") auto
  have x: "(case filter_time_error msg of Inl e \<Rightarrow> Inl e | Inr None \<Rightarrow> Inr (Inl rq) | Inr (Some m) \<Rightarrow> Inr (Inr m)) = Inr x"
    and k': "k' = k\<lparr>k_logic := (k_logic k)\<lparr>cl_timeout := lims\<rparr>, k_conn := (k_conn k)\<lparr>mi_conn := w1, mi_buf_i := buf_i\<rparr>\<rparr>"
    using assms(1) eq m by auto
  have "read_spec pending written server_MAX_LEN server_msg_parse ?b w msg buf_i w1"
    using read_msg_from_spec [OF m] assms(2) by (simp add: client_ok_def)
  moreover have "client_steps imax (k_logic k, k_on_timeout k, i, out, clock ?w)
      ((k_logic k)\<lparr>cl_timeout := lims\<rparr>, k_on_timeout k, i, out, clock w1)" for i out
  proof (rule steps_tick)
    show "clock ?w \<le> clock w1" using tls_new_later [OF n] read_msg_from_later [OF m] by (blast intro: order_trans)
  qed (use fr in \<open>blast intro: steps_limits\<close>)
  moreover have "rq = (wait_for \<noteq> None)" using tls_new_later [OF n] r by blast
  ultimately show ?thesis using x fr assms(2)
    by (cases msg) (auto simp: k' client_ok_def client_abs_def read_spec_def client_read_def filter_time_error_def
        time_error_def split: io_error.splits)
qed

end

lemma sync_client_io:
  assumes "timed_conn c pending filled written clock"
  shows "client_io (flush_partial c imax) (c_sleep c) (read_step c imax) imax pending written clock"
proof -
  note buf = timed_conn.axioms(1) [OF assms]
  show ?thesis
  proof
    fix k k' :: "('a, 'b, 'c, 'd, 'e, 'f, 'g, 'h) client" and tmo
    assume "flush_partial c imax k = Some (Return (Inr tmo, k'))" and "client_ok k"
    then show "flushed pending written tmo k k' \<and>
        client_steps imax (client_abs pending written clock k) (client_abs pending written clock k')"
      using buf_conn.flush_partial_flushed [OF buf] timed_conn.flush_partial_steps [OF assms] by blast
  next
    fix d w
    show "pending (c_sleep c d w) = pending w \<and> written (c_sleep c d w) = written w \<and> clock w \<le> clock (c_sleep c d w)"
      using buf_conn.sleep_frame [OF buf] timed_conn.sleep_later [OF assms] by blast
  next
    fix k k' :: "('a, 'b, 'c, 'd, 'e, 'f, 'g, 'h) client" and wait_for by_queue
    assume rd: "read_step c imax wait_for k = Some (Inr (Inl by_queue), k')" and ok: "client_ok k"
    note spec = timed_conn.read_step_spec [OF assms rd ok]
    then have "client_steps imax
        (k_logic k', k_on_timeout k, mi_buf_i (k_conn k) @ pending (mi_conn (k_conn k)), written (mi_conn (k_conn k)),
         clock (mi_conn (k_conn k')))
        (client_abs pending written clock k')"
      by (auto simp: client_abs_def intro: steps_skips)
    with spec show "client_ok k' \<and> client_steps imax (client_abs pending written clock k) (client_abs pending written clock k') \<and>
        cl_queue (k_logic k') = cl_queue (k_logic k) \<and> (by_queue \<longleftrightarrow> wait_for \<noteq> None)"
      by (auto simp: client_ok_def intro: rtranclp_trans)
  next
    fix k k' :: "('a, 'b, 'c, 'd, 'e, 'f, 'g, 'h) client" and wait_for m
    assume rd: "read_step c imax wait_for k = Some (Inr (Inr m), k')" and ok: "client_ok k"
    from timed_conn.read_step_spec [OF assms rd ok]
    show "mi_buf_o (k_conn k') = [] \<and>
        (\<exists>i. client_steps imax (client_abs pending written clock k)
           (k_logic k', k_on_timeout k', i, written (mi_conn (k_conn k')), clock (mi_conn (k_conn k'))) \<and>
         client_read [] i = Some (Inr m, pending (mi_conn (k_conn k'))))"
      by auto
  qed
qed

lemma run_steps:
  assumes "timed_conn c pending filled written clock" and "client_ok k" and "run c imax k = Some (Return (Inr ids, k'))"
  shows "client_ok k' \<and> client_steps imax (client_abs pending written clock k) (client_abs pending written clock k')"
  using client_io.turns_steps [OF sync_client_io [OF assms(1)] assms(3) [unfolded run_def run_turn_def] assms(2)] .

end
