(* ===== verification/ConnStreams.thy ===== *)
theory ConnStreams
  imports ConnIo
begin

text \<open>
  Which connections meet the contracts \<open>buf_conn\<close> and \<open>timed_conn\<close>: the in-memory \<open>Bidir\<close> of a cursor and a vector, and the
  \<open>BufReader\<close> around a \<open>Stream\<close>, whatever socket and TLS session are below it, as long as these give
  and take bytes in order.  The scripted socket at the end is a concrete socket with a clock, arrival
  times and a receive timeout.
\<close>

section \<open>In memory\<close>

lemmas half_defs = cursor_half_def deque_read_def empty_read_def vec_write_def sink_write_def empty_write_def
  deque_write_def no_timeout_def on_fst_def on_snd_def bidir_set_read_timeout_def bidir_set_write_timeout_def

interpretation mem: buf_conn "bidir sys cursor_half vec_write" "\<lambda>w. fst (fst w)" "\<lambda>w. fst (fst w)" "\<lambda>w. snd (fst w)"
  for sys
  by unfold_locales (auto simp: bidir_def half_defs Let_def split: prod.splits)

text \<open>\<open>Bidir\<close> of two deques, as used for tests: what is readable is both slices.\<close>

interpretation deq: buf_conn "bidir sys deque_read deque_write"
    "\<lambda>w. fst (fst (fst w)) @ snd (fst (fst w))" "\<lambda>w. fst (fst (fst w))" "\<lambda>w. fst (snd (fst w)) @ snd (snd (fst w))"
  for sys
  by unfold_locales (auto simp: bidir_def half_defs Let_def split: prod.splits if_splits)

interpretation null: buf_conn "bidir sys empty_read vec_write" "\<lambda>_. []" "\<lambda>_. []" "\<lambda>w. snd (fst w)"
  for sys
  by unfold_locales (auto simp: bidir_def half_defs Let_def split: prod.splits)

section \<open>Streams of bytes\<close>

text \<open>The contract of a socket or a TLS session: \<open>incoming\<close> is what is still to be read from it,
  \<open>outgoing\<close> what it has accepted.\<close>

locale byte_stream =
  fixes sys :: "'e system" and s :: "('t \<times> 'e) stream_ops" and incoming outgoing :: "'t \<times> 'e \<Rightarrow> bytes"
  assumes now_keeps: "sys_now sys e = (n, e') \<Longrightarrow> incoming (t, e') = incoming (t, e) \<and> outgoing (t, e') = outgoing (t, e)"
    and sleep_keeps: "incoming (t, sys_sleep sys d e) = incoming (t, e) \<and> outgoing (t, sys_sleep sys d e) = outgoing (t, e)"
    and set_read_keeps: "s_set_read_timeout s tmo w = (r, w') \<Longrightarrow> incoming w' = incoming w \<and> outgoing w' = outgoing w"
    and set_write_keeps: "s_set_write_timeout s tmo w = (r, w') \<Longrightarrow> incoming w' = incoming w \<and> outgoing w' = outgoing w"
    and flush_keeps: "s_flush s w = (r, w') \<Longrightarrow> incoming w' = incoming w \<and> outgoing w' = outgoing w"
    and read_err: "s_read s n w = (Inl er, w') \<Longrightarrow> incoming w' = incoming w \<and> outgoing w' = outgoing w"
    and read_ok: "s_read s n w = (Inr b, w') \<Longrightarrow> incoming w = b @ incoming w' \<and> outgoing w' = outgoing w \<and>
      (0 < n \<longrightarrow> b = [] \<longrightarrow> incoming w = [])"
    and write_accepts: "s_write s b w = (Inr n, w') \<Longrightarrow>
      n \<le> length b \<and> incoming w' = incoming w \<and> outgoing w' = outgoing w @ take n b"
    and write_fails: "s_write s b w = (Inl er, w') \<Longrightarrow> incoming w' = incoming w \<and> outgoing w' = outgoing w"
begin

definition br_pending :: "(bytes \<times> 't) \<times> 'e \<Rightarrow> bytes" where
  "br_pending w = fst (fst w) @ incoming (snd (fst w), snd w)"

definition br_written :: "(bytes \<times> 't) \<times> 'e \<Rightarrow> bytes" where
  "br_written w = outgoing (snd (fst w), snd w)"

lemma br_fill:
  assumes "br_fill_buf BUFSIZE s w = (r, w')"
  shows "br_pending w' = br_pending w \<and> br_written w' = br_written w \<and>
    (\<forall>b. r = Inr b \<longrightarrow> fst (fst w') = b \<and> (b = [] \<longrightarrow> br_pending w = []))"
proof -
  obtain b t e where w: "w = ((b, t), e)" by (metis surj_pair)
  show ?thesis
  proof (cases "b = []")
    case True
    obtain r1 t1 e1 where r: "s_read s BUFSIZE (t, e) = (r1, t1, e1)" by (cases "s_read s BUFSIZE (t, e)")
    show ?thesis
    proof (cases r1)
      case (Inl er)
      with assms read_err [OF r [unfolded Inl]] True r show ?thesis
        by (auto simp: br_fill_buf_def w br_pending_def br_written_def)
    next
      case (Inr b1)
      with assms read_ok [OF r [unfolded Inr]] True r show ?thesis
        by (auto simp: br_fill_buf_def w br_pending_def br_written_def BUFSIZE_def)
    qed
  next
    case False
    with assms show ?thesis by (auto simp: br_fill_buf_def w br_pending_def)
  qed
qed

lemma br_on_snd:
  assumes "on_snd f w = (r, w')" and "\<And>t e r t' e'. f (t, e) = (r, t', e') \<Longrightarrow> P r (incoming (t, e)) (incoming (t', e')) (outgoing (t, e)) (outgoing (t', e'))"
  shows "fst (fst w') = fst (fst w) \<and> P r (incoming (snd (fst w), snd w)) (incoming (snd (fst w'), snd w'))
    (br_written w) (br_written w')"
  using assms by (auto simp: on_snd_def br_written_def split: prod.splits)

lemma br_write:
  assumes "on_snd (s_write s b) w = (r, w')"
  shows "br_pending w' = br_pending w \<and>
    (case r of Inr n \<Rightarrow> n \<le> length b \<and> br_written w' = br_written w @ take n b | Inl _ \<Rightarrow> br_written w' = br_written w)"
proof -
  let ?P = "\<lambda>r i i' out out'. i' = i \<and> (case r of Inr n \<Rightarrow> n \<le> length b \<and> out' = out @ take n b | Inl _ \<Rightarrow> out' = out)"
  have "?P r (incoming (t, e)) (incoming (t', e')) (outgoing (t, e)) (outgoing (t', e'))"
    if "s_write s b (t, e) = (r, t', e')" for t e r t' e'
    using that write_accepts [of b "(t, e)"] write_fails [of b "(t, e)"] by (cases r) auto
  from br_on_snd [of "s_write s b", where P = ?P, OF assms this] show ?thesis by (simp add: br_pending_def)
qed

end

sublocale byte_stream \<subseteq> br: buf_conn "buf_reader sys BUFSIZE s" br_pending "\<lambda>w. fst (fst w)" br_written
proof (unfold_locales, goal_cases)
  case (1 w t w')
  then show ?case by (auto simp: buf_reader_def br_pending_def br_written_def split: prod.splits dest!: now_keeps)
next
  case (2 d w)
  then show ?case by (cases w) (simp add: buf_reader_def br_pending_def br_written_def sleep_keeps)
next
  case (3 tmo w r w')
  then show ?case
    using br_on_snd [of "s_set_read_timeout s tmo" w r w' "\<lambda>_ a b c d. b = a \<and> d = c"] set_read_keeps
    by (auto simp: buf_reader_def br_set_read_timeout_def br_pending_def)
next
  case (4 tmo w r w')
  then show ?case
    using br_on_snd [of "s_set_write_timeout s tmo" w r w' "\<lambda>_ a b c d. b = a \<and> d = c"] set_write_keeps
    by (auto simp: buf_reader_def br_set_write_timeout_def br_pending_def)
next
  case (5 w r w')
  then show ?case
    using br_on_snd [of "s_flush s" w r w' "\<lambda>_ a b c d. b = a \<and> d = c"] flush_keeps
    by (auto simp: buf_reader_def br_pending_def)
next
  case (6 w e w')
  then show ?case using br_fill [of w "Inl e" w'] by (simp add: buf_reader_def)
next
  case (7 w b w')
  then have f: "br_fill_buf BUFSIZE s w = (Inr b, w')" by (simp add: buf_reader_def)
  have "br_pending w = b @ incoming (snd (fst w'), snd w')"
    using br_fill [OF f] by (metis br_pending_def)
  with br_fill [OF f] show ?case by blast
next
  case (8 n w)
  then show ?case by (cases w) (auto simp: buf_reader_def br_consume_def br_pending_def br_written_def split: prod.splits)
next
  case (9 b w n w')
  then show ?case using br_write [of b w "Inr n" w'] by (simp add: buf_reader_def)
next
  case (10 b w e w')
  then show ?case using br_write [of b w "Inl e" w'] by (simp add: buf_reader_def)
qed

text \<open>With a clock in the state of the system.\<close>

locale timed_stream = byte_stream sys s incoming outgoing
  for sys :: "'e system" and s :: "('t \<times> 'e) stream_ops" and incoming outgoing +
  fixes clock :: "'e \<Rightarrow> nat"
  assumes sys_now_clock: "sys_now sys e = (n, e') \<Longrightarrow> clock e \<le> n \<and> n \<le> clock e'"
    and sys_sleep_later: "clock e \<le> clock (sys_sleep sys d e)"
    and s_set_read_later: "s_set_read_timeout s tmo (t, e) = (r, t', e') \<Longrightarrow> clock e \<le> clock e'"
    and s_set_write_later: "s_set_write_timeout s tmo (t, e) = (r, t', e') \<Longrightarrow> clock e \<le> clock e'"
    and s_flush_later: "s_flush s (t, e) = (r, t', e') \<Longrightarrow> clock e \<le> clock e'"
    and s_read_later: "s_read s k (t, e) = (x, t', e') \<Longrightarrow> clock e \<le> clock e'"
    and s_write_later: "s_write s b (t, e) = (y, t', e') \<Longrightarrow> clock e \<le> clock e'"

sublocale timed_stream \<subseteq> tbr: timed_conn "buf_reader sys BUFSIZE s" br_pending "\<lambda>w. fst (fst w)" br_written "\<lambda>w. clock (snd w)"
proof (unfold_locales, goal_cases)
  case (1 w t w')
  then show ?case by (auto simp: buf_reader_def split: prod.splits dest!: sys_now_clock)
next
  case (2 w d)
  then show ?case by (cases w) (simp add: buf_reader_def sys_sleep_later)
qed (auto simp: buf_reader_def br_set_read_timeout_def br_set_write_timeout_def br_fill_buf_def br_consume_def on_snd_def Let_def
    split: prod.splits if_splits sum.splits
    dest!: s_set_read_later s_set_write_later s_flush_later s_read_later s_write_later)

section \<open>The stream of the library\<close>

text \<open>A \<open>Stream\<close> over a socket and a TLS session that are such streams.  Setting a timeout on the
  socket below a TLS session must not take bytes from the session.\<close>

locale stream_parts =
  tcp: byte_stream sys tcp in_tcp out_tcp + tls: byte_stream sys tls in_tls out_tls
  for sys :: "'e system" and tcp :: "('t \<times> 'e) stream_ops" and tls :: "(('n \<times> 't) \<times> 'e) stream_ops"
    and in_tcp out_tcp in_tls out_tls +
  assumes tls_set_read: "s_set_read_timeout tcp tmo (t, e) = (r, t', e') \<Longrightarrow>
      in_tls ((n, t'), e') = in_tls ((n, t), e) \<and> out_tls ((n, t'), e') = out_tls ((n, t), e)"
    and tls_set_write: "s_set_write_timeout tcp tmo (t, e) = (r, t', e') \<Longrightarrow>
      in_tls ((n, t'), e') = in_tls ((n, t), e) \<and> out_tls ((n, t'), e') = out_tls ((n, t), e)"
begin

definition st_incoming :: "('t, 'n) stream_inner \<times> 'e \<Rightarrow> bytes" where
  "st_incoming w = (case w of (Closed, e) \<Rightarrow> [] | (Tcp t, e) \<Rightarrow> in_tcp (t, e) | (Tls n t, e) \<Rightarrow> in_tls ((n, t), e))"

definition st_outgoing :: "('t, 'n) stream_inner \<times> 'e \<Rightarrow> bytes" where
  "st_outgoing w = (case w of (Closed, e) \<Rightarrow> [] | (Tcp t, e) \<Rightarrow> out_tcp (t, e) | (Tls n t, e) \<Rightarrow> out_tls ((n, t), e))"

lemmas st_defs = stream_def st_incoming_def st_outgoing_def lift_tcp_def lift_tls_def

end

sublocale stream_parts \<subseteq> st: byte_stream sys "stream tcp tls" st_incoming st_outgoing
proof (unfold_locales, goal_cases)
  case (1 e n e' t)
  then show ?case using tcp.now_keeps [OF 1] tls.now_keeps [OF 1] by (cases t) (simp_all add: st_defs)
next
  case (2 t d e)
  show ?case using tcp.sleep_keeps tls.sleep_keeps by (cases t) (simp_all add: st_defs)
next
  case (3 tmo w r w')
  then show ?case
    by (auto simp: st_defs stream_set_read_timeout_def split: prod.splits stream_inner.splits
        dest: tcp.set_read_keeps tls_set_read)
next
  case (4 tmo w r w')
  then show ?case
    by (auto simp: st_defs stream_set_write_timeout_def split: prod.splits stream_inner.splits
        dest: tcp.set_write_keeps tls_set_write)
next
  case (5 w r w')
  then show ?case
    by (auto simp: st_defs stream_flush_def split: prod.splits stream_inner.splits
        dest!: tcp.flush_keeps tls.flush_keeps)
next
  case (6 n w er w')
  then show ?case
    by (auto simp: st_defs stream_read_def split: prod.splits stream_inner.splits
        dest!: tcp.read_err tls.read_err)
next
  case (7 n w b w')
  then show ?case
    by (auto simp: st_defs stream_read_def split: prod.splits stream_inner.splits
        dest!: tcp.read_ok tls.read_ok)
next
  case (8 b w n w')
  then show ?case
    by (auto simp: st_defs stream_write_def split: prod.splits stream_inner.splits
        dest!: tcp.write_accepts tls.write_accepts)
next
  case (9 b w er w')
  then show ?case
    by (auto simp: st_defs stream_write_def split: prod.splits stream_inner.splits
        dest!: tcp.write_fails tls.write_fails)
qed

locale timed_parts =
  stream_parts sys tcp tls in_tcp out_tcp in_tls out_tls +
  ttcp: timed_stream sys tcp in_tcp out_tcp clock + ttls: timed_stream sys tls in_tls out_tls clock
  for sys :: "'e system" and tcp :: "('t \<times> 'e) stream_ops" and tls :: "(('n \<times> 't) \<times> 'e) stream_ops"
    and in_tcp out_tcp in_tls out_tls clock

sublocale timed_parts \<subseteq> tst: timed_stream sys "stream tcp tls" st_incoming st_outgoing clock
proof (unfold_locales, goal_cases)
  case (1 e n e')
  then show ?case by (rule ttcp.sys_now_clock)
next
  case (2 e d)
  show ?case by (rule ttcp.sys_sleep_later)
qed (auto simp: stream_def stream_set_read_timeout_def stream_set_write_timeout_def stream_flush_def stream_read_def
    stream_write_def lift_tcp_def lift_tls_def split: prod.splits stream_inner.splits
    dest!: ttcp.s_set_read_later ttcp.s_set_write_later ttcp.s_flush_later ttcp.s_read_later ttcp.s_write_later
      ttls.s_flush_later ttls.s_read_later ttls.s_write_later)

section \<open>A scripted socket\<close>

text \<open>A blocking socket whose peer sends chunks at given times: a read waits for the next chunk, or
  fails with \<open>WouldBlock\<close> when the receive timeout passes first.  The clock moves only while something
  waits.  A timeout of zero is refused, as the documentation of \<open>TcpStream\<close> says.\<close>

record sim =
  sim_in :: "(nat \<times> bytes) list"
  sim_rto :: "nat option"
  sim_out :: bytes

definition sim_sys :: "nat system" where
  "sim_sys = \<lparr>sys_now = (\<lambda>e. (e, e)), sys_sleep = (\<lambda>d e. e + d)\<rparr>"

definition sim_read :: "nat \<Rightarrow> (sim \<times> nat, bytes) io_op" where
  "sim_read n w =
     (case w of (s, now) \<Rightarrow>
        (case dropWhile (\<lambda>x. snd x = []) (sim_in s) of
           [] \<Rightarrow> (Inr [], s\<lparr>sim_in := []\<rparr>, now)
         | (t, b) # rest \<Rightarrow>
             if sim_rto s \<noteq> None \<and> now + the (sim_rto s) < t then (Inl WouldBlock, s, now + the (sim_rto s))
             else (Inr (take n b), s\<lparr>sim_in := (t, drop n b) # rest\<rparr>, max now t)))"

definition sim_set_rto :: "nat option \<Rightarrow> (sim \<times> nat, unit) io_op" where
  "sim_set_rto tmo w = (case w of (s, now) \<Rightarrow>
     if tmo = Some 0 then (Inl InvalidInput, s, now) else (Inr (), s\<lparr>sim_rto := tmo\<rparr>, now))"

definition sim_tcp :: "(sim \<times> nat) stream_ops" where
  "sim_tcp =
     \<lparr>s_shutdown = (\<lambda>_ w. (Inr (), w)), s_set_read_timeout = sim_set_rto,
      s_set_write_timeout = (\<lambda>_ w. (Inr (), w)), s_read_timeout = (\<lambda>w. (Inr (sim_rto (fst w)), w)),
      s_write_timeout = (\<lambda>w. (Inr None, w)), s_read = sim_read, s_read_vectored = (\<lambda>ns. sim_read (sum_list ns)),
      s_write = (\<lambda>b (s, now). (Inr (length b), s\<lparr>sim_out := sim_out s @ b\<rparr>, now)), s_flush = (\<lambda>w. (Inr (), w))\<rparr>"

text \<open>A session over it that does not encrypt.\<close>

definition over_tcp :: "(sim \<times> nat \<Rightarrow> 'x \<times> sim \<times> nat) \<Rightarrow> (unit \<times> sim) \<times> nat \<Rightarrow> 'x \<times> (unit \<times> sim) \<times> nat" where
  "over_tcp f = on_snd f"

definition sim_tls :: "((unit \<times> sim) \<times> nat) stream_ops" where
  "sim_tls =
     \<lparr>s_shutdown = (\<lambda>h. over_tcp (s_shutdown sim_tcp h)), s_set_read_timeout = tlsown_set_read_timeout sim_tcp,
      s_set_write_timeout = tlsown_set_write_timeout sim_tcp, s_read_timeout = over_tcp (s_read_timeout sim_tcp),
      s_write_timeout = over_tcp (s_write_timeout sim_tcp), s_read = (\<lambda>n. over_tcp (s_read sim_tcp n)),
      s_read_vectored = (\<lambda>ns. over_tcp (s_read_vectored sim_tcp ns)),
      s_write = (\<lambda>b. over_tcp (s_write sim_tcp b)), s_flush = over_tcp (s_flush sim_tcp)\<rparr>"

definition sim_incoming :: "sim \<times> nat \<Rightarrow> bytes" where
  "sim_incoming w = concat (map snd (sim_in (fst w)))"

definition sim_outgoing :: "sim \<times> nat \<Rightarrow> bytes" where
  "sim_outgoing w = sim_out (fst w)"

lemma concat_dropWhile_empty: "concat (map snd (dropWhile (\<lambda>x. snd x = []) xs)) = concat (map snd xs)"
  by (induction xs) auto

lemma sim_read_Inl: "sim_read n (s, e) = (Inl er, w') \<Longrightarrow> sim_incoming w' = sim_incoming (s, e) \<and> sim_outgoing w' = sim_outgoing (s, e)"
  by (auto simp: sim_read_def sim_incoming_def sim_outgoing_def split: list.splits if_splits)

lemma sim_read_Inr:
  assumes "sim_read n (s, e) = (Inr b, w')"
  shows "sim_incoming (s, e) = b @ sim_incoming w' \<and> sim_outgoing w' = sim_outgoing (s, e) \<and>
    (0 < n \<longrightarrow> b = [] \<longrightarrow> sim_incoming (s, e) = [])"
proof (cases "dropWhile (\<lambda>x. snd x = []) (sim_in s)")
  case Nil
  with assms concat_dropWhile_empty [of "sim_in s"] show ?thesis
    by (auto simp: sim_read_def sim_incoming_def sim_outgoing_def)
next
  case (Cons a rest)
  have "snd a \<noteq> []" using Cons hd_dropWhile [of "\<lambda>x. snd x = []" "sim_in s"] by auto
  moreover have "concat (map snd (sim_in s)) = snd a @ concat (map snd rest)"
    using concat_dropWhile_empty [of "sim_in s"] Cons by simp
  ultimately show ?thesis using assms Cons
    by (cases a) (auto simp: sim_read_def sim_incoming_def sim_outgoing_def split: if_splits)
qed

lemmas sim_op_defs = sim_sys_def sim_tcp_def sim_tls_def over_tcp_def on_snd_def sim_set_rto_def
  tlsown_set_read_timeout_def tlsown_set_write_timeout_def

interpretation sim_tcp: byte_stream sim_sys sim_tcp sim_incoming sim_outgoing
proof (unfold_locales, goal_cases)
  case (6 n w er w')
  then show ?case using sim_read_Inl [of n "fst w" "snd w"] by (simp add: sim_tcp_def)
next
  case (7 n w b w')
  then show ?case using sim_read_Inr [of n "fst w" "snd w"] by (auto simp: sim_tcp_def)
qed (auto simp: sim_op_defs sim_incoming_def sim_outgoing_def split: if_splits prod.splits)

interpretation sim_tls: byte_stream sim_sys sim_tls
    "\<lambda>((u, s), e). sim_incoming (s, e)" "\<lambda>((u, s), e). sim_outgoing (s, e)"
proof (unfold_locales, goal_cases)
  case (6 n w er w')
  then show ?case
    using sim_read_Inl [of n "snd (fst w)" "snd w" er] by (auto simp: sim_op_defs Let_def split: prod.splits)
next
  case (7 n w b w')
  then show ?case
    using sim_read_Inr [of n "snd (fst w)" "snd w" b] by (auto simp: sim_op_defs Let_def split: prod.splits)
qed (auto simp: sim_op_defs sim_incoming_def sim_outgoing_def Let_def split: if_splits prod.splits)

interpretation sim_stream: stream_parts sim_sys sim_tcp sim_tls sim_incoming sim_outgoing
    "\<lambda>((u, s), e). sim_incoming (s, e)" "\<lambda>((u, s), e). sim_outgoing (s, e)"
  by unfold_locales (auto simp: sim_op_defs sim_incoming_def sim_outgoing_def split: if_splits)

text \<open>The clock of the script.\<close>

lemma sim_read_later: "sim_read n (s, e) = (r, s', e') \<Longrightarrow> e \<le> e'"
  by (auto simp: sim_read_def split: list.splits if_splits)

interpretation sim_timed: timed_parts sim_sys sim_tcp sim_tls sim_incoming sim_outgoing
    "\<lambda>((u, s), e). sim_incoming (s, e)" "\<lambda>((u, s), e). sim_outgoing (s, e)" "\<lambda>e. e"
  by unfold_locales (auto simp: sim_op_defs Let_def split: if_splits prod.splits dest!: sim_read_later)

end
