(* ===== verification/ClientRun.thy ===== *)
theory ClientRun
  imports Client ConnStreams
begin

text \<open>
  What a caller of \<open>run\<close> gets: everything it does is a step of the abstract client, with no
  handlers it sends the whole queue and returns, and what it sends is what a server reads.  The
  locale \<open>live_conn\<close> adds to the contract of a connection that the clock goes forward and that writes
  make progress.
\<close>

section \<open>Connections that make progress\<close>

locale live_conn = timed_conn c pending filled written clock
  for c :: "'w connection" and pending filled written and clock :: "'w \<Rightarrow> nat" +
  assumes sleep_clock: "clock w + d \<le> clock (c_sleep c d w)"
    and write_live: "b \<noteq> [] \<Longrightarrow> \<exists>n w'. c_write c b w = (Inr n, w') \<and> 0 < n"
    and flush_live: "\<exists>w'. c_flush c w = (Inr (), w')"

text \<open>A queue whose first message may be sent at once.\<close>

definition ready :: "nat \<Rightarrow> ('a, 'l) queue \<Rightarrow> bool" where
  "ready now q \<longleftrightarrow> q_timepoint q \<le> now + q_sub q"

context live_conn
begin

lemma io_write_all_live: "\<exists>w'. io_write_all c b w = Some (Return (Inr (), w')) \<and> clock w \<le> clock w'"
proof (induction "length b" arbitrary: b w rule: less_induct)
  case less
  show ?case
  proof (cases "b = []")
    case True
    then show ?thesis by (simp add: io_write_all_def write_all_via.simps [of _ "[]"])
  next
    case False
    obtain n w1 where w: "c_write c b w = (Inr n, w1)" "0 < n" "clock w \<le> clock w1" using write_live [OF False] write_later by blast
    have n: "n \<le> length b" using write_ok [OF w(1)] by simp
    have "length (drop n b) < length b" using w(2) False by simp
    from less [OF this, of w1] obtain w' where "io_write_all c (drop n b) w1 = Some (Return (Inr (), w'))" "clock w1 \<le> clock w'"
      by blast
    with w n False show ?thesis by (simp add: io_write_all_def write_all_via.simps [of _ b] sync_write_def)
  qed
qed

lemma pop_now_live:
  assumes "q_queue q = m # ms"
  shows "(\<exists>B q' w'. (\<forall>imax \<ge> B. pop_now (c_now c) imax q w = Return (PopMsg m, q', w')) \<and>
        q_queue q' = ms \<and> q_sub q' = q_sub q \<and> clock w \<le> clock w') \<or>
    (\<not> ready (clock w) q \<and> (\<exists>d w'. (\<forall>imax. pop_now (c_now c) imax q w = Return (PopTimeout (Some d), q, w')) \<and>
        ready (clock w' + d) q \<and> clock w \<le> clock w'))"
proof -
  obtain t1 w1 where n1: "c_now c w = (t1, w1)" by fastforce
  obtain t2 w2 where n2: "c_now c w1 = (t2, w2)" by fastforce
  have t: "clock w \<le> t1" "t1 \<le> clock w1" "clock w1 \<le> t2" "t2 \<le> clock w2"
    using now_clock [OF n1] now_clock [OF n2] by auto
  have ne: "\<not> queue_is_empty q" using assms by (simp add: queue_is_empty_def)
  show ?thesis
  proof (cases "q_timepoint q - t1 - q_sub q = 0")
    case True
    let ?B = "max (q_timepoint q) t2 + q_delay q" and ?q = "q\<lparr>q_queue := ms, q_timepoint := max (q_timepoint q) t2 + q_delay q\<rparr>"
    have "pop_now (c_now c) imax q w = Return (PopMsg m, ?q, w2)" if "?B \<le> imax" for imax
      using that True assms ne n1 n2 by (simp add: pop_now_def pop_def)
    then show ?thesis using t by (intro disjI1 exI [of _ ?B] exI [of _ ?q] exI [of _ w2]) auto
  next
    case False
    let ?d = "q_timepoint q - t1 - q_sub q"
    have "pop_now (c_now c) imax q w = Return (PopTimeout (Some ?d), q, w1)" for imax
      using False assms ne n1 by (simp add: pop_now_def pop_PopTimeout pop_def)
    then show ?thesis using t False by (intro disjI2) (auto simp: ready_def intro!: exI [of _ ?d] exI [of _ w1])
  qed
qed

lemma flush_loop_live:
  "\<exists>B tmo q' popped w'. (\<forall>imax \<ge> B. flush_loop (c_now c) imax q buf w = Return (tmo, q', buf @ encoded popped, w')) \<and>
     q_queue q = popped @ q_queue q' \<and> clock w \<le> clock w' \<and> q_sub q' = q_sub q \<and>
     (case tmo of None \<Rightarrow> q_queue q' = [] | Some d \<Rightarrow> q_queue q' \<noteq> [] \<and> ready (clock w' + d) q') \<and>
     (popped = [] \<longrightarrow> q_queue q = [] \<or> \<not> ready (clock w) q \<and> q' = q)"
proof (induction "q_queue q" arbitrary: q buf w)
  case Nil
  then have "flush_loop (c_now c) imax q buf w = Return (None, q, buf, w)" for imax
    by (subst flush_loop.simps) (simp add: pop_now_def queue_is_empty_def)
  with Nil show ?case
    by (intro exI [of _ 0] exI [of _ None] exI [of _ q] exI [of _ "[]"] exI [of _ w]) (simp add: encoded_def)
next
  case (Cons m ms)
  note qm = Cons.hyps(2) [symmetric]
  from pop_now_live [OF qm, of w] show ?case
  proof (elim disjE exE conjE)
    fix B q1 w1
    assume p: "\<forall>imax \<ge> B. pop_now (c_now c) imax q w = Return (PopMsg m, q1, w1)" and q1: "q_queue q1 = ms"
      and s1: "q_sub q1 = q_sub q" and c1: "clock w \<le> clock w1"
    from Cons.hyps(1) [OF q1 [symmetric], of "(buf @ client_write_to m) @ crlf" w1]
    obtain B' tmo q' popped w' where f:
      "\<forall>imax \<ge> B'. flush_loop (c_now c) imax q1 ((buf @ client_write_to m) @ crlf) w1 =
        Return (tmo, q', ((buf @ client_write_to m) @ crlf) @ encoded popped, w')"
      and g: "q_queue q1 = popped @ q_queue q'" "clock w1 \<le> clock w'" "q_sub q' = q_sub q1"
        "case tmo of None \<Rightarrow> q_queue q' = [] | Some d \<Rightarrow> q_queue q' \<noteq> [] \<and> ready (clock w' + d) q'"
      by blast
    have "flush_loop (c_now c) imax q buf w = Return (tmo, q', buf @ encoded (m # popped), w')" if "max B B' \<le> imax" for imax
      using that p f by (subst flush_loop.simps) (simp add: encoded_def)
    with g qm q1 s1 c1 show ?thesis
      by (intro exI [of _ "max B B'"] exI [of _ tmo] exI [of _ q'] exI [of _ "m # popped"] exI [of _ w']) auto
  next
    fix d w1
    assume nr: "\<not> ready (clock w) q" and p: "\<forall>imax. pop_now (c_now c) imax q w = Return (PopTimeout (Some d), q, w1)"
      and r: "ready (clock w1 + d) q" and c1: "clock w \<le> clock w1"
    have "flush_loop (c_now c) imax q buf w = Return (Some d, q, buf @ encoded [], w1)" for imax
      using p by (subst flush_loop.simps) (simp add: encoded_def)
    with nr r c1 qm show ?thesis
      by (intro exI [of _ 0] exI [of _ "Some d"] exI [of _ q] exI [of _ "[]"] exI [of _ w1]) simp
  qed
qed

lemma flush_partial_live:
  assumes "mi_buf_o (k_conn k) = []" and "q_queue (cl_queue (k_logic k)) \<noteq> []"
  shows "\<exists>B tmo q' popped w'.
     (\<forall>imax \<ge> B. flush_partial c imax k = Some (Return (Inr tmo,
        k\<lparr>k_logic := (k_logic k)\<lparr>cl_queue := q'\<rparr>, k_conn := (k_conn k)\<lparr>mi_conn := w', mi_buf_o := []\<rparr>\<rparr>))) \<and>
     q_queue (cl_queue (k_logic k)) = popped @ q_queue q' \<and> written w' = written (mi_conn (k_conn k)) @ encoded popped \<and>
     pending w' = pending (mi_conn (k_conn k)) \<and>
     (case tmo of None \<Rightarrow> q_queue q' = [] | Some d \<Rightarrow> ready (clock w' + d) q') \<and>
     (popped = [] \<longrightarrow> \<not> ready (clock (mi_conn (k_conn k))) (cl_queue (k_logic k)))"
proof -
  let ?q = "cl_queue (k_logic k)" and ?w = "mi_conn (k_conn k)"
  from flush_loop_live [of ?q "[]" ?w] obtain B tmo q' popped w1 where
    f: "\<forall>imax \<ge> B. flush_loop (c_now c) imax ?q [] ?w = Return (tmo, q', encoded popped, w1)" and
    g: "q_queue ?q = popped @ q_queue q'"
      "case tmo of None \<Rightarrow> q_queue q' = [] | Some d \<Rightarrow> q_queue q' \<noteq> [] \<and> ready (clock w1 + d) q'"
      "popped = [] \<longrightarrow> \<not> ready (clock ?w) ?q"
    using assms(2) by auto
  obtain w2 where wa: "io_write_all c (encoded popped) w1 = Some (Return (Inr (), w2))" "clock w1 \<le> clock w2"
    using io_write_all_live by blast
  obtain w3 where fl: "c_flush c w2 = (Inr (), w3)" "clock w2 \<le> clock w3" using flush_live flush_later by blast
  have fr: "pending w1 = pending ?w" "written w1 = written ?w"
    using f [THEN spec, THEN mp, OF order_refl] by (auto dest: flush_loop_keeps)
  have w3: "written w3 = written ?w @ encoded popped" "pending w3 = pending ?w"
    using io_write_all_spec [OF wa(1)] flush_frame [OF fl(1)] fr by (auto simp: write_spec_def)
  have "flush_partial c imax k = Some (Return (Inr tmo,
        k\<lparr>k_logic := (k_logic k)\<lparr>cl_queue := q'\<rparr>, k_conn := (k_conn k)\<lparr>mi_conn := w3, mi_buf_o := []\<rparr>\<rparr>))" if "B \<le> imax" for imax
    using f that assms wa fl by (simp add: flush_partial_def flush_via_def queue_is_empty_def bind_exec_def put_world_def)
  moreover have "case tmo of None \<Rightarrow> q_queue q' = [] | Some d \<Rightarrow> ready (clock w3 + d) q'"
    using g(2) wa(2) fl(2) by (cases tmo) (auto simp: ready_def)
  ultimately show ?thesis using g w3 by blast
qed

lemma run_no_handlers:
  fixes k :: "('w, 'h, 'c, 'v, 'a, 'l, 's, 'f) client"
  assumes "mi_buf_o (k_conn k) = []" and "handlers_is_empty (cl_handlers (k_logic k))"
  shows "\<exists>B k'. (\<forall>imax \<ge> B. run c imax k = Some (Return (Inr (Some ([], [])), k'))) \<and>
    q_queue (cl_queue (k_logic k')) = [] \<and>
    written (mi_conn (k_conn k')) = written (mi_conn (k_conn k)) @ encoded (q_queue (cl_queue (k_logic k))) \<and>
    pending (mi_conn (k_conn k')) = pending (mi_conn (k_conn k))"
  using assms
proof (induction "2 * length (q_queue (cl_queue (k_logic k))) +
    (if ready (clock (mi_conn (k_conn k))) (cl_queue (k_logic k)) then 0 else 1)" arbitrary: k rule: less_induct)
  case less
  let ?q = "cl_queue (k_logic k)" and ?w = "mi_conn (k_conn k)"
  show ?case
  proof (cases "q_queue ?q = []")
    case True
    then have "run c imax k = Some (Return (Inr (Some ([], [])), k))" for imax
      using less.prems unfolding run_def
      by (subst turns.simps) (simp add: run_turn_def turn_via_def flush_partial_def flush_via_def queue_is_empty_def bind_exec_def)
    with True show ?thesis by (intro exI [of _ 0] exI [of _ k]) (simp add: encoded_def)
  next
    case False
    from flush_partial_live [OF less.prems(1) False] obtain B tmo q' popped w' where
      f: "\<forall>imax \<ge> B. flush_partial c imax k = Some (Return (Inr tmo,
        k\<lparr>k_logic := (k_logic k)\<lparr>cl_queue := q'\<rparr>, k_conn := (k_conn k)\<lparr>mi_conn := w', mi_buf_o := []\<rparr>\<rparr>))" and
      g: "q_queue ?q = popped @ q_queue q'" "written w' = written ?w @ encoded popped" "pending w' = pending ?w"
        "case tmo of None \<Rightarrow> q_queue q' = [] | Some d \<Rightarrow> ready (clock w' + d) q'" "popped = [] \<longrightarrow> \<not> ready (clock ?w) ?q"
      by blast
    let ?k1 = "k\<lparr>k_logic := (k_logic k)\<lparr>cl_queue := q'\<rparr>, k_conn := (k_conn k)\<lparr>mi_conn := w', mi_buf_o := []\<rparr>\<rparr>"
    show ?thesis
    proof (cases tmo)
      case None
      then have "run c imax k = Some (Return (Inr (Some ([], [])), ?k1))" if "B \<le> imax" for imax
        using f that less.prems(2) unfolding run_def by (subst turns.simps) (simp add: run_turn_def turn_via_def bind_exec_def)
      then show ?thesis using g None by (intro exI [of _ B] exI [of _ ?k1]) simp
    next
      case (Some d)
      let ?k2 = "put_world (c_sleep c d w') ?k1"
      have rn: "run c imax k = run c imax ?k2" if "B \<le> imax" for imax
        using f that less.prems(2) Some unfolding run_def by (subst turns.simps) (simp add: run_turn_def turn_via_def bind_exec_def)
      have rd: "ready (clock (c_sleep c d w')) q'"
        using g(4) Some sleep_clock [of w' d] by (simp add: ready_def)
      have "popped = [] \<Longrightarrow> q' = ?q \<or> length (q_queue q') = length (q_queue ?q)" using g(1) by simp
      then have m: "2 * length (q_queue q') + 0 < 2 * length (q_queue ?q) + (if ready (clock ?w) ?q then 0 else 1)"
        using g(1,5) by (cases popped) auto
      have "\<exists>B k'. (\<forall>imax \<ge> B. run c imax ?k2 = Some (Return (Inr (Some ([], [])), k'))) \<and>
          q_queue (cl_queue (k_logic k')) = [] \<and>
          written (mi_conn (k_conn k')) = written (mi_conn (k_conn ?k2)) @ encoded (q_queue (cl_queue (k_logic ?k2))) \<and>
          pending (mi_conn (k_conn k')) = pending (mi_conn (k_conn ?k2))"
        using less.hyps [of ?k2] m rd less.prems by (simp add: put_world_def)
      then obtain B' k' where r: "\<forall>imax \<ge> B'. run c imax ?k2 = Some (Return (Inr (Some ([], [])), k'))"
        "q_queue (cl_queue (k_logic k')) = []"
        "written (mi_conn (k_conn k')) = written (c_sleep c d w') @ encoded (q_queue q')"
        "pending (mi_conn (k_conn k')) = pending (c_sleep c d w')" by (auto simp: put_world_def)
      show ?thesis using r rn g(1,2,3) sleep_frame [of d w']
        by (intro exI [of _ "max B B'"] exI [of _ k']) (auto simp: encoded_def)
    qed
  qed
qed

end

section \<open>The scripted socket\<close>

definition sim_conn :: "((bytes \<times> (sim, unit) stream_inner) \<times> nat) connection" where
  "sim_conn = buf_reader sim_sys BUFSIZE (stream sim_tcp sim_tls)"

lemmas sim_conn_defs = sim_conn_def buf_reader_def stream_def stream_read_def stream_set_read_timeout_def
  stream_write_def stream_flush_def lift_tcp_def sim_tcp_def sim_sys_def sim_read_def sim_set_rto_def br_fill_buf_def
  br_consume_def br_set_read_timeout_def br_set_write_timeout_def on_snd_def

lemma sim_conn_ops [simp]:
  "c_now sim_conn (k, e) = (e, k, e)"
  "c_flush sim_conn ((x, Tcp s), e) = (Inr (), (x, Tcp s), e)"
  "c_write sim_conn buf ((x, Tcp s), e) = (Inr (length buf), (x, Tcp (s\<lparr>sim_out := sim_out s @ buf\<rparr>)), e)"
  "d \<noteq> 0 \<Longrightarrow> c_set_read_timeout sim_conn (Some d) ((x, Tcp s), e) = (Inr (), (x, Tcp (s\<lparr>sim_rto := Some d\<rparr>)), e)"
  by (simp_all add: sim_conn_defs)

lemma sim_conn_waits:
  "b \<noteq> [] \<Longrightarrow> e + d < T \<Longrightarrow>
   c_fill_buf sim_conn (([], Tcp \<lparr>sim_in = (T, b) # bs, sim_rto = Some d, sim_out = out\<rparr>), e) =
   (Inl WouldBlock, ([], Tcp \<lparr>sim_in = (T, b) # bs, sim_rto = Some d, sim_out = out\<rparr>), e + d)"
  by (simp add: sim_conn_defs)

lemma sim_conn_write_all:
  "io_write_all sim_conn buf ((x, Tcp s), e) = Some (Return (Inr (), ((x, Tcp (s\<lparr>sim_out := sim_out s @ buf\<rparr>)), e)))"
  unfolding io_write_all_def by (subst write_all_via.simps, subst write_all_via.simps) (simp add: sync_write_def)

text \<open>A read before the next chunk arrives, with a deadline or with the timeout the socket still has.\<close>

lemma sim_conn_read:
  "b \<noteq> [] \<Longrightarrow> e + d < T \<Longrightarrow> read_msg_from server_MAX_LEN p ow sim_conn None []
      (([], Tcp \<lparr>sim_in = (T, b) # bs, sim_rto = Some d, sim_out = out\<rparr>), e) =
    Some (Inl WouldBlock, [], (([], Tcp \<lparr>sim_in = (T, b) # bs, sim_rto = Some d, sim_out = out\<rparr>), e + d))"
  "b \<noteq> [] \<Longrightarrow> e < t \<Longrightarrow> t < T \<Longrightarrow> read_msg_from server_MAX_LEN p ow sim_conn (Some t) []
      (([], Tcp \<lparr>sim_in = (T, b) # bs, sim_rto = rto, sim_out = out\<rparr>), e) =
    Some (Inl WouldBlock, [], (([], Tcp \<lparr>sim_in = (T, b) # bs, sim_rto = Some (t - e), sim_out = out\<rparr>), t))"
  unfolding read_msg_from_def io_read_until_def by (subst read_msg_via.simps, subst until_via.simps,
      simp add: sync_fill_def server_MAX_LEN_def tls_fill_buf_def update_timeout_def sim_conn_waits)+

lemmas client_simps = run_def run_turn_def turn_via_def flush_partial_def flush_via_def bind_exec_def pop_now_def queue_is_empty_def
  put_world_def read_step_def tls_new_def timeout_fallback_def
  client_read_owning_from_def client_read_borrowing_from_def filter_time_error_def timed_out_def pop_def

section \<open>The in-memory connection\<close>

definition mem_conn :: "((bytes \<times> bytes) \<times> nat) connection" where
  "mem_conn = bidir sim_sys cursor_half vec_write"

interpretation mem_live: live_conn mem_conn "\<lambda>w. fst (fst w)" "\<lambda>w. fst (fst w)" "\<lambda>w. snd (fst w)" snd
proof -
  have "buf_conn mem_conn (\<lambda>w. fst (fst w)) (\<lambda>w. fst (fst w)) (\<lambda>w. snd (fst w))"
    unfolding mem_conn_def by unfold_locales
  moreover have "timed_conn_axioms mem_conn snd"
    by unfold_locales (auto simp: mem_conn_def bidir_def half_defs sim_sys_def)
  moreover have "live_conn_axioms mem_conn snd"
    by unfold_locales (auto simp: mem_conn_def bidir_def half_defs sim_sys_def)
  ultimately show "live_conn mem_conn (\<lambda>w. fst (fst w)) (\<lambda>w. fst (fst w)) (\<lambda>w. snd (fst w)) snd"
    by (intro live_conn.intro timed_conn.intro)
qed

text \<open>A buffered reader on the scripted socket makes progress, too.\<close>

interpretation sim_live: live_conn "buf_reader sim_sys BUFSIZE sim_tcp" sim_tcp.br_pending "\<lambda>w. fst (fst w)"
    sim_tcp.br_written snd
  by unfold_locales (auto simp: buf_reader_def sim_sys_def sim_tcp_def on_snd_def)

text \<open>The blocking loop on both, and on the stream of the library over the scripted socket.\<close>

interpretation mem_io: client_io "flush_partial mem_conn imax" "c_sleep mem_conn" "read_step mem_conn imax" imax
    "\<lambda>w. fst (fst w)" "\<lambda>w. snd (fst w)" snd for imax
  by (rule sync_client_io [OF mem_live.timed_conn_axioms])

interpretation stream_io: client_io "flush_partial sim_conn imax" "c_sleep sim_conn" "read_step sim_conn imax" imax
    sim_stream.st.br_pending sim_stream.st.br_written snd for imax
  by (rule sync_client_io [OF sim_timed.tst.tbr.timed_conn_axioms [folded sim_conn_def]])

lemma mem_conn_ops [simp]:
  "c_now mem_conn (k, e) = (e, k, e)"
  "c_fill_buf mem_conn ((i, out), e) = (Inr i, (i, out), e)"
  "c_consume mem_conn n ((i, out), e) = ((drop n i, out), e)"
  "c_write mem_conn b ((i, out), e) = (Inr (length b), (i, out @ b), e)"
  "c_flush mem_conn w = (Inr (), w)"
  by (simp_all add: mem_conn_def bidir_def half_defs sim_sys_def split: prod.splits)

lemma mem_conn_write_all: "io_write_all mem_conn buf ((i, out), e) = Some (Return (Inr (), ((i, out @ buf), e)))"
  unfolding io_write_all_def by (subst write_all_via.simps, subst write_all_via.simps) (simp add: sync_write_def)

lemma mem_conn_read_line:
  assumes "line \<noteq> []" and "last line \<notin> {CHR 0x0A, CHR 0x0D, CHR 0x00}" and "CHR 0x0A \<notin> set line"
    and "length line + 2 \<le> limit" and "parse line = Some (Inr m)"
  shows "read_msg_from limit parse owned mem_conn None [] ((line @ crlf @ rest, out), e) =
    Some (Inr m, if owned then [] else line, ((rest, out), e))"
proof -
  let ?i = "line @ crlf @ rest"
  have "take limit ?i = (line @ [CHR 0x0D]) @ CHR 0x0A # take (limit - (length line + 2)) rest"
    using assms(4) by (simp add: crlf_def take_Cons')
  then have "position (\<lambda>b. b = CHR 0x0A) (take limit ?i) = Some (length line + 1)"
    using position_first [of "CHR 0x0A" "line @ [CHR 0x0D]"] assms(3) by simp
  then have u: "io_read_until mem_conn None (CHR 0x0A) limit 0 [] ((?i, out), e) =
      Some (Inr (length line + 2), line @ crlf, ((rest, out), e))"
    using assms(4) unfolding io_read_until_def by (subst until_via.simps)
      (simp add: sync_fill_def tls_fill_buf_def update_timeout_def tls_consume_def crlf_def)
  have "read_buf_from (rev line) True = (ParseLine line, rev line)"
    using assms(1,2) by (cases line rule: rev_cases) auto
  then have "read_buf_from (rev (line @ crlf)) False = (ParseLine line, rev line)" by (simp add: crlf_def)
  with u assms(4,5) show ?thesis by (unfold read_msg_from_def, subst read_msg_via.simps) simp
qed

text \<open>A client with one handler, a message to send and one that arrives.\<close>

definition example_logic :: "(unit, unit, server_msg, unit, unit) client_logic" where
  "example_logic = (cl_new 0)\<lparr>cl_queue := from_queue 0 [client_new_cmd ''PING''],
     cl_handlers := snd (handlers_add YieldAll closed_sender handlers_default)\<rparr>"

definition example_client :: "((bytes \<times> bytes) \<times> nat, unit, unit, server_msg, unit, unit, unit, unit) client" where
  "example_client = new_with_logic ((''PING'' @ crlf @ ''REST'', []), 0) () example_logic"

lemma server_parse_ping: "server_msg_parse ''PING'' = Some (Inr (server_new_cmd ''PING''))"
proof -
  have "server_msg_ok (server_new_cmd ''PING'')"
    by (simp add: server_msg_ok_def server_new_cmd_def example_defs tags_new_def fm_new_def args_empty_def)
  from server_parse_write [OF this] show ?thesis
    by (simp add: server_new_cmd_def server_write_to_def msg_write_text head_text_def tags_new_def fm_new_def args_empty_def
        args_text_def kind_as_arg_def kind_as_str_def)
qed

lemma example_client_run:
  "\<exists>k'. run mem_conn (10 ^ 20) example_client = Some (Return (Inr (Some ([], [0])), k')) \<and>
     mi_conn (k_conn k') = ((''REST'', client_write_to (client_new_cmd ''PING'') @ crlf), 0)"
proof -
  have r: "read_msg_from server_MAX_LEN server_msg_parse owned mem_conn None [] ((''PING'' @ crlf @ rest, out), e) =
      Some (Inr (server_new_cmd ''PING''), if owned then [] else ''PING'', ((rest, out), e))" for owned rest out e
    by (rule mem_conn_read_line) (simp_all add: server_MAX_LEN_def server_parse_ping)
  show ?thesis
    unfolding run_def by (subst turns.simps) (simp add: example_client_def example_logic_def new_with_logic_def mi_new_def cl_new_def client_simps Let_def
        flush_loop.simps [of "c_now mem_conn"] mem_conn_write_all r [simplified] from_queue_def secs_def handlers_add_def handlers_default_def
        handlers_is_empty_def tl_default_def handle_turn_def run_once_def adjust_def handlers_handle_def
        handle_loop.simps box_call_def YieldAll_def yield_all_handle_def sr_send_def closed_sender_def cf_discard_def
        has_results_def last_run_results_def swap_remove_def queue_edit_def)
qed

section \<open>Properties\<close>

text \<open>C3: Whenever \<open>run\<close> returns without an error, what it has done is a sequence of steps of the abstract client, on every connection
  that keeps to the contract of \<open>BufRead\<close> and \<open>Write\<close> and whose clock is never turned back.  It has taken messages from the front of
  the queue, each at an instant of its run at which \<open>Queue::pop\<close> lets it go, and written them in this order; it has handled the
  messages of the stream one by one, complete and in order, skipped blank lines, and called the timeout closure only with nothing
  queued.  Time limits that interrupt a read in the middle of a line lose nothing, and afterwards the buffers are ready for the next
  call.  The output buffer is empty when \<open>run\<close> is called and the input buffer holds at most a part of a line.\<close>

theorem run_refines_client:
  assumes "timed_conn c pending filled written clock" and "client_ok k" and "run c imax k = Some (Return (Inr ids, k'))"
  shows "client_steps imax (client_abs pending written clock k) (client_abs pending written clock k') \<and> client_ok k'"
  using run_steps [OF assms] by simp

theorem run_refines_client_witness:
  "\<exists>k'. run mem_conn (10 ^ 20) example_client = Some (Return (Inr (Some ([], [0])), k')) \<and>
     client_steps (10 ^ 20)
       (example_logic, None, ''PING'' @ crlf @ ''REST'', [], 0)
       (k_logic k', k_on_timeout k', mi_buf_i (k_conn k') @ ''REST'', client_write_to (client_new_cmd ''PING'') @ crlf, 0)"
proof -
  obtain k' where k': "run mem_conn (10 ^ 20) example_client = Some (Return (Inr (Some ([], [0])), k'))"
    "mi_conn (k_conn k') = ((''REST'', client_write_to (client_new_cmd ''PING'') @ crlf), 0)"
    using example_client_run by blast
  have "client_ok example_client"
    by (simp add: client_ok_def buf_ok_def example_client_def new_with_logic_def mi_new_def server_MAX_LEN_def)
  from run_refines_client [OF mem_live.timed_conn_axioms this k'(1)] k' show ?thesis
    by (auto simp: client_abs_def example_client_def new_with_logic_def mi_new_def)
qed

text \<open>C4: Without handlers and with an empty output buffer, \<open>run\<close> returns after it has sent the whole queue, in order and nothing else,
  however long the rate limit makes it sleep and however the connection splits the writes, on a connection on which no write and no
  flush fails, a write takes at least one byte, the clock is never turned back and a sleep lasts as long as it should.  It does so
  for every largest instant of the clock beyond some bound.\<close>

theorem run_sends_queue:
  assumes "live_conn c pending filled written clock" and "mi_buf_o (k_conn k) = []"
    and "handlers_is_empty (cl_handlers (k_logic k))"
  shows "\<exists>B k'. (\<forall>imax \<ge> B. run c imax k = Some (Return (Inr (Some ([], [])), k'))) \<and>
    q_queue (cl_queue (k_logic k')) = [] \<and>
    written (mi_conn (k_conn k')) = written (mi_conn (k_conn k)) @ encoded (q_queue (cl_queue (k_logic k)))"
  using live_conn.run_no_handlers [OF assms] by blast

theorem run_sends_queue_witness:
  "\<exists>B k'. (\<forall>imax \<ge> B. run mem_conn imax
      (new_with_queue 0 (([], []), 0) () (from_queue 0 (replicate 9 (client_new_cmd ''PING'')))
        :: (_, unit, unit, unit, unit, unit, unit, unit) client) = Some (Return (Inr (Some ([], [])), k'))) \<and>
    snd (fst (mi_conn (k_conn k'))) = encoded (replicate 9 (client_new_cmd ''PING''))"
  using run_sends_queue [OF mem_live.live_conn_axioms,
      of "new_with_queue 0 (([], []), 0) () (from_queue 0 (replicate 9 (client_new_cmd ''PING'')))
        :: (_, unit, unit, unit, unit, unit, unit, unit) client"]
  by (auto simp: new_with_queue_def new_with_logic_def mi_new_def with_queue_def cl_new_def handlers_default_def
      handlers_is_empty_def from_queue_def)

text \<open>C5: What a flush sends arrives: when it succeeds, a server that reads from the connection gets exactly
  the messages that have left the queue, in order, and the others are still queued.  The queued messages
  are well formed, fit the longest line with their terminator, and have tag values that need no escape
  and words that do not start with a tab or form feed.\<close>

theorem flushed_messages_arrive:
  assumes "buf_conn c pending filled written" and "client_ok k"
    and "flush_partial c imax k = Some (Return (Inr tmo, k'))"
    and "\<forall>m \<in> set (q_queue (cl_queue (k_logic k))). client_msg_ok m \<and> wire_safe (cm_tags m) (cm_args m) \<and>
      length (client_write_to m) + 2 \<le> client_MAX_LEN"
  shows "\<exists>ms sent. q_queue (cl_queue (k_logic k)) = ms @ q_queue (cl_queue (k_logic k')) \<and>
    written (mi_conn (k_conn k')) = written (mi_conn (k_conn k)) @ sent \<and>
    read_all (length ms) client_MAX_LEN client_msg_parse sent = Some (map Inr ms, [])"
proof -
  obtain ms where ms: "q_queue (cl_queue (k_logic k)) = ms @ q_queue (cl_queue (k_logic k'))"
    "written (mi_conn (k_conn k')) = written (mi_conn (k_conn k)) @ encoded ms"
    using buf_conn.flush_partial_flushed [OF assms(1,3,2)] by (auto simp: flushed_def)
  have "client_write_to m \<noteq> []" if "client_msg_ok m" for m
    using that by (auto simp: client_write_to_def msg_write_text client_msg_ok_def valid_Cmd_iff)
  moreover have "client_msg_parse (client_write_to m) = Some (Inr m)"
    if "client_msg_ok m" and "wire_safe (cm_tags m) (cm_args m)" for m
    using client_parse_write [OF that(1)] that(2) by (simp add: wire_safe_def reparsed_plain)
  ultimately have "\<forall>m \<in> set ms. client_write_to m \<noteq> [] \<and> valid Line (client_write_to m) \<and>
      length (client_write_to m) + 2 \<le> client_MAX_LEN \<and> client_msg_parse (client_write_to m) = Some (Inr m)"
    using assms(4) ms(1) client_write_Line by auto
  from read_all_lines [OF this, of "[]"] ms show ?thesis by (auto simp: encoded_def crlf_def)
qed

theorem flushed_messages_arrive_witness:
  "\<exists>k' ms sent. flush_partial mem_conn (10 ^ 20) example_client = Some (Return (Inr None, k')) \<and>
     [client_new_cmd ''PING''] = ms @ q_queue (cl_queue (k_logic k')) \<and> snd (fst (mi_conn (k_conn k'))) = sent \<and>
     read_all (length ms) client_MAX_LEN client_msg_parse sent = Some (map Inr ms, [])"
proof -
  have "\<exists>k'. flush_partial mem_conn (10 ^ 20) example_client = Some (Return (Inr None, k'))"
    by (simp add: example_client_def example_logic_def new_with_logic_def mi_new_def client_simps Let_def
        flush_loop.simps [of "c_now mem_conn"] mem_conn_write_all from_queue_def secs_def)
  then obtain k' where k': "flush_partial mem_conn (10 ^ 20) example_client = Some (Return (Inr None, k'))" by blast
  have ok: "client_ok example_client"
    by (simp add: client_ok_def buf_ok_def example_client_def new_with_logic_def mi_new_def server_MAX_LEN_def)
  have q: "q_queue (cl_queue (k_logic example_client)) = [client_new_cmd ''PING'']"
    "snd (fst (mi_conn (k_conn example_client))) = []"
    by (simp_all add: example_client_def example_logic_def new_with_logic_def mi_new_def from_queue_def)
  have "client_msg_ok (client_new_cmd ''PING'')" "wire_safe (cm_tags (client_new_cmd ''PING'')) (cm_args (client_new_cmd ''PING''))"
    "length (client_write_to (client_new_cmd ''PING'')) + 2 \<le> client_MAX_LEN"
    by (simp_all add: client_msg_ok_def client_new_cmd_def example_defs tags_new_def fm_new_def args_empty_def client_MAX_LEN_def
        client_write_to_def msg_write_text head_text_def args_text_def)
  with flushed_messages_arrive [OF mem_live.buf_conn_axioms ok k'] k' q show ?thesis by auto
qed

text \<open>A client without a read timeout reports one.  While a message waits for the rate limit the socket
  is given a receive timeout, and it is left there when the queue is empty and nothing limits the next
  read, so the read fails although the server is only quiet.\<close>

lemma stale_read_timeout:
  assumes "\<not> handlers_is_empty (cl_handlers l)" and "cl_timeout l = tl_default"
    and "cl_queue l = \<lparr>q_queue = [m1, m2], q_delay = D, q_sub = 0, q_timepoint = 0, q_labeler = None, q_adjuster = None\<rparr>"
    and "0 < D" and "2 * D < T" and "3 * D \<le> imax" and "b \<noteq> []"
  shows "\<exists>k'. run sim_conn imax
      (new_with_logic (([], Tcp \<lparr>sim_in = [(T, b)], sim_rto = None, sim_out = []\<rparr>), 0) spec l) =
      Some (Return (Inr None, k')) \<and> snd (mi_conn (k_conn k')) = 2 * D"
proof -
  note turn = client_simps new_with_logic_def mi_new_def Let_def flush_loop.simps [of "c_now sim_conn"] sim_conn_write_all
    sim_conn_read tl_default_def
  show ?thesis
  proof (cases "hs_wants_owning (cl_handlers l)")
    case True
    with assms show ?thesis unfolding run_def
      by - (subst turns.simps, simp add: turn, subst turns.simps, simp add: turn)
  next
    case False
    with assms show ?thesis unfolding run_def
      by - (subst turns.simps, simp add: turn, subst turns.simps, simp add: turn)
  qed
qed
end
