(* ===== verification/ConnTokio.thy ===== *)
theory ConnTokio
  imports ClientRun
begin

text \<open>
  The asynchronous client: \<open>client/conn/tokio.rs\<close> and the tokio part of \<open>client/conn/time.rs\<close>.  An operation
  is polled and is ready or pending; awaiting it polls until it is ready, and between two polls the
  task is suspended (\<open>t_park\<close>).  The runtime, its timers and its sockets are parameters, like the
  blocking ones.  Reading and looping share their definitions with the blocking client, so the same
  refinement holds; the write limit, however, starts anew at every poll.
\<close>

section \<open>Polling\<close>

datatype 'x poll = Ready 'x | Pending

type_synonym ('w, 'r) poll_op = "'w \<Rightarrow> ('r, io_error) result poll \<times> 'w"

text \<open>\<open>t_poll_sleep d\<close> polls a timer for the instant \<open>d\<close>, \<open>t_sleep\<close> awaits one.\<close>

record 'w tokio_conn =
  t_now :: "'w \<Rightarrow> nat \<times> 'w"
  t_poll_sleep :: "nat \<Rightarrow> 'w \<Rightarrow> unit poll \<times> 'w"
  t_sleep :: "nat \<Rightarrow> 'w \<Rightarrow> 'w"
  t_park :: "'w \<Rightarrow> 'w"
  t_poll_fill_buf :: "('w, bytes) poll_op"
  t_consume :: "nat \<Rightarrow> 'w \<Rightarrow> 'w"
  t_poll_write :: "bytes \<Rightarrow> ('w, nat) poll_op"
  t_poll_flush :: "('w, unit) poll_op"
  t_poll_shutdown :: "('w, unit) poll_op"

section \<open>Streams (\<open>client/conn/tokio.rs\<close>)\<close>

record 'w poll_ops =
  p_read :: "nat \<Rightarrow> ('w, bytes) poll_op"
  p_write :: "bytes \<Rightarrow> ('w, nat) poll_op"
  p_flush :: "('w, unit) poll_op"
  p_shutdown :: "('w, unit) poll_op"

definition tk_poll_read ::
  "('t \<times> 'e) poll_ops \<Rightarrow> (('n \<times> 't) \<times> 'e) poll_ops \<Rightarrow> nat \<Rightarrow> (('t, 'n) stream_inner \<times> 'e, bytes) poll_op" where
  "tk_poll_read tcp tls n w =
     (case w of
        (Closed, e) \<Rightarrow> (Ready (Inr []), Closed, e)
      | (Tcp s, e) \<Rightarrow> lift_tcp Tcp (p_read tcp n (s, e))
      | (Tls c s, e) \<Rightarrow> lift_tls (p_read tls n ((c, s), e)))"

definition tk_poll_write ::
  "('t \<times> 'e) poll_ops \<Rightarrow> (('n \<times> 't) \<times> 'e) poll_ops \<Rightarrow> bytes \<Rightarrow> (('t, 'n) stream_inner \<times> 'e, nat) poll_op" where
  "tk_poll_write tcp tls b w =
     (case w of
        (Closed, e) \<Rightarrow> (Ready (Inr 0), Closed, e)
      | (Tcp s, e) \<Rightarrow> lift_tcp Tcp (p_write tcp b (s, e))
      | (Tls c s, e) \<Rightarrow> lift_tls (p_write tls b ((c, s), e)))"

definition tk_poll_flush ::
  "('t \<times> 'e) poll_ops \<Rightarrow> (('n \<times> 't) \<times> 'e) poll_ops \<Rightarrow> (('t, 'n) stream_inner \<times> 'e, unit) poll_op" where
  "tk_poll_flush tcp tls w =
     (case w of
        (Closed, e) \<Rightarrow> (Ready (Inr ()), Closed, e)
      | (Tcp s, e) \<Rightarrow> lift_tcp Tcp (p_flush tcp (s, e))
      | (Tls c s, e) \<Rightarrow> lift_tls (p_flush tls ((c, s), e)))"

definition tk_poll_shutdown ::
  "('t \<times> 'e) poll_ops \<Rightarrow> (('n \<times> 't) \<times> 'e) poll_ops \<Rightarrow> (('t, 'n) stream_inner \<times> 'e, unit) poll_op" where
  "tk_poll_shutdown tcp tls w =
     (case w of
        (Closed, e) \<Rightarrow> (Ready (Inr ()), Closed, e)
      | (Tcp s, e) \<Rightarrow> lift_tcp Tcp (p_shutdown tcp (s, e))
      | (Tls c s, e) \<Rightarrow> lift_tls (p_shutdown tls ((c, s), e)))"

definition stream_tokio ::
  "('t \<times> 'e) poll_ops \<Rightarrow> (('n \<times> 't) \<times> 'e) poll_ops \<Rightarrow> (('t, 'n) stream_inner \<times> 'e) poll_ops" where
  "stream_tokio tcp tls =
     \<lparr>p_read = tk_poll_read tcp tls, p_write = tk_poll_write tcp tls, p_flush = tk_poll_flush tcp tls,
      p_shutdown = tk_poll_shutdown tcp tls\<rparr>"

text \<open>Connecting: \<open>tcp_connect\<close> and \<open>tls_connect\<close> stand for the awaited connection and handshake.\<close>

definition connect_tokio_no_tls ::
  "(bytes \<Rightarrow> 16 word \<Rightarrow> ('e, 't) io_op) \<Rightarrow> server_addr \<Rightarrow> ('e, bytes \<times> ('t, 'n) stream_inner) io_op" where
  "connect_tokio_no_tls tcp_connect a e =
     (case utf8_address a of
        Inl er \<Rightarrow> (Inl er, e)
      | Inr s \<Rightarrow>
          (case tcp_connect s (port_num a) e of
             (Inl er, e1) \<Rightarrow> (Inl er, e1)
           | (Inr sock, e1) \<Rightarrow> (Inr ([], Tcp sock), e1)))"

definition connect_tokio ::
  "(bytes \<Rightarrow> 16 word \<Rightarrow> ('e, 't) io_op) \<Rightarrow> (bytes \<Rightarrow> ('name, nat) result) \<Rightarrow> ('cfg \<Rightarrow> 'name \<Rightarrow> 't \<Rightarrow> ('e, 'n \<times> 't) io_op) \<Rightarrow>
   ('e, 'cfg) io_op \<Rightarrow> server_addr \<Rightarrow> ('e, bytes \<times> ('t, 'n) stream_inner) io_op" where
  "connect_tokio tcp_connect server_name tls_connect tls_fn a e =
     (case utf8_address a of
        Inl er \<Rightarrow> (Inl er, e)
      | Inr s \<Rightarrow>
          if sa_tls a then
            (case server_name s of
               Inl _ \<Rightarrow> (Inl InvalidInput, e)
             | Inr name \<Rightarrow>
                 (case tls_fn e of
                    (Inl er, e1) \<Rightarrow> (Inl er, e1)
                  | (Inr config, e1) \<Rightarrow>
                      (case tcp_connect s (port_num a) e1 of
                         (Inl er, e2) \<Rightarrow> (Inl er, e2)
                       | (Inr sock, e2) \<Rightarrow>
                           (case tls_connect config name sock e2 of
                              (Inl er, e3) \<Rightarrow> (Inl er, e3)
                            | (Inr (conn, sock'), e3) \<Rightarrow> (Inr ([], Tls conn sock'), e3)))))
          else
            (case tcp_connect s (port_num a) e of
               (Inl er, e1) \<Rightarrow> (Inl er, e1)
             | (Inr sock, e1) \<Rightarrow> (Inr ([], Tcp sock), e1)))"

text \<open>\<open>ConnectionTokio\<close> for a buffered reader and for \<open>Bidir\<close>, over the operations of the runtime.\<close>

record 'e runtime =
  rt_now :: "'e \<Rightarrow> nat \<times> 'e"
  rt_poll_sleep :: "nat \<Rightarrow> 'e \<Rightarrow> unit poll \<times> 'e"
  rt_sleep :: "nat \<Rightarrow> 'e \<Rightarrow> 'e"
  rt_park :: "'e \<Rightarrow> 'e"

definition tk_br_poll_fill :: "nat \<Rightarrow> ('t \<times> 'e) poll_ops \<Rightarrow> ((bytes \<times> 't) \<times> 'e, bytes) poll_op" where
  "tk_br_poll_fill cap s w =
     (case w of ((b, t), e) \<Rightarrow>
        if b = [] then
          (case p_read s cap (t, e) of
             (Ready (Inr b'), t', e') \<Rightarrow> (Ready (Inr b'), (b', t'), e')
           | (r, t', e') \<Rightarrow> (r, ([], t'), e'))
        else (Ready (Inr b), (b, t), e))"

definition tokio_buf_reader :: "'e runtime \<Rightarrow> nat \<Rightarrow> ('t \<times> 'e) poll_ops \<Rightarrow> ((bytes \<times> 't) \<times> 'e) tokio_conn" where
  "tokio_buf_reader rt cap s =
     \<lparr>t_now = (\<lambda>(x, e). let (t, e') = rt_now rt e in (t, x, e')),
      t_poll_sleep = (\<lambda>d (x, e). let (r, e') = rt_poll_sleep rt d e in (r, x, e')),
      t_sleep = (\<lambda>d (x, e). (x, rt_sleep rt d e)), t_park = (\<lambda>(x, e). (x, rt_park rt e)),
      t_poll_fill_buf = tk_br_poll_fill cap s, t_consume = br_consume,
      t_poll_write = (\<lambda>b. on_snd (p_write s b)), t_poll_flush = on_snd (p_flush s),
      t_poll_shutdown = on_snd (p_shutdown s)\<rparr>"

record 'w poll_reader =
  pr_fill_buf :: "('w, bytes) poll_op"
  pr_consume :: "nat \<Rightarrow> 'w \<Rightarrow> 'w"

definition tokio_bidir ::
  "'e runtime \<Rightarrow> ('r \<times> 'e) poll_reader \<Rightarrow> ('k \<times> 'e) poll_ops \<Rightarrow> (('r \<times> 'k) \<times> 'e) tokio_conn" where
  "tokio_bidir rt rd wr =
     \<lparr>t_now = (\<lambda>(x, e). let (t, e') = rt_now rt e in (t, x, e')),
      t_poll_sleep = (\<lambda>d (x, e). let (r, e') = rt_poll_sleep rt d e in (r, x, e')),
      t_sleep = (\<lambda>d (x, e). (x, rt_sleep rt d e)), t_park = (\<lambda>(x, e). (x, rt_park rt e)),
      t_poll_fill_buf = on_fst (pr_fill_buf rd),
      t_consume = (\<lambda>n ((r, k), e). let (r', e') = pr_consume rd n (r, e) in ((r', k), e')),
      t_poll_write = (\<lambda>b. on_snd (p_write wr b)), t_poll_flush = on_snd (p_flush wr),
      t_poll_shutdown = on_snd (p_shutdown wr)\<rparr>"

section \<open>Time limits (\<open>client/conn/time.rs\<close>)\<close>

text \<open>A \<open>TimeLimitedTokio\<close> is the connection and the write limit.\<close>

definition ttk_new :: "time_limits \<Rightarrow> nat option" where
  "ttk_new lims = tl_write lims"

definition poll_write_timeout :: "'w tokio_conn \<Rightarrow> nat option \<Rightarrow> 'w \<Rightarrow> io_error poll \<times> 'w" where
  "poll_write_timeout c limit w =
     (case limit of
        Some timeout \<Rightarrow>
          (let (now, w1) = t_now c w in
           case t_poll_sleep c (now + timeout) w1 of
             (Ready _, w2) \<Rightarrow> (Ready TimedOut, w2)
           | (Pending, w2) \<Rightarrow> (Pending, w2))
      | None \<Rightarrow> (Pending, w))"

definition ttk_poll_write :: "'w tokio_conn \<Rightarrow> nat option \<Rightarrow> bytes \<Rightarrow> ('w, nat) poll_op" where
  "ttk_poll_write c limit b w =
     (case t_poll_write c b w of
        (Ready v, w1) \<Rightarrow> (Ready v, w1)
      | (Pending, w1) \<Rightarrow>
          (case poll_write_timeout c limit w1 of
             (Ready e, w2) \<Rightarrow> (Ready (Inl e), w2)
           | (Pending, w2) \<Rightarrow> (Pending, w2)))"

definition ttk_poll_flush :: "'w tokio_conn \<Rightarrow> nat option \<Rightarrow> ('w, unit) poll_op" where
  "ttk_poll_flush c limit w =
     (case t_poll_flush c w of
        (Ready v, w1) \<Rightarrow> (Ready v, w1)
      | (Pending, w1) \<Rightarrow>
          (case poll_write_timeout c limit w1 of
             (Ready e, w2) \<Rightarrow> (Ready (Inl e), w2)
           | (Pending, w2) \<Rightarrow> (Pending, w2)))"

definition ttk_poll_shutdown :: "'w tokio_conn \<Rightarrow> ('w, unit) poll_op" where
  "ttk_poll_shutdown c = t_poll_shutdown c"

definition ttk_poll_fill_buf :: "'w tokio_conn \<Rightarrow> ('w, bytes) poll_op" where
  "ttk_poll_fill_buf c = t_poll_fill_buf c"

definition ttk_consume :: "'w tokio_conn \<Rightarrow> nat \<Rightarrow> 'w \<Rightarrow> 'w" where
  "ttk_consume c n = t_consume c n"

section \<open>Awaiting\<close>

text \<open>\<open>AsyncWriteExt::write_all\<close> and \<open>flush\<close>, awaited.\<close>

definition tk_write :: "'w tokio_conn \<Rightarrow> nat option \<Rightarrow> bytes \<Rightarrow> 'w \<Rightarrow> wrote \<times> 'w" where
  "tk_write c limit b w =
     (case ttk_poll_write c limit b w of
        (Pending, w1) \<Rightarrow> (WRetry, t_park c w1)
      | (Ready (Inl e), w1) \<Rightarrow> (WFail e, w1)
      | (Ready (Inr n), w1) \<Rightarrow> (Wrote n, w1))"

definition tk_write_all ::
  "'w tokio_conn \<Rightarrow> nat option \<Rightarrow> bytes \<Rightarrow> 'w \<Rightarrow> ((unit, io_error) result \<times> 'w) exec option" where
  "tk_write_all c limit buf w = write_all_via (tk_write c limit) buf w"

partial_function (option) tk_flush :: "'w tokio_conn \<Rightarrow> nat option \<Rightarrow> 'w \<Rightarrow> ((unit, io_error) result \<times> 'w) exec option" where
  "tk_flush c limit w =
     (case ttk_poll_flush c limit w of
        (Pending, w1) \<Rightarrow> tk_flush c limit (t_park c w1)
      | (Ready r, w1) \<Rightarrow> Some (Return (r, w1)))"

declare tk_flush.simps [code]

text \<open>\<open>AsyncBufReadExt::read_until\<close> on a limited reader inside \<open>tokio::time::timeout\<close>: a poll that is pending
  is given up when the timer for the deadline has fired.\<close>

definition tk_fill :: "'w tokio_conn \<Rightarrow> nat option \<Rightarrow> 'w \<Rightarrow> attempt \<times> 'w" where
  "tk_fill c dl w =
     (case ttk_poll_fill_buf c w of
        (Pending, w1) \<Rightarrow>
          (case dl of
             None \<Rightarrow> (Retry, t_park c w1)
           | Some t \<Rightarrow>
               (case t_poll_sleep c t w1 of
                  (Ready _, w2) \<Rightarrow> (Fail TimedOut, w2)
                | (Pending, w2) \<Rightarrow> (Retry, t_park c w2)))
      | (Ready (Inl e), w1) \<Rightarrow> (Fail e, w1)
      | (Ready (Inr b), w1) \<Rightarrow> (Got b, w1))"

definition tk_read_until ::
  "'w tokio_conn \<Rightarrow> nat option \<Rightarrow> byte \<Rightarrow> nat \<Rightarrow> nat \<Rightarrow> bytes \<Rightarrow> 'w \<Rightarrow> ((nat, io_error) result \<times> bytes \<times> 'w) option" where
  "tk_read_until c dl d limit n buf w = until_via (tk_fill c dl) (ttk_consume c) d limit n buf w"

definition tk_read_msg_from ::
  "nat \<Rightarrow> (bytes \<Rightarrow> ('m, ParseError) result option) \<Rightarrow> bool \<Rightarrow> 'w tokio_conn \<Rightarrow> nat option \<Rightarrow> bytes \<Rightarrow> 'w \<Rightarrow>
   (('m, io_error) result \<times> bytes \<times> 'w) option" where
  "tk_read_msg_from limit parse owned c dl buf w =
     read_msg_via (\<lambda>n. tk_read_until c dl (CHR 0x0A) n 0) limit parse owned buf w"

definition client_read_owning_from_tokio ::
  "'w tokio_conn \<Rightarrow> nat option \<Rightarrow> bytes \<Rightarrow> 'w \<Rightarrow> ((server_msg, io_error) result \<times> bytes \<times> 'w) option" where
  "client_read_owning_from_tokio = tk_read_msg_from server_MAX_LEN server_msg_parse True"

definition client_read_borrowing_from_tokio ::
  "'w tokio_conn \<Rightarrow> nat option \<Rightarrow> bytes \<Rightarrow> 'w \<Rightarrow> ((server_msg, io_error) result \<times> bytes \<times> 'w) option" where
  "client_read_borrowing_from_tokio = tk_read_msg_from server_MAX_LEN server_msg_parse False"

definition server_read_owning_from_tokio ::
  "'w tokio_conn \<Rightarrow> nat option \<Rightarrow> bytes \<Rightarrow> 'w \<Rightarrow> ((client_msg, io_error) result \<times> bytes \<times> 'w) option" where
  "server_read_owning_from_tokio = tk_read_msg_from client_MAX_LEN client_msg_parse True"

definition server_read_borrowing_from_tokio ::
  "'w tokio_conn \<Rightarrow> nat option \<Rightarrow> bytes \<Rightarrow> 'w \<Rightarrow> ((client_msg, io_error) result \<times> bytes \<times> 'w) option" where
  "server_read_borrowing_from_tokio = tk_read_msg_from client_MAX_LEN client_msg_parse False"

definition client_send_to_tokio ::
  "'w tokio_conn \<Rightarrow> nat option \<Rightarrow> client_msg \<Rightarrow> bytes \<Rightarrow> 'w \<Rightarrow> ((unit, io_error) result \<times> bytes \<times> 'w) exec option" where
  "client_send_to_tokio c limit msg = send_via (tk_write_all c limit) (client_write_to msg)"

definition server_send_to_tokio ::
  "'w tokio_conn \<Rightarrow> nat option \<Rightarrow> server_msg \<Rightarrow> bytes \<Rightarrow> 'w \<Rightarrow> ((unit, io_error) result \<times> bytes \<times> 'w) exec option" where
  "server_send_to_tokio c limit msg = send_via (tk_write_all c limit) (server_write_to msg)"

text \<open>\<open>timed_io\<close> around the read of a message: the deadline is fixed when the timer is made.\<close>

definition timed_io ::
  "'w tokio_conn \<Rightarrow> (nat option \<Rightarrow> 'w \<Rightarrow> (('m, io_error) result \<times> 'b \<times> 'w) option) \<Rightarrow> nat option \<Rightarrow> nat option \<Rightarrow>
   'w \<Rightarrow> (((('m, bool) result, io_error) result) \<times> 'b \<times> 'w) option" where
  "timed_io c fut new_timeout old_timeout w =
     (let (timeout, allow_time_error) = timeout_fallback new_timeout old_timeout;
          (dl, w1) = (case timeout of
              Some dur \<Rightarrow> (let (now, w1) = t_now c w in (Some (now + dur), w1))
            | None \<Rightarrow> (None, w))
      in case fut dl w1 of
           None \<Rightarrow> None
         | Some (msg, b, w2) \<Rightarrow>
             Some (case filter_time_error msg of
                     Inl e \<Rightarrow> Inl e
                   | Inr None \<Rightarrow> Inr (Inl allow_time_error)
                   | Inr (Some m) \<Rightarrow> Inr (Inr m), b, w2))"

section \<open>The asynchronous loop\<close>

definition flush_partial_tokio :: "'w tokio_conn \<Rightarrow> nat \<Rightarrow> ('w, 'h, 'c, 'v, 'a, 'l, 's, 'f) client flush_op" where
  "flush_partial_tokio c imax k =
     (let limit = ttk_new (cl_timeout (k_logic k))
      in flush_via (t_now c) (tk_write_all c limit) (tk_flush c limit) imax k)"

definition read_step_tokio :: "'w tokio_conn \<Rightarrow> ('w, 'h, 'c, 'v, 'a, 'l, 's, 'f) client read_op" where
  "read_step_tokio c wait_for k =
     (case timed_io c (\<lambda>dl.
          if hs_wants_owning (cl_handlers (k_logic k)) then client_read_owning_from_tokio c dl (mi_buf_i (k_conn k))
          else client_read_borrowing_from_tokio c dl (mi_buf_i (k_conn k)))
        wait_for (tl_read (cl_timeout (k_logic k))) (mi_conn (k_conn k)) of
        None \<Rightarrow> None
      | Some (r, buf_i, w) \<Rightarrow> Some (r, k\<lparr>k_conn := (k_conn k)\<lparr>mi_conn := w, mi_buf_i := buf_i\<rparr>\<rparr>))"

definition run_tokio ::
  "'w tokio_conn \<Rightarrow> nat \<Rightarrow> ('w, 'h, 'c, 'v, 'a, 'l, 's, 'f) client \<Rightarrow>
   (run_result \<times> ('w, 'h, 'c, 'v, 'a, 'l, 's, 'f) client) exec option" where
  "run_tokio c imax k = turns (turn_via (flush_partial_tokio c imax) (t_sleep c) (read_step_tokio c)) k"

section \<open>The asynchronous loop refines the abstract client\<close>

text \<open>The contract of a connection that is polled, with a clock that is never turned back.\<close>

locale async_conn =
  fixes c :: "'w tokio_conn" and pending filled written :: "'w \<Rightarrow> bytes" and clock :: "'w \<Rightarrow> nat"
  assumes now_frame: "t_now c w = (t, w') \<Longrightarrow> pending w' = pending w \<and> written w' = written w"
    and timer_frame: "t_poll_sleep c d w = (x, w') \<Longrightarrow> pending w' = pending w \<and> written w' = written w"
    and sleep_frame: "pending (t_sleep c d w) = pending w \<and> written (t_sleep c d w) = written w"
    and park_frame: "pending (t_park c w) = pending w \<and> written (t_park c w) = written w"
    and fill_frame: "t_poll_fill_buf c w = (r, w') \<Longrightarrow> pending w' = pending w \<and> written w' = written w"
    and fill_ok: "t_poll_fill_buf c w = (Ready (Inr b), w') \<Longrightarrow>
      filled w' = b \<and> (\<exists>s. pending w = b @ s) \<and> (b = [] \<longrightarrow> pending w = [])"
    and consume_ok: "n \<le> length (filled w) \<Longrightarrow>
      pending (t_consume c n w) = drop n (pending w) \<and> written (t_consume c n w) = written w"
    and write_pending: "t_poll_write c b w = (Pending, w') \<Longrightarrow> pending w' = pending w \<and> written w' = written w"
    and write_err: "t_poll_write c b w = (Ready (Inl e), w') \<Longrightarrow> pending w' = pending w \<and> written w' = written w"
    and write_ok: "t_poll_write c b w = (Ready (Inr n), w') \<Longrightarrow>
      n \<le> length b \<and> pending w' = pending w \<and> written w' = written w @ take n b"
    and flush_frame: "t_poll_flush c w = (u, w') \<Longrightarrow> pending w' = pending w \<and> written w' = written w"
    and now_clock: "t_now c w = (t, w') \<Longrightarrow> clock w \<le> t \<and> t \<le> clock w'"
    and timer_later: "t_poll_sleep c d w = (x, w') \<Longrightarrow> clock w \<le> clock w'"
    and sleep_later: "clock w \<le> clock (t_sleep c d w)"
    and park_later: "clock w \<le> clock (t_park c w)"
    and fill_later: "t_poll_fill_buf c w = (r, w') \<Longrightarrow> clock w \<le> clock w'"
    and consume_later: "clock w \<le> clock (t_consume c n w)"
    and write_later: "t_poll_write c b w = (y, w') \<Longrightarrow> clock w \<le> clock w'"
    and flush_later: "t_poll_flush c w = (u, w') \<Longrightarrow> clock w \<le> clock w'"
begin

lemma now_later: "t_now c w = (t, w') \<Longrightarrow> clock w \<le> clock w'"
  using now_clock by (blast intro: order_trans)

lemma tk_fill_frame:
  assumes "tk_fill c dl w = (f, w')"
  shows "pending w' = pending w \<and> written w' = written w \<and>
    (\<forall>b. f = Got b \<longrightarrow> filled w' = b \<and> (\<exists>s. pending w = b @ s) \<and> (b = [] \<longrightarrow> pending w = []))"
proof -
  obtain r w1 where r: "t_poll_fill_buf c w = (r, w1)" by fastforce
  note w1 = fill_frame [OF r]
  show ?thesis
  proof (cases r)
    case (Ready x)
    with assms r w1 fill_ok [of w _ w1] show ?thesis
      by (cases x) (auto simp: tk_fill_def ttk_poll_fill_buf_def)
  next
    case Pending
    with assms r w1 show ?thesis
      by (auto simp: tk_fill_def ttk_poll_fill_buf_def park_frame split: option.splits prod.splits poll.splits
          dest!: timer_frame)
  qed
qed

lemma poll_write_timeout_frame:
  "poll_write_timeout c limit w = (r, w') \<Longrightarrow> pending w' = pending w \<and> written w' = written w"
  by (auto simp: poll_write_timeout_def Let_def split: option.splits prod.splits poll.splits dest!: now_frame timer_frame)

text \<open>Time during the polls.\<close>

lemma tk_fill_later: "tk_fill c dl w = (f, w') \<Longrightarrow> clock w \<le> clock w'"
  by (auto simp: tk_fill_def ttk_poll_fill_buf_def split: option.splits prod.splits poll.splits sum.splits
      dest!: fill_later timer_later intro: order_trans park_later)

lemma poll_write_timeout_later: "poll_write_timeout c limit w = (r, w') \<Longrightarrow> clock w \<le> clock w'"
  by (auto simp: poll_write_timeout_def Let_def split: option.splits prod.splits poll.splits
      dest!: now_later timer_later intro: order_trans)

lemma tk_write_later: "tk_write c limit b w = (f, w') \<Longrightarrow> clock w \<le> clock w'"
  by (auto simp: tk_write_def ttk_poll_write_def split: prod.splits poll.splits sum.splits
      dest!: write_later poll_write_timeout_later intro: order_trans park_later)

lemma ttk_poll_flush_later: "ttk_poll_flush c limit w = (p, w') \<Longrightarrow> clock w \<le> clock w'"
  by (auto simp: ttk_poll_flush_def split: prod.splits poll.splits
      dest!: flush_later poll_write_timeout_later intro: order_trans)

lemma tk_read_msg_from_later: "tk_read_msg_from limit parse owned c dl buf w = Some (r, buf', w') \<Longrightarrow> clock w \<le> clock w'"
  unfolding tk_read_msg_from_def tk_read_until_def
  by (erule read_msg_via_later [rotated])
    (erule until_via_later [where fill = "tk_fill c dl" and cons = "ttk_consume c" for dl, rotated 2],
      auto simp: ttk_consume_def consume_later dest: tk_fill_later)

lemma tk_write_frame:
  assumes "tk_write c limit b w = (f, w')"
  shows "pending w' = pending w \<and>
    (case f of Wrote n \<Rightarrow> n \<le> length b \<and> written w' = written w @ take n b | _ \<Rightarrow> written w' = written w)"
proof -
  obtain r w1 where r: "t_poll_write c b w = (r, w1)" by fastforce
  show ?thesis
  proof (cases r)
    case (Ready x)
    with assms r write_ok [of b w _ w1] write_err [of b w _ w1] show ?thesis
      by (cases x) (auto simp: tk_write_def ttk_poll_write_def)
  next
    case Pending
    then have w1: "pending w1 = pending w \<and> written w1 = written w" using r by (auto dest: write_pending)
    obtain p w2 where p: "poll_write_timeout c limit w1 = (p, w2)" by fastforce
    from poll_write_timeout_frame [OF p] w1 r Pending p assms show ?thesis
      by (cases p) (auto simp: tk_write_def ttk_poll_write_def park_frame)
  qed
qed

lemma tk_flush_frame:
  assumes "tk_flush c limit w = Some (Return (r, w'))"
  shows "pending w' = pending w \<and> written w' = written w \<and> clock w \<le> clock w'"
proof -
  let ?Q = "\<lambda>w w'. pending w' = pending w \<and> written w' = written w \<and> clock w \<le> clock w'"
  let ?P = "\<lambda>c' limit w y. c' = c \<longrightarrow> (\<forall>r w'. y = Return (r, w') \<longrightarrow> ?Q w w')"
  have "?P c limit w (Return (r, w'))"
  proof (rule tk_flush.raw_induct [where P = ?P, OF _ assms], intro impI allI)
    fix rec c' limit w y r w'
    assume IH: "\<And>c' limit w y. rec c' limit w = Some y \<Longrightarrow> ?P c' limit w y"
      and eq: "(case ttk_poll_flush c' limit w of
        (Pending, w1) \<Rightarrow> rec c' limit (t_park c' w1)
      | (Ready r, w1) \<Rightarrow> Some (Return (r, w1))) = Some y" and c: "c' = c" and y: "y = Return (r, w')"
    obtain p w1 where p: "ttk_poll_flush c limit w = (p, w1)" by fastforce
    have w1: "pending w1 = pending w \<and> written w1 = written w"
      using p by (auto simp: ttk_poll_flush_def split: prod.splits poll.splits dest!: flush_frame poll_write_timeout_frame)
    show "?Q w w'"
    proof (cases p)
      case (Ready x)
      with eq c p y w1 ttk_poll_flush_later [OF p] show ?thesis by simp
    next
      case Pending
      with eq c p have "rec c limit (t_park c w1) = Some y" by simp
      from IH [OF this] y w1 ttk_poll_flush_later [OF p] park_later [of w1] show ?thesis
        by (auto simp: park_frame intro: order_trans)
    qed
  qed
  then show ?thesis by simp
qed

lemma tk_write_all_spec:
  "tk_write_all c limit buf w = Some y \<Longrightarrow> write_spec pending written buf w y"
  unfolding tk_write_all_def by (rule write_all_via_spec [OF tk_write_frame])

lemma tk_write_all_later: "tk_write_all c limit buf w = Some (Return (r, w')) \<Longrightarrow> clock w \<le> clock w'"
  unfolding tk_write_all_def by (erule write_all_via_later [rotated]) (rule tk_write_later)

lemma flush_partial_tokio_steps:
  assumes "flush_partial_tokio c imax k = Some (Return (Inr timeout, k'))" and "client_ok k"
  shows "flushed pending written timeout k k' \<and>
    client_steps imax (client_abs pending written clock k) (client_abs pending written clock k')"
proof -
  let ?lim = "ttk_new (cl_timeout (k_logic k))"
  note run = assms(1) [unfolded flush_partial_tokio_def Let_def]
  have wa: "pending w' = pending w \<and> written w' = written w @ b \<and> clock w \<le> clock w'"
    if "tk_write_all c ?lim b w = Some (Return (Inr (), w'))" for b w w'
    using tk_write_all_spec [OF that] tk_write_all_later [OF that] by (simp add: write_spec_def)
  show ?thesis
    by (intro conjI flush_via_flushed [OF _ _ _ run assms(2)] flush_via_steps [OF _ _ _ run assms(2)])
      (auto dest: wa now_frame now_clock tk_flush_frame)
qed

lemma client_send_to_tokio_spec:
  "client_send_to_tokio c limit msg buf w = Some y \<Longrightarrow> send_spec pending written (client_send_to msg buf) w y"
  unfolding client_send_to_tokio_def client_send_to_def Let_def append_assoc crlf_def [symmetric] by (rule send_via_spec [OF tk_write_all_spec])

lemma server_send_to_tokio_spec:
  "server_send_to_tokio c limit msg buf w = Some y \<Longrightarrow> send_spec pending written (server_send_to msg buf) w y"
  unfolding server_send_to_tokio_def server_send_to_def Let_def append_assoc crlf_def [symmetric] by (rule send_via_spec [OF tk_write_all_spec])

lemma tk_read_msg_from_spec:
  assumes "tk_read_msg_from limit parse owned c dl buf w = Some (r, buf', w')" and "buf_ok limit buf"
  shows "read_spec pending written limit parse buf w r buf' w'"
proof (rule read_msg_via_spec [OF _ assms(1) [unfolded tk_read_msg_from_def] assms(2)])
  fix n buf w r buf' w'
  assume "tk_read_until c dl (CHR 0x0A) n 0 buf w = Some (r, buf', w')"
  from until_via_spec [OF tk_fill_frame _ this [unfolded tk_read_until_def]]
  show "line_spec pending written n buf w r buf' w'" by (simp add: ttk_consume_def consume_ok)
qed

lemma read_step_tokio_spec:
  assumes "read_step_tokio c wait_for k = Some (Inr x, k')" and "client_ok k"
  shows "mi_buf_o (k_conn k') = [] \<and> k_on_timeout k' = k_on_timeout k \<and> k_logic k' = k_logic k \<and>
    written (mi_conn (k_conn k')) = written (mi_conn (k_conn k)) \<and>
    clock (mi_conn (k_conn k)) \<le> clock (mi_conn (k_conn k')) \<and>
    (case x of
       Inl bq \<Rightarrow> bq = (wait_for \<noteq> None) \<and> buf_ok server_MAX_LEN (mi_buf_i (k_conn k')) \<and> skips server_MAX_LEN
         (mi_buf_i (k_conn k) @ pending (mi_conn (k_conn k))) (mi_buf_i (k_conn k') @ pending (mi_conn (k_conn k')))
     | Inr m \<Rightarrow> client_read [] (mi_buf_i (k_conn k) @ pending (mi_conn (k_conn k))) =
         Some (Inr m, pending (mi_conn (k_conn k'))))"
proof -
  let ?w = "mi_conn (k_conn k)" and ?b = "mi_buf_i (k_conn k)" and ?own = "hs_wants_owning (cl_handlers (k_logic k))"
  obtain tmo al where tf: "timeout_fallback wait_for (tl_read (cl_timeout (k_logic k))) = (tmo, al)" by fastforce
  obtain dl w1 where dl: "(case tmo of Some dur \<Rightarrow> (let (now, w1) = t_now c ?w in (Some (now + dur), w1)) | None \<Rightarrow> (None, ?w)) = (dl, w1)"
    by fastforce
  have w1: "pending w1 = pending ?w" "written w1 = written ?w" "clock ?w \<le> clock w1"
    using dl by (auto split: option.splits prod.splits dest: now_frame now_later)
  have "(\<lambda>dl. if ?own then client_read_owning_from_tokio c dl ?b else client_read_borrowing_from_tokio c dl ?b) =
      (\<lambda>dl. tk_read_msg_from server_MAX_LEN server_msg_parse ?own c dl ?b)"
    by (cases ?own) (simp_all add: client_read_owning_from_tokio_def client_read_borrowing_from_tokio_def)
  note read = read_step_tokio_def this timed_io_def tf dl
  obtain msg buf_i w2 where m: "tk_read_msg_from server_MAX_LEN server_msg_parse ?own c dl ?b w1 = Some (msg, buf_i, w2)"
    using assms(1) by (cases "tk_read_msg_from server_MAX_LEN server_msg_parse ?own c dl ?b w1") (auto simp: read)
  have x: "(case filter_time_error msg of Inl e \<Rightarrow> Inl e | Inr None \<Rightarrow> Inr (Inl al) | Inr (Some m) \<Rightarrow> Inr (Inr m)) = Inr x"
    and k': "k' = k\<lparr>k_conn := (k_conn k)\<lparr>mi_conn := w2, mi_buf_i := buf_i\<rparr>\<rparr>"
    using assms(1) m by (auto simp: read)
  have "read_spec pending written server_MAX_LEN server_msg_parse ?b w1 msg buf_i w2"
    using tk_read_msg_from_spec [OF m] assms(2) by (simp add: client_ok_def)
  moreover have "clock ?w \<le> clock w2" using w1(3) tk_read_msg_from_later [OF m] by (rule order_trans)
  moreover have "al = (wait_for \<noteq> None)" using tf by (auto simp: timeout_fallback_def split: if_splits)
  ultimately show ?thesis using x w1 assms(2)
    by (cases msg) (auto simp: k' client_ok_def read_spec_def client_read_def filter_time_error_def time_error_def
        split: io_error.splits)
qed

end

lemma tokio_client_io:
  assumes "async_conn c pending filled written clock"
  shows "client_io (flush_partial_tokio c imax) (t_sleep c) (read_step_tokio c) imax pending written clock"
proof
  fix k k' :: "('a, 'b, 'c, 'd, 'e, 'f, 'g, 'h) client" and tmo
  assume "flush_partial_tokio c imax k = Some (Return (Inr tmo, k'))" and "client_ok k"
  then show "flushed pending written tmo k k' \<and>
      client_steps imax (client_abs pending written clock k) (client_abs pending written clock k')"
    by (rule async_conn.flush_partial_tokio_steps [OF assms])
next
  fix d w
  show "pending (t_sleep c d w) = pending w \<and> written (t_sleep c d w) = written w \<and> clock w \<le> clock (t_sleep c d w)"
    using async_conn.sleep_frame [OF assms] async_conn.sleep_later [OF assms] by blast
next
  fix k k' :: "('a, 'b, 'c, 'd, 'e, 'f, 'g, 'h) client" and wait_for by_queue
  assume rd: "read_step_tokio c wait_for k = Some (Inr (Inl by_queue), k')" and ok: "client_ok k"
  from async_conn.read_step_tokio_spec [OF assms rd ok]
  show "client_ok k' \<and> client_steps imax (client_abs pending written clock k) (client_abs pending written clock k') \<and>
      cl_queue (k_logic k') = cl_queue (k_logic k) \<and> (by_queue \<longleftrightarrow> wait_for \<noteq> None)"
    by (auto simp: client_ok_def client_abs_def intro: steps_skips steps_tick)
next
  fix k k' :: "('a, 'b, 'c, 'd, 'e, 'f, 'g, 'h) client" and wait_for m
  assume rd: "read_step_tokio c wait_for k = Some (Inr (Inr m), k')" and ok: "client_ok k"
  from async_conn.read_step_tokio_spec [OF assms rd ok]
  show "mi_buf_o (k_conn k') = [] \<and>
      (\<exists>i. client_steps imax (client_abs pending written clock k)
         (k_logic k', k_on_timeout k', i, written (mi_conn (k_conn k')), clock (mi_conn (k_conn k'))) \<and>
       client_read [] i = Some (Inr m, pending (mi_conn (k_conn k'))))"
    by (auto simp: client_abs_def intro!: steps_tick)
qed

section \<open>Concrete connections\<close>

text \<open>A runtime whose clock is a number; a suspended task is polled again a moment later.\<close>

definition rt_clock :: "nat runtime" where
  "rt_clock = \<lparr>rt_now = (\<lambda>e. (e, e)), rt_poll_sleep = (\<lambda>d e. (if d \<le> e then Ready () else Pending, e)),
     rt_sleep = (\<lambda>d e. e + d), rt_park = (\<lambda>e. e + 1)\<rparr>"

text \<open>A cursor and a vector are always ready.\<close>

definition tk_cursor :: "(bytes \<times> 'e) poll_reader" where
  "tk_cursor = \<lparr>pr_fill_buf = (\<lambda>(b, e). (Ready (Inr b), b, e)), pr_consume = (\<lambda>n (b, e). (drop n b, e))\<rparr>"

definition tk_vec :: "(bytes \<times> 'e) poll_ops" where
  "tk_vec = \<lparr>p_read = (\<lambda>n w. (Ready (Inr []), w)), p_write = (\<lambda>b (v, e). (Ready (Inr (length b)), v @ b, e)),
     p_flush = (\<lambda>w. (Ready (Inr ()), w)), p_shutdown = (\<lambda>w. (Ready (Inr ()), w))\<rparr>"

interpretation tk_mem: async_conn "tokio_bidir rt_clock tk_cursor tk_vec" "\<lambda>w. fst (fst w)" "\<lambda>w. fst (fst w)" "\<lambda>w. snd (fst w)" snd
  by unfold_locales (auto simp: tokio_bidir_def tk_cursor_def tk_vec_def rt_clock_def on_fst_def on_snd_def Let_def split: prod.splits)

text \<open>The contract of a socket or a TLS session of tokio and of the runtime: \<open>incoming\<close> is what is still to be
  read from it, \<open>outgoing\<close> what it has accepted.\<close>

locale poll_stream =
  fixes rt :: "'e runtime" and s :: "('t \<times> 'e) poll_ops" and incoming outgoing :: "'t \<times> 'e \<Rightarrow> bytes" and clock :: "'e \<Rightarrow> nat"
  assumes rt_now_keeps: "rt_now rt e = (n, e') \<Longrightarrow>
      incoming (t, e') = incoming (t, e) \<and> outgoing (t, e') = outgoing (t, e) \<and> clock e \<le> n \<and> n \<le> clock e'"
    and rt_timer_keeps: "rt_poll_sleep rt d e = (x, e') \<Longrightarrow>
      incoming (t, e') = incoming (t, e) \<and> outgoing (t, e') = outgoing (t, e) \<and> clock e \<le> clock e'"
    and rt_sleep_keeps: "incoming (t, rt_sleep rt d e) = incoming (t, e) \<and> outgoing (t, rt_sleep rt d e) = outgoing (t, e) \<and>
      clock e \<le> clock (rt_sleep rt d e)"
    and rt_park_keeps: "incoming (t, rt_park rt e) = incoming (t, e) \<and> outgoing (t, rt_park rt e) = outgoing (t, e) \<and>
      clock e \<le> clock (rt_park rt e)"
    and read_time: "p_read s k w = (r, w') \<Longrightarrow> outgoing w' = outgoing w \<and> clock (snd w) \<le> clock (snd w') \<and>
      ((\<forall>b. r \<noteq> Ready (Inr b)) \<longrightarrow> incoming w' = incoming w)"
    and read_gives: "p_read s k w = (Ready (Inr b), w') \<Longrightarrow> incoming w = b @ incoming w' \<and>
      (0 < k \<longrightarrow> b = [] \<longrightarrow> incoming w = [])"
    and write_time: "p_write s b w = (y, w') \<Longrightarrow> incoming w' = incoming w \<and> clock (snd w) \<le> clock (snd w') \<and>
      ((\<forall>n. y \<noteq> Ready (Inr n)) \<longrightarrow> outgoing w' = outgoing w)"
    and write_takes: "p_write s b w = (Ready (Inr n), w') \<Longrightarrow> n \<le> length b \<and> outgoing w' = outgoing w @ take n b"
    and flush_keeps: "p_flush s w = (u, w') \<Longrightarrow>
      incoming w' = incoming w \<and> outgoing w' = outgoing w \<and> clock (snd w) \<le> clock (snd w')"
begin

definition tbr_pending :: "(bytes \<times> 't) \<times> 'e \<Rightarrow> bytes" where
  "tbr_pending w = fst (fst w) @ incoming (snd (fst w), snd w)"

definition tbr_written :: "(bytes \<times> 't) \<times> 'e \<Rightarrow> bytes" where
  "tbr_written w = outgoing (snd (fst w), snd w)"

lemma tk_br_fill:
  assumes "tk_br_poll_fill BUFSIZE s w = (r, w')"
  shows "tbr_pending w' = tbr_pending w \<and> tbr_written w' = tbr_written w \<and> clock (snd w) \<le> clock (snd w') \<and>
    (\<forall>b. r = Ready (Inr b) \<longrightarrow> fst (fst w') = b \<and> (b = [] \<longrightarrow> tbr_pending w = []))"
proof -
  obtain b t e where w: "w = ((b, t), e)" by (metis surj_pair)
  obtain r1 t1 e1 where r: "p_read s BUFSIZE (t, e) = (r1, t1, e1)" by (cases "p_read s BUFSIZE (t, e)")
  show ?thesis
    using assms r read_time [OF r] read_gives [of BUFSIZE "(t, e)" _ "(t1, e1)"]
    by (auto simp: tk_br_poll_fill_def w tbr_pending_def tbr_written_def BUFSIZE_def split: if_splits poll.splits sum.splits)
qed

lemma tk_br_write:
  assumes "on_snd (p_write s b) w = (r, w')"
  shows "tbr_pending w' = tbr_pending w \<and> clock (snd w) \<le> clock (snd w') \<and>
    ((\<forall>n. r \<noteq> Ready (Inr n)) \<longrightarrow> tbr_written w' = tbr_written w) \<and>
    (\<forall>n. r = Ready (Inr n) \<longrightarrow> n \<le> length b \<and> tbr_written w' = tbr_written w @ take n b)"
  using assms write_time [of b] write_takes [of b]
  by (auto simp: on_snd_def tbr_pending_def tbr_written_def split: prod.splits; fastforce)

lemma tk_br_flush:
  "on_snd (p_flush s) w = (r, w') \<Longrightarrow>
   tbr_pending w' = tbr_pending w \<and> tbr_written w' = tbr_written w \<and> clock (snd w) \<le> clock (snd w')"
  by (auto simp: on_snd_def tbr_pending_def tbr_written_def split: prod.splits dest!: flush_keeps)

end

sublocale poll_stream \<subseteq> tk_br: async_conn "tokio_buf_reader rt BUFSIZE s" tbr_pending "\<lambda>w. fst (fst w)" tbr_written "\<lambda>w. clock (snd w)"
proof (unfold_locales, goal_cases)
  case (1 w t w')
  then show ?case
    by (auto simp: tokio_buf_reader_def tbr_pending_def tbr_written_def split: prod.splits dest: rt_now_keeps)
next
  case (2 d w x w')
  then show ?case
    by (auto simp: tokio_buf_reader_def tbr_pending_def tbr_written_def split: prod.splits dest: rt_timer_keeps)
next
  case (6 w b w')
  then have f: "tk_br_poll_fill BUFSIZE s w = (Ready (Inr b), w')" by (simp add: tokio_buf_reader_def)
  have "tbr_pending w = b @ incoming (snd (fst w'), snd w')" using tk_br_fill [OF f] by (metis tbr_pending_def)
  with tk_br_fill [OF f] show ?case by blast
next
  case (7 n w)
  then show ?case by (cases w) (auto simp: tokio_buf_reader_def br_consume_def tbr_pending_def tbr_written_def split: prod.splits)
next
  case (12 w t w')
  then show ?case by (auto simp: tokio_buf_reader_def split: prod.splits dest: rt_now_keeps)
next
  case (13 d w x w')
  then show ?case by (auto simp: tokio_buf_reader_def split: prod.splits dest: rt_timer_keeps)
qed (auto simp: tokio_buf_reader_def br_consume_def tbr_pending_def tbr_written_def rt_sleep_keeps rt_park_keeps split: prod.splits
    dest: tk_br_fill [unfolded tbr_pending_def tbr_written_def] tk_br_write [unfolded tbr_pending_def tbr_written_def]
      tk_br_flush [unfolded tbr_pending_def tbr_written_def])

text \<open>A \<open>StreamTokio\<close> over a socket and a TLS session that are such streams.\<close>

locale poll_parts = tcp: poll_stream rt tcp in_tcp out_tcp clock + tls: poll_stream rt tls in_tls out_tls clock
  for rt :: "'e runtime" and tcp :: "('t \<times> 'e) poll_ops" and tls :: "(('n \<times> 't) \<times> 'e) poll_ops"
    and in_tcp out_tcp in_tls out_tls clock
begin

definition ts_incoming :: "('t, 'n) stream_inner \<times> 'e \<Rightarrow> bytes" where
  "ts_incoming w = (case w of (Closed, e) \<Rightarrow> [] | (Tcp t, e) \<Rightarrow> in_tcp (t, e) | (Tls n t, e) \<Rightarrow> in_tls ((n, t), e))"

definition ts_outgoing :: "('t, 'n) stream_inner \<times> 'e \<Rightarrow> bytes" where
  "ts_outgoing w = (case w of (Closed, e) \<Rightarrow> [] | (Tcp t, e) \<Rightarrow> out_tcp (t, e) | (Tls n t, e) \<Rightarrow> out_tls ((n, t), e))"

lemmas ts_defs = stream_tokio_def ts_incoming_def ts_outgoing_def lift_tcp_def lift_tls_def

end

sublocale poll_parts \<subseteq> ts: poll_stream rt "stream_tokio tcp tls" ts_incoming ts_outgoing clock
proof (unfold_locales, goal_cases)
  case (1 e n e' t)
  then show ?case using tcp.rt_now_keeps [OF 1] tls.rt_now_keeps [OF 1] by (cases t) (simp_all add: ts_defs)
next
  case (2 d e x e' t)
  then show ?case using tcp.rt_timer_keeps [OF 2] tls.rt_timer_keeps [OF 2] by (cases t) (simp_all add: ts_defs)
next
  case (3 t d e)
  show ?case using tcp.rt_sleep_keeps tls.rt_sleep_keeps by (cases t) (simp_all add: ts_defs)
next
  case (4 t e)
  show ?case using tcp.rt_park_keeps tls.rt_park_keeps by (cases t) (simp_all add: ts_defs)
next
  case (5 k w r w')
  then show ?case
    by (auto simp: ts_defs tk_poll_read_def split: prod.splits stream_inner.splits dest!: tcp.read_time tls.read_time)
next
  case (6 k w b w')
  then show ?case
    by (auto simp: ts_defs tk_poll_read_def split: prod.splits stream_inner.splits dest!: tcp.read_gives tls.read_gives)
next
  case (7 b w y w')
  then show ?case
    by (auto simp: ts_defs tk_poll_write_def split: prod.splits stream_inner.splits dest!: tcp.write_time tls.write_time)
next
  case (8 b w n w')
  then show ?case
    by (auto simp: ts_defs tk_poll_write_def split: prod.splits stream_inner.splits dest!: tcp.write_takes tls.write_takes)
next
  case (9 w u w')
  then show ?case
    by (auto simp: ts_defs tk_poll_flush_def split: prod.splits stream_inner.splits dest!: tcp.flush_keeps tls.flush_keeps)
qed

text \<open>A scripted socket whose peer sends chunks at given times; a read is pending until the next has arrived.\<close>

definition psim_read :: "nat \<Rightarrow> (sim \<times> nat, bytes) poll_op" where
  "psim_read n w =
     (case w of (s, now) \<Rightarrow>
        (case dropWhile (\<lambda>x. snd x = []) (sim_in s) of
           [] \<Rightarrow> (Ready (Inr []), s\<lparr>sim_in := []\<rparr>, now)
         | (t, b) # rest \<Rightarrow>
             if now < t then (Pending, s, now)
             else (Ready (Inr (take n b)), s\<lparr>sim_in := (t, drop n b) # rest\<rparr>, now)))"

definition psim_tcp :: "(sim \<times> nat) poll_ops" where
  "psim_tcp = \<lparr>p_read = psim_read, p_write = (\<lambda>b (s, now). (Ready (Inr (length b)), s\<lparr>sim_out := sim_out s @ b\<rparr>, now)),
     p_flush = (\<lambda>w. (Ready (Inr ()), w)), p_shutdown = (\<lambda>w. (Ready (Inr ()), w))\<rparr>"

definition psim_tls :: "((unit \<times> sim) \<times> nat) poll_ops" where
  "psim_tls = \<lparr>p_read = (\<lambda>n. on_snd (psim_read n)), p_write = (\<lambda>b. on_snd (p_write psim_tcp b)),
     p_flush = on_snd (p_flush psim_tcp), p_shutdown = on_snd (p_shutdown psim_tcp)\<rparr>"

lemma psim_read_time:
  "psim_read n w = (r, w') \<Longrightarrow> sim_outgoing w' = sim_outgoing w \<and> snd w' = snd w \<and>
   ((\<forall>b. r \<noteq> Ready (Inr b)) \<longrightarrow> sim_incoming w' = sim_incoming w)"
  by (auto simp: psim_read_def sim_incoming_def sim_outgoing_def split: prod.splits list.splits if_splits)

lemma psim_read_gives:
  assumes "psim_read n (s, e) = (Ready (Inr b), w')"
  shows "sim_incoming (s, e) = b @ sim_incoming w' \<and> (0 < n \<longrightarrow> b = [] \<longrightarrow> sim_incoming (s, e) = [])"
proof (cases "dropWhile (\<lambda>x. snd x = []) (sim_in s)")
  case Nil
  with assms concat_dropWhile_empty [of "sim_in s"] show ?thesis
    by (auto simp: psim_read_def sim_incoming_def)
next
  case (Cons a rest)
  have "snd a \<noteq> []" using Cons hd_dropWhile [of "\<lambda>x. snd x = []" "sim_in s"] by auto
  moreover have "concat (map snd (sim_in s)) = snd a @ concat (map snd rest)"
    using concat_dropWhile_empty [of "sim_in s"] Cons by simp
  ultimately show ?thesis using assms Cons
    by (cases a) (auto simp: psim_read_def sim_incoming_def split: if_splits)
qed

interpretation psim_tcp: poll_stream rt_clock psim_tcp sim_incoming sim_outgoing "\<lambda>e. e"
proof (unfold_locales, goal_cases)
  case (5 k w r w')
  then show ?case using psim_read_time [of k w r w'] by (simp add: psim_tcp_def)
next
  case (6 k w b w')
  then show ?case using psim_read_gives [of k "fst w" "snd w" b w'] by (auto simp: psim_tcp_def)
qed (auto simp: psim_tcp_def rt_clock_def sim_incoming_def sim_outgoing_def split: prod.splits)

interpretation psim: poll_parts rt_clock psim_tcp psim_tls sim_incoming sim_outgoing
    "\<lambda>((u, s), e). sim_incoming (s, e)" "\<lambda>((u, s), e). sim_outgoing (s, e)" "\<lambda>e. e"
proof (unfold_locales, goal_cases)
  case (5 k w r w')
  then show ?case
    using psim_read_time [of k "(snd (fst w), snd w)"] by (auto simp: psim_tls_def on_snd_def split: prod.splits; fastforce)
next
  case (6 k w b w')
  then show ?case
    using psim_read_gives [of k "snd (fst w)" "snd w"] by (auto simp: psim_tls_def on_snd_def split: prod.splits)
qed (auto simp: psim_tls_def psim_tcp_def on_snd_def rt_clock_def sim_incoming_def sim_outgoing_def split: prod.splits)

text \<open>The asynchronous loop on \<open>BufReader<StreamTokio>\<close> over this socket.\<close>

definition example_tokio :: "((bytes \<times> (sim, unit) stream_inner) \<times> nat) tokio_conn" where
  "example_tokio = tokio_buf_reader rt_clock BUFSIZE (stream_tokio psim_tcp psim_tls)"

interpretation tokio_io: client_io "flush_partial_tokio example_tokio imax" "t_sleep example_tokio"
    "read_step_tokio example_tokio" imax psim.ts.tbr_pending psim.ts.tbr_written snd for imax
  by (rule tokio_client_io [OF psim.ts.tk_br.async_conn_axioms [folded example_tokio_def]])

text \<open>A write that is never ready and never fails is awaited forever.\<close>

lemma write_all_via_stuck:
  assumes "\<And>w. \<exists>w'. wr buf w = (WRetry, w')" and "buf \<noteq> []"
  shows "write_all_via wr buf w = None"
proof (rule ccontr)
  assume "write_all_via wr buf w \<noteq> None"
  then obtain y where y: "write_all_via wr buf w = Some y" by blast
  let ?P = "\<lambda>wr' buf' w y. \<not> (wr' = wr \<and> buf' = buf)"
  have "?P wr buf w y"
  proof (rule write_all_via.raw_induct [where P = ?P, OF _ y], intro notI, elim conjE)
    fix rec wr' buf' w y
    assume IH: "\<And>wr' buf' w y. rec wr' buf' w = Some y \<Longrightarrow> ?P wr' buf' w y"
      and eq: "(if buf' = [] then Some (Return (Inr (), w))
      else
        (case wr' buf' w of
           (Wrote n, w1) \<Rightarrow>
             if n = 0 then Some (Return (Inl WriteZero, w1))
             else if length buf' < n then Some Panic
             else rec wr' (drop n buf') w1
         | (WFail e, w1) \<Rightarrow> Some (Return (Inl e, w1))
         | (WRetry, w1) \<Rightarrow> rec wr' buf' w1)) = Some y" and e: "wr' = wr" "buf' = buf"
    obtain w' where "wr buf w = (WRetry, w')" using assms(1) by blast
    with eq e assms(2) have "rec wr buf w' = Some y" by simp
    from IH [OF this] show False by simp
  qed
  then show False by simp
qed

section \<open>Properties\<close>

text \<open>C16: Whenever the asynchronous \<open>run_tokio\<close> returns without an error, what it has done is a sequence of steps of the same abstract
  client as for the blocking loop, with sends at instants of its run at which the queue lets them go: polls that are pending, timers
  that fire in the middle of a line and writes in pieces lose, repeat and reorder nothing.  The connection is any that keeps to the
  contract of a polled reader and writer (\<open>async_conn\<close>) with a clock that is never turned back; \<open>BufReader<StreamTokio>\<close> does, over
  every socket and TLS session that give and take bytes in order.  The output buffer is empty when it is called and the input buffer
  holds at most a part of a line.\<close>

theorem run_tokio_refines_client:
  assumes "async_conn c pending filled written clock" and "client_ok k" and "run_tokio c imax k = Some (Return (Inr ids, k'))"
  shows "client_steps imax (client_abs pending written clock k) (client_abs pending written clock k') \<and> client_ok k'"
  using client_io.turns_steps [OF tokio_client_io [OF assms(1)] assms(3) [unfolded run_tokio_def] assms(2)] by simp

text \<open>A message is queued, and one arrives in two chunks after the read has been polled.\<close>

definition example_script :: sim where
  "example_script = \<lparr>sim_in = [(1, ''PI''), (2, ''NG'' @ crlf @ ''REST'')], sim_rto = None, sim_out = []\<rparr>"

definition example_task ::
  "((bytes \<times> (sim, unit) stream_inner) \<times> nat, unit, unit, server_msg, unit, unit, unit, unit) client" where
  "example_task = new_with_logic (([], Tcp example_script), 0) () example_logic"

lemma example_task_ok: "client_ok example_task"
  by (simp add: client_ok_def buf_ok_def example_task_def new_with_logic_def mi_new_def server_MAX_LEN_def)

lemma example_tokio_ops [simp]:
  "t_now example_tokio (k, e) = (e, k, e)"
  "t_park example_tokio (k, e) = (k, e + 1)"
  "t_poll_write example_tokio b ((x, Tcp s), e) = (Ready (Inr (length b)), (x, Tcp (s\<lparr>sim_out := sim_out s @ b\<rparr>)), e)"
  "t_poll_flush example_tokio ((x, Tcp s), e) = (Ready (Inr ()), (x, Tcp s), e)"
  "t_consume example_tokio n ((x, t), e) = ((drop n x, t), e)"
  "x \<noteq> [] \<Longrightarrow> t_poll_fill_buf example_tokio ((x, t), e) = (Ready (Inr x), (x, t), e)"
  by (simp_all add: example_tokio_def tokio_buf_reader_def stream_tokio_def tk_poll_write_def tk_poll_flush_def lift_tcp_def
      psim_tcp_def rt_clock_def on_snd_def br_consume_def tk_br_poll_fill_def)

lemma example_tokio_poll:
  "t_poll_fill_buf example_tokio (([], Tcp s), e) =
     (case psim_read BUFSIZE (s, e) of
        (Ready (Inr b), s', e') \<Rightarrow> (Ready (Inr b), (b, Tcp s'), e')
      | (r, s', e') \<Rightarrow> (r, ([], Tcp s'), e'))"
  by (simp add: example_tokio_def tokio_buf_reader_def stream_tokio_def tk_poll_read_def lift_tcp_def psim_tcp_def tk_br_poll_fill_def
      split: prod.split poll.split sum.split)

lemma example_script_read:
  "tk_read_msg_from server_MAX_LEN server_msg_parse owned example_tokio None []
     (([], Tcp (example_script\<lparr>sim_out := out\<rparr>)), 0) =
   Some (Inr (server_new_cmd ''PING''), if owned then [] else ''PING'',
     ((''REST'', Tcp \<lparr>sim_in = [(2, [])], sim_rto = None, sim_out = out\<rparr>), 2))"
proof -
  note poll = tk_fill_def ttk_poll_fill_buf_def ttk_consume_def example_tokio_poll psim_read_def BUFSIZE_def server_MAX_LEN_def crlf_def
  have u: "tk_read_until example_tokio None (CHR 0x0A) server_MAX_LEN 0 [] (([], Tcp (example_script\<lparr>sim_out := out\<rparr>)), 0) =
      Some (Inr 6, ''PING'' @ crlf, ((''REST'', Tcp \<lparr>sim_in = [(2, [])], sim_rto = None, sim_out = out\<rparr>), 2))"
    unfolding tk_read_until_def example_script_def
    by (subst until_via.simps, simp add: poll, subst until_via.simps, simp add: poll,
        subst until_via.simps, simp add: poll, subst until_via.simps, simp add: poll)
  have "read_buf_from (rev (''PING'' @ crlf)) False = (ParseLine ''PING'', rev ''PING'')" by (simp add: crlf_def)
  with u show ?thesis unfolding tk_read_msg_from_def
    by (subst read_msg_via.simps) (simp add: server_parse_ping server_MAX_LEN_def)
qed

lemma example_tokio_write_all:
  "tk_write_all example_tokio lim buf ((x, Tcp s), e) = Some (Return (Inr (), ((x, Tcp (s\<lparr>sim_out := sim_out s @ buf\<rparr>)), e)))"
  unfolding tk_write_all_def
  by (subst write_all_via.simps, subst write_all_via.simps) (simp add: tk_write_def ttk_poll_write_def)

lemma example_task_run:
  "\<exists>k'. run_tokio example_tokio (10 ^ 20) example_task = Some (Return (Inr (Some ([], [0])), k')) \<and>
     mi_buf_i (k_conn k') = [] \<and> mi_conn (k_conn k') =
       ((''REST'', Tcp \<lparr>sim_in = [(2, [])], sim_rto = None, sim_out = client_write_to (client_new_cmd ''PING'') @ crlf\<rparr>), 2)"
proof -
  have s: "Tcp (example_script\<lparr>sim_out := sim_out example_script @ b\<rparr>) = Tcp (example_script\<lparr>sim_out := b\<rparr>)" for b
    by (simp add: example_script_def)
  show ?thesis
    unfolding run_tokio_def
    by (subst turns.simps) (simp add: example_task_def example_logic_def new_with_logic_def mi_new_def cl_new_def
        turn_via_def flush_partial_tokio_def flush_via_def bind_exec_def pop_now_def pop_def queue_is_empty_def put_world_def
        Let_def flush_loop.simps [of "t_now example_tokio"] from_queue_def secs_def handlers_add_def handlers_default_def
        handlers_is_empty_def tl_default_def ttk_new_def example_tokio_write_all
        tk_flush.simps ttk_poll_flush_def s read_step_tokio_def timed_io_def timeout_fallback_def filter_time_error_def
        client_read_owning_from_tokio_def client_read_borrowing_from_tokio_def example_script_read
        handle_turn_def run_once_def adjust_def handlers_handle_def handle_loop.simps box_call_def YieldAll_def yield_all_handle_def
        sr_send_def closed_sender_def cf_discard_def has_results_def last_run_results_def swap_remove_def queue_edit_def)
qed

lemma psim_views:
  "psim.ts.tbr_pending ((x, Tcp s), e) = x @ concat (map snd (sim_in s))" "psim.ts.tbr_written ((x, Tcp s), e) = sim_out s"
  unfolding psim.ts.tbr_pending_def psim.ts.tbr_written_def psim.ts_incoming_def psim.ts_outgoing_def
  by (simp_all add: sim_incoming_def sim_outgoing_def)

theorem run_tokio_refines_client_witness:
  "\<exists>k'. run_tokio example_tokio (10 ^ 20) example_task = Some (Return (Inr (Some ([], [0])), k')) \<and>
     client_steps (10 ^ 20) (example_logic, None, ''PING'' @ crlf @ ''REST'', [], 0)
       (k_logic k', k_on_timeout k', ''REST'', client_write_to (client_new_cmd ''PING'') @ crlf, 2)"
proof -
  obtain k' where k': "run_tokio example_tokio (10 ^ 20) example_task = Some (Return (Inr (Some ([], [0])), k'))"
    "mi_buf_i (k_conn k') = []" "mi_conn (k_conn k') =
       ((''REST'', Tcp \<lparr>sim_in = [(2, [])], sim_rto = None, sim_out = client_write_to (client_new_cmd ''PING'') @ crlf\<rparr>), 2)"
    using example_task_run by blast
  from run_tokio_refines_client [OF psim.ts.tk_br.async_conn_axioms [folded example_tokio_def] example_task_ok k'(1)] k'
  show ?thesis
    by (simp add: client_abs_def example_task_def new_with_logic_def mi_new_def psim_views example_script_def)
qed

text \<open>The write limit of the asynchronous client never elapses.  Every poll makes a new timer, so with a peer
  that accepts nothing the loop waits forever, whatever write timeout is set (it is at least a second)
  and however much time passes.\<close>

lemma async_write_limit_never_elapses:
  assumes "\<And>b w. \<exists>w'. t_poll_write c b w = (Pending, w')"
    and "\<And>w t w1 d. t_now c w = (t, w1) \<Longrightarrow> t + secs 1 \<le> d \<Longrightarrow> \<exists>w2. t_poll_sleep c d w1 = (Pending, w2)"
    and "\<And>t. tl_write (cl_timeout (k_logic k)) = Some t \<Longrightarrow> secs 1 \<le> t"
    and "flush_loop (t_now c) imax (cl_queue (k_logic k)) (mi_buf_o (k_conn k)) (mi_conn (k_conn k)) = Return (tmo, q, buf, w)"
    and "buf \<noteq> []" and "q_queue (cl_queue (k_logic k)) \<noteq> []"
  shows "run_tokio c imax k = None"
proof -
  let ?limit = "tl_write (cl_timeout (k_logic k))"
  have "\<exists>w'. tk_write c ?limit buf w = (WRetry, w')" for w
  proof -
    obtain w1 where w1: "t_poll_write c buf w = (Pending, w1)" using assms(1) by blast
    obtain t w2 where n: "t_now c w1 = (t, w2)" by fastforce
    have "\<exists>w3. poll_write_timeout c ?limit w1 = (Pending, w3)"
    proof (cases ?limit)
      case (Some d)
      with assms(2) [OF n, of "t + d"] assms(3) n show ?thesis by (auto simp: poll_write_timeout_def)
    qed (simp add: poll_write_timeout_def)
    with w1 show ?thesis by (auto simp: tk_write_def ttk_poll_write_def)
  qed
  then have "tk_write_all c ?limit buf w = None" unfolding tk_write_all_def by (rule write_all_via_stuck) (rule assms(5))
  then have "flush_partial_tokio c imax k = None"
    using assms(4,6) by (simp add: flush_partial_tokio_def flush_via_def queue_is_empty_def ttk_new_def bind_exec_def)
  then show ?thesis unfolding run_tokio_def by (subst turns.simps) (simp add: turn_via_def bind_exec_def)
qed

end
