(* ===== verification/Messages.thy ===== *)
theory Messages
  imports NameTables ConnTokio
begin

text \<open>
  The methods of \<open>ServerMsg\<close> and \<open>ClientMsg\<close> (\<open>ircmsg/server.rs\<close>, \<open>ircmsg/client.rs\<close>) that join the parts below them: a message is
  made from a name, given its arguments, written or sent through a codec, read again and interpreted by its
  name.  A client's message is read with the server's codec and the other way around.
\<close>

section \<open>Client messages (\<open>ircmsg/client.rs\<close>)\<close>

definition client_msg_new :: "bytes \<Rightarrow> client_msg" where
  "client_msg_new name = client_new_cmd (client_as_raw name)"

definition client_with_args :: "bytes list \<Rightarrow> bytes option \<Rightarrow> client_msg \<Rightarrow> client_msg" where
  "client_with_args args lst m = m\<lparr>cm_args := args_set args lst (cm_args m)\<rparr>"

definition client_parse_as :: "(client_msg \<Rightarrow> ('t, ParseError) result) \<Rightarrow> client_msg \<Rightarrow> ('t, ParseError) result" where
  "client_parse_as from_union m = from_union m"

definition client_msg_read_owning_from ::
  "'w connection \<Rightarrow> nat option \<Rightarrow> bytes \<Rightarrow> 'w \<Rightarrow> ((client_msg, io_error) result \<times> bytes \<times> 'w) option" where
  "client_msg_read_owning_from = server_read_owning_from"

definition client_msg_read_owning_from_tokio ::
  "'w tokio_conn \<Rightarrow> nat option \<Rightarrow> bytes \<Rightarrow> 'w \<Rightarrow> ((client_msg, io_error) result \<times> bytes \<times> 'w) option" where
  "client_msg_read_owning_from_tokio = server_read_owning_from_tokio"

definition client_msg_read_borrowing_from ::
  "'w connection \<Rightarrow> nat option \<Rightarrow> bytes \<Rightarrow> 'w \<Rightarrow> ((client_msg, io_error) result \<times> bytes \<times> 'w) option" where
  "client_msg_read_borrowing_from = server_read_borrowing_from"

definition client_msg_read_borrowing_from_tokio ::
  "'w tokio_conn \<Rightarrow> nat option \<Rightarrow> bytes \<Rightarrow> 'w \<Rightarrow> ((client_msg, io_error) result \<times> bytes \<times> 'w) option" where
  "client_msg_read_borrowing_from_tokio = server_read_borrowing_from_tokio"

definition client_msg_write_to :: "client_msg \<Rightarrow> bytes" where
  "client_msg_write_to m = client_write_to m"

definition client_msg_send_to ::
  "'w connection \<Rightarrow> client_msg \<Rightarrow> bytes \<Rightarrow> 'w \<Rightarrow> ((unit, io_error) result \<times> bytes \<times> 'w) exec option" where
  "client_msg_send_to c m buf w = client_send_io c m buf w"

definition client_msg_send_to_tokio ::
  "'w tokio_conn \<Rightarrow> nat option \<Rightarrow> client_msg \<Rightarrow> bytes \<Rightarrow> 'w \<Rightarrow> ((unit, io_error) result \<times> bytes \<times> 'w) exec option" where
  "client_msg_send_to_tokio c limit m buf w = client_send_to_tokio c limit m buf w"

section \<open>Server messages (\<open>ircmsg/server.rs\<close>)\<close>

definition server_msg_new :: "bytes \<Rightarrow> source \<Rightarrow> server_msg" where
  "server_msg_new name src = \<lparr>sm_tags = tags_new, sm_source = Some src, sm_kind = server_as_raw name, sm_args = args_empty\<rparr>"

definition server_with_args :: "bytes list \<Rightarrow> bytes option \<Rightarrow> server_msg \<Rightarrow> server_msg" where
  "server_with_args args lst m = m\<lparr>sm_args := args_set args lst (sm_args m)\<rparr>"

definition server_parse_as :: "(server_msg \<Rightarrow> ('t, ParseError) result) \<Rightarrow> server_msg \<Rightarrow> ('t, ParseError) result" where
  "server_parse_as from_union m = from_union m"

definition server_msg_read_owning_from ::
  "'w connection \<Rightarrow> nat option \<Rightarrow> bytes \<Rightarrow> 'w \<Rightarrow> ((server_msg, io_error) result \<times> bytes \<times> 'w) option" where
  "server_msg_read_owning_from = client_read_owning_from"

definition server_msg_read_owning_from_tokio ::
  "'w tokio_conn \<Rightarrow> nat option \<Rightarrow> bytes \<Rightarrow> 'w \<Rightarrow> ((server_msg, io_error) result \<times> bytes \<times> 'w) option" where
  "server_msg_read_owning_from_tokio = client_read_owning_from_tokio"

definition server_msg_read_borrowing_from ::
  "'w connection \<Rightarrow> nat option \<Rightarrow> bytes \<Rightarrow> 'w \<Rightarrow> ((server_msg, io_error) result \<times> bytes \<times> 'w) option" where
  "server_msg_read_borrowing_from = client_read_borrowing_from"

definition server_msg_read_borrowing_from_tokio ::
  "'w tokio_conn \<Rightarrow> nat option \<Rightarrow> bytes \<Rightarrow> 'w \<Rightarrow> ((server_msg, io_error) result \<times> bytes \<times> 'w) option" where
  "server_msg_read_borrowing_from_tokio = client_read_borrowing_from_tokio"

definition server_msg_write_to :: "server_msg \<Rightarrow> bytes" where
  "server_msg_write_to m = server_write_to m"

definition server_msg_send_to ::
  "'w connection \<Rightarrow> server_msg \<Rightarrow> bytes \<Rightarrow> 'w \<Rightarrow> ((unit, io_error) result \<times> bytes \<times> 'w) exec option" where
  "server_msg_send_to c m buf w = server_send_io c m buf w"

definition server_msg_send_to_tokio ::
  "'w tokio_conn \<Rightarrow> nat option \<Rightarrow> server_msg \<Rightarrow> bytes \<Rightarrow> 'w \<Rightarrow> ((unit, io_error) result \<times> bytes \<times> 'w) exec option" where
  "server_msg_send_to_tokio c limit m buf w = server_send_to_tokio c limit m buf w"

section \<open>Messages with a target and a value\<close>

text \<open>The arguments of a command that \<open>basic_unary!\<close> interprets.\<close>

definition unary_args :: "bool \<Rightarrow> bytes \<Rightarrow> bytes list" where
  "unary_args targeted target = (if targeted then [target] else [])"

definition wire_value :: "bytes \<Rightarrow> bool" where
  "wire_value v \<longleftrightarrow> valid Line v \<and> (valid Arg v \<longrightarrow> plain_start v)"

definition wire_target :: "bytes \<Rightarrow> bool" where
  "wire_target t \<longleftrightarrow> valid Arg t \<and> plain_start t"

lemma unary_args_ok:
  assumes "wire_target t" and "wire_value v"
  shows "args_ok (args_set (unary_args targeted t) (Some v) args_empty)"
    and "\<forall>w \<in> set (words (args_set (unary_args targeted t) (Some v) args_empty)). plain_start w"
    and "split_last (args_set (unary_args targeted t) (Some v) args_empty) = (unary_args targeted t, Some v)"
  using assms
  by (auto simp: wire_target_def wire_value_def unary_args_def args_set_def args_empty_def split_last_def from_bytes_def valid_def
      args_ok_def split: option.splits)

lemma unary_parse:
  assumes "split_last a = (unary_args targeted t, Some v)"
  shows "basic_unary_args targeted n a = Inr (if targeted then t else STAR, v)"
  using assms by (simp add: basic_unary_args_def unary_args_def)

lemma unary_cmd: "(n, targeted) \<in> set basic_unary_cmds \<Longrightarrow> n \<in> set both_cmds"
  using unary_commands_are_names by force

lemma unary_cmd_valid: "(n, targeted) \<in> set basic_unary_cmds \<Longrightarrow> valid Cmd n"
  using all_cmds_valid unary_cmd by (auto simp: all_cmds_def)

section \<open>Properties\<close>

text \<open>C33: what is said is understood.  Take a message of a command with a target and a value, made from its name
  by a client, whose target is an argument and whose value a line, neither of them starting with a tab or form feed.  Written,
  parsed at the other end and interpreted by the same name it gives the target and the value back; and so does the
  message that a server relays with the well-formed source it adds, unless that source has an empty host.\<close>

theorem unary_messages_understood:
  assumes "(n, targeted) \<in> set basic_unary_cmds" and "wire_target t" and "wire_value v"
    and "src_ok src" and "src_host src \<noteq> Some []"
  shows "(\<exists>m. client_msg_parse (client_msg_write_to (client_with_args (unary_args targeted t) (Some v) (client_msg_new n))) = Some (Inr m) \<and>
      client_tag m = n \<and> client_parse_as (basic_unary_client targeted n) m =
        Inr \<lparr>tm_tags = [], tm_source = None, tm_target = (if targeted then t else STAR), tm_value = v\<rparr>) \<and>
    (\<exists>m. server_msg_parse (server_msg_write_to (server_with_args (unary_args targeted t) (Some v) (server_msg_new n src))) = Some (Inr m) \<and>
      kind_name_eq n (sm_kind m) \<and> server_parse_as (basic_unary_server targeted n) m =
        Inr \<lparr>tm_tags = [], tm_source = Some src, tm_target = (if targeted then t else STAR), tm_value = v\<rparr>)"
proof -
  let ?a = "args_set (unary_args targeted t) (Some v) args_empty"
  let ?c = "client_with_args (unary_args targeted t) (Some v) (client_msg_new n)"
  let ?s = "server_with_args (unary_args targeted t) (Some v) (server_msg_new n src)"
  note a = unary_args_ok [OF assms(2,3), of targeted]
  note v = unary_cmd_valid [OF assms(1)]
  note unary = unary_parse [OF a(3), of n]
  have c: "?c = \<lparr>cm_tags = [], cm_cmd = n, cm_args = ?a\<rparr>"
    by (simp add: client_with_args_def client_msg_new_def client_new_cmd_def client_as_raw_def as_cmd_def tags_new_def fm_new_def)
  have s: "?s = \<lparr>sm_tags = [], sm_source = Some src, sm_kind = KCmd n, sm_args = ?a\<rparr>"
    by (simp add: server_with_args_def server_msg_new_def server_as_raw_def as_kind_def tags_new_def fm_new_def)
  have t: "tags_ok []" by (simp add: tags_ok_def fm_ok_def)
  have "client_msg_ok ?c" "server_msg_ok ?s"
    using a(1) v t assms(4) by (simp_all add: client_msg_ok_def server_msg_ok_def kind_ok_def c s)
  then have "client_msg_parse (client_write_to ?c) = Some (Inr ?c)" "server_msg_parse (server_write_to ?s) = Some (Inr ?s)"
    using client_parse_write [of ?c] server_parse_write [of ?s] a(2) assms(5) by (simp_all add: c s)
  then show ?thesis
    using unary
    by (auto simp: client_msg_write_to_def server_msg_write_to_def c s client_tag_def client_parse_as_def basic_unary_client_def
        server_parse_as_def basic_unary_server_def kind_name_eq_def as_kind_def)
qed

theorem unary_messages_understood_witness:
  "\<exists>m. server_msg_parse (server_msg_write_to (server_with_args (unary_args True ''#a'') (Some ''hi all'')
       (server_msg_new ''PRIVMSG'' (new_server ''irc'')))) = Some (Inr m) \<and>
     server_parse_as (basic_unary_server True ''PRIVMSG'') m =
       Inr \<lparr>tm_tags = [], tm_source = Some (new_server ''irc''), tm_target = ''#a'', tm_value = ''hi all''\<rparr>"
proof -
  have "(''PRIVMSG'', True) \<in> set basic_unary_cmds" "wire_target ''#a''" "wire_value ''hi all''" "src_ok (new_server ''irc'')"
    "src_host (new_server ''irc'') \<noteq> Some []" by code_simp+
  from unary_messages_understood [OF this] show ?thesis by auto
qed

end
