(* ===== verification/SharedBytes.thy ===== *)
theory SharedBytes
  imports SecretBuf "HOL-Library.Multiset"
begin

text \<open>
  How byte strings share memory: \<open>ThinArc\<close> of \<open>util/thinarc.rs\<close>, the memory of \<open>util/ownedslice.rs\<close> and \<open>OwnedBytes\<close> of
  \<open>string/bytes.rs\<close>.  A heap holds the reference counted allocations, each with its cells; a string is a
  slice, of an allocation or of memory that it borrows, with the reference that keeps it alive.  The outer
  option is \<open>None\<close> when memory is used that was given back or never written.  The heap keeps a list of what was
  given back to the allocator, as it was then.  The theory \<open>BytesStr\<close> has strings as values; a run of
  operations on shared strings is shown to be a refinement of it.
\<close>

section \<open>Reference counted memory (\<open>util/thinarc.rs\<close>)\<close>

record arc =
  arc_rc :: nat
  arc_value :: mem

record heap =
  cells :: "nat \<Rightarrow> arc option"
  fresh :: nat
  given_back :: "mem list"

definition heap_new :: heap where
  "heap_new = \<lparr>cells = (\<lambda>_. None), fresh = 0, given_back = []\<rparr>"

definition thinarc_new :: "mem \<Rightarrow> heap \<Rightarrow> nat \<times> heap" where
  "thinarc_new m h =
     (fresh h, h\<lparr>cells := (cells h)(fresh h := Some \<lparr>arc_rc = 1, arc_value = m\<rparr>), fresh := fresh h + 1\<rparr>)"

text \<open>The count is a natural number, where the code has an \<open>AtomicUsize\<close> that would wrap after as many clones as it has
  values; operations of different threads are not interleaved here.\<close>

definition thinarc_clone :: "nat \<Rightarrow> heap \<Rightarrow> heap option" where
  "thinarc_clone a h = do {
     c \<leftarrow> cells h a;
     Some (h\<lparr>cells := (cells h)(a := Some (c\<lparr>arc_rc := arc_rc c + 1\<rparr>))\<rparr>) }"

text \<open>\<open>Drop for OwnedSlice\<close>: the memory goes back as it is.\<close>

definition os_drop :: "mem \<Rightarrow> heap \<Rightarrow> heap" where
  "os_drop m h = h\<lparr>given_back := given_back h @ [m]\<rparr>"

definition thinarc_drop :: "nat \<Rightarrow> heap \<Rightarrow> heap option" where
  "thinarc_drop a h = do {
     c \<leftarrow> cells h a;
     Some (if arc_rc c = 1 then os_drop (arc_value c) (h\<lparr>cells := (cells h)(a := None)\<rparr>)
           else h\<lparr>cells := (cells h)(a := Some (c\<lparr>arc_rc := arc_rc c - 1\<rparr>))\<rparr>) }"

definition thinarc_try_unwrap :: "nat \<Rightarrow> heap \<Rightarrow> ((mem, nat) result \<times> heap) option" where
  "thinarc_try_unwrap a h = do {
     c \<leftarrow> cells h a;
     Some (if arc_rc c = 1 then (Inr (arc_value c), h\<lparr>cells := (cells h)(a := None)\<rparr>) else (Inl a, h)) }"

section \<open>Strings\<close>

text \<open>A slice is outside of the heap, or is given by offset and length in the allocation its string owns.\<close>

datatype hslice = Ext bytes | Sub nat nat

record hbytes =
  hb_slice :: hslice
  hb_owner :: "nat option"
  hb_utf8 :: int
  hb_secret :: bool

definition mem_read :: "nat \<Rightarrow> nat \<Rightarrow> mem \<Rightarrow> bytes option" where
  "mem_read off len m =
     (if off + len \<le> length m \<and> None \<notin> set (take len (drop off m)) then Some (map the (take len (drop off m))) else None)"

definition hb_value :: "heap \<Rightarrow> hbytes \<Rightarrow> bytes option" where
  "hb_value h b =
     (case hb_slice b of
        Ext v \<Rightarrow> Some v
      | Sub off len \<Rightarrow> do { a \<leftarrow> hb_owner b; c \<leftarrow> cells h a; mem_read off len (arc_value c) })"

text \<open>\<open>OwnedBytes::from_vec\<close>, of a vector with some spare capacity.\<close>

definition owned_bytes_from_vec :: "bytes \<Rightarrow> nat \<Rightarrow> heap \<Rightarrow> (nat option \<times> hslice) \<times> heap" where
  "owned_bytes_from_vec v spare h =
     (if v = [] then ((None, Ext []), h)
      else
        (let (os, len) = os_from_vec v (length v + spare); (a, h') = thinarc_new os h
         in ((Some a, Sub 0 len), h')))"

definition hb_from_vec :: "bytes \<Rightarrow> nat \<Rightarrow> int \<Rightarrow> bool \<Rightarrow> heap \<Rightarrow> hbytes \<times> heap" where
  "hb_from_vec v spare utf8 sec h =
     (let ((owner, sl), h') = owned_bytes_from_vec v spare h
      in (\<lparr>hb_slice = sl, hb_owner = owner, hb_utf8 = utf8, hb_secret = sec\<rparr>, h'))"

definition hb_clone :: "hbytes \<Rightarrow> heap \<Rightarrow> (hbytes \<times> heap) option" where
  "hb_clone b h = (case hb_owner b of None \<Rightarrow> Some (b, h) | Some a \<Rightarrow> do { h' \<leftarrow> thinarc_clone a h; Some (b, h') })"

definition hb_drop :: "hbytes \<Rightarrow> heap \<Rightarrow> heap option" where
  "hb_drop b h = (case hb_owner b of None \<Rightarrow> Some h | Some a \<Rightarrow> thinarc_drop a h)"

text \<open>\<open>owning_force\<close> copies the value and drops the string it replaces.\<close>

definition hb_owning_force :: "bool \<Rightarrow> hbytes \<Rightarrow> heap \<Rightarrow> (hbytes \<times> heap) option" where
  "hb_owning_force sec b h = do {
     v \<leftarrow> hb_value h b;
     let (b', h1) = hb_from_vec v 0 (hb_utf8 b) sec h;
     h2 \<leftarrow> hb_drop b h1;
     Some (b', h2) }"

definition hb_make_owning :: "hbytes \<Rightarrow> heap \<Rightarrow> (hbytes \<times> heap) option" where
  "hb_make_owning b h = (if hb_owner b = None then hb_owning_force False b h else Some (b, h))"

definition hb_owning :: "hbytes \<Rightarrow> heap \<Rightarrow> (hbytes \<times> heap) option" where
  "hb_owning b h = (if hb_owner b = None then hb_owning_force (hb_secret b) b h else Some (b, h))"

definition hb_make_secret :: "hbytes \<Rightarrow> heap \<Rightarrow> (hbytes \<times> heap) option" where
  "hb_make_secret b h =
     (if \<not> hb_secret b \<and> hb_owner b \<noteq> None then hb_owning_force True b h else Some (b\<lparr>hb_secret := True\<rparr>, h))"

text \<open>\<open>using_value\<close> on a part of the own value.\<close>

definition sub_slice :: "nat \<Rightarrow> nat \<Rightarrow> hslice \<Rightarrow> hslice" where
  "sub_slice k n s =
     (case s of Ext v \<Rightarrow> Ext (take n (drop k v)) | Sub off len \<Rightarrow> Sub (off + min k len) (min n (len - k)))"

definition slice_len :: "hslice \<Rightarrow> nat" where
  "slice_len s = (case s of Ext v \<Rightarrow> length v | Sub off len \<Rightarrow> len)"

definition hb_using_value :: "nat \<Rightarrow> nat \<Rightarrow> Utf8Policy \<Rightarrow> hbytes \<Rightarrow> heap \<Rightarrow> (hbytes \<times> heap) option" where
  "hb_using_value k n p b h =
     (let sl = sub_slice k n (hb_slice b);
          utf8 = (case p of
              PolPreserveStrict \<Rightarrow> hb_utf8 b
            | PolPreserve \<Rightarrow> (if hb_utf8 b = 1 then 1 else 0)
            | _ \<Rightarrow> policy_i8 p)
      in if slice_len sl = 0 then Some (\<lparr>hb_slice = Ext [], hb_owner = None, hb_utf8 = utf8, hb_secret = hb_secret b\<rparr>, h)
         else do {
           (b', h') \<leftarrow> hb_clone b h;
           Some (\<lparr>hb_slice = sl, hb_owner = hb_owner b', hb_utf8 = utf8, hb_secret = hb_secret b\<rparr>, h') })"

text \<open>\<open>into_vec_with_slice\<close>: the memory is used again when the slice starts where it does, and is left over otherwise.\<close>

definition into_vec_with_slice :: "nat \<Rightarrow> nat \<Rightarrow> mem \<Rightarrow> (bytes \<times> mem option) option" where
  "into_vec_with_slice off len m =
     (if off = 0 then do { v \<leftarrow> into_vec_with_len len m; Some (v, None) }
      else do { v \<leftarrow> mem_read off len m; Some (v, Some m) })"

definition owned_bytes_into_vec :: "nat \<Rightarrow> hslice \<Rightarrow> bool \<Rightarrow> heap \<Rightarrow> (bytes \<times> heap) option" where
  "owned_bytes_into_vec a sl sec h = do {
     (r, h1) \<leftarrow> thinarc_try_unwrap a h;
     case (r, sl) of
       (Inr os, Sub off len) \<Rightarrow> do {
         (v, left) \<leftarrow> into_vec_with_slice off len os;
         case left of
           None \<Rightarrow> Some (v, h1)
         | Some m \<Rightarrow> do { m' \<leftarrow> (if sec then reinit_all m else Some m); Some (v, os_drop m' h1) } }
     | (Inr os, Ext v) \<Rightarrow> do { m' \<leftarrow> (if sec then reinit_all os else Some os); Some (v, os_drop m' h1) }
     | (Inl a', Sub off len) \<Rightarrow> do { c \<leftarrow> cells h1 a'; v \<leftarrow> mem_read off len (arc_value c); h2 \<leftarrow> thinarc_drop a' h1; Some (v, h2) }
     | (Inl a', Ext v) \<Rightarrow> do { h2 \<leftarrow> thinarc_drop a' h1; Some (v, h2) } }"

definition hb_into_vec :: "hbytes \<Rightarrow> heap \<Rightarrow> (bytes \<times> heap) option" where
  "hb_into_vec b h =
     (case hb_owner b of
        Some a \<Rightarrow> owned_bytes_into_vec a (hb_slice b) (hb_secret b) h
      | None \<Rightarrow> do { v \<leftarrow> hb_value h b; Some (v, h) })"

section \<open>Runs of operations\<close>

text \<open>A program over a list of strings; what is turned into vectors is collected.\<close>

datatype bytes_op =
    NewBorrowed bytes | NewVec bytes nat | NewSecret bytes nat
  | OpClone nat | OpDrop nat | OpOwning nat | OpMakeOwning nat | OpSecret nat | OpUsing nat nat nat Utf8Policy | OpIntoVec nat

definition remove_nth :: "nat \<Rightarrow> 'x list \<Rightarrow> 'x list" where
  "remove_nth i xs = take i xs @ drop (Suc i) xs"

type_synonym hstate = "heap \<times> hbytes list \<times> bytes list"

fun op_index :: "bytes_op \<Rightarrow> nat option" where
  "op_index (NewBorrowed _) = None" | "op_index (NewVec _ _) = None" | "op_index (NewSecret _ _) = None"
| "op_index (OpClone i) = Some i" | "op_index (OpDrop i) = Some i" | "op_index (OpOwning i) = Some i"
| "op_index (OpMakeOwning i) = Some i" | "op_index (OpSecret i) = Some i" | "op_index (OpUsing i _ _ _) = Some i"
| "op_index (OpIntoVec i) = Some i"

definition replace_with :: "(hbytes \<Rightarrow> heap \<Rightarrow> (hbytes \<times> heap) option) \<Rightarrow> nat \<Rightarrow> hstate \<Rightarrow> hstate option" where
  "replace_with f i st = (let (h, bs, outs) = st in do { (b, h') \<leftarrow> f (bs ! i) h; Some (h', bs[i := b], outs) })"

definition append_with :: "(hbytes \<Rightarrow> heap \<Rightarrow> (hbytes \<times> heap) option) \<Rightarrow> nat \<Rightarrow> hstate \<Rightarrow> hstate option" where
  "append_with f i st = (let (h, bs, outs) = st in do { (b, h') \<leftarrow> f (bs ! i) h; Some (h', bs @ [b], outs) })"

fun hb_exec :: "bytes_op \<Rightarrow> hstate \<Rightarrow> hstate option" where
  "hb_exec (NewBorrowed v) (h, bs, outs) =
     Some (h, bs @ [\<lparr>hb_slice = Ext v, hb_owner = None, hb_utf8 = 0, hb_secret = False\<rparr>], outs)"
| "hb_exec (NewVec v spare) (h, bs, outs) = (let (b, h') = hb_from_vec v spare 0 False h in Some (h', bs @ [b], outs))"
| "hb_exec (NewSecret v spare) (h, bs, outs) = (let (b, h') = hb_from_vec v spare 0 True h in Some (h', bs @ [b], outs))"
| "hb_exec (OpClone i) st = append_with hb_clone i st"
| "hb_exec (OpDrop i) (h, bs, outs) = do { h' \<leftarrow> hb_drop (bs ! i) h; Some (h', remove_nth i bs, outs) }"
| "hb_exec (OpOwning i) st = replace_with hb_owning i st"
| "hb_exec (OpMakeOwning i) st = replace_with hb_make_owning i st"
| "hb_exec (OpSecret i) st = replace_with hb_make_secret i st"
| "hb_exec (OpUsing i k n p) st = append_with (hb_using_value k n p) i st"
| "hb_exec (OpIntoVec i) (h, bs, outs) = do { (v, h') \<leftarrow> hb_into_vec (bs ! i) h; Some (h', remove_nth i bs, outs @ [v]) }"

text \<open>An operation on a string that is not there is left out.\<close>

fun hb_run :: "bytes_op list \<Rightarrow> hstate \<Rightarrow> hstate option" where
  "hb_run [] st = Some st"
| "hb_run (oper # opers) st =
     (case op_index oper of
        Some i \<Rightarrow> (if i < length (fst (snd st)) then do { st' \<leftarrow> hb_exec oper st; hb_run opers st' } else hb_run opers st)
      | None \<Rightarrow> do { st' \<leftarrow> hb_exec oper st; hb_run opers st' })"

text \<open>The same program on strings that are values of their own.\<close>

type_synonym vstate = "ircbytes list \<times> bytes list"

fun value_exec :: "bytes_op \<Rightarrow> vstate \<Rightarrow> vstate" where
  "value_exec (NewBorrowed v) (bs, outs) = (bs @ [bytes_from_bytes v], outs)"
| "value_exec (NewVec v spare) (bs, outs) = (bs @ [bytes_from_vec v], outs)"
| "value_exec (NewSecret v spare) (bs, outs) = (bs @ [bytes_from_secret v], outs)"
| "value_exec (OpClone i) (bs, outs) = (bs @ [bytes_clone (bs ! i)], outs)"
| "value_exec (OpDrop i) (bs, outs) = (remove_nth i bs, outs)"
| "value_exec (OpOwning i) (bs, outs) = (bs[i := owning (bs ! i)], outs)"
| "value_exec (OpMakeOwning i) (bs, outs) = (bs[i := make_owning (bs ! i)], outs)"
| "value_exec (OpSecret i) (bs, outs) = (bs[i := secret (bs ! i)], outs)"
| "value_exec (OpUsing i k n p) (bs, outs) = (bs @ [using_value (take n (drop k (b_value (bs ! i)))) p (bs ! i)], outs)"
| "value_exec (OpIntoVec i) (bs, outs) = (remove_nth i bs, outs @ [b_value (bs ! i)])"

fun value_run :: "bytes_op list \<Rightarrow> vstate \<Rightarrow> vstate" where
  "value_run [] st = st"
| "value_run (oper # opers) st =
     (case op_index oper of
        Some i \<Rightarrow> value_run opers (if i < length (fst st) then value_exec oper st else st)
      | None \<Rightarrow> value_run opers (value_exec oper st))"

section \<open>Sharing\<close>

text \<open>The counts are those of the strings alive, given by their owners, and nothing else is allocated.\<close>

definition rc_of :: "heap \<Rightarrow> nat \<Rightarrow> nat" where
  "rc_of h a = (case cells h a of None \<Rightarrow> 0 | Some c \<Rightarrow> arc_rc c)"

definition shares_ok :: "heap \<Rightarrow> nat option multiset \<Rightarrow> bool" where
  "shares_ok h M \<longleftrightarrow> (\<forall>a. rc_of h a = count M (Some a)) \<and> (\<forall>a c. cells h a = Some c \<longrightarrow> 0 < arc_rc c) \<and>
     (\<forall>a. fresh h \<le> a \<longrightarrow> cells h a = None)"

text \<open>The contents of an allocation, and that they are kept for the strings that remain.\<close>

definition arc_mem :: "heap \<Rightarrow> nat \<Rightarrow> mem option" where
  "arc_mem h a = map_option arc_value (cells h a)"

definition keeps :: "heap \<Rightarrow> heap \<Rightarrow> nat option multiset \<Rightarrow> bool" where
  "keeps h h' M \<longleftrightarrow> (\<forall>a. Some a \<in># M \<longrightarrow> arc_mem h' a = arc_mem h a)"

lemma hb_value_mem:
  "hb_value h b = (case hb_slice b of Ext v \<Rightarrow> Some v
     | Sub off len \<Rightarrow> do { a \<leftarrow> hb_owner b; m \<leftarrow> arc_mem h a; mem_read off len m })"
  by (auto simp: hb_value_def arc_mem_def split: hslice.splits Option.bind_splits)

lemma hb_value_keeps: "keeps h h' M \<Longrightarrow> hb_owner b \<in># M \<Longrightarrow> hb_value h' b = hb_value h b"
  by (cases "hb_owner b") (auto simp: hb_value_mem keeps_def split: hslice.splits)

lemma keeps_trans: "keeps h h1 M \<Longrightarrow> keeps h1 h2 M \<Longrightarrow> keeps h h2 M"
  by (simp add: keeps_def)

lemma keeps_refl: "keeps h h M"
  by (simp add: keeps_def)

lemma keeps_subset: "keeps h h' M \<Longrightarrow> N \<subseteq># M \<Longrightarrow> keeps h h' N"
  by (auto simp: keeps_def dest: mset_subset_eqD)

lemma shares_cell:
  assumes "shares_ok h M" and "Some a \<in># M"
  shows "\<exists>c. cells h a = Some c \<and> arc_rc c = count M (Some a) \<and> a < fresh h"
proof -
  have "0 < count M (Some a)" using assms(2) by simp
  with assms(1) have n: "rc_of h a = count M (Some a)" "rc_of h a \<noteq> 0" by (simp_all add: shares_ok_def)
  then obtain c where c: "cells h a = Some c" by (cases "cells h a") (simp_all add: rc_of_def)
  moreover have "a < fresh h"
  proof (rule ccontr)
    assume "\<not> a < fresh h"
    with assms(1) c show False by (simp add: shares_ok_def)
  qed
  ultimately show ?thesis using n(1) by (simp add: rc_of_def)
qed

lemma shares_None [simp]: "shares_ok h (add_mset None M) = shares_ok h M"
  by (simp add: shares_ok_def)

lemma shares_new:
  assumes ok: "shares_ok h M" and new: "thinarc_new m h = (a, h')"
  shows "shares_ok h' (add_mset (Some a) M) \<and> keeps h h' M \<and> arc_mem h' a = Some m"
proof -
  have a: "a = fresh h" and h': "h' = h\<lparr>cells := (cells h)(a := Some \<lparr>arc_rc = 1, arc_value = m\<rparr>), fresh := a + 1\<rparr>"
    using new by (auto simp: thinarc_new_def)
  have n: "cells h a = None" using ok a by (simp add: shares_ok_def)
  have z: "count M (Some a) = 0" using ok n by (metis shares_ok_def rc_of_def option.case(1))
  have "Some a \<notin># M" using z by (simp add: not_in_iff)
  then have "keeps h h' M" by (auto simp: keeps_def arc_mem_def h')
  moreover have "rc_of h' x = count (add_mset (Some a) M) (Some x)" for x
    using ok z by (auto simp: rc_of_def h' shares_ok_def)
  ultimately show ?thesis using ok a by (auto simp: shares_ok_def h' arc_mem_def)
qed

lemma shares_clone:
  assumes ok: "shares_ok h M" and mem: "Some a \<in># M"
  shows "\<exists>h'. thinarc_clone a h = Some h' \<and> shares_ok h' (add_mset (Some a) M) \<and> keeps h h' M"
proof -
  obtain c where c: "cells h a = Some c" "arc_rc c = count M (Some a)" "a < fresh h" using shares_cell [OF assms] by blast
  let ?h = "h\<lparr>cells := (cells h)(a := Some (c\<lparr>arc_rc := arc_rc c + 1\<rparr>))\<rparr>"
  have "rc_of ?h x = count (add_mset (Some a) M) (Some x)" for x using ok c by (simp add: rc_of_def shares_ok_def)
  then have "shares_ok ?h (add_mset (Some a) M)" using ok c(3) by (simp add: shares_ok_def)
  moreover have "keeps h ?h M" using c(1) by (simp add: keeps_def arc_mem_def)
  ultimately show ?thesis using c(1) by (simp add: thinarc_clone_def)
qed

lemma shares_last:
  assumes ok: "shares_ok h (add_mset (Some a) M)" and c: "cells h a = Some c" "arc_rc c = 1"
  shows "shares_ok (h\<lparr>cells := (cells h)(a := None)\<rparr>) M \<and> keeps h (h\<lparr>cells := (cells h)(a := None)\<rparr>) M"
proof -
  let ?h = "h\<lparr>cells := (cells h)(a := None)\<rparr>"
  have "rc_of h a = Suc (count M (Some a))" using ok by (simp add: shares_ok_def)
  with c have z: "count M (Some a) = 0" by (simp add: rc_of_def)
  have "rc_of ?h x = count M (Some x)" for x
    using ok z by (auto simp: rc_of_def shares_ok_def dest!: spec [of _ x])
  then have "shares_ok ?h M" using ok by (simp add: shares_ok_def)
  moreover have "Some a \<notin># M" using z by (simp add: not_in_iff)
  then have "keeps h ?h M" by (auto simp: keeps_def arc_mem_def)
  ultimately show ?thesis ..
qed

lemma shares_drop:
  assumes ok: "shares_ok h (add_mset (Some a) M)"
  shows "\<exists>h'. thinarc_drop a h = Some h' \<and> shares_ok h' M \<and> keeps h h' M"
proof -
  obtain c where c: "cells h a = Some c" "arc_rc c = Suc (count M (Some a))" "a < fresh h"
    using shares_cell [OF ok, of a] by auto
  show ?thesis
  proof (cases "arc_rc c = 1")
    case True
    with shares_last [OF ok c(1)] c(1) show ?thesis
      by (simp add: thinarc_drop_def shares_ok_def keeps_def arc_mem_def os_drop_def rc_of_def)
  next
    case False
    let ?h = "h\<lparr>cells := (cells h)(a := Some (c\<lparr>arc_rc := arc_rc c - 1\<rparr>))\<rparr>"
    have "rc_of ?h x = count M (Some x)" for x
      using ok c(2) by (auto simp: rc_of_def shares_ok_def dest!: spec [of _ x])
    then have "shares_ok ?h M" using ok c False by (simp add: shares_ok_def)
    moreover have "keeps h ?h M" using c(1) by (simp add: keeps_def arc_mem_def)
    ultimately show ?thesis using c(1) False by (simp add: thinarc_drop_def)
  qed
qed

lemma shares_given_back [simp]:
  "shares_ok (os_drop m h) M = shares_ok h M" "keeps h' (os_drop m h) M = keeps h' h M"
  by (simp_all add: shares_ok_def keeps_def arc_mem_def os_drop_def rc_of_def)

lemma shares_empty:
  assumes "shares_ok h {#}"
  shows "cells h = (\<lambda>_. None)"
proof
  fix a
  have "rc_of h a = 0" and "\<And>c. cells h a = Some c \<Longrightarrow> 0 < arc_rc c" using assms by (simp_all add: shares_ok_def)
  then show "cells h a = None" by (cases "cells h a") (auto simp: rc_of_def)
qed

section \<open>Operations keep the sharing\<close>

text \<open>The value a string stands for.\<close>

definition hb_abs :: "heap \<Rightarrow> hbytes \<Rightarrow> ircbytes" where
  "hb_abs h b = \<lparr>b_value = the (hb_value h b), ownership = (hb_owner b \<noteq> None), b_utf8 = hb_utf8 b, b_secret = hb_secret b\<rparr>"

definition gives :: "heap \<Rightarrow> nat option multiset \<Rightarrow> hbytes \<Rightarrow> heap \<Rightarrow> ircbytes \<Rightarrow> bool" where
  "gives h M b' h' x \<longleftrightarrow> shares_ok h' (add_mset (hb_owner b') M) \<and> keeps h h' M \<and> hb_value h' b' \<noteq> None \<and> hb_abs h' b' = x"

lemma mem_read_new: "mem_read 0 (length v) (fst (os_from_vec v (length v + spare))) = Some v"
  by (simp add: mem_read_def os_from_vec_def)

lemma hb_from_vec_gives:
  assumes "shares_ok h M" and "hb_from_vec v spare u s h = (b, h')"
  shows "gives h M b h' \<lparr>b_value = v, ownership = (v \<noteq> []), b_utf8 = u, b_secret = s\<rparr>"
proof (cases "v = []")
  case True
  with assms show ?thesis
    by (auto simp: hb_from_vec_def owned_bytes_from_vec_def gives_def hb_abs_def hb_value_def keeps_refl)
next
  case False
  let ?m = "fst (os_from_vec v (length v + spare))"
  obtain a h1 where n: "thinarc_new ?m h = (a, h1)" by fastforce
  with assms(2) False have b: "b = \<lparr>hb_slice = Sub 0 (length v), hb_owner = Some a, hb_utf8 = u, hb_secret = s\<rparr>" "h' = h1"
    by (auto simp: hb_from_vec_def owned_bytes_from_vec_def os_from_vec_def)
  with shares_new [OF assms(1) n] False show ?thesis
    by (simp add: gives_def hb_abs_def hb_value_mem mem_read_new)
qed

lemma hb_clone_ok:
  assumes "shares_ok h M" and "hb_owner b \<in># M"
  shows "\<exists>h'. hb_clone b h = Some (b, h') \<and> shares_ok h' (add_mset (hb_owner b) M) \<and> keeps h h' M"
proof (cases "hb_owner b")
  case None
  with assms show ?thesis by (simp add: hb_clone_def keeps_refl)
next
  case (Some a)
  with shares_clone [OF assms(1), of a] assms(2) show ?thesis by (auto simp: hb_clone_def)
qed

lemma hb_drop_ok:
  assumes "shares_ok h (add_mset (hb_owner b) M)"
  shows "\<exists>h'. hb_drop b h = Some h' \<and> shares_ok h' M \<and> keeps h h' M"
proof (cases "hb_owner b")
  case None
  with assms show ?thesis by (simp add: hb_drop_def keeps_refl)
next
  case (Some a)
  with shares_drop [of h a M] assms show ?thesis by (simp add: hb_drop_def)
qed

lemma hb_owning_force_gives:
  assumes ok: "shares_ok h (add_mset (hb_owner b) M)" and v: "hb_value h b \<noteq> None"
  shows "\<exists>b' h'. hb_owning_force s b h = Some (b', h') \<and> gives h M b' h' (owning_force s (hb_abs h b))"
proof -
  obtain x where x: "hb_value h b = Some x" using v by blast
  obtain b1 h1 where n: "hb_from_vec x 0 (hb_utf8 b) s h = (b1, h1)" by fastforce
  note g = hb_from_vec_gives [OF ok n, unfolded gives_def]
  from g have "shares_ok h1 (add_mset (hb_owner b) (add_mset (hb_owner b1) M))" by (simp add: add_mset_commute)
  from hb_drop_ok [OF this] obtain h2 where
    d: "hb_drop b h1 = Some h2" "shares_ok h2 (add_mset (hb_owner b1) M)" "keeps h1 h2 (add_mset (hb_owner b1) M)" by blast
  have "hb_value h2 b1 = hb_value h1 b1" using hb_value_keeps [OF d(3)] by simp
  moreover have "keeps h h2 M" using g d(3) by (auto simp: keeps_def)
  ultimately have "gives h M b1 h2 (owning_force s (hb_abs h b))"
    using g d(2) x by (auto simp: gives_def hb_abs_def owning_force_def owned_from_vec_def)
  moreover have "hb_owning_force s b h = Some (b1, h2)" using x n d(1) by (simp add: hb_owning_force_def)
  ultimately show ?thesis by blast
qed

lemma gives_same:
  assumes "shares_ok h (add_mset (hb_owner b) M)" and "hb_value h b \<noteq> None"
  shows "gives h M b h (hb_abs h b)"
  using assms by (simp add: gives_def keeps_refl)

text \<open>An operation on a string in place, and one that makes a new string of it.\<close>

definition refines_in_place :: "(hbytes \<Rightarrow> heap \<Rightarrow> (hbytes \<times> heap) option) \<Rightarrow> (ircbytes \<Rightarrow> ircbytes) \<Rightarrow> bool" where
  "refines_in_place f g \<longleftrightarrow> (\<forall>h M b. shares_ok h (add_mset (hb_owner b) M) \<longrightarrow> hb_value h b \<noteq> None \<longrightarrow>
     (\<exists>b' h'. f b h = Some (b', h') \<and> gives h M b' h' (g (hb_abs h b))))"

definition refines_new :: "(hbytes \<Rightarrow> heap \<Rightarrow> (hbytes \<times> heap) option) \<Rightarrow> (ircbytes \<Rightarrow> ircbytes) \<Rightarrow> bool" where
  "refines_new f g \<longleftrightarrow> (\<forall>h M b. shares_ok h M \<longrightarrow> hb_owner b \<in># M \<longrightarrow> hb_value h b \<noteq> None \<longrightarrow>
     (\<exists>b' h'. f b h = Some (b', h') \<and> gives h M b' h' (g (hb_abs h b))))"

lemma hb_abs_simps [simp]:
  "ownership (hb_abs h b) = (hb_owner b \<noteq> None)" "b_secret (hb_abs h b) = hb_secret b" "b_utf8 (hb_abs h b) = hb_utf8 b"
  by (simp_all add: hb_abs_def)

lemma owning_refines: "refines_in_place hb_owning owning"
  unfolding refines_in_place_def
proof (intro allI impI)
  fix h M b
  assume ok: "shares_ok h (add_mset (hb_owner b) M)" "hb_value h b \<noteq> None"
  show "\<exists>b' h'. hb_owning b h = Some (b', h') \<and> gives h M b' h' (owning (hb_abs h b))"
    using hb_owning_force_gives [OF ok, of "hb_secret b"] gives_same [OF ok]
    by (cases "hb_owner b") (simp_all add: hb_owning_def owning_def is_owning_def)
qed

lemma make_owning_refines: "refines_in_place hb_make_owning make_owning"
  unfolding refines_in_place_def
proof (intro allI impI)
  fix h M b
  assume ok: "shares_ok h (add_mset (hb_owner b) M)" "hb_value h b \<noteq> None"
  show "\<exists>b' h'. hb_make_owning b h = Some (b', h') \<and> gives h M b' h' (make_owning (hb_abs h b))"
    using hb_owning_force_gives [OF ok, of False] gives_same [OF ok]
    by (cases "hb_owner b") (simp_all add: hb_make_owning_def make_owning_def is_owning_def)
qed

lemma secret_refines: "refines_in_place hb_make_secret secret"
  unfolding refines_in_place_def
proof (intro allI impI)
  fix h M b
  assume ok: "shares_ok h (add_mset (hb_owner b) M)" "hb_value h b \<noteq> None"
  have "hb_value h (b\<lparr>hb_secret := True\<rparr>) = hb_value h b" by (simp add: hb_value_def split: hslice.split)
  with ok have "gives h M (b\<lparr>hb_secret := True\<rparr>) h ((hb_abs h b)\<lparr>b_secret := True\<rparr>)"
    by (simp add: gives_def keeps_refl hb_abs_def)
  with hb_owning_force_gives [OF ok, of True]
  show "\<exists>b' h'. hb_make_secret b h = Some (b', h') \<and> gives h M b' h' (secret (hb_abs h b))"
    by (simp add: hb_make_secret_def secret_def is_owning_def)
qed

lemma clone_refines: "refines_new hb_clone bytes_clone"
  unfolding refines_new_def
proof (intro allI impI)
  fix h M b
  assume ok: "shares_ok h M" "hb_owner b \<in># M" and v: "hb_value h b \<noteq> None"
  obtain h' where h': "hb_clone b h = Some (b, h')" "shares_ok h' (add_mset (hb_owner b) M)" "keeps h h' M"
    using hb_clone_ok [OF ok] by blast
  with hb_value_keeps [OF h'(3) ok(2)] v show "\<exists>b' h'. hb_clone b h = Some (b', h') \<and> gives h M b' h' (bytes_clone (hb_abs h b))"
    by (simp add: gives_def bytes_clone_def hb_abs_def)
qed

lemma mem_read_sub:
  assumes "mem_read off len m = Some v"
  shows "length v = len" and "mem_read (off + min k len) (min n (len - k)) m = Some (take n (drop k v))"
proof -
  have v: "v = map the (take len (drop off m))" and l: "off + len \<le> length m" and i: "None \<notin> set (take len (drop off m))"
    using assms by (auto simp: mem_read_def split: if_splits)
  show len: "length v = len" using v l by simp
  have eq: "take (min n (len - k)) (drop (off + min k len) m) = take n (drop k (take len (drop off m)))"
  proof (cases "k \<le> len")
    case True
    then have "drop (off + min k len) m = drop k (drop off m)" by (simp add: add.commute)
    then show ?thesis by (simp add: drop_take)
  qed simp
  have "set (take n (drop k (take len (drop off m)))) \<subseteq> set (take len (drop off m))"
    by (meson set_drop_subset set_take_subset subset_trans)
  then show "mem_read (off + min k len) (min n (len - k)) m = Some (take n (drop k v))"
    unfolding mem_read_def eq using l i v by (auto simp: take_map drop_map min_def)
qed

lemma using_value_refines: "refines_new (hb_using_value k n p) (\<lambda>x. using_value (take n (drop k (b_value x))) p x)"
  unfolding refines_new_def
proof (intro allI impI)
  fix h M b
  assume ok: "shares_ok h M" "hb_owner b \<in># M" and "hb_value h b \<noteq> None"
  then obtain v where v: "hb_value h b = Some v" by blast
  define sl where "sl = sub_slice k n (hb_slice b)"
  have sub: "hb_value g (b1\<lparr>hb_slice := sl\<rparr>) = Some (take n (drop k v)) \<and> slice_len sl = length (take n (drop k v))"
    if "hb_value g b1 = Some v" "hb_slice b1 = hb_slice b" for g b1
  proof (cases "hb_slice b")
    case (Ext x)
    with that v show ?thesis by (simp add: sl_def sub_slice_def slice_len_def hb_value_def)
  next
    case (Sub off len)
    with that obtain m where m: "mem_read off len m = Some v" "do { a \<leftarrow> hb_owner b1; arc_mem g a } = Some m"
      by (auto simp: hb_value_mem split: Option.bind_splits)
    with Sub that(2) mem_read_sub(1) [OF m(1)] mem_read_sub(2) [OF m(1), of k n] show ?thesis
      by (auto simp: hb_value_mem sl_def sub_slice_def slice_len_def min_def split: Option.bind_splits)
  qed
  show "\<exists>b' h'. hb_using_value k n p b h = Some (b', h') \<and>
      gives h M b' h' (using_value (take n (drop k (b_value (hb_abs h b)))) p (hb_abs h b))"
  proof (cases "slice_len sl = 0")
    case True
    with sub [OF v refl] have "take n (drop k v) = []" by (auto simp: min_def split: if_splits)
    with True ok v show ?thesis
      by (simp add: hb_using_value_def sl_def [symmetric] gives_def hb_abs_def hb_value_def using_value_def
          utf8_for_policy_def keeps_refl split: Utf8Policy.split)
  next
    case False
    obtain h' where h': "hb_clone b h = Some (b, h')" "shares_ok h' (add_mset (hb_owner b) M)" "keeps h h' M"
      using hb_clone_ok [OF ok] by blast
    let ?b = "\<lparr>hb_slice = sl, hb_owner = hb_owner b, hb_utf8 = utf8_for_policy p (hb_abs h b), hb_secret = hb_secret b\<rparr>"
    have "hb_value h' b = Some v" using hb_value_keeps [OF h'(3) ok(2)] v by simp
    from sub [OF this refl] have val: "hb_value h' ?b = Some (take n (drop k v))" "take n (drop k v) \<noteq> []"
      using False by (auto simp: hb_value_def split: hslice.splits)
    have "hb_using_value k n p b h = Some (?b, h')"
      using False h'(1) by (simp add: hb_using_value_def sl_def [symmetric] utf8_for_policy_def split: Utf8Policy.split)
    moreover have "gives h M ?b h' (using_value (take n (drop k (b_value (hb_abs h b)))) p (hb_abs h b))"
      using val h' v by (simp add: gives_def hb_abs_def using_value_def)
    ultimately show ?thesis by blast
  qed
qed

lemma into_vec_slice_ok:
  assumes "mem_read off len m = Some v"
  shows "\<exists>left. into_vec_with_slice off len m = Some (v, left) \<and> (left = None \<or> left = Some m)"
  using assms by (cases "off = 0")
    (auto simp: into_vec_with_slice_def into_vec_with_len_def os_as_slice_def mem_read_def split: if_splits)

lemma hb_into_vec_ok:
  assumes ok: "shares_ok h (add_mset (hb_owner b) M)" and v: "hb_value h b = Some v"
  shows "\<exists>h'. hb_into_vec b h = Some (v, h') \<and> shares_ok h' M \<and> keeps h h' M"
proof (cases "hb_owner b")
  case None
  with assms show ?thesis by (simp add: hb_into_vec_def keeps_refl)
next
  case (Some a)
  with ok have oka: "shares_ok h (add_mset (Some a) M)" by simp
  then obtain c where c: "cells h a = Some c" using shares_cell [of h _ a] by fastforce
  show ?thesis
  proof (cases "arc_rc c = 1")
    case True
    let ?h = "h\<lparr>cells := (cells h)(a := None)\<rparr>"
    note last = shares_last [OF oka c True]
    have unwrap: "thinarc_try_unwrap a h = Some (Inr (arc_value c), ?h)" using c True by (simp add: thinarc_try_unwrap_def)
    note z = reinit_all_eq [of "arc_value c"]
    have "\<exists>g. owned_bytes_into_vec a (hb_slice b) (hb_secret b) h = Some (v, g) \<and> (g = ?h \<or> (\<exists>m. g = os_drop m ?h))"
    proof (cases "hb_slice b")
      case (Ext x)
      with v unwrap z show ?thesis by (auto simp: owned_bytes_into_vec_def hb_value_def)
    next
      case (Sub off len)
      with v Some c have "mem_read off len (arc_value c) = Some v" by (simp add: hb_value_def)
      from into_vec_slice_ok [OF this] Sub unwrap z show ?thesis by (auto simp: owned_bytes_into_vec_def)
    qed
    with Some last show ?thesis by (auto simp: hb_into_vec_def)
  next
    case False
    then have unwrap: "thinarc_try_unwrap a h = Some (Inl a, h)" using c by (simp add: thinarc_try_unwrap_def)
    obtain h' where d: "thinarc_drop a h = Some h'" "shares_ok h' M" "keeps h h' M" using shares_drop [OF oka] by blast
    have "owned_bytes_into_vec a (hb_slice b) (hb_secret b) h = Some (v, h')"
      using v Some c d(1) unwrap by (cases "hb_slice b") (simp_all add: owned_bytes_into_vec_def hb_value_def)
    with Some d show ?thesis by (simp add: hb_into_vec_def)
  qed
qed

section \<open>Runs refine values\<close>

abbreviation owners_of :: "hbytes list \<Rightarrow> nat option multiset" where
  "owners_of bs \<equiv> mset (map hb_owner bs)"

definition hstate_ok :: "hstate \<Rightarrow> bool" where
  "hstate_ok st \<longleftrightarrow> (let (h, bs, outs) = st in shares_ok h (owners_of bs) \<and> (\<forall>b \<in> set bs. hb_value h b \<noteq> None))"

definition hstate_abs :: "hstate \<Rightarrow> vstate" where
  "hstate_abs st = (let (h, bs, outs) = st in (map (hb_abs h) bs, outs))"

lemma owners_remove: "i < length bs \<Longrightarrow> owners_of bs = add_mset (hb_owner (bs ! i)) (owners_of (remove_nth i bs))"
  by (subst (1) id_take_nth_drop [of i bs]) (simp_all add: remove_nth_def)

lemma owners_update: "i < length bs \<Longrightarrow> owners_of (bs[i := b]) = add_mset (hb_owner b) (owners_of (remove_nth i bs))"
  by (simp add: remove_nth_def upd_conv_take_nth_drop)

lemma remove_nth_subset: "set (remove_nth i bs) \<subseteq> set bs"
  by (auto simp: remove_nth_def dest: in_set_takeD in_set_dropD)

lemma map_remove_nth: "map f (remove_nth i bs) = remove_nth i (map f bs)"
  by (simp add: remove_nth_def take_map drop_map)

lemma list_update_remove: "i < length bs \<Longrightarrow> bs[i := b] = take i (remove_nth i bs) @ b # drop i (remove_nth i bs)"
  by (simp add: remove_nth_def upd_conv_take_nth_drop min_def)

lemma abs_keeps:
  assumes "keeps h h' (owners_of bs)" and "b \<in> set bs"
  shows "hb_value h' b = hb_value h b" and "hb_abs h' b = hb_abs h b"
proof -
  have "hb_owner b \<in># owners_of bs" using assms(2) by simp
  from hb_value_keeps [OF assms(1) this] show "hb_value h' b = hb_value h b" .
  then show "hb_abs h' b = hb_abs h b" by (simp add: hb_abs_def)
qed

text \<open>The three shapes of a step.\<close>

lemma step_append:
  assumes "hstate_ok (h, bs, outs)" and "gives h (owners_of bs) b h' x"
  shows "hstate_ok (h', bs @ [b], outs) \<and> hstate_abs (h', bs @ [b], outs) = (map (hb_abs h) bs @ [x], outs)"
  using assms abs_keeps [of h h' bs] by (auto simp: hstate_ok_def hstate_abs_def gives_def)

lemma step_remove:
  assumes "hstate_ok (h, bs, outs)" and "shares_ok h' (owners_of (remove_nth i bs))" and "keeps h h' (owners_of (remove_nth i bs))"
  shows "hstate_ok (h', remove_nth i bs, outs') \<and> hstate_abs (h', remove_nth i bs, outs') = (remove_nth i (map (hb_abs h) bs), outs')"
  using assms abs_keeps [OF assms(3)] remove_nth_subset [of i bs]
  by (auto simp: hstate_ok_def hstate_abs_def simp flip: map_remove_nth)

lemma step_update:
  assumes "hstate_ok (h, bs, outs)" and i: "i < length bs" and g: "gives h (owners_of (remove_nth i bs)) b h' x"
  shows "hstate_ok (h', bs[i := b], outs) \<and> hstate_abs (h', bs[i := b], outs) = ((map (hb_abs h) bs)[i := x], outs)"
proof -
  have k: "keeps h h' (owners_of (remove_nth i bs))" using g by (simp add: gives_def)
  have "hb_value h' c \<noteq> None" if "c \<in> set (bs[i := b])" for c
  proof -
    from that i have "c = b \<or> c \<in> set (remove_nth i bs)"
      by (auto simp: list_update_remove dest: in_set_takeD in_set_dropD)
    with g abs_keeps(1) [OF k, of c] assms(1) remove_nth_subset [of i bs] show ?thesis
      by (auto simp: gives_def hstate_ok_def)
  qed
  moreover have "map (hb_abs h') (bs[i := b]) = (map (hb_abs h) bs)[i := x]"
  proof -
    have "map (hb_abs h') (remove_nth i bs) = map (hb_abs h) (remove_nth i bs)" using abs_keeps(2) [OF k] by simp
    moreover have "hb_abs h' b = x" using g by (simp add: gives_def)
    ultimately show ?thesis using i
      by (auto simp: list_update_remove take_map drop_map simp flip: map_remove_nth dest: in_set_takeD in_set_dropD)
  qed
  moreover have "shares_ok h' (owners_of (bs[i := b]))" using g unfolding owners_update [OF i] by (simp add: gives_def)
  ultimately show ?thesis by (simp add: hstate_ok_def hstate_abs_def)
qed

lemma in_place_step:
  assumes "refines_in_place f g" and ok: "hstate_ok (h, bs, outs)" and i: "i < length bs"
  shows "\<exists>st'. replace_with f i (h, bs, outs) = Some st' \<and> hstate_ok st' \<and>
    hstate_abs st' = ((map (hb_abs h) bs)[i := g (map (hb_abs h) bs ! i)], outs)"
proof -
  have "shares_ok h (add_mset (hb_owner (bs ! i)) (owners_of (remove_nth i bs)))" "hb_value h (bs ! i) \<noteq> None"
    using ok i owners_remove [OF i] by (auto simp: hstate_ok_def)
  with assms(1) obtain b h' where b: "f (bs ! i) h = Some (b, h')" "gives h (owners_of (remove_nth i bs)) b h' (g (hb_abs h (bs ! i)))"
    unfolding refines_in_place_def by blast
  from step_update [OF ok i b(2)] b(1) i show ?thesis by (simp add: replace_with_def)
qed

lemma new_step:
  assumes "refines_new f g" and ok: "hstate_ok (h, bs, outs)" and i: "i < length bs"
  shows "\<exists>st'. append_with f i (h, bs, outs) = Some st' \<and> hstate_ok st' \<and>
    hstate_abs st' = (map (hb_abs h) bs @ [g (map (hb_abs h) bs ! i)], outs)"
proof -
  have "shares_ok h (owners_of bs)" "hb_owner (bs ! i) \<in># owners_of bs" "hb_value h (bs ! i) \<noteq> None"
    using ok i by (auto simp: hstate_ok_def)
  with assms(1) obtain b h' where b: "f (bs ! i) h = Some (b, h')" "gives h (owners_of bs) b h' (g (hb_abs h (bs ! i)))"
    unfolding refines_new_def by blast
  from step_append [OF ok b(2)] b(1) i show ?thesis by (simp add: append_with_def)
qed

lemma hb_exec_refines:
  assumes ok: "hstate_ok (h, bs, outs)" and i: "\<And>i. op_index oper = Some i \<Longrightarrow> i < length bs"
  shows "\<exists>st'. hb_exec oper (h, bs, outs) = Some st' \<and> hstate_ok st' \<and> hstate_abs st' = value_exec oper (map (hb_abs h) bs, outs)"
proof -
  have sh: "shares_ok h (owners_of bs)" using ok by (simp add: hstate_ok_def)
  have rm: "shares_ok h (add_mset (hb_owner (bs ! i)) (owners_of (remove_nth i bs)))" "hb_value h (bs ! i) \<noteq> None"
    if "i < length bs" for i
    using ok that owners_remove [OF that] by (auto simp: hstate_ok_def)
  show ?thesis
  proof (cases oper)
    case (NewBorrowed v)
    have "gives h (owners_of bs) \<lparr>hb_slice = Ext v, hb_owner = None, hb_utf8 = 0, hb_secret = False\<rparr> h (bytes_from_bytes v)"
      using sh by (simp add: gives_def keeps_refl hb_value_def hb_abs_def bytes_from_bytes_def)
    from step_append [OF ok this] NewBorrowed show ?thesis by simp
  next
    case (NewVec v spare)
    obtain b h' where b: "hb_from_vec v spare 0 False h = (b, h')" by fastforce
    from step_append [OF ok hb_from_vec_gives [OF sh b]] NewVec b show ?thesis
      by (simp add: bytes_from_vec_def owned_from_vec_def)
  next
    case (NewSecret v spare)
    obtain b h' where b: "hb_from_vec v spare 0 True h = (b, h')" by fastforce
    from step_append [OF ok hb_from_vec_gives [OF sh b]] NewSecret b show ?thesis
      by (simp add: bytes_from_secret_def owned_from_vec_def)
  next
    case (OpDrop j)
    then have j: "j < length bs" using i by simp
    from hb_drop_ok [OF rm(1) [OF j]] obtain h' where h': "hb_drop (bs ! j) h = Some h'"
      "shares_ok h' (owners_of (remove_nth j bs))" "keeps h h' (owners_of (remove_nth j bs))" by blast
    from step_remove [OF ok h'(2,3)] h'(1) OpDrop show ?thesis by simp
  next
    case (OpIntoVec j)
    then have j: "j < length bs" using i by simp
    obtain v where v: "hb_value h (bs ! j) = Some v" using rm(2) [OF j] by blast
    from hb_into_vec_ok [OF rm(1) [OF j] v] obtain h' where h': "hb_into_vec (bs ! j) h = Some (v, h')"
      "shares_ok h' (owners_of (remove_nth j bs))" "keeps h h' (owners_of (remove_nth j bs))" by blast
    from step_remove [OF ok h'(2,3)] h'(1) OpIntoVec j v show ?thesis by (simp add: hb_abs_def)
  qed (use i new_step [OF clone_refines ok] new_step [OF using_value_refines ok] in_place_step [OF owning_refines ok]
      in_place_step [OF make_owning_refines ok] in_place_step [OF secret_refines ok] in simp_all)
qed

lemma hb_run_refines:
  assumes "hstate_ok st"
  shows "\<exists>st'. hb_run opers st = Some st' \<and> hstate_ok st' \<and> hstate_abs st' = value_run opers (hstate_abs st)"
  using assms
proof (induction opers arbitrary: st)
  case (Cons oper opers)
  obtain h bs outs where st: "st = (h, bs, outs)" by (cases st)
  show ?case
  proof (cases "\<exists>i. op_index oper = Some i \<and> length bs \<le> i")
    case True
    with Cons.IH [OF Cons.prems] st show ?thesis by (auto simp: hstate_abs_def)
  next
    case False
    then have idx: "op_index oper = Some i \<Longrightarrow> i < length bs" for i by (meson not_le)
    from hb_exec_refines [OF Cons.prems [unfolded st], of oper, OF idx] obtain st1 where
      st1: "hb_exec oper st = Some st1" "hstate_ok st1" "hstate_abs st1 = value_exec oper (hstate_abs st)"
      by (auto simp: st hstate_abs_def)
    have "hb_run (oper # opers) st = hb_run opers st1" "value_run (oper # opers) (hstate_abs st) = value_run opers (hstate_abs st1)"
      using False st st1 by (auto simp: hstate_abs_def split: option.splits)
    with Cons.IH [OF st1(2)] show ?thesis by simp
  qed
qed simp

definition hstate_new :: hstate where
  "hstate_new = (heap_new, [], [])"

section \<open>Properties\<close>

text \<open>C17: strings that share memory behave as values.  Every program of operations on byte strings runs without
  using memory that was given back or not written, its strings and the vectors it makes have the values they
  have when each string is a value of its own, and when no string is left, nothing is allocated.\<close>

theorem shared_bytes_refine_values:
  "\<exists>h bs outs. hb_run opers hstate_new = Some (h, bs, outs) \<and> value_run opers ([], []) = (map (hb_abs h) bs, outs) \<and>
     (bs = [] \<longrightarrow> cells h = (\<lambda>_. None))"
proof -
  have "hstate_ok hstate_new"
    by (simp add: hstate_ok_def hstate_new_def heap_new_def shares_ok_def rc_of_def)
  from hb_run_refines [OF this, of opers] obtain h bs outs where
    "hb_run opers hstate_new = Some (h, bs, outs)" "hstate_ok (h, bs, outs)"
    "hstate_abs (h, bs, outs) = value_run opers (hstate_abs hstate_new)" by (metis prod_cases3)
  then show ?thesis by (auto simp: hstate_abs_def hstate_new_def hstate_ok_def dest: shares_empty)
qed

theorem shared_bytes_refine_values_witness:
  "\<exists>h outs. hb_run [NewVec ''abcd'' 2, OpUsing 0 1 2 PolRecheck, OpDrop 0, OpIntoVec 0] hstate_new = Some (h, [], outs) \<and>
     outs = [''bc''] \<and> cells h = (\<lambda>_. None)"
proof -
  let ?ops = "[NewVec ''abcd'' 2, OpUsing 0 1 2 PolRecheck, OpDrop 0, OpIntoVec 0]"
  have v: "value_run ?ops ([], []) = ([], [''bc''])" by code_simp
  from shared_bytes_refine_values [of ?ops] v show ?thesis by auto
qed

text \<open>A secret stays in memory.  When the last reference to an owning secret string is dropped, its buffer goes back to
  the allocator with the secret in it, although the documentation of secret strings promises that it is
  zeroed out.\<close>

lemma secret_not_zeroed:
  assumes "v \<noteq> []"
  shows "\<exists>h. hb_run [NewSecret v spare, OpDrop 0] hstate_new = Some (h, [], []) \<and>
    given_back h = [map Some v @ replicate spare None]"
  using assms by (simp add: hstate_new_def heap_new_def hb_from_vec_def owned_bytes_from_vec_def os_from_vec_def thinarc_new_def
      hb_drop_def thinarc_drop_def os_drop_def remove_nth_def)

end
