(* ===== verification/Owning.thy ===== *)
theory Owning
  imports Newtypes Codec
begin

text \<open>
  Ownership of whole messages: \<open>owning.rs\<close> and the \<open>owning\<close> methods of \<open>ircmsg\<close>, which end in a lifetime extended by a
  transmute or by a \<open>'static\<close> return type.  Messages are modelled here with the flags of their strings; forgetting
  the flags gives the messages of \<open>Codec\<close>.  An \<open>Arc\<close> is its value and the number of its handles.
\<close>

section \<open>Messages with the flags of their strings\<close>

record fargs =
  fa_words :: "ircbytes list"
  fa_owned :: bool
  fa_long :: "ircbytes option"

record fuserhost =
  fu_user :: "ircbytes option"
  fu_host :: ircbytes

record fsource =
  fs_nick :: ircbytes
  fs_userhost :: "fuserhost option"

record fshared =
  sh_source :: fsource
  sh_count :: nat

datatype fkind = FNumeric numeric | FCmd ircbytes

type_synonym ftags = "(ircbytes \<times> ircbytes) list"

record fserver_msg =
  fsm_tags :: ftags
  fsm_source :: "fshared option"
  fsm_kind :: fkind
  fsm_args :: fargs

record fclient_msg =
  fcm_tags :: ftags
  fcm_cmd :: ircbytes
  fcm_args :: fargs

section \<open>Becoming owners\<close>

text \<open>\<open>MakeOwning\<close> for \<open>Cow\<close> (\<open>owning.rs\<close>).\<close>

definition cow_make_owning :: "cow \<Rightarrow> cow" where
  "cow_make_owning c = (case c of Borrowed b \<Rightarrow> Owned b | Owned b \<Rightarrow> Owned b)"

definition args_owning :: "fargs \<Rightarrow> fargs" where
  "args_owning a = \<lparr>fa_words = map nt_owning (fa_words a), fa_owned = True, fa_long = map_option nt_owning (fa_long a)\<rparr>"

definition tags_owning :: "ftags \<Rightarrow> ftags" where
  "tags_owning t = map (\<lambda>(k, v). (nt_make_owning k, nt_make_owning v)) t"

definition uh_owning :: "fuserhost \<Rightarrow> fuserhost" where
  "uh_owning u = \<lparr>fu_user = map_option nt_owning (fu_user u), fu_host = nt_owning (fu_host u)\<rparr>"

definition src_owning :: "fsource \<Rightarrow> fsource" where
  "src_owning s = \<lparr>fs_nick = nt_owning (fs_nick s), fs_userhost = map_option uh_owning (fs_userhost s)\<rparr>"

definition shared_new :: "fsource \<Rightarrow> fshared" where
  "shared_new s = \<lparr>sh_source = s, sh_count = 1\<rparr>"

text \<open>\<open>Arc::try_unwrap\<close> gives the value to the last handle, and the handle back to any other; a clone of a source
  shares its strings or copies them, with the same value and flags.\<close>

definition arc_try_unwrap :: "fshared \<Rightarrow> (fsource, fshared) result" where
  "arc_try_unwrap s = (if sh_count s = 1 then Inr (sh_source s) else Inl s)"

definition shared_owning :: "fshared \<Rightarrow> fsource" where
  "shared_owning s = (case arc_try_unwrap s of Inr src \<Rightarrow> src_owning src | Inl arc \<Rightarrow> src_owning (sh_source arc))"

definition kind_owning :: "fkind \<Rightarrow> fkind" where
  "kind_owning k = (case k of FNumeric num \<Rightarrow> FNumeric num | FCmd c \<Rightarrow> FCmd (nt_owning c))"

definition server_owning :: "fserver_msg \<Rightarrow> fserver_msg" where
  "server_owning m =
     (let source = map_option (\<lambda>src. shared_new (shared_owning src)) (fsm_source m)
      in \<lparr>fsm_tags = tags_owning (fsm_tags m), fsm_source = source, fsm_kind = kind_owning (fsm_kind m),
          fsm_args = args_owning (fsm_args m)\<rparr>)"

definition client_owning :: "fclient_msg \<Rightarrow> fclient_msg" where
  "client_owning m =
     \<lparr>fcm_tags = tags_owning (fcm_tags m), fcm_cmd = nt_owning (fcm_cmd m), fcm_args = args_owning (fcm_args m)\<rparr>"

section \<open>Values and strings of a message\<close>

definition args_value :: "fargs \<Rightarrow> args" where
  "args_value a = \<lparr>words = map b_value (fa_words a), long = map_option b_value (fa_long a)\<rparr>"

definition tags_value :: "ftags \<Rightarrow> tags" where
  "tags_value t = map (\<lambda>(k, v). (b_value k, b_value v)) t"

definition uh_value :: "fuserhost \<Rightarrow> UserHost" where
  "uh_value u = \<lparr>uh_user = map_option b_value (fu_user u), uh_host = b_value (fu_host u)\<rparr>"

definition src_value :: "fsource \<Rightarrow> source" where
  "src_value s = \<lparr>src_nick = b_value (fs_nick s), userhost = map_option uh_value (fs_userhost s)\<rparr>"

definition kind_value :: "fkind \<Rightarrow> ServerMsgKindRaw" where
  "kind_value k = (case k of FNumeric n \<Rightarrow> KNumeric n | FCmd c \<Rightarrow> KCmd (b_value c))"

definition server_value :: "fserver_msg \<Rightarrow> server_msg" where
  "server_value m =
     \<lparr>sm_tags = tags_value (fsm_tags m), sm_source = map_option (\<lambda>s. src_value (sh_source s)) (fsm_source m),
      sm_kind = kind_value (fsm_kind m), sm_args = args_value (fsm_args m)\<rparr>"

definition client_value :: "fclient_msg \<Rightarrow> client_msg" where
  "client_value m =
     \<lparr>cm_tags = tags_value (fcm_tags m), cm_cmd = b_value (fcm_cmd m), cm_args = args_value (fcm_args m)\<rparr>"

definition args_strings :: "fargs \<Rightarrow> ircbytes set" where
  "args_strings a = set (fa_words a) \<union> set_option (fa_long a)"

definition tags_strings :: "ftags \<Rightarrow> ircbytes set" where
  "tags_strings t = fst ` set t \<union> snd ` set t"

definition uh_strings :: "fuserhost \<Rightarrow> ircbytes set" where
  "uh_strings u = insert (fu_host u) (set_option (fu_user u))"

definition src_strings :: "fsource \<Rightarrow> ircbytes set" where
  "src_strings s = insert (fs_nick s) (\<Union> (uh_strings ` set_option (fs_userhost s)))"

definition kind_strings :: "fkind \<Rightarrow> ircbytes set" where
  "kind_strings k = (case k of FNumeric _ \<Rightarrow> {} | FCmd c \<Rightarrow> {c})"

text \<open>The strings outside the tags, and all of them.\<close>

definition server_body :: "fserver_msg \<Rightarrow> ircbytes set" where
  "server_body m =
     \<Union> ((\<lambda>s. src_strings (sh_source s)) ` set_option (fsm_source m)) \<union> kind_strings (fsm_kind m) \<union> args_strings (fsm_args m)"

definition client_body :: "fclient_msg \<Rightarrow> ircbytes set" where
  "client_body m = insert (fcm_cmd m) (args_strings (fcm_args m))"

text \<open>A string that holds no borrow: it owns its bytes, or has none.\<close>

definition no_borrow :: "ircbytes \<Rightarrow> bool" where
  "no_borrow b \<longleftrightarrow> is_owning b \<or> b_value b = []"

section \<open>Lemmas\<close>

lemma nt_owning_facts [simp]:
  "b_value (nt_owning b) = b_value b" "no_borrow (nt_owning b)" "is_secret (nt_owning b) = is_secret b" "b_utf8 (nt_owning b) = b_utf8 b"
  by (auto simp: nt_owning_def owning_def owning_force_def no_borrow_def is_owning_def is_secret_def owned_from_vec_def)

lemma nt_make_owning_facts [simp]:
  "b_value (nt_make_owning b) = b_value b" "no_borrow (nt_make_owning b)" "is_secret (nt_make_owning b) \<longleftrightarrow> is_secret b \<and> is_owning b"
  by (auto simp: nt_make_owning_def make_owning_secret)
    (auto simp: make_owning_def owning_force_def no_borrow_def is_owning_def owned_from_vec_def)

lemma cow_make_owning_facts: "cow_ref (cow_make_owning c) = cow_ref c" "\<exists>v. cow_make_owning c = Owned v"
  by (cases c; simp add: cow_make_owning_def)+

text \<open>What the parts of a message become.\<close>

lemma shared_owning_eq: "shared_owning s = src_owning (sh_source s)"
  by (simp add: shared_owning_def arc_try_unwrap_def)

lemma owning_values [simp]:
  "args_value (args_owning a) = args_value a" "tags_value (tags_owning t) = tags_value t" "uh_value (uh_owning u) = uh_value u"
  "kind_value (kind_owning k) = kind_value k"
  by (auto simp: args_value_def args_owning_def tags_value_def tags_owning_def uh_value_def uh_owning_def kind_value_def kind_owning_def
      option.map_comp comp_def split: fkind.split)

lemma src_value_owning [simp]: "src_value (src_owning s) = src_value s"
  by (simp add: src_value_def src_owning_def option.map_comp comp_def)

lemma owning_strings:
  "args_strings (args_owning a) = nt_owning ` args_strings a" "tags_strings (tags_owning t) = nt_make_owning ` tags_strings t"
  "uh_strings (uh_owning u) = nt_owning ` uh_strings u" "kind_strings (kind_owning k) = nt_owning ` kind_strings k"
  by (auto simp: args_strings_def args_owning_def tags_strings_def tags_owning_def uh_strings_def uh_owning_def kind_strings_def
      kind_owning_def image_Un option.set_map image_image split: fkind.split) force+

lemma src_strings_owning: "src_strings (src_owning s) = nt_owning ` src_strings s"
  by (auto simp: src_strings_def src_owning_def option.set_map owning_strings)

lemma owning_tags [simp]:
  "fsm_tags (server_owning m) = tags_owning (fsm_tags m)" "fcm_tags (client_owning c) = tags_owning (fcm_tags c)"
  by (simp_all add: server_owning_def client_owning_def)

lemma server_body_owning: "server_body (server_owning m) = nt_owning ` server_body m"
  by (auto simp: server_body_def server_owning_def owning_strings image_Un shared_new_def shared_owning_eq src_strings_owning
      option.set_map Let_def image_UN)

lemma client_body_owning: "client_body (client_owning m) = nt_owning ` client_body m"
  by (auto simp: client_body_def client_owning_def owning_strings)

section \<open>Properties\<close>

text \<open>C34: a message made owning may outlive what it was parsed from.  No string of it borrows any more, the list of its words is
  owned itself, and its source is not shared with another message, so extending its lifetime is sound; the message is
  the same, so it is written and compared as before, and every string but those of the tags is secret exactly if it
  was.  A secret that a tag borrowed is not secret any more.\<close>

theorem owning_outlives_buffer:
  "server_value (server_owning m) = server_value m \<and> client_value (client_owning c) = client_value c \<and>
   (\<forall>b \<in> server_body (server_owning m) \<union> tags_strings (fsm_tags (server_owning m)). no_borrow b) \<and>
   (\<forall>b \<in> client_body (client_owning c) \<union> tags_strings (fcm_tags (client_owning c)). no_borrow b) \<and>
   fa_owned (fsm_args (server_owning m)) \<and> fa_owned (fcm_args (client_owning c)) \<and>
   (\<forall>s \<in> set_option (fsm_source (server_owning m)). sh_count s = 1) \<and>
   (\<exists>f. server_body (server_owning m) = f ` server_body m \<and> client_body (client_owning c) = f ` client_body c \<and>
        (\<forall>b. is_secret (f b) = is_secret b \<and> b_value (f b) = b_value b)) \<and>
   (\<forall>b \<in> tags_strings (fsm_tags m). is_secret b \<and> \<not> is_owning b \<longrightarrow>
      (\<exists>b' \<in> tags_strings (fsm_tags (server_owning m)). b_value b' = b_value b \<and> \<not> is_secret b')) \<and>
   (\<forall>b \<in> tags_strings (fcm_tags c). is_secret b \<and> \<not> is_owning b \<longrightarrow>
      (\<exists>b' \<in> tags_strings (fcm_tags (client_owning c)). b_value b' = b_value b \<and> \<not> is_secret b'))"
proof (intro conjI)
  show "server_value (server_owning m) = server_value m"
    by (simp add: server_value_def server_owning_def option.map_comp comp_def shared_new_def shared_owning_eq)
  show "client_value (client_owning c) = client_value c" by (simp add: client_value_def client_owning_def)
  show "\<forall>b \<in> server_body (server_owning m) \<union> tags_strings (fsm_tags (server_owning m)). no_borrow b"
    by (auto simp: server_body_owning owning_strings)
  show "\<forall>b \<in> client_body (client_owning c) \<union> tags_strings (fcm_tags (client_owning c)). no_borrow b"
    by (auto simp: client_body_owning owning_strings)
  show "fa_owned (fsm_args (server_owning m))" "fa_owned (fcm_args (client_owning c))"
    "\<forall>s \<in> set_option (fsm_source (server_owning m)). sh_count s = 1"
    by (auto simp: server_owning_def client_owning_def args_owning_def shared_new_def)
  show "\<exists>f. server_body (server_owning m) = f ` server_body m \<and> client_body (client_owning c) = f ` client_body c \<and>
      (\<forall>b. is_secret (f b) = is_secret b \<and> b_value (f b) = b_value b)"
    using server_body_owning client_body_owning nt_owning_facts by blast
  show "\<forall>b \<in> tags_strings (fsm_tags m). is_secret b \<and> \<not> is_owning b \<longrightarrow>
      (\<exists>b' \<in> tags_strings (fsm_tags (server_owning m)). b_value b' = b_value b \<and> \<not> is_secret b')"
    by (auto simp: owning_strings)
  show "\<forall>b \<in> tags_strings (fcm_tags c). is_secret b \<and> \<not> is_owning b \<longrightarrow>
      (\<exists>b' \<in> tags_strings (fcm_tags (client_owning c)). b_value b' = b_value b \<and> \<not> is_secret b')"
    by (auto simp: owning_strings)
qed

definition borrowed_msg :: fserver_msg where
  "borrowed_msg =
     \<lparr>fsm_tags = [(bytes_from_bytes ''key'', secret (bytes_from_bytes ''hunter2''))],
      fsm_source = Some \<lparr>sh_source = \<lparr>fs_nick = bytes_from_bytes ''me'', fs_userhost = None\<rparr>, sh_count = 2\<rparr>,
      fsm_kind = FCmd (bytes_from_bytes ''PING''), fsm_args = \<lparr>fa_words = [bytes_from_bytes ''x''], fa_owned = False, fa_long = None\<rparr>\<rparr>"

theorem owning_outlives_buffer_witness:
  "server_value (server_owning borrowed_msg) = server_value borrowed_msg \<and>
   (\<exists>b \<in> server_body (server_owning borrowed_msg). b_value b = ''PING'' \<and> no_borrow b) \<and>
   (\<exists>b \<in> tags_strings (fsm_tags (server_owning borrowed_msg)). b_value b = ''hunter2'' \<and> \<not> is_secret b)"
proof -
  have "secret (bytes_from_bytes ''hunter2'') \<in> tags_strings (fsm_tags borrowed_msg)"
    by (simp add: borrowed_msg_def tags_strings_def)
  moreover have "is_secret (secret (bytes_from_bytes ''hunter2''))" "\<not> is_owning (secret (bytes_from_bytes ''hunter2''))"
    "b_value (secret (bytes_from_bytes ''hunter2'')) = ''hunter2''" by code_simp+
  moreover have "\<exists>b \<in> server_body borrowed_msg. b_value b = ''PING''"
    by (simp add: borrowed_msg_def server_body_def kind_strings_def bytes_from_bytes_def)
  then have "\<exists>b \<in> server_body (server_owning borrowed_msg). b_value b = ''PING''" by (simp add: server_body_owning)
  ultimately show ?thesis using owning_outlives_buffer [of borrowed_msg] by fastforce
qed

end
