(* ===== verification/Tls.thy ===== *)
theory Tls
  imports Codec "HOL-Library.Monad_Syntax"
begin

text \<open>
  TLS configurations, \<open>client/tls.rs\<close>.  The file system and the crates \<open>rustls\<close>, \<open>rustls_pemfile\<close> and \<open>rustls_native_certs\<close> are the
  fields of \<open>tls_env\<close>: what a file holds, the certificates and keys of a PEM text one after the other with the
  error that ends them, the root certificates of the system, whether a certificate can be a trust anchor, whether
  a key fits a chain, the two checks of a handshake signature and the default provider of algorithms.  A panic is
  the outer \<open>None\<close>.
\<close>

section \<open>What other crates do\<close>

type_synonym path = string

datatype 'k pem_item = X509Certificate bytes | Pkcs8Key 'k | OtherItem

datatype tls_error = FileError io_error | BadCertificate nat | BadClientAuth nat | MissingKey

record ('a, 'k, 'd, 'p) tls_env =
  open_file :: "path \<Rightarrow> (bytes, io_error) result"
  pem_certs :: "bytes \<Rightarrow> (bytes, io_error) result list"
  pem_items :: "bytes \<Rightarrow> ('k pem_item, io_error) result list"
  native_certs :: "(bytes list, io_error) result"
  to_anchor :: "bytes \<Rightarrow> ('a, nat) result"
  check_client_auth :: "bytes list \<Rightarrow> 'k \<Rightarrow> nat option"
  default_provider :: "'p option"
  schemes_of :: "'p \<Rightarrow> nat list"
  tls12_signature :: "bytes \<Rightarrow> bytes \<Rightarrow> 'd \<Rightarrow> 'p \<Rightarrow> (unit, nat) result"
  tls13_signature :: "bytes \<Rightarrow> bytes \<Rightarrow> 'd \<Rightarrow> 'p \<Rightarrow> (unit, nat) result"

text \<open>\<open>RootCertStore\<close> of rustls, a list of trust anchors, as its documentation describes it: \<open>add\<close> refuses what is no trust anchor
  and appends what is one, \<open>add_parsable_certificates\<close> leaves out what is none.  What is an anchor is the parameter \<open>to_anchor\<close>.\<close>

definition store_add :: "('a, 'k, 'd, 'p) tls_env \<Rightarrow> bytes \<Rightarrow> 'a list \<Rightarrow> ('a list, nat) result" where
  "store_add env cert roots = (case to_anchor env cert of Inl e \<Rightarrow> Inl e | Inr a \<Rightarrow> Inr (roots @ [a]))"

definition anchors :: "('a, 'k, 'd, 'p) tls_env \<Rightarrow> bytes list \<Rightarrow> 'a list" where
  "anchors env certs = concat (map (\<lambda>c. case to_anchor env c of Inr a \<Rightarrow> [a] | Inl _ \<Rightarrow> []) certs)"

definition add_parsable_certificates :: "('a, 'k, 'd, 'p) tls_env \<Rightarrow> bytes list \<Rightarrow> 'a list \<Rightarrow> 'a list" where
  "add_parsable_certificates env certs roots = roots @ anchors env certs"

section \<open>Trust and verification\<close>

datatype trust = Only "path list" | TrustDefault | Also "path list" | NoVerify

record 'p no_verifier =
  nv_provider :: 'p

definition no_verifier_default :: "('a, 'k, 'd, 'p) tls_env \<Rightarrow> 'p no_verifier option" where
  "no_verifier_default env = map_option (\<lambda>p. \<lparr>nv_provider = p\<rparr>) (default_provider env)"

definition nv_verify_server_cert :: "'p no_verifier \<Rightarrow> bytes \<Rightarrow> bytes list \<Rightarrow> bytes \<Rightarrow> bytes \<Rightarrow> nat \<Rightarrow> (unit, nat) result" where
  "nv_verify_server_cert nv cert chain name ocsp now = Inr ()"

definition nv_verify_tls12_signature ::
  "('a, 'k, 'd, 'p) tls_env \<Rightarrow> 'p no_verifier \<Rightarrow> bytes \<Rightarrow> bytes \<Rightarrow> 'd \<Rightarrow> (unit, nat) result" where
  "nv_verify_tls12_signature env nv message cert dss = tls12_signature env message cert dss (nv_provider nv)"

definition nv_verify_tls13_signature ::
  "('a, 'k, 'd, 'p) tls_env \<Rightarrow> 'p no_verifier \<Rightarrow> bytes \<Rightarrow> bytes \<Rightarrow> 'd \<Rightarrow> (unit, nat) result" where
  "nv_verify_tls13_signature env nv message cert dss = tls12_signature env message cert dss (nv_provider nv)"

definition nv_supported_verify_schemes :: "('a, 'k, 'd, 'p) tls_env \<Rightarrow> 'p no_verifier \<Rightarrow> nat list" where
  "nv_supported_verify_schemes env nv = schemes_of env (nv_provider nv)"

section \<open>Loading\<close>

record tls_config_options =
  tco_trust :: trust
  tco_cert :: "path option"

fun load_pem_loop :: "('a, 'k, 'd, 'p) tls_env \<Rightarrow> (bytes, io_error) result list \<Rightarrow> 'a list \<Rightarrow> ('a list, tls_error) result" where
  "load_pem_loop env [] certs = Inr certs"
| "load_pem_loop env (Inl e # rest) certs = Inl (FileError e)"
| "load_pem_loop env (Inr cert # rest) certs =
     (case store_add env cert certs of Inl e \<Rightarrow> Inl (BadCertificate e) | Inr certs' \<Rightarrow> load_pem_loop env rest certs')"

definition load_pem :: "('a, 'k, 'd, 'p) tls_env \<Rightarrow> path \<Rightarrow> 'a list \<Rightarrow> ('a list, tls_error) result" where
  "load_pem env path certs =
     (case open_file env path of Inl e \<Rightarrow> Inl (FileError e) | Inr file \<Rightarrow> load_pem_loop env (pem_certs env file) certs)"

fun load_client_loop ::
  "('k pem_item, io_error) result list \<Rightarrow> 'k option \<Rightarrow> bytes list \<Rightarrow> ('k option \<times> bytes list, tls_error) result" where
  "load_client_loop [] key certs = Inr (key, certs)"
| "load_client_loop (Inl e # rest) key certs = Inl (FileError e)"
| "load_client_loop (Inr (X509Certificate c) # rest) key certs = load_client_loop rest key (certs @ [c])"
| "load_client_loop (Inr (Pkcs8Key k) # rest) key certs = load_client_loop rest (Some k) certs"
| "load_client_loop (Inr OtherItem # rest) key certs = load_client_loop rest key certs"

definition load_client_cert :: "('a, 'k, 'd, 'p) tls_env \<Rightarrow> path \<Rightarrow> (bytes list \<times> 'k, tls_error) result" where
  "load_client_cert env path =
     (case open_file env path of
        Inl e \<Rightarrow> Inl (FileError e)
      | Inr file \<Rightarrow>
          (case load_client_loop (pem_items env file) None [] of
             Inl e \<Rightarrow> Inl e
           | Inr (None, certs) \<Rightarrow> Inl MissingKey
           | Inr (Some k, certs) \<Rightarrow> Inr (certs, k)))"

section \<open>Building a configuration\<close>

datatype ('a, 'p) verifier = WithNoVerifier "'p no_verifier" | WithRoots "'a list"

record ('a, 'k, 'p) client_config =
  cc_verifier :: "('a, 'p) verifier"
  cc_client_auth :: "(bytes list \<times> 'k) option"

fun load_all :: "('a, 'k, 'd, 'p) tls_env \<Rightarrow> path list \<Rightarrow> 'a list \<Rightarrow> ('a list, tls_error) result" where
  "load_all env [] certs = Inr certs"
| "load_all env (path # paths) certs =
     (case load_pem env path certs of Inl e \<Rightarrow> Inl e | Inr certs' \<Rightarrow> load_all env paths certs')"

definition finish_config ::
  "('a, 'k, 'd, 'p) tls_env \<Rightarrow> ('a, 'p) verifier \<Rightarrow> (bytes list \<times> 'k) option \<Rightarrow> (('a, 'k, 'p) client_config, tls_error) result" where
  "finish_config env verifier cli_auth =
     (case cli_auth of
        Some (certs, key) \<Rightarrow>
          (case check_client_auth env certs key of
             Some e \<Rightarrow> Inl (BadClientAuth e)
           | None \<Rightarrow> Inr \<lparr>cc_verifier = verifier, cc_client_auth = Some (certs, key)\<rparr>)
      | None \<Rightarrow> Inr \<lparr>cc_verifier = verifier, cc_client_auth = None\<rparr>)"

definition cli_auth_of :: "('a, 'k, 'd, 'p) tls_env \<Rightarrow> tls_config_options \<Rightarrow> ((bytes list \<times> 'k) option, tls_error) result" where
  "cli_auth_of env opts =
     (case tco_cert opts of
        Some path \<Rightarrow> (case load_client_cert env path of Inl e \<Rightarrow> Inl e | Inr ck \<Rightarrow> Inr (Some ck))
      | None \<Rightarrow> Inr None)"

definition roots_of :: "('a, 'k, 'd, 'p) tls_env \<Rightarrow> trust \<Rightarrow> ('a list, tls_error) result" where
  "roots_of env t =
     (case (case t of
              TrustDefault \<Rightarrow> map_err FileError (native_certs env)
            | Also _ \<Rightarrow> map_err FileError (native_certs env)
            | _ \<Rightarrow> Inr []) of
        Inl e \<Rightarrow> Inl e
      | Inr natives \<Rightarrow>
          (let certs = add_parsable_certificates env natives [] in
           case t of
             Only paths \<Rightarrow> load_all env paths certs
           | Also paths \<Rightarrow> load_all env paths certs
           | _ \<Rightarrow> Inr certs))"

text \<open>\<open>ClientConfig::builder\<close> panics without a default provider.\<close>

definition tls_build ::
  "('a, 'k, 'd, 'p) tls_env \<Rightarrow> tls_config_options \<Rightarrow> (('a, 'k, 'p) client_config, tls_error) result option" where
  "tls_build env opts =
     (case cli_auth_of env opts of
        Inl e \<Rightarrow> Some (Inl e)
      | Inr cli_auth \<Rightarrow> do {
          p \<leftarrow> default_provider env;
          if tco_trust opts = NoVerify
          then do { nv \<leftarrow> no_verifier_default env; Some (finish_config env (WithNoVerifier nv) cli_auth) }
          else
            (case roots_of env (tco_trust opts) of
               Inl e \<Rightarrow> Some (Inl e)
             | Inr certs \<Rightarrow> Some (finish_config env (WithRoots certs) cli_auth)) })"

section \<open>What is loaded\<close>

text \<open>The certificates of the files of a list, if each can be read to its end.\<close>

definition file_certs :: "('a, 'k, 'd, 'p) tls_env \<Rightarrow> path \<Rightarrow> bytes list option" where
  "file_certs env path =
     (case open_file env path of
        Inr file \<Rightarrow> if \<forall>r \<in> set (pem_certs env file). \<not> isl r then Some (map projr (pem_certs env file)) else None
      | Inl _ \<Rightarrow> None)"

definition paths_of :: "trust \<Rightarrow> path list" where
  "paths_of t = (case t of Only ps \<Rightarrow> ps | Also ps \<Rightarrow> ps | _ \<Rightarrow> [])"

definition uses_natives :: "trust \<Rightarrow> bool" where
  "uses_natives t \<longleftrightarrow> (case t of TrustDefault \<Rightarrow> True | Also _ \<Rightarrow> True | _ \<Rightarrow> False)"

lemma anchors_simps [simp]:
  "anchors env [] = []" "anchors env (c # cs) = (case to_anchor env c of Inr a \<Rightarrow> [a] | Inl _ \<Rightarrow> []) @ anchors env cs"
  "anchors env (cs @ ds) = anchors env cs @ anchors env ds"
  by (simp_all add: anchors_def)

lemma load_pem_loop_Inr:
  "load_pem_loop env rs certs = Inr certs' \<longleftrightarrow>
   (\<forall>r \<in> set rs. \<not> isl r \<and> \<not> isl (to_anchor env (projr r))) \<and> certs' = certs @ anchors env (map projr rs)"
proof (induction env rs certs rule: load_pem_loop.induct)
  case (3 env cert rest certs)
  show ?case
  proof (cases "to_anchor env cert")
    case (Inr a)
    then have "store_add env cert certs = Inr (certs @ [a])" by (simp add: store_add_def)
    from 3 [OF this] Inr show ?thesis by (simp add: store_add_def)
  qed (simp add: store_add_def)
qed auto

definition trusted_file :: "('a, 'k, 'd, 'p) tls_env \<Rightarrow> path \<Rightarrow> bool" where
  "trusted_file env p \<longleftrightarrow> (\<exists>cs. file_certs env p = Some cs \<and> (\<forall>c \<in> set cs. \<not> isl (to_anchor env c)))"

definition file_anchors :: "('a, 'k, 'd, 'p) tls_env \<Rightarrow> path \<Rightarrow> 'a list" where
  "file_anchors env p = anchors env (the (file_certs env p))"

lemma load_pem_Inr: "load_pem env p certs = Inr certs' \<longleftrightarrow> trusted_file env p \<and> certs' = certs @ file_anchors env p"
  by (cases "open_file env p") (auto simp: load_pem_def load_pem_loop_Inr trusted_file_def file_certs_def file_anchors_def)

lemma load_all_Inr:
  "load_all env ps certs = Inr certs' \<longleftrightarrow> (\<forall>p \<in> set ps. trusted_file env p) \<and> certs' = certs @ concat (map (file_anchors env) ps)"
proof (induction env ps certs rule: load_all.induct)
  case (2 env p ps certs)
  show ?case
  proof (cases "load_pem env p certs")
    case (Inl e)
    with load_pem_Inr [of env p certs] show ?thesis by auto
  next
    case (Inr c)
    with 2 load_pem_Inr [of env p certs c] show ?thesis by auto
  qed
qed auto

text \<open>The anchors a choice of trust stands for.\<close>

definition native_anchors :: "('a, 'k, 'd, 'p) tls_env \<Rightarrow> trust \<Rightarrow> 'a list" where
  "native_anchors env t = (if uses_natives t then anchors env (projr (native_certs env)) else [])"

lemma roots_of_Inr:
  "roots_of env t = Inr rs \<longleftrightarrow>
   (uses_natives t \<longrightarrow> \<not> isl (native_certs env)) \<and> (\<forall>p \<in> set (paths_of t). trusted_file env p) \<and>
   rs = native_anchors env t @ concat (map (file_anchors env) (paths_of t))"
  by (cases t; cases "native_certs env")
    (auto simp: roots_of_def add_parsable_certificates_def load_all_Inr uses_natives_def paths_of_def native_anchors_def)

text \<open>The client's chain and key: every certificate of the file in its order, and the last key.\<close>

definition item_certs :: "('k pem_item, io_error) result list \<Rightarrow> bytes list" where
  "item_certs items = concat (map (\<lambda>r. case r of Inr (X509Certificate c) \<Rightarrow> [c] | _ \<Rightarrow> []) items)"

definition item_keys :: "('k pem_item, io_error) result list \<Rightarrow> 'k list" where
  "item_keys items = concat (map (\<lambda>r. case r of Inr (Pkcs8Key k) \<Rightarrow> [k] | _ \<Rightarrow> []) items)"

lemma load_client_loop_Inr:
  "load_client_loop items key certs = Inr (key', certs') \<longleftrightarrow>
   (\<forall>r \<in> set items. \<not> isl r) \<and> certs' = certs @ item_certs items \<and>
   key' = (if item_keys items = [] then key else Some (last (item_keys items)))"
  by (induction items key certs rule: load_client_loop.induct) (auto simp: item_certs_def item_keys_def)

lemma load_client_cert_Inr:
  "load_client_cert env path = Inr (certs, k) \<longleftrightarrow>
   (\<exists>file. open_file env path = Inr file \<and> (\<forall>r \<in> set (pem_items env file). \<not> isl r) \<and>
      certs = item_certs (pem_items env file) \<and> item_keys (pem_items env file) \<noteq> [] \<and> k = last (item_keys (pem_items env file)))"
proof (cases "open_file env path")
  case (Inr fl)
  show ?thesis
  proof (cases "load_client_loop (pem_items env fl) None []")
    case (Inl e)
    with Inr load_client_loop_Inr [of "pem_items env fl" None "[]"] show ?thesis by (auto simp: load_client_cert_def)
  next
    case loaded: (Inr kc)
    obtain key' certs' where "kc = (key', certs')" by force
    with Inr loaded load_client_loop_Inr [of "pem_items env fl" None "[]" key' certs'] show ?thesis
      by (cases key') (auto simp: load_client_cert_def split: if_splits)
  qed
qed (simp add: load_client_cert_def)

text \<open>A verifier that skips the server's identity also checks the signatures of TLS 1.3 by the rules of TLS 1.2.\<close>

lemma tls13_checked_as_tls12:
  "nv_verify_tls13_signature env nv m c d = nv_verify_tls12_signature env nv m c d"
  by (simp add: nv_verify_tls13_signature_def nv_verify_tls12_signature_def)

section \<open>Properties\<close>

text \<open>C35: a server is trusted exactly as the options say.  A configuration that is built verifies the server unless the options
  say not to; it then trusts the anchors of the system, if asked for, and those of every certificate of every
  file that was named, in order, with no file and no certificate left out; and the client presents the whole
  chain of its file with the last key, or nothing if it has no file.\<close>

theorem trust_is_exact:
  assumes "tls_build env opts = Some (Inr cfg)"
  shows "(case cc_verifier cfg of
      WithNoVerifier _ \<Rightarrow> tco_trust opts = NoVerify
    | WithRoots rs \<Rightarrow> tco_trust opts \<noteq> NoVerify \<and> (\<forall>p \<in> set (paths_of (tco_trust opts)). trusted_file env p) \<and>
        rs = native_anchors env (tco_trust opts) @ concat (map (file_anchors env) (paths_of (tco_trust opts)))) \<and>
    (case tco_cert opts of
      None \<Rightarrow> cc_client_auth cfg = None
    | Some path \<Rightarrow> \<exists>file. open_file env path = Inr file \<and> item_keys (pem_items env file) \<noteq> [] \<and>
        cc_client_auth cfg = Some (item_certs (pem_items env file), last (item_keys (pem_items env file))))"
proof -
  from assms obtain ca v where ca: "cli_auth_of env opts = Inr ca" and cfg: "finish_config env v ca = Inr cfg"
    and v: "if tco_trust opts = NoVerify then \<exists>nv. v = WithNoVerifier nv else \<exists>rs. roots_of env (tco_trust opts) = Inr rs \<and> v = WithRoots rs"
    by (auto simp: tls_build_def split: sum.splits bind_splits if_splits)
  from cfg have "cc_verifier cfg = v" "cc_client_auth cfg = ca" by (auto simp: finish_config_def split: option.splits prod.splits)
  moreover have "case tco_cert opts of None \<Rightarrow> ca = None
    | Some path \<Rightarrow> \<exists>file. open_file env path = Inr file \<and> item_keys (pem_items env file) \<noteq> [] \<and>
        ca = Some (item_certs (pem_items env file), last (item_keys (pem_items env file)))"
    using ca by (auto simp: cli_auth_of_def load_client_cert_Inr split: option.splits sum.splits)
  ultimately show ?thesis using v by (auto simp: roots_of_Inr split: if_splits)
qed

text \<open>A system with one root certificate and one file, which holds a certificate and a key.\<close>

definition example_env :: "(bytes, bytes, unit, unit) tls_env" where
  "example_env =
     \<lparr>open_file = (\<lambda>p. if p = ''me.pem'' then Inr ''ck'' else Inl UnexpectedEof), pem_certs = (\<lambda>f. [Inr ''c'']),
      pem_items = (\<lambda>f. [Inr (X509Certificate ''c''), Inr OtherItem, Inr (Pkcs8Key ''k'')]), native_certs = Inr [''root''],
      to_anchor = Inr, check_client_auth = (\<lambda>certs k. None), default_provider = Some (), schemes_of = (\<lambda>p. []),
      tls12_signature = (\<lambda>m c d p. Inr ()), tls13_signature = (\<lambda>m c d p. Inr ())\<rparr>"

theorem trust_is_exact_witness:
  "\<exists>cfg. tls_build example_env \<lparr>tco_trust = Also [''me.pem''], tco_cert = Some ''me.pem''\<rparr> = Some (Inr cfg) \<and>
     cc_verifier cfg = WithRoots [''root'', ''c''] \<and> cc_client_auth cfg = Some ([''c''], ''k'')"
proof -
  let ?o = "\<lparr>tco_trust = Also [''me.pem''], tco_cert = Some ''me.pem''\<rparr>"
  obtain cfg where b: "tls_build example_env ?o = Some (Inr cfg)"
    by (simp add: tls_build_def example_env_def cli_auth_of_def load_client_cert_def roots_of_def add_parsable_certificates_def
        load_pem_def store_add_def finish_config_def)
  have "native_anchors example_env (Also [''me.pem'']) = [''root'']" "file_anchors example_env ''me.pem'' = [''c'']"
    by (simp_all add: native_anchors_def uses_natives_def file_anchors_def file_certs_def example_env_def)
  with trust_is_exact [OF b] b show ?thesis
    by (auto simp: paths_of_def item_certs_def item_keys_def split: verifier.splits) (simp_all add: example_env_def)
qed

end
