(* ===== verification/ThinLayout.thy ===== *)
theory ThinLayout
  imports Prelude "HOL-Library.Monad_Syntax"
begin

text \<open>
  Where \<open>ThinArc\<close> keeps things: the layouts of \<open>util/thinarc.rs\<close> and \<open>util/dynsized.rs\<close>.  A \<open>ThinArc\<close> is a thin pointer, so the places of its
  cnt, its metadata and its value are computed from layouts again at each use, and the layout given to the
  allocator when memory is returned is computed differently from the one it was asked for with.  A layout is a
  size and an alignment, as in \<open>std::alloc::Layout\<close>; \<open>None\<close> is a failed \<open>unwrap\<close>.  A \<open>usize\<close> has eight bytes.
\<close>

section \<open>Layouts (\<open>std::alloc\<close>)\<close>

record layout =
  l_size :: nat
  l_align :: nat

definition isize_max :: nat where
  "isize_max = 2 ^ 63 - 1"

definition round_up :: "nat \<Rightarrow> nat \<Rightarrow> nat" where
  "round_up n a = (n + a - 1) div a * a"

definition from_size_align :: "nat \<Rightarrow> nat \<Rightarrow> layout option" where
  "from_size_align sz align = (if sz \<le> isize_max - (align - 1) then Some \<lparr>l_size = sz, l_align = align\<rparr> else None)"

text \<open>\<open>extend\<close> puts a field behind a layout and returns its offset; the end is not padded.\<close>

definition layout_extend :: "layout \<Rightarrow> layout \<Rightarrow> (layout \<times> nat) option" where
  "layout_extend l next = do {
     let offset = round_up (l_size l) (l_align next);
     l' \<leftarrow> from_size_align (offset + l_size next) (max (l_align l) (l_align next));
     Some (l', offset) }"

definition pad_to_align :: "layout \<Rightarrow> layout" where
  "pad_to_align l = l\<lparr>l_size := round_up (l_size l) (l_align l)\<rparr>"

definition layout_array :: "layout \<Rightarrow> nat \<Rightarrow> layout option" where
  "layout_array elem n = from_size_align (l_size elem * n) (l_align elem)"

text \<open>The layout of a \<open>repr(C)\<close> struct: its fields in order, each at its alignment, and padding at the end.\<close>

fun repr_c :: "layout list \<Rightarrow> layout \<Rightarrow> (layout \<times> nat list) option" where
  "repr_c [] l = Some (pad_to_align l, [])"
| "repr_c (f # fs) l = do { (l', off) \<leftarrow> layout_extend l f; (r, offs) \<leftarrow> repr_c fs l'; Some (r, off # offs) }"

definition usize_layout :: layout where
  "usize_layout = \<lparr>l_size = 8, l_align = 8\<rparr>"

definition unit_layout :: layout where
  "unit_layout = \<lparr>l_size = 0, l_align = 1\<rparr>"

section \<open>Sized types and slices (\<open>util/dynsized.rs\<close>)\<close>

text \<open>An instance of \<open>DynSized\<close>: the layout of its metadata, its alignment, and its layout for a metadata.\<close>

record dyn_sized =
  ds_meta :: layout
  ds_align :: nat
  ds_layout :: "nat \<Rightarrow> layout option"

definition sized_layout :: "layout \<Rightarrow> nat \<Rightarrow> layout option" where
  "sized_layout t meta = Some t"

definition sized_dyn :: "layout \<Rightarrow> dyn_sized" where
  "sized_dyn t = \<lparr>ds_meta = unit_layout, ds_align = l_align t, ds_layout = sized_layout t\<rparr>"

definition slice_layout :: "layout \<Rightarrow> nat \<Rightarrow> layout option" where
  "slice_layout t cnt = layout_array t cnt"

definition slice_dyn :: "layout \<Rightarrow> dyn_sized" where
  "slice_dyn t = \<lparr>ds_meta = usize_layout, ds_align = l_align t, ds_layout = slice_layout t\<rparr>"

text \<open>\<open>make_ref\<close> of a slice: the address of each element.  Dropping a slice in place drops the elements from the first on.\<close>

definition slice_make_ref :: "layout \<Rightarrow> nat \<Rightarrow> nat \<Rightarrow> nat list" where
  "slice_make_ref t ptr cnt = map (\<lambda>i. ptr + i * l_size t) [0..<cnt]"

fun slice_drop_loop :: "layout \<Rightarrow> nat \<Rightarrow> nat \<Rightarrow> nat list" where
  "slice_drop_loop t 0 ptr = []"
| "slice_drop_loop t (Suc n) ptr = ptr # slice_drop_loop t n (ptr + l_size t)"

definition slice_drop_in_place :: "layout \<Rightarrow> nat \<Rightarrow> nat \<Rightarrow> nat list" where
  "slice_drop_in_place t ptr cnt = slice_drop_loop t cnt ptr"

section \<open>The memory of a \<open>ThinArc\<close> (\<open>util/thinarc.rs\<close>)\<close>

text \<open>What \<open>new\<close> asks the allocator for: the layout of \<open>ThinArcInner\<close>, with the offsets of its fields.\<close>

definition inner_layout :: "layout \<Rightarrow> (layout \<times> nat list) option" where
  "inner_layout t = repr_c [usize_layout, unit_layout, t] \<lparr>l_size = 0, l_align = 1\<rparr>"

definition arc_offsets :: "dyn_sized \<Rightarrow> nat \<Rightarrow> (nat \<times> nat) option" where
  "arc_offsets t ptr = do {
     (l, offset_meta) \<leftarrow> layout_extend usize_layout (ds_meta t);
     (_, offset_value) \<leftarrow> layout_extend l \<lparr>l_size = 0, l_align = ds_align t\<rparr>;
     Some (ptr + offset_meta, ptr + offset_value) }"

definition arc_ret_rc :: "nat \<Rightarrow> nat" where
  "arc_ret_rc ptr = ptr"

definition arc_ref_meta :: "dyn_sized \<Rightarrow> nat \<Rightarrow> nat option" where
  "arc_ref_meta t ptr = map_option fst (arc_offsets t ptr)"

definition arc_ref_value :: "dyn_sized \<Rightarrow> nat \<Rightarrow> nat option" where
  "arc_ref_value t ptr = map_option snd (arc_offsets t ptr)"

text \<open>The layout \<open>dealloc\<close> gives to the allocator, for the metadata found behind the count.\<close>

definition arc_dealloc_layout :: "dyn_sized \<Rightarrow> nat \<Rightarrow> layout option" where
  "arc_dealloc_layout t meta = do {
     (l, _) \<leftarrow> layout_extend usize_layout (ds_meta t);
     v \<leftarrow> ds_layout t meta;
     (l', _) \<leftarrow> layout_extend l v;
     Some l' }"

section \<open>Lemmas\<close>

lemma round_up_bounds: "0 < a \<Longrightarrow> n \<le> round_up n a \<and> round_up n a < n + a"
proof -
  assume a: "0 < a"
  have "(n + a - 1) div a * a + (n + a - 1) mod a = n + a - 1" by (rule div_mult_mod_eq)
  moreover have "(n + a - 1) mod a < a" using a by simp
  ultimately show ?thesis using a unfolding round_up_def by linarith
qed

lemma round_up_dvd [simp]: "a dvd round_up n a"
  by (simp add: round_up_def)

lemma round_up_same: "0 < a \<Longrightarrow> round_up n a = n \<longleftrightarrow> a dvd n"
proof
  assume a: "0 < a" "a dvd n"
  then obtain k where n: "n = a * k" by auto
  have "(a * k + (a - 1)) div a = k" using a(1) by (simp only: div_mult_self4) simp
  then have "(a * k + a - 1) div a = k" using a(1) by (simp only: add_diff_assoc Suc_leI One_nat_def)
  then show "round_up n a = n" by (simp add: round_up_def n)
qed (metis round_up_dvd)

text \<open>Alignments are powers of two, so that the larger is a multiple of the smaller.\<close>

definition layout_ok :: "layout \<Rightarrow> bool" where
  "layout_ok l \<longleftrightarrow> (\<exists>k. l_align l = 2 ^ k) \<and> l_align l dvd l_size l"

lemma max_align_dvd: "layout_ok t \<Longrightarrow> l_align t dvd max 8 (l_align t) \<and> 8 dvd max 8 (l_align t)"
proof -
  assume "layout_ok t"
  then obtain k where k: "l_align t = 2 ^ k" by (auto simp: layout_ok_def)
  have "(2::nat) ^ 3 dvd 2 ^ k \<or> (2::nat) ^ k dvd 2 ^ 3" by (metis le_imp_power_dvd nat_le_linear)
  then show ?thesis unfolding k by (auto simp: max_def dest: dvd_imp_le)
qed

lemma layout_align_pos: "layout_ok t \<Longrightarrow> 0 < l_align t"
  by (auto simp: layout_ok_def)

lemma usize_unit: "layout_extend usize_layout unit_layout = Some (usize_layout, 8)"
  by (simp add: layout_extend_def usize_layout_def unit_layout_def from_size_align_def isize_max_def round_up_def)

lemma inner_layout_eq:
  "inner_layout t =
     do { (l, off) \<leftarrow> layout_extend usize_layout t; Some (pad_to_align l, [0, 8, off]) }"
proof -
  have "layout_extend \<lparr>l_size = 0, l_align = 1\<rparr> usize_layout = Some (usize_layout, 0)"
    by (simp add: layout_extend_def usize_layout_def from_size_align_def isize_max_def round_up_def)
  then show ?thesis by (auto simp: inner_layout_def usize_unit split: bind_splits)
qed

lemma dealloc_layout_eq: "arc_dealloc_layout (sized_dyn t) meta = map_option fst (layout_extend usize_layout t)"
  by (auto simp: arc_dealloc_layout_def sized_dyn_def usize_unit sized_layout_def split: bind_splits)

lemma offsets_eq:
  assumes "layout_extend usize_layout t = Some (l, off)"
  shows "arc_offsets (sized_dyn t) ptr = Some (ptr + 8, ptr + off)"
proof -
  from assms have "layout_extend usize_layout \<lparr>l_size = 0, l_align = l_align t\<rparr> =
      Some (\<lparr>l_size = off, l_align = max 8 (l_align t)\<rparr>, off)"
    by (auto simp: layout_extend_def from_size_align_def usize_layout_def Let_def split: if_splits)
  then show ?thesis by (simp add: arc_offsets_def sized_dyn_def usize_unit)
qed

text \<open>Dropping a slice in place visits every element of the slice once, in order.\<close>

lemma slice_drop_loop_eq: "slice_drop_loop t n ptr = map (\<lambda>i. ptr + i * l_size t) [0..<n]"
proof (induction n arbitrary: ptr)
  case (Suc n)
  then show ?case by (simp add: map_upt_Suc del: upt_Suc)
qed simp

lemma slice_drops_each: "slice_drop_in_place t ptr cnt = slice_make_ref t ptr cnt"
  by (simp add: slice_drop_in_place_def slice_make_ref_def slice_drop_loop_eq)

lemma sum_dvd_iff: "layout_ok t \<Longrightarrow> max 8 (l_align t) dvd round_up 8 (l_align t) + l_size t \<longleftrightarrow> 8 \<le> l_align t \<or> 8 dvd l_size t"
proof (cases "8 \<le> l_align t")
  case True
  assume ok: "layout_ok t"
  from ok True max_align_dvd [OF ok] have d: "8 dvd l_align t" by (simp add: max_def)
  have "round_up 8 (l_align t) = l_align t"
  proof -
    have b: "8 \<le> round_up 8 (l_align t) \<and> round_up 8 (l_align t) < 8 + l_align t"
      using round_up_bounds [of "l_align t" 8] layout_align_pos [OF ok] by simp
    then obtain k where k: "round_up 8 (l_align t) = l_align t * k" using round_up_dvd by blast
    with b have "0 < k" by (cases k) auto
    moreover have "k < 2"
    proof (rule ccontr)
      assume "\<not> k < 2"
      then have "l_align t * 2 \<le> l_align t * k" by simp
      with b k True show False by linarith
    qed
    ultimately have "k = 1" by linarith
    with k show ?thesis by simp
  qed
  with ok True show ?thesis by (auto simp: layout_ok_def max_def)
next
  case False
  assume ok: "layout_ok t"
  with False max_align_dvd [OF ok] have "l_align t dvd 8" by (simp add: max_def)
  then have "round_up 8 (l_align t) = 8" using layout_align_pos [OF ok] by (simp add: round_up_same)
  with False show ?thesis by (simp add: max_def dvd_add_right_iff)
qed

section \<open>Properties\<close>

text \<open>C36: the fields of a shared value are found where they were put.  For every type whose allocation succeeds, the places
  that are computed at each use are those of the struct that was written, aligned, inside of the allocation and
  apart from the count; and the layout that memory is returned with is the one it was asked for with exactly if the
  type is aligned to a word or its size is a multiple of one, as is that of the owned slices the crate shares.\<close>

theorem thinarc_layout_sound:
  assumes "layout_ok t" and "inner_layout t = Some (l, offs)" and "l_align l dvd ptr"
  shows "\<exists>off d. offs = [arc_ret_rc 0, 8, off] \<and> arc_offsets (sized_dyn t) ptr = Some (ptr + 8, ptr + off) \<and>
    l_align t dvd ptr + off \<and> arc_ret_rc ptr + 8 \<le> ptr + off \<and> ptr + off + l_size t \<le> ptr + l_size l \<and>
    arc_dealloc_layout (sized_dyn t) meta = Some d \<and> l_align d = l_align l \<and>
    (d = l \<longleftrightarrow> 8 \<le> l_align t \<or> 8 dvd l_size t)"
proof -
  from assms(2) obtain d off where e: "layout_extend usize_layout t = Some (d, off)" and l: "l = pad_to_align d" "offs = [0, 8, off]"
    by (auto simp: inner_layout_eq split: bind_splits)
  then have d: "off = round_up 8 (l_align t)" "d = \<lparr>l_size = off + l_size t, l_align = max 8 (l_align t)\<rparr>"
    by (auto simp: layout_extend_def from_size_align_def usize_layout_def Let_def split: if_splits)
  note pos = layout_align_pos [OF assms(1)]
  have "l_align t dvd ptr" using assms(3) max_align_dvd [OF assms(1)] by (auto simp: l(1) pad_to_align_def d(2) intro: dvd_trans)
  then have "l_align t dvd ptr + off" by (simp add: d(1))
  moreover have "8 \<le> off" using round_up_bounds [OF pos, of 8] by (simp add: d(1))
  moreover have "off + l_size t \<le> l_size l"
    using round_up_bounds [of "max 8 (l_align t)" "off + l_size t"] by (simp add: l(1) pad_to_align_def d(2))
  moreover have "d = l \<longleftrightarrow> max 8 (l_align t) dvd off + l_size t"
    using round_up_same [of "max 8 (l_align t)" "off + l_size t"] by (auto simp: l(1) pad_to_align_def d(2))
  ultimately show ?thesis
    using e offsets_eq [OF e] sum_dvd_iff [OF assms(1)]
    by (intro exI [of _ off] exI [of _ d]) (simp add: l arc_ret_rc_def dealloc_layout_eq pad_to_align_def d)
qed

theorem thinarc_layout_sound_witness:
  "arc_offsets (sized_dyn \<lparr>l_size = 16, l_align = 8\<rparr>) 64 = Some (72, 72) \<and>
   (\<exists>l d. inner_layout \<lparr>l_size = 16, l_align = 8\<rparr> = Some (l, [0, 8, 8]) \<and>
      arc_dealloc_layout (sized_dyn \<lparr>l_size = 16, l_align = 8\<rparr>) 0 = Some d \<and> d = l) \<and>
   (\<exists>l d. inner_layout \<lparr>l_size = 1, l_align = 1\<rparr> = Some (l, [0, 8, 8]) \<and>
      arc_dealloc_layout (sized_dyn \<lparr>l_size = 1, l_align = 1\<rparr>) 0 = Some d \<and> d \<noteq> l)"
proof -
  have ok: "layout_ok \<lparr>l_size = 16, l_align = 8\<rparr>" "layout_ok \<lparr>l_size = 1, l_align = 1\<rparr>"
    using exI [of "\<lambda>k. (8::nat) = 2 ^ k" 3] exI [of "\<lambda>k. (1::nat) = 2 ^ k" 0] by (simp_all add: layout_ok_def)
  have i: "inner_layout \<lparr>l_size = 16, l_align = 8\<rparr> = Some (\<lparr>l_size = 24, l_align = 8\<rparr>, [0, 8, 8])"
    "inner_layout \<lparr>l_size = 1, l_align = 1\<rparr> = Some (\<lparr>l_size = 16, l_align = 8\<rparr>, [0, 8, 8])"
    by (simp_all add: inner_layout_eq layout_extend_def from_size_align_def isize_max_def round_up_def pad_to_align_def usize_layout_def)
  show ?thesis
    using thinarc_layout_sound [OF ok(1) i(1), of 64 0] thinarc_layout_sound [OF ok(2) i(2), of 64 0] i by auto
qed

end
