(* ===== verification/Conversions.thy ===== *)
theory Conversions
  imports Newtypes NameTables
begin

text \<open>
  Views and conversions of the crate's values: mode letters and mode sets (\<open>state/mode.rs\<close>), the flat map through its
  references (\<open>util/flatmap.rs\<close>, \<open>macros.rs\<close>), arguments, tags and sources, the guard of a splitter as a value
  (\<open>string/splitter.rs\<close>), and the \<open>Debug\<close> text and hash of a byte string (\<open>string/bytes.rs\<close>).  A mutable reference is the
  change that is made through it.
\<close>

section \<open>Modes (\<open>state/mode.rs\<close>)\<close>

text \<open>A zero byte as \<open>NonZeroU8\<close> is undefined: \<open>None\<close>.\<close>

definition mode_new_unchecked :: "byte \<Rightarrow> byte option" where
  "mode_new_unchecked letter = (if letter = CHR 0x00 then None else Some letter)"

definition into_nonzero_u8 :: "byte \<Rightarrow> 8 word" where
  "into_nonzero_u8 m = u8_of m"

definition mode_into_char :: "byte \<Rightarrow> nat" where
  "mode_into_char m = unat (into_nonzero_u8 m)"

definition mode_partial_cmp :: "byte \<Rightarrow> byte \<Rightarrow> ordering option" where
  "mode_partial_cmp a b = Some (mode_cmp a b)"

definition mode_display :: "byte \<Rightarrow> bytes" where
  "mode_display m = encode_utf8 (mode_into_char m)"

text \<open>The buffer has one byte; \<open>encode_utf8\<close> panics if the character needs more.\<close>

definition mode_into_arg :: "byte \<Rightarrow> ircbytes option" where
  "mode_into_arg m =
     (let bytes = encode_utf8 (mode_into_char m) in
      if length bytes \<le> 1 then Some (owning (bytes_from_str bytes)) else None)"

definition ms_into_iter :: "mode_set \<Rightarrow> 64 word" where
  "ms_into_iter s = s"

definition msi_size_hint :: "64 word \<Rightarrow> nat \<times> nat option" where
  "msi_size_hint w = (let retval = count_ones w in (retval, Some retval))"

definition sm_new :: status_modes where
  "sm_new = []"

section \<open>Flat maps (\<open>util/flatmap.rs\<close>)\<close>

definition pair_extract_key :: "'k \<times> 'v \<Rightarrow> 'k" where
  "pair_extract_key elem = fst elem"

definition coll_len :: "'e list \<Rightarrow> nat" where
  "coll_len c = length c"

definition coll_is_empty :: "'e list \<Rightarrow> bool" where
  "coll_is_empty c \<longleftrightarrow> c = []"

definition fm_default :: "'e list" where
  "fm_default = fm_new"

definition fm_eq :: "'e list \<Rightarrow> 'e list \<Rightarrow> bool" where
  "fm_eq a b \<longleftrightarrow> a = b"

definition fm_get_mut :: "('e \<Rightarrow> 'k::linorder) \<Rightarrow> 'k \<Rightarrow> ('e \<Rightarrow> 'e) \<Rightarrow> 'e list \<Rightarrow> 'e option \<times> 'e list" where
  "fm_get_mut kf k f fm =
     (case get_impl kf fm (length fm) k of
        None \<Rightarrow> (None, fm)
      | Some i \<Rightarrow> (Some (fm ! i), fm[i := f (fm ! i)]))"

definition fm_as_slice :: "'e list \<Rightarrow> 'e list" where
  "fm_as_slice fm = fm"

definition fm_as_slice_mut :: "('e \<Rightarrow> 'e) \<Rightarrow> 'e list \<Rightarrow> 'e list" where
  "fm_as_slice_mut f fm = map f fm"

definition fm_clear :: "'e list \<Rightarrow> 'e list" where
  "fm_clear fm = []"

definition guard_as_slice :: "'e guard \<Rightarrow> 'e list" where
  "guard_as_slice g = g_buf g"

definition guard_get_mut :: "('e \<Rightarrow> 'k::linorder) \<Rightarrow> 'k \<Rightarrow> ('e \<Rightarrow> 'e) \<Rightarrow> 'e guard \<Rightarrow> 'e option \<times> 'e guard" where
  "guard_get_mut kf k f g =
     (case get_idx kf g k of
        None \<Rightarrow> (None, g)
      | Some i \<Rightarrow> (Some (g_buf g ! i), g\<lparr>g_buf := (g_buf g)[i := f (g_buf g ! i)]\<rparr>))"

definition fm_from_iter :: "('e \<Rightarrow> 'k::linorder) \<Rightarrow> 'e list \<Rightarrow> 'e list" where
  "fm_from_iter kf it = fm_from_vec kf it"

section \<open>Arguments, tags and sources\<close>

definition args_edit :: "args \<Rightarrow> args" where
  "args_edit a = a"

definition args_words_ref :: "args \<Rightarrow> bytes list" where
  "args_words_ref a = words a"

definition args_from_vec :: "bytes list \<Rightarrow> args" where
  "args_from_vec ws = \<lparr>words = ws, long = None\<rparr>"

definition guard_all :: "(bytes list \<Rightarrow> bytes list) \<Rightarrow> args \<Rightarrow> bytes list option \<times> args" where
  "guard_all f a = (if long a = None then (Some (words a), a\<lparr>words := f (words a)\<rparr>) else (None, a))"

definition guard_words :: "(bytes list \<Rightarrow> bytes list) \<Rightarrow> args \<Rightarrow> bytes list \<times> args" where
  "guard_words f a = (words a, a\<lparr>words := f (words a)\<rparr>)"

definition guard_split_last :: "args \<Rightarrow> bytes list \<times> bytes option" where
  "guard_split_last a =
     (case long a of
        Some l \<Rightarrow> (words a, Some l)
      | None \<Rightarrow> if words a \<noteq> [] then (butlast (words a), Some (last (words a))) else ([], None))"

definition tags_get_mut :: "bytes \<Rightarrow> (bytes \<Rightarrow> bytes) \<Rightarrow> tags \<Rightarrow> bytes option \<times> tags" where
  "tags_get_mut k f t =
     (case from_bytes Key k of
        Inl _ \<Rightarrow> (None, t)
      | Inr k' \<Rightarrow> (let (r, t') = fm_get_mut fst k' (\<lambda>(k, v). (k, f v)) t in (map_option snd r, t')))"

definition tags_guard_get_mut :: "bytes \<Rightarrow> (bytes \<Rightarrow> bytes) \<Rightarrow> tag guard \<Rightarrow> bytes option \<times> tag guard" where
  "tags_guard_get_mut k f g =
     (case from_bytes Key k of
        Inl _ \<Rightarrow> (None, g)
      | Inr k' \<Rightarrow> (let (r, g') = guard_get_mut fst k' (\<lambda>(k, v). (k, f v)) g in (map_option snd r, g')))"

text \<open>\<open>NonZeroUsize::new_unchecked\<close> of zero is undefined: \<open>None\<close>.\<close>

definition src_len_nonzero :: "source \<Rightarrow> nat option" where
  "src_len_nonzero s = (if src_len s = 0 then None else Some (src_len s))"

section \<open>The guard of a splitter (\<open>string/splitter.rs\<close>)\<close>

record saved_indices =
  si_splitter :: splitter
  si_range :: srange
  si_preserve :: "bool \<times> bool"

definition si_save :: "bool \<Rightarrow> bool \<Rightarrow> splitter \<Rightarrow> saved_indices" where
  "si_save s e sp = \<lparr>si_splitter = sp, si_range = rng sp, si_preserve = (s, e)\<rparr>"

definition si_deref_mut :: "(splitter \<Rightarrow> 'a \<times> splitter) \<Rightarrow> saved_indices \<Rightarrow> 'a \<times> saved_indices" where
  "si_deref_mut f si = (let (x, sp) = f (si_splitter si) in (x, si\<lparr>si_splitter := sp\<rparr>))"

definition si_drop :: "saved_indices \<Rightarrow> splitter" where
  "si_drop si =
     (let (s, e) = si_preserve si; sp = si_splitter si
      in sp\<lparr>rng := restore (si_range si) s e (rng sp)\<rparr>)"

definition sp_iter_next :: "splitter \<Rightarrow> byte option \<times> splitter" where
  "sp_iter_next sp = next_byte sp"

definition si_iter_next :: "saved_indices \<Rightarrow> byte option \<times> saved_indices" where
  "si_iter_next si = si_deref_mut next_byte si"

section \<open>Byte strings (\<open>string/bytes.rs\<close>)\<close>

definition bytes_as_ref :: "ircbytes \<Rightarrow> bytes" where
  "bytes_as_ref b = b_value b"

definition bytes_hash :: "(nat \<Rightarrow> bytes \<Rightarrow> 'h \<Rightarrow> 'h) \<Rightarrow> ircbytes \<Rightarrow> 'h \<Rightarrow> 'h" where
  "bytes_hash feed b h = slice_hash feed (b_value b) h"

text \<open>The \<open>Debug\<close> text: \<open>debug_str\<close> and \<open>debug_slice\<close> are those of the standard library for strings and for slices of bytes.\<close>

definition bytes_debug :: "(bytes \<Rightarrow> string) \<Rightarrow> (bytes \<Rightarrow> string) \<Rightarrow> ircbytes \<Rightarrow> string" where
  "bytes_debug debug_str debug_slice b =
     ''Bytes { owning: '' @ (if is_owning b then ''true'' else ''false'') @ '', value: '' @
     (if \<not> is_secret b
      then (case fst (to_utf8 b) of Some v \<Rightarrow> debug_str v | None \<Rightarrow> debug_slice (b_value b))
      else debug_str display_placeholder) @ '' }''"

section \<open>Lemmas\<close>

text \<open>A mode letter is one ASCII character, so that its conversions are defined.\<close>

lemma mode_letter: "mode_new l = Some m \<Longrightarrow> m = l \<and> code m < 128 \<and> is_ascii_alphabetic m"
  by (auto simp: mode_new_def is_ascii_alphabetic_def is_ascii_uppercase_def is_ascii_lowercase_def split: if_splits)

lemma mode_char: "mode_new l = Some m \<Longrightarrow> mode_into_char m = code m"
  by (simp add: mode_into_char_def into_nonzero_u8_def u8_of_def unat_of_nat)

lemma mode_conversions:
  assumes "mode_new l = Some m"
  shows "mode_new_unchecked l = Some m" "into_nonzero_u8 m \<noteq> 0" "mode_display m = [m]"
    and "\<exists>b. mode_into_arg m = Some b \<and> b_value b = [m] \<and> is_owning b \<and> bytes_ok b \<and> valid Arg (b_value b)"
proof -
  note l = mode_letter [OF assms] and c = mode_char [OF assms]
  show u: "mode_new_unchecked l = Some m" using l by (auto simp: mode_new_unchecked_def is_ascii_alphabetic_def
        is_ascii_uppercase_def is_ascii_lowercase_def)
  have "0 < code m" using l by (auto simp: is_ascii_alphabetic_def is_ascii_uppercase_def is_ascii_lowercase_def)
  with c show "into_nonzero_u8 m \<noteq> 0" by (auto simp: mode_into_char_def)
  have e: "encode_utf8 (mode_into_char m) = [m]" 
    unfolding c using l [THEN conjunct2, THEN conjunct1] by (simp add: encode_utf8_def)
  then show "mode_display m = [m]" by (simp add: mode_display_def)
  have "utf8_valid [m]" using e utf8_valid_encode [of "code m"] l [THEN conjunct2, THEN conjunct1] unfolding c by (simp add: scalar_def)
  then have "bytes_ok (owning (bytes_from_str [m]))" by (intro wf_intros)
  moreover have "valid Arg [m]"
    using l by (auto simp: valid_iff invalid_defs arg_first_check_def is_ascii_alphabetic_def is_ascii_uppercase_def is_ascii_lowercase_def)
  ultimately show "\<exists>b. mode_into_arg m = Some b \<and> b_value b = [m] \<and> is_owning b \<and> bytes_ok b \<and> valid Arg (b_value b)"
    by (simp add: mode_into_arg_def e) (simp add: owning_def owning_force_def is_owning_def bytes_from_str_def owned_from_vec_def)
qed

text \<open>Writing through a reference into a flat map changes the element of that key and nothing else, if the key is kept.\<close>

lemma get_impl_Some: "fm_ok kf fm \<Longrightarrow> get_impl kf fm (length fm) k = Some i \<Longrightarrow> i < length fm \<and> kf (fm ! i) = k"
  by (auto simp: get_impl_def fm_ok_def dest: binary_search_Inr split: sum.splits if_splits)

lemma fm_get_mut_spec:
  assumes "fm_ok kf fm" and "\<And>e. kf (f e) = kf e"
  shows "fst (fm_get_mut kf k f fm) = fm_map kf fm k" "fm_ok kf (snd (fm_get_mut kf k f fm))"
    and "fm_map kf (snd (fm_get_mut kf k f fm)) k' = map_option (\<lambda>e. if k' = k then f e else e) (fm_map kf fm k')"
proof -
  have d: "distinct (map kf fm)" using assms(1) by (rule fm_ok_distinct)
  let ?i = "get_impl kf fm (length fm) k"
  have m: "fm_map kf fm k = map_option (\<lambda>i. fm ! i) ?i" using fm_get_map [OF assms(1), of k] by (simp add: fm_get_def)
  then show "fst (fm_get_mut kf k f fm) = fm_map kf fm k" by (simp add: fm_get_mut_def split: option.split)
  show ok: "fm_ok kf (snd (fm_get_mut kf k f fm))"
  proof (cases ?i)
    case (Some i)
    with get_impl_Some [OF assms(1) Some] have "map kf (fm[i := f (fm ! i)]) = map kf fm"
      by (simp add: map_update assms(2) list_update_same_conv)
    with assms(1) Some show ?thesis by (simp add: fm_get_mut_def fm_ok_def)
  qed (use assms(1) in \<open>simp add: fm_get_mut_def\<close>)
  show "fm_map kf (snd (fm_get_mut kf k f fm)) k' = map_option (\<lambda>e. if k' = k then f e else e) (fm_map kf fm k')"
  proof (cases ?i)
    case None
    with m have "fm_map kf fm k = None" by simp
    with None show ?thesis by (cases "fm_map kf fm k'") (auto simp: fm_get_mut_def)
  next
    case (Some i)
    note i = get_impl_Some [OF assms(1) Some]
    let ?fm = "fm[i := f (fm ! i)]"
    have fm: "snd (fm_get_mut kf k f fm) = ?fm" using Some by (simp add: fm_get_mut_def)
    have d': "distinct (map kf ?fm)" using ok fm_ok_distinct unfolding fm by blast
    show ?thesis
    proof (cases "fm_map kf fm k'")
      case None
      have "map kf ?fm = map kf fm" using i by (simp add: map_update assms(2) list_update_same_conv)
      then have "kf ` set ?fm = kf ` set fm" by (metis set_map)
      with None have "fm_map kf ?fm k' = None" by (simp add: fm_map_None)
      with None show ?thesis by (simp add: fm)
    next
      case (Some e)
      then obtain j where j: "j < length fm" "fm ! j = e" "kf e = k'" by (auto simp: fm_map_Some [OF d] in_set_conv_nth)
      have "k' = k \<longleftrightarrow> j = i" using i j d by (auto simp: distinct_conv_nth)
      then have "?fm ! j = (if k' = k then f e else e)" using i j by auto
      moreover have "kf (?fm ! j) = k'" using i j assms(2) calculation by auto
      ultimately show ?thesis using fm_map_nth [OF d', of j k'] j Some by (simp add: fm)
    qed
  qed
qed

text \<open>The guard of a splitter, used and dropped, is the scope of \<open>save\<close>.\<close>

lemma si_scope: "(let (x, si) = si_deref_mut f (si_save s e sp) in (x, si_drop si)) = save s e f sp"
  by (simp add: si_deref_mut_def si_save_def si_drop_def save_def split_def Let_def)

lemma guard_split_last_eq: "guard_split_last a = split_last (args_edit a)"
  by (simp add: guard_split_last_def split_last_def args_edit_def split: option.split)

text \<open>The \<open>Debug\<close> text of a secret does not depend on its value, and equal strings have equal hashes.\<close>

lemma bytes_debug_secret:
  "is_secret a \<Longrightarrow> is_secret b \<Longrightarrow> is_owning a = is_owning b \<Longrightarrow> bytes_debug ds dl a = bytes_debug ds dl b"
  by (simp add: bytes_debug_def)

lemma bytes_hash_eq: "bytes_eq a b \<Longrightarrow> bytes_hash feed a h = bytes_hash feed b h"
  by (simp add: bytes_eq_def bytes_hash_def)

lemma src_len_nonzero_total: "src_ok s \<Longrightarrow> src_len_nonzero s = Some (src_len s)"
  by (auto simp: src_len_nonzero_def src_ok_def src_len_def valid_iff arg_first_check_None Let_def split: option.splits)

end
