(* ===== verification/Spec2Isabelle.thy ===== *)
theory Spec2Isabelle
  imports HandlerMake Messages SharedBytes Owning Tls ThinLayout Conversions
begin

text \<open>
  Verification of vinezombie, an IRC client library (the crate under \<open>src/src\<close>).

  \<^bold>\<open>The program.\<close>  The crate is made of four layers.  The string layer (\<open>string\<close>) has byte strings that
  know whether they own their data, are UTF-8 or are secret, a family of checked newtypes over them, and a
  cursor, a builder, transforms and base64 on top.  The message layer (\<open>ircmsg\<close>, \<open>names\<close>, \<open>state\<close>) parses
  and writes messages and gives meaning to their parts.  The client layer (\<open>client\<close>) has a rate limited
  queue of outgoing messages, handlers that react to incoming ones and report over channels, state shared by
  the handlers, and the handlers the crate provides: ping, automatic replies, tracking of the client's
  source, capability negotiation, SASL authentication and the registration state machine that drives the
  last two.  The utilities (\<open>util\<close>) hold the ordered map and the raw memory the others are built on.
  A client receives a line from its connection, \<open>Codec\<close> parses it, \<open>ClientLogic.run_once\<close> hands it to every
  handler in \<open>Handlers\<close>, what they send is put into the \<open>Queue\<close>, which releases it at its rate to \<open>Codec\<close> and
  the connection again; \<open>client.rs\<close> and \<open>client/conn\<close> join these, once for blocking and once for asynchronous input and output.

  \<^bold>\<open>Theories and sources.\<close>
  \<^item> \<open>Prelude\<close>: bytes as characters, results as sums, the methods of \<open>u8\<close> and of slices that the crate
    uses, and the theorem collections \<open>slice_simps\<close> and \<open>wf_intros\<close>.
  \<^item> \<open>Strings\<close> (\<open>error.rs\<close>, \<open>string/subtypes*\<close>), \<open>Utf8\<close> and \<open>BytesStr\<close> (\<open>string.rs\<close>, \<open>string/bytes.rs\<close>),
    \<open>Splitter\<close>, \<open>Builder\<close>, \<open>Transforms\<close> (\<open>string/tf*\<close>), \<open>Base64\<close>, \<open>SecretBuf\<close> (\<open>string/secretbuf.rs\<close>,
    \<open>util/ownedslice.rs\<close>), \<open>Newtypes\<close> (the methods of \<open>string/subtypes/macros.rs\<close> on flagged strings), \<open>SharedBytes\<close> (how
    strings share memory: \<open>util/thinarc.rs\<close>, \<open>OwnedBytes\<close>) and \<open>ThinLayout\<close> (where it is: \<open>util/thinarc.rs\<close>, \<open>util/dynsized.rs\<close>).
  \<^item> \<open>Flatmap\<close> (\<open>util/flatmap.rs\<close>), \<open>Args\<close>, \<open>Tags\<close>, \<open>Source\<close>, \<open>Kind\<close> (\<open>ircmsg/numeric.rs\<close>,
    \<open>servermsgkind.rs\<close>, \<open>ctcp.rs\<close>, \<open>targeted.rs\<close>), \<open>Codec\<close> (\<open>ircmsg/codec.rs\<close>, \<open>server.rs\<close>, \<open>client.rs\<close>),
    \<open>Names\<close> and \<open>NameTables\<close> (\<open>names.rs\<close>, \<open>names/types.rs\<close>, \<open>cmd.rs\<close>, \<open>cap.rs\<close>), \<open>Isupport\<close> (\<open>names/isupport.rs\<close>), \<open>Mode\<close>
    (\<open>state/mode.rs\<close>), \<open>Owning\<close> (\<open>owning.rs\<close> and the \<open>owning\<close> methods of \<open>ircmsg\<close>), \<open>Messages\<close> (the methods of messages),
    \<open>Conversions\<close> (views and conversions of these values) and \<open>Serde\<close> (\<open>string/serde.rs\<close>, the \<open>Serialize\<close> and \<open>Deserialize\<close>
    instances written out in the sources, texts of \<open>error.rs\<close>).
  \<^item> \<open>Queue\<close>, \<open>Handlers\<close> (\<open>client/handler.rs\<close>, \<open>handlers.rs\<close>, \<open>handler/channel.rs\<close>), \<open>Oneshot\<close>
    (\<open>handler/channel/oneshot.rs\<close>), \<open>Parker\<close> (\<open>handler/channel/parker.rs\<close>), \<open>Channels\<close> and \<open>HandlerMake\<close> (\<open>handler/channel.rs\<close>, the
    channels of the handlers), \<open>ClientLogic\<close> (\<open>client/state.rs\<close>, \<open>logic.rs\<close>, the limits of
    \<open>conn/time.rs\<close>), \<open>ClientHandlers\<close> (\<open>client/handlers/*\<close>, \<open>sink.rs\<close>), \<open>Nicks\<close> (\<open>client/nick*\<close>), \<open>Cap\<close>
    (\<open>client/cap.rs\<close>), \<open>Auth\<close> (\<open>client/auth*\<close>), \<open>Register\<close> (\<open>client/register.rs\<close>, \<open>register/handler.rs\<close>),
    \<open>Defaults\<close> (\<open>register/defaults.rs\<close>).
  \<^item> \<open>Conn\<close> (\<open>client/conn.rs\<close>, \<open>conn/sync.rs\<close>, \<open>conn/time.rs\<close>), \<open>ConnIo\<close> (reading and sending over a connection,
    \<open>ircmsg/codec.rs\<close>), \<open>ConnStreams\<close> (streams over TCP and TLS), \<open>Client\<close> (\<open>client.rs\<close>), \<open>ClientRun\<close> (the blocking client),
    \<open>ConnTokio\<close> (\<open>conn/tokio.rs\<close>, the asynchronous client) and \<open>Tls\<close> (\<open>client/tls.rs\<close>).

  \<^bold>\<open>Conventions.\<close>  A struct is a record, an enum a datatype, a method a function that returns its result
  and the changed value.  A \<open>Result\<close> is a sum with the error on the left.  A panic, an access outside an
  allocation or a loop that does not end is the outer \<open>None\<close> of an operation that can have one; in the theories of
  connections and clients \<open>None\<close> is a loop that does not end and \<open>Panic\<close> a panic.  Where the
  texts of a theory say so, the lemmas show when it does not occur.  A trait object is a record of its
  state and its methods.  A sink is the list of the messages sent to it.  Strings inside messages are their
  bytes: the flags of a \<open>Bytes\<close> do not take part in its equality, order or hash.  The string type of a
  field is an invariant (\<open>valid\<close>, \<open>args_ok\<close>, \<open>tags_ok\<close>, \<open>src_ok\<close>, \<open>server_msg_ok\<close>), which parsers are shown to establish.
  A mutable reference is the change made through it.  An atomic access is one step of a thread.

  \<^bold>\<open>Parameters.\<close>  Code outside the crate is a parameter: the engine of the base64 crate (\<open>engine_ok\<close>: it
  decodes what it encodes, to the base64 alphabet and a multiple of four characters), the hash \<open>siphash\<close>, the
  allocator (\<open>alloc_ok\<close>: at least the capacity asked for), type identifiers (injective), the clock, the sockets of the
  operating system and the polls of tokio (\<open>buf_conn\<close>, \<open>timed_conn\<close>, \<open>byte_stream\<close>, \<open>live_conn\<close>, \<open>poll_stream\<close>, \<open>async_conn\<close>), the channels of
  tokio, rustls with its certificate parsers (\<open>tls_env\<close>), the data format behind serde and what it answers to each kind of
  request (\<open>data_format\<close>), the
  user's handlers, adjusters, labelers, readers and SASL mechanisms.  Hypotheses on them are
  shown to be satisfiable by an instance in the witnesses or by an interpretation.

  \<^bold>\<open>Interfaces.\<close>  \<open>bytes_newtype\<close> (what the checks of a newtype owe its constructors), \<open>utf8_transform\<close> (the
  safety contract of \<open>Transform\<close>), \<open>keyed_map\<close> (a map with insertion and removal), \<open>rate_limiter\<close> (time point
  and delay of a queue), \<open>sasl_mechanism\<close> (what the exchange needs of a mechanism), \<open>sender_contract\<close>, \<open>logged_sender\<close> and
  \<open>fallible_send\<close> (what senders promise), \<open>byte_stream\<close>, \<open>stream_parts\<close>, \<open>buf_conn\<close> (bytes in order), \<open>timed_stream\<close>,
  \<open>timed_parts\<close>, \<open>timed_conn\<close> (and a clock that is never turned back), \<open>live_conn\<close> (and writes that succeed), \<open>poll_stream\<close>,
  \<open>poll_parts\<close> and \<open>async_conn\<close> (the same when polled), \<open>client_io\<close> (flushing and reading as steps of the abstract client) and \<open>data_format\<close> are
  locales, each interpreted on the definitions that implement it.

  \<^bold>\<open>What is shown.\<close>  Strings: checked and unchecked construction agree, values of a newtype keep its rules however they were
  made, with two exceptions that are named, strings that share memory behave as values, the cursor never leaves its range
  and reports UTF-8 only for UTF-8 unless a guard moves its end (\<open>guarded_check_unsound\<close>), builders keep the type they build, chunks of base64 are put together
  again.  Messages: what is written or serialised is read back, for tags, sources, arguments, whole messages and streams of
  them, what parses is well formed, sizes are bounds, parsing ends except on one kind of tags, and owning messages borrow
  nothing.  Maps and
  modes refine maps and sets.  Client: the queue keeps its rate and is never stuck, each handler sees each
  message once and identifiers are unique, the state is typed, a oneshot value is delivered once under every
  interleaving and a parked receiver is woken, suffixed nicknames differ, capability requests fit and are understood,
  SASL never returns to an authenticator it has given up and sends what the server expects, registration finishes only
  after its welcome, and negotiation runs to its end (below).  The blocking and the asynchronous client refine one
  abstract client, which sends a message only when its clock and its queue allow it; the blocking one sends all that is queued when
  nothing fails, and what it flushes arrives.  A TLS configuration trusts what its options
  say.  Several lemmas and theorems state defects: see
  \<open>tags_parse_loops\<close>, \<open>unescape_keeps_first_escape\<close>, \<open>decode_refuses_lines\<close>, \<open>from_sets_coherence\<close>,
  \<open>oneshot_double_free\<close>, \<open>parker_leaves_token\<close>, \<open>secret_buf_overflow\<close>, \<open>secret_not_zeroed\<close>, \<open>clear_overflows\<close>, \<open>stale_read_timeout\<close>,
  \<open>async_write_limit_never_elapses\<close>, \<open>to_word_ambiguous\<close>, \<open>tls13_checked_as_tls12\<close>, \<open>formats_lose_bytes\<close>, \<open>thinarc_layout_sound\<close>,
  \<open>guarded_check_unsound\<close> and \<open>login_not_enforced\<close>.

  \<^bold>\<open>Bounds and fuel.\<close>  Sizes of raw memory and numbers that the code computes in \<open>isize\<close>, \<open>u8\<close>, \<open>u16\<close> or \<open>u32\<close> saturate, wrap or
  fail as there; lengths of values that are in memory (\<open>src_len\<close>, \<open>len_bytes\<close>), reference counts and instants are natural numbers;
  labels are 32 bit words and repeat after that many.  The iterator over the 52 possible mode letters takes at most 64 steps of a 64 bit word.  \<open>ce_collect\<close> has the number of chunks that \<open>ce_len\<close>
  announces as fuel and \<open>drain\<close> the number of nicknames; both are shown to be enough.  All other loops are
  total or partial functions of the option type.

  \<^bold>\<open>Not modelled.\<close>  The operating system, the tokio runtime, rustls and serde below the interfaces above.  The
  \<open>Serialize\<close> and \<open>Deserialize\<close> instances that serde derives, and derived \<open>Debug\<close> texts.  Clones and borrows that only share a
  value, markers such as \<open>Send\<close> and \<open>FusedIterator\<close>, capacity hints of builders and vectors, and lifetimes carry no behaviour of
  the protocol.  The examples and the tests of the crate.
\<close>

section \<open>Properties\<close>

text \<open>C2: What the registration handler does when the last message of the list of capabilities arrives while it still has to ask for
  some (state \<open>Req\<close>), for a message whose source, if it has one, is well formed.  What it wants is what the closure of the caller
  chooses from the capabilities known by then, with \<open>sasl\<close> if an authenticator can be used.  If none can be used and a login is
  needed, it returns \<open>NoLogin\<close>; if the server has not all that it wants, it returns \<open>MissingCaps\<close> with those that are absent; if
  nothing but possibly \<open>sts\<close> is wanted, it sends \<open>CAP END\<close> at once and awaits the welcome.  Otherwise it asks for exactly the
  capabilities it wants except \<open>sts\<close>, each once; and when the server acknowledges these messages one after the other, addressed to
  any valid nickname (such as \<open>*\<close>) and from any well-formed source or none, the handler sends nothing until the last and then starts
  the first authenticator, or ends the negotiation if there is none.  The names it asks for must be valid keys that do not start
  with a tab or a form feed.\<close>

theorem negotiation_completes:
  assumes "rh_state h = StReq require q0" and "kind_of ls = ''CAP''" and "pred_option src_ok (sm_source ls)"
    and "cap_parse (sm_args ls) = Some (Inr cm)" and "cap_subcmd cm = Ls" and "cap_is_last cm"
    and "caps' = try_insert_all (cap_caps cm) (reg_caps (rh_reg h))" and "avail = set (nm_keys fst caps')"
    and "q = supported_auths caps' q0" and "reqs = requested (require avail) q" and "R = reqs - {''sts''}"
    and "\<forall>k \<in> R. valid Key k \<and> plain_start k" and "valid Nick client" and "pred_option src_ok server"
  shows "if q = [] \<and> rh_needs_auth h then \<exists>h1. rh_handle alloc encode decode ls h = Some (Inl NoLogin, [], h1)
    else if \<not> reqs \<subseteq> avail then \<exists>h1. rh_handle alloc encode decode ls h = Some (Inl (MissingCaps (reqs - avail)), [], h1)
    else if R = {} then
      \<exists>h1. rh_handle alloc encode decode ls h = Some (Inr None, [the cap_end], h1) \<and> rh_state h1 = StAwaitWelcome
    else \<exists>gs h1 h2. rh_handle alloc encode decode ls h = Some (Inr None, map (req_msg req_head) gs, h1) \<and>
      concat gs = sorted_list_of_set R \<and>
      rh_run alloc encode decode (map (cap_reply Ack (Some client) server) gs) h1 = Some (Inr None, acked_msgs q, h2) \<and>
      rh_state h2 = acked_state q"
proof -
  define h1 where "h1 = upd_reg (\<lambda>r. r\<lparr>reg_caps := caps'\<rparr>) (learned ls h)"
  define gs where "gs = pack (req_budget (Some (reg_nick (rh_reg h))) (reg_source (rh_reg h1))) [] (sorted_list_of_set R)"
  note ls = rh_handle_ls [OF assms(1-11) h1_def, of alloc encode decode]
  have "\<exists>h2. rh_run alloc encode decode (map (cap_reply Ack (Some client) server) gs) (h1\<lparr>rh_state := StAck R q\<rparr>) =
        Some (Inr None, acked_msgs q, h2) \<and> rh_state h2 = acked_state q"
    and "rh_handle alloc encode decode ls h = Some (Inr None, map (req_msg req_head) gs, h1\<lparr>rh_state := StAck R q\<rparr>)"
    if c: "\<not> (q = [] \<and> rh_needs_auth h)" "reqs \<subseteq> avail" "R \<noteq> {}"
  proof -
    have fin: "finite R" using c(2) assms(8,11) finite_subset by fastforce
    have cc: "concat gs = sorted_list_of_set R" by (simp add: gs_def concat_pack)
    have "[] \<notin> set gs" unfolding gs_def using fin c(3) by (intro pack_no_Nil) simp
    moreover have "gs \<noteq> []" by (simp add: gs_def)
    ultimately show "\<exists>h2. rh_run alloc encode decode (map (cap_reply Ack (Some client) server) gs) (h1\<lparr>rh_state := StAck R q\<rparr>) =
        Some (Inr None, acked_msgs q, h2) \<and> rh_state h2 = acked_state q"
      using assms(12-14) c(1) fin by (intro acks_complete) (auto simp: cc h1_def simp del: set_concat)
    have "[] \<notin> set (sorted_list_of_set R)" using fin assms(12) by (auto simp: plain_start_def)
    then have "req (sorted_list_of_set R) (Some (reg_nick (rh_reg h))) (reg_source (rh_reg h1)) = Some (map (req_msg req_head) gs)"
      unfolding gs_def by (rule req_packs)
    then show "rh_handle alloc encode decode ls h = Some (Inr None, map (req_msg req_head) gs, h1\<lparr>rh_state := StAck R q\<rparr>)"
      using ls c by simp
  qed
  moreover have "concat gs = sorted_list_of_set R" by (simp add: gs_def concat_pack)
  ultimately show ?thesis using ls by simp blast
qed

definition example_handler :: "mech reg_handler" where
  "example_handler = rh_new (''me'', None) (\<lambda>avail. {''batch''}) False []"

definition example_ls :: server_msg where
  "example_ls = (server_new_cmd ''CAP'')\<lparr>sm_source := Some (new_server ''example.com''),
     sm_args := args_new [''*'', ''LS''] (Some ''batch'')\<rparr>"

lemma example_ls_parse:
  "cap_parse (sm_args example_ls) =
     Some (Inr \<lparr>cap_nick = ''*'', cap_subcmd = Ls, cap_is_last = True, cap_caps = [(''batch'', [])]\<rparr>)"
proof -
  have "map to_ascii_uppercase ''LS'' = into_arg Ls" by code_simp
  moreover have "cap_loop (sp_new False ''batch'') [] = Some [(''batch'', [])]"
    using cap_loop_items [of "sp_new False ''batch''" "[(''batch'', None)]" "[]" "[]"]
    by (simp add: wf_intros slice_simps item_ok_def item_text_def item_entry_def btm_insert_all_def valid_iff invalid_defs
        arg_first_check_def plain_start_def is_ascii_whitespace_def)
  ultimately show ?thesis
    using cap_parse_words [of "''*''" "''LS''" Ls "[]" True "''batch''"]
    by (simp add: example_ls_def valid_iff invalid_defs arg_first_check_def)
qed

theorem negotiation_completes_witness:
  "\<exists>gs h1 h2. rh_handle (\<lambda>n. n) quad_encode quad_decode example_ls example_handler = Some (Inr None, map (req_msg req_head) gs, h1) \<and>
    concat gs = [''batch''] \<and>
    rh_run (\<lambda>n. n) quad_encode quad_decode (map (cap_reply Ack (Some ''*'') (Some (new_server ''example.com''))) gs) h1 =
      Some (Inr None, [the cap_end], h2) \<and>
    rh_state h2 = StAwaitWelcome"
proof -
  have caps: "try_insert_all [(''batch'', [])] nm_new = [((''batch'', []), False)]" by code_simp
  have q: "supported_auths [((''batch'', []), False)] ([] :: mech sasl_queue) = []"
    by (simp add: supported_auths_def sq_clear_def sq_retain_def split: option.splits sum.splits)
  have ls: "sm_source example_ls = Some (new_server ''example.com'')" "kind_of example_ls = ''CAP''"
    by (simp_all add: example_ls_def server_new_cmd_def kind_as_str_def)
  have src: "src_ok (new_server ''example.com'')" "valid Nick ''*''" "valid Key ''batch'' \<and> plain_start ''batch''"
    by (simp_all add: src_ok_def new_server_def valid_iff invalid_defs arg_first_check_def plain_start_def is_ascii_whitespace_def)
  let ?cm = "\<lparr>cap_nick = ''*'', cap_subcmd = Ls, cap_is_last = True, cap_caps = [(''batch'', [])]\<rparr>"
  have h: "rh_state example_handler = StReq (\<lambda>avail. {''batch''}) []" "\<not> rh_needs_auth example_handler"
    "reg_caps (rh_reg example_handler) = nm_new"
    by (simp_all add: example_handler_def rh_new_def reg_new_def)
  have p: "pred_option src_ok (sm_source example_ls)" "cap_subcmd ?cm = Ls" "cap_is_last ?cm"
    "[((''batch'', []), False)] = try_insert_all (cap_caps ?cm) (reg_caps (rh_reg example_handler))"
    "{''batch''} = set (nm_keys fst [((''batch'', []), False)])"
    "[] = supported_auths [((''batch'', []), False)] ([] :: mech sasl_queue)"
    "{''batch''} = requested {''batch''} ([] :: mech sasl_queue)" "{''batch''} = {''batch''} - {''sts''}"
    "\<forall>k \<in> {''batch''}. valid Key k \<and> plain_start k" "pred_option src_ok (Some (new_server ''example.com''))"
    using src by (simp_all add: ls h(3) caps q nm_keys_def requested_def)
  have "\<exists>gs h1 h2. rh_handle (\<lambda>n. n) quad_encode quad_decode example_ls example_handler = Some (Inr None, map (req_msg req_head) gs, h1) \<and>
    concat gs = sorted_list_of_set {''batch''} \<and>
    rh_run (\<lambda>n. n) quad_encode quad_decode (map (cap_reply Ack (Some ''*'') (Some (new_server ''example.com''))) gs) h1 =
      Some (Inr None, acked_msgs ([] :: mech sasl_queue), h2) \<and>
    rh_state h2 = acked_state []"
    using negotiation_completes [OF h(1) ls(2) p(1) example_ls_parse p(2-9) src(2) p(10), of "\<lambda>n. n" quad_encode quad_decode] h(2)
    by (simp only: simp_thms if_False subset_refl insert_not_empty if_True)
  then show ?thesis
    by (simp add: acked_msgs_def acked_state_def auth_from_queue_def sq_pop_def)
qed

end
